(* ===== verification/Prelude.thy ===== *)
theory Prelude
  imports Main "HOL-Library.Word" "HOL-Library.Monad_Syntax" "HOL-Library.Sublist"
begin

text \<open>
  Shared vocabulary of the development: machine types, the error numbers the library stores
  in \<open>errno\<close>, the outcome convention (an operation that may run into a failed
  \<open>zmq_assert\<close>, a NULL dereference or a double free has an \<open>option\<close> result and
  \<open>None\<close> is the abort), an explicit store of heap objects with the laws its users rely
  on, and the list lemmas the components share.
\<close>

section \<open>Collections\<close>

named_theorems heap_simps \<open>how each heap operation changes what a load sees\<close>
named_theorems inv_intros \<open>every operation keeps the invariant of its component\<close>

section \<open>Machine types\<close>

type_synonym byte = "8 word"
type_synonym u16 = "16 word"
type_synonym u32 = "32 word"
type_synonym u64 = "64 word"
type_synonym blob = "byte list"
type_synonym addr = nat

text \<open>The error numbers that the modelled code assigns to \<open>errno\<close>.\<close>

datatype errno =
    EAGAIN | EFAULT | EINVAL | ENOMEM | EPROTO | EMSGSIZE | EFSM | EHOSTUNREACH
  | ENOTSUP | ETERM | ENOCOMPATPROTO | EADDRINUSE | ECONNREFUSED | EMFILE | EACCES | ENOTCONN

section \<open>The assertion macro\<close>

text \<open>\<open>zmq_assert (b)\<close> aborts the process when \<open>b\<close> is false.\<close>

definition zmq_assert :: "bool \<Rightarrow> unit option" where
  "zmq_assert b = (if b then Some () else None)"

lemma zmq_assert_True [simp]: "zmq_assert True = Some ()"
  by (simp add: zmq_assert_def)

lemma zmq_assert_False [simp]: "zmq_assert False = None"
  by (simp add: zmq_assert_def)

lemma zmq_assert_Some_iff [simp]: "zmq_assert b = Some u \<longleftrightarrow> b"
  by (simp add: zmq_assert_def)

lemma zmq_assert_bind [simp]: "b \<Longrightarrow> (zmq_assert b \<bind> f) = f ()"
  by simp

lemma case_sum_eq_Some:
  "(case r of Inl a \<Rightarrow> f a | Inr b \<Rightarrow> g b) = Some x \<longleftrightarrow>
     (\<exists>a. r = Inl a \<and> f a = Some x) \<or> (\<exists>b. r = Inr b \<and> g b = Some x)"
  by (cases r) auto

section \<open>A store of heap objects\<close>

text \<open>
  A heap of objects of one type is a list of cells, an address is an index. \<open>malloc\<close> takes
  the lowest free cell, so an address is reused as soon as it is freed: comparisons of stale
  pointers meet the hardest case. A load, a store or a free at an address that holds no object
  is undefined behaviour of the program, hence \<open>None\<close>.
\<close>

type_synonym 'a heap = "'a option list"

definition heap_load :: "'a heap \<Rightarrow> addr \<Rightarrow> 'a option" where
  "heap_load h a = (if a < length h then h ! a else None)"

definition heap_store :: "'a heap \<Rightarrow> addr \<Rightarrow> 'a \<Rightarrow> 'a heap option" where
  "heap_store h a v = (if heap_load h a = None then None else Some (h[a := Some v]))"

definition heap_free :: "'a heap \<Rightarrow> addr \<Rightarrow> 'a heap option" where
  "heap_free h a = (if heap_load h a = None then None else Some (h[a := None]))"

fun heap_fresh :: "'a heap \<Rightarrow> addr" where
  "heap_fresh [] = 0"
| "heap_fresh (None # h) = 0"
| "heap_fresh (Some v # h) = Suc (heap_fresh h)"

definition heap_alloc :: "'a heap \<Rightarrow> 'a \<Rightarrow> addr \<times> 'a heap" where
  "heap_alloc h v =
     (let a = heap_fresh h
      in (a, if a < length h then h[a := Some v] else h @ [Some v]))"

text \<open>
  The interface the clients of a heap use: what a load returns after each operation, and
  that an operation on a live object succeeds. Everything proved in the block below holds of
  any allocator with these laws.
\<close>

locale heap_laws =
  fixes ld :: "'h \<Rightarrow> addr \<Rightarrow> 'a option"
    and st :: "'h \<Rightarrow> addr \<Rightarrow> 'a \<Rightarrow> 'h option"
    and fr :: "'h \<Rightarrow> addr \<Rightarrow> 'h option"
    and al :: "'h \<Rightarrow> 'a \<Rightarrow> addr \<times> 'h"
  assumes ld_st: "st h a v = Some h' \<Longrightarrow> ld h' = (ld h)(a \<mapsto> v)"
    and st_ok: "ld h a \<noteq> None \<Longrightarrow> \<exists>h'. st h a v = Some h'"
    and st_live: "st h a v = Some h' \<Longrightarrow> ld h a \<noteq> None"
    and ld_fr: "fr h a = Some h' \<Longrightarrow> ld h' = (ld h)(a := None)"
    and fr_ok: "ld h a \<noteq> None \<Longrightarrow> \<exists>h'. fr h a = Some h'"
    and fr_live: "fr h a = Some h' \<Longrightarrow> ld h a \<noteq> None"
    and al_fresh: "al h v = (a, h') \<Longrightarrow> ld h a = None"
    and ld_al: "al h v = (a, h') \<Longrightarrow> ld h' = (ld h)(a \<mapsto> v)"
begin

lemma double_free: "fr h a = Some h' \<Longrightarrow> fr h' a = None"
  using ld_fr [of h a h'] fr_live [of h' a] by (cases "fr h' a") auto

lemma use_after_free: "fr h a = Some h' \<Longrightarrow> st h' a v = None"
  using ld_fr [of h a h'] st_live [of h' a v] by (cases "st h' a v") auto

lemma alloc_keeps: "al h v = (a, h') \<Longrightarrow> ld h b = Some w \<Longrightarrow> ld h' b = Some w"
  using al_fresh [of h v a h'] ld_al [of h v a h'] by auto

lemma alloc_then_free: "al h v = (a, h') \<Longrightarrow> fr h' a = Some h'' \<Longrightarrow> ld h'' = ld h"
  using al_fresh [of h v a h'] ld_al [of h v a h'] ld_fr [of h' a h''] by auto

lemma dom_st: "st h a v = Some h' \<Longrightarrow> dom (ld h') = dom (ld h)"
  using ld_st [of h a v h'] st_live [of h a v h'] by auto

end

lemma heap_fresh_free: "heap_load h (heap_fresh h) = None"
  by (induction h rule: heap_fresh.induct) (auto simp: heap_load_def)

lemma heap_fresh_le: "heap_fresh h \<le> length h"
  by (induction h rule: heap_fresh.induct) auto

lemma heap_load_store: "heap_store h a v = Some h' \<Longrightarrow> heap_load h' = (heap_load h)(a \<mapsto> v)"
  by (auto simp: heap_store_def heap_load_def fun_eq_iff split: if_splits)

lemma heap_load_free: "heap_free h a = Some h' \<Longrightarrow> heap_load h' = (heap_load h)(a := None)"
  by (auto simp: heap_free_def heap_load_def fun_eq_iff split: if_splits)

lemma heap_load_alloc: "heap_alloc h v = (a, h') \<Longrightarrow> heap_load h' = (heap_load h)(a \<mapsto> v)"
  using heap_fresh_le [of h]
  by (auto simp: heap_alloc_def heap_load_def Let_def fun_eq_iff nth_append split: if_splits)

lemma heap_store_ok: "heap_load h a \<noteq> None \<Longrightarrow> \<exists>h'. heap_store h a v = Some h'"
  by (auto simp: heap_store_def)

lemma heap_free_ok: "heap_load h a \<noteq> None \<Longrightarrow> \<exists>h'. heap_free h a = Some h'"
  by (auto simp: heap_free_def)

interpretation hp: heap_laws heap_load heap_store heap_free heap_alloc
proof (unfold_locales, goal_cases)
  case (1 h a v h') then show ?case by (rule heap_load_store)
next
  case (2 h a v) then show ?case by (rule heap_store_ok)
next
  case (3 h a v h') then show ?case by (auto simp: heap_store_def split: if_splits)
next
  case (4 h a h') then show ?case by (rule heap_load_free)
next
  case (5 h a) then show ?case by (rule heap_free_ok)
next
  case (6 h a h') then show ?case by (auto simp: heap_free_def split: if_splits)
next
  case (7 h v a h') then show ?case
    using heap_fresh_free [of h] by (auto simp: heap_alloc_def Let_def)
next
  case (8 h v a h') then show ?case by (rule heap_load_alloc)
qed

lemmas heap_simps_bundle [heap_simps] = hp.ld_st hp.ld_fr hp.ld_al

section \<open>Lists\<close>

text \<open>Exchanging two elements of a vector: \<open>std::swap (items [i], items [j])\<close>.\<close>

definition list_swap :: "'a list \<Rightarrow> nat \<Rightarrow> nat \<Rightarrow> 'a list" where
  "list_swap xs i j = xs[i := xs ! j, j := xs ! i]"

lemma length_list_swap [simp]: "length (list_swap xs i j) = length xs"
  by (simp add: list_swap_def)

lemma list_swap_same [simp]: "list_swap xs i i = xs"
  by (simp add: list_swap_def)

lemma nth_list_swap:
  "i < length xs \<Longrightarrow> j < length xs \<Longrightarrow> k < length xs \<Longrightarrow>
   list_swap xs i j ! k = (if k = j then xs ! i else if k = i then xs ! j else xs ! k)"
  by (auto simp: list_swap_def nth_list_update)

lemma set_list_swap [simp]:
  "i < length xs \<Longrightarrow> j < length xs \<Longrightarrow> set (list_swap xs i j) = set xs"
  by (simp add: list_swap_def)

lemma distinct_list_swap [simp]:
  "i < length xs \<Longrightarrow> j < length xs \<Longrightarrow> distinct (list_swap xs i j) = distinct xs"
  by (simp add: list_swap_def)

text \<open>How many elements of a list satisfy a predicate, and how an update changes that number.\<close>

definition cnt :: "('a \<Rightarrow> bool) \<Rightarrow> 'a list \<Rightarrow> nat" where
  "cnt P xs = length (filter P xs)"

lemma cnt_simps [simp]:
  "cnt P [] = 0" "cnt P (x # xs) = of_bool (P x) + cnt P xs" "cnt P (xs @ ys) = cnt P xs + cnt P ys"
  by (simp_all add: cnt_def)

lemma cnt_le_length: "cnt P xs \<le> length xs"
  by (simp add: cnt_def)

lemma cnt_pos_iff: "0 < cnt P xs \<longleftrightarrow> (\<exists>x \<in> set xs. P x)"
  by (induction xs) auto

lemma cnt_update:
  "i < length xs \<Longrightarrow> cnt P (xs[i := y]) + of_bool (P (xs ! i)) = cnt P xs + of_bool (P y)"
proof (induction xs arbitrary: i)
  case Nil
  then show ?case by simp
next
  case (Cons x xs)
  then show ?case by (cases i) fastforce+
qed

lemma cnt_update_other:
  "i < length xs \<Longrightarrow> P (xs ! i) = P y \<Longrightarrow> cnt P (xs[i := y]) = cnt P xs"
  using cnt_update [of i xs P y] by simp

lemma cnt_one_unique:
  "cnt P xs = 1 \<Longrightarrow> i < length xs \<Longrightarrow> j < length xs \<Longrightarrow> P (xs ! i) \<Longrightarrow> P (xs ! j) \<Longrightarrow> i = j"
proof (rule ccontr)
  assume "cnt P xs = 1" "i < length xs" "j < length xs" "P (xs ! i)" "P (xs ! j)" "i \<noteq> j"
  then have "{i, j} \<subseteq> {k. k < length xs \<and> P (xs ! k)}" "card {k. k < length xs \<and> P (xs ! k)} = 1"
    by (auto simp: cnt_def length_filter_conv_card)
  with \<open>i \<noteq> j\<close> show False
    by (metis card_1_singletonE insert_subset singletonD)
qed

end
