(* ===== verification/Yqueue.thy ===== *)
theory Yqueue
  imports Prelude
begin

text \<open>
  \<open>yqueue_t\<close> (src/libzmq/src/yqueue.hpp): the chunked queue under every pipe. Elements live
  in chunks of \<open>N\<close> cells that are linked both ways; one chunk emptied by the reader is kept
  as the spare one. The chunks are objects of an explicit heap, pointers are addresses, and a
  reference to an element is a pair of a chunk and an index. The theory shows that the queue
  represents a sequence of distinct cells, how each operation changes that sequence, and that
  the destructor releases every chunk exactly once.
\<close>

section \<open>State\<close>

text \<open>\<open>None\<close> in a cell is memory that was never written.\<close>

record 'a chunk =
  chunk_values :: "'a option list"
  chunk_prev :: "addr option"
  chunk_next :: "addr option"

record 'a yqueue =
  chunks :: "'a chunk heap"
  begin_chunk :: addr
  begin_pos :: nat
  back_chunk :: "addr option"
  back_pos :: nat
  end_chunk :: addr
  end_pos :: nat
  spare_chunk :: "addr option"

type_synonym cellptr = "addr \<times> nat"

section \<open>Operations\<close>

definition malloc_chunk :: "nat \<Rightarrow> 'a chunk" where
  "malloc_chunk N = \<lparr>chunk_values = replicate N None, chunk_prev = None, chunk_next = None\<rparr>"

definition set_next :: "'a chunk heap \<Rightarrow> addr \<Rightarrow> addr option \<Rightarrow> 'a chunk heap option" where
  "set_next h a p = do { ch \<leftarrow> heap_load h a; heap_store h a (ch\<lparr>chunk_next := p\<rparr>) }"

definition set_prev :: "'a chunk heap \<Rightarrow> addr \<Rightarrow> addr option \<Rightarrow> 'a chunk heap option" where
  "set_prev h a p = do { ch \<leftarrow> heap_load h a; heap_store h a (ch\<lparr>chunk_prev := p\<rparr>) }"

definition free_opt :: "'a chunk heap \<Rightarrow> addr option \<Rightarrow> 'a chunk heap option" where
  "free_opt h p = (case p of None \<Rightarrow> Some h | Some a \<Rightarrow> heap_free h a)"

definition yqueue_new :: "nat \<Rightarrow> 'a yqueue" where
  "yqueue_new N =
     (let (a, h) = heap_alloc [] (malloc_chunk N)
      in \<lparr>chunks = h, begin_chunk = a, begin_pos = 0, back_chunk = None, back_pos = 0,
          end_chunk = a, end_pos = 0, spare_chunk = None\<rparr>)"

definition yqueue_front :: "'a yqueue \<Rightarrow> cellptr" where
  "yqueue_front q = (begin_chunk q, begin_pos q)"

definition yqueue_back :: "'a yqueue \<Rightarrow> cellptr option" where
  "yqueue_back q = do { c \<leftarrow> back_chunk q; Some (c, back_pos q) }"

text \<open>Reading and assigning through the reference that \<open>front\<close> or \<open>back\<close> returns.\<close>

definition yqueue_deref :: "'a yqueue \<Rightarrow> cellptr \<Rightarrow> 'a option" where
  "yqueue_deref q p =
     do { ch \<leftarrow> heap_load (chunks q) (fst p);
          if snd p < length (chunk_values ch) then chunk_values ch ! snd p else None }"

definition yqueue_assign :: "'a yqueue \<Rightarrow> cellptr \<Rightarrow> 'a \<Rightarrow> 'a yqueue option" where
  "yqueue_assign q p v =
     do { ch \<leftarrow> heap_load (chunks q) (fst p);
          if snd p < length (chunk_values ch)
          then do { h \<leftarrow> heap_store (chunks q) (fst p)
                          (ch\<lparr>chunk_values := (chunk_values ch)[snd p := Some v]\<rparr>);
                    Some (q\<lparr>chunks := h\<rparr>) }
          else None }"

definition yqueue_push :: "nat \<Rightarrow> 'a yqueue \<Rightarrow> 'a yqueue option" where
  "yqueue_push N q0 =
     (let q = q0\<lparr>back_chunk := Some (end_chunk q0), back_pos := end_pos q0,
                 end_pos := Suc (end_pos q0)\<rparr>
      in if end_pos q \<noteq> N then Some q
         else case spare_chunk q of
           Some sc \<Rightarrow>
             do { h \<leftarrow> set_next (chunks q) (end_chunk q) (Some sc);
                  h \<leftarrow> set_prev h sc (Some (end_chunk q));
                  e \<leftarrow> heap_load h (end_chunk q);
                  nx \<leftarrow> chunk_next e;
                  Some (q\<lparr>chunks := h, spare_chunk := None, end_chunk := nx, end_pos := 0\<rparr>) }
         | None \<Rightarrow>
             let (a, h) = heap_alloc (chunks q) (malloc_chunk N)
             in do { h \<leftarrow> set_next h (end_chunk q) (Some a);
                     h \<leftarrow> set_prev h a (Some (end_chunk q));
                     e \<leftarrow> heap_load h (end_chunk q);
                     nx \<leftarrow> chunk_next e;
                     Some (q\<lparr>chunks := h, spare_chunk := None, end_chunk := nx, end_pos := 0\<rparr>) })"

definition unpush_back :: "nat \<Rightarrow> 'a yqueue \<Rightarrow> 'a yqueue option" where
  "unpush_back N q =
     (if back_pos q \<noteq> 0 then Some (q\<lparr>back_pos := back_pos q - 1\<rparr>)
      else do { c \<leftarrow> back_chunk q;
                ch \<leftarrow> heap_load (chunks q) c;
                Some (q\<lparr>back_pos := N - 1, back_chunk := chunk_prev ch\<rparr>) })"

definition unpush_end :: "nat \<Rightarrow> 'a yqueue \<Rightarrow> 'a yqueue option" where
  "unpush_end N q =
     (if end_pos q \<noteq> 0 then Some (q\<lparr>end_pos := end_pos q - 1\<rparr>)
      else do { e \<leftarrow> heap_load (chunks q) (end_chunk q);
                pv \<leftarrow> chunk_prev e;
                p \<leftarrow> heap_load (chunks q) pv;
                h \<leftarrow> free_opt (chunks q) (chunk_next p);
                h \<leftarrow> set_next h pv None;
                Some (q\<lparr>chunks := h, end_pos := N - 1, end_chunk := pv\<rparr>) })"

definition yqueue_unpush :: "nat \<Rightarrow> 'a yqueue \<Rightarrow> 'a yqueue option" where
  "yqueue_unpush N q = do { q \<leftarrow> unpush_back N q; unpush_end N q }"

definition yqueue_pop :: "nat \<Rightarrow> 'a yqueue \<Rightarrow> 'a yqueue option" where
  "yqueue_pop N q0 =
     (let q = q0\<lparr>begin_pos := Suc (begin_pos q0)\<rparr>
      in if begin_pos q = N then
           do { b \<leftarrow> heap_load (chunks q) (begin_chunk q);
                nx \<leftarrow> chunk_next b;
                h \<leftarrow> set_prev (chunks q) nx None;
                h \<leftarrow> free_opt h (spare_chunk q);
                Some (q\<lparr>chunks := h, spare_chunk := Some (begin_chunk q),
                        begin_chunk := nx, begin_pos := 0\<rparr>) }
         else Some q)"

text \<open>The destructor: the loop frees the chain of chunks from the front; the first argument
  bounds its iterations.\<close>

fun free_chain :: "nat \<Rightarrow> 'a chunk heap \<Rightarrow> addr \<Rightarrow> addr \<Rightarrow> 'a chunk heap option" where
  "free_chain 0 h b e = None"
| "free_chain (Suc n) h b e =
     (if b = e then heap_free h b
      else do { ch \<leftarrow> heap_load h b;
                nx \<leftarrow> chunk_next ch;
                h \<leftarrow> heap_free h b;
                free_chain n h nx e })"

definition yqueue_destroy :: "'a yqueue \<Rightarrow> 'a chunk heap option" where
  "yqueue_destroy q =
     do { h \<leftarrow> free_chain (length (chunks q)) (chunks q) (begin_chunk q) (end_chunk q);
          free_opt h (spare_chunk q) }"

section \<open>Representation\<close>

text \<open>
  \<open>yq_inv N cs q\<close>: the chunks of the queue form the chain \<open>cs\<close>, linked in both
  directions, the spare chunk is outside it, and no other chunk is allocated. \<open>cell N cs k\<close> is the
  \<open>k\<close>-th cell of the chain.
\<close>

definition cell :: "nat \<Rightarrow> addr list \<Rightarrow> nat \<Rightarrow> cellptr" where
  "cell N cs k = (cs ! (k div N), k mod N)"

definition yq_end :: "nat \<Rightarrow> addr list \<Rightarrow> 'a yqueue \<Rightarrow> nat" where
  "yq_end N cs q = (length cs - 1) * N + end_pos q"

definition chain_ok :: "nat \<Rightarrow> addr list \<Rightarrow> (addr \<rightharpoonup> 'a chunk) \<Rightarrow> bool" where
  "chain_ok N cs m \<longleftrightarrow> distinct cs \<and>
     (\<forall>i < length cs. \<exists>ch. m (cs ! i) = Some ch \<and> length (chunk_values ch) = N \<and>
        (Suc i < length cs \<longrightarrow> chunk_next ch = Some (cs ! Suc i)) \<and>
        (0 < i \<longrightarrow> chunk_prev ch = Some (cs ! (i - 1))))"

definition spare_ok :: "nat \<Rightarrow> addr list \<Rightarrow> addr option \<Rightarrow> (addr \<rightharpoonup> 'a chunk) \<Rightarrow> bool" where
  "spare_ok N cs sp m \<longleftrightarrow> dom m = set cs \<union> set_option sp \<and>
     (\<forall>s. sp = Some s \<longrightarrow> s \<notin> set cs \<and> (\<exists>ch. m s = Some ch \<and> length (chunk_values ch) = N))"

definition yq_inv :: "nat \<Rightarrow> addr list \<Rightarrow> 'a yqueue \<Rightarrow> bool" where
  "yq_inv N cs q \<longleftrightarrow> 0 < N \<and> cs \<noteq> [] \<and> hd cs = begin_chunk q \<and> last cs = end_chunk q \<and>
     begin_pos q < N \<and> end_pos q < N \<and> begin_pos q \<le> yq_end N cs q \<and>
     chain_ok N cs (heap_load (chunks q)) \<and>
     spare_ok N cs (spare_chunk q) (heap_load (chunks q)) \<and>
     (begin_pos q < yq_end N cs q \<longrightarrow>
        yqueue_back q = Some (cell N cs (yq_end N cs q - 1)))"

definition yq_cells :: "nat \<Rightarrow> addr list \<Rightarrow> 'a yqueue \<Rightarrow> cellptr list" where
  "yq_cells N cs q = map (cell N cs) [begin_pos q ..< yq_end N cs q]"

definition yq_repr :: "nat \<Rightarrow> 'a yqueue \<Rightarrow> cellptr list \<Rightarrow> bool" where
  "yq_repr N q ps \<longleftrightarrow> (\<exists>cs. yq_inv N cs q \<and> ps = yq_cells N cs q)"

section \<open>The chain of chunks\<close>

lemma chain_okD:
  "chain_ok N cs m \<Longrightarrow> i < length cs \<Longrightarrow>
   \<exists>ch. m (cs ! i) = Some ch \<and> length (chunk_values ch) = N \<and>
        (Suc i < length cs \<longrightarrow> chunk_next ch = Some (cs ! Suc i)) \<and>
        (0 < i \<longrightarrow> chunk_prev ch = Some (cs ! (i - 1)))"
  by (auto simp: chain_ok_def)

lemma chain_ok_load: "chain_ok N cs m \<Longrightarrow> c \<in> set cs \<Longrightarrow> \<exists>ch. m c = Some ch \<and> length (chunk_values ch) = N"
  by (metis chain_okD in_set_conv_nth)

lemma chain_ok_cong:
  "(\<And>a. a \<in> set cs \<Longrightarrow> m' a = m a) \<Longrightarrow> chain_ok N cs m' = chain_ok N cs m"
  by (simp add: chain_ok_def)

lemma chain_ok_assign:
  assumes "chain_ok N cs m" "m c = Some ch" "length vs = N"
  shows "chain_ok N cs (m(c \<mapsto> ch\<lparr>chunk_values := vs\<rparr>))"
  using assms by (fastforce simp: chain_ok_def)

lemma chain_ok_snoc:
  assumes ok: "chain_ok N cs m" and ne: "cs \<noteq> []" and a: "a \<notin> set cs"
    and e: "m (last cs) = Some e" and x: "length (chunk_values x) = N"
  shows "chain_ok N (cs @ [a])
           (m(last cs \<mapsto> e\<lparr>chunk_next := Some a\<rparr>, a \<mapsto> x\<lparr>chunk_prev := Some (last cs)\<rparr>))"
proof -
  let ?m = "m(last cs \<mapsto> e\<lparr>chunk_next := Some a\<rparr>, a \<mapsto> x\<lparr>chunk_prev := Some (last cs)\<rparr>)"
  have "\<exists>ch. ?m ((cs @ [a]) ! i) = Some ch \<and> length (chunk_values ch) = N \<and>
        (Suc i < length (cs @ [a]) \<longrightarrow> chunk_next ch = Some ((cs @ [a]) ! Suc i)) \<and>
        (0 < i \<longrightarrow> chunk_prev ch = Some ((cs @ [a]) ! (i - 1)))"
    if i: "i < length (cs @ [a])" for i
  proof (cases "i = length cs")
    case True
    with ne x show ?thesis by (auto simp: nth_append last_conv_nth)
  next
    case False
    with i have i': "i < length cs" by simp
    from chain_okD [OF ok i'] obtain ch where ch: "m (cs ! i) = Some ch"
      "length (chunk_values ch) = N"
      "Suc i < length cs \<longrightarrow> chunk_next ch = Some (cs ! Suc i)"
      "0 < i \<longrightarrow> chunk_prev ch = Some (cs ! (i - 1))" by blast
    have d: "distinct cs" using ok by (simp add: chain_ok_def)
    have na: "cs ! i \<noteq> a" using a i' by auto
    show ?thesis
    proof (cases "Suc i = length cs")
      case True
      then have "last cs = cs ! i" using ne by (metis last_conv_nth diff_Suc_1)
      with True ch e na i' show ?thesis by (auto simp: nth_append)
    next
      case False
      with i' d ne have "cs ! i \<noteq> last cs"
        by (simp add: last_conv_nth nth_eq_iff_index_eq)
      with ch na i' False show ?thesis by (auto simp: nth_append)
    qed
  qed
  with ok a show ?thesis by (simp add: chain_ok_def)
qed

lemma chain_ok_tl:
  assumes ok: "chain_ok N (c # d # cs) m" and d: "m d = Some ch"
  shows "chain_ok N (d # cs) (m(d \<mapsto> ch\<lparr>chunk_prev := None\<rparr>))"
proof -
  let ?m = "m(d \<mapsto> ch\<lparr>chunk_prev := None\<rparr>)"
  have "\<exists>x. ?m ((d # cs) ! i) = Some x \<and> length (chunk_values x) = N \<and>
        (Suc i < length (d # cs) \<longrightarrow> chunk_next x = Some ((d # cs) ! Suc i)) \<and>
        (0 < i \<longrightarrow> chunk_prev x = Some ((d # cs) ! (i - 1)))"
    if i: "i < length (d # cs)" for i
  proof (cases i)
    case 0
    with chain_okD [OF ok, of 1] d show ?thesis by auto
  next
    case (Suc j)
    with i have "cs ! j \<noteq> d" using ok by (auto simp: chain_ok_def)
    with chain_okD [OF ok, of "Suc i"] i Suc show ?thesis by auto
  qed
  with ok show ?thesis by (simp add: chain_ok_def)
qed

lemma chain_ok_butlast:
  assumes ok: "chain_ok N (cs @ [e]) m" and ne: "cs \<noteq> []" and p: "m (last cs) = Some ch"
  shows "chain_ok N cs (m(e := None, last cs \<mapsto> ch\<lparr>chunk_next := None\<rparr>))"
proof -
  let ?m = "m(e := None, last cs \<mapsto> ch\<lparr>chunk_next := None\<rparr>)"
  have d: "distinct (cs @ [e])" using ok by (simp add: chain_ok_def)
  have "\<exists>x. ?m (cs ! i) = Some x \<and> length (chunk_values x) = N \<and>
        (Suc i < length cs \<longrightarrow> chunk_next x = Some (cs ! Suc i)) \<and>
        (0 < i \<longrightarrow> chunk_prev x = Some (cs ! (i - 1)))"
    if i: "i < length cs" for i
  proof -
    from i chain_okD [OF ok, of i] obtain x where x: "m (cs ! i) = Some x"
      "length (chunk_values x) = N"
      "chunk_next x = Some ((cs @ [e]) ! Suc i)"
      "0 < i \<longrightarrow> chunk_prev x = Some (cs ! (i - 1))"
      by (auto simp: nth_append split: if_splits)
    have ie: "cs ! i \<noteq> e" using d i by auto
    show ?thesis
    proof (cases "Suc i = length cs")
      case True
      then have "last cs = cs ! i" using ne by (metis last_conv_nth diff_Suc_1)
      with True x p show ?thesis by auto
    next
      case False
      with i d ne have "cs ! i \<noteq> last cs"
        by (simp add: last_conv_nth nth_eq_iff_index_eq)
      with False x ie i show ?thesis by (auto simp: nth_append)
    qed
  qed
  with d show ?thesis by (simp add: chain_ok_def)
qed

section \<open>Cells\<close>

lemma cell_inj:
  assumes "distinct cs" "i < length cs * N" "j < length cs * N" "cell N cs i = cell N cs j"
  shows "i = j"
proof -
  have "i div N < length cs" "j div N < length cs"
    using assms by (simp_all add: less_mult_imp_div_less)
  with assms(1,4) have "i div N = j div N" by (simp add: cell_def nth_eq_iff_index_eq)
  moreover have "i mod N = j mod N" using assms(4) by (simp add: cell_def)
  ultimately show ?thesis by (metis div_mult_mod_eq)
qed

lemma cell_append: "k < length cs * N \<Longrightarrow> cell N (cs @ ds) k = cell N cs k"
  by (simp add: cell_def nth_append less_mult_imp_div_less)

lemma cell_Cons: "0 < N \<Longrightarrow> cell N (c # cs) (N + k) = cell N cs k"
  by (simp add: cell_def div_add_self1)

lemma yq_end_less: "yq_inv N cs q \<Longrightarrow> yq_end N cs q < length cs * N"
  by (cases cs) (auto simp: yq_inv_def yq_end_def)

lemma cell_end: "0 < N \<Longrightarrow> cs \<noteq> [] \<Longrightarrow> end_pos q < N \<Longrightarrow> cell N cs (yq_end N cs q) = (last cs, end_pos q)"
  by (simp add: cell_def yq_end_def last_conv_nth)

lemma cell_begin: "yq_inv N cs q \<Longrightarrow> cell N cs (begin_pos q) = yqueue_front q"
  by (auto simp: yq_inv_def cell_def yqueue_front_def hd_conv_nth)

lemma yq_cells_distinct: "yq_inv N cs q \<Longrightarrow> distinct (yq_cells N cs q)"
  using yq_end_less [of N cs q]
  by (auto simp: yq_cells_def distinct_map inj_on_def yq_inv_def chain_ok_def
      intro: cell_inj [of cs _ N])

lemma yq_cells_Nil_iff: "yq_cells N cs q = [] \<longleftrightarrow> yq_end N cs q \<le> begin_pos q"
  by (auto simp: yq_cells_def)

lemma yq_cells_chunk: "yq_inv N cs q \<Longrightarrow> p \<in> set (yq_cells N cs q) \<Longrightarrow> fst p \<in> set cs"
  using yq_end_less [of N cs q]
  by (auto simp: yq_cells_def cell_def less_mult_imp_div_less)

lemma yq_cells_pos: "yq_inv N cs q \<Longrightarrow> p \<in> set (yq_cells N cs q) \<Longrightarrow> snd p < N"
  by (auto simp: yq_cells_def cell_def yq_inv_def)

section \<open>What each operation does to the sequence of cells\<close>

lemma set_next_load:
  "heap_load h a = Some ch \<Longrightarrow>
   \<exists>h'. set_next h a p = Some h' \<and> heap_load h' = (heap_load h)(a \<mapsto> ch\<lparr>chunk_next := p\<rparr>)"
  using hp.st_ok [of h a] by (auto simp: set_next_def dest: hp.ld_st)

lemma set_prev_load:
  "heap_load h a = Some ch \<Longrightarrow>
   \<exists>h'. set_prev h a p = Some h' \<and> heap_load h' = (heap_load h)(a \<mapsto> ch\<lparr>chunk_prev := p\<rparr>)"
  using hp.st_ok [of h a] by (auto simp: set_prev_def dest: hp.ld_st)

lemma free_opt_load:
  "(\<And>a. p = Some a \<Longrightarrow> heap_load h a \<noteq> None) \<Longrightarrow>
   \<exists>h'. free_opt h p = Some h' \<and> heap_load h' = (heap_load h) |` (- set_option p)"
  using hp.fr_ok [of h] by (cases p) (fastforce simp: free_opt_def restrict_map_def fun_eq_iff dest: hp.ld_fr)+

lemma deref_values:
  "map_option chunk_values (heap_load (chunks q') (fst p)) =
   map_option chunk_values (heap_load (chunks q) (fst p)) \<Longrightarrow> yqueue_deref q' p = yqueue_deref q p"
  by (auto simp: yqueue_deref_def map_option_case bind_eq_None_conv split: option.splits)

text \<open>The two ways \<open>push\<close> gets its next chunk end in the same link step.\<close>

definition link_chunk :: "'a yqueue \<Rightarrow> 'a chunk heap \<Rightarrow> addr \<Rightarrow> 'a yqueue option" where
  "link_chunk q h a =
     do { h \<leftarrow> set_next h (end_chunk q) (Some a);
          h \<leftarrow> set_prev h a (Some (end_chunk q));
          e \<leftarrow> heap_load h (end_chunk q);
          nx \<leftarrow> chunk_next e;
          Some (q\<lparr>chunks := h, spare_chunk := None, end_chunk := nx, end_pos := 0\<rparr>) }"

lemma yqueue_push_alt:
  "yqueue_push N q0 =
     (let q = q0\<lparr>back_chunk := Some (end_chunk q0), back_pos := end_pos q0,
                 end_pos := Suc (end_pos q0)\<rparr>
      in if end_pos q \<noteq> N then Some q
         else case spare_chunk q of
           Some sc \<Rightarrow> link_chunk q (chunks q) sc
         | None \<Rightarrow> (case heap_alloc (chunks q) (malloc_chunk N) of (a, h) \<Rightarrow> link_chunk q h a))"
  by (simp add: yqueue_push_def link_chunk_def Let_def split: option.split prod.split)

lemma link_chunk_inv:
  assumes ok: "chain_ok N cs (heap_load h)" and ne: "cs \<noteq> []" and a: "a \<notin> set cs"
    and last: "last cs = end_chunk q"
    and x: "heap_load h a = Some x" "length (chunk_values x) = N"
    and dom: "dom (heap_load h) = insert a (set cs)"
  shows "\<exists>h'. link_chunk q h a =
            Some (q\<lparr>chunks := h', spare_chunk := None, end_chunk := a, end_pos := 0\<rparr>) \<and>
          chain_ok N (cs @ [a]) (heap_load h') \<and> spare_ok N (cs @ [a]) None (heap_load h') \<and>
          (\<forall>c \<in> set cs. map_option chunk_values (heap_load h' c) =
                        map_option chunk_values (heap_load h c))"
proof -
  have l: "last cs \<in> set cs" "last cs \<noteq> a" using ne a by auto
  obtain e where e: "heap_load h (last cs) = Some e"
    using chain_ok_load [OF ok l(1)] by auto
  obtain h1 where h1: "set_next h (last cs) (Some a) = Some h1"
    "heap_load h1 = (heap_load h)(last cs \<mapsto> e\<lparr>chunk_next := Some a\<rparr>)"
    using set_next_load [OF e] by blast
  have x1: "heap_load h1 a = Some x" using h1(2) x(1) l(2) by simp
  obtain h2 where h2: "set_prev h1 a (Some (last cs)) = Some h2"
    "heap_load h2 = (heap_load h1)(a \<mapsto> x\<lparr>chunk_prev := Some (last cs)\<rparr>)"
    using set_prev_load [OF x1] by blast
  have eq: "heap_load h2 = (heap_load h)(last cs \<mapsto> e\<lparr>chunk_next := Some a\<rparr>,
      a \<mapsto> x\<lparr>chunk_prev := Some (last cs)\<rparr>)" using h1(2) h2(2) by simp
  have "link_chunk q h a = Some (q\<lparr>chunks := h2, spare_chunk := None, end_chunk := a, end_pos := 0\<rparr>)"
    using h1(1) h2(1) l(2) by (simp add: link_chunk_def last [symmetric] eq)
  moreover have "chain_ok N (cs @ [a]) (heap_load h2)"
    unfolding eq by (rule chain_ok_snoc [OF ok ne a e x(2)])
  moreover have "spare_ok N (cs @ [a]) None (heap_load h2)"
    using dom l by (auto simp: spare_ok_def eq)
  moreover have "\<forall>c \<in> set cs. map_option chunk_values (heap_load h2 c) =
      map_option chunk_values (heap_load h c)"
    using a e by (auto simp: eq)
  ultimately show ?thesis by blast
qed

lemma yq_inv_unfold:
  assumes "yq_inv N cs q"
  shows "0 < N" "cs \<noteq> []" "hd cs = begin_chunk q" "last cs = end_chunk q" "begin_pos q < N"
    "end_pos q < N" "begin_pos q \<le> yq_end N cs q" "chain_ok N cs (heap_load (chunks q))"
    "spare_ok N cs (spare_chunk q) (heap_load (chunks q))"
    "begin_pos q < yq_end N cs q \<Longrightarrow> yqueue_back q = Some (cell N cs (yq_end N cs q - 1))"
  using assms by (auto simp: yq_inv_def)

text \<open>A queue whose end moved one cell up represents one more cell.\<close>

lemma yq_inv_grow:
  assumes inv: "yq_inv N cs q" and e: "yq_end N (cs @ ds) q' = Suc (yq_end N cs q)"
    and b: "begin_pos q' = begin_pos q" "begin_chunk q' = begin_chunk q"
    and l: "last (cs @ ds) = end_chunk q'" "end_pos q' < N"
    and ok: "chain_ok N (cs @ ds) (heap_load (chunks q'))"
      "spare_ok N (cs @ ds) (spare_chunk q') (heap_load (chunks q'))"
    and bk: "yqueue_back q' = Some (end_chunk q, end_pos q)"
  shows "yq_inv N (cs @ ds) q' \<and>
         yq_cells N (cs @ ds) q' = yq_cells N cs q @ [(end_chunk q, end_pos q)]"
proof -
  note u = yq_inv_unfold [OF inv]
  have lt: "yq_end N cs q < length cs * N" by (rule yq_end_less [OF inv])
  have c: "cell N (cs @ ds) (yq_end N cs q) = (end_chunk q, end_pos q)"
    using cell_append [OF lt, of ds] cell_end [OF u(1,2,6)] u(4) by simp
  have "map (cell N (cs @ ds)) [begin_pos q ..< yq_end N cs q] = yq_cells N cs q"
    using lt by (auto simp: yq_cells_def intro!: cell_append)
  with u e c b have "yq_cells N (cs @ ds) q' = yq_cells N cs q @ [(end_chunk q, end_pos q)]"
    by (simp add: yq_cells_def)
  with u e b l ok bk c show ?thesis by (auto simp: yq_inv_def hd_append)
qed

lemma yqueue_push_inv:
  assumes inv: "yq_inv N cs q"
  shows "\<exists>q' cs'. yqueue_push N q = Some q' \<and> yq_inv N cs' q' \<and>
           yq_cells N cs' q' = yq_cells N cs q @ [(end_chunk q, end_pos q)] \<and>
           (\<forall>p. fst p \<in> set cs \<longrightarrow> yqueue_deref q' p = yqueue_deref q p)"
proof -
  note u = yq_inv_unfold [OF inv]
  let ?q = "q\<lparr>back_chunk := Some (end_chunk q), back_pos := end_pos q, end_pos := Suc (end_pos q)\<rparr>"
  show ?thesis
  proof (cases "Suc (end_pos q) = N")
    case False
    then have "yqueue_push N q = Some ?q" by (simp add: yqueue_push_def Let_def)
    moreover have "yq_inv N (cs @ []) ?q \<and>
        yq_cells N (cs @ []) ?q = yq_cells N cs q @ [(end_chunk q, end_pos q)]"
      by (rule yq_inv_grow [OF inv]) (use u False in \<open>auto simp: yq_end_def yqueue_back_def\<close>)
    ultimately show ?thesis by (auto intro!: deref_values)
  next
    case True
    have "\<exists>a h. yqueue_push N q = link_chunk ?q h a \<and> a \<notin> set cs \<and>
        (\<exists>x. heap_load h a = Some x \<and> length (chunk_values x) = N) \<and>
        dom (heap_load h) = insert a (set cs) \<and>
        (\<forall>c \<in> set cs. heap_load h c = heap_load (chunks q) c)"
    proof (cases "spare_chunk q")
      case (Some sc)
      with True u(9) show ?thesis
        by (auto simp: yqueue_push_alt spare_ok_def Let_def)
    next
      case None
      obtain a h where ah: "heap_alloc (chunks q) (malloc_chunk N) = (a, h)" by fastforce
      have fresh: "heap_load (chunks q) a = None" by (rule hp.al_fresh [OF ah])
      have ld: "heap_load h = (heap_load (chunks q))(a \<mapsto> malloc_chunk N)"
        by (rule hp.ld_al [OF ah])
      have "a \<notin> set cs" using fresh chain_ok_load [OF u(8)] by fastforce
      with None True ah ld u(9) show ?thesis
        by (intro exI [of _ a] exI [of _ h])
           (auto simp: yqueue_push_alt spare_ok_def Let_def malloc_chunk_def)
    qed
    then obtain a h x where a: "yqueue_push N q = link_chunk ?q h a" "a \<notin> set cs"
      "heap_load h a = Some x" "length (chunk_values x) = N"
      "dom (heap_load h) = insert a (set cs)"
      "\<forall>c \<in> set cs. heap_load h c = heap_load (chunks q) c" by blast
    have ok: "chain_ok N cs (heap_load h)"
      using u(8) a(6) by (simp add: chain_ok_cong [of cs "heap_load h" "heap_load (chunks q)"])
    obtain h' where h': "link_chunk ?q h a =
        Some (?q\<lparr>chunks := h', spare_chunk := None, end_chunk := a, end_pos := 0\<rparr>)"
      "chain_ok N (cs @ [a]) (heap_load h')" "spare_ok N (cs @ [a]) None (heap_load h')"
      "\<forall>c \<in> set cs. map_option chunk_values (heap_load h' c) =
                    map_option chunk_values (heap_load h c)"
      using link_chunk_inv [OF ok u(2) a(2) _ a(3,4,5), of ?q] u(4) by auto
    let ?q' = "?q\<lparr>chunks := h', spare_chunk := None, end_chunk := a, end_pos := 0\<rparr>"
    have e: "yq_end N (cs @ [a]) ?q' = Suc (yq_end N cs q)"
      using u(2) True by (cases cs) (auto simp: yq_end_def)
    have "yq_inv N (cs @ [a]) ?q' \<and>
        yq_cells N (cs @ [a]) ?q' = yq_cells N cs q @ [(end_chunk q, end_pos q)]"
      by (rule yq_inv_grow [OF inv e]) (use u(1) h' in \<open>auto simp: yqueue_back_def\<close>)
    moreover have "\<forall>p. fst p \<in> set cs \<longrightarrow> yqueue_deref ?q' p = yqueue_deref q p"
      using h'(4) a(6) by (auto intro!: deref_values)
    ultimately show ?thesis using a(1) h'(1) by auto
  qed
qed

lemma yqueue_pop_inv:
  assumes inv: "yq_inv N cs q" and ne: "yq_cells N cs q \<noteq> []"
  shows "\<exists>q' cs'. yqueue_pop N q = Some q' \<and> yq_inv N cs' q' \<and>
           yq_cells N cs' q' = tl (yq_cells N cs q) \<and> yqueue_back q' = yqueue_back q \<and>
           (\<forall>p. fst p \<in> set cs' \<longrightarrow> yqueue_deref q' p = yqueue_deref q p)"
proof -
  note u = yq_inv_unfold [OF inv]
  have be: "begin_pos q < yq_end N cs q" using ne by (simp add: yq_cells_Nil_iff)
  have tl: "tl (yq_cells N cs q) = map (cell N cs) [Suc (begin_pos q) ..< yq_end N cs q]"
    using be by (simp add: yq_cells_def upt_conv_Cons)
  show ?thesis
  proof (cases "Suc (begin_pos q) = N")
    case False
    let ?q = "q\<lparr>begin_pos := Suc (begin_pos q)\<rparr>"
    have "yqueue_pop N q = Some ?q" using False by (simp add: yqueue_pop_def)
    moreover have "yq_inv N cs ?q" using u be False
      by (auto simp: yq_inv_def yq_end_def yqueue_back_def)
    moreover have "yq_cells N cs ?q = tl (yq_cells N cs q)"
      unfolding tl by (simp add: yq_cells_def yq_end_def)
    ultimately show ?thesis by (auto intro!: deref_values simp: yqueue_back_def)
  next
    case True
    have "length cs \<noteq> 1" using u be True by (auto simp: yq_end_def)
    with u(2) obtain c d ds where cs: "cs = c # d # ds" by (cases cs; cases "tl cs") auto
    let ?m = "heap_load (chunks q)"
    from u(8) have "chain_ok N (c # d # ds) ?m" by (simp add: cs)
    from chain_okD [OF this, of 0] chain_okD [OF this, of 1]
    obtain cc dd where ld: "?m c = Some cc" "chunk_next cc = Some d" "?m d = Some dd"
      by auto
    obtain h1 where h1: "set_prev (chunks q) d None = Some h1"
      "heap_load h1 = ?m(d \<mapsto> dd\<lparr>chunk_prev := None\<rparr>)" using set_prev_load [OF ld(3)] by blast
    have sp: "spare_ok N cs (spare_chunk q) ?m" by (rule u(9))
    have "heap_load h1 a \<noteq> None" if "spare_chunk q = Some a" for a
      using sp that h1(2) by (auto simp: spare_ok_def)
    then obtain h2 where h2: "free_opt h1 (spare_chunk q) = Some h2"
      "heap_load h2 = heap_load h1 |` (- set_option (spare_chunk q))"
      using free_opt_load by metis
    have ns: "a \<notin> set_option (spare_chunk q)" if "a \<in> set cs" for a
      using sp that by (auto simp: spare_ok_def)
    let ?q = "q\<lparr>chunks := h2, spare_chunk := Some c, begin_chunk := d, begin_pos := 0\<rparr>"
    have pop: "yqueue_pop N q = Some ?q"
      using True u(3) cs ld h1 h2 by (simp add: yqueue_pop_def)
    have dcs: "c \<notin> set (d # ds)" using u(8) by (simp add: chain_ok_def cs)
    have m2: "heap_load h2 a = (?m(d \<mapsto> dd\<lparr>chunk_prev := None\<rparr>)) a" if "a \<in> set cs" for a
      using ns [OF that] by (simp add: h2(2) h1(2) restrict_map_def)
    have "chain_ok N (d # ds) (?m(d \<mapsto> dd\<lparr>chunk_prev := None\<rparr>))"
      by (rule chain_ok_tl [of N c]) (use u(8) cs ld in auto)
    then have ch: "chain_ok N (d # ds) (heap_load h2)"
      by (subst chain_ok_cong [of _ _ "?m(d \<mapsto> dd\<lparr>chunk_prev := None\<rparr>)"]) (auto simp: m2 cs)
    have "dom (heap_load h2) = insert d (dom ?m) - set_option (spare_chunk q)"
      by (auto simp add: h2(2) h1(2))
    moreover have "dom ?m = set cs \<union> set_option (spare_chunk q)" "d \<in> set cs"
      using sp by (simp_all add: spare_ok_def cs)
    moreover have "set cs \<inter> set_option (spare_chunk q) = {}" using ns by (simp add: disjoint_iff)
    ultimately have "dom (heap_load h2) = set cs"
      by (simp add: insert_absorb Un_Diff Diff_triv)
    moreover have "\<exists>ch. heap_load h2 c = Some ch \<and> length (chunk_values ch) = N"
    proof -
      have "c \<in> set cs" "c \<noteq> d" using dcs by (auto simp: cs)
      then show ?thesis using m2 [of c] chain_ok_load [OF u(8), of c] by simp
    qed
    ultimately have sp': "spare_ok N (d # ds) (Some c) (heap_load h2)"
      using dcs by (auto simp: spare_ok_def cs)
    have e: "yq_end N cs q = N + yq_end N (d # ds) ?q" by (simp add: yq_end_def cs)
    have cells: "map (cell N (d # ds)) [0 ..< n] = map (cell N cs) [N ..< N + n]" for n
      using u(1) by (induction n) (auto simp: cs cell_Cons)
    have bk: "yqueue_back ?q = Some (cell N (d # ds) (yq_end N (d # ds) ?q - 1))"
      if "0 < yq_end N (d # ds) ?q"
    proof -
      have "yq_end N cs q - 1 = N + (yq_end N (d # ds) ?q - 1)" using e that by simp
      then show ?thesis using u(10) [OF be] cell_Cons [OF u(1)] by (simp add: cs yqueue_back_def)
    qed
    have "yq_inv N (d # ds) ?q"
      using u(1,4,6) ch sp' bk unfolding yq_inv_def by (simp add: cs)
    moreover have "yq_cells N (d # ds) ?q = tl (yq_cells N cs q)"
      unfolding tl using e True cells by (simp add: yq_cells_def)
    moreover have "\<forall>p. fst p \<in> set (d # ds) \<longrightarrow> yqueue_deref ?q p = yqueue_deref q p"
      using m2 ld by (auto intro!: deref_values simp: cs)
    moreover have "yqueue_back ?q = yqueue_back q" by (simp add: yqueue_back_def)
    ultimately show ?thesis using pop by blast
  qed
qed

lemma cell_pred:
  assumes ok: "chain_ok N cs m" and N: "0 < N" and k: "0 < k" "k < length cs * N"
    and c: "cell N cs k = (c, i)"
  shows "if i \<noteq> 0 then cell N cs (k - 1) = (c, i - 1)
         else \<exists>ch pv. m c = Some ch \<and> chunk_prev ch = Some pv \<and> cell N cs (k - 1) = (pv, N - 1)"
proof (cases "i = 0")
  case False
  have i: "i = k mod N" "c = cs ! (k div N)" using c by (simp_all add: cell_def)
  have "k - 1 = k div N * N + (i - 1)"
    using False div_mult_mod_eq [of k N] unfolding i(1) by linarith
  moreover have "i - 1 < N" using i N by (simp add: less_imp_diff_less)
  ultimately have "cell N cs (k - 1) = (c, i - 1)"
    using N i(2) by (simp add: cell_def)
  with False show ?thesis by simp
next
  case True
  then have "N dvd k" using c by (auto simp: cell_def mod_eq_0_iff_dvd)
  then obtain j where j: "k = j * N" by (metis dvd_def mult.commute)
  with k N have j0: "0 < j" "j < length cs" by auto
  from chain_okD [OF ok j0(2)] j0(1) obtain ch where
    "m (cs ! j) = Some ch" "chunk_prev ch = Some (cs ! (j - 1))" by blast
  moreover obtain M where M: "N = Suc M" using N by (cases N) auto
  then have "k - 1 = M + (j - 1) * N" using j j0 by (cases j) auto
  then have "cell N cs (k - 1) = (cs ! (j - 1), N - 1)"
    using M N by (simp only: cell_def div_mult_self1 mod_mult_self1) simp
  moreover have "c = cs ! j" using c j N by (simp add: cell_def)
  ultimately show ?thesis using True by auto
qed

lemma unpush_back_inv:
  assumes inv: "yq_inv N cs q" and two: "Suc (begin_pos q) < yq_end N cs q"
  shows "\<exists>bp bc. unpush_back N q = Some (q\<lparr>back_pos := bp, back_chunk := bc\<rparr>) \<and>
           yqueue_back (q\<lparr>back_pos := bp, back_chunk := bc\<rparr>) = Some (cell N cs (yq_end N cs q - 2))"
proof -
  note u = yq_inv_unfold [OF inv]
  let ?k = "yq_end N cs q - 1"
  obtain c i where ci: "cell N cs ?k = (c, i)" by fastforce
  have bk: "back_chunk q = Some c" "back_pos q = i"
    using u(10) two ci by (auto simp: yqueue_back_def bind_eq_Some_conv)
  have k: "0 < ?k" "?k < length cs * N" using two yq_end_less [OF inv] by auto
  have k2: "?k - 1 = yq_end N cs q - 2" by simp
  show ?thesis
  proof (cases "i = 0")
    case True
    with cell_pred [OF u(8,1) k ci] obtain ch pv where
      "heap_load (chunks q) c = Some ch" "chunk_prev ch = Some pv"
      "cell N cs (yq_end N cs q - 2) = (pv, N - 1)" unfolding k2 by auto
    with True bk show ?thesis
      by (intro exI [of _ "N - 1"] exI [of _ "Some pv"]) (simp add: unpush_back_def yqueue_back_def)
  next
    case False
    with cell_pred [OF u(8,1) k ci] have "cell N cs (yq_end N cs q - 2) = (c, i - 1)"
      unfolding k2 by auto
    with False bk show ?thesis
      by (intro exI [of _ "i - 1"] exI [of _ "Some c"]) (simp add: unpush_back_def yqueue_back_def)
  qed
qed

text \<open>A queue whose end moved one cell down represents one cell less.\<close>

lemma yq_inv_shrink:
  assumes inv: "yq_inv N (cs @ ds) q" and ne: "cs \<noteq> []" and two: "Suc (begin_pos q) < yq_end N (cs @ ds) q"
    and e: "yq_end N cs q' = yq_end N (cs @ ds) q - 1"
    and b: "begin_pos q' = begin_pos q" "begin_chunk q' = begin_chunk q"
    and l: "last cs = end_chunk q'" "end_pos q' < N"
    and ok: "chain_ok N cs (heap_load (chunks q'))"
      "spare_ok N cs (spare_chunk q') (heap_load (chunks q'))"
    and bk: "yqueue_back q' = Some (cell N (cs @ ds) (yq_end N (cs @ ds) q - 2))"
  shows "yq_inv N cs q' \<and> yq_cells N cs q' = butlast (yq_cells N (cs @ ds) q)"
proof -
  note u = yq_inv_unfold [OF inv]
  have lt: "yq_end N cs q' < length cs * N"
    using ne l(2) u(1) by (cases cs) (auto simp: yq_end_def)
  have c: "cell N (cs @ ds) k = cell N cs k" if "k < yq_end N cs q'" for k
    using that lt by (simp add: cell_append)
  have "yq_end N (cs @ ds) q = Suc (yq_end N cs q')" using e two by simp
  then have "butlast (yq_cells N (cs @ ds) q) = map (cell N (cs @ ds)) [begin_pos q ..< yq_end N cs q']"
    using two by (simp add: yq_cells_def)
  also have "\<dots> = yq_cells N cs q'" using b c by (simp add: yq_cells_def)
  finally have "yq_cells N cs q' = butlast (yq_cells N (cs @ ds) q)" ..
  moreover have "yqueue_back q' = Some (cell N cs (yq_end N cs q' - 1))"
    using bk c [of "yq_end N cs q' - 1"] e two by (simp add: numeral_2_eq_2)
  ultimately show ?thesis
    using u(1-5) ne e b l ok two unfolding yq_inv_def by simp
qed

lemma yqueue_unpush_inv:
  assumes inv: "yq_inv N cs q" and two: "2 \<le> length (yq_cells N cs q)"
  shows "\<exists>q' cs'. yqueue_unpush N q = Some q' \<and> yq_inv N cs' q' \<and>
           yq_cells N cs' q' = butlast (yq_cells N cs q) \<and>
           (\<forall>p. fst p \<in> set cs' \<longrightarrow> yqueue_deref q' p = yqueue_deref q p)"
proof -
  note u = yq_inv_unfold [OF inv]
  have be: "Suc (begin_pos q) < yq_end N cs q" using two by (simp add: yq_cells_def)
  obtain bp bc where b: "unpush_back N q = Some (q\<lparr>back_pos := bp, back_chunk := bc\<rparr>)"
    "yqueue_back (q\<lparr>back_pos := bp, back_chunk := bc\<rparr>) = Some (cell N cs (yq_end N cs q - 2))"
    using unpush_back_inv [OF inv be] by blast
  let ?q = "q\<lparr>back_pos := bp, back_chunk := bc\<rparr>"
  show ?thesis
  proof (cases "end_pos q = 0")
    case False
    let ?q' = "?q\<lparr>end_pos := end_pos q - 1\<rparr>"
    have "yqueue_unpush N q = Some ?q'" using b(1) False by (simp add: yqueue_unpush_def unpush_end_def)
    moreover have "yq_inv N cs ?q' \<and> yq_cells N cs ?q' = butlast (yq_cells N (cs @ []) q)"
      by (rule yq_inv_shrink) (use u False inv be b in \<open>auto simp: yq_end_def yqueue_back_def\<close>)
    ultimately show ?thesis by (auto intro!: deref_values)
  next
    case True
    then have "length cs \<noteq> 1" using be by (auto simp: yq_end_def)
    then obtain ds e where cs: "cs = ds @ [e]" "ds \<noteq> []" using u(2) by (cases cs rule: rev_cases) auto
    let ?m = "heap_load (chunks q)"
    have e: "end_chunk q = e" using u(4) cs by simp
    have dist: "e \<notin> set ds" "last ds \<noteq> e" "last ds \<in> set ds"
      using u(8) cs by (auto simp: chain_ok_def)
    have ix: "cs ! (length ds - 1) = last ds" "cs ! length ds = e"
      using cs by (simp_all add: nth_append last_conv_nth)
    have lt: "length ds < length cs" "length ds - 1 < length cs" "0 < length ds"
      "Suc (length ds - 1) = length ds" using cs by auto
    obtain ec where ld1: "?m e = Some ec" "chunk_prev ec = Some (last ds)"
      using chain_okD [OF u(8) lt(1)] ix lt(3) by auto
    obtain pc where ld2: "?m (last ds) = Some pc" "chunk_next pc = Some e"
      using chain_okD [OF u(8) lt(2)] ix lt by auto
    note ld = ld1 ld2
    obtain h1 where h1: "free_opt (chunks q) (Some e) = Some h1" "heap_load h1 = ?m(e := None)"
      using hp.fr_ok [of "chunks q" e] ld(1) by (auto simp: free_opt_def dest: hp.ld_fr)
    have "heap_load h1 (last ds) = Some pc" using h1(2) ld(3) dist by simp
    from set_next_load [OF this, of None] obtain h2 where h2: "set_next h1 (last ds) None = Some h2"
      "heap_load h2 = ?m(e := None, last ds \<mapsto> pc\<lparr>chunk_next := None\<rparr>)" using h1(2) by auto
    let ?q' = "?q\<lparr>chunks := h2, end_pos := N - 1, end_chunk := last ds\<rparr>"
    have "yqueue_unpush N q = Some ?q'"
      using b(1) True e ld h1(1) h2(1) by (simp add: yqueue_unpush_def unpush_end_def)
    moreover have "yq_inv N ds ?q' \<and> yq_cells N ds ?q' = butlast (yq_cells N (ds @ [e]) q)"
    proof (rule yq_inv_shrink)
      show "chain_ok N ds (heap_load (chunks ?q'))"
        using chain_ok_butlast [of N ds e ?m pc] u(8) cs ld(3) h2(2) by simp
      show "spare_ok N ds (spare_chunk ?q') (heap_load (chunks ?q'))"
        using u(9) dist h2(2) ld(3) by (auto simp: spare_ok_def cs)
      show "yq_end N ds ?q' = yq_end N (ds @ [e]) q - 1"
        using True u(1) cs(2) by (cases ds) (auto simp: yq_end_def)
    qed (use inv be b cs u in \<open>auto simp: yqueue_back_def\<close>)
    moreover have "\<forall>p. fst p \<in> set ds \<longrightarrow> yqueue_deref ?q' p = yqueue_deref q p"
      using h2(2) ld(3) dist by (auto intro!: deref_values)
    ultimately show ?thesis using cs(1) by auto
  qed
qed

lemma yqueue_assign_inv:
  assumes inv: "yq_inv N cs q" and p: "p \<in> set (yq_cells N cs q)"
  shows "\<exists>q'. yqueue_assign q p v = Some q' \<and> yq_inv N cs q' \<and> yq_cells N cs q' = yq_cells N cs q \<and>
           yqueue_back q' = yqueue_back q \<and>
           (\<forall>p'. yqueue_deref q' p' = (if p' = p then Some v else yqueue_deref q p'))"
proof -
  note u = yq_inv_unfold [OF inv]
  let ?m = "heap_load (chunks q)"
  obtain ch where ch: "?m (fst p) = Some ch" "length (chunk_values ch) = N"
    using chain_ok_load [OF u(8) yq_cells_chunk [OF inv p]] by blast
  have pN: "snd p < N" by (rule yq_cells_pos [OF inv p])
  let ?ch = "ch\<lparr>chunk_values := (chunk_values ch)[snd p := Some v]\<rparr>"
  obtain h where h: "heap_store (chunks q) (fst p) ?ch = Some h" "heap_load h = ?m(fst p \<mapsto> ?ch)"
    using hp.st_ok [of "chunks q" "fst p" ?ch] ch(1) by (auto dest: hp.ld_st)
  let ?q = "q\<lparr>chunks := h\<rparr>"
  have "yqueue_assign q p v = Some ?q" using ch pN h(1) by (simp add: yqueue_assign_def)
  moreover have "chain_ok N cs (heap_load h)"
    unfolding h(2) by (rule chain_ok_assign [OF u(8) ch(1)]) (simp add: ch(2))
  moreover have "spare_ok N cs (spare_chunk q) (heap_load h)"
    using u(9) ch h(2) by (auto simp: spare_ok_def)
  moreover have "yqueue_deref ?q p' = (if p' = p then Some v else yqueue_deref q p')" for p'
    using h(2) ch pN by (cases p'; cases p) (auto simp: yqueue_deref_def nth_list_update)
  ultimately show ?thesis using inv by (auto simp: yq_inv_def yq_end_def yq_cells_def yqueue_back_def)
qed

section \<open>The queue interface\<close>

text \<open>
  What a user of the queue may rely on. \<open>repr q ps\<close> says that \<open>q\<close> holds the sequence of
  cells \<open>ps\<close>; the cells are distinct, so pointers to elements can be compared. The single
  obligation of the user is not to pop or unpush what is not there.
\<close>

locale queue_laws =
  fixes repr :: "'q \<Rightarrow> 'p list \<Rightarrow> bool"
    and front :: "'q \<Rightarrow> 'p"
    and bk :: "'q \<Rightarrow> 'p option"
    and deref :: "'q \<Rightarrow> 'p \<Rightarrow> 'a option"
    and assign :: "'q \<Rightarrow> 'p \<Rightarrow> 'a \<Rightarrow> 'q option"
    and push :: "'q \<Rightarrow> 'q option"
    and unpush :: "'q \<Rightarrow> 'q option"
    and pop :: "'q \<Rightarrow> 'q option"
  assumes repr_distinct: "repr q ps \<Longrightarrow> distinct ps"
    and front_hd: "repr q ps \<Longrightarrow> ps \<noteq> [] \<Longrightarrow> front q = hd ps"
    and back_last: "repr q ps \<Longrightarrow> ps \<noteq> [] \<Longrightarrow> bk q = Some (last ps)"
    and assign_repr: "repr q ps \<Longrightarrow> p \<in> set ps \<Longrightarrow>
      \<exists>q'. assign q p v = Some q' \<and> repr q' ps \<and>
           (\<forall>x. deref q' x = (if x = p then Some v else deref q x))"
    and push_repr: "repr q ps \<Longrightarrow>
      \<exists>q' p. push q = Some q' \<and> repr q' (ps @ [p]) \<and> (\<forall>x \<in> set ps. deref q' x = deref q x)"
    and unpush_repr: "repr q (ps @ [p]) \<Longrightarrow> ps \<noteq> [] \<Longrightarrow>
      \<exists>q'. unpush q = Some q' \<and> repr q' ps \<and> (\<forall>x \<in> set ps. deref q' x = deref q x)"
    and pop_repr: "repr q (p # ps) \<Longrightarrow>
      \<exists>q'. pop q = Some q' \<and> repr q' ps \<and> (\<forall>x \<in> set ps. deref q' x = deref q x)"
begin

text \<open>The contents of the queue, cell by cell.\<close>

definition holds :: "'q \<Rightarrow> 'a option list \<Rightarrow> bool" where
  "holds q vs \<longleftrightarrow> (\<exists>ps. repr q ps \<and> vs = map (deref q) ps)"

lemma holds_pop:
  assumes "holds q (v # vs)"
  shows "\<exists>q'. deref q (front q) = v \<and> pop q = Some q' \<and> holds q' vs"
proof -
  from assms obtain p ps where ps: "repr q (p # ps)" "v = deref q p" "vs = map (deref q) ps"
    by (auto simp: holds_def Cons_eq_map_conv)
  from pop_repr [OF ps(1)] obtain q' where
    "pop q = Some q'" "repr q' ps" "\<forall>x \<in> set ps. deref q' x = deref q x" by blast
  moreover have "map (deref q') ps = map (deref q) ps" using calculation(3) by simp
  ultimately show ?thesis using ps front_hd [OF ps(1)] by (force simp: holds_def)
qed

text \<open>\<open>push\<close> followed by an assignment to the back element appends that element.\<close>

lemma holds_push:
  assumes "holds q vs"
  shows "\<exists>q1 p q2. push q = Some q1 \<and> bk q1 = Some p \<and> assign q1 p v = Some q2 \<and>
           holds q2 (vs @ [Some v])"
proof -
  from assms obtain ps where ps: "repr q ps" "vs = map (deref q) ps" by (auto simp: holds_def)
  from push_repr [OF ps(1)] obtain q1 p where q1: "push q = Some q1" "repr q1 (ps @ [p])"
    "\<forall>x \<in> set ps. deref q1 x = deref q x" by blast
  from assign_repr [OF q1(2), of p v] obtain q2 where q2: "assign q1 p v = Some q2"
    "repr q2 (ps @ [p])" "\<forall>x. deref q2 x = (if x = p then Some v else deref q1 x)" by auto
  have "p \<notin> set ps" using repr_distinct [OF q1(2)] by simp
  then have "map (deref q2) (ps @ [p]) = vs @ [Some v]" using q1(3) q2(3) ps(2) by auto
  with q2 have "holds q2 (vs @ [Some v])" unfolding holds_def by metis
  with q1 q2(1) back_last [OF q1(2)] show ?thesis by auto
qed

end

lemma yq_repr_new: "0 < N \<Longrightarrow> yq_repr N (yqueue_new N) []"
  by (auto simp: yq_repr_def yq_inv_def yqueue_new_def heap_alloc_def Let_def chain_ok_def
      spare_ok_def yq_end_def yq_cells_def heap_load_def malloc_chunk_def intro!: exI [of _ "[0]"]
      split: if_splits)

interpretation yq: queue_laws "yq_repr N" yqueue_front yqueue_back yqueue_deref yqueue_assign
  "yqueue_push N" "yqueue_unpush N" "yqueue_pop N" for N
proof (unfold_locales, goal_cases)
  case (1 q ps)
  then show ?case by (auto simp: yq_repr_def yq_cells_distinct)
next
  case (2 q ps)
  then obtain cs where cs: "yq_inv N cs q" "ps = yq_cells N cs q" by (auto simp: yq_repr_def)
  with 2 have "begin_pos q < yq_end N cs q" by (simp add: yq_cells_Nil_iff)
  with cs cell_begin [OF cs(1)] show ?case by (simp add: yq_cells_def upt_conv_Cons)
next
  case (3 q ps)
  then obtain cs where cs: "yq_inv N cs q" "ps = yq_cells N cs q" by (auto simp: yq_repr_def)
  with 3 have "begin_pos q < yq_end N cs q" by (simp add: yq_cells_Nil_iff)
  with cs yq_inv_unfold(10) [OF cs(1)] show ?case by (simp add: yq_cells_def last_map)
next
  case (4 q ps p v)
  then obtain cs where cs: "yq_inv N cs q" "ps = yq_cells N cs q" by (auto simp: yq_repr_def)
  then have "p \<in> set (yq_cells N cs q)" using 4 by simp
  from yqueue_assign_inv [OF cs(1) this, of v] cs(2) show ?case unfolding yq_repr_def by metis
next
  case (5 q ps)
  then obtain cs where cs: "yq_inv N cs q" "ps = yq_cells N cs q" by (auto simp: yq_repr_def)
  from yqueue_push_inv [OF cs(1)] cs show ?case by (fastforce simp: yq_repr_def dest: yq_cells_chunk)
next
  case (6 q ps p)
  then obtain cs where cs: "yq_inv N cs q" "ps @ [p] = yq_cells N cs q" by (auto simp: yq_repr_def)
  then have len: "2 \<le> length (yq_cells N cs q)" "butlast (yq_cells N cs q) = ps"
    using 6 by (cases ps; simp flip: cs(2))+
  from yqueue_unpush_inv [OF cs(1) len(1)] len(2) show ?case
    by (fastforce simp: yq_repr_def dest: yq_cells_chunk)
next
  case (7 q p ps)
  then obtain cs where cs: "yq_inv N cs q" "p # ps = yq_cells N cs q" by (auto simp: yq_repr_def)
  have ne: "yq_cells N cs q \<noteq> []" "tl (yq_cells N cs q) = ps" by (simp_all flip: cs(2))
  from yqueue_pop_inv [OF cs(1) ne(1)] ne(2) show ?case
    by (fastforce simp: yq_repr_def dest: yq_cells_chunk)
qed

section \<open>Destruction\<close>

lemma chain_ok_Cons: "chain_ok N (c # cs) m \<Longrightarrow> chain_ok N cs m"
  unfolding chain_ok_def
proof (elim conjE, intro conjI allI impI)
  fix i
  assume all: "\<forall>i < length (c # cs). \<exists>ch. m ((c # cs) ! i) = Some ch \<and> length (chunk_values ch) = N \<and>
      (Suc i < length (c # cs) \<longrightarrow> chunk_next ch = Some ((c # cs) ! Suc i)) \<and>
      (0 < i \<longrightarrow> chunk_prev ch = Some ((c # cs) ! (i - 1)))"
    and i: "i < length cs"
  then show "\<exists>ch. m (cs ! i) = Some ch \<and> length (chunk_values ch) = N \<and>
      (Suc i < length cs \<longrightarrow> chunk_next ch = Some (cs ! Suc i)) \<and>
      (0 < i \<longrightarrow> chunk_prev ch = Some (cs ! (i - 1)))"
    using all [rule_format, of "Suc i"] by (cases i) auto
qed simp

lemma free_chain_ok:
  "chain_ok N cs (heap_load h) \<Longrightarrow> cs \<noteq> [] \<Longrightarrow> length cs \<le> n \<Longrightarrow>
   \<exists>h'. free_chain n h (hd cs) (last cs) = Some h' \<and> heap_load h' = heap_load h |` (- set cs)"
proof (induction cs arbitrary: h n)
  case Nil
  then show ?case by simp
next
  case (Cons c cs)
  obtain k where n: "n = Suc k" using Cons.prems(3) by (cases n) auto
  obtain ch where ch: "heap_load h c = Some ch" "cs \<noteq> [] \<Longrightarrow> chunk_next ch = Some (hd cs)"
    using chain_okD [OF Cons.prems(1), of 0] by (cases cs) auto
  obtain h1 where h1: "heap_free h c = Some h1" "heap_load h1 = (heap_load h)(c := None)"
    using hp.fr_ok [of h c] ch(1) by (auto dest: hp.ld_fr)
  show ?case
  proof (cases "cs = []")
    case True
    with n h1 show ?thesis by (auto simp: restrict_map_def fun_eq_iff)
  next
    case False
    have c: "c \<notin> set cs" using Cons.prems(1) by (simp add: chain_ok_def)
    then have "c \<noteq> last cs" using False by auto
    have "chain_ok N cs (heap_load h1)" unfolding h1(2)
      using chain_ok_Cons [OF Cons.prems(1)] c
      by (subst chain_ok_cong [of _ _ "heap_load h"]) auto
    with Cons.IH [of h1 k] Cons.prems(3) False n obtain h' where
      "free_chain k h1 (hd cs) (last cs) = Some h'" "heap_load h' = heap_load h1 |` (- set cs)" by auto
    with ch h1 False \<open>c \<noteq> last cs\<close> n show ?thesis
      by (auto simp: restrict_map_def fun_eq_iff)
  qed
qed

lemma chain_length: "chain_ok N cs (heap_load h) \<Longrightarrow> length cs \<le> length h"
proof -
  assume ok: "chain_ok N cs (heap_load h)"
  have "c < length h" if "c \<in> set cs" for c
    using chain_ok_load [OF ok that] by (auto simp: heap_load_def split: if_splits)
  then have "set cs \<subseteq> {..< length h}" by auto
  then have "card (set cs) \<le> length h" using card_mono [of "{..< length h}" "set cs"] by simp
  moreover have "distinct cs" using ok by (simp add: chain_ok_def)
  ultimately show ?thesis by (simp add: distinct_card)
qed

text \<open>C28: the destructor of a queue, whatever its contents, ends normally, and when it is done
  no chunk is allocated any more: every chunk the queue ever obtained from malloc has been
  released, each exactly once (a second free of a chunk would be an abort).\<close>

theorem yqueue_destroy_frees_all:
  assumes "yq_repr N q ps"
  shows "\<exists>h. yqueue_destroy q = Some h \<and> (\<forall>a. heap_load h a = None)"
proof -
  from assms obtain cs where cs: "yq_inv N cs q" by (auto simp: yq_repr_def)
  note u = yq_inv_unfold [OF cs]
  obtain h1 where h1: "free_chain (length (chunks q)) (chunks q) (begin_chunk q) (end_chunk q) = Some h1"
    "heap_load h1 = heap_load (chunks q) |` (- set cs)"
    using free_chain_ok [OF u(8,2) chain_length [OF u(8)]] u(3,4) by auto
  have "heap_load h1 a \<noteq> None" if "spare_chunk q = Some a" for a
    using u(9) that h1(2) by (auto simp: spare_ok_def restrict_map_def)
  then obtain h2 where h2: "free_opt h1 (spare_chunk q) = Some h2"
    "heap_load h2 = heap_load h1 |` (- set_option (spare_chunk q))" using free_opt_load by metis
  have "dom (heap_load h2) = {}" using u(9) by (auto simp: spare_ok_def h2(2) h1(2))
  with h1(1) h2(1) show ?thesis by (auto simp: yqueue_destroy_def)
qed

theorem yqueue_destroy_frees_all_witness:
  "\<exists>h. yqueue_destroy (yqueue_new 4 :: byte yqueue) = Some h \<and> (\<forall>a. heap_load h a = None)"
  by (rule yqueue_destroy_frees_all [OF yq_repr_new]) simp

end
