(* ===== verification/Ypipe.thy ===== *)
theory Ypipe
  imports Yqueue
begin

text \<open>
  \<open>ypipe_t\<close> (src/libzmq/src/ypipe.hpp): the lock-free pipe between one writer and one reader,
  built on the chunked queue, with the atomic pointer of src/libzmq/src/atomic_ptr.hpp as the
  only shared variable. The first part translates the operations. The second part is the
  specification a pipe promises, over plain lists: items that are flushed, items that are
  complete but not flushed, items of an unfinished message. A simulation shows that every
  operation does what the specification says, for every state and without ever dereferencing a
  dead pointer. The last part lets the reader and the writer interleave: flush is split at its
  compare-and-swap, and the properties are shown for every schedule.
\<close>

section \<open>The atomic pointer\<close>

text \<open>\<open>xchg\<close> and \<open>cas\<close> return the old value and the new content of the pointer.\<close>

definition atomic_xchg :: "'p option \<Rightarrow> 'p option \<Rightarrow> 'p option \<times> 'p option" where
  "atomic_xchg ptr val = (ptr, val)"

definition atomic_cas :: "'p option \<Rightarrow> 'p option \<Rightarrow> 'p option \<Rightarrow> 'p option \<times> 'p option" where
  "atomic_cas ptr cmp val = (ptr, if ptr = cmp then val else ptr)"

section \<open>The pipe\<close>

record 'a ypipe =
  queue :: "'a yqueue"
  yp_w :: cellptr
  yp_r :: "cellptr option"
  yp_f :: cellptr
  yp_c :: "cellptr option"

definition ypipe_new :: "nat \<Rightarrow> 'a ypipe option" where
  "ypipe_new N =
     do { q \<leftarrow> yqueue_push N (yqueue_new N);
          b \<leftarrow> yqueue_back q;
          Some \<lparr>queue = q, yp_w = b, yp_r = Some b, yp_f = b, yp_c = Some b\<rparr> }"

definition ypipe_write :: "nat \<Rightarrow> 'a \<Rightarrow> bool \<Rightarrow> 'a ypipe \<Rightarrow> 'a ypipe option" where
  "ypipe_write N value incomplete p =
     do { b \<leftarrow> yqueue_back (queue p);
          q \<leftarrow> yqueue_assign (queue p) b value;
          q \<leftarrow> yqueue_push N q;
          b' \<leftarrow> yqueue_back q;
          Some (if incomplete then p\<lparr>queue := q\<rparr> else p\<lparr>queue := q, yp_f := b'\<rparr>) }"

text \<open>The result \<open>None\<close> of \<open>unwrite\<close> and \<open>read\<close> in the pair stands for \<open>false\<close>.\<close>

definition ypipe_unwrite :: "nat \<Rightarrow> 'a ypipe \<Rightarrow> ('a option \<times> 'a ypipe) option" where
  "ypipe_unwrite N p =
     do { b \<leftarrow> yqueue_back (queue p);
          if yp_f p = b then Some (None, p)
          else do { q \<leftarrow> yqueue_unpush N (queue p);
                    b \<leftarrow> yqueue_back q;
                    v \<leftarrow> yqueue_deref q b;
                    Some (Some v, p\<lparr>queue := q\<rparr>) } }"

definition ypipe_flush :: "'a ypipe \<Rightarrow> bool \<times> 'a ypipe" where
  "ypipe_flush p =
     (if yp_w p = yp_f p then (True, p)
      else let (old, c') = atomic_cas (yp_c p) (Some (yp_w p)) (Some (yp_f p))
           in if old \<noteq> Some (yp_w p)
              then (False, p\<lparr>yp_c := Some (yp_f p), yp_w := yp_f p\<rparr>)
              else (True, p\<lparr>yp_c := c', yp_w := yp_f p\<rparr>))"

definition ypipe_check_read :: "'a ypipe \<Rightarrow> bool \<times> 'a ypipe" where
  "ypipe_check_read p =
     (let fr = yqueue_front (queue p)
      in if Some fr \<noteq> yp_r p \<and> yp_r p \<noteq> None then (True, p)
         else let (old, c') = atomic_cas (yp_c p) (Some fr) None;
                  p' = p\<lparr>yp_r := old, yp_c := c'\<rparr>
              in if Some fr = yp_r p' \<or> yp_r p' = None then (False, p') else (True, p'))"

definition ypipe_read :: "nat \<Rightarrow> 'a ypipe \<Rightarrow> ('a option \<times> 'a ypipe) option" where
  "ypipe_read N p =
     (let (ok, p') = ypipe_check_read p
      in if \<not> ok then Some (None, p')
         else do { v \<leftarrow> yqueue_deref (queue p') (yqueue_front (queue p'));
                   q \<leftarrow> yqueue_pop N (queue p');
                   Some (Some v, p'\<lparr>queue := q\<rparr>) })"

definition ypipe_probe :: "('a \<Rightarrow> bool) \<Rightarrow> 'a ypipe \<Rightarrow> (bool \<times> 'a ypipe) option" where
  "ypipe_probe fn p =
     (let (rc, p') = ypipe_check_read p
      in do { zmq_assert rc;
              v \<leftarrow> yqueue_deref (queue p') (yqueue_front (queue p'));
              Some (fn v, p') })"

section \<open>What a pipe promises\<close>

text \<open>
  \<open>flushed\<close>: items the reader may take. \<open>pending\<close>: items of complete messages that are not
  flushed yet. \<open>partial\<close>: items of the message that is being written. \<open>prefetched\<close>: how many
  flushed items the reader can take without looking at the shared pointer. \<open>asleep\<close>: the
  reader found nothing and must be woken up.
\<close>

record 'a pspec =
  flushed :: "'a list"
  pending :: "'a list"
  partial :: "'a list"
  prefetched :: nat
  asleep :: bool

definition pspec_new :: "'a pspec" where
  "pspec_new = \<lparr>flushed = [], pending = [], partial = [], prefetched = 0, asleep = False\<rparr>"

definition pspec_write :: "'a \<Rightarrow> bool \<Rightarrow> 'a pspec \<Rightarrow> 'a pspec" where
  "pspec_write v incomplete a =
     (if incomplete then a\<lparr>partial := partial a @ [v]\<rparr>
      else a\<lparr>pending := pending a @ partial a @ [v], partial := []\<rparr>)"

definition pspec_unwrite :: "'a pspec \<Rightarrow> 'a option \<times> 'a pspec" where
  "pspec_unwrite a =
     (if partial a = [] then (None, a)
      else (Some (last (partial a)), a\<lparr>partial := butlast (partial a)\<rparr>))"

definition pspec_flush :: "'a pspec \<Rightarrow> bool \<times> 'a pspec" where
  "pspec_flush a =
     (if pending a = [] then (True, a)
      else (\<not> asleep a, a\<lparr>flushed := flushed a @ pending a, pending := [], asleep := False\<rparr>))"

definition pspec_check_read :: "'a pspec \<Rightarrow> bool \<times> 'a pspec" where
  "pspec_check_read a =
     (if 0 < prefetched a then (True, a)
      else if flushed a = [] then (False, a\<lparr>asleep := True\<rparr>)
      else (True, a\<lparr>prefetched := length (flushed a)\<rparr>))"

definition pspec_read :: "'a pspec \<Rightarrow> 'a option \<times> 'a pspec" where
  "pspec_read a =
     (let (ok, a') = pspec_check_read a
      in if \<not> ok then (None, a')
         else (Some (hd (flushed a')),
               a'\<lparr>flushed := tl (flushed a'), prefetched := prefetched a' - 1\<rparr>))"

definition pspec_wf :: "'a pspec \<Rightarrow> bool" where
  "pspec_wf a \<longleftrightarrow> prefetched a \<le> length (flushed a) \<and> (asleep a \<longrightarrow> flushed a = [])"

text \<open>The simulation relation between a pipe and its specification.\<close>

definition ypipe_rel :: "nat \<Rightarrow> 'a ypipe \<Rightarrow> 'a pspec \<Rightarrow> bool" where
  "ypipe_rel N p a \<longleftrightarrow> pspec_wf a \<and>
     (\<exists>ps. yq_repr N (queue p) ps \<and>
           length ps = Suc (length (flushed a @ pending a @ partial a)) \<and>
           map (yqueue_deref (queue p)) (butlast ps) = map Some (flushed a @ pending a @ partial a) \<and>
           yp_w p = ps ! length (flushed a) \<and>
           yp_f p = ps ! length (flushed a @ pending a) \<and>
           yp_c p = (if asleep a then None else Some (yp_w p)) \<and>
           (yp_r p = Some (ps ! prefetched a) \<or> yp_r p = None \<and> prefetched a = 0))"

section \<open>The simulation\<close>

lemma pspec_wf_ops [inv_intros]:
  "pspec_wf pspec_new"
  "pspec_wf a \<Longrightarrow> pspec_wf (pspec_write v i a)"
  "pspec_wf a \<Longrightarrow> pspec_wf (snd (pspec_unwrite a))"
  "pspec_wf a \<Longrightarrow> pspec_wf (snd (pspec_flush a))"
  "pspec_wf a \<Longrightarrow> pspec_wf (snd (pspec_check_read a))"
  "pspec_wf a \<Longrightarrow> pspec_wf (snd (pspec_read a))"
  by (auto simp: pspec_wf_def pspec_new_def pspec_write_def pspec_unwrite_def pspec_flush_def
      pspec_check_read_def pspec_read_def Let_def)

lemma ypipe_relE:
  assumes "ypipe_rel N p a"
  obtains ps where "pspec_wf a" "yq_repr N (queue p) ps" "ps \<noteq> []" "distinct ps"
    "length ps = Suc (length (flushed a @ pending a @ partial a))"
    "map (yqueue_deref (queue p)) (butlast ps) = map Some (flushed a @ pending a @ partial a)"
    "yp_w p = ps ! length (flushed a)" "yp_f p = ps ! length (flushed a @ pending a)"
    "yp_c p = (if asleep a then None else Some (yp_w p))"
    "yp_r p = Some (ps ! prefetched a) \<or> yp_r p = None \<and> prefetched a = 0"
    "yqueue_front (queue p) = ps ! 0" "yqueue_back (queue p) = Some (last ps)"
proof -
  from assms obtain ps where ps: "pspec_wf a" "yq_repr N (queue p) ps"
    "length ps = Suc (length (flushed a @ pending a @ partial a))"
    "map (yqueue_deref (queue p)) (butlast ps) = map Some (flushed a @ pending a @ partial a)"
    "yp_w p = ps ! length (flushed a)" "yp_f p = ps ! length (flushed a @ pending a)"
    "yp_c p = (if asleep a then None else Some (yp_w p))"
    "yp_r p = Some (ps ! prefetched a) \<or> yp_r p = None \<and> prefetched a = 0"
    unfolding ypipe_rel_def by blast
  moreover have "ps \<noteq> []" using ps(3) by auto
  moreover have "distinct ps" by (rule yq.repr_distinct [OF ps(2)])
  ultimately show thesis
    using that yq.front_hd [OF ps(2)] yq.back_last [OF ps(2)] by (simp add: hd_conv_nth)
qed

lemma ypipe_new_sim:
  assumes "0 < N"
  shows "\<exists>p. ypipe_new N = Some p \<and> ypipe_rel N p pspec_new"
proof -
  from yq.push_repr [OF yq_repr_new [OF assms]] obtain q b where
    q: "yqueue_push N (yqueue_new N) = Some (q :: 'a yqueue)" "yq_repr N q [b]" by auto
  moreover have "yqueue_back q = Some b" using yq.back_last [OF q(2)] by simp
  ultimately show ?thesis
    by (auto simp: ypipe_new_def ypipe_rel_def pspec_new_def pspec_wf_def intro!: exI [of _ "[b]"])
qed

lemma ypipe_write_sim:
  assumes rel: "ypipe_rel N p a"
  shows "\<exists>p'. ypipe_write N v inc p = Some p' \<and> ypipe_rel N p' (pspec_write v inc a)"
proof -
  from rel obtain ps where ps: "pspec_wf a" "yq_repr N (queue p) ps" "ps \<noteq> []" "distinct ps"
    "length ps = Suc (length (flushed a @ pending a @ partial a))"
    "map (yqueue_deref (queue p)) (butlast ps) = map Some (flushed a @ pending a @ partial a)"
    "yp_w p = ps ! length (flushed a)" "yp_f p = ps ! length (flushed a @ pending a)"
    "yp_c p = (if asleep a then None else Some (yp_w p))"
    "yp_r p = Some (ps ! prefetched a) \<or> yp_r p = None \<and> prefetched a = 0"
    "yqueue_back (queue p) = Some (last ps)" by (rule ypipe_relE)
  from yq.assign_repr [OF ps(2), of "last ps" v] ps(3) obtain q1 where
    q1: "yqueue_assign (queue p) (last ps) v = Some q1" "yq_repr N q1 ps"
    "\<And>x. yqueue_deref q1 x = (if x = last ps then Some v else yqueue_deref (queue p) x)" by auto
  from yq.push_repr [OF q1(2)] obtain q2 b where
    q2: "yqueue_push N q1 = Some q2" "yq_repr N q2 (ps @ [b])"
    "\<And>x. x \<in> set ps \<Longrightarrow> yqueue_deref q2 x = yqueue_deref q1 x" by blast
  have nl: "last ps \<notin> set (butlast ps)"
    using ps(3,4) by (metis distinct_butlast append_butlast_last_id distinct_append not_distinct_conv_prefix)
  have "map (yqueue_deref q2) ps = map (yqueue_deref q1) (butlast ps @ [last ps])"
    using q2(3) ps(3) by simp
  also have "\<dots> = map (yqueue_deref (queue p)) (butlast ps) @ [Some v]"
    using nl q1(3) by (auto intro!: map_cong)
  finally have vals: "map (yqueue_deref q2) ps = map Some (flushed a @ pending a @ partial a @ [v])"
    using ps(6) by simp
  have wr: "ypipe_write N v inc p =
      Some (if inc then p\<lparr>queue := q2\<rparr> else p\<lparr>queue := q2, yp_f := b\<rparr>)"
    using ps(11) q1(1) q2(1) yq.back_last [OF q2(2)] by (simp add: ypipe_write_def)
  have pre: "prefetched a < length ps" using ps(1,5) by (simp add: pspec_wf_def)
  have "ypipe_rel N (if inc then p\<lparr>queue := q2\<rparr> else p\<lparr>queue := q2, yp_f := b\<rparr>) (pspec_write v inc a)"
    unfolding ypipe_rel_def
    by (intro conjI exI [of _ "ps @ [b]"] pspec_wf_ops(2) ps(1))
       (use ps q2 vals pre in \<open>auto simp: pspec_write_def nth_append\<close>)
  with wr show ?thesis by blast
qed

lemma ypipe_unwrite_sim:
  assumes rel: "ypipe_rel N p a"
  shows "\<exists>p'. ypipe_unwrite N p = Some (fst (pspec_unwrite a), p') \<and>
              ypipe_rel N p' (snd (pspec_unwrite a))"
proof -
  from rel obtain ps where ps: "pspec_wf a" "yq_repr N (queue p) ps" "ps \<noteq> []" "distinct ps"
    "length ps = Suc (length (flushed a @ pending a @ partial a))"
    "map (yqueue_deref (queue p)) (butlast ps) = map Some (flushed a @ pending a @ partial a)"
    "yp_w p = ps ! length (flushed a)" "yp_f p = ps ! length (flushed a @ pending a)"
    "yp_c p = (if asleep a then None else Some (yp_w p))"
    "yp_r p = Some (ps ! prefetched a) \<or> yp_r p = None \<and> prefetched a = 0"
    "yqueue_back (queue p) = Some (last ps)" by (rule ypipe_relE)
  have eq: "yp_f p = last ps \<longleftrightarrow> partial a = []"
    using ps(3,4,5,8) by (auto simp: last_conv_nth nth_eq_iff_index_eq)
  show ?thesis
  proof (cases "partial a = []")
    case True
    with rel eq ps(11) show ?thesis by (simp add: ypipe_unwrite_def pspec_unwrite_def)
  next
    case False
    obtain qs b where qs: "ps = qs @ [b]" using ps(3) by (cases ps rule: rev_cases) auto
    have ne: "qs \<noteq> []" using ps(5) False by (auto simp: qs)
    from yq.unpush_repr [OF ps(2) [unfolded qs] ne] obtain q where
      q: "yqueue_unpush N (queue p) = Some q" "yq_repr N q qs"
      "\<And>x. x \<in> set qs \<Longrightarrow> yqueue_deref q x = yqueue_deref (queue p) x" by blast
    have same: "map (yqueue_deref q) qs = map (yqueue_deref (queue p)) qs" using q(3) by simp
    have vals: "map (yqueue_deref q) qs = map Some (flushed a @ pending a @ partial a)"
      unfolding same using ps(6) by (simp add: qs)
    have lst: "yqueue_deref q (last qs) = Some (last (partial a))"
      using arg_cong [OF vals, of last] ne False by (simp add: last_map)
    have bl: "map (yqueue_deref q) (butlast qs) =
        map Some (flushed a @ pending a @ butlast (partial a))"
      using arg_cong [OF vals, of butlast] False by (simp add: map_butlast butlast_append)
    have un: "ypipe_unwrite N p = Some (Some (last (partial a)), p\<lparr>queue := q\<rparr>)"
      using False eq ps(11) q(1) yq.back_last [OF q(2) ne] lst
      by (simp add: ypipe_unwrite_def)
    have len: "length qs = length (flushed a @ pending a @ partial a)" using ps(5) qs by simp
    have lp: "0 < length (partial a)" using False by simp
    have "prefetched a < length qs" using ps(1) len lp unfolding pspec_wf_def length_append by linarith
    then have "ypipe_rel N (p\<lparr>queue := q\<rparr>) (a\<lparr>partial := butlast (partial a)\<rparr>)"
      unfolding ypipe_rel_def using ps(1,7-10) q(2) bl len lp
      by (intro conjI exI [of _ qs]) (auto simp: pspec_wf_def qs nth_append)
    with un False show ?thesis by (simp add: pspec_unwrite_def)
  qed
qed

lemma ypipe_flush_sim:
  assumes rel: "ypipe_rel N p a"
  shows "fst (ypipe_flush p) = fst (pspec_flush a) \<and>
         ypipe_rel N (snd (ypipe_flush p)) (snd (pspec_flush a))"
proof -
  from rel obtain ps where ps: "pspec_wf a" "yq_repr N (queue p) ps" "ps \<noteq> []" "distinct ps"
    "length ps = Suc (length (flushed a @ pending a @ partial a))"
    "map (yqueue_deref (queue p)) (butlast ps) = map Some (flushed a @ pending a @ partial a)"
    "yp_w p = ps ! length (flushed a)" "yp_f p = ps ! length (flushed a @ pending a)"
    "yp_c p = (if asleep a then None else Some (yp_w p))"
    "yp_r p = Some (ps ! prefetched a) \<or> yp_r p = None \<and> prefetched a = 0" by (rule ypipe_relE)
  have eq: "yp_w p = yp_f p \<longleftrightarrow> pending a = []"
    using ps(4,5,7,8) by (auto simp: nth_eq_iff_index_eq)
  show ?thesis
  proof (cases "pending a = []")
    case True
    with rel eq show ?thesis by (simp add: ypipe_flush_def pspec_flush_def)
  next
    case False
    let ?a = "a\<lparr>flushed := flushed a @ pending a, pending := [], asleep := False\<rparr>"
    let ?p = "p\<lparr>yp_c := Some (yp_f p), yp_w := yp_f p\<rparr>"
    have "ypipe_flush p = (\<not> asleep a, ?p)"
      using False eq ps(9) by (simp add: ypipe_flush_def atomic_cas_def)
    moreover have "ypipe_rel N ?p ?a"
      unfolding ypipe_rel_def
      by (intro conjI exI [of _ ps]) (use ps in \<open>auto simp: pspec_wf_def\<close>)
    ultimately show ?thesis using False by (simp add: pspec_flush_def)
  qed
qed

lemma ypipe_check_read_sim:
  assumes rel: "ypipe_rel N p a"
  shows "fst (ypipe_check_read p) = fst (pspec_check_read a) \<and>
         ypipe_rel N (snd (ypipe_check_read p)) (snd (pspec_check_read a))"
proof -
  from rel obtain ps where ps: "pspec_wf a" "yq_repr N (queue p) ps" "ps \<noteq> []" "distinct ps"
    "length ps = Suc (length (flushed a @ pending a @ partial a))"
    "map (yqueue_deref (queue p)) (butlast ps) = map Some (flushed a @ pending a @ partial a)"
    "yp_w p = ps ! length (flushed a)" "yp_f p = ps ! length (flushed a @ pending a)"
    "yp_c p = (if asleep a then None else Some (yp_w p))"
    "yp_r p = Some (ps ! prefetched a) \<or> yp_r p = None \<and> prefetched a = 0"
    "yqueue_front (queue p) = ps ! 0" by (rule ypipe_relE)
  have pl: "prefetched a < length ps" "length (flushed a) < length ps"
    using ps(1,5) by (auto simp: pspec_wf_def)
  have nz: "ps ! 0 = ps ! k \<longleftrightarrow> k = 0" if "k < length ps" for k
    using nth_eq_iff_index_eq [OF ps(4), of 0 k] that ps(3) by auto
  have r: "Some (ps ! 0) \<noteq> yp_r p \<and> yp_r p \<noteq> None \<longleftrightarrow> 0 < prefetched a"
  proof (cases "yp_r p")
    case None
    with ps(10) show ?thesis by simp
  next
    case (Some x)
    with ps(10) have "x = ps ! prefetched a" by simp
    with Some show ?thesis using nz [OF pl(1)] by (metis neq0_conv option.distinct(1) option.inject)
  qed
  have w: "ps ! 0 = yp_w p \<longleftrightarrow> flushed a = []"
    using ps(7) nz [OF pl(2)] by simp
  consider (pre) "0 < prefetched a" | (sleep) "prefetched a = 0" "flushed a = []" "asleep a"
    | (idle) "prefetched a = 0" "flushed a = []" "\<not> asleep a"
    | (more) "prefetched a = 0" "flushed a \<noteq> []" "\<not> asleep a"
    using ps(1) by (auto simp: pspec_wf_def)
  then show ?thesis
  proof cases
    case pre
    with r ps(11) rel show ?thesis by (simp add: ypipe_check_read_def pspec_check_read_def)
  next
    case sleep
    have "ypipe_check_read p = (False, p\<lparr>yp_r := None, yp_c := None\<rparr>)"
      using sleep r ps(9,11) by (simp add: ypipe_check_read_def atomic_cas_def Let_def del: not_None_eq)
    moreover have "ypipe_rel N (p\<lparr>yp_r := None, yp_c := None\<rparr>) (a\<lparr>asleep := True\<rparr>)"
      unfolding ypipe_rel_def
      by (intro conjI exI [of _ ps]) (use ps sleep in \<open>auto simp: pspec_wf_def\<close>)
    ultimately show ?thesis using sleep by (simp add: pspec_check_read_def)
  next
    case idle
    have "ypipe_check_read p = (False, p\<lparr>yp_r := Some (ps ! 0), yp_c := None\<rparr>)"
      using idle r w ps(9,11) by (simp add: ypipe_check_read_def atomic_cas_def Let_def del: not_None_eq)
    moreover have "ypipe_rel N (p\<lparr>yp_r := Some (ps ! 0), yp_c := None\<rparr>) (a\<lparr>asleep := True\<rparr>)"
      unfolding ypipe_rel_def
      by (intro conjI exI [of _ ps]) (use ps idle in \<open>auto simp: pspec_wf_def\<close>)
    ultimately show ?thesis using idle by (simp add: pspec_check_read_def)
  next
    case more
    have "ypipe_check_read p = (True, p\<lparr>yp_r := Some (yp_w p)\<rparr>)"
      using more r w ps(9,11)
      by (cases p) (auto simp add: ypipe_check_read_def atomic_cas_def Let_def simp del: not_None_eq)
    moreover have "ypipe_rel N (p\<lparr>yp_r := Some (yp_w p)\<rparr>) (a\<lparr>prefetched := length (flushed a)\<rparr>)"
      unfolding ypipe_rel_def
      by (intro conjI exI [of _ ps]) (use ps more in \<open>auto simp: pspec_wf_def\<close>)
    ultimately show ?thesis using more by (simp add: pspec_check_read_def)
  qed
qed

lemma pspec_check_read_True:
  "pspec_wf a \<Longrightarrow> fst (pspec_check_read a) \<Longrightarrow>
   flushed (snd (pspec_check_read a)) \<noteq> [] \<and> 0 < prefetched (snd (pspec_check_read a))"
  by (auto simp: pspec_check_read_def pspec_wf_def split: if_splits)

lemma ypipe_front_value:
  assumes rel: "ypipe_rel N p a" and ne: "flushed a \<noteq> []"
  shows "yqueue_deref (queue p) (yqueue_front (queue p)) = Some (hd (flushed a))"
proof -
  from rel obtain ps where ps: "ps \<noteq> []" "length ps = Suc (length (flushed a @ pending a @ partial a))"
    "map (yqueue_deref (queue p)) (butlast ps) = map Some (flushed a @ pending a @ partial a)"
    "yqueue_front (queue p) = ps ! 0" by (rule ypipe_relE)
  have "butlast ps \<noteq> []" using ps(1,2) ne by (cases ps rule: rev_cases) auto
  moreover from this have "hd (butlast ps) = ps ! 0"
    by (cases ps rule: rev_cases) (auto simp: hd_append hd_conv_nth nth_append)
  ultimately show ?thesis using arg_cong [OF ps(3), of hd] ne ps(4) by (simp add: hd_map)
qed

lemma ypipe_read_sim:
  assumes rel: "ypipe_rel N p a"
  shows "\<exists>p'. ypipe_read N p = Some (fst (pspec_read a), p') \<and> ypipe_rel N p' (snd (pspec_read a))"
proof -
  obtain ok p1 where c: "ypipe_check_read p = (ok, p1)" by fastforce
  obtain ok' a1 where ca: "pspec_check_read a = (ok', a1)" by fastforce
  from ypipe_check_read_sim [OF rel] c ca have ok: "ok' = ok" and r1: "ypipe_rel N p1 a1" by auto
  show ?thesis
  proof (cases ok)
    case False
    with c ca ok r1 show ?thesis by (simp add: ypipe_read_def pspec_read_def)
  next
    case True
    have wf: "pspec_wf a" using rel by (simp add: ypipe_rel_def)
    have ne: "flushed a1 \<noteq> []" "0 < prefetched a1"
      using pspec_check_read_True [OF wf] ca ok True by auto
    from r1 obtain ps where ps: "pspec_wf a1" "yq_repr N (queue p1) ps" "ps \<noteq> []"
      "length ps = Suc (length (flushed a1 @ pending a1 @ partial a1))"
      "map (yqueue_deref (queue p1)) (butlast ps) = map Some (flushed a1 @ pending a1 @ partial a1)"
      "yp_w p1 = ps ! length (flushed a1)" "yp_f p1 = ps ! length (flushed a1 @ pending a1)"
      "yp_c p1 = (if asleep a1 then None else Some (yp_w p1))"
      "yp_r p1 = Some (ps ! prefetched a1) \<or> yp_r p1 = None \<and> prefetched a1 = 0"
      by (rule ypipe_relE)
    obtain b qs where qs: "ps = b # qs" using ps(3) by (cases ps) auto
    have qne: "qs \<noteq> []" using ps(4) ne(1) by (auto simp: qs)
    from yq.pop_repr [OF ps(2) [unfolded qs]] obtain q where
      q: "yqueue_pop N (queue p1) = Some q" "yq_repr N q qs"
      "\<And>x. x \<in> set qs \<Longrightarrow> yqueue_deref q x = yqueue_deref (queue p1) x" by blast
    obtain x xs where xs: "flushed a1 = x # xs" using ne(1) by (cases "flushed a1") auto
    have same: "map (yqueue_deref q) (butlast qs) = map (yqueue_deref (queue p1)) (butlast qs)"
      using q(3) by (simp add: in_set_butlastD)
    have "map (yqueue_deref q) (butlast qs) = map Some (xs @ pending a1 @ partial a1)"
      unfolding same using ps(5) qne by (simp add: qs xs)
    then have "ypipe_rel N (p1\<lparr>queue := q\<rparr>) (a1\<lparr>flushed := xs, prefetched := prefetched a1 - 1\<rparr>)"
      unfolding ypipe_rel_def using ps(1,4,6-9) q(2) ne(2)
      by (intro conjI exI [of _ qs]) (auto simp: pspec_wf_def qs xs nth_Cons')
    then show ?thesis using c ca ok True ypipe_front_value [OF r1 ne(1)] q(1)
      by (simp add: ypipe_read_def pspec_read_def xs)
  qed
qed

lemma ypipe_probe_sim:
  assumes rel: "ypipe_rel N p a" and ok: "fst (pspec_check_read a)"
  shows "\<exists>p'. ypipe_probe fn p = Some (fn (hd (flushed a)), p') \<and>
              ypipe_rel N p' (snd (pspec_check_read a))"
proof -
  obtain p1 where c: "ypipe_check_read p = (True, p1)"
    using ypipe_check_read_sim [OF rel] ok by (cases "ypipe_check_read p") auto
  have r1: "ypipe_rel N p1 (snd (pspec_check_read a))" using ypipe_check_read_sim [OF rel] c by simp
  have wf: "pspec_wf a" using rel by (simp add: ypipe_rel_def)
  have "flushed (snd (pspec_check_read a)) = flushed a"
    by (simp add: pspec_check_read_def)
  with ypipe_front_value [OF r1] pspec_check_read_True [OF wf ok] c r1 show ?thesis
    by (auto simp: ypipe_probe_def)
qed

section \<open>Reader and writer interleaved\<close>

text \<open>
  The reader and the writer run in two threads. Each operation touches the shared pointer
  \<open>c\<close> at most once, except a \<open>flush\<close> whose compare-and-swap failed and which then sets the
  pointer: between the two the reader can run. \<open>setting\<close> marks that point. \<open>written\<close>,
  \<open>completed\<close> and \<open>taken\<close> are histories: the items written and not taken back, those of them
  that belong to complete messages, and the items the reader obtained.
\<close>

record 'a ysys =
  ypipe_of :: "'a ypipe"
  setting :: bool
  written :: "'a list"
  completed :: "'a list"
  taken :: "'a list"

inductive ystep :: "nat \<Rightarrow> 'a ysys \<Rightarrow> 'a ysys \<Rightarrow> bool" for N where
  write_item: "\<not> setting s \<Longrightarrow> ypipe_write N v inc (ypipe_of s) = Some p' \<Longrightarrow>
     ystep N s (s\<lparr>ypipe_of := p', written := written s @ [v],
                 completed := (if inc then completed s else written s @ [v])\<rparr>)"
| unwrite_item: "\<not> setting s \<Longrightarrow> ypipe_unwrite N (ypipe_of s) = Some (Some v, p') \<Longrightarrow>
     ystep N s (s\<lparr>ypipe_of := p', written := butlast (written s)\<rparr>)"
| flush_cas_ok: "\<not> setting s \<Longrightarrow> p = ypipe_of s \<Longrightarrow> yp_w p \<noteq> yp_f p \<Longrightarrow>
     atomic_cas (yp_c p) (Some (yp_w p)) (Some (yp_f p)) = (old, c') \<Longrightarrow> old = Some (yp_w p) \<Longrightarrow>
     ystep N s (s\<lparr>ypipe_of := p\<lparr>yp_c := c', yp_w := yp_f p\<rparr>\<rparr>)"
| flush_cas_fail: "\<not> setting s \<Longrightarrow> p = ypipe_of s \<Longrightarrow> yp_w p \<noteq> yp_f p \<Longrightarrow>
     atomic_cas (yp_c p) (Some (yp_w p)) (Some (yp_f p)) = (old, c') \<Longrightarrow> old \<noteq> Some (yp_w p) \<Longrightarrow>
     ystep N s (s\<lparr>ypipe_of := p\<lparr>yp_c := c'\<rparr>, setting := True\<rparr>)"
| flush_set: "setting s \<Longrightarrow> p = ypipe_of s \<Longrightarrow>
     ystep N s (s\<lparr>ypipe_of := p\<lparr>yp_c := Some (yp_f p), yp_w := yp_f p\<rparr>, setting := False\<rparr>)"
| check_item: "ystep N s (s\<lparr>ypipe_of := snd (ypipe_check_read (ypipe_of s))\<rparr>)"
| read_item: "ypipe_read N (ypipe_of s) = Some (Some v, p') \<Longrightarrow>
     ystep N s (s\<lparr>ypipe_of := p', taken := taken s @ [v]\<rparr>)"
| read_none: "ypipe_read N (ypipe_of s) = Some (None, p') \<Longrightarrow>
     ystep N s (s\<lparr>ypipe_of := p'\<rparr>)"

inductive yreach :: "nat \<Rightarrow> 'a ysys \<Rightarrow> bool" for N where
  ystart: "ypipe_new N = Some p \<Longrightarrow>
     yreach N \<lparr>ypipe_of = p, setting = False, written = [], completed = [], taken = []\<rparr>"
| ynext: "yreach N s \<Longrightarrow> ystep N s t \<Longrightarrow> yreach N t"

definition yinv :: "nat \<Rightarrow> 'a ysys \<Rightarrow> 'a pspec \<Rightarrow> bool" where
  "yinv N s a \<longleftrightarrow> ypipe_rel N (ypipe_of s) a \<and>
     completed s = taken s @ flushed a @ pending a \<and> written s = completed s @ partial a \<and>
     (setting s \<longrightarrow> asleep a \<and> pending a \<noteq> [])"

lemma ypipe_rel_facts:
  assumes "ypipe_rel N p a"
  shows "yp_c p = (if asleep a then None else Some (yp_w p))" "yp_w p = yp_f p \<longleftrightarrow> pending a = []"
proof -
  from assms obtain ps where "yp_c p = (if asleep a then None else Some (yp_w p))" "distinct ps"
    "length ps = Suc (length (flushed a @ pending a @ partial a))"
    "yp_w p = ps ! length (flushed a)" "yp_f p = ps ! length (flushed a @ pending a)"
    by (rule ypipe_relE)
  then show "yp_c p = (if asleep a then None else Some (yp_w p))" "yp_w p = yp_f p \<longleftrightarrow> pending a = []"
    by (auto simp: nth_eq_iff_index_eq)
qed

lemma flushed_check_read [simp]:
  "flushed (snd (pspec_check_read a)) = flushed a" "pending (snd (pspec_check_read a)) = pending a"
  "partial (snd (pspec_check_read a)) = partial a"
  "asleep a \<Longrightarrow> asleep (snd (pspec_check_read a))"
  by (simp_all add: pspec_check_read_def)

lemma yinv_step:
  assumes "ystep N s t" "yinv N s a"
  shows "\<exists>a'. yinv N t a'"
  using assms
proof cases
  case (write_item v inc p')
  with assms(2) ypipe_write_sim [of N "ypipe_of s" a v inc] show ?thesis
    by (intro exI [of _ "pspec_write v inc a"]) (auto simp: yinv_def pspec_write_def)
next
  case (unwrite_item v p')
  from assms(2) ypipe_unwrite_sim [of N "ypipe_of s" a] unwrite_item(3) have
    "ypipe_rel N p' (snd (pspec_unwrite a))" "partial a \<noteq> []"
    by (auto simp: yinv_def pspec_unwrite_def)
  with assms(2) unwrite_item show ?thesis
    by (intro exI [of _ "snd (pspec_unwrite a)"])
       (auto simp: yinv_def pspec_unwrite_def butlast_append)
next
  case (flush_cas_ok p old c')
  then have "ypipe_flush (ypipe_of s) = (True, p\<lparr>yp_c := c', yp_w := yp_f p\<rparr>)"
    by (simp add: ypipe_flush_def)
  with assms(2) ypipe_flush_sim [of N "ypipe_of s" a] flush_cas_ok show ?thesis
    by (intro exI [of _ "snd (pspec_flush a)"]) (auto simp: yinv_def pspec_flush_def)
next
  case (flush_cas_fail p old c')
  have rel: "ypipe_rel N p a" using assms(2) flush_cas_fail by (simp add: yinv_def)
  have "asleep a" "pending a \<noteq> []"
    using ypipe_rel_facts [OF rel] flush_cas_fail by (auto simp: atomic_cas_def split: if_splits)
  moreover have "c' = yp_c p" using flush_cas_fail by (auto simp: atomic_cas_def)
  ultimately show ?thesis using assms(2) flush_cas_fail rel
    by (intro exI [of _ a]) (auto simp: yinv_def)
next
  case (flush_set p)
  have rel: "ypipe_rel N p a" and sl: "asleep a" "pending a \<noteq> []"
    using assms(2) flush_set by (auto simp: yinv_def)
  then have "ypipe_flush p = (False, p\<lparr>yp_c := Some (yp_f p), yp_w := yp_f p\<rparr>)"
    using ypipe_rel_facts [OF rel] by (simp add: ypipe_flush_def atomic_cas_def)
  with ypipe_flush_sim [OF rel] assms(2) flush_set sl show ?thesis
    by (intro exI [of _ "snd (pspec_flush a)"]) (auto simp: yinv_def pspec_flush_def)
next
  case check_item
  with assms(2) ypipe_check_read_sim [of N "ypipe_of s" a] show ?thesis
    by (intro exI [of _ "snd (pspec_check_read a)"]) (auto simp: yinv_def)
next
  case (read_item v p')
  from assms(2) ypipe_read_sim [of N "ypipe_of s" a] read_item have
    r: "ypipe_rel N p' (snd (pspec_read a))" "fst (pspec_read a) = Some v" by (auto simp: yinv_def)
  have wf: "pspec_wf a" using assms(2) by (simp add: yinv_def ypipe_rel_def)
  have ok: "fst (pspec_check_read a)" using r(2) by (auto simp: pspec_read_def split: if_splits prod.splits)
  with pspec_check_read_True [OF wf ok] have ne: "flushed a \<noteq> []" by simp
  then have "\<not> asleep a" using wf by (auto simp: pspec_wf_def)
  with r read_item assms(2) ok ne show ?thesis
    by (intro exI [of _ "snd (pspec_read a)"])
       (auto simp: yinv_def pspec_read_def case_prod_beta)
next
  case (read_none p')
  from assms(2) ypipe_read_sim [of N "ypipe_of s" a] read_none have
    "ypipe_rel N p' (snd (pspec_read a))" "fst (pspec_read a) = None" by (auto simp: yinv_def)
  then show ?thesis using read_none assms(2)
    by (intro exI [of _ "snd (pspec_read a)"])
       (auto simp: yinv_def pspec_read_def case_prod_beta split: if_splits)
qed

lemma yreach_inv: "yreach N s \<Longrightarrow> 0 < N \<Longrightarrow> \<exists>a. yinv N s a"
proof (induction rule: yreach.induct)
  case (ystart p)
  obtain p' :: "'a ypipe" where "ypipe_new N = Some p'" "ypipe_rel N p' pspec_new"
    using ypipe_new_sim [OF ystart.prems] by blast
  with ystart show ?case
    by (intro exI [of _ pspec_new]) (auto simp: yinv_def pspec_new_def)
next
  case (ynext s t)
  then show ?case using yinv_step by blast
qed

text \<open>An executable scheduler: the step an action leads to, \<open>None\<close> when the action is not
  enabled. Every schedule it runs ends in a reachable state.\<close>

datatype 'a yact = AWrite 'a bool | AUnwrite | AFlush | ASet | ACheck | ARead

fun yact_step :: "nat \<Rightarrow> 'a yact \<Rightarrow> 'a ysys \<Rightarrow> 'a ysys option" where
  "yact_step N (AWrite v inc) s =
     (if setting s then None
      else do { p' \<leftarrow> ypipe_write N v inc (ypipe_of s);
                Some (s\<lparr>ypipe_of := p', written := written s @ [v],
                        completed := (if inc then completed s else written s @ [v])\<rparr>) })"
| "yact_step N AUnwrite s =
     (if setting s then None
      else do { (r, p') \<leftarrow> ypipe_unwrite N (ypipe_of s);
                case r of None \<Rightarrow> None
                | Some v \<Rightarrow> Some (s\<lparr>ypipe_of := p', written := butlast (written s)\<rparr>) })"
| "yact_step N AFlush s =
     (let p = ypipe_of s
      in if setting s \<or> yp_w p = yp_f p then None
         else let (old, c') = atomic_cas (yp_c p) (Some (yp_w p)) (Some (yp_f p))
              in if old = Some (yp_w p)
                 then Some (s\<lparr>ypipe_of := p\<lparr>yp_c := c', yp_w := yp_f p\<rparr>\<rparr>)
                 else Some (s\<lparr>ypipe_of := p\<lparr>yp_c := c'\<rparr>, setting := True\<rparr>))"
| "yact_step N ASet s =
     (let p = ypipe_of s
      in if setting s
         then Some (s\<lparr>ypipe_of := p\<lparr>yp_c := Some (yp_f p), yp_w := yp_f p\<rparr>, setting := False\<rparr>)
         else None)"
| "yact_step N ACheck s = Some (s\<lparr>ypipe_of := snd (ypipe_check_read (ypipe_of s))\<rparr>)"
| "yact_step N ARead s =
     do { (r, p') \<leftarrow> ypipe_read N (ypipe_of s);
          case r of None \<Rightarrow> Some (s\<lparr>ypipe_of := p'\<rparr>)
          | Some v \<Rightarrow> Some (s\<lparr>ypipe_of := p', taken := taken s @ [v]\<rparr>) }"

fun yact_steps :: "nat \<Rightarrow> 'a yact list \<Rightarrow> 'a ysys \<Rightarrow> 'a ysys option" where
  "yact_steps N [] s = Some s"
| "yact_steps N (x # xs) s = do { t \<leftarrow> yact_step N x s; yact_steps N xs t }"

definition yrun :: "nat \<Rightarrow> 'a yact list \<Rightarrow> 'a ysys option" where
  "yrun N xs =
     do { p \<leftarrow> ypipe_new N;
          yact_steps N xs \<lparr>ypipe_of = p, setting = False, written = [], completed = [], taken = []\<rparr> }"

lemma yact_step_sound: "yact_step N x s = Some t \<Longrightarrow> ystep N s t"
proof (cases x)
  case (AWrite v inc)
  assume "yact_step N x s = Some t"
  with AWrite obtain p' where w: "\<not> setting s" "ypipe_write N v inc (ypipe_of s) = Some p'"
    "t = s\<lparr>ypipe_of := p', written := written s @ [v],
           completed := (if inc then completed s else written s @ [v])\<rparr>"
    by (cases "setting s") (auto simp: bind_eq_Some_conv)
  show ?thesis unfolding w(3) by (rule ystep.write_item [OF w(1,2)])
next
  case ARead
  assume "yact_step N x s = Some t"
  with ARead obtain r p' where "ypipe_read N (ypipe_of s) = Some (r, p')"
    "(case r of None \<Rightarrow> Some (s\<lparr>ypipe_of := p'\<rparr>)
      | Some v \<Rightarrow> Some (s\<lparr>ypipe_of := p', taken := taken s @ [v]\<rparr>)) = Some t"
    by (auto simp: bind_eq_Some_conv)
  then show ?thesis by (cases r) (auto intro: ystep.read_none ystep.read_item)
qed (auto simp: Let_def bind_eq_Some_conv split: if_splits option.splits prod.splits
       intro: ystep.intros)

lemma yact_steps_reach: "yact_steps N xs s = Some t \<Longrightarrow> yreach N s \<Longrightarrow> yreach N t"
  by (induction xs arbitrary: s)
     (auto simp: bind_eq_Some_conv dest: yact_step_sound intro: yreach.ynext)

lemma yrun_reach: "yrun N xs = Some s \<Longrightarrow> yreach N s"
  by (auto simp: yrun_def bind_eq_Some_conv intro: yact_steps_reach yreach.ystart)

text \<open>C25: under every interleaving of the writer's and the reader's operations, the items the
  reader obtained are an initial segment of the items of complete messages, in the order they
  were written: nothing is lost, duplicated, reordered, or seen before its message is complete.\<close>

theorem ypipe_fifo:
  assumes "yreach N s" "0 < N"
  shows "prefix (taken s) (completed s) \<and> prefix (completed s) (written s)"
  using yreach_inv [OF assms] by (auto simp: yinv_def)

theorem ypipe_fifo_witness:
  "let s = the (yrun 2 [ARead, AWrite (1::nat) True, AWrite 2 False, AWrite 3 True, AFlush, ARead,
                        ASet, ARead, ARead, ARead])
   in taken s = [1, 2] \<and> completed s = [1, 2] \<and> written s = [1, 2, 3] \<and>
      prefix (taken s) (completed s) \<and> prefix (completed s) (written s)"
proof -
  define acts where "acts = [ARead, AWrite (1::nat) True, AWrite 2 False, AWrite 3 True, AFlush,
    ARead, ASet, ARead, ARead, ARead]"
  have "map_option (\<lambda>s. (taken s, completed s, written s)) (yrun 2 acts) =
      Some ([1, 2], [1, 2], [1, 2, 3])"
    unfolding acts_def by code_simp
  then obtain s where s: "yrun 2 acts = Some s" "taken s = [1, 2]" "completed s = [1, 2]"
    "written s = [1, 2, 3]" by auto
  with ypipe_fifo [OF yrun_reach [OF s(1)]] show ?thesis by (simp add: acts_def)
qed

text \<open>C26: no lost wake-up. Whenever the shared pointer says that the reader is asleep, the reader
  has taken everything that was flushed; so if some complete item is still waiting, the next
  flush of the writer returns false, which obliges the writer to wake the reader, and if none
  is waiting flush returns true.\<close>

theorem ypipe_no_lost_wakeup:
  assumes "yreach N s" "0 < N" "yp_c (ypipe_of s) = None"
  shows "fst (ypipe_flush (ypipe_of s)) \<longleftrightarrow> taken s = completed s"
proof -
  from yreach_inv [OF assms(1,2)] obtain a where a: "yinv N s a" by blast
  then have rel: "ypipe_rel N (ypipe_of s) a" by (simp add: yinv_def)
  then have "asleep a" using ypipe_rel_facts(1) [OF rel] assms(3) by (auto split: if_splits)
  moreover from this have "flushed a = []" using rel by (simp add: ypipe_rel_def pspec_wf_def)
  ultimately show ?thesis using a ypipe_flush_sim [OF rel] by (simp add: yinv_def pspec_flush_def)
qed

theorem ypipe_no_lost_wakeup_witness:
  "let s = the (yrun 2 [ARead, AWrite (1::nat) False])
   in yp_c (ypipe_of s) = None \<and> \<not> fst (ypipe_flush (ypipe_of s)) \<and> taken s \<noteq> completed s"
proof -
  have "map_option (\<lambda>s. (taken s, completed s, yp_c (ypipe_of s)))
      (yrun 2 [ARead, AWrite (1::nat) False]) = Some ([], [1], None)" by code_simp
  then obtain s where s: "yrun 2 [ARead, AWrite (1::nat) False] = Some s" "taken s = []"
    "completed s = [1]" "yp_c (ypipe_of s) = None" by auto
  with ypipe_no_lost_wakeup [OF yrun_reach [OF s(1)]] show ?thesis by simp
qed

text \<open>C27: in every reachable state of the two threads every operation returns: no operation of
  the pipe follows a NULL or dangling pointer or reads a cell that was never written.\<close>

theorem ypipe_never_aborts:
  assumes "yreach N s" "0 < N"
  shows "ypipe_write N v inc (ypipe_of s) \<noteq> None \<and> ypipe_unwrite N (ypipe_of s) \<noteq> None \<and>
         ypipe_read N (ypipe_of s) \<noteq> None"
proof -
  from yreach_inv [OF assms] obtain a where "ypipe_rel N (ypipe_of s) a" by (auto simp: yinv_def)
  then show ?thesis
    using ypipe_write_sim [of N _ a v inc] ypipe_unwrite_sim [of N _ a] ypipe_read_sim [of N _ a]
    by fastforce
qed

theorem ypipe_never_aborts_witness:
  "let s = the (yrun 2 [ARead, AWrite (1::nat) False, AFlush])
   in setting s \<and> ypipe_write 2 5 True (ypipe_of s) \<noteq> None \<and> ypipe_unwrite 2 (ypipe_of s) \<noteq> None \<and>
      ypipe_read 2 (ypipe_of s) \<noteq> None"
proof -
  have "map_option setting (yrun 2 [ARead, AWrite (1::nat) False, AFlush]) = Some True" by code_simp
  then obtain s where s: "yrun 2 [ARead, AWrite (1::nat) False, AFlush] = Some s" "setting s" by auto
  with ypipe_never_aborts [OF yrun_reach [OF s(1)], of 5 True] show ?thesis by simp
qed

end
