(* ===== verification/Msg.thy ===== *)
theory Msg
  imports Prelude "HOL-Library.Multiset"
begin

unbundle bit_operations_syntax

text \<open>
  \<open>msg_t\<close> (src/libzmq/src/msg.cpp, msg.hpp) with the reference counters of
  src/libzmq/src/atomic_counter.hpp and \<open>metadata_t\<close> (metadata.cpp). A message is a value; a long
  message points to a shared content object, any message may point to a shared metadata object,
  and both kinds of object live in explicit heaps with 32-bit reference counts. The theory
  shows that the counting is right: for every sequence of message operations each shared buffer
  is released exactly once, when its last message is closed.
\<close>

section \<open>Reference counters\<close>

definition counter_add :: "u32 \<Rightarrow> u32 \<Rightarrow> u32 \<times> u32" where
  "counter_add val inc = (val, val + inc)"

text \<open>\<open>sub\<close> returns false if the counter drops to zero.\<close>

definition counter_sub :: "u32 \<Rightarrow> u32 \<Rightarrow> bool \<times> u32" where
  "counter_sub val decr = (val - decr \<noteq> 0, val - decr)"

section \<open>Metadata\<close>

record metadata =
  md_ref_cnt :: u32
  md_dict :: "(string \<times> string) list"

definition metadata_new :: "(string \<times> string) list \<Rightarrow> metadata" where
  "metadata_new dict = \<lparr>md_ref_cnt = 1, md_dict = dict\<rparr>"

definition metadata_get :: "metadata \<Rightarrow> string \<Rightarrow> string option" where
  "metadata_get md property = map_of (md_dict md) property"

definition metadata_add_ref :: "metadata \<Rightarrow> metadata" where
  "metadata_add_ref md = md\<lparr>md_ref_cnt := snd (counter_add (md_ref_cnt md) 1)\<rparr>"

definition metadata_drop_ref :: "metadata \<Rightarrow> bool \<times> metadata" where
  "metadata_drop_ref md =
     (let (live, n) = counter_sub (md_ref_cnt md) 1 in (\<not> live, md\<lparr>md_ref_cnt := n\<rparr>))"

section \<open>Messages\<close>

definition flag_more :: byte where "flag_more = 1"
definition flag_command :: byte where "flag_command = 2"
definition flag_credential :: byte where "flag_credential = 32"
definition flag_identity :: byte where "flag_identity = 64"
definition flag_shared :: byte where "flag_shared = 128"

text \<open>\<open>max_vsm_size\<close> for 8-byte pointers: 48 - (8 + 8 + 3).\<close>

definition max_vsm_size :: nat where "max_vsm_size = 48 - (8 + 8 + 3)"

text \<open>A shared buffer: the bytes the data pointer refers to, the deallocation function with its
  hint (\<open>None\<close> when the bytes follow the structure itself), and the counter.\<close>

record content =
  ct_data :: blob
  ct_ffn :: "(nat \<times> nat) option"
  ct_refcnt :: u32

text \<open>The variants of the union, by the type tag; \<open>Invalid\<close> is the tag 0 that \<open>close\<close> leaves.\<close>

datatype msg_body = Vsm blob | Lmsg addr | Delimiter | Cmsg blob | Invalid

record msg =
  msg_fd :: int
  msg_metadata :: "addr option"
  msg_body :: msg_body
  msg_flags :: byte

text \<open>Memory: the two heaps, the largest block malloc can still provide, and the calls of user
  deallocation functions so far.\<close>

record mheap =
  contents :: "content heap"
  metadatas :: "metadata heap"
  avail :: nat
  ffn_calls :: "(nat \<times> nat) list"

definition msg_check :: "msg \<Rightarrow> bool" where
  "msg_check m \<longleftrightarrow> msg_body m \<noteq> Invalid"

definition msg_init :: msg where
  "msg_init = \<lparr>msg_fd = -1, msg_metadata = None, msg_body = Vsm [], msg_flags = 0\<rparr>"

text \<open>\<open>malloc (sizeof (content_t) + size)\<close>: the sum is taken in \<open>size_t\<close>. When it wraps, the block
  is smaller than the header that is written into it. The body of a fresh message is not
  initialised by the code; the model shows zeros.\<close>

definition sizeof_content :: int where "sizeof_content = 40"

definition malloc_fails :: "nat \<Rightarrow> nat \<Rightarrow> bool" where
  "malloc_fails mem sz \<longleftrightarrow> (sizeof_content + int sz) mod 2 ^ 64 > int mem"

definition size_fits :: "nat \<Rightarrow> bool" where
  "size_fits sz \<longleftrightarrow> sizeof_content + int sz < 2 ^ 64"

text \<open>What a failed \<open>malloc\<close> leaves behind: the object is already marked as a long message (\<open>check\<close> accepts it), but its content pointer is
  NULL, and \<open>close\<close> would dereference it. Such an object is not a message; all a caller may do is initialise it again.\<close>

record null_lmsg =
  nl_fd :: int
  nl_metadata :: "addr option"
  nl_flags :: byte

definition null_content :: null_lmsg where
  "null_content = \<lparr>nl_fd = -1, nl_metadata = None, nl_flags = 0\<rparr>"

definition msg_init_size :: "nat \<Rightarrow> mheap \<Rightarrow> ((errno \<times> null_lmsg + msg) \<times> mheap) option" where
  "msg_init_size sz h =
     (if sz \<le> max_vsm_size
      then Some (Inr \<lparr>msg_fd = -1, msg_metadata = None, msg_body = Vsm (replicate sz 0), msg_flags = 0\<rparr>, h)
      else if malloc_fails (avail h) sz then Some (Inl (ENOMEM, null_content), h)
      else if \<not> size_fits sz then None
      else let (a, cs) = heap_alloc (contents h)
                  \<lparr>ct_data = replicate sz 0, ct_ffn = None, ct_refcnt = 0\<rparr>
           in Some (Inr \<lparr>msg_fd = -1, msg_metadata = None, msg_body = Lmsg a, msg_flags = 0\<rparr>,
               h\<lparr>contents := cs\<rparr>))"

text \<open>\<open>data\<close> is \<open>None\<close> for a NULL pointer; \<open>size\<close> is its length, as the caller promises.\<close>

definition msg_init_data ::
  "blob option \<Rightarrow> nat \<Rightarrow> (nat \<times> nat) option \<Rightarrow> mheap \<Rightarrow> ((errno \<times> null_lmsg + msg) \<times> mheap) option" where
  "msg_init_data data sz ffn h =
     do { zmq_assert (data \<noteq> None \<or> sz = 0);
          let bytes = (case data of None \<Rightarrow> [] | Some bs \<Rightarrow> take sz bs);
          case ffn of
            None \<Rightarrow> Some (Inr \<lparr>msg_fd = -1, msg_metadata = None, msg_body = Cmsg bytes, msg_flags = 0\<rparr>, h)
          | Some fh \<Rightarrow>
              if malloc_fails (avail h) 0 then Some (Inl (ENOMEM, null_content), h)
              else let (a, cs) = heap_alloc (contents h)
                         \<lparr>ct_data = bytes, ct_ffn = Some fh, ct_refcnt = 0\<rparr>
                   in Some (Inr \<lparr>msg_fd = -1, msg_metadata = None, msg_body = Lmsg a, msg_flags = 0\<rparr>,
                            h\<lparr>contents := cs\<rparr>) }"

text \<open>\<open>init_delimiter\<close> does not touch the file descriptor.\<close>

definition msg_init_delimiter :: "int \<Rightarrow> msg" where
  "msg_init_delimiter fd =
     \<lparr>msg_fd = fd, msg_metadata = None, msg_body = Delimiter, msg_flags = 0\<rparr>"

definition is_shared :: "msg \<Rightarrow> bool" where
  "is_shared m \<longleftrightarrow> msg_flags m AND flag_shared \<noteq> 0"

text \<open>Destroy a content object: call the user's function if there is one, free the memory.\<close>

definition content_release :: "addr \<Rightarrow> mheap \<Rightarrow> mheap option" where
  "content_release a h =
     do { c \<leftarrow> heap_load (contents h) a;
          cs \<leftarrow> heap_free (contents h) a;
          Some (h\<lparr>contents := cs,
                  ffn_calls := ffn_calls h @ (case ct_ffn c of None \<Rightarrow> [] | Some fh \<Rightarrow> [fh])\<rparr>) }"

text \<open>Drop \<open>n\<close> references of a shared content; the result says whether it is still alive.\<close>

definition content_sub :: "addr \<Rightarrow> u32 \<Rightarrow> mheap \<Rightarrow> (bool \<times> mheap) option" where
  "content_sub a n h =
     do { c \<leftarrow> heap_load (contents h) a;
          let (live, k) = counter_sub (ct_refcnt c) n;
          cs \<leftarrow> heap_store (contents h) a (c\<lparr>ct_refcnt := k\<rparr>);
          Some (live, h\<lparr>contents := cs\<rparr>) }"

definition content_set_refs :: "addr \<Rightarrow> (u32 \<Rightarrow> u32) \<Rightarrow> mheap \<Rightarrow> mheap option" where
  "content_set_refs a g h =
     do { c \<leftarrow> heap_load (contents h) a;
          cs \<leftarrow> heap_store (contents h) a (c\<lparr>ct_refcnt := g (ct_refcnt c)\<rparr>);
          Some (h\<lparr>contents := cs\<rparr>) }"

definition close_content :: "msg \<Rightarrow> mheap \<Rightarrow> mheap option" where
  "close_content m h =
     (case msg_body m of
        Lmsg a \<Rightarrow>
          (if \<not> is_shared m then content_release a h
           else do { (live, h) \<leftarrow> content_sub a 1 h;
                     if \<not> live then content_release a h else Some h })
      | _ \<Rightarrow> Some h)"

text \<open>\<open>if (metadata->drop_ref ()) delete metadata\<close>.\<close>

definition metadata_unref :: "addr \<Rightarrow> mheap \<Rightarrow> mheap option" where
  "metadata_unref a h =
     do { md \<leftarrow> heap_load (metadatas h) a;
          let (dead, md') = metadata_drop_ref md;
          ms \<leftarrow> (if dead then heap_free (metadatas h) a else heap_store (metadatas h) a md');
          Some (h\<lparr>metadatas := ms\<rparr>) }"

definition close_metadata :: "msg \<Rightarrow> mheap \<Rightarrow> mheap option" where
  "close_metadata m h =
     (case msg_metadata m of None \<Rightarrow> Some h | Some a \<Rightarrow> metadata_unref a h)"

text \<open>The return codes: \<open>Inl e\<close> is -1 with \<open>errno\<close> set to \<open>e\<close>, \<open>Inr ()\<close> is 0.\<close>

definition msg_close :: "msg \<Rightarrow> mheap \<Rightarrow> ((errno + unit) \<times> msg \<times> mheap) option" where
  "msg_close m h =
     (if \<not> msg_check m then Some (Inl EFAULT, m, h)
      else do { h \<leftarrow> close_content m h;
                h \<leftarrow> close_metadata m h;
                Some (Inr (), m\<lparr>msg_body := Invalid\<rparr>, h) })"

text \<open>\<open>dst.move (src)\<close> and \<open>dst.copy (src)\<close> return the new destination and the new source.\<close>

definition msg_move :: "msg \<Rightarrow> msg \<Rightarrow> mheap \<Rightarrow> ((errno + unit) \<times> msg \<times> msg \<times> mheap) option" where
  "msg_move dst src h =
     (if \<not> msg_check src then Some (Inl EFAULT, dst, src, h)
      else do { (rc, dst', h) \<leftarrow> msg_close dst h;
                case rc of
                  Inl e \<Rightarrow> Some (Inl e, dst', src, h)
                | Inr _ \<Rightarrow> Some (Inr (), src, msg_init, h) })"

definition metadata_addref :: "addr \<Rightarrow> mheap \<Rightarrow> mheap option" where
  "metadata_addref a h =
     do { md \<leftarrow> heap_load (metadatas h) a;
          ms \<leftarrow> heap_store (metadatas h) a (metadata_add_ref md);
          Some (h\<lparr>metadatas := ms\<rparr>) }"

definition metadata_ref :: "msg \<Rightarrow> mheap \<Rightarrow> mheap option" where
  "metadata_ref m h =
     (case msg_metadata m of None \<Rightarrow> Some h | Some a \<Rightarrow> metadata_addref a h)"

definition share_content :: "u32 \<Rightarrow> msg \<Rightarrow> mheap \<Rightarrow> (msg \<times> mheap) option" where
  "share_content n m h =
     (case msg_body m of
        Lmsg a \<Rightarrow>
          (if is_shared m
           then do { h \<leftarrow> content_set_refs a (\<lambda>k. snd (counter_add k n)) h; Some (m, h) }
           else do { h \<leftarrow> content_set_refs a (\<lambda>_. n + 1) h;
                     Some (m\<lparr>msg_flags := msg_flags m OR flag_shared\<rparr>, h) })
      | _ \<Rightarrow> Some (m, h))"

definition msg_copy :: "msg \<Rightarrow> msg \<Rightarrow> mheap \<Rightarrow> ((errno + unit) \<times> msg \<times> msg \<times> mheap) option" where
  "msg_copy dst src h =
     (if \<not> msg_check src then Some (Inl EFAULT, dst, src, h)
      else do { (rc, dst', h) \<leftarrow> msg_close dst h;
                case rc of
                  Inl e \<Rightarrow> Some (Inl e, dst', src, h)
                | Inr _ \<Rightarrow> do { (src', h) \<leftarrow> share_content 1 src h;
                              h \<leftarrow> metadata_ref src' h;
                              Some (Inr (), src', src', h) } })"

definition msg_data :: "msg \<Rightarrow> mheap \<Rightarrow> blob option" where
  "msg_data m h =
     (case msg_body m of
        Vsm bs \<Rightarrow> Some bs
      | Lmsg a \<Rightarrow> map_option ct_data (heap_load (contents h) a)
      | Cmsg bs \<Rightarrow> Some bs
      | _ \<Rightarrow> None)"

definition msg_size :: "msg \<Rightarrow> mheap \<Rightarrow> nat option" where
  "msg_size m h = map_option length (msg_data m h)"

definition msg_set_flags :: "byte \<Rightarrow> msg \<Rightarrow> msg" where
  "msg_set_flags fl m = m\<lparr>msg_flags := msg_flags m OR fl\<rparr>"

definition msg_reset_flags :: "byte \<Rightarrow> msg \<Rightarrow> msg" where
  "msg_reset_flags fl m = m\<lparr>msg_flags := msg_flags m AND (NOT fl)\<rparr>"

definition msg_set_fd :: "int \<Rightarrow> msg \<Rightarrow> msg" where
  "msg_set_fd fd m = m\<lparr>msg_fd := fd\<rparr>"

definition msg_set_metadata :: "addr \<Rightarrow> msg \<Rightarrow> mheap \<Rightarrow> (msg \<times> mheap) option" where
  "msg_set_metadata a m h =
     do { zmq_assert (msg_metadata m = None);
          h \<leftarrow> metadata_addref a h;
          Some (m\<lparr>msg_metadata := Some a\<rparr>, h) }"

definition msg_reset_metadata :: "msg \<Rightarrow> mheap \<Rightarrow> (msg \<times> mheap) option" where
  "msg_reset_metadata m h =
     do { h \<leftarrow> close_metadata m h; Some (m\<lparr>msg_metadata := None\<rparr>, h) }"

definition msg_is_identity :: "msg \<Rightarrow> bool" where
  "msg_is_identity m \<longleftrightarrow> msg_flags m AND flag_identity = flag_identity"

definition msg_is_credential :: "msg \<Rightarrow> bool" where
  "msg_is_credential m \<longleftrightarrow> msg_flags m AND flag_credential = flag_credential"

definition msg_is_delimiter :: "msg \<Rightarrow> bool" where
  "msg_is_delimiter m \<longleftrightarrow> msg_body m = Delimiter"

definition msg_is_vsm :: "msg \<Rightarrow> bool" where
  "msg_is_vsm m \<longleftrightarrow> (case msg_body m of Vsm _ \<Rightarrow> True | _ \<Rightarrow> False)"

definition msg_is_cmsg :: "msg \<Rightarrow> bool" where
  "msg_is_cmsg m \<longleftrightarrow> (case msg_body m of Cmsg _ \<Rightarrow> True | _ \<Rightarrow> False)"

definition msg_more :: "msg \<Rightarrow> bool" where
  "msg_more m \<longleftrightarrow> msg_flags m AND flag_more \<noteq> 0"

text \<open>After \<open>add_refs n\<close> the message may be copied \<open>n\<close> times as plain data; \<open>rm_refs\<close> gives
  unused references back and returns false when it closed the message.\<close>

definition msg_add_refs :: "int \<Rightarrow> msg \<Rightarrow> mheap \<Rightarrow> (msg \<times> mheap) option" where
  "msg_add_refs refs m h =
     do { zmq_assert (refs \<ge> 0);
          zmq_assert (msg_metadata m = None);
          if refs = 0 then Some (m, h) else share_content (of_int refs) m h }"

definition msg_rm_refs :: "int \<Rightarrow> msg \<Rightarrow> mheap \<Rightarrow> (bool \<times> msg \<times> mheap) option" where
  "msg_rm_refs refs m h =
     do { zmq_assert (refs \<ge> 0);
          zmq_assert (msg_metadata m = None);
          if refs = 0 then Some (True, m, h)
          else case msg_body m of
            Lmsg a \<Rightarrow>
              (if \<not> is_shared m
               then do { (_, m, h) \<leftarrow> msg_close m h; Some (False, m, h) }
               else do { (live, h) \<leftarrow> content_sub a (of_int refs) h;
                         if \<not> live
                         then do { h \<leftarrow> content_release a h; Some (False, m, h) }
                         else Some (True, m, h) })
          | _ \<Rightarrow> do { (_, m, h) \<leftarrow> msg_close m h; Some (False, m, h) } }"

section \<open>The accounting of references\<close>

text \<open>
  \<open>ms\<close> are all the message structures in use, \<open>p a\<close> the references to the content \<open>a\<close> that
  \<open>add_refs\<close> created and no message structure carries yet, \<open>os\<close> the references to metadata
  objects that engines hold themselves. A content object is alive exactly when it is referenced.
  It is either exclusive, pointed to by one message that is not marked shared, or counted: every
  message that points to it is marked shared and the counter is the number of references.
  A closed message may still carry a stale metadata pointer, so only valid messages count there.
\<close>

definition lrefs :: "msg list \<Rightarrow> addr \<Rightarrow> nat" where
  "lrefs ms a = cnt (\<lambda>m. msg_body m = Lmsg a \<and> \<not> is_shared m) ms"

definition srefs :: "msg list \<Rightarrow> addr \<Rightarrow> nat" where
  "srefs ms a = cnt (\<lambda>m. msg_body m = Lmsg a \<and> is_shared m) ms"

fun content_st :: "nat \<Rightarrow> nat \<Rightarrow> content option \<Rightarrow> bool" where
  "content_st l s None \<longleftrightarrow> l = 0 \<and> s = 0"
| "content_st l s (Some c) \<longleftrightarrow>
     (l = 1 \<and> s = 0) \<or> (l = 0 \<and> 0 < s \<and> unat (ct_refcnt c) = s)"

definition content_ok :: "msg list \<Rightarrow> (addr \<Rightarrow> nat) \<Rightarrow> (addr \<rightharpoonup> content) \<Rightarrow> bool" where
  "content_ok ms p cs \<longleftrightarrow> (\<forall>a. content_st (lrefs ms a) (srefs ms a + p a) (cs a))"

definition mrefs :: "msg list \<Rightarrow> addr list \<Rightarrow> addr \<Rightarrow> nat" where
  "mrefs ms os a = cnt (\<lambda>m. msg_check m \<and> msg_metadata m = Some a) ms + count_list os a"

fun metadata_st :: "nat \<Rightarrow> metadata option \<Rightarrow> bool" where
  "metadata_st n None \<longleftrightarrow> n = 0"
| "metadata_st n (Some md) \<longleftrightarrow> 0 < n \<and> unat (md_ref_cnt md) = n"

definition metadata_ok :: "(addr \<Rightarrow> nat) \<Rightarrow> (addr \<rightharpoonup> metadata) \<Rightarrow> bool" where
  "metadata_ok f mds \<longleftrightarrow> (\<forall>a. metadata_st (f a) (mds a))"

lemma unat_dec: "unat (n :: u32) = Suc k \<Longrightarrow> unat (n - 1) = k"
  by (metis diff_Suc_1 nat.simps(3) unat_0 unat_minus_one)

lemma unat_sub: "unat (n :: u32) = k + j \<Longrightarrow> unat (n - of_nat j) = k"
proof -
  assume a: "unat n = k + j"
  then have "k < 2 ^ 32" using unsigned_less [where ?'a = nat, of n] by simp
  moreover have "of_nat (k + j) = n" unfolding of_nat_eq by (rule exI [of _ 0]) (simp add: a)
  then have "n = of_nat k + of_nat j" by simp
  ultimately show ?thesis by (simp add: unat_of_nat)
qed

lemma unat_inc: "unat (n :: u32) = k \<Longrightarrow> k + j < 2 ^ 32 \<Longrightarrow> unat (n + of_nat j) = k + j"
  by (simp add: unat_word_ariths unat_of_nat)

lemma lrefs_update:
  "i < length ms \<Longrightarrow>
   lrefs (ms[i := m]) a + of_bool (msg_body (ms ! i) = Lmsg a \<and> \<not> is_shared (ms ! i)) =
     lrefs ms a + of_bool (msg_body m = Lmsg a \<and> \<not> is_shared m)"
  unfolding lrefs_def by (rule cnt_update)

lemma srefs_update:
  "i < length ms \<Longrightarrow>
   srefs (ms[i := m]) a + of_bool (msg_body (ms ! i) = Lmsg a \<and> is_shared (ms ! i)) =
     srefs ms a + of_bool (msg_body m = Lmsg a \<and> is_shared m)"
  unfolding srefs_def by (rule cnt_update)

lemma mrefs_update:
  "i < length ms \<Longrightarrow>
   mrefs (ms[i := m]) os a + of_bool (msg_check (ms ! i) \<and> msg_metadata (ms ! i) = Some a) =
     mrefs ms os a + of_bool (msg_check m \<and> msg_metadata m = Some a)"
  using cnt_update [of i ms "\<lambda>m. msg_check m \<and> msg_metadata m = Some a" m] by (simp add: mrefs_def)

lemma refs_update_other:
  assumes "i < length ms" "msg_body (ms ! i) \<noteq> Lmsg a" "msg_body m \<noteq> Lmsg a"
  shows "lrefs (ms[i := m]) a = lrefs ms a" "srefs (ms[i := m]) a = srefs ms a"
  using lrefs_update [OF assms(1), of m a] srefs_update [OF assms(1), of m a] assms(2,3) by auto

lemma refs_pos:
  assumes "i < length ms" "msg_body (ms ! i) = Lmsg a"
  shows "is_shared (ms ! i) \<Longrightarrow> 0 < srefs ms a" "\<not> is_shared (ms ! i) \<Longrightarrow> 0 < lrefs ms a"
  using assms nth_mem [of i ms] by (auto simp: srefs_def lrefs_def cnt_pos_iff)

text \<open>Changing what is known about one address.\<close>

lemma content_ok_at:
  assumes "content_ok ms p cs"
    and "\<And>b. b \<noteq> a \<Longrightarrow> lrefs ms' b = lrefs ms b \<and> srefs ms' b = srefs ms b \<and> p' b = p b \<and> cs' b = cs b"
    and "content_st (lrefs ms' a) (srefs ms' a + p' a) (cs' a)"
  shows "content_ok ms' p' cs'"
  using assms unfolding content_ok_def by metis

lemma content_ok_live:
  "content_ok ms p cs \<Longrightarrow> i < length ms \<Longrightarrow> msg_body (ms ! i) = Lmsg a \<Longrightarrow> \<exists>c. cs a = Some c"
  using refs_pos [of i ms a]
  by (cases "cs a"; cases "is_shared (ms ! i)") (auto simp: content_ok_def dest!: spec [of _ a])

lemma content_release_load:
  "heap_load (contents h) a = Some c \<Longrightarrow>
   \<exists>h'. content_release a h = Some h' \<and> heap_load (contents h') = (heap_load (contents h))(a := None) \<and>
        metadatas h' = metadatas h"
  using hp.fr_ok [of "contents h" a] by (auto simp: content_release_def dest: hp.ld_fr)

lemma content_sub_load:
  "heap_load (contents h) a = Some c \<Longrightarrow>
   \<exists>h'. content_sub a n h = Some (ct_refcnt c - n \<noteq> 0, h') \<and>
        heap_load (contents h') = (heap_load (contents h))(a \<mapsto> c\<lparr>ct_refcnt := ct_refcnt c - n\<rparr>) \<and>
        metadatas h' = metadatas h"
  using hp.st_ok [of "contents h" a "c\<lparr>ct_refcnt := ct_refcnt c - n\<rparr>"]
  by (auto simp: content_sub_def counter_sub_def dest: hp.ld_st)

lemma content_set_refs_load:
  "heap_load (contents h) a = Some c \<Longrightarrow>
   \<exists>h'. content_set_refs a g h = Some h' \<and>
        heap_load (contents h') = (heap_load (contents h))(a \<mapsto> c\<lparr>ct_refcnt := g (ct_refcnt c)\<rparr>) \<and>
        metadatas h' = metadatas h"
  using hp.st_ok [of "contents h" a "c\<lparr>ct_refcnt := g (ct_refcnt c)\<rparr>"]
  by (auto simp: content_set_refs_def dest: hp.ld_st)

text \<open>Dropping \<open>n\<close> counted references of a content, and freeing it with the last one.\<close>

definition content_drop :: "addr \<Rightarrow> u32 \<Rightarrow> mheap \<Rightarrow> mheap option" where
  "content_drop a n h =
     do { (live, h) \<leftarrow> content_sub a n h; if \<not> live then content_release a h else Some h }"

lemma content_drop_load:
  assumes "heap_load (contents h) a = Some c" "unat (ct_refcnt c) = k + n"
  obtains h' where "content_drop a (of_nat n) h = Some h'" "metadatas h' = metadatas h"
    "heap_load (contents h') = (heap_load (contents h))
        (a := if k = 0 then None else Some (c\<lparr>ct_refcnt := ct_refcnt c - of_nat n\<rparr>))"
proof -
  let ?c = "c\<lparr>ct_refcnt := ct_refcnt c - of_nat n\<rparr>"
  have z: "ct_refcnt c - of_nat n = 0 \<longleftrightarrow> k = 0"
    using unat_sub [OF assms(2)] by (metis unat_eq_0)
  from content_sub_load [OF assms(1), of "of_nat n"] obtain h1 where h1:
    "content_sub a (of_nat n) h = Some (ct_refcnt c - of_nat n \<noteq> 0, h1)"
    "heap_load (contents h1) = (heap_load (contents h))(a \<mapsto> ?c)" "metadatas h1 = metadatas h"
    by blast
  show ?thesis
  proof (cases "k = 0")
    case True
    have "heap_load (contents h1) a = Some ?c" using h1(2) by simp
    from content_release_load [OF this] obtain h2 where "content_release a h1 = Some h2"
      "heap_load (contents h2) = (heap_load (contents h))(a := None)" "metadatas h2 = metadatas h"
      using h1(2,3) by auto
    with True z h1(1) show ?thesis using that [of h2] by (simp add: content_drop_def)
  next
    case False
    with z h1 show ?thesis using that [of h1] by (simp add: content_drop_def)
  qed
qed

lemma close_content_ok:
  assumes ok: "content_ok ms p (heap_load (contents h))" and i: "i < length ms"
    and m: "\<forall>b. msg_body m \<noteq> Lmsg b"
  shows "\<exists>h'. close_content (ms ! i) h = Some h' \<and> metadatas h' = metadatas h \<and>
              content_ok (ms[i := m]) p (heap_load (contents h'))"
proof (cases "\<exists>a. msg_body (ms ! i) = Lmsg a")
  case False
  then have "close_content (ms ! i) h = Some h"
    by (auto simp: close_content_def split: msg_body.split)
  moreover have "content_ok (ms[i := m]) p (heap_load (contents h))"
    using ok refs_update_other [OF i] m False by (simp add: content_ok_def)
  ultimately show ?thesis by auto
next
  case True
  then obtain a where a: "msg_body (ms ! i) = Lmsg a" by blast
  obtain c where c: "heap_load (contents h) a = Some c" using content_ok_live [OF ok i a] by blast
  have st: "content_st (lrefs ms a) (srefs ms a + p a) (Some c)"
    using ok c by (metis content_ok_def)
  note upd = lrefs_update [OF i, of m a] srefs_update [OF i, of m a] refs_pos [OF i a]
  have rest: "content_ok (ms[i := m]) p cs'"
    if "cs' = (heap_load (contents h))(a := co)"
      "content_st (lrefs (ms[i := m]) a) (srefs (ms[i := m]) a + p a) co" for cs' co
    by (rule content_ok_at [OF ok, of a]) (use refs_update_other [OF i] a m that in auto)
  show ?thesis
  proof (cases "is_shared (ms ! i)")
    case False
    from content_release_load [OF c] obtain h' where "content_release a h = Some h'"
      "heap_load (contents h') = (heap_load (contents h))(a := None)" "metadatas h' = metadatas h" by blast
    moreover have "content_st (lrefs (ms[i := m]) a) (srefs (ms[i := m]) a + p a) None"
      using upd st a m False by auto
    ultimately show ?thesis using rest False a by (auto simp: close_content_def)
  next
    case True
    define k where "k = srefs (ms[i := m]) a + p a"
    define co where "co = (if k = 0 then None else Some (c\<lparr>ct_refcnt := ct_refcnt c - 1\<rparr>))"
    have n: "unat (ct_refcnt c) = k + 1" "lrefs (ms[i := m]) a = 0"
      using upd st a m True by (auto simp: k_def)
    obtain h' where h': "content_drop a 1 h = Some h'"
      "metadatas h' = metadatas h" "heap_load (contents h') = (heap_load (contents h))(a := co)"
      using content_drop_load [OF c n(1), unfolded of_nat_1, folded co_def] by blast
    have "content_st (lrefs (ms[i := m]) a) k co"
      using n unat_dec [of "ct_refcnt c" k] by (simp add: co_def)
    from rest [OF h'(3) this [unfolded k_def]] h'(1,2) show ?thesis
      using True a by (simp add: close_content_def content_drop_def)
  qed
qed

lemma metadata_ok_at:
  assumes "metadata_ok f mds" "mds' = mds(a := co)" "\<And>b. b \<noteq> a \<Longrightarrow> g b = f b" "metadata_st (g a) co"
  shows "metadata_ok g mds'"
  using assms unfolding metadata_ok_def by (metis fun_upd_apply)

lemma metadata_ok_cong: "metadata_ok f mds \<Longrightarrow> (\<And>a. g a = f a) \<Longrightarrow> metadata_ok g mds"
  by (simp add: metadata_ok_def)

lemma metadata_ok_live:
  assumes "metadata_ok f mds" "0 < f a"
  obtains md where "mds a = Some md" "unat (md_ref_cnt md) = f a"
  using assms that by (cases "mds a") (auto simp: metadata_ok_def dest!: spec [of _ a])

lemma metadata_unref_ok:
  assumes ok: "metadata_ok f (heap_load (metadatas h))" and g: "f a = Suc (g a)" "\<And>b. b \<noteq> a \<Longrightarrow> g b = f b"
  shows "\<exists>h'. metadata_unref a h = Some h' \<and> contents h' = contents h \<and>
              metadata_ok g (heap_load (metadatas h'))"
proof -
  obtain md where md: "heap_load (metadatas h) a = Some md" "unat (md_ref_cnt md) = Suc (g a)"
    using metadata_ok_live [OF ok, of a] g(1) by auto
  have u: "unat (md_ref_cnt md - 1) = g a" using unat_dec [OF md(2)] .
  then have z: "md_ref_cnt md - 1 = 0 \<longleftrightarrow> g a = 0" by (metis unat_eq_0)
  show ?thesis
  proof (cases "g a = 0")
    case True
    then obtain k where k: "heap_free (metadatas h) a = Some k" using hp.fr_ok [of "metadatas h" a] md by auto
    from metadata_ok_at [OF ok hp.ld_fr [OF k] g(2)] True have "metadata_ok g (heap_load k)" by simp
    with True z md k show ?thesis
      by (simp add: metadata_unref_def metadata_drop_ref_def counter_sub_def)
  next
    case False
    then obtain k where k: "heap_store (metadatas h) a (md\<lparr>md_ref_cnt := md_ref_cnt md - 1\<rparr>) = Some k"
      using hp.st_ok [of "metadatas h" a] md by blast
    from metadata_ok_at [OF ok hp.ld_st [OF k] g(2)] False u have "metadata_ok g (heap_load k)" by simp
    with False z md k show ?thesis
      by (simp add: metadata_unref_def metadata_drop_ref_def counter_sub_def)
  qed
qed

lemma metadata_addref_ok:
  assumes ok: "metadata_ok f (heap_load (metadatas h))" and "0 < f a" "Suc (f a) < 2 ^ 32"
    and g: "g a = Suc (f a)" "\<And>b. b \<noteq> a \<Longrightarrow> g b = f b"
  shows "\<exists>h'. metadata_addref a h = Some h' \<and> contents h' = contents h \<and>
              metadata_ok g (heap_load (metadatas h'))"
proof -
  obtain md where md: "heap_load (metadatas h) a = Some md" "unat (md_ref_cnt md) = f a"
    using metadata_ok_live [OF ok assms(2)] by auto
  then obtain k where k: "heap_store (metadatas h) a (metadata_add_ref md) = Some k"
    using hp.st_ok [of "metadatas h" a] by blast
  have "metadata_st (g a) (Some (metadata_add_ref md))"
    using unat_inc [OF md(2), of 1] assms(3) g(1) by (simp add: metadata_add_ref_def counter_add_def)
  from metadata_ok_at [OF ok hp.ld_st [OF k] g(2) this] md k show ?thesis
    by (simp add: metadata_addref_def)
qed

section \<open>A system of messages\<close>

text \<open>
  All message structures of a process with the two heaps, and the operations a caller may apply
  to them. \<open>given\<close> records the deallocation functions handed to \<open>init_data\<close>.
\<close>

record msys =
  slots :: "msg list"
  pend :: "addr \<Rightarrow> nat"
  owners :: "addr list"
  mh :: mheap
  given :: "(nat \<times> nat) list"

datatype mop =
    OInit nat | OInitSize nat nat | OInitData nat blob "(nat \<times> nat) option" | OInitDelimiter nat
  | OClose nat | OMove nat nat | OCopy nat nat | OSetFlags nat byte | OResetFlags nat byte
  | OSetMeta nat addr | OResetMeta nat | ONewMeta "(string \<times> string) list" | ODropMeta addr
  | OAddRefs nat nat | OHandOver nat nat | OGive nat nat | ORmRefs nat nat

definition msys_new :: "nat \<Rightarrow> nat \<Rightarrow> msys" where
  "msys_new n mem =
     \<lparr>slots = replicate n \<lparr>msg_fd = 0, msg_metadata = None, msg_body = Invalid, msg_flags = 0\<rparr>,
      pend = (\<lambda>_. 0), owners = [],
      mh = \<lparr>contents = [], metadatas = [], avail = mem, ffn_calls = []\<rparr>, given = []\<rparr>"

text \<open>The references to the content of a message, and the room its counter has for more.\<close>

definition room :: "msys \<Rightarrow> msg \<Rightarrow> nat \<Rightarrow> bool" where
  "room s m k \<longleftrightarrow>
     (case msg_body m of
        Lmsg a \<Rightarrow> int (lrefs (slots s) a + srefs (slots s) a + pend s a + k) < 2 ^ 32
      | _ \<Rightarrow> True)"

definition meta_room :: "msys \<Rightarrow> addr \<Rightarrow> bool" where
  "meta_room s a \<longleftrightarrow> int (Suc (mrefs (slots s) (owners s) a)) < 2 ^ 32"

lemma roomD:
  "room s m k \<Longrightarrow> msg_body m = Lmsg a \<Longrightarrow>
   lrefs (slots s) a + srefs (slots s) a + pend s a + k < 2 ^ 32"
  unfolding room_def by simp

lemma meta_roomD: "meta_room s a \<Longrightarrow> Suc (mrefs (slots s) (owners s) a) < 2 ^ 32"
  unfolding meta_room_def by simp

text \<open>
  What the callers owe: a structure is initialised when it holds no message, one whose initialisation
  failed holds none, source and
  destination are different structures, the shared flag belongs to the class, an engine sets
  metadata it owns on a message that has none, 32-bit counters have room. A handed over
  reference was created by \<open>add_refs\<close>; \<open>rm_refs\<close> returns at most what is left, counting the
  caller's own, and the caller then forgets its structure. \<open>OGive\<close> is the bitwise move with
  which a message enters a pipe: the structure is copied and the original initialised anew.
\<close>

fun mop_pre :: "mop \<Rightarrow> msys \<Rightarrow> bool" where
  "mop_pre (OInit i) s \<longleftrightarrow> i < length (slots s) \<and> \<not> msg_check (slots s ! i)"
| "mop_pre (OInitSize i sz) s \<longleftrightarrow> i < length (slots s) \<and> \<not> msg_check (slots s ! i) \<and> size_fits sz"
| "mop_pre (OInitData i bs ffn) s \<longleftrightarrow> i < length (slots s) \<and> \<not> msg_check (slots s ! i)"
| "mop_pre (OInitDelimiter i) s \<longleftrightarrow> i < length (slots s) \<and> \<not> msg_check (slots s ! i)"
| "mop_pre (OClose i) s \<longleftrightarrow> i < length (slots s)"
| "mop_pre (OMove d i) s \<longleftrightarrow> d < length (slots s) \<and> i < length (slots s) \<and> d \<noteq> i"
| "mop_pre (OCopy d i) s \<longleftrightarrow> d < length (slots s) \<and> i < length (slots s) \<and> d \<noteq> i \<and>
     room s (slots s ! i) 1 \<and>
     (case msg_metadata (slots s ! i) of None \<Rightarrow> True | Some a \<Rightarrow> meta_room s a)"
| "mop_pre (OSetFlags i fl) s \<longleftrightarrow> i < length (slots s) \<and> fl AND flag_shared = 0"
| "mop_pre (OResetFlags i fl) s \<longleftrightarrow> i < length (slots s) \<and> fl AND flag_shared = 0"
| "mop_pre (OSetMeta i a) s \<longleftrightarrow> i < length (slots s) \<and> msg_check (slots s ! i) \<and>
     msg_metadata (slots s ! i) = None \<and> a \<in> set (owners s) \<and> meta_room s a"
| "mop_pre (OResetMeta i) s \<longleftrightarrow> i < length (slots s) \<and> msg_check (slots s ! i)"
| "mop_pre (ONewMeta dict) s \<longleftrightarrow> True"
| "mop_pre (ODropMeta a) s \<longleftrightarrow> a \<in> set (owners s)"
| "mop_pre (OAddRefs i n) s \<longleftrightarrow> i < length (slots s) \<and> msg_metadata (slots s ! i) = None \<and>
     room s (slots s ! i) n"
| "mop_pre (OHandOver d i) s \<longleftrightarrow> d < length (slots s) \<and> i < length (slots s) \<and> d \<noteq> i \<and>
     \<not> msg_check (slots s ! d) \<and> msg_metadata (slots s ! i) = None \<and>
     (case msg_body (slots s ! i) of Lmsg a \<Rightarrow> 0 < pend s a | _ \<Rightarrow> True)"
| "mop_pre (OGive d i) s \<longleftrightarrow> d < length (slots s) \<and> i < length (slots s) \<and> d \<noteq> i \<and>
     \<not> msg_check (slots s ! d)"
| "mop_pre (ORmRefs i n) s \<longleftrightarrow> i < length (slots s) \<and> msg_metadata (slots s ! i) = None \<and> 0 < n \<and>
     (case msg_body (slots s ! i) of Lmsg a \<Rightarrow> n \<le> Suc (pend s a) | _ \<Rightarrow> True)"

definition set_slot :: "nat \<Rightarrow> msg \<Rightarrow> msys \<Rightarrow> msys" where
  "set_slot i m s = s\<lparr>slots := (slots s)[i := m]\<rparr>"

definition upd_pend :: "msg \<Rightarrow> (nat \<Rightarrow> nat) \<Rightarrow> msys \<Rightarrow> msys" where
  "upd_pend m g s = (case msg_body m of Lmsg a \<Rightarrow> s\<lparr>pend := (pend s)(a := g (pend s a))\<rparr> | _ \<Rightarrow> s)"

fun mop_step :: "mop \<Rightarrow> msys \<Rightarrow> msys option" where
  "mop_step (OInit i) s = Some (set_slot i msg_init s)"
| "mop_step (OInitSize i sz) s =
     do { (r, h) \<leftarrow> msg_init_size sz (mh s);
          case r of
            Inl _ \<Rightarrow> Some (s\<lparr>mh := h\<rparr>)
          | Inr m \<Rightarrow> Some (set_slot i m (s\<lparr>mh := h\<rparr>)) }"
| "mop_step (OInitData i bs ffn) s =
     do { (r, h) \<leftarrow> msg_init_data (Some bs) (length bs) ffn (mh s);
          case r of
            Inl _ \<Rightarrow> Some (s\<lparr>mh := h\<rparr>)
          | Inr m \<Rightarrow> Some (set_slot i m (s\<lparr>mh := h,
                given := (case ffn of None \<Rightarrow> given s | Some fh \<Rightarrow> fh # given s)\<rparr>)) }"
| "mop_step (OInitDelimiter i) s = Some (set_slot i (msg_init_delimiter (msg_fd (slots s ! i))) s)"
| "mop_step (OClose i) s =
     do { (rc, m, h) \<leftarrow> msg_close (slots s ! i) (mh s); Some (set_slot i m (s\<lparr>mh := h\<rparr>)) }"
| "mop_step (OMove d i) s =
     do { (rc, md, ms, h) \<leftarrow> msg_move (slots s ! d) (slots s ! i) (mh s);
          Some (set_slot i ms (set_slot d md (s\<lparr>mh := h\<rparr>))) }"
| "mop_step (OCopy d i) s =
     do { (rc, md, ms, h) \<leftarrow> msg_copy (slots s ! d) (slots s ! i) (mh s);
          Some (set_slot i ms (set_slot d md (s\<lparr>mh := h\<rparr>))) }"
| "mop_step (OSetFlags i fl) s = Some (set_slot i (msg_set_flags fl (slots s ! i)) s)"
| "mop_step (OResetFlags i fl) s = Some (set_slot i (msg_reset_flags fl (slots s ! i)) s)"
| "mop_step (OSetMeta i a) s =
     do { (m, h) \<leftarrow> msg_set_metadata a (slots s ! i) (mh s); Some (set_slot i m (s\<lparr>mh := h\<rparr>)) }"
| "mop_step (OResetMeta i) s =
     do { (m, h) \<leftarrow> msg_reset_metadata (slots s ! i) (mh s); Some (set_slot i m (s\<lparr>mh := h\<rparr>)) }"
| "mop_step (ONewMeta dict) s =
     (let (a, mds) = heap_alloc (metadatas (mh s)) (metadata_new dict)
      in Some (s\<lparr>owners := a # owners s, mh := (mh s)\<lparr>metadatas := mds\<rparr>\<rparr>))"
| "mop_step (ODropMeta a) s =
     do { h \<leftarrow> metadata_unref a (mh s); Some (s\<lparr>owners := remove1 a (owners s), mh := h\<rparr>) }"
| "mop_step (OAddRefs i n) s =
     do { (m, h) \<leftarrow> msg_add_refs (int n) (slots s ! i) (mh s);
          Some (upd_pend m (\<lambda>k. k + n) (set_slot i m (s\<lparr>mh := h\<rparr>))) }"
| "mop_step (OHandOver d i) s =
     Some (upd_pend (slots s ! i) (\<lambda>k. k - 1) (set_slot d (slots s ! i) s))"
| "mop_step (OGive d i) s = Some (set_slot i msg_init (set_slot d (slots s ! i) s))"
| "mop_step (ORmRefs i n) s =
     do { (_, _, h) \<leftarrow> msg_rm_refs (int n) (slots s ! i) (mh s);
          Some (upd_pend (slots s ! i) (\<lambda>k. Suc k - n) (set_slot i msg_init (s\<lparr>mh := h\<rparr>))) }"

text \<open>A sequence of operations; one whose contract is not met is not made.\<close>

fun mop_run :: "mop list \<Rightarrow> msys \<Rightarrow> msys option" where
  "mop_run [] s = Some s"
| "mop_run (p # ps) s =
     (if mop_pre p s then do { s \<leftarrow> mop_step p s; mop_run ps s } else mop_run ps s)"

definition fcnt :: "content heap \<Rightarrow> nat \<times> nat \<Rightarrow> nat" where
  "fcnt cs fh = cnt (\<lambda>co. Option.bind co ct_ffn = Some fh) cs"

definition fbal :: "mheap \<Rightarrow> nat \<times> nat \<Rightarrow> nat" where
  "fbal h fh = fcnt (contents h) fh + count_list (ffn_calls h) fh"

definition msys_ok :: "msys \<Rightarrow> bool" where
  "msys_ok s \<longleftrightarrow>
     content_ok (slots s) (pend s) (heap_load (contents (mh s))) \<and>
     metadata_ok (mrefs (slots s) (owners s)) (heap_load (metadatas (mh s))) \<and>
     fbal (mh s) = count_list (given s)"

text \<open>A step that allocates no content: what is alive afterwards was alive before, with the same
  bytes, and every deallocation function is still pending or has been called.\<close>

definition tame :: "mheap \<Rightarrow> mheap \<Rightarrow> bool" where
  "tame h h' \<longleftrightarrow> fbal h' = fbal h \<and> avail h' = avail h \<and>
     (\<forall>a c'. heap_load (contents h') a = Some c' \<longrightarrow>
        (\<exists>c. heap_load (contents h) a = Some c \<and> ct_data c' = ct_data c))"

lemma tame_refl [simp]: "tame h h"
  by (simp add: tame_def)

lemma tame_trans [trans]: "tame h h' \<Longrightarrow> tame h' h'' \<Longrightarrow> tame h h''"
  unfolding tame_def by metis

lemma fcnt_store:
  "heap_store cs a v = Some cs' \<Longrightarrow> heap_load cs a = Some c \<Longrightarrow> ct_ffn v = ct_ffn c \<Longrightarrow> fcnt cs' fh = fcnt cs fh"
  by (auto simp: heap_store_def heap_load_def fcnt_def split: if_splits intro!: cnt_update_other)

lemma fcnt_free:
  "heap_free cs a = Some cs' \<Longrightarrow> heap_load cs a = Some c \<Longrightarrow>
   fcnt cs' fh + of_bool (ct_ffn c = Some fh) = fcnt cs fh"
  using cnt_update [of a cs "\<lambda>co. Option.bind co ct_ffn = Some fh" None]
  by (auto simp: heap_free_def heap_load_def fcnt_def split: if_splits)

lemma fcnt_alloc:
  assumes "heap_alloc cs v = (a, cs')"
  shows "fcnt cs' fh = fcnt cs fh + of_bool (ct_ffn v = Some fh)"
proof -
  have "heap_fresh cs < length cs \<Longrightarrow> cs ! heap_fresh cs = None"
    using heap_fresh_free [of cs] by (simp add: heap_load_def)
  then show ?thesis
    using assms cnt_update [of a cs "\<lambda>co. Option.bind co ct_ffn = Some fh" "Some v"]
    by (auto simp: heap_alloc_def fcnt_def Let_def split: if_splits)
qed

lemma tame_release:
  assumes "content_release a h = Some h'"
  shows "tame h h'"
proof -
  from assms obtain c cs where c: "heap_load (contents h) a = Some c" "heap_free (contents h) a = Some cs"
    and h': "h' = h\<lparr>contents := cs, ffn_calls := ffn_calls h @ (case ct_ffn c of None \<Rightarrow> [] | Some fh \<Rightarrow> [fh])\<rparr>"
    by (auto simp: content_release_def bind_eq_Some_conv)
  have "fbal h' fh = fbal h fh" for fh
    using fcnt_free [OF c(2,1), of fh] by (auto simp: fbal_def h' split: option.splits)
  then show ?thesis using hp.ld_fr [OF c(2)] by (auto simp: tame_def h' split: if_splits)
qed

lemma tame_store:
  assumes "heap_load (contents h) a = Some c" "heap_store (contents h) a v = Some cs"
    and "ct_ffn v = ct_ffn c" "ct_data v = ct_data c" 
  shows "tame h (h\<lparr>contents := cs\<rparr>)"
  using fcnt_store [OF assms(2,1,3)] hp.ld_st [OF assms(2)] assms(1,4)
  by (auto simp: tame_def fbal_def split: if_splits)

lemma tame_sub: "content_sub a n h = Some (b, h') \<Longrightarrow> tame h h'"
  by (auto simp: content_sub_def counter_sub_def bind_eq_Some_conv intro: tame_store)

lemma tame_set_refs: "content_set_refs a g h = Some h' \<Longrightarrow> tame h h'"
  by (auto simp: content_set_refs_def bind_eq_Some_conv intro: tame_store)

lemma tame_metadata: "tame h (h\<lparr>metadatas := mds\<rparr>)"
  by (simp add: tame_def fbal_def fun_eq_iff)

lemma tame_unref: "metadata_unref a h = Some h' \<Longrightarrow> tame h h'"
  by (auto simp: metadata_unref_def metadata_drop_ref_def counter_sub_def bind_eq_Some_conv
           intro: tame_metadata)

lemma tame_addref: "metadata_addref a h = Some h' \<Longrightarrow> tame h h'"
  by (auto simp: metadata_addref_def bind_eq_Some_conv intro: tame_metadata)

lemma tame_close_content: "close_content m h = Some h' \<Longrightarrow> tame h h'"
  by (auto simp: close_content_def bind_eq_Some_conv split: msg_body.splits if_splits
           intro: tame_release tame_sub tame_trans [OF tame_sub tame_release])

lemma tame_close_metadata: "close_metadata m h = Some h' \<Longrightarrow> tame h h'"
  by (auto simp: close_metadata_def split: option.splits intro: tame_unref)

lemma tame_close: "msg_close m h = Some (rc, m', h') \<Longrightarrow> tame h h'"
  by (auto simp: msg_close_def bind_eq_Some_conv split: if_splits
           intro: tame_trans [OF tame_close_content tame_close_metadata])

lemma not_InrD: "r \<noteq> Inr () \<Longrightarrow> \<exists>e. r = Inl e"
  by (cases r) auto

lemma tame_move: "msg_move d m h = Some (rc, d', m', h') \<Longrightarrow> tame h h'"
  by (auto simp: msg_move_def bind_eq_Some_conv split: if_splits sum.splits
           dest!: not_InrD intro: tame_close)

lemma tame_share: "share_content n m h = Some (m', h') \<Longrightarrow> tame h h'"
  by (auto simp: share_content_def bind_eq_Some_conv split: msg_body.splits if_splits intro: tame_set_refs)

lemma tame_metadata_ref: "metadata_ref m h = Some h' \<Longrightarrow> tame h h'"
  by (auto simp: metadata_ref_def split: option.splits intro: tame_addref)

lemma tame_copy: "msg_copy d m h = Some (rc, d', m', h') \<Longrightarrow> tame h h'"
  by (auto simp: msg_copy_def bind_eq_Some_conv split: if_splits sum.splits dest!: not_InrD
           intro: tame_close tame_trans [OF tame_close tame_trans [OF tame_share tame_metadata_ref]])

lemma tame_rm_refs: "msg_rm_refs n m h = Some (b, m', h') \<Longrightarrow> tame h h'"
  by (auto simp: msg_rm_refs_def bind_eq_Some_conv split: if_splits msg_body.splits
           intro: tame_close tame_sub tame_trans [OF tame_sub tame_release])

lemmas tame_intros = tame_close tame_move tame_copy tame_rm_refs tame_share tame_unref tame_addref
  tame_close_metadata

section \<open>Every operation keeps the books\<close>

definition books :: "msg list \<Rightarrow> (addr \<Rightarrow> nat) \<Rightarrow> addr list \<Rightarrow> mheap \<Rightarrow> bool" where
  "books ms p os h \<longleftrightarrow>
     content_ok ms p (heap_load (contents h)) \<and> metadata_ok (mrefs ms os) (heap_load (metadatas h))"

text \<open>A message without shared objects: the kind that may replace a closed one.\<close>

definition plain_msg :: "msg \<Rightarrow> bool" where
  "plain_msg m \<longleftrightarrow> (\<forall>a. msg_body m \<noteq> Lmsg a) \<and> (msg_check m \<longrightarrow> msg_metadata m = None)"

lemma plain_msgs [simp]:
  "plain_msg msg_init" "plain_msg (msg_init_delimiter fd)" "plain_msg (m\<lparr>msg_body := Invalid\<rparr>)"
  "\<not> msg_check m \<Longrightarrow> plain_msg m"
  by (auto simp: plain_msg_def msg_init_def msg_init_delimiter_def msg_check_def)

lemma books_plain:
  assumes "books ms p os h" "i < length ms" "plain_msg (ms ! i)" "plain_msg m"
  shows "books (ms[i := m]) p os h"
  using assms refs_update_other [OF assms(2), of _ m] mrefs_update [OF assms(2), of m os]
  by (auto simp: books_def plain_msg_def content_ok_def intro: metadata_ok_cong)

lemma books_same:
  assumes "books ms p os h" "i < length ms" "msg_body m = msg_body (ms ! i)"
    "is_shared m = is_shared (ms ! i)" "msg_metadata m = msg_metadata (ms ! i)"
  shows "books (ms[i := m]) p os h"
  using assms lrefs_update [OF assms(2), of m] srefs_update [OF assms(2), of m]
    mrefs_update [OF assms(2), of m os]
  by (auto simp: books_def content_ok_def msg_check_def intro: metadata_ok_cong)

lemma close_metadata_ok:
  assumes ok: "metadata_ok (mrefs ms os) (heap_load (metadatas h))" and i: "i < length ms"
    and "msg_check (ms ! i)" "msg_check m \<longrightarrow> msg_metadata m = None"
  shows "\<exists>h'. close_metadata (ms ! i) h = Some h' \<and> contents h' = contents h \<and>
              metadata_ok (mrefs (ms[i := m]) os) (heap_load (metadatas h'))"
proof (cases "msg_metadata (ms ! i)")
  case None
  then show ?thesis using ok mrefs_update [OF i, of m os] assms(4)
    by (auto simp: close_metadata_def intro: metadata_ok_cong)
next
  case (Some a)
  have "mrefs ms os a = Suc (mrefs (ms[i := m]) os a)"
    "b \<noteq> a \<Longrightarrow> mrefs (ms[i := m]) os b = mrefs ms os b" for b
    using mrefs_update [OF i, of m os a] mrefs_update [OF i, of m os b] Some assms(3,4) by auto
  from metadata_unref_ok [OF ok this] Some show ?thesis by (simp add: close_metadata_def)
qed

lemma msg_close_invalid: "\<not> msg_check m \<Longrightarrow> msg_close m h = Some (Inl EFAULT, m, h)"
  by (simp add: msg_close_def)

lemma msg_close_ok:
  assumes "books ms p os h" "i < length ms" "msg_check (ms ! i)" "plain_msg m"
  shows "\<exists>h'. msg_close (ms ! i) h = Some (Inr (), (ms ! i)\<lparr>msg_body := Invalid\<rparr>, h') \<and>
              books (ms[i := m]) p os h'"
proof -
  from assms close_content_ok [of ms p h i m] obtain h1 where h1:
    "close_content (ms ! i) h = Some h1" "metadatas h1 = metadatas h"
    "content_ok (ms[i := m]) p (heap_load (contents h1))"
    by (auto simp: books_def plain_msg_def)
  from assms h1(2) close_metadata_ok [of ms os h1 i m] obtain h2 where
    "close_metadata (ms ! i) h1 = Some h2" "contents h2 = contents h1"
    "metadata_ok (mrefs (ms[i := m]) os) (heap_load (metadatas h2))"
    by (auto simp: books_def plain_msg_def)
  with h1 assms(3) show ?thesis by (auto simp: msg_close_def books_def)
qed

lemma books_perm:
  assumes "books ms p os h" "mset ms' = mset ms"
  shows "books ms' p os h"
proof -
  have "cnt P ms' = cnt P ms" for P using assms(2) by (metis cnt_def mset_filter size_mset)
  then show ?thesis using assms(1) by (simp add: books_def content_ok_def lrefs_def srefs_def mrefs_def [abs_def])
qed

lemma msg_move_ok:
  assumes ok: "books ms p os h" and d: "d < length ms" "i < length ms" "d \<noteq> i"
  shows "\<exists>rc md m' h'. msg_move (ms ! d) (ms ! i) h = Some (rc, md, m', h') \<and> books (ms[d := md, i := m']) p os h'"
proof (cases "msg_check (ms ! i) \<and> msg_check (ms ! d)")
  case False
  then show ?thesis using ok d by (auto simp: msg_move_def msg_close_invalid)
next
  case True
  from msg_close_ok [OF ok d(1) _ plain_msgs(1)] True obtain h' where h':
    "msg_close (ms ! d) h = Some (Inr (), (ms ! d)\<lparr>msg_body := Invalid\<rparr>, h')" "books (ms[d := msg_init]) p os h'"
    by blast
  have "mset (ms[d := ms ! i, i := msg_init]) = mset (ms[d := msg_init])"
    using mset_swap [of i "ms[d := msg_init]" d] d by simp
  then show ?thesis using True h' books_perm [OF h'(2)] by (auto simp: msg_move_def)
qed

text \<open>Sharing a content \<open>n\<close> more times: afterwards all its references are counted.\<close>

lemma is_shared_set [simp]: "is_shared (m\<lparr>msg_flags := msg_flags m OR flag_shared\<rparr>)"
  by (simp add: is_shared_def flag_shared_def bit.conj_disj_distrib2)

lemma share_content_ok:
  assumes ok: "content_ok ms p (heap_load (contents h))" and i: "i < length ms"
    and room: "\<And>a. msg_body (ms ! i) = Lmsg a \<Longrightarrow> lrefs ms a + srefs ms a + p a + n < 2 ^ 32"
    and p': "\<And>a. p' a = p a + (if msg_body (ms ! i) = Lmsg a then n else 0)"
  shows "\<exists>m h'. share_content (of_nat n) (ms ! i) h = Some (m, h') \<and> metadatas h' = metadatas h \<and>
     msg_body m = msg_body (ms ! i) \<and> msg_metadata m = msg_metadata (ms ! i) \<and>
     (\<forall>a. msg_body m = Lmsg a \<longrightarrow> is_shared m) \<and>
     content_ok (ms[i := m]) p' (heap_load (contents h'))"
proof (cases "\<exists>a. msg_body (ms ! i) = Lmsg a")
  case False
  then have "share_content (of_nat n) (ms ! i) h = Some (ms ! i, h)" "p' = p"
    using p' by (auto simp: share_content_def fun_eq_iff split: msg_body.split)
  with ok False show ?thesis by simp
next
  case True
  then obtain a where a: "msg_body (ms ! i) = Lmsg a" by blast
  obtain c where c: "heap_load (contents h) a = Some c" using content_ok_live [OF ok i a] by blast
  have st: "content_st (lrefs ms a) (srefs ms a + p a) (Some c)" using ok c by (metis content_ok_def)
  define m where "m = (if is_shared (ms ! i) then ms ! i else (ms ! i)\<lparr>msg_flags := msg_flags (ms ! i) OR flag_shared\<rparr>)"
  define k where "k = (if is_shared (ms ! i) then ct_refcnt c + of_nat n else of_nat n + 1)"
  have m: "msg_body m = Lmsg a" "is_shared m" "msg_metadata m = msg_metadata (ms ! i)" using a by (simp_all add: m_def)
  obtain h' where h': "share_content (of_nat n) (ms ! i) h = Some (m, h')" "metadatas h' = metadatas h"
    "heap_load (contents h') = (heap_load (contents h))(a \<mapsto> c\<lparr>ct_refcnt := k\<rparr>)"
    using content_set_refs_load [OF c, of "\<lambda>k. k + of_nat n"] content_set_refs_load [OF c, of "\<lambda>_. of_nat n + 1"]
    by (cases "is_shared (ms ! i)") (auto simp: share_content_def a m_def k_def counter_add_def)
  note upd = lrefs_update [OF i, of m a] srefs_update [OF i, of m a] refs_pos [OF i a]
  have "unat k = srefs ms a + lrefs ms a + p a + n"
    using unat_inc [of "ct_refcnt c" "srefs ms a + p a" n] unat_inc [of "1 :: u32" 1 n] st upd room [OF a] p' [of a] a
    by (auto simp: k_def add.commute)
  then have "content_st (lrefs (ms[i := m]) a) (srefs (ms[i := m]) a + p' a) (Some (c\<lparr>ct_refcnt := k\<rparr>))"
    using st upd a m p' [of a] by (cases "is_shared (ms ! i)") (auto split: if_splits)
  then have "content_ok (ms[i := m]) p' (heap_load (contents h'))"
    by (intro content_ok_at [OF ok, of a]) (use refs_update_other [OF i] a m(1) p' h'(3) in auto)
  with h' m a show ?thesis by auto
qed

text \<open>A bitwise copy of a message whose content is counted turns a pending reference into a
  carried one.\<close>

lemma content_ok_handover:
  assumes ok: "content_ok ms p cs" and d: "d < length ms" "\<forall>a. msg_body (ms ! d) \<noteq> Lmsg a"
    and m: "\<And>a. msg_body m = Lmsg a \<Longrightarrow> is_shared m \<and> p a = Suc (p' a)"
    and p': "\<And>a. msg_body m \<noteq> Lmsg a \<Longrightarrow> p' a = p a"
  shows "content_ok (ms[d := m]) p' cs"
proof -
  have "lrefs (ms[d := m]) a = lrefs ms a" "srefs (ms[d := m]) a + p' a = srefs ms a + p a" for a
    using lrefs_update [OF d(1), of m a] srefs_update [OF d(1), of m a] d(2) m [of a] p' [of a] by auto
  then show ?thesis using ok by (simp add: content_ok_def)
qed

lemma metadata_ref_ok:
  assumes ok: "metadata_ok (mrefs ms os) (heap_load (metadatas h))" and d: "d < length ms" "\<not> msg_check (ms ! d)"
    and i: "i < length ms" "msg_check (ms ! i)" "msg_metadata m = msg_metadata (ms ! i)" "msg_check m"
    and room: "\<And>a. msg_metadata m = Some a \<Longrightarrow> Suc (mrefs ms os a) < 2 ^ 32"
  shows "\<exists>h'. metadata_ref m h = Some h' \<and> contents h' = contents h \<and>
              metadata_ok (mrefs (ms[d := m]) os) (heap_load (metadatas h'))"
proof (cases "msg_metadata m")
  case None
  then show ?thesis using ok mrefs_update [OF d(1), of m os] d(2)
    by (auto simp: metadata_ref_def intro: metadata_ok_cong)
next
  case (Some a)
  have pos: "0 < mrefs ms os a" using i Some nth_mem [OF i(1)] by (auto simp: mrefs_def cnt_pos_iff)
  have upd: "mrefs (ms[d := m]) os a = Suc (mrefs ms os a)"
    "b \<noteq> a \<Longrightarrow> mrefs (ms[d := m]) os b = mrefs ms os b" for b
    using mrefs_update [OF d(1), of m os a] mrefs_update [OF d(1), of m os b] Some d(2) i(4) by auto
  from metadata_addref_ok [OF ok pos room [OF Some] upd] Some show ?thesis by (simp add: metadata_ref_def)
qed

lemma metadata_ok_same:
  assumes "metadata_ok (mrefs ms os) mds" "i < length ms" "msg_metadata m = msg_metadata (ms ! i)"
    "msg_check m = msg_check (ms ! i)"
  shows "metadata_ok (mrefs (ms[i := m]) os) mds"
  using assms mrefs_update [OF assms(2), of m os] by (auto intro: metadata_ok_cong)

lemma msg_copy_ok:
  assumes ok: "books ms p os h" and d: "d < length ms" "i < length ms" "d \<noteq> i"
    and room: "\<And>a. msg_body (ms ! i) = Lmsg a \<Longrightarrow> lrefs ms a + srefs ms a + p a + 1 < 2 ^ 32"
    and mroom: "\<And>a. msg_metadata (ms ! i) = Some a \<Longrightarrow> Suc (mrefs ms os a) < 2 ^ 32"
  shows "\<exists>rc md m' h'. msg_copy (ms ! d) (ms ! i) h = Some (rc, md, m', h') \<and> books (ms[d := md, i := m']) p os h'"
proof (cases "msg_check (ms ! i) \<and> msg_check (ms ! d)")
  case False
  then show ?thesis using ok d by (auto simp: msg_copy_def msg_close_invalid)
next
  case True
  define ms1 where "ms1 = ms[d := (ms ! d)\<lparr>msg_body := Invalid\<rparr>]"
  from msg_close_ok [OF ok d(1) _ plain_msgs(3)] True obtain h1 where h1:
    "msg_close (ms ! d) h = Some (Inr (), (ms ! d)\<lparr>msg_body := Invalid\<rparr>, h1)" "books ms1 p os h1"
    unfolding ms1_def by blast
  have ms1: "ms1 ! i = ms ! i" "length ms1 = length ms" "\<not> msg_check (ms1 ! d)" "\<forall>a. msg_body (ms1 ! d) \<noteq> Lmsg a"
    "lrefs ms1 a + srefs ms1 a \<le> lrefs ms a + srefs ms a" "mrefs ms1 os a \<le> mrefs ms os a" for a
    using d lrefs_update [OF d(1), of "(ms ! d)\<lparr>msg_body := Invalid\<rparr>" a]
      srefs_update [OF d(1), of "(ms ! d)\<lparr>msg_body := Invalid\<rparr>" a]
      mrefs_update [OF d(1), of "(ms ! d)\<lparr>msg_body := Invalid\<rparr>" os a]
    by (auto simp: ms1_def msg_check_def)
  have room1: "lrefs ms1 a + srefs ms1 a + p a + 1 < 2 ^ 32" if "msg_body (ms1 ! i) = Lmsg a" for a
    using room [of a] that ms1(1) ms1(5) [of a] by simp
  let ?p = "\<lambda>a. p a + (if msg_body (ms1 ! i) = Lmsg a then 1 else 0)"
  from share_content_ok [OF h1(2) [unfolded books_def, THEN conjunct1], of i 1 ?p] d(2) ms1(2) room1
  obtain m h2 where h2: "share_content 1 (ms ! i) h1 = Some (m, h2)" "metadatas h2 = metadatas h1"
    "msg_body m = msg_body (ms ! i)" "msg_metadata m = msg_metadata (ms ! i)"
    "\<forall>a. msg_body m = Lmsg a \<longrightarrow> is_shared m" "content_ok (ms1[i := m]) ?p (heap_load (contents h2))"
    unfolding ms1(1) by (auto simp: ms1(1))
  have chk: "msg_check m" using True h2(3) by (simp add: msg_check_def)
  have "metadata_ok (mrefs (ms1[i := m]) os) (heap_load (metadatas h2))"
    using metadata_ok_same [of ms1 os _ i m] h1(2) h2(2,4) chk True d(2) ms1(1,2) by (auto simp: books_def)
  moreover have "Suc (mrefs (ms1[i := m]) os a) < 2 ^ 32" if "msg_metadata m = Some a" for a
    using mrefs_update [of i ms1 m os a] mroom [of a] ms1(1,2) ms1(6) [of a] d(2) that h2(4) True chk by simp
  ultimately obtain h3 where h3: "metadata_ref m h2 = Some h3" "contents h3 = contents h2"
    "metadata_ok (mrefs (ms1[i := m, d := m]) os) (heap_load (metadatas h3))"
    using metadata_ref_ok [of "ms1[i := m]" os h2 d i m] d ms1(1-3) chk by auto
  have "content_ok (ms1[i := m, d := m]) p (heap_load (contents h3))"
    using content_ok_handover [OF h2(6), of d m p] d ms1(1,2,4) h2(3,5) h3(2) by auto
  with h3(3) have "books (ms1[i := m, d := m]) p os h3" by (simp add: books_def)
  moreover have "ms1[i := m, d := m] = ms[d := m, i := m]"
    using d(3) by (simp add: ms1_def list_update_swap)
  ultimately show ?thesis using True h1(1) h2(1) h3(1) by (auto simp: msg_copy_def)
qed

lemma books_alloc:
  assumes "books ms p os h" "i < length ms" "plain_msg (ms ! i)"
    and al: "heap_alloc (contents h) c = (a, cs)"
    and m: "msg_body m = Lmsg a" "\<not> is_shared m" "msg_metadata m = None"
  shows "books (ms[i := m]) p os (h\<lparr>contents := cs\<rparr>)"
proof -
  have "content_st (lrefs ms a) (srefs ms a + p a) None"
    using assms(1) hp.al_fresh [OF al] by (metis books_def content_ok_def)
  moreover have "lrefs (ms[i := m]) a = Suc (lrefs ms a)" "srefs (ms[i := m]) a = srefs ms a"
    using lrefs_update [OF assms(2), of m a] srefs_update [OF assms(2), of m a] assms(3) m
    by (auto simp: plain_msg_def)
  ultimately have "content_st (lrefs (ms[i := m]) a) (srefs (ms[i := m]) a + p a) (heap_load cs a)"
    by (simp add: hp.ld_al [OF al])
  moreover have "content_ok ms p (heap_load (contents h))" using assms(1) by (simp add: books_def)
  ultimately have "content_ok (ms[i := m]) p (heap_load cs)"
    using content_ok_at [of ms p "heap_load (contents h)" a "ms[i := m]" p "heap_load cs"]
      refs_update_other [OF assms(2), of _ m] m(1) assms(3) hp.ld_al [OF al]
    by (auto simp: plain_msg_def)
  moreover have "metadata_ok (mrefs (ms[i := m]) os) (heap_load (metadatas h))"
    using assms(1-3) mrefs_update [OF assms(2), of m os] m(3)
    by (auto simp: books_def plain_msg_def intro: metadata_ok_cong)
  ultimately show ?thesis by (simp add: books_def)
qed

lemma rm_refs_ok:
  assumes ok: "books ms p os h" and i: "i < length ms" "msg_metadata (ms ! i) = None" and n: "0 < n"
    and le: "\<And>a. msg_body (ms ! i) = Lmsg a \<Longrightarrow> n \<le> Suc (p a)"
    and p': "\<And>a. p' a = (if msg_body (ms ! i) = Lmsg a then Suc (p a) - n else p a)"
  shows "\<exists>b m h'. msg_rm_refs (int n) (ms ! i) h = Some (b, m, h') \<and> books (ms[i := msg_init]) p' os h'"
proof (cases "\<exists>a. msg_body (ms ! i) = Lmsg a \<and> is_shared (ms ! i)")
  case True
  then obtain a where a: "msg_body (ms ! i) = Lmsg a" "is_shared (ms ! i)" by blast
  have cok: "content_ok ms p (heap_load (contents h))" using ok by (simp add: books_def)
  obtain c where c: "heap_load (contents h) a = Some c" using content_ok_live [OF cok i(1) a(1)] by blast
  have st: "content_st (lrefs ms a) (srefs ms a + p a) (Some c)" using cok c by (metis content_ok_def)
  note upd = lrefs_update [OF i(1), of msg_init a] srefs_update [OF i(1), of msg_init a] refs_pos [OF i(1) a(1)]
  define k where "k = srefs (ms[i := msg_init]) a + p' a"
  define co where "co = (if k = 0 then None else Some (c\<lparr>ct_refcnt := ct_refcnt c - of_nat n\<rparr>))"
  have k: "unat (ct_refcnt c) = k + n" "lrefs (ms[i := msg_init]) a = 0"
    using upd st a le [OF a(1)] p' [of a] by (auto simp: k_def msg_init_def)
  obtain h' where h': "content_drop a (of_nat n) h = Some h'" "metadatas h' = metadatas h"
    "heap_load (contents h') = (heap_load (contents h))(a := co)"
    using content_drop_load [OF c k(1), folded co_def] by blast
  have "content_st (lrefs (ms[i := msg_init]) a) k co" using k unat_sub [OF k(1)] by (simp add: co_def)
  then have "content_ok (ms[i := msg_init]) p' (heap_load (contents h'))"
    by (intro content_ok_at [OF cok, of a])
       (use refs_update_other [OF i(1)] a p' h'(3) in \<open>auto simp: k_def msg_init_def\<close>)
  moreover have "metadata_ok (mrefs (ms[i := msg_init]) os) (heap_load (metadatas h'))"
    using ok h'(2) i(2) mrefs_update [OF i(1), of msg_init os]
    by (auto simp: books_def msg_init_def intro: metadata_ok_cong)
  ultimately have "books (ms[i := msg_init]) p' os h'" by (simp add: books_def)
  moreover have "\<exists>b m. msg_rm_refs (int n) (ms ! i) h = Some (b, m, h')"
  proof -
    from h'(1) obtain live h1 where "content_sub a (of_nat n) h = Some (live, h1)"
      "(if \<not> live then content_release a h1 else Some h1) = Some h'"
      by (auto simp: content_drop_def bind_eq_Some_conv)
    with a i(2) n show ?thesis by (cases live) (auto simp: msg_rm_refs_def)
  qed
  ultimately show ?thesis by blast
next
  case False
  have "p' = p"
  proof (cases "msg_body (ms ! i)")
    case (Lmsg a)
    with False ok refs_pos(2) [OF i(1)] have "p a = 0"
      by (cases "heap_load (contents h) a") (auto simp: books_def content_ok_def dest!: spec [of _ a])
    then show ?thesis using p' le [OF Lmsg] n Lmsg by (auto simp: fun_eq_iff)
  qed (use p' in auto)
  moreover have "\<exists>rc m h'. msg_close (ms ! i) h = Some (rc, m, h') \<and> books (ms[i := msg_init]) p os h'"
  proof (cases "msg_check (ms ! i)")
    case True then show ?thesis using msg_close_ok [OF ok i(1) _ plain_msgs(1)] by blast
  next
    case False then show ?thesis using books_plain [OF ok i(1)] by (simp add: msg_close_invalid)
  qed
  ultimately show ?thesis using False i(2) n by (auto simp: msg_rm_refs_def split: msg_body.split)
qed

lemma init_size_total: "size_fits sz \<Longrightarrow> \<exists>r. msg_init_size sz h = Some r"
  by (auto simp: msg_init_size_def split: prod.split)

lemma init_size_ok:
  assumes "books ms p os h" "i < length ms" "plain_msg (ms ! i)" "msg_init_size sz h = Some (r, h')"
  shows "case r of Inl _ \<Rightarrow> books ms p os h' | Inr m \<Rightarrow> books (ms[i := m]) p os h'"
    and "fbal h' = fbal h"
  using assms fcnt_alloc [of "contents h"] books_alloc [OF assms(1-3)] books_plain [OF assms(1-3)]
  by (auto simp: msg_init_size_def plain_msg_def is_shared_def fbal_def split: if_splits prod.splits)

lemma init_data_ok:
  assumes "books ms p os h" "i < length ms" "plain_msg (ms ! i)"
  shows "\<exists>r h'. msg_init_data (Some bs) (length bs) ffn h = Some (r, h') \<and>
     (case r of Inl _ \<Rightarrow> h' = h
      | Inr m \<Rightarrow> books (ms[i := m]) p os h' \<and>
          (\<forall>fh. fbal h' fh = fbal h fh + of_bool (ffn = Some fh)))"
proof (cases ffn)
  case None
  then show ?thesis using books_plain [OF assms]
    by (auto simp: msg_init_data_def plain_msg_def)
next
  case (Some fh)
  obtain a cs where al: "heap_alloc (contents h) \<lparr>ct_data = bs, ct_ffn = Some fh, ct_refcnt = 0\<rparr> = (a, cs)"
    by force
  from books_alloc [OF assms al] fcnt_alloc [OF al] show ?thesis
    by (auto simp: msg_init_data_def Some al is_shared_def fbal_def)
qed

lemma is_shared_flags [simp]:
  assumes "fl AND flag_shared = 0"
  shows "is_shared (msg_set_flags fl m) = is_shared m" "is_shared (msg_reset_flags fl m) = is_shared m"
proof -
  have "flag_shared AND NOT fl = flag_shared"
  proof (rule bit_eqI)
    fix n
    have "\<not> bit (fl AND flag_shared) n" by (simp add: assms)
    then show "bit (flag_shared AND NOT fl) n = bit flag_shared n"
      by (auto simp: bit_simps dest: bit_imp_le_length)
  qed
  then have "(msg_flags m AND NOT fl) AND flag_shared = msg_flags m AND flag_shared"
    by (metis and.assoc and.commute)
  with assms show "is_shared (msg_set_flags fl m) = is_shared m" "is_shared (msg_reset_flags fl m) = is_shared m"
    by (simp_all add: is_shared_def msg_set_flags_def msg_reset_flags_def bit.conj_disj_distrib2)
qed

lemma flags_keep [simp]:
  "msg_body (msg_set_flags fl m) = msg_body m" "msg_metadata (msg_set_flags fl m) = msg_metadata m"
  "msg_body (msg_reset_flags fl m) = msg_body m" "msg_metadata (msg_reset_flags fl m) = msg_metadata m"
  by (simp_all add: msg_set_flags_def msg_reset_flags_def)

lemma mrefs_owner: "a \<in> set os \<Longrightarrow> mrefs ms os b = mrefs ms (remove1 a os) b + of_bool (a = b)"
  by (induction os) (auto simp: mrefs_def)

text \<open>The two operations that only move references between the books.\<close>

lemma handover_ok:
  assumes ok: "books ms p os h" and d: "d < length ms" "i < length ms" "\<not> msg_check (ms ! d)"
    and i: "msg_metadata (ms ! i) = None" "\<And>a. msg_body (ms ! i) = Lmsg a \<Longrightarrow> 0 < p a"
    and p': "\<And>a. p' a = (if msg_body (ms ! i) = Lmsg a then p a - 1 else p a)"
  shows "books (ms[d := ms ! i]) p' os h"
proof -
  have *: "is_shared (ms ! i) \<and> p a = Suc (p' a)" if "msg_body (ms ! i) = Lmsg a" for a
  proof -
    have "content_st (lrefs ms a) (srefs ms a + p a) (heap_load (contents h) a)"
      using ok by (simp add: books_def content_ok_def)
    with i(2) [OF that] refs_pos(2) [OF d(2) that] p' [of a] that show ?thesis
      by (cases "heap_load (contents h) a") auto
  qed
  have "content_ok (ms[d := ms ! i]) p' (heap_load (contents h))"
    by (rule content_ok_handover [OF _ d(1) _ *]) (use ok d(3) p' in \<open>simp_all add: books_def msg_check_def\<close>)
  moreover have "metadata_ok (mrefs (ms[d := ms ! i]) os) (heap_load (metadatas h))"
    using ok d(3) i(1) mrefs_update [OF d(1), of "ms ! i" os] by (auto simp: books_def intro: metadata_ok_cong)
  ultimately show ?thesis by (simp add: books_def)
qed

lemma give_ok:
  assumes ok: "books ms p os h" and d: "d < length ms" "i < length ms" "d \<noteq> i" "\<not> msg_check (ms ! d)"
  shows "books (ms[d := ms ! i, i := msg_init]) p os h"
proof -
  have "books (ms[d := msg_init]) p os h" using books_plain [OF ok d(1)] d(4) by simp
  moreover have "mset (ms[d := ms ! i, i := msg_init]) = mset (ms[d := msg_init])"
    using mset_swap [of i "ms[d := msg_init]" d] d by simp
  ultimately show ?thesis by (rule books_perm)
qed

lemma add_refs_ok:
  assumes ok: "books ms p os h" and i: "i < length ms" "msg_metadata (ms ! i) = None"
    and room: "\<And>a. msg_body (ms ! i) = Lmsg a \<Longrightarrow> lrefs ms a + srefs ms a + p a + n < 2 ^ 32"
    and p': "\<And>a. p' a = p a + (if msg_body (ms ! i) = Lmsg a then n else 0)"
  shows "\<exists>m h'. msg_add_refs (int n) (ms ! i) h = Some (m, h') \<and> msg_body m = msg_body (ms ! i) \<and>
           books (ms[i := m]) p' os h' \<and> fbal h' = fbal h"
proof (cases "n = 0")
  case True
  then have "p' = p" using p' by (auto simp: fun_eq_iff)
  then show ?thesis using True ok i(2) by (simp add: msg_add_refs_def)
next
  case False
  have cok: "content_ok ms p (heap_load (contents h))" using ok by (simp add: books_def)
  from share_content_ok [OF cok i(1) room p'] obtain m h' where h':
    "share_content (of_nat n) (ms ! i) h = Some (m, h')" "metadatas h' = metadatas h"
    "msg_body m = msg_body (ms ! i)" "msg_metadata m = msg_metadata (ms ! i)"
    "content_ok (ms[i := m]) p' (heap_load (contents h'))"
    by blast
  have "metadata_ok (mrefs (ms[i := m]) os) (heap_load (metadatas h'))"
    using metadata_ok_same [of ms os _ i m] ok i(1) h'(2-4) by (auto simp: books_def msg_check_def)
  then show ?thesis using False h' i(2) tame_share [OF h'(1)]
    by (auto simp: msg_add_refs_def books_def tame_def)
qed

lemma set_metadata_ok:
  assumes ok: "books ms p os h" and i: "i < length ms" "msg_check (ms ! i)" "msg_metadata (ms ! i) = None"
    and a: "a \<in> set os" "Suc (mrefs ms os a) < 2 ^ 32"
  shows "\<exists>m h'. msg_set_metadata a (ms ! i) h = Some (m, h') \<and> books (ms[i := m]) p os h' \<and> fbal h' = fbal h"
proof -
  let ?m = "(ms ! i)\<lparr>msg_metadata := Some a\<rparr>"
  have pos: "0 < mrefs ms os a" using a(1) by (metis count_list_0_iff mrefs_def neq0_conv trans_less_add2)
  have upd: "mrefs (ms[i := ?m]) os a = Suc (mrefs ms os a)"
    "b \<noteq> a \<Longrightarrow> mrefs (ms[i := ?m]) os b = mrefs ms os b" for b
    using mrefs_update [OF i(1), of ?m os a] mrefs_update [OF i(1), of ?m os b] i(2,3)
    by (auto simp: msg_check_def)
  have "metadata_ok (mrefs ms os) (heap_load (metadatas h))" using ok by (simp add: books_def)
  from metadata_addref_ok [OF this pos a(2) upd] obtain h' where h': "metadata_addref a h = Some h'"
    "contents h' = contents h" "metadata_ok (mrefs (ms[i := ?m]) os) (heap_load (metadatas h'))"
    by blast
  have "lrefs (ms[i := ?m]) b = lrefs ms b" "srefs (ms[i := ?m]) b = srefs ms b" for b
    using lrefs_update [OF i(1), of ?m b] srefs_update [OF i(1), of ?m b] by (auto simp: is_shared_def)
  then have "content_ok (ms[i := ?m]) p (heap_load (contents h'))"
    using ok h'(2) by (simp add: books_def content_ok_def)
  then show ?thesis using h' i(3) tame_addref [OF h'(1)]
    by (simp add: msg_set_metadata_def books_def tame_def)
qed

lemma reset_metadata_ok:
  assumes ok: "books ms p os h" and i: "i < length ms" "msg_check (ms ! i)"
  shows "\<exists>m h'. msg_reset_metadata (ms ! i) h = Some (m, h') \<and> books (ms[i := m]) p os h' \<and> fbal h' = fbal h"
proof -
  let ?m = "(ms ! i)\<lparr>msg_metadata := None\<rparr>"
  have "metadata_ok (mrefs ms os) (heap_load (metadatas h))" using ok by (simp add: books_def)
  from close_metadata_ok [OF this i, of ?m] obtain h' where h': "close_metadata (ms ! i) h = Some h'"
    "contents h' = contents h" "metadata_ok (mrefs (ms[i := ?m]) os) (heap_load (metadatas h'))"
    by auto
  have "lrefs (ms[i := ?m]) b = lrefs ms b" "srefs (ms[i := ?m]) b = srefs ms b" for b
    using lrefs_update [OF i(1), of ?m b] srefs_update [OF i(1), of ?m b] by (auto simp: is_shared_def)
  then have "content_ok (ms[i := ?m]) p (heap_load (contents h'))"
    using ok h'(2) by (simp add: books_def content_ok_def)
  then show ?thesis using h' tame_close_metadata [OF h'(1)]
    by (simp add: msg_reset_metadata_def books_def tame_def)
qed

lemma new_metadata_ok:
  assumes ok: "books ms p os h" and al: "heap_alloc (metadatas h) (metadata_new dict) = (a, mds)"
  shows "books ms p (a # os) (h\<lparr>metadatas := mds\<rparr>)"
proof -
  have mok: "metadata_ok (mrefs ms os) (heap_load (metadatas h))" using ok by (simp add: books_def)
  have z: "mrefs ms os a = 0"
    using mok hp.al_fresh [OF al] by (metis metadata_ok_def metadata_st.simps(1))
  have "metadata_ok (mrefs ms (a # os)) (heap_load mds)"
    by (rule metadata_ok_at [OF mok hp.ld_al [OF al]])
       (use z in \<open>auto simp: mrefs_def metadata_new_def\<close>)
  then show ?thesis using ok by (simp add: books_def)
qed

lemma drop_metadata_ok:
  assumes ok: "books ms p os h" and a: "a \<in> set os"
  shows "\<exists>h'. metadata_unref a h = Some h' \<and> books ms p (remove1 a os) h' \<and> fbal h' = fbal h"
proof -
  have mok: "metadata_ok (mrefs ms os) (heap_load (metadatas h))" using ok by (simp add: books_def)
  from metadata_unref_ok [OF mok, of a "mrefs ms (remove1 a os)"] mrefs_owner [OF a]
  obtain h' where "metadata_unref a h = Some h'" "contents h' = contents h"
    "metadata_ok (mrefs ms (remove1 a os)) (heap_load (metadatas h'))" by auto
  then show ?thesis using ok tame_unref [of a h h'] by (simp add: books_def tame_def)
qed

lemma msys_ok_books: "msys_ok s \<longleftrightarrow> books (slots s) (pend s) (owners s) (mh s) \<and> fbal (mh s) = count_list (given s)"
  by (simp add: msys_ok_def books_def)

lemma mop_step_ok:
  assumes "msys_ok s" "mop_pre op s"
  shows "\<exists>s'. mop_step op s = Some s' \<and> msys_ok s'"
proof -
  have b: "books (slots s) (pend s) (owners s) (mh s)" and f: "fbal (mh s) = count_list (given s)"
    using assms(1) by (simp_all add: msys_ok_books)
  note defs = msys_ok_books set_slot_def upd_pend_def
  show ?thesis
  proof (cases op)
    case (OInit i)
    then show ?thesis using assms(2) books_plain [OF b] f by (simp add: defs)
  next
    case (OInitSize i sz)
    with assms(2) init_size_total [of sz "mh s"] obtain r h where r: "msg_init_size sz (mh s) = Some (r, h)" by auto
    with OInitSize init_size_ok [OF b _ _ r, of i] assms(2) f show ?thesis
      by (cases r) (auto simp: defs)
  next
    case (OInitData i bs ffn)
    with assms(2) init_data_ok [OF b, of i bs ffn] obtain r h where
      "msg_init_data (Some bs) (length bs) ffn (mh s) = Some (r, h)"
      "case r of Inl _ \<Rightarrow> h = mh s | Inr m \<Rightarrow> books ((slots s)[i := m]) (pend s) (owners s) h \<and>
          (\<forall>fh. fbal h fh = fbal (mh s) fh + of_bool (ffn = Some fh))" by auto
    with OInitData b f show ?thesis by (cases r; cases ffn) (auto simp: defs fun_eq_iff)
  next
    case (OInitDelimiter i)
    then show ?thesis using assms(2) books_plain [OF b] f by (simp add: defs)
  next
    case (OClose i)
    then have i: "i < length (slots s)" using assms(2) by simp
    show ?thesis
    proof (cases "msg_check (slots s ! i)")
      case True
      from msg_close_ok [OF b i True plain_msgs(3) [of "slots s ! i"]] obtain h where
        h: "msg_close (slots s ! i) (mh s) = Some (Inr (), (slots s ! i)\<lparr>msg_body := Invalid\<rparr>, h)"
        "books ((slots s)[i := (slots s ! i)\<lparr>msg_body := Invalid\<rparr>]) (pend s) (owners s) h" by blast
      with f tame_close [OF h(1)] show ?thesis by (simp add: OClose defs tame_def)
    qed (use OClose assms(1) in \<open>simp add: msg_close_invalid defs\<close>)
  next
    case (OMove d i)
    with assms(2) msg_move_ok [OF b, of d i] obtain rc md m h where
      h: "msg_move (slots s ! d) (slots s ! i) (mh s) = Some (rc, md, m, h)"
      "books ((slots s)[d := md, i := m]) (pend s) (owners s) h" by auto
    with OMove f tame_move [OF h(1)] show ?thesis by (simp add: defs tame_def)
  next
    case (OCopy d i)
    with assms(2) have pre: "d < length (slots s)" "i < length (slots s)" "d \<noteq> i"
      "room s (slots s ! i) 1" "\<And>a. msg_metadata (slots s ! i) = Some a \<Longrightarrow> meta_room s a" by auto
    obtain rc md m h where
      h: "msg_copy (slots s ! d) (slots s ! i) (mh s) = Some (rc, md, m, h)"
      "books ((slots s)[d := md, i := m]) (pend s) (owners s) h"
      using msg_copy_ok [OF b pre(1-3) roomD [OF pre(4)] meta_roomD [OF pre(5)]] by blast
    with OCopy f tame_copy [OF h(1)] show ?thesis by (simp add: defs tame_def)
  next
    case (OSetFlags i fl)
    then show ?thesis using assms(2) books_same [OF b, of i "msg_set_flags fl (slots s ! i)"] f
      by (simp add: defs)
  next
    case (OResetFlags i fl)
    then show ?thesis using assms(2) books_same [OF b, of i "msg_reset_flags fl (slots s ! i)"] f
      by (simp add: defs)
  next
    case (OSetMeta i a)
    with assms(2) set_metadata_ok [OF b, of i a] f show ?thesis by (auto simp: defs dest!: meta_roomD)
  next
    case (OResetMeta i)
    with assms(2) reset_metadata_ok [OF b, of i] f show ?thesis by (auto simp: defs)
  next
    case (ONewMeta dict)
    with new_metadata_ok [OF b, of dict] f show ?thesis
      by (auto simp: defs fbal_def [abs_def] split: prod.split)
  next
    case (ODropMeta a)
    with assms(2) drop_metadata_ok [OF b, of a] f show ?thesis by (auto simp: defs)
  next
    case (OGive d i)
    with assms(2) give_ok [OF b, of d i] f show ?thesis by (auto simp: defs)
  next
    case (OAddRefs i n)
    define p' where "p' = pend (upd_pend (slots s ! i) (\<lambda>k. k + n) s)"
    from assms(2) OAddRefs have pre: "i < length (slots s)" "msg_metadata (slots s ! i) = None"
      "room s (slots s ! i) n" by auto
    have p': "p' a = pend s a + (if msg_body (slots s ! i) = Lmsg a then n else 0)" for a
      by (simp add: p'_def defs split: msg_body.split)
    obtain m h where "msg_add_refs (int n) (slots s ! i) (mh s) = Some (m, h)"
      "msg_body m = msg_body (slots s ! i)" "books ((slots s)[i := m]) p' (owners s) h" "fbal h = fbal (mh s)"
      using add_refs_ok [OF b pre(1,2) roomD [OF pre(3)] p'] by blast
    with OAddRefs f show ?thesis by (cases "msg_body (slots s ! i)") (simp_all add: defs p'_def)
  next
    case (OHandOver d i)
    define p' where "p' = pend (upd_pend (slots s ! i) (\<lambda>k. k - 1) s)"
    have p': "p' a = (if msg_body (slots s ! i) = Lmsg a then pend s a - 1 else pend s a)" for a
      by (simp add: p'_def defs split: msg_body.split)
    from OHandOver assms(2) have "books ((slots s)[d := slots s ! i]) p' (owners s) (mh s)"
      by (intro handover_ok [OF b _ _ _ _ _ p']) auto
    with OHandOver f show ?thesis by (cases "msg_body (slots s ! i)") (simp_all add: defs p'_def)
  next
    case (ORmRefs i n)
    define p' where "p' = pend (upd_pend (slots s ! i) (\<lambda>k. Suc k - n) s)"
    have p': "p' a = (if msg_body (slots s ! i) = Lmsg a then Suc (pend s a) - n else pend s a)" for a
      by (simp add: p'_def defs split: msg_body.split)
    from assms(2) ORmRefs have pre: "i < length (slots s)" "msg_metadata (slots s ! i) = None" "0 < n"
      "\<And>a. msg_body (slots s ! i) = Lmsg a \<Longrightarrow> n \<le> Suc (pend s a)" by auto
    obtain b m h where h: "msg_rm_refs (int n) (slots s ! i) (mh s) = Some (b, m, h)"
      "books ((slots s)[i := msg_init]) p' (owners s) h"
      using rm_refs_ok [OF b pre p'] by blast
    with f tame_rm_refs [OF h(1)] ORmRefs show ?thesis
      by (cases "msg_body (slots s ! i)") (simp_all add: defs p'_def tame_def)
  qed
qed

lemma mop_run_ok: "msys_ok s \<Longrightarrow> \<exists>s'. mop_run ops s = Some s' \<and> msys_ok s'"
proof (induction ops arbitrary: s)
  case (Cons op ops)
  show ?case
  proof (cases "mop_pre op s")
    case True
    from mop_step_ok [OF Cons.prems True] obtain s1 where "mop_step op s = Some s1" "msys_ok s1" by blast
    with True Cons.IH [of s1] show ?thesis by simp
  qed (use Cons in simp)
qed simp

lemma msys_new_ok: "msys_ok (msys_new n mem)"
proof -
  have cnt0: "(\<And>x. x \<in> set xs \<Longrightarrow> \<not> P x) \<Longrightarrow> cnt P xs = 0" for P :: "msg \<Rightarrow> bool" and xs
    using cnt_pos_iff [of P xs] by auto
  have "lrefs (slots (msys_new n mem)) a = 0" "srefs (slots (msys_new n mem)) a = 0"
    "mrefs (slots (msys_new n mem)) [] a = 0" for a
    by (auto simp: msys_new_def lrefs_def srefs_def mrefs_def msg_check_def intro!: cnt0)
  then show ?thesis
    by (simp add: msys_ok_def content_ok_def metadata_ok_def fbal_def fcnt_def msys_new_def heap_load_def
        fun_eq_iff)
qed

section \<open>Properties\<close>

text \<open>C29: Whatever sequence of message operations is applied (initialise, close, move, copy, flags,
  metadata, \<open>add_refs\<close>, bitwise hand-over, \<open>rm_refs\<close>), no operation fails an assertion, reads or
  frees a released object; and at the end a shared buffer is alive exactly when a message or a
  pending reference still refers to it, a metadata object exactly when a valid message or an
  engine does, and every deallocation function given to \<open>init_data\<close> has been called exactly
  once per released buffer.\<close>

theorem msg_refcounting:
  "\<exists>s. mop_run ops (msys_new n mem) = Some s \<and>
    (\<forall>a. heap_load (contents (mh s)) a \<noteq> None \<longleftrightarrow>
          (\<exists>m \<in> set (slots s). msg_body m = Lmsg a) \<or> 0 < pend s a) \<and>
    (\<forall>a. heap_load (metadatas (mh s)) a \<noteq> None \<longleftrightarrow>
          (\<exists>m \<in> set (slots s). msg_check m \<and> msg_metadata m = Some a) \<or> a \<in> set (owners s)) \<and>
    (\<forall>fh. fcnt (contents (mh s)) fh + count_list (ffn_calls (mh s)) fh = count_list (given s) fh)"
proof -
  from mop_run_ok [OF msys_new_ok] obtain s where s: "mop_run ops (msys_new n mem) = Some s" "msys_ok s"
    by blast
  have "heap_load (contents (mh s)) a \<noteq> None \<longleftrightarrow> 0 < lrefs (slots s) a + srefs (slots s) a + pend s a" for a
  proof -
    have "content_st (lrefs (slots s) a) (srefs (slots s) a + pend s a) (heap_load (contents (mh s)) a)"
      using s(2) by (simp add: msys_ok_def content_ok_def)
    then show ?thesis by (cases "heap_load (contents (mh s)) a") auto
  qed
  then have c: "heap_load (contents (mh s)) a \<noteq> None \<longleftrightarrow>
      (\<exists>m \<in> set (slots s). msg_body m = Lmsg a) \<or> 0 < pend s a" for a
    by (auto simp: lrefs_def srefs_def cnt_pos_iff)
  have "heap_load (metadatas (mh s)) a \<noteq> None \<longleftrightarrow> 0 < mrefs (slots s) (owners s) a" for a
  proof -
    have "metadata_st (mrefs (slots s) (owners s) a) (heap_load (metadatas (mh s)) a)"
      using s(2) by (simp add: msys_ok_def metadata_ok_def)
    then show ?thesis by (cases "heap_load (metadatas (mh s)) a") auto
  qed
  moreover have "0 < count_list (owners s) a \<longleftrightarrow> a \<in> set (owners s)" for a
    by (metis count_list_0_iff neq0_conv)
  ultimately have "heap_load (metadatas (mh s)) a \<noteq> None \<longleftrightarrow>
      (\<exists>m \<in> set (slots s). msg_check m \<and> msg_metadata m = Some a) \<or> a \<in> set (owners s)" for a
    by (simp add: mrefs_def cnt_pos_iff)
  with s c show ?thesis by (auto simp: msys_ok_def fbal_def fun_eq_iff)
qed

text \<open>A 30-byte message with its own deallocation function, copied twice and closed three
  times: the function is called once.\<close>

theorem msg_refcounting_witness:
  "map_option (\<lambda>s. (contents (mh s), ffn_calls (mh s)))
     (mop_run [OInitData 0 (replicate 30 1) (Some (7, 9)), OInit 1, OInit 2, OCopy 1 0, OClose 0,
               OCopy 2 1, OClose 1, OClose 2] (msys_new 3 100)) = Some ([None], [(7, 9)]) \<and>
   (\<exists>s. mop_run [OInitData 0 (replicate 30 1) (Some (7, 9))] (msys_new 3 100) = Some s \<and>
      (heap_load (contents (mh s)) 0 \<noteq> None \<longleftrightarrow>
         (\<exists>m \<in> set (slots s). msg_body m = Lmsg 0) \<or> 0 < pend s 0))"
proof
  show "map_option (\<lambda>s. (contents (mh s), ffn_calls (mh s)))
     (mop_run [OInitData 0 (replicate 30 1) (Some (7, 9)), OInit 1, OInit 2, OCopy 1 0, OClose 0,
               OCopy 2 1, OClose 1, OClose 2] (msys_new 3 100)) = Some ([None], [(7, 9)])"
    by code_simp
  show "\<exists>s. mop_run [OInitData 0 (replicate 30 1) (Some (7, 9))] (msys_new 3 100) = Some s \<and>
      (heap_load (contents (mh s)) 0 \<noteq> None \<longleftrightarrow>
         (\<exists>m \<in> set (slots s). msg_body m = Lmsg 0) \<or> 0 < pend s 0)"
    by (rule exE [OF msg_refcounting [of "[OInitData 0 (replicate 30 1) (Some (7, 9))]" 3 100]])
       (intro exI conjI, elim conjE, assumption, elim conjE, erule spec)
qed

section \<open>What the messages contain\<close>

lemma msg_data_tame:
  assumes "tame h h'" "msg_data m h = Some bs" "msg_data m h' \<noteq> None"
  shows "msg_data m h' = Some bs"
proof (cases "msg_body m")
  case (Lmsg a)
  then obtain c c' where "heap_load (contents h) a = Some c" "heap_load (contents h') a = Some c'"
    "ct_data c = bs" using assms(2,3) by (auto simp: msg_data_def)
  moreover from this(2) obtain c'' where "heap_load (contents h) a = Some c''" "ct_data c' = ct_data c''"
    using assms(1) by (auto simp: tame_def)
  ultimately show ?thesis using Lmsg by (simp add: msg_data_def)
qed (use assms(2,3) in \<open>auto simp: msg_data_def\<close>)

lemma msg_copy_result:
  assumes "msg_copy d m h = Some (rc, d', m', h')" "msg_check d" "msg_check m"
  shows "rc = Inr () \<and> d' = m' \<and> msg_body m' = msg_body m"
proof -
  from assms obtain h1 h2 where "share_content 1 m h1 = Some (m', h2)" "rc = Inr ()" "d' = m'"
    by (auto simp: msg_copy_def msg_close_def bind_eq_Some_conv)
  then show ?thesis by (auto simp: share_content_def bind_eq_Some_conv split: msg_body.splits if_splits)
qed

lemma msg_data_live:
  assumes "books ms p os h" "j < length ms" "msg_body (ms ! j) \<noteq> Delimiter" "msg_check (ms ! j)"
  shows "msg_data (ms ! j) h \<noteq> None"
  using assms content_ok_live [of ms p _ j]
  by (cases "msg_body (ms ! j)") (auto simp: books_def msg_data_def msg_check_def)

text \<open>Copying is by reference and yet each message keeps its own bytes: after \<open>dst.copy (src)\<close>
  both messages have the bytes that \<open>src\<close> had, and every other valid message, also one that
  shared a buffer with the overwritten destination, still has its own.\<close>

theorem msg_copy_data:
  assumes run: "mop_run ops (msys_new n mem) = Some s" and pre: "mop_pre (OCopy d i) s"
    and "msg_check (slots s ! d)" "msg_data (slots s ! i) (mh s) = Some bs"
    and "j < length (slots s)" "j \<noteq> d" "j \<noteq> i" "msg_data (slots s ! j) (mh s) = Some bs'"
  shows "\<exists>s'. mop_step (OCopy d i) s = Some s' \<and> msg_data (slots s' ! d) (mh s') = Some bs \<and>
           msg_data (slots s' ! i) (mh s') = Some bs \<and> msg_data (slots s' ! j) (mh s') = Some bs'"
proof -
  let ?ms = "slots s" and ?h = "mh s"
  have "msys_ok s" using mop_run_ok [OF msys_new_ok, of ops n mem] run by auto
  then obtain s' where s': "mop_step (OCopy d i) s = Some s'" "msys_ok s'" using mop_step_ok [OF _ pre] by blast
  from s'(1) obtain rc md m' h' where c: "msg_copy (?ms ! d) (?ms ! i) ?h = Some (rc, md, m', h')"
    and s'_def: "s' = s\<lparr>mh := h', slots := ?ms[d := md, i := m']\<rparr>"
    by (auto simp: bind_eq_Some_conv set_slot_def)
  have b: "books (?ms[d := md, i := m']) (pend s) (owners s) h'"
    using s'(2) by (simp add: msys_ok_books s'_def)
  have chk: "msg_check (?ms ! i)" "msg_check (?ms ! j)" and nd: "msg_body (?ms ! i) \<noteq> Delimiter" "msg_body (?ms ! j) \<noteq> Delimiter"
    using assms(4,8) by (auto simp: msg_data_def msg_check_def split: msg_body.splits)
  have m: "md = m'" "msg_body m' = msg_body (?ms ! i)"
    using msg_copy_result [OF c assms(3) chk(1)] by auto
  have same: "msg_data m' h'' = msg_data (?ms ! i) h''" for h'' by (simp add: msg_data_def m(2))
  note t = tame_copy [OF c]
  have "msg_data m' h' \<noteq> None"
    using msg_data_live [OF b, of i] pre nd(1) m(2) chk(1) by (simp add: msg_check_def)
  then have "msg_data m' h' = Some bs" using msg_data_tame [OF t assms(4)] by (simp add: same)
  moreover have "msg_data (?ms ! j) h' \<noteq> None"
    using msg_data_live [OF b, of j] assms(5-7) chk(2) nd(2) by simp
  then have "msg_data (?ms ! j) h' = Some bs'" using msg_data_tame [OF t assms(8)] by simp
  ultimately show ?thesis using s'(1) s'_def m(1) pre assms(5-7) by simp
qed

definition copy_demo :: "msys option" where
  "copy_demo = mop_run [OInitData 0 (replicate 30 1) (Some (7, 9)), OInit 1, OInitSize 2 40, OCopy 1 0]
     (msys_new 3 100)"

theorem msg_copy_data_witness:
  "\<exists>s'. mop_step (OCopy 2 0) (the copy_demo) = Some s' \<and>
     msg_data (slots s' ! 2) (mh s') = Some (replicate 30 1) \<and>
     msg_data (slots s' ! 0) (mh s') = Some (replicate 30 1) \<and>
     msg_data (slots s' ! 1) (mh s') = Some (replicate 30 1)"
proof (rule msg_copy_data)
  have "copy_demo \<noteq> None" by code_simp
  then show "mop_run [OInitData 0 (replicate 30 1) (Some (7, 9)), OInit 1, OInitSize 2 40, OCopy 1 0]
     (msys_new 3 100) = Some (the copy_demo)" by (auto simp: copy_demo_def)
  show "mop_pre (OCopy 2 0) (the copy_demo)" by code_simp
  show "msg_check (slots (the copy_demo) ! 2)" by code_simp
  show "msg_data (slots (the copy_demo) ! 0) (mh (the copy_demo)) = Some (replicate 30 1)" by code_simp
  show "1 < length (slots (the copy_demo))" by code_simp
  show "msg_data (slots (the copy_demo) ! 1) (mh (the copy_demo)) = Some (replicate 30 1)" by code_simp
qed simp_all

end
