(* ===== verification/Conflate.thy ===== *)
theory Conflate
  imports Ypipe Msg
begin

text \<open>
  The conflating pipe: \<open>dbuffer_t\<close> (src/libzmq/src/dbuffer.hpp) and \<open>ypipe_conflate_t\<close>
  (src/libzmq/src/ypipe_conflate.hpp), and the interface \<open>ypipe_base_t\<close>
  (src/libzmq/src/ypipe_base.hpp) through which a \<open>pipe_t\<close> uses either this pipe or
  \<open>ypipe_t\<close>. The two threads meet in a mutex here, so each operation is one step; the writer's
  \<open>try_lock\<close> may fail while the reader holds the mutex, and that outcome is an argument.
\<close>

section \<open>The double buffer\<close>

record dbuffer =
  storage :: "msg list"
  db_back :: nat
  db_front :: nat
  has_msg :: bool

definition dbuffer_new :: dbuffer where
  "dbuffer_new = \<lparr>storage = [msg_init, msg_init], db_back = 0, db_front = 1, has_msg = False\<rparr>"

definition dbuffer_destroy :: "dbuffer \<Rightarrow> mheap \<Rightarrow> (dbuffer \<times> mheap) option" where
  "dbuffer_destroy d h =
     do { (_, b, h) \<leftarrow> msg_close (storage d ! db_back d) h;
          let d = d\<lparr>storage := (storage d)[db_back d := b]\<rparr>;
          (_, f, h) \<leftarrow> msg_close (storage d ! db_front d) h;
          Some (d\<lparr>storage := (storage d)[db_front d := f]\<rparr>, h) }"

text \<open>The written message is moved out of the caller's structure, whose new value is returned.\<close>

definition dbuffer_write :: "bool \<Rightarrow> msg \<Rightarrow> dbuffer \<Rightarrow> mheap \<Rightarrow> (msg \<times> dbuffer \<times> mheap) option" where
  "dbuffer_write locked xvalue d h =
     do { zmq_assert (msg_check xvalue);
          (_, b, xvalue, h) \<leftarrow> msg_move (storage d ! db_back d) xvalue h;
          let d = d\<lparr>storage := (storage d)[db_back d := b]\<rparr>;
          zmq_assert (msg_check b);
          Some (xvalue,
                if locked then d\<lparr>db_back := db_front d, db_front := db_back d, has_msg := True\<rparr> else d,
                h) }"

definition dbuffer_read :: "dbuffer \<Rightarrow> (msg option \<times> dbuffer) option" where
  "dbuffer_read d =
     (if \<not> has_msg d then Some (None, d)
      else do { zmq_assert (msg_check (storage d ! db_front d));
                Some (Some (storage d ! db_front d),
                      d\<lparr>storage := (storage d)[db_front d := msg_init], has_msg := False\<rparr>) })"

definition dbuffer_check_read :: "dbuffer \<Rightarrow> bool" where
  "dbuffer_check_read d = has_msg d"

definition dbuffer_probe :: "(msg \<Rightarrow> bool) \<Rightarrow> dbuffer \<Rightarrow> bool" where
  "dbuffer_probe fn d = fn (storage d ! db_front d)"

section \<open>The conflating pipe\<close>

record cpipe =
  cp_dbuffer :: dbuffer
  reader_awake :: bool

definition cpipe_new :: cpipe where
  "cpipe_new = \<lparr>cp_dbuffer = dbuffer_new, reader_awake = False\<rparr>"

definition cpipe_write :: "bool \<Rightarrow> msg \<Rightarrow> bool \<Rightarrow> cpipe \<Rightarrow> mheap \<Rightarrow> (msg \<times> cpipe \<times> mheap) option" where
  "cpipe_write locked value incomplete p h =
     do { (value, d, h) \<leftarrow> dbuffer_write locked value (cp_dbuffer p) h;
          Some (value, p\<lparr>cp_dbuffer := d\<rparr>, h) }"

definition cpipe_unwrite :: "cpipe \<Rightarrow> msg option \<times> cpipe" where
  "cpipe_unwrite p = (None, p)"

definition cpipe_flush :: "cpipe \<Rightarrow> bool \<times> cpipe" where
  "cpipe_flush p = (reader_awake p, p)"

definition cpipe_check_read :: "cpipe \<Rightarrow> bool \<times> cpipe" where
  "cpipe_check_read p =
     (let res = dbuffer_check_read (cp_dbuffer p)
      in (res, if \<not> res then p\<lparr>reader_awake := False\<rparr> else p))"

definition cpipe_read :: "cpipe \<Rightarrow> (msg option \<times> cpipe) option" where
  "cpipe_read p =
     (let (ok, p) = cpipe_check_read p
      in if \<not> ok then Some (None, p)
         else do { (v, d) \<leftarrow> dbuffer_read (cp_dbuffer p); Some (v, p\<lparr>cp_dbuffer := d\<rparr>) })"

definition cpipe_probe :: "(msg \<Rightarrow> bool) \<Rightarrow> cpipe \<Rightarrow> bool" where
  "cpipe_probe fn p = dbuffer_probe fn (cp_dbuffer p)"

section \<open>The interface of both pipes\<close>

text \<open>\<open>upipe_t\<close> is a pointer to \<open>ypipe_base_t\<close>; the class of the object decides. The granularity
  of the message pipes is \<open>message_pipe_granularity\<close> (config.hpp).\<close>

definition message_pipe_granularity :: nat where "message_pipe_granularity = 256"

datatype upipe = Normal "msg ypipe" | Conflating cpipe

definition upipe_new :: "bool \<Rightarrow> upipe option" where
  "upipe_new conflate =
     (if conflate then Some (Conflating cpipe_new)
      else map_option Normal (ypipe_new message_pipe_granularity))"

fun upipe_write :: "bool \<Rightarrow> msg \<Rightarrow> bool \<Rightarrow> upipe \<Rightarrow> mheap \<Rightarrow> (msg \<times> upipe \<times> mheap) option" where
  "upipe_write locked v incomplete (Normal p) h =
     map_option (\<lambda>p. (v, Normal p, h)) (ypipe_write message_pipe_granularity v incomplete p)"
| "upipe_write locked v incomplete (Conflating p) h =
     map_option (\<lambda>(v, p, h). (v, Conflating p, h)) (cpipe_write locked v incomplete p h)"

fun upipe_unwrite :: "upipe \<Rightarrow> (msg option \<times> upipe) option" where
  "upipe_unwrite (Normal p) =
     map_option (\<lambda>(v, p). (v, Normal p)) (ypipe_unwrite message_pipe_granularity p)"
| "upipe_unwrite (Conflating p) = (let (v, p) = cpipe_unwrite p in Some (v, Conflating p))"

fun upipe_flush :: "upipe \<Rightarrow> bool \<times> upipe" where
  "upipe_flush (Normal p) = (let (b, p) = ypipe_flush p in (b, Normal p))"
| "upipe_flush (Conflating p) = (let (b, p) = cpipe_flush p in (b, Conflating p))"

fun upipe_check_read :: "upipe \<Rightarrow> bool \<times> upipe" where
  "upipe_check_read (Normal p) = (let (b, p) = ypipe_check_read p in (b, Normal p))"
| "upipe_check_read (Conflating p) = (let (b, p) = cpipe_check_read p in (b, Conflating p))"

fun upipe_read :: "upipe \<Rightarrow> (msg option \<times> upipe) option" where
  "upipe_read (Normal p) =
     map_option (\<lambda>(v, p). (v, Normal p)) (ypipe_read message_pipe_granularity p)"
| "upipe_read (Conflating p) = map_option (\<lambda>(v, p). (v, Conflating p)) (cpipe_read p)"

fun upipe_probe :: "(msg \<Rightarrow> bool) \<Rightarrow> upipe \<Rightarrow> (bool \<times> upipe) option" where
  "upipe_probe fn (Normal p) = map_option (\<lambda>(b, p). (b, Normal p)) (ypipe_probe fn p)"
| "upipe_probe fn (Conflating p) = Some (cpipe_probe fn p, Conflating p)"

section \<open>The double buffer holds at most the latest message\<close>

definition dbuffer_ok :: "dbuffer \<Rightarrow> bool" where
  "dbuffer_ok d \<longleftrightarrow> length (storage d) = 2 \<and> db_back d < 2 \<and> db_front d < 2 \<and> db_back d \<noteq> db_front d \<and>
     msg_check (storage d ! 0) \<and> msg_check (storage d ! 1)"

definition latest :: "dbuffer \<Rightarrow> msg option" where
  "latest d = (if has_msg d then Some (storage d ! db_front d) else None)"

lemma dbuffer_cases:
  assumes "dbuffer_ok d"
  obtains a b where "storage d = [a, b]" "msg_check a" "msg_check b" "db_back d = 0" "db_front d = 1"
  | a b where "storage d = [a, b]" "msg_check a" "msg_check b" "db_back d = 1" "db_front d = 0"
proof -
  obtain a b where "storage d = [a, b]"
    using assms unfolding dbuffer_ok_def numeral_2_eq_2 by (auto simp: length_Suc_conv)
  then show ?thesis using assms that unfolding dbuffer_ok_def by (auto simp: less_2_cases_iff)
qed

lemma dbuffer_back: "dbuffer_ok d \<Longrightarrow> msg_check (storage d ! db_back d)"
  by (erule dbuffer_cases) auto

text \<open>A write is accounted for: the message it replaces is closed, the written one moves in.\<close>

lemma dbuffer_write_ok:
  assumes ok: "dbuffer_ok d" and b: "books (storage d @ rest) p os h" and i: "i < length rest"
    and v: "msg_check (rest ! i)"
  shows "\<exists>d' h'. dbuffer_write locked (rest ! i) d h = Some (msg_init, d', h') \<and> dbuffer_ok d' \<and>
     books (storage d' @ rest[i := msg_init]) p os h' \<and>
     latest d' = (if locked then Some (rest ! i) else latest d)"
proof -
  let ?ms = "storage d @ rest" and ?k = "db_back d" and ?j = "2 + i"
  have l: "length (storage d) = 2" "?k < 2" using ok by (simp_all add: dbuffer_ok_def)
  have idx: "?ms ! ?k = storage d ! ?k" "?ms ! ?j = rest ! i" using l by (simp_all add: nth_append)
  from msg_move_ok [OF b, of ?k ?j] l i obtain rc md m' h' where
    mv: "msg_move (storage d ! ?k) (rest ! i) h = Some (rc, md, m', h')"
    and bk: "books (?ms[?k := md, ?j := m']) p os h'" unfolding idx by auto
  have res: "md = rest ! i" "m' = msg_init"
    using mv v dbuffer_back [OF ok]
    by (auto simp: msg_move_def msg_close_def bind_eq_Some_conv)
  have "?ms[?k := md, ?j := m'] = (storage d)[?k := rest ! i] @ rest[i := msg_init]"
    using l res by (simp add: list_update_append)
  with mv bk res v ok show ?thesis
    by (auto simp: dbuffer_write_def latest_def elim!: dbuffer_cases)
       (auto simp: dbuffer_ok_def)
qed

lemma dbuffer_read_ok:
  assumes ok: "dbuffer_ok d" and b: "books (storage d @ rest) p os h" and j: "j < length rest" "\<not> msg_check (rest ! j)"
  shows "\<exists>d'. dbuffer_read d = Some (latest d, d') \<and> dbuffer_ok d' \<and> latest d' = None \<and>
     books (storage d' @ (case latest d of None \<Rightarrow> rest | Some m \<Rightarrow> rest[j := m])) p os h"
proof (cases "has_msg d")
  case False
  then show ?thesis using ok b by (simp add: dbuffer_read_def latest_def)
next
  case True
  let ?ms = "storage d @ rest" and ?k = "db_front d" and ?j = "2 + j"
  have l: "length (storage d) = 2" "?k < 2" "msg_check (storage d ! ?k)"
    using ok by (auto elim!: dbuffer_cases)
  have idx: "?ms ! ?k = storage d ! ?k" "?ms ! ?j = rest ! j" using l by (simp_all add: nth_append)
  have "books (?ms[?j := ?ms ! ?k, ?k := msg_init]) p os h"
    using give_ok [OF b, of ?j ?k] j l idx by simp
  also have "?ms[?j := ?ms ! ?k, ?k := msg_init] = (storage d)[?k := msg_init] @ rest[j := storage d ! ?k]"
    using l idx by (simp add: list_update_append)
  finally show ?thesis using ok True l
    by (auto simp: dbuffer_read_def latest_def elim!: dbuffer_cases)
       (auto simp: dbuffer_ok_def msg_check_def msg_init_def)
qed

section \<open>Runs of the conflating pipe\<close>

text \<open>
  \<open>CWrite i l\<close> writes the message in structure \<open>i\<close> of the process, with \<open>l\<close> the outcome of
  \<open>try_lock\<close>; \<open>CFlush\<close> flushes; \<open>CRead j\<close> reads into the uninitialised structure \<open>j\<close>. The
  results of flushes and reads are collected.
\<close>

datatype cact = CWrite nat bool | CFlush | CRead nat

fun cact_step :: "cact \<Rightarrow> cpipe \<times> msg list \<times> mheap \<Rightarrow> (cpipe \<times> msg list \<times> mheap) option" where
  "cact_step (CWrite i l) (p, ms, h) =
     (if i < length ms \<and> msg_check (ms ! i)
      then do { (v, p, h) \<leftarrow> cpipe_write l (ms ! i) False p h; Some (p, ms[i := v], h) }
      else Some (p, ms, h))"
| "cact_step CFlush (p, ms, h) = Some (snd (cpipe_flush p), ms, h)"
| "cact_step (CRead j) (p, ms, h) =
     (if j < length ms \<and> \<not> msg_check (ms ! j)
      then do { (v, p) \<leftarrow> cpipe_read p;
                Some (p, case v of None \<Rightarrow> ms | Some m \<Rightarrow> ms[j := m], h) }
      else Some (p, ms, h))"

fun crun :: "cact list \<Rightarrow> cpipe \<times> msg list \<times> mheap \<Rightarrow> (cpipe \<times> msg list \<times> mheap) option" where
  "crun [] s = Some s"
| "crun (a # as) s = do { s \<leftarrow> cact_step a s; crun as s }"

text \<open>What conflation promises: one cell with the latest message whose swap went through.\<close>

fun cspec_step :: "cact \<Rightarrow> msg option \<times> msg list \<Rightarrow> msg option \<times> msg list" where
  "cspec_step (CWrite i l) (v, ms) =
     (if i < length ms \<and> msg_check (ms ! i)
      then (if l then Some (ms ! i) else v, ms[i := msg_init]) else (v, ms))"
| "cspec_step CFlush (v, ms) = (v, ms)"
| "cspec_step (CRead j) (v, ms) =
     (if j < length ms \<and> \<not> msg_check (ms ! j)
      then (None, case v of None \<Rightarrow> ms | Some m \<Rightarrow> ms[j := m]) else (v, ms))"

definition cpipe_sim :: "cpipe \<times> msg list \<times> mheap \<Rightarrow> msg option \<times> msg list \<Rightarrow> (addr \<Rightarrow> nat) \<Rightarrow> addr list \<Rightarrow> bool" where
  "cpipe_sim s a pd os \<longleftrightarrow> (case s of (p, ms, h) \<Rightarrow>
     dbuffer_ok (cp_dbuffer p) \<and> books (storage (cp_dbuffer p) @ ms) pd os h \<and> \<not> reader_awake p \<and>
     a = (latest (cp_dbuffer p), ms))"

lemma cact_step_sim:
  assumes "cpipe_sim s a pd os"
  shows "\<exists>s'. cact_step act s = Some s' \<and> cpipe_sim s' (cspec_step act a) pd os"
proof -
  obtain p ms h where s: "s = (p, ms, h)" by (cases s)
  let ?d = "cp_dbuffer p"
  have ok: "dbuffer_ok ?d" "books (storage ?d @ ms) pd os h" "\<not> reader_awake p" "a = (latest ?d, ms)"
    using assms by (simp_all add: cpipe_sim_def s)
  show ?thesis
  proof (cases act)
    case (CWrite i l)
    show ?thesis
    proof (cases "i < length ms \<and> msg_check (ms ! i)")
      case True
      with dbuffer_write_ok [OF ok(1,2), of i l] obtain d' h' where
        "dbuffer_write l (ms ! i) ?d h = Some (msg_init, d', h')" "dbuffer_ok d'"
        "books (storage d' @ ms[i := msg_init]) pd os h'" "latest d' = (if l then Some (ms ! i) else latest ?d)"
        by blast
      with True ok CWrite s show ?thesis by (auto simp: cpipe_write_def cpipe_sim_def)
    qed (use assms ok CWrite s in auto)
  next
    case CFlush
    then show ?thesis using assms ok s by (simp add: cpipe_flush_def)
  next
    case (CRead j)
    show ?thesis
    proof (cases "j < length ms \<and> \<not> msg_check (ms ! j)")
      case True
      with dbuffer_read_ok [OF ok(1,2), of j] obtain d' where
        "dbuffer_read ?d = Some (latest ?d, d')" "dbuffer_ok d'" "latest d' = None"
        "books (storage d' @ (case latest ?d of None \<Rightarrow> ms | Some m \<Rightarrow> ms[j := m])) pd os h"
        by blast
      with True ok CRead s show ?thesis
        by (cases "has_msg ?d")
           (auto simp: cpipe_read_def cpipe_check_read_def dbuffer_check_read_def dbuffer_read_def
              cpipe_sim_def latest_def)
    qed (use assms ok CRead s in auto)
  qed
qed

lemma crun_sim:
  "cpipe_sim s a pd os \<Longrightarrow> \<exists>s'. crun acts s = Some s' \<and> cpipe_sim s' (fold cspec_step acts a) pd os"
proof (induction acts arbitrary: s a)
  case (Cons act acts)
  from cact_step_sim [OF Cons.prems, of act] obtain s1 where
    "cact_step act s = Some s1" "cpipe_sim s1 (cspec_step act a) pd os" by blast
  with Cons.IH [of s1] show ?case by auto
qed simp

text \<open>C32: The conflating pipe refines a one-place cell: for every sequence of writes (whatever the
  outcome of their \<open>try_lock\<close>), flushes and reads, no operation aborts, every read yields the
  latest message whose buffers were swapped and nothing if it was read already, and the buffers of
  the discarded messages are accounted for.\<close>

theorem conflate_refines_cell:
  assumes "books ms pd os h"
  shows "\<exists>p ms' h'. crun acts (cpipe_new, ms, h) = Some (p, ms', h') \<and>
     fold cspec_step acts (None, ms) = (latest (cp_dbuffer p), ms') \<and>
     books (storage (cp_dbuffer p) @ ms') pd os h'"
proof -
  have "books ([msg_init, msg_init] @ ms) pd os h"
    using assms by (simp add: books_def content_ok_def lrefs_def srefs_def mrefs_def [abs_def] msg_init_def)
  then have "cpipe_sim (cpipe_new, ms, h) (None, ms) pd os"
    by (auto simp: cpipe_sim_def cpipe_new_def dbuffer_new_def dbuffer_ok_def latest_def msg_check_def msg_init_def)
  from crun_sim [OF this, of acts] show ?thesis by (auto simp: cpipe_sim_def)
qed

definition vsm_msg :: "blob \<Rightarrow> msg" where
  "vsm_msg bs = \<lparr>msg_fd = -1, msg_metadata = None, msg_body = Vsm bs, msg_flags = 0\<rparr>"

definition no_msg :: msg where
  "no_msg = \<lparr>msg_fd = 0, msg_metadata = None, msg_body = Invalid, msg_flags = 0\<rparr>"

theorem conflate_refines_cell_witness:
  "\<exists>p ms' h'. crun [CWrite 0 True, CWrite 1 True, CWrite 2 False, CRead 3]
      (cpipe_new, [vsm_msg [1], vsm_msg [2], vsm_msg [3], no_msg],
       \<lparr>contents = [], metadatas = [], avail = 0, ffn_calls = []\<rparr>) = Some (p, ms', h') \<and>
     ms' ! 3 = vsm_msg [2]"
proof -
  let ?ms = "[vsm_msg [1], vsm_msg [2], vsm_msg [3], no_msg]"
  let ?h = "\<lparr>contents = [], metadatas = [], avail = 0, ffn_calls = []\<rparr>"
  let ?acts = "[CWrite 0 True, CWrite 1 True, CWrite 2 False, CRead 3]"
  have "books ?ms (\<lambda>_. 0) [] ?h"
    by (simp add: books_def content_ok_def metadata_ok_def lrefs_def srefs_def mrefs_def vsm_msg_def
        no_msg_def heap_load_def)
  from conflate_refines_cell [OF this, of ?acts] obtain p ms' h' where
    "crun ?acts (cpipe_new, ?ms, ?h) = Some (p, ms', h')"
    "fold cspec_step ?acts (None, ?ms) = (latest (cp_dbuffer p), ms')" by blast
  moreover have "snd (fold cspec_step ?acts (None, ?ms)) ! 3 = vsm_msg [2]" by code_simp
  ultimately show ?thesis by auto
qed

text \<open>
  \<open>reader_awake\<close> starts false and no operation sets it, so \<open>flush\<close> reports a sleeping reader after
  every write, although the comment at \<open>flush\<close> promises the behaviour of the usual pipe.
\<close>

lemma cact_step_awake:
  "cact_step act (p, ms, h) = Some (p', ms', h') \<Longrightarrow> \<not> reader_awake p \<Longrightarrow> \<not> reader_awake p'"
  by (cases act) (auto simp: cpipe_write_def cpipe_flush_def cpipe_read_def cpipe_check_read_def
      bind_eq_Some_conv Let_def split: if_splits)

lemma crun_awake:
  "crun acts (p, ms, h) = Some (p', ms', h') \<Longrightarrow> \<not> reader_awake p \<Longrightarrow> \<not> reader_awake p'"
proof (induction acts arbitrary: p ms h)
  case (Cons act acts)
  then show ?case by (auto simp: bind_eq_Some_conv dest: cact_step_awake)
qed simp

text \<open>In every reachable state of a conflating pipe \<open>flush\<close> returns false, also when the
  reader has just found a message and is awake.\<close>

theorem conflate_flush_always_asleep:
  assumes "crun acts (cpipe_new, ms, h) = Some (p, ms', h')"
  shows "cpipe_flush p = (False, p)"
  using crun_awake [OF assms] by (simp add: cpipe_new_def cpipe_flush_def)

theorem conflate_flush_always_asleep_witness:
  "\<exists>p ms' h'. crun [CWrite 0 True, CRead 1, CWrite 0 True]
      (cpipe_new, [vsm_msg [1], no_msg], \<lparr>contents = [], metadatas = [], avail = 0, ffn_calls = []\<rparr>) =
      Some (p, ms', h') \<and> cpipe_flush p = (False, p)"
proof -
  let ?r = "crun [CWrite 0 True, CRead 1, CWrite 0 True]
      (cpipe_new, [vsm_msg [1], no_msg], \<lparr>contents = [], metadatas = [], avail = 0, ffn_calls = []\<rparr>)"
  have "?r \<noteq> None" by code_simp
  then obtain p ms' h' where r: "?r = Some (p, ms', h')" by auto
  from conflate_flush_always_asleep [OF r] r show ?thesis by blast
qed

end
