(* ===== verification/Chartab.thy ===== *)
theory Chartab
  imports Prelude
begin

text \<open>
  The table of subnodes that \<open>trie_t\<close> and \<open>mtrie_t\<close> keep in every node
  (src/libzmq/src/trie.cpp, mtrie.cpp): the fields \<open>min\<close>, \<open>count\<close>, \<open>live_nodes\<close> and the union
  \<open>next\<close>. The code of the two classes extends and compacts it in the same way. The list of the
  model is the union: empty for \<open>count = 0\<close>, the single pointer \<open>next.node\<close> for \<open>count = 1\<close>, the
  array \<open>next.table\<close> otherwise; \<open>count\<close> is its length, which \<open>tab_ok\<close> bounds by 256, so the
  16-bit counters of the code cannot wrap.
\<close>

datatype 'a chartab = Tab (tmin: byte) (tlive: nat) (tnext: "'a option list")

abbreviation tcount :: "'a chartab \<Rightarrow> nat" where
  "tcount t \<equiv> length (tnext t)"

definition tab_new :: "'a chartab" where
  "tab_new = Tab 0 0 []"

definition tab_in :: "'a chartab \<Rightarrow> byte \<Rightarrow> bool" where
  "tab_in t c \<longleftrightarrow> \<not> (unat c < unat (tmin t) \<or> unat c \<ge> unat (tmin t) + tcount t)"

text \<open>The pointer for a character; \<open>None\<close> is NULL or a character outside the table.\<close>

definition tab_get :: "'a chartab \<Rightarrow> byte \<Rightarrow> 'a option" where
  "tab_get t c = (if tab_in t c then tnext t ! (unat c - unat (tmin t)) else None)"

definition tab_put :: "'a chartab \<Rightarrow> byte \<Rightarrow> 'a option \<Rightarrow> 'a chartab" where
  "tab_put t c v = Tab (tmin t) (tlive t) ((tnext t)[unat c - unat (tmin t) := v])"

text \<open>Make room for a character: no table yet, a single node that becomes a table, a character
  above or below the current range.\<close>

definition tab_extend :: "'a chartab \<Rightarrow> byte \<Rightarrow> 'a chartab" where
  "tab_extend t c =
     (let mn = unat (tmin t); cc = unat c in
      if tab_in t c then t
      else if tcount t = 0 then Tab c (tlive t) [None]
      else if tcount t = 1 then
        (let count = (if mn < cc then cc - mn else mn - cc) + 1;
             new_min = min mn cc
         in Tab (of_nat new_min) (tlive t) ((replicate count None)[mn - new_min := hd (tnext t)]))
      else if mn < cc then Tab (tmin t) (tlive t) (tnext t @ replicate (cc - mn + 1 - tcount t) None)
      else Tab c (tlive t) (replicate (mn - cc) None @ tnext t))"

text \<open>The index of the first pointer that is not NULL.\<close>

fun scan :: "'a option list \<Rightarrow> nat option" where
  "scan [] = None"
| "scan (None # xs) = map_option Suc (scan xs)"
| "scan (Some _ # xs) = Some 0"

section \<open>Invariant\<close>

definition lv :: "'a option \<Rightarrow> bool" where
  "lv v \<longleftrightarrow> v \<noteq> None"

lemma lv_simps [simp]: "\<not> lv None" "lv (Some x)"
  by (simp_all add: lv_def)

definition tab_ok :: "'a chartab \<Rightarrow> bool" where
  "tab_ok t \<longleftrightarrow> unat (tmin t) + tcount t \<le> 256 \<and>
     tlive t = cnt lv (tnext t) \<and>
     (tnext t \<noteq> [] \<longrightarrow> lv (hd (tnext t)) \<and> lv (last (tnext t)))"

lemma unat_byte_less: "unat (c :: byte) < 256"
  using unsigned_less [where ?'a = nat, of c] by simp

lemma unat_byte_of_nat: "n < 256 \<Longrightarrow> unat (of_nat n :: byte) = n"
  by (simp add: unat_of_nat)

lemma byte_eq_iff: "c = d \<longleftrightarrow> unat (c :: byte) = unat d"
  by (simp add: word_unat_eq_iff)

lemma tab_new_ok [simp]: "tab_ok tab_new" "tab_get tab_new = Map.empty"
  by (auto simp: tab_ok_def tab_new_def tab_get_def tab_in_def fun_eq_iff)

lemma tab_get_iff:
  "tab_get t c = Some n \<longleftrightarrow>
     unat (tmin t) \<le> unat c \<and> unat c < unat (tmin t) + tcount t \<and> tnext t ! (unat c - unat (tmin t)) = Some n"
  by (auto simp: tab_get_def tab_in_def)

lemma tab_get_eqI:
  assumes "\<And>c. unat (tmin t) \<le> unat c \<Longrightarrow> unat c < unat (tmin t) + tcount t \<Longrightarrow>
      tnext t ! (unat c - unat (tmin t)) = m c"
    and "\<And>c. unat c < unat (tmin t) \<or> unat c \<ge> unat (tmin t) + tcount t \<Longrightarrow> m c = None"
  shows "tab_get t = m"
  using assms by (auto simp: tab_get_def tab_in_def fun_eq_iff)

lemma tab_put_get:
  assumes "tab_in t c"
  shows "tab_get (tab_put t c v) = (tab_get t)(c := v)"
proof (rule ext)
  fix d
  have "unat d - unat (tmin t) = unat c - unat (tmin t) \<Longrightarrow> tab_in t d \<Longrightarrow> d = c"
    using assms by (auto simp: tab_in_def byte_eq_iff)
  then show "tab_get (tab_put t c v) d = ((tab_get t)(c := v)) d"
    using assms by (auto simp: tab_get_def tab_put_def tab_in_def nth_list_update)
qed

lemma tab_put_in [simp]: "tab_in (tab_put t c v) d = tab_in t d"
  by (simp add: tab_in_def tab_put_def)

lemma hd_last_update:
  assumes "xs \<noteq> []" "i < length xs"
  shows "hd (xs[i := v]) = (if i = 0 then v else hd xs)"
    "last (xs[i := v]) = (if i = length xs - 1 then v else last xs)"
  using assms by (auto simp: hd_conv_nth last_conv_nth nth_list_update)

text \<open>Replacing a node by a node.\<close>

lemma tab_put_ok:
  assumes "tab_ok t" "tab_get t c = Some n"
  shows "tab_ok (tab_put t c (Some m))" "tab_get (tab_put t c (Some m)) = (tab_get t)(c \<mapsto> m)"
proof -
  let ?i = "unat c - unat (tmin t)"
  have i: "tab_in t c" "?i < tcount t" "tnext t ! ?i = Some n"
    using assms(2) by (auto simp: tab_get_iff tab_in_def)
  then show "tab_get (tab_put t c (Some m)) = (tab_get t)(c \<mapsto> m)" by (simp add: tab_put_get)
  have "cnt lv ((tnext t)[?i := Some m]) = cnt lv (tnext t)"
    using i by (intro cnt_update_other) auto
  then show "tab_ok (tab_put t c (Some m))"
    using assms(1) i hd_last_update [of "tnext t" ?i "Some m"]
    by (auto simp: tab_ok_def tab_put_def)
qed

text \<open>Extending changes no pointer; only the end where the new character sits may be NULL.\<close>

lemma cnt_replicate_None [simp]: "cnt lv (replicate n None) = 0"
  by (simp add: cnt_def)

definition tab_room :: "'a chartab \<Rightarrow> byte \<Rightarrow> (byte \<rightharpoonup> 'a) \<Rightarrow> bool" where
  "tab_room t c m \<longleftrightarrow> tab_in t c \<and> tab_get t = m \<and> unat (tmin t) + tcount t \<le> 256 \<and>
     tlive t = cnt lv (tnext t) \<and>
     (\<forall>i. i < tcount t \<longrightarrow> i = 0 \<or> i = tcount t - 1 \<longrightarrow> i \<noteq> unat c - unat (tmin t) \<longrightarrow> lv (tnext t ! i))"

lemma tab_extend_inside:
  assumes "tab_ok t" "tab_in t c"
  shows "tab_room t c (tab_get t)"
proof -
  have "tnext t \<noteq> []" using assms(2) by (auto simp: tab_in_def)
  with assms show ?thesis
    by (auto simp: tab_room_def tab_ok_def hd_conv_nth last_conv_nth)
qed

lemma tab_extend_first:
  assumes "tab_ok t" "tcount t = 0"
  shows "tab_room (Tab c (tlive t) [None]) c (tab_get t)"
proof -
  have "tab_get t = Map.empty" using assms(2) by (auto simp: tab_get_def tab_in_def fun_eq_iff)
  moreover have "tab_get (Tab c (tlive t) [None]) = Map.empty"
    by (rule tab_get_eqI) (auto simp: byte_eq_iff nth_Cons split: nat.split)
  ultimately show ?thesis
    using assms unat_byte_less [of c] by (auto simp: tab_room_def tab_ok_def tab_in_def)
qed

lemma tab_extend_above:
  assumes ok: "tab_ok t" and out: "\<not> tab_in t c" "unat (tmin t) < unat c" "tnext t \<noteq> []"
  shows "tab_room (Tab (tmin t) (tlive t) (tnext t @ replicate (unat c - unat (tmin t) + 1 - tcount t) None)) c (tab_get t)"
proof -
  let ?k = "unat c - unat (tmin t) + 1 - tcount t"
  let ?t = "Tab (tmin t) (tlive t) (tnext t @ replicate ?k None)"
  have c: "unat c \<ge> unat (tmin t) + tcount t" using out by (auto simp: tab_in_def)
  have "tab_get ?t = tab_get t"
    by (rule tab_get_eqI) (auto simp: tab_get_def tab_in_def nth_append)
  then show ?thesis
    using ok c out unat_byte_less [of c]
    by (auto simp: tab_room_def tab_ok_def tab_in_def nth_append hd_conv_nth)
qed

lemma tab_extend_below:
  assumes ok: "tab_ok t" and out: "unat c < unat (tmin t)" "tnext t \<noteq> []"
  shows "tab_room (Tab c (tlive t) (replicate (unat (tmin t) - unat c) None @ tnext t)) c (tab_get t)"
proof -
  let ?t = "Tab c (tlive t) (replicate (unat (tmin t) - unat c) None @ tnext t)"
  have "tab_get ?t = tab_get t"
    by (rule tab_get_eqI) (use out(1) in \<open>auto simp: tab_get_def tab_in_def nth_append\<close>)
  moreover have "last (tnext t) = tnext t ! (tcount t - 1)"
    using out(2) by (simp add: last_conv_nth)
  moreover obtain k where "tcount t = Suc k" using out(2) by (cases "tcount t") auto
  ultimately show ?thesis
    using ok out unat_byte_less [of c]
    by (auto simp: tab_room_def tab_ok_def tab_in_def nth_append)
qed

lemma tab_extend_single:
  assumes ok: "tab_ok t" and out: "\<not> tab_in t c" "tcount t = 1"
  shows "tab_extend t c = (if unat (tmin t) < unat c
     then Tab (tmin t) (tlive t) (tnext t @ replicate (unat c - unat (tmin t) + 1 - tcount t) None)
     else Tab c (tlive t) (replicate (unat (tmin t) - unat c) None @ tnext t))"
proof -
  obtain v where v: "tnext t = [v]" using out(2) by (cases "tnext t") auto
  have mn: "of_nat (min (unat (tmin t)) (unat c)) = (if unat (tmin t) < unat c then tmin t else c)"
    by (simp add: byte_eq_iff unat_byte_of_nat unat_byte_less min_def)
  have "(replicate (Suc k) None)[k := v] = replicate k None @ [v]" for k
    by (induction k) auto
  moreover have "(replicate (Suc k) None)[0 := v] = v # replicate k None" for k by simp
  ultimately show ?thesis
    using out v mn by (auto simp: tab_extend_def Let_def tab_in_def)
qed

lemma tab_extend_ok:
  assumes ok: "tab_ok t"
  shows "tab_room (tab_extend t c) c (tab_get t)"
proof (cases "tab_in t c")
  case True
  then show ?thesis using tab_extend_inside [OF ok] by (simp add: tab_extend_def)
next
  case out: False
  show ?thesis
  proof (cases "tcount t = 0")
    case True
    then show ?thesis using tab_extend_first [OF ok True, of c] out by (simp add: tab_extend_def)
  next
    case False
    then have ne: "tnext t \<noteq> []" by simp
    show ?thesis
    proof (cases "unat c < unat (tmin t)")
      case True
      then show ?thesis
        using tab_extend_below [OF ok True ne] tab_extend_single [OF ok out] out False
        by (cases "tcount t = 1") (simp, simp add: tab_extend_def Let_def)
    next
      case above: False
      have "0 < tcount t" using False by simp
      then have "unat (tmin t) < unat c" using out above unfolding tab_in_def by linarith
      then show ?thesis
        using tab_extend_above [OF ok out _ ne] tab_extend_single [OF ok out] out False above
        by (cases "tcount t = 1") (simp, simp add: tab_extend_def Let_def)
    qed
  qed
qed

text \<open>Filling the slot for the new character restores the invariant.\<close>

lemma tab_room_fill:
  assumes r: "tab_room t c m" and "m c = None" 
  shows "tab_ok (tab_put (Tab (tmin t) (Suc (tlive t)) (tnext t)) c (Some n))"
    "tab_get (tab_put (Tab (tmin t) (Suc (tlive t)) (tnext t)) c (Some n)) = m(c \<mapsto> n)"
proof -
  let ?t = "Tab (tmin t) (Suc (tlive t)) (tnext t)" and ?i = "unat c - unat (tmin t)"
  have "tab_get ?t = tab_get t" by (simp add: tab_get_def tab_in_def fun_eq_iff)
  then have in_c: "tab_in ?t c" "tab_get ?t = m" using r by (simp_all add: tab_room_def tab_in_def)
  then show "tab_get (tab_put ?t c (Some n)) = m(c \<mapsto> n)" by (simp add: tab_put_get)
  have i: "?i < tcount t" "tnext t ! ?i = None"
    using in_c assms(2) by (auto simp: tab_in_def tab_get_def split: if_splits)
  have ne: "tnext t \<noteq> []" using i by auto
  have "cnt lv ((tnext t)[?i := Some n]) = Suc (cnt lv (tnext t))"
    using cnt_update [OF i(1), of lv "Some n"] i(2) by simp
  moreover have "lv (hd ((tnext t)[?i := Some n]))" "lv (last ((tnext t)[?i := Some n]))"
  proof -
    have "lv (tnext t ! j)" if "j < tcount t" "j = 0 \<or> j = tcount t - 1" "j \<noteq> ?i" for j
      using r that by (auto simp: tab_room_def)
    from this [of 0] this [of "tcount t - 1"]
    show "lv (hd ((tnext t)[?i := Some n]))" "lv (last ((tnext t)[?i := Some n]))"
      using ne hd_last_update [OF ne i(1), of "Some n"] by (auto simp: hd_conv_nth [OF ne] last_conv_nth [OF ne])
  qed
  ultimately show "tab_ok (tab_put ?t c (Some n))" using r by (simp add: tab_ok_def tab_put_def tab_room_def)
qed

lemma tab_room_full:
  assumes r: "tab_room t c m" and "m c = Some n"
  shows "tab_ok t"
proof -
  let ?i = "unat c - unat (tmin t)"
  have i: "?i < tcount t" "lv (tnext t ! ?i)"
    using r assms(2) by (auto simp: tab_room_def tab_in_def tab_get_def split: if_splits)
  have ne: "tnext t \<noteq> []" using i by auto
  have "lv (tnext t ! j)" if "j < tcount t" "j = 0 \<or> j = tcount t - 1" for j
    using r i(2) that by (cases "j = ?i") (auto simp: tab_room_def)
  from this [of 0] this [of "tcount t - 1"] have "lv (tnext t ! 0)" "lv (tnext t ! (tcount t - 1))"
    using ne by auto
  then show ?thesis using r ne by (auto simp: tab_ok_def tab_room_def hd_conv_nth last_conv_nth)
qed

section \<open>Cutting a table down\<close>

lemma scan_SomeD: "scan xs = Some j \<Longrightarrow> j < length xs \<and> lv (xs ! j) \<and> (\<forall>k < j. xs ! k = None)"
  by (induction xs arbitrary: j rule: scan.induct) (auto simp: less_Suc_eq_0_disj)

lemma scan_ex: "i < length xs \<Longrightarrow> lv (xs ! i) \<Longrightarrow> \<exists>j. scan xs = Some j"
proof (induction xs arbitrary: i rule: scan.induct)
  case (2 xs)
  then show ?case by (cases i) auto
qed auto

lemma cnt_lv_None: "(\<And>j. j < length xs \<Longrightarrow> xs ! j = None) \<Longrightarrow> cnt lv xs = 0"
  using cnt_pos_iff [of lv xs] by (metis in_set_conv_nth lv_simps(1) neq0_conv)

text \<open>The part of a table that holds all its pointers, with a pointer at both ends.\<close>

lemma tab_slice:
  assumes bnd: "unat (tmin t) + tcount t \<le> 256" and n: "i + n \<le> tcount t" "0 < n"
    and out: "\<And>j. j < tcount t \<Longrightarrow> j < i \<or> i + n \<le> j \<Longrightarrow> tnext t ! j = None"
    and ends: "lv (tnext t ! i)" "lv (tnext t ! (i + n - 1))"
    and l: "l = cnt lv (tnext t)"
  shows "tab_ok (Tab (tmin t + of_nat i) l (take n (drop i (tnext t))))"
    "tab_get (Tab (tmin t + of_nat i) l (take n (drop i (tnext t)))) = tab_get t"
proof -
  let ?xs = "take n (drop i (tnext t))"
  let ?t = "Tab (tmin t + of_nat i) l ?xs"
  have i: "i < 256 - unat (tmin t)" using bnd n by linarith
  then have mn: "unat (tmin t + of_nat i) = unat (tmin t) + i"
    by (simp add: unat_word_ariths unat_of_nat)
  have len: "length ?xs = n" using n by simp
  have "tnext t = take i (tnext t) @ ?xs @ drop (i + n) (tnext t)"
    by (metis add.commute append_take_drop_id drop_drop)
  then have "cnt lv (tnext t) = cnt lv (take i (tnext t)) + (cnt lv ?xs + cnt lv (drop (i + n) (tnext t)))"
    by (metis cnt_simps(3))
  moreover have "cnt lv (take i (tnext t)) = 0" "cnt lv (drop (i + n) (tnext t)) = 0"
    using out by (auto intro!: cnt_lv_None)
  moreover have "?xs \<noteq> []" using n len by (metis length_greater_0_conv)
  moreover have "hd ?xs = tnext t ! i" "last ?xs = tnext t ! (i + n - 1)"
    using n len \<open>?xs \<noteq> []\<close> by (auto simp: hd_conv_nth last_conv_nth)
  ultimately show "tab_ok ?t" using bnd n ends l mn len by (simp add: tab_ok_def)
  show "tab_get ?t = tab_get t"
  proof (rule tab_get_eqI)
    fix c :: byte assume "unat (tmin ?t) \<le> unat c" "unat c < unat (tmin ?t) + tcount ?t"
    then have c: "unat (tmin t) + i \<le> unat c" "unat c < unat (tmin t) + i + n" using mn len by simp_all
    then have "tnext ?t ! (unat c - unat (tmin ?t)) = tnext t ! (i + (unat c - (unat (tmin t) + i)))"
      using mn n by simp
    also have "i + (unat c - (unat (tmin t) + i)) = unat c - unat (tmin t)" using c by simp
    finally show "tnext ?t ! (unat c - unat (tmin ?t)) = tab_get t c"
      using c n by (simp add: tab_get_def tab_in_def)
  next
    fix c :: byte assume "unat c < unat (tmin ?t) \<or> unat c \<ge> unat (tmin ?t) + tcount ?t"
    then have c: "unat c < unat (tmin t) + i \<or> unat c \<ge> unat (tmin t) + i + n" using mn len by simp
    show "tab_get t c = None"
    proof (cases "tab_in t c")
      case True
      then have "unat c - unat (tmin t) < tcount t" "unat c - unat (tmin t) < i \<or> i + n \<le> unat c - unat (tmin t)"
        using c unfolding tab_in_def by linarith+
      then show ?thesis using out by (simp add: tab_get_def)
    qed (simp add: tab_get_def)
  qed
qed

text \<open>A table with one pointer cleared; \<open>live_nodes\<close> follows.\<close>

definition tab_cut :: "'a chartab \<Rightarrow> byte \<Rightarrow> 'a chartab" where
  "tab_cut t c = tab_put (Tab (tmin t) (tlive t - 1) (tnext t)) c None"

lemma tab_cut_props:
  assumes ok: "tab_ok t" and c: "tab_get t c = Some n"
  shows "tab_get (tab_cut t c) = (tab_get t)(c := None)"
    and "tlive (tab_cut t c) = cnt lv (tnext (tab_cut t c))"
    and "tlive t = Suc (tlive (tab_cut t c))"
    and "tmin (tab_cut t c) = tmin t" "tcount (tab_cut t c) = tcount t"
    and "tnext (tab_cut t c) = (tnext t)[unat c - unat (tmin t) := None]"
    and "unat (tmin t) + tcount t \<le> 256" "unat c - unat (tmin t) < tcount t" "unat (tmin t) \<le> unat c"
    and "lv (tnext t ! 0)" "lv (tnext t ! (tcount t - 1))"
proof -
  let ?i = "unat c - unat (tmin t)" and ?t = "Tab (tmin t) (tlive t - 1) (tnext t)"
  have i: "tab_in t c" "?i < tcount t" "tnext t ! ?i = Some n"
    using c by (auto simp: tab_get_iff tab_in_def)
  have "tab_get ?t = tab_get t" by (simp add: tab_get_def tab_in_def fun_eq_iff)
  with i(1) show "tab_get (tab_cut t c) = (tab_get t)(c := None)"
    using tab_put_get [of ?t c None] by (simp add: tab_cut_def tab_in_def)
  show "tlive (tab_cut t c) = cnt lv (tnext (tab_cut t c))" "tlive t = Suc (tlive (tab_cut t c))"
    using cnt_update [OF i(2), of lv None] i(3) ok by (auto simp: tab_cut_def tab_put_def tab_ok_def)
  show "tmin (tab_cut t c) = tmin t" "tcount (tab_cut t c) = tcount t"
    "tnext (tab_cut t c) = (tnext t)[?i := None]" by (simp_all add: tab_cut_def tab_put_def)
  show "unat (tmin t) + tcount t \<le> 256" using ok by (simp add: tab_ok_def)
  show "?i < tcount t" by (fact i(2))
  show "unat (tmin t) \<le> unat c" using c by (simp add: tab_get_iff)
  have "tnext t \<noteq> []" using i(2) by auto
  with ok show "lv (tnext t ! 0)" "lv (tnext t ! (tcount t - 1))"
    by (auto simp: tab_ok_def hd_conv_nth last_conv_nth)
qed

lemma cnt_lv_one:
  "cnt lv xs = 1 \<Longrightarrow> i < length xs \<Longrightarrow> lv (xs ! i) \<Longrightarrow> j < length xs \<Longrightarrow> j \<noteq> i \<Longrightarrow> xs ! j = None"
  using cnt_one_unique [of lv xs i j] by (cases "xs ! j") auto

lemma tab_live_count:
  assumes ok: "tab_ok t" and c: "tab_get t c = Some n"
  shows "if tcount t = 1 then tlive t = 1 else tlive t > 1"
proof -
  note p = tab_cut_props [OF ok c]
  have live: "tlive t = cnt lv (tnext t)" using ok by (simp add: tab_ok_def)
  show ?thesis
  proof (cases "tcount t = 1")
    case True
    then obtain v where "tnext t = [v]" by (cases "tnext t") auto
    with p(10) live True show ?thesis by simp
  next
    case False
    have "tlive t \<noteq> 1"
    proof
      assume one: "tlive t = 1"
      have "0 < tcount t" "tcount t - 1 \<noteq> 0" using p(8) False by linarith+
      then have "tnext t ! (tcount t - 1) = None"
        using cnt_lv_one [of "tnext t" 0 "tcount t - 1"] one live p(10) by simp
      with p(11) show False by simp
    qed
    with p(3) show ?thesis using False by simp
  qed
qed

end
