(* ===== verification/Trie.thy ===== *)
theory Trie
  imports Chartab "HOL-Library.Sublist"
begin

text \<open>
  \<open>trie_t\<close> (src/libzmq/src/trie.cpp, trie.hpp): the prefix trie that \<open>xsub_t\<close> filters with.
  A node holds a 32-bit count of subscriptions and the table of theory \<open>Chartab\<close>. The
  specification of the class is a multiset of byte strings; the theory shows that \<open>add\<close>, \<open>rm\<close>,
  \<open>check\<close> and \<open>apply\<close> implement it, that no assertion of the code can fail, and that the trie never
  keeps a redundant node.
\<close>

datatype trie = Trie (trefcnt: u32) (ttab: "trie chartab")

definition trie_new :: trie where
  "trie_new = Trie 0 tab_new"

definition trie_is_redundant :: "trie \<Rightarrow> bool" where
  "trie_is_redundant t \<longleftrightarrow> trefcnt t = 0 \<and> tlive (ttab t) = 0"

text \<open>The node for a character, created if it does not exist.\<close>

definition trie_open :: "trie chartab \<Rightarrow> byte \<Rightarrow> (trie \<times> trie chartab) option" where
  "trie_open tb c =
     (let tb = tab_extend tb c in
      case tab_get tb c of
        Some n \<Rightarrow> Some (n, tb)
      | None \<Rightarrow>
          (let tb = tab_put (Tab (tmin tb) (Suc (tlive tb)) (tnext tb)) c (Some trie_new)
           in do { zmq_assert (if tcount tb = 1 then tlive tb = 1 else tlive tb > 1);
                   Some (trie_new, tb) }))"

fun trie_add :: "byte list \<Rightarrow> trie \<Rightarrow> (bool \<times> trie) option" where
  "trie_add [] t = Some (trefcnt t + 1 = 1, Trie (trefcnt t + 1) (ttab t))"
| "trie_add (c # cs) t =
     do { (n, tb) \<leftarrow> trie_open (ttab t) c;
          (r, n) \<leftarrow> trie_add cs n;
          Some (r, Trie (trefcnt t) (tab_put tb c (Some n))) }"

text \<open>Compact a table from which the node for \<open>c\<close> was removed: to a single node, from the left or
  from the right.\<close>

definition trie_compact :: "'a chartab \<Rightarrow> byte \<Rightarrow> 'a chartab option" where
  "trie_compact tb c =
     (let mn = unat (tmin tb); count = tcount tb; table = tnext tb in
      if tlive tb = 1 then
        (if unat c = mn
         then do { zmq_assert (table ! (count - 1) \<noteq> None);
                   Some (Tab (tmin tb + of_nat (count - 1)) 1 [table ! (count - 1)]) }
         else if unat c = mn + count - 1
         then do { zmq_assert (table ! 0 \<noteq> None); Some (Tab (tmin tb) 1 [table ! 0]) }
         else None)
      else if unat c = mn then
        (case scan (drop 1 table) of
           None \<Rightarrow> None
         | Some j \<Rightarrow> Some (Tab (tmin tb + of_nat (j + 1)) (tlive tb) (drop (j + 1) table)))
      else if unat c = mn + count - 1 then
        (case scan (drop 1 (rev table)) of
           None \<Rightarrow> None
         | Some j \<Rightarrow> Some (Tab (tmin tb) (tlive tb) (take (count - (j + 1)) table)))
      else Some tb)"

text \<open>Remove the pruned node for \<open>c\<close>.\<close>

definition trie_prune :: "'a chartab \<Rightarrow> byte \<Rightarrow> 'a chartab option" where
  "trie_prune tb c =
     do { zmq_assert (tcount tb > 0);
          if tcount tb = 1
          then do { zmq_assert (tlive tb = 1); Some (Tab (tmin tb) 0 []) }
          else do { zmq_assert (tlive tb > 1); trie_compact (tab_cut tb c) c } }"

fun trie_rm :: "byte list \<Rightarrow> trie \<Rightarrow> (bool \<times> trie) option" where
  "trie_rm [] t =
     (if trefcnt t = 0 then Some (False, t)
      else Some (trefcnt t - 1 = 0, Trie (trefcnt t - 1) (ttab t)))"
| "trie_rm (c # cs) t =
     (case tab_get (ttab t) c of
        None \<Rightarrow> Some (False, t)
      | Some n \<Rightarrow>
          do { (r, n) \<leftarrow> trie_rm cs n;
               if trie_is_redundant n
               then do { tb \<leftarrow> trie_prune (ttab t) c; Some (r, Trie (trefcnt t) tb) }
               else Some (r, Trie (trefcnt t) (tab_put (ttab t) c (Some n))) })"

text \<open>A NULL \<open>next.node\<close> in a one-entry table would be dereferenced.\<close>

fun trie_check :: "byte list \<Rightarrow> trie \<Rightarrow> bool option" where
  "trie_check [] t = Some (trefcnt t \<noteq> 0)"
| "trie_check (c # cs) t =
     (if trefcnt t \<noteq> 0 then Some True
      else if \<not> tab_in (ttab t) c then Some False
      else case tab_get (ttab t) c of
        None \<Rightarrow> if tcount (ttab t) = 1 then None else Some False
      | Some n \<Rightarrow> trie_check cs n)"

text \<open>
  \<open>apply\<close> calls a function for every subscription; the key is assembled in a buffer that grows
  by \<open>realloc\<close>. The buffer is a list of its capacity; a write past it is undefined behaviour.
  The size the caller knows, \<open>maxbuffsize\<close>, is passed by value down the recursion. The result
  is the buffer with the keys the function was called with. \<open>apply_table\<close> is the loop over the
  table, with \<open>ch\<close> the character of the next entry.
\<close>

definition buff_grow :: "blob \<Rightarrow> nat \<Rightarrow> nat \<Rightarrow> blob \<times> nat" where
  "buff_grow buff buffsize maxbuffsize =
     (if buffsize \<ge> maxbuffsize
      then (take (buffsize + 256) buff @ replicate (buffsize + 256 - length buff) 0, buffsize + 256)
      else (buff, maxbuffsize))"

definition buff_put :: "blob \<Rightarrow> nat \<Rightarrow> byte \<Rightarrow> blob option" where
  "buff_put buff i c = (if i < length buff then Some (buff[i := c]) else None)"

function (sequential) apply_helper :: "trie \<Rightarrow> blob \<Rightarrow> nat \<Rightarrow> nat \<Rightarrow> (blob \<times> blob list) option"
  and apply_table :: "trie option list \<Rightarrow> byte \<Rightarrow> blob \<Rightarrow> nat \<Rightarrow> nat \<Rightarrow> (blob \<times> blob list) option" where
  "apply_helper (Trie r (Tab mn l xs)) buff buffsize maxbuffsize =
     (let calls = (if r \<noteq> 0 then [take buffsize buff] else []);
          (buff, maxbuffsize) = buff_grow buff buffsize maxbuffsize
      in if xs = [] then Some (buff, calls)
         else if length xs = 1 then
           do { buff \<leftarrow> buff_put buff buffsize mn;
                (buff, calls') \<leftarrow> (case xs of [Some n] \<Rightarrow> apply_helper n buff (buffsize + 1) maxbuffsize | _ \<Rightarrow> None);
                Some (buff, calls @ calls') }
         else do { (buff, calls') \<leftarrow> apply_table xs mn buff buffsize maxbuffsize;
                   Some (buff, calls @ calls') })"
| "apply_table [] ch buff buffsize maxbuffsize = Some (buff, [])"
| "apply_table (None # xs) ch buff buffsize maxbuffsize =
     do { buff \<leftarrow> buff_put buff buffsize ch; apply_table xs (ch + 1) buff buffsize maxbuffsize }"
| "apply_table (Some n # xs) ch buff buffsize maxbuffsize =
     do { buff \<leftarrow> buff_put buff buffsize ch;
          (buff, calls) \<leftarrow> apply_helper n buff (buffsize + 1) maxbuffsize;
          (buff, calls') \<leftarrow> apply_table xs (ch + 1) buff buffsize maxbuffsize;
          Some (buff, calls @ calls') }"
  by pat_completeness auto
termination
  by (relation "measure (\<lambda>x. case x of Inl (t, _) \<Rightarrow> size t | Inr (xs, _) \<Rightarrow> size_list (size_option size) xs)")
     (auto simp: less_Suc_eq_le)

definition trie_apply :: "trie \<Rightarrow> blob list option" where
  "trie_apply t = map_option snd (apply_helper t [] 0 0)"

section \<open>Specification\<close>

text \<open>The number of subscriptions for a byte string.\<close>

fun trie_abs :: "trie \<Rightarrow> byte list \<Rightarrow> nat" where
  "trie_abs t [] = unat (trefcnt t)"
| "trie_abs t (c # cs) = (case tab_get (ttab t) c of None \<Rightarrow> 0 | Some n \<Rightarrow> trie_abs n cs)"

inductive trie_wf :: "trie \<Rightarrow> bool" where
  node: "tab_ok tb \<Longrightarrow>
    (\<And>c n. tab_get tb c = Some n \<Longrightarrow> trie_wf n) \<Longrightarrow>
    (\<And>c n. tab_get tb c = Some n \<Longrightarrow> \<not> trie_is_redundant n) \<Longrightarrow> trie_wf (Trie r tb)"

inductive_cases trie_wfE: "trie_wf (Trie r tb)"

lemma trie_wf_iff:
  "trie_wf t \<longleftrightarrow> tab_ok (ttab t) \<and> (\<forall>c n. tab_get (ttab t) c = Some n \<longrightarrow> trie_wf n \<and> \<not> trie_is_redundant n)"
proof
  assume "trie_wf t"
  then show "tab_ok (ttab t) \<and> (\<forall>c n. tab_get (ttab t) c = Some n \<longrightarrow> trie_wf n \<and> \<not> trie_is_redundant n)"
    by cases simp
next
  assume "tab_ok (ttab t) \<and> (\<forall>c n. tab_get (ttab t) c = Some n \<longrightarrow> trie_wf n \<and> \<not> trie_is_redundant n)"
  then show "trie_wf t" by (cases t) (simp, blast intro: trie_wf.node)
qed

lemma trie_new_wf [simp]: "trie_wf trie_new"
  unfolding trie_new_def by (rule trie_wf.node) auto

lemma trie_new_abs [simp]: "trie_abs trie_new k = 0"
  by (cases k) (simp_all add: trie_new_def)

text \<open>A redundant trie has no subscription, and only a redundant one has none.\<close>

lemma tab_live_ex:
  assumes "tab_ok tb" "0 < tlive tb"
  shows "\<exists>c n. tab_get tb c = Some n"
proof -
  from assms have ne: "tnext tb \<noteq> []" by (auto simp: tab_ok_def)
  then have "lv (tnext tb ! 0)" using assms(1) by (auto simp: tab_ok_def hd_conv_nth)
  then obtain n where "tnext tb ! 0 = Some n" by (auto simp: lv_def)
  with ne have "tab_get tb (tmin tb) = Some n" by (simp add: tab_get_iff)
  then show ?thesis by blast
qed

lemma tab_dead:
  assumes "tab_ok tb" "tlive tb = 0"
  shows "tab_get tb = Map.empty"
proof (rule ext, rule ccontr)
  fix c assume "tab_get tb c \<noteq> None"
  then have "tnext tb \<noteq> []" by (auto simp: tab_get_def tab_in_def split: if_splits)
  with assms show False using cnt_pos_iff [of lv "tnext tb"] by (auto simp: tab_ok_def)
qed

lemma trie_redundant_abs: "trie_wf t \<Longrightarrow> trie_is_redundant t \<longleftrightarrow> (\<forall>k. trie_abs t k = 0)"
proof (induction t rule: trie_wf.induct)
  case (node tb r)
  show ?case
  proof
    assume red: "trie_is_redundant (Trie r tb)"
    then have "tab_get tb = Map.empty" using node(1) tab_dead by (auto simp: trie_is_redundant_def)
    moreover have "trie_abs (Trie r tb) [] = 0" using red by (simp add: trie_is_redundant_def)
    ultimately show "\<forall>k. trie_abs (Trie r tb) k = 0" by (metis list.exhaust option.simps(4) trie.sel(2) trie_abs.simps(2))
  next
    assume zero: "\<forall>k. trie_abs (Trie r tb) k = 0"
    then have "r = 0" by (metis trie.sel(1) trie_abs.simps(1) unat_eq_0)
    moreover have "tlive tb = 0"
    proof (rule ccontr)
      assume "tlive tb \<noteq> 0"
      then obtain c n where n: "tab_get tb c = Some n" using tab_live_ex [OF node(1)] by auto
      then obtain k where "trie_abs n k \<noteq> 0" using node(3,4) by blast
      then have "trie_abs (Trie r tb) (c # k) \<noteq> 0" using n by simp
      with spec [OF zero, of "c # k"] show False by simp
    qed
    ultimately show "trie_is_redundant (Trie r tb)" by (simp add: trie_is_redundant_def)
  qed
qed

section \<open>Adding a subscription\<close>

lemma trie_open_ok:
  assumes ok: "tab_ok tb"
  shows "\<exists>tb'. trie_open tb c = Some ((case tab_get tb c of None \<Rightarrow> trie_new | Some n \<Rightarrow> n), tb') \<and>
    tab_ok tb' \<and> tab_get tb' = (tab_get tb)(c \<mapsto> (case tab_get tb c of None \<Rightarrow> trie_new | Some n \<Rightarrow> n))"
proof -
  let ?tb = "tab_extend tb c"
  have r: "tab_room ?tb c (tab_get tb)" by (rule tab_extend_ok [OF ok])
  then have get: "tab_get ?tb = tab_get tb" by (simp add: tab_room_def)
  show ?thesis
  proof (cases "tab_get tb c")
    case None
    let ?t = "tab_put (Tab (tmin ?tb) (Suc (tlive ?tb)) (tnext ?tb)) c (Some trie_new)"
    have t: "tab_ok ?t" "tab_get ?t = (tab_get tb)(c \<mapsto> trie_new)"
      using tab_room_fill [where c = c, OF r None] by auto
    moreover have "if tcount ?t = 1 then tlive ?t = 1 else tlive ?t > 1"
      by (rule tab_live_count [OF t(1), of c trie_new]) (simp add: t(2))
    ultimately show ?thesis using None get by (auto simp: trie_open_def Let_def)
  next
    case (Some n)
    then show ?thesis using get tab_room_full [OF r Some] by (auto simp: trie_open_def)
  qed
qed

lemma trie_wf_put:
  assumes "tab_ok tb" "tab_get tb = (tab_get (ttab t))(c := Some n)" "trie_wf t" "trie_wf m" "\<not> trie_is_redundant m"
  shows "trie_wf (Trie r (tab_put tb c (Some m)))"
    "trie_abs (Trie r (tab_put tb c (Some m))) (d # ds) = (if d = c then trie_abs m ds else trie_abs t (d # ds))"
proof -
  have tb: "tab_ok (tab_put tb c (Some m))" "tab_get (tab_put tb c (Some m)) = (tab_get (ttab t))(c \<mapsto> m)"
    using tab_put_ok [of tb c n m] assms(1,2) by auto
  have t: "trie_wf k \<and> \<not> trie_is_redundant k" if "tab_get (ttab t) d = Some k" for d k
    using assms(3) that by (subst (asm) trie_wf_iff) blast
  show "trie_wf (Trie r (tab_put tb c (Some m)))"
    by (rule trie_wf.node) (use tb t assms(4,5) in \<open>auto split: if_splits\<close>)
  show "trie_abs (Trie r (tab_put tb c (Some m))) (d # ds) = (if d = c then trie_abs m ds else trie_abs t (d # ds))"
    by (simp add: tb(2))
qed

lemma trie_wf_tab: "trie_wf t \<Longrightarrow> tab_ok (ttab t)"
  by (subst (asm) trie_wf_iff) blast

lemma trie_wf_sub: "trie_wf t \<Longrightarrow> tab_get (ttab t) c = Some n \<Longrightarrow> trie_wf n \<and> \<not> trie_is_redundant n"
  by (subst (asm) trie_wf_iff) blast

lemma trie_wf_refcnt: "trie_wf t \<Longrightarrow> trie_wf (Trie r (ttab t))"
  by (rule trie_wf.node) (auto dest: trie_wf_tab trie_wf_sub)

lemma trie_wf_nonredundant: "trie_wf t \<Longrightarrow> trie_abs t k \<noteq> 0 \<Longrightarrow> \<not> trie_is_redundant t"
  using trie_redundant_abs [of t] by auto

lemma word_inc_one: "unat (n :: u32) + 1 < 2 ^ 32 \<Longrightarrow> unat (n + 1) = unat n + 1 \<and> (n + 1 = 1 \<longleftrightarrow> unat n = 0)"
  by (auto simp: unat_word_ariths unat_eq_0)

lemma trie_add_ok:
  "trie_wf t \<Longrightarrow> trie_abs t k + 1 < 2 ^ 32 \<Longrightarrow>
   \<exists>t'. trie_add k t = Some (trie_abs t k = 0, t') \<and> trie_wf t' \<and>
        trie_abs t' = (trie_abs t)(k := trie_abs t k + 1)"
proof (induction k arbitrary: t)
  case Nil
  have "trie_abs (Trie (trefcnt t + 1) (ttab t)) k = ((trie_abs t)([] := trie_abs t [] + 1)) k" for k
    using Nil word_inc_one [of "trefcnt t"] by (cases k) auto
  then show ?case using Nil word_inc_one [of "trefcnt t"] by (auto intro: trie_wf_refcnt)
next
  case (Cons c cs)
  define n where "n = (case tab_get (ttab t) c of None \<Rightarrow> trie_new | Some n \<Rightarrow> n)"
  obtain tb where tb: "trie_open (ttab t) c = Some (n, tb)" "tab_ok tb" "tab_get tb = (tab_get (ttab t))(c \<mapsto> n)"
    using trie_open_ok [OF trie_wf_tab [OF Cons.prems(1)], of c] by (auto simp: n_def)
  have n: "trie_wf n" "trie_abs n ds = trie_abs t (c # ds)" for ds
    using trie_wf_sub [OF Cons.prems(1)] by (auto simp: n_def split: option.split)
  from Cons.IH [OF n(1)] Cons.prems(2) [folded n(2)] obtain m where
    m: "trie_add cs n = Some (trie_abs n cs = 0, m)" "trie_wf m" "trie_abs m = (trie_abs n)(cs := trie_abs n cs + 1)"
    by blast
  have red: "\<not> trie_is_redundant m" using trie_wf_nonredundant [OF m(2), of cs] m(3) by simp
  let ?t = "Trie (trefcnt t) (tab_put tb c (Some m))"
  note put = trie_wf_put [OF tb(2,3) Cons.prems(1) m(2) red, of "trefcnt t"]
  have "trie_abs ?t k = ((trie_abs t)(c # cs := trie_abs t (c # cs) + 1)) k" for k
    by (cases k) (auto simp: put(2) m(3) n(2) simp del: trie_abs.simps(2))
  then show ?case using put(1) tb(1) m(1) [unfolded n(2)] by (auto simp del: trie_abs.simps(2))
qed

section \<open>Removing a subscription\<close>

lemma trie_compact_ok:
  assumes ok: "tab_ok tb" and c: "tab_get tb c = Some n" and many: "tcount tb \<noteq> 1"
  shows "\<exists>tb'. trie_compact (tab_cut tb c) c = Some tb' \<and> tab_ok tb' \<and> tab_get tb' = (tab_get tb)(c := None)"
proof -
  note p = tab_cut_props [OF ok c]
  let ?t = "tab_cut tb c" and ?i = "unat c - unat (tmin tb)" and ?n = "tcount tb"
  have n2: "2 \<le> ?n" using many p(8) by linarith
  then have ne: "tnext tb \<noteq> []" and e: "Suc (?n - 2) = ?n - 1" "?n - 2 < ?n - 1" by auto
  have live: "0 < tlive ?t" using tab_live_count [OF ok c] many p(3) by simp
  have at: "j < ?n \<Longrightarrow> tnext ?t ! j = (if j = ?i then None else tnext tb ! j)" for j
    using p(6,8) by (simp add: nth_list_update)
  have c_min: "unat c = unat (tmin ?t) \<longleftrightarrow> ?i = 0" and c_max: "unat c = unat (tmin ?t) + tcount ?t - 1 \<longleftrightarrow> ?i = ?n - 1"
    using p(4,5,8,9) by auto
  have slice: "\<exists>tb'. Some (Tab (tmin ?t + of_nat i) (tlive ?t) (take k (drop i (tnext ?t)))) = Some tb' \<and>
      tab_ok tb' \<and> tab_get tb' = (tab_get tb)(c := None)"
    if "i + k \<le> ?n" "0 < k" "\<And>j. j < ?n \<Longrightarrow> j < i \<or> i + k \<le> j \<Longrightarrow> tnext ?t ! j = None"
      "lv (tnext ?t ! i)" "lv (tnext ?t ! (i + k - 1))" for i k
    using tab_slice [of ?t i k "tlive ?t"] that p(1,2,4,5,7) by auto
  show ?thesis
  proof (cases "tlive ?t = 1")
    case one: True
    then have uniq: "j < ?n \<Longrightarrow> lv (tnext ?t ! j) \<Longrightarrow> j' < ?n \<Longrightarrow> j' \<noteq> j \<Longrightarrow> tnext ?t ! j' = None" for j j'
      using cnt_lv_one [of "tnext ?t" j j'] p(2,5) by simp
    show ?thesis
    proof (cases "?i = 0")
      case True
      then have l: "lv (tnext ?t ! (?n - 1))" using at [of "?n - 1"] n2 p(11) by simp
      have "take 1 (drop (?n - 1) (tnext ?t)) = [tnext ?t ! (?n - 1)]"
        using Cons_nth_drop_Suc [of "?n - 1" "tnext ?t"] n2 p(5) by simp
      then have eq: "trie_compact ?t c = Some (Tab (tmin ?t + of_nat (?n - 1)) (tlive ?t) (take 1 (drop (?n - 1) (tnext ?t))))"
        using True one c_min l by (simp add: trie_compact_def Let_def p(5) lv_def)
      have "tnext ?t ! j = None" if "j < ?n" "j < ?n - 1 \<or> ?n - 1 + 1 \<le> j" for j
        using uniq [OF _ l, of j] that n2 by linarith
      with n2 l show ?thesis unfolding eq by (intro slice) auto
    next
      case False
      have l: "lv (tnext ?t ! 0)" using at [of 0] n2 p(10) False ne by simp
      have "?i = ?n - 1"
      proof (rule ccontr)
        assume "?i \<noteq> ?n - 1"
        then have "lv (tnext ?t ! (?n - 1))" using at [of "?n - 1"] n2 p(11) by simp
        with uniq [OF _ l, of "?n - 1"] n2 ne show False by simp
      qed
      moreover have "take 1 (drop 0 (tnext ?t)) = [tnext ?t ! 0]"
        using n2 p(5) by (cases "tnext ?t") auto
      ultimately have eq: "trie_compact ?t c = Some (Tab (tmin ?t + of_nat 0) (tlive ?t) (take 1 (drop 0 (tnext ?t))))"
        using False one c_min c_max l by (simp add: trie_compact_def Let_def lv_def)
      show ?thesis unfolding eq using uniq [OF _ l] n2 l ne by (intro slice) auto
    qed
  next
    case more: False
    consider "?i = 0" | "?i = ?n - 1" "?i \<noteq> 0" | "?i \<noteq> 0" "?i \<noteq> ?n - 1" by blast
    then show ?thesis
    proof cases
      case 1
      then have l: "lv (tnext ?t ! (?n - 1))" using at [of "?n - 1"] n2 p(11) by simp
      obtain j where s: "scan (drop 1 (tnext ?t)) = Some j"
        using scan_ex [of "?n - 2" "drop 1 (tnext ?t)"] l e p(5) by auto
      have j: "j + 1 < ?n" "lv (tnext ?t ! (j + 1))" "\<And>k. k < j \<Longrightarrow> tnext ?t ! (k + 1) = None"
        using scan_SomeD [OF s] p(5) by auto
      have "j' < j + 1 \<Longrightarrow> tnext ?t ! j' = None" for j'
        using j(1) j(3) [of "j' - 1"] at [of 0] 1 n2 ne by (cases j') auto
      moreover have eq: "trie_compact ?t c = Some (Tab (tmin ?t + of_nat (j + 1)) (tlive ?t)
          (take (?n - (j + 1)) (drop (j + 1) (tnext ?t))))"
        using 1 c_min more s p(5) by (simp add: trie_compact_def Let_def)
      ultimately show ?thesis unfolding eq using j(1,2) l by (intro slice) auto
    next
      case 2
      then have l: "lv (tnext ?t ! 0)" using at [of 0] n2 p(10) ne by simp
      have rv: "drop 1 (rev (tnext ?t)) ! k = tnext ?t ! (?n - 2 - k)" if "k < ?n - 1" for k
        using that p(5) by (simp add: rev_nth numeral_2_eq_2)
      obtain j where s: "scan (drop 1 (rev (tnext ?t))) = Some j"
        using scan_ex [of "?n - 2" "drop 1 (rev (tnext ?t))"] rv [of "?n - 2"] l e p(5) by auto
      have j: "j < ?n - 1" "lv (tnext ?t ! (?n - 2 - j))" "\<And>k. k < j \<Longrightarrow> tnext ?t ! (?n - 2 - k) = None"
        using scan_SomeD [OF s] rv p(5) by auto
      have "tnext ?t ! j' = None" if "j' < ?n" "?n - (j + 1) \<le> j'" for j'
      proof (cases "j' = ?n - 1")
        case True
        then show ?thesis using at [of "?n - 1"] 2 that by simp
      next
        case False
        then have "?n - 2 - j' < j" "?n - 2 - (?n - 2 - j') = j'" using that n2 by linarith+
        then show ?thesis using j(3) [of "?n - 2 - j'"] by simp
      qed
      moreover have eq: "trie_compact ?t c = Some (Tab (tmin ?t + of_nat 0) (tlive ?t)
          (take (?n - (j + 1)) (drop 0 (tnext ?t))))"
        using 2 c_min c_max more s p(5) by (simp add: trie_compact_def Let_def)
      moreover have "0 + (?n - (j + 1)) - 1 = ?n - 2 - j" by simp
      ultimately show ?thesis unfolding eq using j(1,2) l by (intro slice) auto
    next
      case 3
      then have "lv (tnext ?t ! 0)" "lv (tnext ?t ! (?n - 1))" using at [of 0] at [of "?n - 1"] n2 p(10,11) ne by auto
      with slice [of 0 ?n] n2 ne p(5) have "tab_ok ?t" by (cases ?t) auto
      then show ?thesis using 3 c_min c_max more p(1) by (auto simp: trie_compact_def Let_def)
    qed
  qed
qed

lemma trie_prune_ok:
  assumes ok: "tab_ok tb" and c: "tab_get tb c = Some n"
  shows "\<exists>tb'. trie_prune tb c = Some tb' \<and> tab_ok tb' \<and> tab_get tb' = (tab_get tb)(c := None)"
proof (cases "tcount tb = 1")
  case True
  note p = tab_cut_props [OF ok c]
  have "tab_get tb d = None" if "d \<noteq> c" for d
    using c that True by (auto simp: tab_get_def tab_in_def byte_eq_iff split: if_splits)
  moreover have "tab_get (Tab (tmin tb) 0 []) = Map.empty" by (auto simp: tab_get_def tab_in_def fun_eq_iff)
  moreover have "tab_ok (Tab (tmin tb) 0 [])" using p(7) by (simp add: tab_ok_def)
  ultimately show ?thesis using True tab_live_count [OF ok c]
    by (auto simp: trie_prune_def fun_eq_iff)
next
  case False
  have "tnext tb \<noteq> []" using tab_cut_props(8) [OF ok c] by auto
  with False trie_compact_ok [OF ok c False] tab_live_count [OF ok c] show ?thesis
    by (auto simp: trie_prune_def)
qed

lemma trie_rm_ok:
  "trie_wf t \<Longrightarrow>
   \<exists>t'. trie_rm k t = Some (trie_abs t k = 1, t') \<and> trie_wf t' \<and>
        trie_abs t' = (trie_abs t)(k := trie_abs t k - 1)"
proof (induction k arbitrary: t)
  case Nil
  show ?case
  proof (cases "trefcnt t = 0")
    case True
    then show ?thesis using Nil by (auto simp: fun_eq_iff)
  next
    case False
    then have u: "unat (trefcnt t - 1) = unat (trefcnt t) - 1" by (simp add: unat_minus_one)
    have "trie_abs (Trie (trefcnt t - 1) (ttab t)) k = ((trie_abs t)([] := trie_abs t [] - 1)) k" for k
      using u by (cases k) auto
    moreover have "trefcnt t - 1 = 0 \<longleftrightarrow> unat (trefcnt t) = 1"
      using False by (metis eq_iff_diff_eq_0 unat_1 word_unat_eq_iff)
    ultimately show ?thesis using Nil False by (auto intro: trie_wf_refcnt)
  qed
next
  case (Cons c cs)
  show ?case
  proof (cases "tab_get (ttab t) c")
    case None
    then show ?thesis using Cons.prems by (auto simp: fun_eq_iff)
  next
    case (Some n)
    have n: "trie_wf n" "trie_abs n ds = trie_abs t (c # ds)" for ds
      using trie_wf_sub [OF Cons.prems Some] Some by auto
    from Cons.IH [OF n(1)] obtain m where m: "trie_rm cs n = Some (trie_abs n cs = 1, m)" "trie_wf m"
      "trie_abs m = (trie_abs n)(cs := trie_abs n cs - 1)" by blast
    show ?thesis
    proof (cases "trie_is_redundant m")
      case True
      then have z: "trie_abs m k = 0" for k using trie_redundant_abs [OF m(2)] by blast
      from trie_prune_ok [OF trie_wf_tab [OF Cons.prems] Some] obtain tb where
        tb: "trie_prune (ttab t) c = Some tb" "tab_ok tb" "tab_get tb = (tab_get (ttab t))(c := None)" by blast
      have "trie_wf (Trie (trefcnt t) tb)"
        by (rule trie_wf.node) (use tb trie_wf_sub [OF Cons.prems] in \<open>auto split: if_splits\<close>)
      moreover have "trie_abs (Trie (trefcnt t) tb) k = ((trie_abs t)(c # cs := trie_abs t (c # cs) - 1)) k" for k
      proof (cases k)
        case (Cons d ds)
        then show ?thesis using z [of ds] m(3) Some tb(3) by (auto split: if_splits)
      qed simp
      ultimately show ?thesis using Some m(1) True tb(1) by auto
    next
      case False
      note put = trie_wf_put [OF trie_wf_tab [OF Cons.prems] _ Cons.prems m(2) False, of c n "trefcnt t"]
      have "(tab_get (ttab t)) = (tab_get (ttab t))(c := Some n)" using Some by auto
      note put = put [OF this]
      have "trie_abs (Trie (trefcnt t) (tab_put (ttab t) c (Some m))) k =
          ((trie_abs t)(c # cs := trie_abs t (c # cs) - 1)) k" for k
        by (cases k) (auto simp: put(2) m(3) n(2) simp del: trie_abs.simps(2))
      then show ?thesis using put(1) Some m(1) False by auto
    qed
  qed
qed

lemma trie_check_ok:
  "trie_wf t \<Longrightarrow> trie_check d t = Some (\<exists>k. prefix k d \<and> trie_abs t k \<noteq> 0)"
proof (induction d arbitrary: t)
  case Nil
  then show ?case by (auto simp: unat_gt_0)
next
  case (Cons c cs)
  show ?case
  proof (cases "trefcnt t = 0")
    case False
    then have "prefix [] (c # cs) \<and> trie_abs t [] \<noteq> 0" by (simp add: unat_eq_0)
    then have "\<exists>k. prefix k (c # cs) \<and> trie_abs t k \<noteq> 0" by blast
    with False show ?thesis by auto
  next
    case True
    have ex: "(\<exists>k. prefix k (c # cs) \<and> trie_abs t k \<noteq> 0) \<longleftrightarrow> (\<exists>k. prefix k cs \<and> trie_abs t (c # k) \<noteq> 0)"
      using True by (auto simp: prefix_Cons)
    show ?thesis
    proof (cases "tab_get (ttab t) c")
      case (Some n)
      moreover from this have "tab_in (ttab t) c" by (simp add: tab_get_def split: if_splits)
      ultimately show ?thesis
        using True Cons.IH [of n] trie_wf_sub [OF Cons.prems Some] ex by simp
    next
      case None
      have "\<not> (tcount (ttab t) = 1 \<and> tab_in (ttab t) c)"
      proof
        assume a: "tcount (ttab t) = 1 \<and> tab_in (ttab t) c"
        then obtain v where "tnext (ttab t) = [v]" by (cases "tnext (ttab t)") auto
        with a None trie_wf_tab [OF Cons.prems] show False
          by (auto simp: tab_get_def tab_ok_def tab_in_def)
      qed
      with None True ex show ?thesis by auto
    qed
  qed
qed

section \<open>Enumerating the subscriptions\<close>

lemma tab_get_Cons:
  assumes "unat ch + Suc (length xs) \<le> 256"
  shows "tab_get (Tab ch l (v # xs)) = (tab_get (Tab (ch + 1) l xs))(ch := v)"
proof (cases "unat ch = 255")
  case True
  then have "xs = []" using assms by simp
  then show ?thesis using True
    by (auto simp: tab_get_def tab_in_def fun_eq_iff byte_eq_iff)
next
  case False
  then have u: "unat (ch + 1) = Suc (unat ch)"
    using unat_byte_less [of ch] by (simp add: unat_word_ariths)
  show ?thesis
    by (rule tab_get_eqI) (auto simp: tab_get_def tab_in_def u byte_eq_iff nth_Cons' Suc_diff_Suc not_less_eq_eq)
qed

definition table_keys :: "(byte \<rightharpoonup> trie) \<Rightarrow> blob set" where
  "table_keys m = {c # k | c k n. m c = Some n \<and> trie_abs n k \<noteq> 0}"

text \<open>What a call of the helper with the key \<open>take buffsize buff\<close> collected so far does.\<close>

definition apply_ok :: "trie \<Rightarrow> bool" where
  "apply_ok t \<longleftrightarrow> (\<forall>buff bs mx. bs \<le> length buff \<longrightarrow> mx \<le> length buff \<longrightarrow>
     (\<exists>buff' ks. apply_helper t buff bs mx = Some (buff', map ((@) (take bs buff)) ks) \<and>
        take bs buff' = take bs buff \<and> bs \<le> length buff' \<and> mx \<le> length buff' \<and>
        distinct ks \<and> set ks = {k. trie_abs t k \<noteq> 0}))"

lemma take_update: "i < length b \<Longrightarrow> take (Suc i) (b[i := c]) = take i b @ [c]"
  by (simp add: take_Suc_conv_app_nth)

lemma table_keys_upd: "m c = None \<Longrightarrow> table_keys (m(c := None)) = table_keys m"
  by (simp add: fun_upd_idem)

lemma table_keys_Some:
  "m c = None \<Longrightarrow> table_keys (m(c \<mapsto> n)) = Cons c ` {k. trie_abs n k \<noteq> 0} \<union> table_keys m"
  by (force simp: table_keys_def split: if_splits)

lemma apply_table_ok:
  assumes "\<And>n. Some n \<in> set xs \<Longrightarrow> apply_ok n" "unat ch + length xs \<le> 256"
    "bs < mx" "mx \<le> length buff"
  shows "\<exists>buff' ks. apply_table xs ch buff bs mx = Some (buff', map ((@) (take bs buff)) ks) \<and>
     take bs buff' = take bs buff \<and> mx \<le> length buff' \<and> distinct ks \<and> set ks = table_keys (tab_get (Tab ch 0 xs))"
  using assms
proof (induction xs arbitrary: ch buff)
  case Nil
  then show ?case by (auto simp: table_keys_def tab_get_def tab_in_def)
next
  case (Cons v xs)
  let ?b = "buff[bs := ch]"
  have put: "buff_put buff bs ch = Some ?b" using Cons.prems by (simp add: buff_put_def)
  have none: "tab_get (Tab (ch + 1) 0 xs) ch = None"
  proof (cases "unat ch = 255")
    case True
    then show ?thesis using Cons.prems(2) by (auto simp: tab_get_def tab_in_def)
  next
    case False
    then have "unat (ch + 1) = Suc (unat ch)" using unat_byte_less [of ch] by (simp add: unat_word_ariths)
    then show ?thesis by (simp add: tab_get_def tab_in_def)
  qed
  have bnd: "xs = [] \<or> unat (ch + 1) + length xs \<le> 256"
    using Cons.prems(2) by (auto simp: unat_word_ariths)
  have bnd': "unat (ch + 1) + length xs \<le> 256"
    using bnd unat_byte_less [of "ch + 1"] by auto
  have get: "tab_get (Tab ch 0 (v # xs)) = (tab_get (Tab (ch + 1) 0 xs))(ch := v)"
    using tab_get_Cons [of ch xs 0 v] Cons.prems(2) by simp
  have tk: "take bs ?b = take bs buff" by simp
  show ?case
  proof (cases v)
    case None
    from Cons.IH [of "ch + 1" ?b] Cons.prems bnd' obtain b' ks where
      "apply_table xs (ch + 1) ?b bs mx = Some (b', map ((@) (take bs buff)) ks)" "take bs b' = take bs buff"
      "mx \<le> length b'" "distinct ks" "set ks = table_keys (tab_get (Tab (ch + 1) 0 xs))" by auto
    with None put get none table_keys_upd [of "tab_get (Tab (ch + 1) 0 xs)" ch] show ?thesis
      by (intro exI [of _ b'] exI [of _ ks]) (simp del: fun_upd_apply)
  next
    case (Some n)
    then have "apply_ok n" using Cons.prems(1) by simp
    moreover have "bs + 1 \<le> length ?b" "mx \<le> length ?b" using Cons.prems by simp_all
    ultimately obtain b1 k1 where b1: "apply_helper n ?b (bs + 1) mx = Some (b1, map ((@) (take (bs + 1) ?b)) k1)"
      "take (bs + 1) b1 = take (bs + 1) ?b" "mx \<le> length b1" "distinct k1" "set k1 = {k. trie_abs n k \<noteq> 0}"
      unfolding apply_ok_def by blast
    have b1t: "take bs b1 = take bs buff"
      using arg_cong [OF b1(2), of "take bs"] by simp
    have m1: "map ((@) (take (bs + 1) ?b)) k1 = map ((@) (take bs buff)) (map (Cons ch) k1)"
      using Cons.prems by (simp add: take_update)
    from Cons.IH [of "ch + 1" b1] Cons.prems bnd' b1(3) obtain b2 k2 where b2:
      "apply_table xs (ch + 1) b1 bs mx = Some (b2, map ((@) (take bs b1)) k2)" "take bs b2 = take bs b1"
      "mx \<le> length b2" "distinct k2" "set k2 = table_keys (tab_get (Tab (ch + 1) 0 xs))" by auto
    have "distinct (map (Cons ch) k1 @ k2)"
      using b1(4) b2(4,5) none by (auto simp: distinct_map table_keys_def)
    moreover have "set (map (Cons ch) k1 @ k2) = table_keys (tab_get (Tab ch 0 (v # xs)))"
      using b1(5) b2(5) Some get none table_keys_Some [of "tab_get (Tab (ch + 1) 0 xs)" ch n] by simp
    moreover have "apply_table (v # xs) ch buff bs mx = Some (b2, map ((@) (take bs buff)) (map (Cons ch) k1 @ k2))"
      using Some put b1(1) b2(1) b1t m1 by simp
    ultimately show ?thesis using b2(2,3) b1t
      by (intro exI [of _ b2] exI [of _ "map (Cons ch) k1 @ k2"]) (simp del: map_append)
  qed
qed

lemma buff_grow_ok:
  assumes "bs \<le> length buff" "mx \<le> length buff" "buff_grow buff bs mx = (b, m)"
  shows "take bs b = take bs buff" "bs < m" "m \<le> length b" "mx \<le> m"
  using assms by (auto simp: buff_grow_def split: if_splits)

lemma apply_helper_ok: "trie_wf t \<Longrightarrow> apply_ok t"
proof (induction t rule: trie_wf.induct)
  case (node tb r)
  obtain mn l xs where tb: "tb = Tab mn l xs" by (cases tb)
  have bnd: "unat mn + length xs \<le> 256" and ends: "xs \<noteq> [] \<Longrightarrow> lv (hd xs)"
    using node(1) by (auto simp: tab_ok_def tb)
  have sub: "apply_ok n" if "Some n \<in> set xs" for n
  proof -
    from that obtain j where j: "j < length xs" "xs ! j = Some n" by (auto simp: in_set_conv_nth)
    then have "unat (mn + of_nat j) = unat mn + j"
      using bnd by (simp add: unat_word_ariths unat_of_nat)
    with j have "tab_get tb (mn + of_nat j) = Some n" by (simp add: tab_get_iff tb)
    then show ?thesis using node(2-) by blast
  qed
  have tabget: "tab_get (Tab mn 0 xs) = tab_get tb" by (simp add: tb tab_get_def tab_in_def fun_eq_iff)
  have keys: "{k. trie_abs (Trie r tb) k \<noteq> 0} = (if r \<noteq> 0 then {[]} else {}) \<union> table_keys (tab_get tb)"
  proof (rule set_eqI)
    fix k show "k \<in> {k. trie_abs (Trie r tb) k \<noteq> 0} \<longleftrightarrow> k \<in> (if r \<noteq> 0 then {[]} else {}) \<union> table_keys (tab_get tb)"
      by (cases k) (auto simp: table_keys_def unat_gt_0 split: option.splits)
  qed
  have nil: "[] \<notin> table_keys m" for m by (simp add: table_keys_def)
  show ?case unfolding apply_ok_def
  proof (intro allI impI)
    fix buff :: blob and bs mx :: nat
    assume len: "bs \<le> length buff" "mx \<le> length buff"
    obtain b m where g: "buff_grow buff bs mx = (b, m)" by force
    note gr = buff_grow_ok [OF len g]
    from apply_table_ok [of xs mn bs m b] sub bnd gr obtain b' ks where ks:
      "apply_table xs mn b bs m = Some (b', map ((@) (take bs b)) ks)" "take bs b' = take bs b" "m \<le> length b'"
      "distinct ks" "set ks = table_keys (tab_get tb)" unfolding tabget by blast
    let ?ks = "(if r \<noteq> 0 then [[]] else []) @ ks"
    have "apply_helper (Trie r tb) buff bs mx = Some (b', map ((@) (take bs buff)) ?ks)"
    proof (cases "length xs = 1")
      case True
      then obtain n where "xs = [Some n]" using ends by (cases xs) (auto simp: lv_def)
      with ks(1) gr(1) g show ?thesis
        by (auto simp: tb bind_eq_Some_conv)
    next
      case False
      with ks(1) gr(1) g show ?thesis by (auto simp: tb)
    qed
    moreover have "distinct ?ks" using ks(4,5) nil by simp
    moreover have "set ?ks = {k. trie_abs (Trie r tb) k \<noteq> 0}" using keys ks(5) by simp
    ultimately show "\<exists>buff' ks. apply_helper (Trie r tb) buff bs mx = Some (buff', map ((@) (take bs buff)) ks) \<and>
        take bs buff' = take bs buff \<and> bs \<le> length buff' \<and> mx \<le> length buff' \<and>
        distinct ks \<and> set ks = {k. trie_abs (Trie r tb) k \<noteq> 0}"
      using ks(2,3) gr by (intro exI [of _ b'] exI [of _ ?ks]) auto
  qed
qed

section \<open>Properties\<close>

text \<open>The subscriptions after a sequence of operations: \<open>(True, k)\<close> adds, \<open>(False, k)\<close> removes.\<close>

fun trie_run :: "(bool \<times> blob) list \<Rightarrow> trie \<Rightarrow> (bool list \<times> trie) option" where
  "trie_run [] t = Some ([], t)"
| "trie_run ((b, k) # ops) t =
     do { (r, t) \<leftarrow> (if b then trie_add k t else trie_rm k t);
          (rs, t) \<leftarrow> trie_run ops t;
          Some (r # rs, t) }"

fun subs_run :: "(bool \<times> blob) list \<Rightarrow> (blob \<Rightarrow> nat) \<Rightarrow> bool list \<times> (blob \<Rightarrow> nat)" where
  "subs_run [] m = ([], m)"
| "subs_run ((b, k) # ops) m =
     (let (rs, m') = subs_run ops (m(k := if b then m k + 1 else m k - 1))
      in ((if b then m k = 0 else m k = 1) # rs, m'))"

lemma trie_run_ok:
  assumes "trie_wf t" "\<And>k. trie_abs t k + length ops < 2 ^ 32"
  shows "\<exists>t'. trie_run ops t = Some (fst (subs_run ops (trie_abs t)), t') \<and> trie_wf t' \<and>
           trie_abs t' = snd (subs_run ops (trie_abs t))"
  using assms
proof (induction ops arbitrary: t)
  case (Cons op ops)
  obtain b k where op: "op = (b, k)" by force
  define m where "m = (trie_abs t)(k := if b then trie_abs t k + 1 else trie_abs t k - 1)"
  obtain t1 where t1: "(if b then trie_add k t else trie_rm k t) =
      Some ((if b then trie_abs t k = 0 else trie_abs t k = 1), t1)" "trie_wf t1" "trie_abs t1 = m"
    using trie_add_ok [OF Cons.prems(1), of k] trie_rm_ok [OF Cons.prems(1), of k] Cons.prems(2) [of k]
    unfolding m_def by (cases b) auto
  have "trie_abs t1 j + length ops < 2 ^ 32" for j
    using Cons.prems(2) [of j] Cons.prems(2) [of k] by (auto simp: t1(3) m_def)
  from Cons.IH [OF t1(2) this] obtain t2 where "trie_run ops t1 = Some (fst (subs_run ops m), t2)" "trie_wf t2"
    "trie_abs t2 = snd (subs_run ops m)" unfolding t1(3) by blast
  with t1(1) show ?case by (auto simp: op m_def case_prod_beta Let_def)
qed simp

text \<open>C30: The trie implements a multiset of subscriptions: after any sequence of fewer than
  2^32 subscribe and unsubscribe operations no assertion has failed, every operation returned
  what the multiset says (true exactly for the first subscription to a topic and for the last
  unsubscription), \<open>check\<close> accepts a message exactly when some subscribed topic is a prefix of
  it, and no redundant node is left.\<close>

theorem trie_refines_subscriptions:
  assumes "length ops < 2 ^ 32"
  shows "\<exists>t. trie_run ops trie_new = Some (fst (subs_run ops (\<lambda>_. 0)), t) \<and> trie_wf t \<and>
     (\<forall>d. trie_check d t = Some (\<exists>k. prefix k d \<and> snd (subs_run ops (\<lambda>_. 0)) k \<noteq> 0))"
proof -
  have z: "trie_abs trie_new = (\<lambda>_. 0)" by (rule ext) simp
  from trie_run_ok [OF trie_new_wf, of ops] assms obtain t where
    "trie_run ops trie_new = Some (fst (subs_run ops (\<lambda>_. 0)), t)" "trie_wf t"
    "trie_abs t = snd (subs_run ops (\<lambda>_. 0))" unfolding z by auto
  with trie_check_ok [of t] show ?thesis by auto
qed

theorem trie_refines_subscriptions_witness:
  "(\<exists>t. trie_run [(True, [1, 2]), (True, [1, 9]), (True, [1, 2]), (False, [1, 2]), (False, [1, 9])] trie_new =
        Some ([True, True, False, False, True], t) \<and> trie_check [1, 2, 3] t = Some True \<and>
        trie_check [1, 9] t = Some False)"
proof -
  let ?ops = "[(True, [1, 2]), (True, [1, 9]), (True, [1, 2]), (False, [1, 2]), (False, [1, 9])] :: (bool \<times> blob) list"
  obtain t where t: "trie_run ?ops trie_new = Some (fst (subs_run ?ops (\<lambda>_. 0)), t)"
    "\<forall>d. trie_check d t = Some (\<exists>k. prefix k d \<and> snd (subs_run ?ops (\<lambda>_. 0)) k \<noteq> 0)"
    using trie_refines_subscriptions [of ?ops] by auto
  have "fst (subs_run ?ops (\<lambda>_. 0)) = [True, True, False, False, True]" by code_simp
  moreover have m: "snd (subs_run ?ops (\<lambda>_. 0)) k = (if k = [1, 2] then 1 else 0)" for k by simp
  have "trie_check [1, 2, 3] t = Some True" using spec [OF t(2), of "[1, 2, 3]"] unfolding m by auto
  moreover have "trie_check [1, 9] t = Some False" using spec [OF t(2), of "[1, 9]"] unfolding m by auto
  ultimately show ?thesis using t(1) by auto
qed

lemma trie_apply_ok:
  assumes "trie_wf t"
  shows "\<exists>ks. trie_apply t = Some ks \<and> distinct ks \<and> set ks = {k. trie_abs t k \<noteq> 0}"
proof -
  from apply_helper_ok [OF assms] have "\<exists>b ks. apply_helper t [] 0 0 = Some (b, map ((@) (take 0 [])) ks) \<and>
      distinct ks \<and> set ks = {k. trie_abs t k \<noteq> 0}"
    unfolding apply_ok_def by (metis bot_nat_0.extremum)
  then show ?thesis by (auto simp: trie_apply_def map_idI)
qed

text \<open>\<open>apply\<close> reports every subscribed topic exactly once and nothing else, and never writes
  outside the buffer in which it assembles the topics, although the recursion passes the size of
  the buffer by value while deeper calls reallocate it.\<close>

theorem trie_apply_enumerates:
  assumes "length ops < 2 ^ 32" "trie_run ops trie_new = Some (rs, t)"
  shows "\<exists>ks. trie_apply t = Some ks \<and> distinct ks \<and> set ks = {k. snd (subs_run ops (\<lambda>_. 0)) k \<noteq> 0}"
proof -
  have z: "trie_abs trie_new = (\<lambda>_. 0)" by (rule ext) simp
  from trie_run_ok [OF trie_new_wf, of ops] assms have t: "trie_wf t" "trie_abs t = snd (subs_run ops (\<lambda>_. 0))"
    unfolding z by auto
  from trie_apply_ok [OF t(1)] show ?thesis unfolding t(2) .
qed

theorem trie_apply_enumerates_witness:
  "\<exists>rs t ks. trie_run [(True, [1, 2]), (True, [7]), (True, [1]), (False, [7])] trie_new = Some (rs, t) \<and>
     trie_apply t = Some ks \<and> distinct ks \<and> set ks = {[1], [1, 2]}"
proof -
  let ?ops = "[(True, [1, 2]), (True, [7]), (True, [1]), (False, [7])] :: (bool \<times> blob) list"
  have "trie_run ?ops trie_new \<noteq> None" by code_simp
  then obtain rs t where r: "trie_run ?ops trie_new = Some (rs, t)" by auto
  have "{k. snd (subs_run ?ops (\<lambda>_. 0)) k \<noteq> 0} = {[1], [1, 2]}" by auto
  with trie_apply_enumerates [OF _ r] r show ?thesis by auto
qed

end
