(* ===== verification/Mtrie.thy ===== *)
theory Mtrie
  imports Trie
begin

text \<open>
  \<open>mtrie_t\<close> (src/libzmq/src/mtrie.cpp, mtrie.hpp): the trie with which \<open>xpub_t\<close> keeps the
  subscriptions of every peer. A node holds the set of pipes subscribed to its prefix, or NULL.
  The specification is a function from topics to sets of pipes. The theory shows what the class
  promises, and which calls abort the process: removing a subscription a pipe does not hold from a
  topic that another pipe is subscribed to.
\<close>

text \<open>A \<open>std::set\<close> of pipe pointers is the sorted list of its elements; \<open>None\<close> is the NULL pointer.\<close>

datatype mtrie = Mtrie (mpipes: "addr list option") (mtab: "mtrie chartab")

definition mtrie_new :: mtrie where
  "mtrie_new = Mtrie None tab_new"

definition mtrie_is_redundant :: "mtrie \<Rightarrow> bool" where
  "mtrie_is_redundant t \<longleftrightarrow> mpipes t = None \<and> tlive (mtab t) = 0"

definition mtrie_open :: "mtrie chartab \<Rightarrow> byte \<Rightarrow> mtrie \<times> mtrie chartab" where
  "mtrie_open tb c =
     (let tb = tab_extend tb c in
      case tab_get tb c of
        Some n \<Rightarrow> (n, tb)
      | None \<Rightarrow> (mtrie_new, tab_put (Tab (tmin tb) (Suc (tlive tb)) (tnext tb)) c (Some mtrie_new)))"

fun mtrie_add :: "byte list \<Rightarrow> addr \<Rightarrow> mtrie \<Rightarrow> bool \<times> mtrie" where
  "mtrie_add [] p t =
     (mpipes t = None,
      Mtrie (Some (insort_insert p (case mpipes t of None \<Rightarrow> [] | Some ps \<Rightarrow> ps))) (mtab t))"
| "mtrie_add (c # cs) p t =
     (let (n, tb) = mtrie_open (mtab t) c;
          (r, n) = mtrie_add cs p n
      in (r, Mtrie (mpipes t) (tab_put tb c (Some n))))"

definition mtrie_compact :: "mtrie chartab \<Rightarrow> byte \<Rightarrow> mtrie chartab option" where
  "mtrie_compact tb c =
     (let mn = unat (tmin tb); count = tcount tb; table = tnext tb in
      if tlive tb = 1 then
        (case scan table of
           None \<Rightarrow> None
         | Some i \<Rightarrow> Some (Tab (tmin tb + of_nat i) (tlive tb) [table ! i]))
      else if unat c = mn then
        (case scan (drop 1 table) of
           None \<Rightarrow> None
         | Some j \<Rightarrow> Some (Tab (tmin tb + of_nat (j + 1)) (tlive tb) (drop (j + 1) table)))
      else if unat c = mn + count - 1 then
        (case scan (drop 1 (rev table)) of
           None \<Rightarrow> None
         | Some j \<Rightarrow> Some (Tab (tmin tb) (tlive tb) (take (count - (j + 1)) table)))
      else Some tb)"

definition mtrie_prune :: "mtrie chartab \<Rightarrow> byte \<Rightarrow> mtrie chartab option" where
  "mtrie_prune tb c =
     do { zmq_assert (tcount tb > 0);
          if tcount tb = 1
          then do { zmq_assert (tlive tb = 1); Some (Tab (tmin tb) 0 []) }
          else do { zmq_assert (tlive tb > 1); mtrie_compact (tab_cut tb c) c } }"

text \<open>\<open>rm (prefix, size, pipe)\<close>.\<close>

fun mtrie_rm :: "byte list \<Rightarrow> addr \<Rightarrow> mtrie \<Rightarrow> (bool \<times> mtrie) option" where
  "mtrie_rm [] p t =
     (case mpipes t of
        None \<Rightarrow> Some (True, t)
      | Some ps \<Rightarrow>
          do { zmq_assert (p \<in> set ps);
               let ps = remove1 p ps;
               let ps = (if ps = [] then None else Some ps);
               Some (ps = None, Mtrie ps (mtab t)) })"
| "mtrie_rm (c # cs) p t =
     (case tab_get (mtab t) c of
        None \<Rightarrow> Some (False, t)
      | Some n \<Rightarrow>
          do { (r, n) \<leftarrow> mtrie_rm cs p n;
               if mtrie_is_redundant n
               then do { tb \<leftarrow> mtrie_prune (mtab t) c; Some (r, Mtrie (mpipes t) tb) }
               else Some (r, Mtrie (mpipes t) (tab_put (mtab t) c (Some n))) })"

text \<open>\<open>match\<close>: the pipes the function is called with, in order.\<close>

fun mtrie_match :: "byte list \<Rightarrow> mtrie \<Rightarrow> addr list option" where
  "mtrie_match [] t = Some (case mpipes t of None \<Rightarrow> [] | Some ps \<Rightarrow> ps)"
| "mtrie_match (c # cs) t =
     (let here = (case mpipes t of None \<Rightarrow> [] | Some ps \<Rightarrow> ps) in
      if \<not> tab_in (mtab t) c then Some here
      else case tab_get (mtab t) c of
        None \<Rightarrow> if tcount (mtab t) = 1 then None else Some here
      | Some n \<Rightarrow> map_option (\<lambda>ps. here @ ps) (mtrie_match cs n))"

text \<open>
  \<open>rm (pipe, func, arg)\<close> removes a pipe from every node. \<open>mtrie_rm_table\<close> is the loop over the
  table: it prunes the nodes that became redundant and records the smallest and the largest
  character that still has a node. \<open>mtrie_shrink\<close> is the compaction after the loop.
\<close>

definition mtrie_shrink :: "mtrie chartab \<Rightarrow> nat \<Rightarrow> nat \<Rightarrow> mtrie chartab option" where
  "mtrie_shrink tb new_min new_max =
     (let mn = unat (tmin tb); count = tcount tb; table = tnext tb in
      do { zmq_assert (count > 1);
           if tlive tb = 0 then Some (Tab (tmin tb) 0 [])
           else if tlive tb = 1 then
             do { zmq_assert (new_min = new_max);
                  zmq_assert (new_min \<ge> mn \<and> new_min < mn + count);
                  zmq_assert (table ! (new_min - mn) \<noteq> None);
                  Some (Tab (of_nat new_min) 1 [table ! (new_min - mn)]) }
           else if new_min > mn \<or> new_max < mn + count - 1 then
             do { zmq_assert (int new_max - int new_min + 1 > 1);
                  zmq_assert (new_min \<ge> mn);
                  zmq_assert (new_max \<le> mn + count - 1);
                  zmq_assert (new_max - new_min + 1 < count);
                  Some (Tab (of_nat new_min) (tlive tb)
                          (take (new_max - new_min + 1) (drop (new_min - mn) table))) }
           else Some tb })"

definition mtrie_erase :: "addr \<Rightarrow> addr list option \<Rightarrow> bool \<times> addr list option" where
  "mtrie_erase p pipes =
     (case pipes of
        None \<Rightarrow> (False, None)
      | Some ps \<Rightarrow>
          (if p \<in> set ps \<and> remove1 p ps = [] then (True, None) else (False, Some (remove1 p ps))))"

function (sequential) mtrie_rm_helper ::
    "addr \<Rightarrow> mtrie \<Rightarrow> blob \<Rightarrow> nat \<Rightarrow> nat \<Rightarrow> (mtrie \<times> blob \<times> blob list) option"
  and mtrie_rm_table ::
    "addr \<Rightarrow> mtrie option list \<Rightarrow> byte \<Rightarrow> blob \<Rightarrow> nat \<Rightarrow> nat \<Rightarrow> nat \<times> nat \<times> nat \<Rightarrow>
     (mtrie option list \<times> (nat \<times> nat \<times> nat) \<times> blob \<times> blob list) option" where
  "mtrie_rm_helper p (Mtrie pipes (Tab mn live xs)) buff buffsize maxbuffsize =
     (let (gone, pipes) = mtrie_erase p pipes;
          calls = (if gone then [take buffsize buff] else []);
          (buff, maxbuffsize) = buff_grow buff buffsize maxbuffsize
      in if xs = [] then Some (Mtrie pipes (Tab mn live xs), buff, calls)
         else if length xs = 1 then
           do { buff \<leftarrow> buff_put buff buffsize mn;
                (n, buff, calls') \<leftarrow> (case xs of
                    [Some n] \<Rightarrow> mtrie_rm_helper p n buff (buffsize + 1) maxbuffsize
                  | _ \<Rightarrow> None);
                tb \<leftarrow> (if mtrie_is_redundant n
                      then do { zmq_assert (live = 1); Some (Tab mn 0 []) }
                      else Some (Tab mn live [Some n]));
                Some (Mtrie pipes tb, buff, calls @ calls') }
         else
           do { (xs', (live, new_min, new_max), buff, calls') \<leftarrow>
                  mtrie_rm_table p xs mn buff buffsize maxbuffsize
                    (live, unat mn + length xs - 1, unat mn);
                tb \<leftarrow> mtrie_shrink (Tab mn live xs') new_min new_max;
                Some (Mtrie pipes tb, buff, calls @ calls') })"
| "mtrie_rm_table p [] ch buff buffsize maxbuffsize acc = Some ([], acc, buff, [])"
| "mtrie_rm_table p (None # xs) ch buff buffsize maxbuffsize acc =
     do { buff \<leftarrow> buff_put buff buffsize ch;
          (xs, acc, buff, calls) \<leftarrow> mtrie_rm_table p xs (ch + 1) buff buffsize maxbuffsize acc;
          Some (None # xs, acc, buff, calls) }"
| "mtrie_rm_table p (Some n # xs) ch buff buffsize maxbuffsize (live, new_min, new_max) =
     do { buff \<leftarrow> buff_put buff buffsize ch;
          (n, buff, calls) \<leftarrow> mtrie_rm_helper p n buff (buffsize + 1) maxbuffsize;
          (v, acc) \<leftarrow> (if mtrie_is_redundant n
                      then do { zmq_assert (live > 0); Some (None, (live - 1, new_min, new_max)) }
                      else Some (Some n, (live,
                             if unat ch < new_min then unat ch else new_min,
                             if unat ch > new_max then unat ch else new_max)));
          (xs, acc, buff, calls') \<leftarrow> mtrie_rm_table p xs (ch + 1) buff buffsize maxbuffsize acc;
          Some (v # xs, acc, buff, calls @ calls') }"
  by pat_completeness auto
termination
  by (relation "measure (\<lambda>x. case x of Inl (p, t, _) \<Rightarrow> size t | Inr (p, xs, _) \<Rightarrow> size_list (size_option size) xs)")
     (auto simp: less_Suc_eq_le)

definition mtrie_rm_pipe :: "addr \<Rightarrow> mtrie \<Rightarrow> (mtrie \<times> blob list) option" where
  "mtrie_rm_pipe p t = map_option (\<lambda>(t, _, calls). (t, calls)) (mtrie_rm_helper p t [] 0 0)"

section \<open>Specification\<close>

definition pipe_set :: "addr list option \<Rightarrow> addr set" where
  "pipe_set ps = (case ps of None \<Rightarrow> {} | Some ps \<Rightarrow> set ps)"

definition pipes_ok :: "addr list option \<Rightarrow> bool" where
  "pipes_ok ps = (case ps of None \<Rightarrow> True | Some ps \<Rightarrow> ps \<noteq> [] \<and> sorted ps \<and> distinct ps)"

lemma pipe_set_simps [simp]: "pipe_set None = {}" "pipe_set (Some ps) = set ps"
  by (simp_all add: pipe_set_def)

lemma pipes_ok_simps [simp]:
  "pipes_ok None" "pipes_ok (Some ps) \<longleftrightarrow> ps \<noteq> [] \<and> sorted ps \<and> distinct ps"
  by (simp_all add: pipes_ok_def)

text \<open>The pipes subscribed to a topic.\<close>

fun mtrie_abs :: "mtrie \<Rightarrow> byte list \<Rightarrow> addr set" where
  "mtrie_abs t [] = pipe_set (mpipes t)"
| "mtrie_abs t (c # cs) = (case tab_get (mtab t) c of None \<Rightarrow> {} | Some n \<Rightarrow> mtrie_abs n cs)"

inductive mtrie_wf :: "mtrie \<Rightarrow> bool" where
  mnode: "tab_ok tb \<Longrightarrow> pipes_ok ps \<Longrightarrow>
    (\<And>c n. tab_get tb c = Some n \<Longrightarrow> mtrie_wf n) \<Longrightarrow>
    (\<And>c n. tab_get tb c = Some n \<Longrightarrow> \<not> mtrie_is_redundant n) \<Longrightarrow> mtrie_wf (Mtrie ps tb)"

inductive_cases mtrie_wfE: "mtrie_wf (Mtrie ps tb)"

lemma mtrie_wf_tab: "mtrie_wf t \<Longrightarrow> tab_ok (mtab t)"
  by (cases t) (auto elim: mtrie_wfE)

lemma mtrie_wf_pipes: "mtrie_wf t \<Longrightarrow> pipes_ok (mpipes t)"
  by (cases t) (auto elim: mtrie_wfE)

lemma mtrie_wf_sub: "mtrie_wf t \<Longrightarrow> tab_get (mtab t) c = Some n \<Longrightarrow> mtrie_wf n \<and> \<not> mtrie_is_redundant n"
  by (cases t) (auto elim!: mtrie_wfE)

lemma mtrie_wf_node: "mtrie_wf t \<Longrightarrow> pipes_ok ps \<Longrightarrow> mtrie_wf (Mtrie ps (mtab t))"
  by (rule mtrie_wf.mnode) (auto dest: mtrie_wf_tab mtrie_wf_sub)

lemma mtrie_new_wf [simp]: "mtrie_wf mtrie_new"
  unfolding mtrie_new_def by (rule mtrie_wf.mnode) auto

lemma mtrie_new_abs [simp]: "mtrie_abs mtrie_new k = {}"
  by (cases k) (simp_all add: mtrie_new_def)

lemma pipes_ok_empty: "pipes_ok ps \<Longrightarrow> pipe_set ps = {} \<longleftrightarrow> ps = None"
  by (cases ps) auto

lemma mtrie_redundant_abs: "mtrie_wf t \<Longrightarrow> mtrie_is_redundant t \<longleftrightarrow> (\<forall>k. mtrie_abs t k = {})"
proof (induction t rule: mtrie_wf.induct)
  case (mnode tb ps)
  show ?case
  proof
    assume red: "mtrie_is_redundant (Mtrie ps tb)"
    then have "tab_get tb = Map.empty" using mnode(1) tab_dead by (auto simp: mtrie_is_redundant_def)
    with red have "mtrie_abs (Mtrie ps tb) k = {}" for k by (cases k) (auto simp: mtrie_is_redundant_def)
    then show "\<forall>k. mtrie_abs (Mtrie ps tb) k = {}" by blast
  next
    assume zero: "\<forall>k. mtrie_abs (Mtrie ps tb) k = {}"
    then have "ps = None" using spec [OF zero, of "[]"] pipes_ok_empty [OF mnode(2)] by simp
    moreover have "tlive tb = 0"
    proof (rule ccontr)
      assume "tlive tb \<noteq> 0"
      then obtain c n where n: "tab_get tb c = Some n" using tab_live_ex [OF mnode(1)] by auto
      then obtain k where "mtrie_abs n k \<noteq> {}" using mnode(3-) by blast
      with n spec [OF zero, of "c # k"] show False by simp
    qed
    ultimately show "mtrie_is_redundant (Mtrie ps tb)" by (simp add: mtrie_is_redundant_def)
  qed
qed

lemma mtrie_wf_nonredundant: "mtrie_wf t \<Longrightarrow> mtrie_abs t k \<noteq> {} \<Longrightarrow> \<not> mtrie_is_redundant t"
  using mtrie_redundant_abs [of t] by auto

section \<open>Adding a subscription\<close>

lemma mtrie_open_ok:
  assumes ok: "tab_ok tb"
  shows "\<exists>tb'. mtrie_open tb c = ((case tab_get tb c of None \<Rightarrow> mtrie_new | Some n \<Rightarrow> n), tb') \<and>
    tab_ok tb' \<and> tab_get tb' = (tab_get tb)(c \<mapsto> (case tab_get tb c of None \<Rightarrow> mtrie_new | Some n \<Rightarrow> n))"
proof -
  let ?tb = "tab_extend tb c"
  have r: "tab_room ?tb c (tab_get tb)" by (rule tab_extend_ok [OF ok])
  then have get: "tab_get ?tb = tab_get tb" by (simp add: tab_room_def)
  show ?thesis
  proof (cases "tab_get tb c")
    case None
    then show ?thesis using tab_room_fill [where c = c, OF r None] get by (auto simp: mtrie_open_def Let_def)
  next
    case (Some n)
    then show ?thesis using get tab_room_full [OF r Some] by (auto simp: mtrie_open_def)
  qed
qed

lemma mtrie_wf_put:
  assumes "tab_ok tb" "tab_get tb = (tab_get (mtab t))(c := Some n)" "mtrie_wf t" "mtrie_wf m" "\<not> mtrie_is_redundant m"
  shows "mtrie_wf (Mtrie (mpipes t) (tab_put tb c (Some m)))"
    "mtrie_abs (Mtrie (mpipes t) (tab_put tb c (Some m))) (d # ds) =
       (if d = c then mtrie_abs m ds else mtrie_abs t (d # ds))"
proof -
  have tb: "tab_ok (tab_put tb c (Some m))" "tab_get (tab_put tb c (Some m)) = (tab_get (mtab t))(c \<mapsto> m)"
    using tab_put_ok [of tb c n m] assms(1,2) by auto
  show "mtrie_wf (Mtrie (mpipes t) (tab_put tb c (Some m)))"
    by (rule mtrie_wf.mnode)
       (use tb mtrie_wf_sub [OF assms(3)] mtrie_wf_pipes [OF assms(3)] assms(4,5) in \<open>auto split: if_splits\<close>)
  show "mtrie_abs (Mtrie (mpipes t) (tab_put tb c (Some m))) (d # ds) =
       (if d = c then mtrie_abs m ds else mtrie_abs t (d # ds))"
    by (simp add: tb(2))
qed

lemma insort_insert_ne [simp]: "insort_insert (p :: addr) xs \<noteq> []"
  using set_insort_insert [of p xs] by auto

lemma mtrie_add_ok:
  "mtrie_wf t \<Longrightarrow>
   \<exists>t'. mtrie_add k p t = (mtrie_abs t k = {}, t') \<and> mtrie_wf t' \<and>
        mtrie_abs t' = (mtrie_abs t)(k := insert p (mtrie_abs t k))"
proof (induction k arbitrary: t)
  case Nil
  let ?ps = "insort_insert p (case mpipes t of None \<Rightarrow> [] | Some ps \<Rightarrow> ps)"
  have ps: "set ?ps = insert p (pipe_set (mpipes t))" "pipes_ok (Some ?ps)"
    using mtrie_wf_pipes [OF Nil]
    by (cases "mpipes t"; simp add: set_insort_insert sorted_insort_insert distinct_insort_insert)+
  have "mtrie_abs (Mtrie (Some ?ps) (mtab t)) k = ((mtrie_abs t)([] := insert p (mtrie_abs t []))) k" for k
    using ps(1) by (cases k) auto
  then show ?case using Nil ps(2) mtrie_wf_node [OF Nil] pipes_ok_empty [OF mtrie_wf_pipes [OF Nil]] by auto
next
  case (Cons c cs)
  define n where "n = (case tab_get (mtab t) c of None \<Rightarrow> mtrie_new | Some n \<Rightarrow> n)"
  obtain tb where tb: "mtrie_open (mtab t) c = (n, tb)" "tab_ok tb" "tab_get tb = (tab_get (mtab t))(c \<mapsto> n)"
    using mtrie_open_ok [OF mtrie_wf_tab [OF Cons.prems(1)], of c] by (auto simp: n_def)
  have n: "mtrie_wf n" "mtrie_abs n ds = mtrie_abs t (c # ds)" for ds
    using mtrie_wf_sub [OF Cons.prems(1)] by (auto simp: n_def split: option.split)
  from Cons.IH [OF n(1)] obtain m where
    m: "mtrie_add cs p n = (mtrie_abs n cs = {}, m)" "mtrie_wf m" "mtrie_abs m = (mtrie_abs n)(cs := insert p (mtrie_abs n cs))"
    by blast
  have red: "\<not> mtrie_is_redundant m" using mtrie_wf_nonredundant [OF m(2), of cs] m(3) by simp
  let ?t = "Mtrie (mpipes t) (tab_put tb c (Some m))"
  note put = mtrie_wf_put [OF tb(2,3) Cons.prems(1) m(2) red]
  have "mtrie_abs ?t k = ((mtrie_abs t)(c # cs := insert p (mtrie_abs t (c # cs)))) k" for k
    by (cases k) (auto simp: put(2) m(3) n(2) simp del: mtrie_abs.simps(2))
  then show ?case using put(1) tb(1) m(1) [unfolded n(2)] by (auto simp del: mtrie_abs.simps(2))
qed

section \<open>Removing one subscription\<close>

lemma mtrie_compact_ok:
  assumes ok: "tab_ok tb" and c: "tab_get tb c = Some n" and many: "tcount tb \<noteq> 1"
  shows "\<exists>tb'. mtrie_compact (tab_cut tb c) c = Some tb' \<and> tab_ok tb' \<and> tab_get tb' = (tab_get tb)(c := None)"
proof (cases "tlive (tab_cut tb c) = 1")
  case False
  then have "mtrie_compact (tab_cut tb c) c = trie_compact (tab_cut tb c) c"
    by (simp add: mtrie_compact_def trie_compact_def Let_def)
  then show ?thesis using trie_compact_ok [OF ok c many] by simp
next
  case True
  note p = tab_cut_props [OF ok c]
  let ?t = "tab_cut tb c"
  have one: "cnt lv (tnext ?t) = 1" using p(2) True by simp
  then obtain v where "v \<in> set (tnext ?t)" "lv v" using cnt_pos_iff [of lv "tnext ?t"] by auto
  then obtain i where s: "scan (tnext ?t) = Some i" using scan_ex [of _ "tnext ?t"] by (metis in_set_conv_nth)
  note i = scan_SomeD [OF s]
  have "take 1 (drop i (tnext ?t)) = [tnext ?t ! i]"
    using Cons_nth_drop_Suc [of i "tnext ?t"] i by (metis take_Suc_Cons take0 One_nat_def)
  then have eq: "mtrie_compact ?t c = Some (Tab (tmin ?t + of_nat i) (tlive ?t) (take 1 (drop i (tnext ?t))))"
    using True s by (simp add: mtrie_compact_def Let_def)
  have "tnext ?t ! j = None" if "j < tcount ?t" "j < i \<or> i + 1 \<le> j" for j
    using cnt_lv_one [OF one, of i j] i that by auto
  with tab_slice [of ?t i 1 "tlive ?t"] i p(1,2,4,5,7) show ?thesis unfolding eq by auto
qed

lemma mtrie_prune_ok:
  assumes ok: "tab_ok tb" and c: "tab_get tb c = Some n"
  shows "\<exists>tb'. mtrie_prune tb c = Some tb' \<and> tab_ok tb' \<and> tab_get tb' = (tab_get tb)(c := None)"
proof (cases "tcount tb = 1")
  case True
  then show ?thesis using trie_prune_ok [OF ok c] by (simp add: trie_prune_def mtrie_prune_def)
next
  case False
  have "tnext tb \<noteq> []" using tab_cut_props(8) [OF ok c] by auto
  with False mtrie_compact_ok [OF ok c False] tab_live_count [OF ok c] show ?thesis
    by (auto simp: mtrie_prune_def)
qed

lemma mtrie_rm_ok:
  "mtrie_wf t \<Longrightarrow>
   (if mtrie_abs t k = {} then
      \<exists>t'. mtrie_rm k p t = Some (k = [] \<or> (\<exists>k'. mtrie_abs t (k @ k') \<noteq> {}), t') \<and> mtrie_wf t' \<and> mtrie_abs t' = mtrie_abs t
    else if p \<notin> mtrie_abs t k then mtrie_rm k p t = None
    else \<exists>t'. mtrie_rm k p t = Some (mtrie_abs t k = {p}, t') \<and> mtrie_wf t' \<and>
           mtrie_abs t' = (mtrie_abs t)(k := mtrie_abs t k - {p}))"
proof (induction k arbitrary: t)
  case Nil
  show ?case
  proof (cases "mpipes t")
    case None
    then show ?thesis using Nil by simp
  next
    case (Some ps)
    then have ok: "ps \<noteq> []" "sorted ps" "distinct ps" using mtrie_wf_pipes [OF Nil] by auto
    show ?thesis
    proof (cases "p \<in> set ps")
      case False
      then show ?thesis using Some ok by (simp del: zmq_assert_bind)
    next
      case True
      define ps' where "ps' = (if remove1 p ps = [] then None else Some (remove1 p ps))"
      have set: "set (remove1 p ps) = set ps - {p}" using ok(3) by simp
      then have em: "remove1 p ps = [] \<longleftrightarrow> set ps - {p} = {}" by (metis set_empty)
      then have e: "ps' = None \<longleftrightarrow> set ps = {p}" using True by (auto simp: ps'_def)
      have s: "pipe_set ps' = set ps - {p}" using set em by (cases "remove1 p ps = []") (simp_all add: ps'_def)
      have o: "pipes_ok ps'" using ok by (simp add: ps'_def sorted_remove1)
      have rm: "mtrie_rm [] p t = Some (set ps = {p}, Mtrie ps' (mtab t))"
        using Some True e by (simp add: Let_def ps'_def [symmetric])
      have abs: "mtrie_abs (Mtrie ps' (mtab t)) = (mtrie_abs t)([] := set ps - {p})"
      proof
        fix k show "mtrie_abs (Mtrie ps' (mtab t)) k = ((mtrie_abs t)([] := set ps - {p})) k"
          by (cases k) (simp_all add: s)
      qed
      show ?thesis using Some True rm abs mtrie_wf_node [OF Nil o] by auto
    qed
  qed
next
  case (Cons c cs)
  show ?case
  proof (cases "tab_get (mtab t) c")
    case None
    then show ?thesis using Cons.prems by simp
  next
    case (Some n)
    have n: "mtrie_wf n" "\<not> mtrie_is_redundant n" "mtrie_abs n ds = mtrie_abs t (c # ds)" for ds
      using mtrie_wf_sub [OF Cons.prems Some] Some by auto
    have put: "mtrie_wf (Mtrie (mpipes t) (tab_put (mtab t) c (Some m))) \<and>
        mtrie_abs (Mtrie (mpipes t) (tab_put (mtab t) c (Some m))) = (mtrie_abs t)(c # cs := mtrie_abs m cs)"
      if m: "mtrie_wf m" "\<not> mtrie_is_redundant m" "mtrie_abs m = (mtrie_abs n)(cs := mtrie_abs m cs)" for m
    proof -
      have "tab_get (mtab t) = (tab_get (mtab t))(c := Some n)" using Some by auto
      note q = mtrie_wf_put [OF mtrie_wf_tab [OF Cons.prems] this Cons.prems m(1,2)]
      have "mtrie_abs (Mtrie (mpipes t) (tab_put (mtab t) c (Some m))) k = ((mtrie_abs t)(c # cs := mtrie_abs m cs)) k" for k
      proof (cases k)
        case (Cons d ds)
        have "mtrie_abs m ds = (if ds = cs then mtrie_abs m cs else mtrie_abs n ds)" using m(3) by (metis fun_upd_apply)
        then show ?thesis using Cons q(2) [of d ds] n(3) [of ds] by (simp del: mtrie_abs.simps(2))
      qed simp
      with q(1) show ?thesis by blast
    qed
    note IH = Cons.IH [OF n(1)]
    show ?thesis
    proof (cases "mtrie_abs n cs = {}")
      case True
      with IH obtain m where m: "mtrie_rm cs p n = Some (cs = [] \<or> (\<exists>k'. mtrie_abs n (cs @ k') \<noteq> {}), m)"
        "mtrie_wf m" "mtrie_abs m = mtrie_abs n" by auto
      have red: "\<not> mtrie_is_redundant m"
        using mtrie_redundant_abs [OF m(2)] mtrie_redundant_abs [OF n(1)] n(2) m(3) by simp
      have ex: "(cs = [] \<or> (\<exists>k'. mtrie_abs n (cs @ k') \<noteq> {})) \<longleftrightarrow> (\<exists>k'. mtrie_abs t ((c # cs) @ k') \<noteq> {})"
      proof -
        have "\<exists>k'. mtrie_abs n k' \<noteq> {}" using n(2) mtrie_redundant_abs [OF n(1)] by blast
        then show ?thesis by (cases "cs = []") (simp_all add: n(3) [symmetric] del: mtrie_abs.simps(2))
      qed
      have "(mtrie_abs t)(c # cs := mtrie_abs m cs) = mtrie_abs t"
        using m(3) n(3) [of cs] by (simp add: fun_upd_idem)
      moreover have "mtrie_abs m = (mtrie_abs n)(cs := mtrie_abs m cs)" using m(3) by (simp add: fun_upd_idem)
      ultimately have wf: "mtrie_wf (Mtrie (mpipes t) (tab_put (mtab t) c (Some m)))"
        "mtrie_abs (Mtrie (mpipes t) (tab_put (mtab t) c (Some m))) = mtrie_abs t"
        using put [OF m(2) red] by simp_all
      have "mtrie_rm (c # cs) p t = Some (c # cs = [] \<or> (\<exists>k'. mtrie_abs t ((c # cs) @ k') \<noteq> {}),
          Mtrie (mpipes t) (tab_put (mtab t) c (Some m)))"
        unfolding ex [symmetric] using Some m(1) red by simp
      moreover have "mtrie_abs t (c # cs) = {}" using True n(3) by simp
      ultimately show ?thesis using wf by (simp del: mtrie_abs.simps(2) mtrie_rm.simps)
    next
      case ne: False
      show ?thesis
      proof (cases "p \<in> mtrie_abs n cs")
        case False
        then have "mtrie_rm cs p n = None" using IH ne by simp
        then have "mtrie_rm (c # cs) p t = None" using Some by simp
        then show ?thesis using ne False n(3) [of cs] by (simp del: mtrie_abs.simps(2) mtrie_rm.simps)
      next
        case True
        with IH ne obtain m where m: "mtrie_rm cs p n = Some (mtrie_abs n cs = {p}, m)" "mtrie_wf m"
          "mtrie_abs m = (mtrie_abs n)(cs := mtrie_abs n cs - {p})" by auto
        have nt: "mtrie_abs t (c # cs) \<noteq> {}" "p \<in> mtrie_abs t (c # cs)" "mtrie_abs n cs = mtrie_abs t (c # cs)"
          using ne True n(3) [of cs] by simp_all
        have goal: ?thesis if "mtrie_rm (c # cs) p t = Some (mtrie_abs n cs = {p}, t')" "mtrie_wf t'"
          "mtrie_abs t' = (mtrie_abs t)(c # cs := mtrie_abs n cs - {p})" for t'
          using that nt by (simp del: mtrie_abs.simps(2) mtrie_rm.simps)
        show ?thesis
        proof (cases "mtrie_is_redundant m")
          case red: True
          then have z: "mtrie_abs m k = {}" for k using mtrie_redundant_abs [OF m(2)] by blast
          from mtrie_prune_ok [OF mtrie_wf_tab [OF Cons.prems] Some] obtain tb where
            tb: "mtrie_prune (mtab t) c = Some tb" "tab_ok tb" "tab_get tb = (tab_get (mtab t))(c := None)" by blast
          have "mtrie_wf (Mtrie (mpipes t) tb)"
            by (rule mtrie_wf.mnode)
               (use tb mtrie_wf_sub [OF Cons.prems] mtrie_wf_pipes [OF Cons.prems] in \<open>auto split: if_splits\<close>)
          moreover have "mtrie_abs (Mtrie (mpipes t) tb) = (mtrie_abs t)(c # cs := mtrie_abs n cs - {p})"
          proof
            fix k
            show "mtrie_abs (Mtrie (mpipes t) tb) k = ((mtrie_abs t)(c # cs := mtrie_abs n cs - {p})) k"
            proof (cases k)
              case (Cons d ds)
              have "mtrie_abs n ds = {}" if "ds \<noteq> cs" for ds using z [of ds] m(3) that by simp
              moreover have "mtrie_abs n cs - {p} = {}" using z [of cs] m(3) by simp
              ultimately show ?thesis using Cons Some tb(3) by simp
            qed simp
          qed
          moreover have "mtrie_rm (c # cs) p t = Some (mtrie_abs n cs = {p}, Mtrie (mpipes t) tb)"
            using Some m(1) red tb(1) by simp
          ultimately show ?thesis by (intro goal)
        next
          case red: False
          have mcs: "mtrie_abs m cs = mtrie_abs n cs - {p}" by (simp add: m(3))
          have "mtrie_rm (c # cs) p t = Some (mtrie_abs n cs = {p}, Mtrie (mpipes t) (tab_put (mtab t) c (Some m)))"
            using Some m(1) red by simp
          then show ?thesis using put [OF m(2) red m(3) [folded mcs], unfolded mcs] by (blast intro: goal)
        qed
      qed
    qed
  qed
qed

section \<open>Matching a message\<close>

lemma mtrie_match_ok:
  "mtrie_wf t \<Longrightarrow> \<exists>ps. mtrie_match d t = Some ps \<and> set ps = (\<Union>k \<in> {k. prefix k d}. mtrie_abs t k)"
proof (induction d arbitrary: t)
  case Nil
  then show ?case by (cases "mpipes t") auto
next
  case (Cons c cs)
  let ?here = "case mpipes t of None \<Rightarrow> [] | Some ps \<Rightarrow> ps"
  have here: "set ?here = mtrie_abs t []" by (cases "mpipes t") simp_all
  have un: "(\<Union>k \<in> {k. prefix k (c # cs)}. mtrie_abs t k) = mtrie_abs t [] \<union> (\<Union>k \<in> {k. prefix k cs}. mtrie_abs t (c # k))"
  proof -
    have "{k. prefix k (c # cs)} = insert [] (Cons c ` {k. prefix k cs})" by (auto simp: prefix_Cons)
    then show ?thesis by simp
  qed
  show ?case
  proof (cases "tab_get (mtab t) c")
    case (Some n)
    moreover from this have "tab_in (mtab t) c" by (simp add: tab_get_def split: if_splits)
    moreover obtain ps where "mtrie_match cs n = Some ps" "set ps = (\<Union>k \<in> {k. prefix k cs}. mtrie_abs n k)"
      using Cons.IH [of n] mtrie_wf_sub [OF Cons.prems Some] by auto
    ultimately show ?thesis using here un by simp
  next
    case None
    have "\<not> (tcount (mtab t) = 1 \<and> tab_in (mtab t) c)"
    proof
      assume a: "tcount (mtab t) = 1 \<and> tab_in (mtab t) c"
      then obtain v where "tnext (mtab t) = [v]" by (cases "tnext (mtab t)") auto
      with a None mtrie_wf_tab [OF Cons.prems] show False
        by (auto simp: tab_get_def tab_ok_def tab_in_def)
    qed
    then have "mtrie_match (c # cs) t = Some ?here" using None by (simp add: Let_def)
    then show ?thesis using here un None by auto
  qed
qed

section \<open>Removing a pipe everywhere\<close>

text \<open>The characters that have a node, for a table that starts at character \<open>b\<close>; and what the loop
  knows of the smallest and the largest of them.\<close>

fun live_pos :: "nat \<Rightarrow> 'a option list \<Rightarrow> nat set" where
  "live_pos b [] = {}"
| "live_pos b (v # xs) = (if lv v then insert b (live_pos (Suc b) xs) else live_pos (Suc b) xs)"

definition least_of :: "nat set \<Rightarrow> nat \<Rightarrow> nat \<Rightarrow> bool" where
  "least_of P x0 x \<longleftrightarrow> x \<in> insert x0 P \<and> (\<forall>y \<in> insert x0 P. x \<le> y)"

definition greatest_of :: "nat set \<Rightarrow> nat \<Rightarrow> nat \<Rightarrow> bool" where
  "greatest_of P x0 x \<longleftrightarrow> x \<in> insert x0 P \<and> (\<forall>y \<in> insert x0 P. y \<le> x)"

lemma live_pos_iff: "x \<in> live_pos b xs \<longleftrightarrow> (\<exists>j < length xs. lv (xs ! j) \<and> x = b + j)"
proof (induction xs arbitrary: b)
  case (Cons v xs)
  have "(\<exists>j < length (v # xs). lv ((v # xs) ! j) \<and> x = b + j) \<longleftrightarrow>
      (lv v \<and> x = b) \<or> (\<exists>j < length xs. lv (xs ! j) \<and> x = Suc b + j)"
    by (simp add: Ex_less_Suc2)
  with Cons.IH [of "Suc b"] show ?case by auto
qed simp

lemma cnt_lv_le_one:
  assumes "\<And>j. j < length xs \<Longrightarrow> lv (xs ! j) \<Longrightarrow> j = i"
  shows "cnt lv xs \<le> 1"
proof -
  have "card {j. j < length xs \<and> lv (xs ! j)} \<le> card {i}"
    using assms by (intro card_mono) auto
  then show ?thesis by (simp add: cnt_def length_filter_conv_card)
qed

lemma mtrie_shrink_ok:
  assumes bnd: "unat mn + length xs \<le> 256" and two: "2 \<le> length xs" and live: "live = cnt lv xs"
    and nm: "least_of (live_pos (unat mn) xs) (unat mn + length xs - 1) nm"
    and nx: "greatest_of (live_pos (unat mn) xs) (unat mn) nx"
  shows "\<exists>tb. mtrie_shrink (Tab mn live xs) nm nx = Some tb \<and> tab_ok tb \<and> tab_get tb = tab_get (Tab mn live xs)"
proof (cases "live = 0")
  case True
  have "tab_get (Tab mn live xs) c = None" for c
  proof (rule ccontr)
    assume "tab_get (Tab mn live xs) c \<noteq> None"
    then have "\<exists>v \<in> set xs. lv v" by (auto simp: tab_get_def tab_in_def lv_def split: if_splits intro!: bexI [OF _ nth_mem])
    with True live cnt_pos_iff [of lv xs] show False by simp
  qed
  moreover have "tab_get (Tab mn 0 [] :: mtrie chartab) c = None" for c
    by (auto simp: tab_get_def tab_in_def)
  ultimately have "tab_get (Tab mn 0 []) = tab_get (Tab mn live xs)" by (simp add: fun_eq_iff)
  moreover have "tab_ok (Tab mn 0 [])" using bnd by (simp add: tab_ok_def)
  ultimately show ?thesis using True two by (auto simp: mtrie_shrink_def Let_def)
next
  case False
  then obtain j0 where j0: "j0 < length xs" "lv (xs ! j0)"
    using cnt_pos_iff [of lv xs] live by (auto simp: in_set_conv_nth)
  then have p0: "unat mn + j0 \<in> live_pos (unat mn) xs" by (auto simp: live_pos_iff)
  have nmP: "nm \<in> live_pos (unat mn) xs"
  proof (cases "nm = unat mn + length xs - 1")
    case True
    then have "unat mn + length xs - 1 \<le> unat mn + j0" using nm p0 by (auto simp: least_of_def)
    then have "unat mn + j0 = nm" using j0(1) True by linarith
    with p0 show ?thesis by simp
  qed (use nm in \<open>auto simp: least_of_def\<close>)
  have nxP: "nx \<in> live_pos (unat mn) xs"
  proof (cases "nx = unat mn")
    case True
    then have "unat mn + j0 \<le> nx" using nx p0 by (auto simp: greatest_of_def)
    then have "unat mn + j0 = nx" using True by simp
    with p0 show ?thesis by simp
  qed (use nx in \<open>auto simp: greatest_of_def\<close>)
  obtain i e where i: "i < length xs" "lv (xs ! i)" "nm = unat mn + i"
    and e: "e < length xs" "lv (xs ! e)" "nx = unat mn + e"
    using nmP nxP by (auto simp: live_pos_iff)
  have range: "i \<le> j \<and> j \<le> e" if "j < length xs" "lv (xs ! j)" for j
  proof -
    have "unat mn + j \<in> live_pos (unat mn) xs" using that by (auto simp: live_pos_iff)
    then show ?thesis using nm nx i(3) e(3) by (auto simp: least_of_def greatest_of_def)
  qed
  have ie: "i \<le> e" using range [OF e(1,2)] by simp
  have none: "xs ! j = None" if "j < length xs" "j < i \<or> i + (e - i + 1) \<le> j" for j
    using range [of j] that ie by (cases "xs ! j") auto
  have wnm: "of_nat nm = mn + of_nat i" by (simp add: i(3) byte_eq_iff)
  let ?tb = "Tab (mn + of_nat i) live (take (e - i + 1) (drop i xs))"
  have tb: "tab_ok ?tb" "tab_get ?tb = tab_get (Tab mn live xs)"
    using tab_slice [of "Tab mn live xs" i "e - i + 1" live] bnd e i ie none live by simp_all
  show ?thesis
  proof (cases "live = 1")
    case True
    have "e = i" using cnt_lv_one [of xs i e] True live i e by (cases "xs ! e") auto
    moreover have "take 1 (drop i xs) = [xs ! i]"
      using Cons_nth_drop_Suc [OF i(1)] by (metis take_Suc_Cons take0 One_nat_def)
    ultimately have "mtrie_shrink (Tab mn live xs) nm nx = Some ?tb"
      using True two i e by (auto simp: mtrie_shrink_def Let_def wnm lv_def)
    with tb show ?thesis by blast
  next
    case more: False
    have "i \<noteq> e"
    proof
      assume "i = e"
      then have "cnt lv xs \<le> 1" using range by (intro cnt_lv_le_one [of xs i]) force
      with live False more show False by simp
    qed
    then have lt: "i < e" using ie by simp
    show ?thesis
    proof (cases "nm > unat mn \<or> nx < unat mn + length xs - 1")
      case True
      then have "mtrie_shrink (Tab mn live xs) nm nx = Some ?tb"
        using False more two i e lt by (auto simp: mtrie_shrink_def Let_def wnm zmq_assert_def)
      with tb show ?thesis by blast
    next
      case full: False
      then have "i = 0" "e = length xs - 1" using i e by linarith+
      then have "?tb = Tab mn live xs" using two by simp
      moreover have "mtrie_shrink (Tab mn live xs) nm nx = Some (Tab mn live xs)"
        using full False more two by (auto simp: mtrie_shrink_def Let_def)
      ultimately show ?thesis using tb by metis
    qed
  qed
qed

text \<open>What the removal does to a subtree and to the tables above it.\<close>

definition swept :: "addr \<Rightarrow> mtrie option \<Rightarrow> mtrie option \<Rightarrow> bool" where
  "swept p v v' = (case v of
      None \<Rightarrow> v' = None
    | Some n \<Rightarrow> (\<exists>n'. mtrie_wf n' \<and> (\<forall>k. mtrie_abs n' k = mtrie_abs n k - {p}) \<and>
        v' = (if mtrie_is_redundant n' then None else Some n')))"

definition last_keys :: "addr \<Rightarrow> (byte \<rightharpoonup> mtrie) \<Rightarrow> blob set" where
  "last_keys p m = {c # k | c k n. m c = Some n \<and> mtrie_abs n k = {p}}"

definition mrm_ok :: "addr \<Rightarrow> mtrie \<Rightarrow> bool" where
  "mrm_ok p t \<longleftrightarrow> (\<forall>buff bs mx. bs \<le> length buff \<longrightarrow> mx \<le> length buff \<longrightarrow>
     (\<exists>t' buff' ks. mtrie_rm_helper p t buff bs mx = Some (t', buff', map ((@) (take bs buff)) ks) \<and>
        take bs buff' = take bs buff \<and> bs \<le> length buff' \<and> mx \<le> length buff' \<and>
        mtrie_wf t' \<and> (\<forall>k. mtrie_abs t' k = mtrie_abs t k - {p}) \<and>
        distinct ks \<and> set ks = {k. mtrie_abs t k = {p}}))"

lemma last_keys_Some:
  "m c = None \<Longrightarrow> last_keys p (m(c \<mapsto> n)) = Cons c ` {k. mtrie_abs n k = {p}} \<union> last_keys p m"
  by (force simp: last_keys_def split: if_splits)

lemma least_of_insert:
  "least_of P (if b < x0 then b else x0) x \<Longrightarrow> least_of (insert b P) x0 x"
  by (auto simp: least_of_def split: if_splits)

lemma greatest_of_insert:
  "greatest_of P (if b > x0 then b else x0) x \<Longrightarrow> greatest_of (insert b P) x0 x"
  by (auto simp: greatest_of_def split: if_splits)

lemma tab_next_char:
  assumes "unat ch + Suc (length xs) \<le> 256"
  shows "tab_get (Tab (ch + 1) 0 xs) ch = None" "unat (ch + 1) + length xs \<le> 256"
    "xs \<noteq> [] \<Longrightarrow> unat (ch + 1) = Suc (unat ch)"
proof -
  have u: "unat (ch + 1) = (if unat ch = 255 then 0 else Suc (unat ch))"
    using unat_byte_less [of ch] by (simp add: unat_word_ariths)
  show "tab_get (Tab (ch + 1) 0 xs) ch = None" using assms by (auto simp: tab_get_def tab_in_def u)
  show "unat (ch + 1) + length xs \<le> 256" using assms by (simp add: u)
  show "xs \<noteq> [] \<Longrightarrow> unat (ch + 1) = Suc (unat ch)" using assms by (auto simp: u)
qed

lemma live_pos_next:
  "unat (ch :: byte) + Suc (length (xs :: 'a option list)) \<le> 256 \<Longrightarrow> length xs' = length xs \<Longrightarrow> live_pos (unat (ch + 1)) xs' = live_pos (Suc (unat ch)) xs'"
  using tab_next_char(3) [of ch xs] by (cases xs; cases xs') auto

definition table_post ::
  "addr \<Rightarrow> mtrie option list \<Rightarrow> byte \<Rightarrow> blob \<Rightarrow> nat \<Rightarrow> nat \<Rightarrow> nat \<times> nat \<times> nat \<Rightarrow>
   mtrie option list \<Rightarrow> nat \<times> nat \<times> nat \<Rightarrow> blob \<Rightarrow> blob list \<Rightarrow> bool" where
  "table_post p xs ch buff bs mx acc xs' acc' buff' ks \<longleftrightarrow>
     mtrie_rm_table p xs ch buff bs mx acc = Some (xs', acc', buff', map ((@) (take bs buff)) ks) \<and>
     list_all2 (swept p) xs xs' \<and> fst acc' + cnt lv xs = fst acc + cnt lv xs' \<and>
     least_of (live_pos (unat ch) xs') (fst (snd acc)) (fst (snd acc')) \<and>
     greatest_of (live_pos (unat ch) xs') (snd (snd acc)) (snd (snd acc')) \<and>
     take bs buff' = take bs buff \<and> mx \<le> length buff' \<and>
     distinct ks \<and> set ks = last_keys p (tab_get (Tab ch 0 xs))"

lemma mtrie_rm_table_ok:
  assumes "\<And>n. Some n \<in> set xs \<Longrightarrow> mrm_ok p n" "unat ch + length xs \<le> 256"
    "bs < mx" "mx \<le> length buff" "cnt lv xs \<le> fst acc"
  shows "\<exists>xs' acc' buff' ks. table_post p xs ch buff bs mx acc xs' acc' buff' ks"
  using assms
proof (induction xs arbitrary: ch buff acc)
  case Nil
  have "last_keys p (tab_get (Tab ch 0 [])) = {}" by (auto simp: last_keys_def tab_get_def tab_in_def)
  then have "table_post p [] ch buff bs mx acc [] acc buff []"
    using Nil by (simp add: table_post_def least_of_def greatest_of_def)
  then show ?case by blast
next
  case (Cons v xs)
  let ?b = "buff[bs := ch]"
  obtain live nm0 nx0 where acc: "acc = (live, nm0, nx0)" by (cases acc)
  have len: "unat ch + Suc (length xs) \<le> 256" using Cons.prems(2) by simp
  note nc = tab_next_char [OF len]
  have put: "buff_put buff bs ch = Some ?b" using Cons.prems by (simp add: buff_put_def)
  have get: "tab_get (Tab ch 0 (v # xs)) = (tab_get (Tab (ch + 1) 0 xs))(ch := v)"
    using tab_get_Cons [of ch xs 0 v] len by simp
  have pre: "mrm_ok p n" if "Some n \<in> set xs" for n using Cons.prems(1) that by simp
  show ?case
  proof (cases v)
    case None
    obtain xs' acc' b' ks where r: "table_post p xs (ch + 1) ?b bs mx acc xs' acc' b' ks"
      using Cons.IH [OF pre nc(2), where buff = ?b and acc = acc] Cons.prems None by auto
    then have "length xs' = length xs" by (auto simp: table_post_def dest: list_all2_lengthD)
    note lp = live_pos_next [OF len this]
    have "last_keys p (tab_get (Tab ch 0 (v # xs))) = last_keys p (tab_get (Tab (ch + 1) 0 xs))"
      using get None nc(1) by (simp add: fun_upd_idem)
    then have "table_post p (v # xs) ch buff bs mx acc (None # xs') acc' b' ks"
      using r None put lp by (simp add: table_post_def swept_def [of p None])
    then show ?thesis by blast
  next
    case (Some n)
    have ok: "mrm_ok p n" using Cons.prems(1) Some by simp
    have l1: "bs + 1 \<le> length ?b" "mx \<le> length ?b" using Cons.prems by simp_all
    obtain n' b1 k1 where h: "mtrie_rm_helper p n ?b (bs + 1) mx = Some (n', b1, map ((@) (take (bs + 1) ?b)) k1)"
      "take (bs + 1) b1 = take (bs + 1) ?b" "mx \<le> length b1" "mtrie_wf n'" "\<forall>k. mtrie_abs n' k = mtrie_abs n k - {p}"
      "distinct k1" "set k1 = {k. mtrie_abs n k = {p}}"
      using ok [unfolded mrm_ok_def, rule_format, OF l1] by (elim exE conjE)
    have b1t: "take bs b1 = take bs buff" using arg_cong [OF h(2), of "take bs"] by simp
    have m1: "map ((@) (take (bs + 1) ?b)) k1 = map ((@) (take bs buff)) (map (Cons ch) k1)"
      using Cons.prems by (simp add: take_update)
    define v' where "v' = (if mtrie_is_redundant n' then None else Some n')"
    define acc1 where "acc1 = (if mtrie_is_redundant n' then (live - 1, nm0, nx0)
        else (live, if unat ch < nm0 then unat ch else nm0, if unat ch > nx0 then unat ch else nx0))"
    have sw: "swept p v v'" using h(4,5) by (auto simp: swept_def Some v'_def)
    have live: "0 < live" "cnt lv xs \<le> fst acc1"
      using Cons.prems(5) Some by (auto simp: acc acc1_def)
    obtain xs' acc' b2 k2 where r: "table_post p xs (ch + 1) b1 bs mx acc1 xs' acc' b2 k2"
      using Cons.IH [OF pre nc(2) _ h(3) live(2)] Cons.prems by blast
    then have "length xs' = length xs" by (auto simp: table_post_def dest: list_all2_lengthD)
    note lp = live_pos_next [OF len this]
    have step: "mtrie_rm_table p (v # xs) ch buff bs mx acc =
        Some (v' # xs', acc', b2, map ((@) (take bs buff)) (map (Cons ch) k1 @ k2))"
      using r h(1) put live(1) b1t m1
      by (cases "mtrie_is_redundant n'") (simp_all add: Some acc v'_def acc1_def table_post_def)
    have keys: "distinct (map (Cons ch) k1 @ k2)" "set (map (Cons ch) k1 @ k2) = last_keys p (tab_get (Tab ch 0 (v # xs)))"
      using r h(6,7) nc(1) get Some last_keys_Some [of "tab_get (Tab (ch + 1) 0 xs)" ch p n]
      by (auto simp: table_post_def distinct_map last_keys_def)
    have cnts: "fst acc' + cnt lv (v # xs) = fst acc + cnt lv (v' # xs')"
      using r live by (auto simp: table_post_def Some acc acc1_def v'_def)
    have mm: "least_of (live_pos (unat ch) (v' # xs')) (fst (snd acc)) (fst (snd acc'))"
      "greatest_of (live_pos (unat ch) (v' # xs')) (snd (snd acc)) (snd (snd acc'))"
      using r lp least_of_insert greatest_of_insert by (auto simp: table_post_def acc acc1_def v'_def split: if_splits)
    have "table_post p (v # xs) ch buff bs mx acc (v' # xs') acc' b2 (map (Cons ch) k1 @ k2)"
      unfolding table_post_def using step sw cnts mm keys r b1t by (simp add: table_post_def)
    then show ?thesis by blast
  qed
qed

text \<open>The table after the sweep, seen as a map.\<close>

lemma swept_get:
  assumes "list_all2 (swept p) xs xs'"
  shows "swept p (tab_get (Tab mn l xs) c) (tab_get (Tab mn l' xs') c)"
  using assms list_all2_lengthD [OF assms] list_all2_nthD [OF assms, of "unat c - unat mn"]
  by (auto simp: tab_get_def tab_in_def swept_def [of p None])

lemma swept_wf:
  assumes "tab_ok tb" "pipes_ok ps" "\<And>c. swept p (m c) (tab_get tb c)"
    and "pipe_set ps = pipe_set ps0 - {p}" "\<And>k. mtrie_abs t k = (case k of [] \<Rightarrow> pipe_set ps0 | c # cs \<Rightarrow>
          (case m c of None \<Rightarrow> {} | Some n \<Rightarrow> mtrie_abs n cs))"
  shows "mtrie_wf (Mtrie ps tb)" "mtrie_abs (Mtrie ps tb) k = mtrie_abs t k - {p}"
proof -
  have sub: "mtrie_wf n \<and> \<not> mtrie_is_redundant n" if "tab_get tb c = Some n" for c n
    using assms(3) [of c] that by (auto simp: swept_def split: option.splits if_splits)
  show "mtrie_wf (Mtrie ps tb)" by (rule mtrie_wf.mnode) (use assms(1,2) sub in auto)
  show "mtrie_abs (Mtrie ps tb) k = mtrie_abs t k - {p}"
  proof (cases k)
    case Nil
    then show ?thesis using assms(4) assms(5) [of "[]"] by simp
  next
    case (Cons c cs)
    show ?thesis
    proof (cases "m c")
      case None
      then show ?thesis using Cons assms(3) [of c] assms(5) [of "c # cs"] by (simp add: swept_def)
    next
      case (Some n)
      with assms(3) [of c] obtain n' where n': "mtrie_wf n'" "\<forall>k. mtrie_abs n' k = mtrie_abs n k - {p}"
        "tab_get tb c = (if mtrie_is_redundant n' then None else Some n')" by (auto simp: swept_def)
      have "mtrie_is_redundant n' \<Longrightarrow> mtrie_abs n' cs = {}" using mtrie_redundant_abs [OF n'(1)] by blast
      with n' Some Cons assms(5) [of "c # cs"] show ?thesis by auto
    qed
  qed
qed

lemma mtrie_erase_ok:
  assumes "pipes_ok ps"
  shows "pipes_ok (snd (mtrie_erase p ps))" "pipe_set (snd (mtrie_erase p ps)) = pipe_set ps - {p}"
    "fst (mtrie_erase p ps) \<longleftrightarrow> pipe_set ps = {p}"
proof -
  show "pipes_ok (snd (mtrie_erase p ps))"
    using assms by (cases ps) (auto simp: mtrie_erase_def sorted_remove1 remove1_idem)
  have "remove1 p l = [] \<longleftrightarrow> set l - {p} = {}" if "ps = Some l" for l
    using assms that by (metis pipes_ok_simps(2) set_empty set_remove1_eq)
  then show "pipe_set (snd (mtrie_erase p ps)) = pipe_set ps - {p}"
    "fst (mtrie_erase p ps) \<longleftrightarrow> pipe_set ps = {p}"
    using assms by (cases ps; auto simp: mtrie_erase_def)+
qed

lemma tab_get_single_None: "tab_get (Tab mn l [None]) = tab_get (Tab mn l' [])"
  by (auto simp: tab_get_def tab_in_def fun_eq_iff)

text \<open>The three shapes of a node: no table, a single subnode, a table.\<close>

lemma mtrie_rm_helper_shape:
  assumes ok: "tab_ok (Tab mn l xs)" and g: "buff_grow buff bs mx = (b, m)" "take bs b = take bs buff"
    and er: "mtrie_erase p ps = (gone, ps')"
    and r: "table_post p xs mn b bs m (l, unat mn + length xs - 1, unat mn) xs' (live', nm, nx) b' ks"
    and lv': "live' = cnt lv xs'" and ln: "length xs' = length xs"
  shows "\<exists>tb'. mtrie_rm_helper p (Mtrie ps (Tab mn l xs)) buff bs mx =
          Some (Mtrie ps' tb', b', map ((@) (take bs buff)) ((if gone then [[]] else []) @ ks)) \<and>
        tab_ok tb' \<and> tab_get tb' = tab_get (Tab mn live' xs')"
proof -
  have bnd: "unat mn + length xs \<le> 256" and ends: "xs \<noteq> [] \<Longrightarrow> lv (hd xs)" and live: "l = cnt lv xs"
    using ok by (auto simp: tab_ok_def)
  note run = r [unfolded table_post_def, THEN conjunct1]
  consider "xs = []" | n where "xs = [Some n]" | "2 \<le> length xs"
  proof (cases xs)
    case (Cons v ys)
    then show ?thesis using that ends by (cases ys; cases v) auto
  qed (use that in blast)
  then show ?thesis
  proof cases
    case 1
    then show ?thesis using run g er ok live by auto
  next
    case 2
    with run obtain n' b1 c1 where h: "buff_put b bs mn = Some b1"
      "mtrie_rm_helper p n b1 (bs + 1) m = Some (n', b', c1)" "map ((@) (take bs b)) ks = c1"
      "(xs', live') = (if mtrie_is_redundant n' then ([None], l - 1) else ([Some n'], l))"
      by (auto simp: bind_eq_Some_conv split: if_splits)
    let ?tb = "if mtrie_is_redundant n' then Tab mn 0 [] else Tab mn l [Some n']"
    have "mtrie_rm_helper p (Mtrie ps (Tab mn l xs)) buff bs mx =
        Some (Mtrie ps' ?tb, b', map ((@) (take bs buff)) ((if gone then [[]] else []) @ ks))"
      using h g er 2 live by auto
    moreover have "tab_ok ?tb" "tab_get ?tb = tab_get (Tab mn live' xs')"
      using h(4) bnd 2 live by (auto simp: tab_ok_def tab_get_single_None [of mn 0 0])
    ultimately show ?thesis by blast
  next
    case 3
    from mtrie_shrink_ok [of mn xs' live' nm nx] r 3 bnd ln lv' obtain tb' where
      "mtrie_shrink (Tab mn live' xs') nm nx = Some tb'" "tab_ok tb'" "tab_get tb' = tab_get (Tab mn live' xs')"
      by (auto simp: table_post_def)
    moreover have "xs \<noteq> []" "length xs \<noteq> 1" using 3 by auto
    ultimately show ?thesis using run g er by auto
  qed
qed

lemma mtrie_rm_helper_ok: "mtrie_wf t \<Longrightarrow> mrm_ok p t"
proof (induction t rule: mtrie_wf.induct)
  case (mnode tb ps)
  obtain mn l xs where tb: "tb = Tab mn l xs" by (cases tb)
  have bnd: "unat mn + length xs \<le> 256" and ends: "xs \<noteq> [] \<Longrightarrow> lv (hd xs)" and live: "l = cnt lv xs"
    using mnode(1) by (auto simp: tab_ok_def tb)
  have sub: "mrm_ok p n" if "Some n \<in> set xs" for n
  proof -
    from that obtain j where j: "j < length xs" "xs ! j = Some n" by (auto simp: in_set_conv_nth)
    then have "unat (mn + of_nat j) = unat mn + j" using bnd by (simp add: unat_word_ariths unat_of_nat)
    with j have "tab_get tb (mn + of_nat j) = Some n" by (simp add: tab_get_iff tb)
    then show ?thesis using mnode(3-) by blast
  qed
  obtain gone ps' where er: "mtrie_erase p ps = (gone, ps')" by force
  note e = mtrie_erase_ok [OF mnode(2), of p, unfolded er, simplified]
  have tabget: "tab_get (Tab mn 0 xs) = tab_get tb" by (simp add: tb tab_get_def tab_in_def fun_eq_iff)
  have keys: "{k. mtrie_abs (Mtrie ps tb) k = {p}} = (if gone then {[]} else {}) \<union> last_keys p (tab_get tb)"
  proof (rule set_eqI)
    fix k show "k \<in> {k. mtrie_abs (Mtrie ps tb) k = {p}} \<longleftrightarrow> k \<in> (if gone then {[]} else {}) \<union> last_keys p (tab_get tb)"
      using e(3) by (cases k) (auto simp: last_keys_def split: option.splits)
  qed
  have nil: "[] \<notin> last_keys p m" for m by (simp add: last_keys_def)
  show ?case unfolding mrm_ok_def
  proof (intro allI impI)
    fix buff :: blob and bs mx :: nat
    assume len: "bs \<le> length buff" "mx \<le> length buff"
    obtain b m where g: "buff_grow buff bs mx = (b, m)" by force
    note gr = buff_grow_ok [OF len g]
    obtain xs' acc' b' ks where r:
      "table_post p xs mn b bs m (l, unat mn + length xs - 1, unat mn) xs' acc' b' ks"
      using mtrie_rm_table_ok [of xs p mn bs m b] sub bnd gr live by (metis fst_conv le_refl)
    obtain live' nm nx where acc': "acc' = (live', nm, nx)" by (cases acc')
    have sw: "list_all2 (swept p) xs xs'" and lv': "live' = cnt lv xs'" and ln: "length xs' = length xs"
      using r live list_all2_lengthD [of "swept p" xs xs'] by (auto simp: table_post_def acc')
    have "\<exists>tb'. mtrie_rm_helper p (Mtrie ps tb) buff bs mx =
          Some (Mtrie ps' tb', b', map ((@) (take bs buff)) ((if gone then [[]] else []) @ ks)) \<and>
        tab_ok tb' \<and> tab_get tb' = tab_get (Tab mn live' xs')"
      using mtrie_rm_helper_shape [OF mnode(1) [unfolded tb] g gr(1) er r [unfolded acc'] lv' ln] by (simp add: tb)
    then obtain tb' where h: "mtrie_rm_helper p (Mtrie ps tb) buff bs mx =
          Some (Mtrie ps' tb', b', map ((@) (take bs buff)) ((if gone then [[]] else []) @ ks))"
      "tab_ok tb'" "tab_get tb' = tab_get (Tab mn live' xs')" by blast
    have "swept p (tab_get tb c) (tab_get tb' c)" for c using swept_get [OF sw] by (simp add: tb h(3))
    note wf = swept_wf [OF h(2) e(1) this e(2), of "Mtrie ps tb"]
    have "mtrie_abs (Mtrie ps tb) k = (case k of [] \<Rightarrow> pipe_set ps | c # cs \<Rightarrow>
          (case tab_get tb c of None \<Rightarrow> {} | Some n \<Rightarrow> mtrie_abs n cs))" for k
      by (cases k) simp_all
    note wf = wf [OF this]
    let ?ks = "(if gone then [[]] else []) @ ks"
    have "distinct ?ks" "set ?ks = {k. mtrie_abs (Mtrie ps tb) k = {p}}"
      using r nil keys by (auto simp: table_post_def tabget)
    moreover have "take bs b' = take bs buff" "bs \<le> length b'" "mx \<le> length b'"
      using r gr by (auto simp: table_post_def)
    ultimately show "\<exists>t' buff' ks. mtrie_rm_helper p (Mtrie ps tb) buff bs mx =
          Some (t', buff', map ((@) (take bs buff)) ks) \<and>
        take bs buff' = take bs buff \<and> bs \<le> length buff' \<and> mx \<le> length buff' \<and>
        mtrie_wf t' \<and> (\<forall>k. mtrie_abs t' k = mtrie_abs (Mtrie ps tb) k - {p}) \<and>
        distinct ks \<and> set ks = {k. mtrie_abs (Mtrie ps tb) k = {p}}"
      using h(1) wf by blast
  qed
qed

section \<open>Properties\<close>

datatype mt_op = MAdd blob addr | MRm blob addr | MRmPipe addr

fun mt_step :: "mt_op \<Rightarrow> mtrie \<Rightarrow> mtrie option" where
  "mt_step (MAdd k p) t = Some (snd (mtrie_add k p t))"
| "mt_step (MRm k p) t = map_option snd (mtrie_rm k p t)"
| "mt_step (MRmPipe p) t = map_option fst (mtrie_rm_pipe p t)"

fun mt_run :: "mt_op list \<Rightarrow> mtrie \<Rightarrow> mtrie option" where
  "mt_run [] t = Some t"
| "mt_run (x # xs) t = do { t \<leftarrow> mt_step x t; mt_run xs t }"

text \<open>The specification, including the one call that is fatal.\<close>

fun peers_step :: "mt_op \<Rightarrow> (blob \<Rightarrow> addr set) \<Rightarrow> (blob \<Rightarrow> addr set) option" where
  "peers_step (MAdd k p) m = Some (m(k := insert p (m k)))"
| "peers_step (MRm k p) m =
     (if m k = {} then Some m else if p \<notin> m k then None else Some (m(k := m k - {p})))"
| "peers_step (MRmPipe p) m = Some (\<lambda>k. m k - {p})"

fun peers_run :: "mt_op list \<Rightarrow> (blob \<Rightarrow> addr set) \<Rightarrow> (blob \<Rightarrow> addr set) option" where
  "peers_run [] m = Some m"
| "peers_run (x # xs) m = do { m \<leftarrow> peers_step x m; peers_run xs m }"

lemma mtrie_rm_pipe_ok:
  assumes "mtrie_wf t"
  shows "\<exists>t' ks. mtrie_rm_pipe p t = Some (t', ks) \<and> mtrie_wf t' \<and> (\<forall>k. mtrie_abs t' k = mtrie_abs t k - {p}) \<and>
     distinct ks \<and> set ks = {k. mtrie_abs t k = {p}}"
  using mtrie_rm_helper_ok [OF assms, of p, unfolded mrm_ok_def, rule_format, of 0 "[]" 0]
  by (auto simp: mtrie_rm_pipe_def map_idI)

lemma mt_step_ok:
  assumes "mtrie_wf t"
  shows "case peers_step x (mtrie_abs t) of
      None \<Rightarrow> mt_step x t = None
    | Some m \<Rightarrow> \<exists>t'. mt_step x t = Some t' \<and> mtrie_wf t' \<and> mtrie_abs t' = m"
proof (cases x)
  case (MAdd k p)
  then show ?thesis using mtrie_add_ok [OF assms, of k p] by auto
next
  case (MRm k p)
  then show ?thesis using mtrie_rm_ok [OF assms, of k p] by (auto split: if_splits)
next
  case (MRmPipe p)
  then show ?thesis using mtrie_rm_pipe_ok [OF assms, of p] by (auto simp: fun_eq_iff)
qed

lemma mt_run_ok:
  "mtrie_wf t \<Longrightarrow> case peers_run xs (mtrie_abs t) of
      None \<Rightarrow> mt_run xs t = None
    | Some m \<Rightarrow> \<exists>t'. mt_run xs t = Some t' \<and> mtrie_wf t' \<and> mtrie_abs t' = m"
proof (induction xs arbitrary: t)
  case (Cons x xs)
  show ?case
  proof (cases "peers_step x (mtrie_abs t)")
    case None
    then show ?thesis using mt_step_ok [OF Cons.prems, of x] by (auto split: option.splits)
  next
    case (Some m)
    with mt_step_ok [OF Cons.prems, of x] obtain t1 where "mt_step x t = Some t1" "mtrie_wf t1" "mtrie_abs t1 = m"
      by auto
    with Some Cons.IH [of t1] show ?thesis by (auto split: option.splits)
  qed
qed simp

lemma mt_run_new:
  assumes "peers_run xs (\<lambda>_. {}) = Some m"
  shows "\<exists>t. mt_run xs mtrie_new = Some t \<and> mtrie_wf t \<and> mtrie_abs t = m"
proof -
  have "mtrie_abs mtrie_new = (\<lambda>_. {})" by (rule ext) simp
  then show ?thesis using mt_run_ok [OF mtrie_new_wf, of xs] assms by simp
qed

text \<open>C31: The multi-trie implements a map from topics to sets of peers: after any sequence of
  subscriptions, unsubscriptions of subscribed peers and removals of peers no assertion has failed, and
  \<open>match\<close> signals exactly the peers subscribed to a prefix of the message.\<close>

theorem mtrie_refines_peers:
  assumes "peers_run ops (\<lambda>_. {}) = Some m"
  shows "\<exists>t. mt_run ops mtrie_new = Some t \<and>
     (\<forall>d. \<exists>ps. mtrie_match d t = Some ps \<and> set ps = (\<Union>k \<in> {k. prefix k d}. m k))"
  using mt_run_new [OF assms] mtrie_match_ok by blast

theorem mtrie_refines_peers_witness:
  "\<exists>t ps. mt_run [MAdd [1] 5, MAdd [1, 2] 6, MAdd [3] 5, MRm [1] 5, MRmPipe 7] mtrie_new = Some t \<and>
     mtrie_match [1, 2, 3] t = Some ps \<and> set ps = {6}"
proof -
  let ?ops = "[MAdd [1] 5, MAdd [1, 2] 6, MAdd [3] 5, MRm [1] 5, MRmPipe 7]"
  define m where "m = (\<lambda>k :: blob. if k = [1, 2] then {6 :: addr} else if k = [3] then {5} else {})"
  have run: "peers_run ?ops (\<lambda>_. {}) = Some m" by (auto simp: m_def fun_eq_iff)
  have "(\<Union>k \<in> {k. prefix k [1, 2, 3]}. m k) = {6}" by (auto simp: m_def prefix_Cons)
  with mtrie_refines_peers [OF run] show ?thesis by metis
qed

text \<open>When a peer goes away, \<open>rm\<close> reports exactly the topics that nobody is subscribed to any
  more, each of them once, removes the peer from every topic, and stays inside its buffer.\<close>

theorem mtrie_rm_pipe_reports:
  assumes "peers_run ops (\<lambda>_. {}) = Some m" "mt_run ops mtrie_new = Some t"
  shows "\<exists>t' ks. mtrie_rm_pipe p t = Some (t', ks) \<and> mtrie_abs t' = (\<lambda>k. m k - {p}) \<and>
     distinct ks \<and> set ks = {k. m k = {p}}"
proof -
  have t: "mtrie_wf t" "mtrie_abs t = m" using mt_run_new [OF assms(1)] assms(2) by auto
  then show ?thesis using mtrie_rm_pipe_ok [OF t(1), of p] by (auto simp: fun_eq_iff)
qed

theorem mtrie_rm_pipe_reports_witness:
  "\<exists>t t' ks. mt_run [MAdd [1] 5, MAdd [1, 2] 6, MAdd [1] 6, MAdd [9] 6] mtrie_new = Some t \<and>
     mtrie_rm_pipe 6 t = Some (t', ks) \<and> set ks = {[1, 2], [9]}"
proof -
  let ?ops = "[MAdd [1] 5, MAdd [1, 2] 6, MAdd [1] 6, MAdd [9] 6]"
  define m where "m = (\<lambda>k :: blob. if k = [1] then {5 :: addr, 6} else if k = [1, 2] then {6} else if k = [9] then {6} else {})"
  have run: "peers_run ?ops (\<lambda>_. {}) = Some m" by (auto simp: m_def fun_eq_iff)
  obtain t where t: "mt_run ?ops mtrie_new = Some t" using mt_run_new [OF run] by blast
  have "{k. m k = {6}} = {[1, 2], [9]}" by (auto simp: m_def split: if_splits)
  with mtrie_rm_pipe_reports [OF run t, of 6] t show ?thesis by metis
qed

text \<open>Unsubscribing is not safe against a misbehaving peer: if the unsubscribed topic has
  subscribers but the peer is not among them, the assertion \<open>erased == 1\<close> aborts the process.
  The topic and the peer come from the network.\<close>

theorem mtrie_rm_foreign_aborts:
  assumes "peers_run ops (\<lambda>_. {}) = Some m" "m k \<noteq> {}" "p \<notin> m k"
  shows "\<exists>t. mt_run ops mtrie_new = Some t \<and> mtrie_rm k p t = None"
proof -
  obtain t where "mt_run ops mtrie_new = Some t" "mtrie_wf t" "mtrie_abs t = m" using mt_run_new [OF assms(1)] by blast
  then show ?thesis using mtrie_rm_ok [of t k p] assms(2,3) by auto
qed

theorem mtrie_rm_foreign_aborts_witness:
  "\<exists>t. mt_run [MAdd [65] 1] mtrie_new = Some t \<and> mtrie_rm [65] 2 t = None"
  by (rule mtrie_rm_foreign_aborts [where m = "(\<lambda>_. {})([65] := {1})"]) auto

end
