(* ===== verification/Wire.thy ===== *)
theory Wire
  imports Prelude
begin

unbundle bit_operations_syntax

text \<open>
  The conversions between integers and network byte order of src/libzmq/src/wire.hpp, and that
  they are inverse to each other.
\<close>

definition put_uint8 :: "byte \<Rightarrow> blob" where
  "put_uint8 v = [v]"

definition get_uint8 :: "blob \<Rightarrow> byte" where
  "get_uint8 b = b ! 0"

definition put_uint16 :: "u16 \<Rightarrow> blob" where
  "put_uint16 v = [ucast (drop_bit 8 v AND 0xff), ucast (v AND 0xff)]"

definition get_uint16 :: "blob \<Rightarrow> u16" where
  "get_uint16 b = push_bit 8 (ucast (b ! 0)) OR ucast (b ! 1)"

definition put_uint32 :: "u32 \<Rightarrow> blob" where
  "put_uint32 v =
     [ucast (drop_bit 24 v AND 0xff), ucast (drop_bit 16 v AND 0xff),
      ucast (drop_bit 8 v AND 0xff), ucast (v AND 0xff)]"

definition get_uint32 :: "blob \<Rightarrow> u32" where
  "get_uint32 b =
     push_bit 24 (ucast (b ! 0)) OR push_bit 16 (ucast (b ! 1)) OR
     push_bit 8 (ucast (b ! 2)) OR ucast (b ! 3)"

definition put_uint64 :: "u64 \<Rightarrow> blob" where
  "put_uint64 v =
     [ucast (drop_bit 56 v AND 0xff), ucast (drop_bit 48 v AND 0xff),
      ucast (drop_bit 40 v AND 0xff), ucast (drop_bit 32 v AND 0xff),
      ucast (drop_bit 24 v AND 0xff), ucast (drop_bit 16 v AND 0xff),
      ucast (drop_bit 8 v AND 0xff), ucast (v AND 0xff)]"

definition get_uint64 :: "blob \<Rightarrow> u64" where
  "get_uint64 b =
     push_bit 56 (ucast (b ! 0)) OR push_bit 48 (ucast (b ! 1)) OR
     push_bit 40 (ucast (b ! 2)) OR push_bit 32 (ucast (b ! 3)) OR
     push_bit 24 (ucast (b ! 4)) OR push_bit 16 (ucast (b ! 5)) OR
     push_bit 8 (ucast (b ! 6)) OR ucast (b ! 7)"

lemma mask8: "(0xff :: 'a::len word) = mask 8"
  by (simp add: mask_eq_exp_minus_1)

text \<open>The bits that one byte of the encoding contributes.\<close>

lemma bit_wire_byte:
  fixes v :: "'a::len word"
  shows "bit (push_bit k (ucast (ucast (drop_bit k v AND mask 8) :: byte)) :: 'a word) n \<longleftrightarrow>
     k \<le> n \<and> n < k + 8 \<and> bit v n"
  by (auto simp: bit_simps dest: bit_imp_le_length)

lemma bit_wire_byte0:
  fixes v :: "'a::len word"
  shows "bit (ucast (ucast (v AND mask 8) :: byte) :: 'a word) n \<longleftrightarrow> n < 8 \<and> bit v n"
  by (auto simp: bit_simps dest: bit_imp_le_length)

lemma get_put_uint16 [simp]: "get_uint16 (put_uint16 v) = v"
proof (rule bit_word_eqI)
  fix n assume "n < LENGTH(16)"
  then have "(8 \<le> n \<and> n < 8 + 8) \<or> n < 8" by simp linarith
  then show "bit (get_uint16 (put_uint16 v)) n = bit v n"
    unfolding get_uint16_def put_uint16_def mask8
    by (simp add: bit_or_iff bit_wire_byte bit_wire_byte0) blast
qed

lemma get_put_uint32 [simp]: "get_uint32 (put_uint32 v) = v"
proof (rule bit_word_eqI)
  fix n assume "n < LENGTH(32)"
  then have "(24 \<le> n \<and> n < 24 + 8) \<or> (16 \<le> n \<and> n < 16 + 8) \<or> (8 \<le> n \<and> n < 8 + 8) \<or> n < 8" by simp linarith
  then show "bit (get_uint32 (put_uint32 v)) n = bit v n"
    unfolding get_uint32_def put_uint32_def mask8
    by (simp add: bit_or_iff bit_wire_byte bit_wire_byte0) blast
qed

lemma get_put_uint64 [simp]: "get_uint64 (put_uint64 v) = v"
proof (rule bit_word_eqI)
  fix n assume "n < LENGTH(64)"
  then have "(56 \<le> n \<and> n < 56 + 8) \<or> (48 \<le> n \<and> n < 48 + 8) \<or> (40 \<le> n \<and> n < 40 + 8) \<or>
      (32 \<le> n \<and> n < 32 + 8) \<or> (24 \<le> n \<and> n < 24 + 8) \<or> (16 \<le> n \<and> n < 16 + 8) \<or>
      (8 \<le> n \<and> n < 8 + 8) \<or> n < 8" by simp linarith
  then show "bit (get_uint64 (put_uint64 v)) n = bit v n"
    unfolding get_uint64_def put_uint64_def mask8
    by (simp add: bit_or_iff bit_wire_byte bit_wire_byte0) blast
qed

lemma length_put_uint64 [simp]: "length (put_uint64 v) = 8"
  by (simp add: put_uint64_def)

end
