(* ===== verification/Codec.thy ===== *)
theory Codec
  imports Wire Msg
begin

unbundle bit_operations_syntax

text \<open>
  The framing of messages on a byte stream: the state machines of encoder.hpp and decoder.hpp
  with the steps of v1_encoder.cpp, v2_encoder.cpp, v1_decoder.cpp, v2_decoder.cpp, the constants
  of v2_protocol.hpp, and the loop of \<open>stream_engine_t::in_event\<close> that feeds a decoder (all under
  src/libzmq/src). A codec owns the message it works on, so the message is a value here: its
  flags and its bytes.
\<close>

record wmsg =
  wm_flags :: byte
  wm_data :: blob

definition wmsg_init :: wmsg where
  "wmsg_init = \<lparr>wm_flags = 0, wm_data = []\<rparr>"

text \<open>\<open>msg_t::init_size\<close>, with \<open>mem\<close> the largest block \<open>malloc\<close> can provide.\<close>

definition wmsg_init_size :: "nat \<Rightarrow> nat \<Rightarrow> (errno + wmsg) option" where
  "wmsg_init_size mem sz =
     (if sz \<le> max_vsm_size then Some (Inr \<lparr>wm_flags = 0, wm_data = replicate sz 0\<rparr>)
      else if malloc_fails mem sz then Some (Inl ENOMEM)
      else if \<not> size_fits sz then None
      else Some (Inr \<lparr>wm_flags = 0, wm_data = replicate sz 0\<rparr>))"

definition v2_more_flag :: byte where "v2_more_flag = 1"
definition v2_large_flag :: byte where "v2_large_flag = 2"
definition v2_command_flag :: byte where "v2_command_flag = 4"

section \<open>Decoders\<close>

text \<open>\<open>read_pos\<close> points into the temporary buffer or into the message body.\<close>

datatype dest = Tmpbuf nat | Body nat

datatype dstep = FlagsReady | OneByteSizeReady | EightByteSizeReady | MessageReady

text \<open>The return values -1 (with \<open>errno\<close>), 0 and 1.\<close>

datatype drc = DError errno | DMore | DDone

record decoder =
  d_next :: dstep
  read_pos :: dest
  to_read :: nat
  d_tmpbuf :: blob
  d_msg :: wmsg
  d_msg_flags :: byte
  maxmsgsize :: int
  d_bufsize :: nat
  d_avail :: nat

definition dec_next_step :: "dest \<Rightarrow> nat \<Rightarrow> dstep \<Rightarrow> decoder \<Rightarrow> decoder" where
  "dec_next_step pos n nx d = d\<lparr>read_pos := pos, to_read := n, d_next := nx\<rparr>"

definition v2_decoder_new :: "nat \<Rightarrow> int \<Rightarrow> nat \<Rightarrow> decoder" where
  "v2_decoder_new bufsize maxsize mem =
     \<lparr>d_next = FlagsReady, read_pos = Tmpbuf 0, to_read = 1, d_tmpbuf = replicate 8 0, d_msg = wmsg_init,
      d_msg_flags = 0, maxmsgsize = maxsize, d_bufsize = bufsize, d_avail = mem\<rparr>"

definition v1_decoder_new :: "nat \<Rightarrow> int \<Rightarrow> nat \<Rightarrow> decoder" where
  "v1_decoder_new bufsize maxsize mem =
     \<lparr>d_next = OneByteSizeReady, read_pos = Tmpbuf 0, to_read = 1, d_tmpbuf = replicate 8 0, d_msg = wmsg_init,
      d_msg_flags = 0, maxmsgsize = maxsize, d_bufsize = bufsize, d_avail = mem\<rparr>"

definition v2_flags_ready :: "decoder \<Rightarrow> (drc \<times> decoder) option" where
  "v2_flags_ready d =
     (let b = d_tmpbuf d ! 0;
          fl = (if b AND v2_more_flag \<noteq> 0 then flag_more else 0) OR
               (if b AND v2_command_flag \<noteq> 0 then flag_command else 0);
          d = d\<lparr>d_msg_flags := fl\<rparr>
      in Some (DMore, if b AND v2_large_flag \<noteq> 0
                      then dec_next_step (Tmpbuf 0) 8 EightByteSizeReady d
                      else dec_next_step (Tmpbuf 0) 1 OneByteSizeReady d))"

definition v2_size_ready :: "nat \<Rightarrow> decoder \<Rightarrow> (drc \<times> decoder) option" where
  "v2_size_ready sz d =
     (if maxmsgsize d \<ge> 0 \<and> int sz > maxmsgsize d then Some (DError EMSGSIZE, d)
      else do {
        r \<leftarrow> wmsg_init_size (d_avail d) sz;
        case r of
          Inl e \<Rightarrow> Some (DError ENOMEM, d\<lparr>d_msg := wmsg_init\<rparr>)
        | Inr m \<Rightarrow>
            Some (DMore, dec_next_step (Body 0) (length (wm_data m)) MessageReady
                           (d\<lparr>d_msg := m\<lparr>wm_flags := wm_flags m OR d_msg_flags d\<rparr>\<rparr>)) })"

text \<open>The two size steps of version 2; \<open>size_t\<close> has 64 bits, so the cast loses nothing.\<close>

definition v2_one_byte_size_ready :: "decoder \<Rightarrow> (drc \<times> decoder) option" where
  "v2_one_byte_size_ready d = v2_size_ready (unat (d_tmpbuf d ! 0)) d"

definition v2_eight_byte_size_ready :: "decoder \<Rightarrow> (drc \<times> decoder) option" where
  "v2_eight_byte_size_ready d = v2_size_ready (unat (get_uint64 (d_tmpbuf d))) d"

definition v2_message_ready :: "decoder \<Rightarrow> (drc \<times> decoder) option" where
  "v2_message_ready d = Some (DDone, dec_next_step (Tmpbuf 0) 1 FlagsReady d)"

definition v2_step :: "decoder \<Rightarrow> (drc \<times> decoder) option" where
  "v2_step d = (case d_next d of
      FlagsReady \<Rightarrow> v2_flags_ready d
    | OneByteSizeReady \<Rightarrow> v2_one_byte_size_ready d
    | EightByteSizeReady \<Rightarrow> v2_eight_byte_size_ready d
    | MessageReady \<Rightarrow> v2_message_ready d)"

definition v1_payload_ready :: "nat \<Rightarrow> decoder \<Rightarrow> (drc \<times> decoder) option" where
  "v1_payload_ready payload_length d =
     (if payload_length = 0 then Some (DError EPROTO, d)
      else if maxmsgsize d \<ge> 0 \<and> int (payload_length - 1) > maxmsgsize d then Some (DError EMSGSIZE, d)
      else do {
        r \<leftarrow> wmsg_init_size (d_avail d) (payload_length - 1);
        case r of
          Inl e \<Rightarrow> Some (DError ENOMEM, d\<lparr>d_msg := wmsg_init\<rparr>)
        | Inr m \<Rightarrow> Some (DMore, dec_next_step (Tmpbuf 0) 1 FlagsReady (d\<lparr>d_msg := m\<rparr>)) })"

definition v1_one_byte_size_ready :: "decoder \<Rightarrow> (drc \<times> decoder) option" where
  "v1_one_byte_size_ready d =
     (if d_tmpbuf d ! 0 = 0xff then Some (DMore, dec_next_step (Tmpbuf 0) 8 EightByteSizeReady d)
      else v1_payload_ready (unat (d_tmpbuf d ! 0)) d)"

definition v1_eight_byte_size_ready :: "decoder \<Rightarrow> (drc \<times> decoder) option" where
  "v1_eight_byte_size_ready d = v1_payload_ready (unat (get_uint64 (d_tmpbuf d))) d"

definition v1_flags_ready :: "decoder \<Rightarrow> (drc \<times> decoder) option" where
  "v1_flags_ready d =
     (let m = d_msg d; m = m\<lparr>wm_flags := wm_flags m OR (d_tmpbuf d ! 0 AND flag_more)\<rparr>
      in Some (DMore, dec_next_step (Body 0) (length (wm_data m)) MessageReady (d\<lparr>d_msg := m\<rparr>)))"

definition v1_message_ready :: "decoder \<Rightarrow> (drc \<times> decoder) option" where
  "v1_message_ready d = Some (DDone, dec_next_step (Tmpbuf 0) 1 OneByteSizeReady d)"

definition v1_step :: "decoder \<Rightarrow> (drc \<times> decoder) option" where
  "v1_step d = (case d_next d of
      FlagsReady \<Rightarrow> v1_flags_ready d
    | OneByteSizeReady \<Rightarrow> v1_one_byte_size_ready d
    | EightByteSizeReady \<Rightarrow> v1_eight_byte_size_ready d
    | MessageReady \<Rightarrow> v1_message_ready d)"

text \<open>\<open>memcpy (read_pos, data, n)\<close> with the pointer arithmetic; a write outside the object
  \<open>read_pos\<close> points into is undefined behaviour.\<close>

definition splice :: "blob \<Rightarrow> nat \<Rightarrow> blob \<Rightarrow> blob option" where
  "splice xs i ys =
     (if i + length ys \<le> length xs then Some (take i xs @ ys @ drop (i + length ys) xs) else None)"

definition dec_write :: "blob \<Rightarrow> decoder \<Rightarrow> decoder option" where
  "dec_write ys d =
     (case read_pos d of
        Tmpbuf i \<Rightarrow>
          do { b \<leftarrow> splice (d_tmpbuf d) i ys;
               Some (d\<lparr>d_tmpbuf := b, read_pos := Tmpbuf (i + length ys), to_read := to_read d - length ys\<rparr>) }
      | Body i \<Rightarrow>
          do { b \<leftarrow> splice (wm_data (d_msg d)) i ys;
               Some (d\<lparr>d_msg := (d_msg d)\<lparr>wm_data := b\<rparr>, read_pos := Body (i + length ys),
                       to_read := to_read d - length ys\<rparr>) })"

text \<open>\<open>while (to_read == 0) { rc = next (); if (rc != 0) return rc; }\<close>\<close>

partial_function (option) run_steps ::
  "(decoder \<Rightarrow> (drc \<times> decoder) option) \<Rightarrow> decoder \<Rightarrow> (drc \<times> decoder) option" where
  "run_steps nx d =
     (if to_read d \<noteq> 0 then Some (DMore, d)
      else do { (rc, d) \<leftarrow> nx d; if rc \<noteq> DMore then Some (rc, d) else run_steps nx d })"

text \<open>The copying loop of \<open>decode\<close>; the result has the number of bytes used.\<close>

partial_function (option) decode_loop ::
  "(decoder \<Rightarrow> (drc \<times> decoder) option) \<Rightarrow> blob \<Rightarrow> decoder \<Rightarrow> (drc \<times> nat \<times> decoder) option" where
  "decode_loop nx data d =
     (if data = [] then Some (DMore, 0, d)
      else let to_copy = min (to_read d) (length data) in
        do { d \<leftarrow> dec_write (take to_copy data) d;
             (rc, d) \<leftarrow> run_steps nx d;
             if rc \<noteq> DMore then Some (rc, to_copy, d)
             else do { (rc, used, d) \<leftarrow> decode_loop nx (drop to_copy data) d;
                       Some (rc, to_copy + used, d) } })"

text \<open>\<open>decode\<close>; with zero copy the caller has put the data where \<open>read_pos\<close> points.\<close>

definition decode :: "(decoder \<Rightarrow> (drc \<times> decoder) option) \<Rightarrow> bool \<Rightarrow> blob \<Rightarrow> decoder \<Rightarrow> (drc \<times> nat \<times> decoder) option" where
  "decode nx zero_copy data d =
     (if zero_copy
      then do { zmq_assert (length data \<le> to_read d);
                d \<leftarrow> dec_write data d;
                (rc, d) \<leftarrow> run_steps nx d;
                Some (rc, length data, d) }
      else decode_loop nx data d)"

text \<open>\<open>get_buffer\<close>: the size offered to the caller, and whether it is the message itself.\<close>

definition get_buffer :: "decoder \<Rightarrow> bool \<times> nat" where
  "get_buffer d = (if to_read d \<ge> d_bufsize d then (True, to_read d) else (False, d_bufsize d))"

text \<open>The loop of \<open>in_event\<close>: decode what was read, hand every message over. The session takes
  the message and leaves an empty one; the results are the messages and the error, if any.\<close>

partial_function (option) in_loop ::
  "(decoder \<Rightarrow> (drc \<times> decoder) option) \<Rightarrow> bool \<Rightarrow> blob \<Rightarrow> decoder \<Rightarrow> (wmsg list \<times> errno option \<times> decoder) option" where
  "in_loop nx zero_copy data d =
     (if data = [] then Some ([], None, d)
      else do { (rc, processed, d) \<leftarrow> decode nx zero_copy data d;
                zmq_assert (processed \<le> length data);
                case rc of
                  DMore \<Rightarrow> Some ([], None, d)
                | DError e \<Rightarrow> Some ([], Some e, d)
                | DDone \<Rightarrow>
                    do { (ms, e, d') \<leftarrow> in_loop nx False (drop processed data) (d\<lparr>d_msg := wmsg_init\<rparr>);
                         Some (d_msg d # ms, e, d') } })"

definition in_event :: "(decoder \<Rightarrow> (drc \<times> decoder) option) \<Rightarrow> blob \<Rightarrow> decoder \<Rightarrow> (wmsg list \<times> errno option \<times> decoder) option" where
  "in_event nx data d = in_loop nx (fst (get_buffer d)) data d"

section \<open>Encoders\<close>

datatype estep = ESizeReady | EMessageReady

record encoder =
  e_next :: estep
  to_write :: blob
  new_msg_flag :: bool
  e_in_progress :: "wmsg option"
  e_bufsize :: nat

definition encoder_new :: "nat \<Rightarrow> encoder" where
  "encoder_new bufsize =
     \<lparr>e_next = EMessageReady, to_write = [], new_msg_flag = True, e_in_progress = None, e_bufsize = bufsize\<rparr>"

definition v2_header :: "wmsg \<Rightarrow> blob" where
  "v2_header m =
     (let size = length (wm_data m);
          protocol_flags = (if wm_flags m AND flag_more \<noteq> 0 then v2_more_flag else 0) OR
                           (if size > 255 then v2_large_flag else 0) OR
                           (if wm_flags m AND flag_command \<noteq> 0 then v2_command_flag else 0)
      in protocol_flags # (if size > 255 then put_uint64 (of_nat size) else [of_nat size]))"

definition v1_header :: "wmsg \<Rightarrow> blob" where
  "v1_header m =
     (let size = length (wm_data m) + 1
      in if size < 255 then [of_nat size, wm_flags m AND flag_more]
         else 0xff # put_uint64 (of_nat size) @ [wm_flags m AND flag_more])"

definition enc_next_step :: "blob \<Rightarrow> estep \<Rightarrow> bool \<Rightarrow> encoder \<Rightarrow> encoder" where
  "enc_next_step bs nx fl e = e\<lparr>to_write := bs, e_next := nx, new_msg_flag := fl\<rparr>"

text \<open>The steps dereference \<open>in_progress\<close>. The raw encoder has a single step.\<close>

definition v2_enc_step :: "encoder \<Rightarrow> encoder option" where
  "v2_enc_step e =
     do { m \<leftarrow> e_in_progress e;
          Some (case e_next e of
                  EMessageReady \<Rightarrow> enc_next_step (v2_header m) ESizeReady False e
                | ESizeReady \<Rightarrow> enc_next_step (wm_data m) EMessageReady True e) }"

definition v1_enc_step :: "encoder \<Rightarrow> encoder option" where
  "v1_enc_step e =
     do { m \<leftarrow> e_in_progress e;
          Some (case e_next e of
                  EMessageReady \<Rightarrow> enc_next_step (v1_header m) ESizeReady False e
                | ESizeReady \<Rightarrow> enc_next_step (wm_data m) EMessageReady True e) }"

definition raw_enc_step :: "encoder \<Rightarrow> encoder option" where
  "raw_enc_step e =
     do { m \<leftarrow> e_in_progress e; Some (enc_next_step (wm_data m) EMessageReady True e) }"

definition load_msg :: "(encoder \<Rightarrow> encoder option) \<Rightarrow> wmsg \<Rightarrow> encoder \<Rightarrow> encoder option" where
  "load_msg nx m e =
     do { zmq_assert (e_in_progress e = None); nx (e\<lparr>e_in_progress := Some m\<rparr>) }"

partial_function (option) encode_loop ::
  "(encoder \<Rightarrow> encoder option) \<Rightarrow> bool \<Rightarrow> nat \<Rightarrow> blob \<Rightarrow> encoder \<Rightarrow> (blob \<times> encoder) option" where
  "encode_loop nx null buffersize out e =
     (if length out \<ge> buffersize then Some (out, e)
      else if to_write e = [] \<and> new_msg_flag e then Some (out, e\<lparr>e_in_progress := None\<rparr>)
      else do {
        e \<leftarrow> (if to_write e = [] then nx e else Some e);
        if out = [] \<and> null \<and> length (to_write e) \<ge> buffersize
        then Some (to_write e, e\<lparr>to_write := []\<rparr>)
        else let n = min (length (to_write e)) (buffersize - length out)
             in encode_loop nx null buffersize (out @ take n (to_write e)) (e\<lparr>to_write := drop n (to_write e)\<rparr>) })"

text \<open>\<open>encode (data, size)\<close>: \<open>null\<close> says that no buffer is supplied.\<close>

definition encode :: "(encoder \<Rightarrow> encoder option) \<Rightarrow> bool \<Rightarrow> nat \<Rightarrow> encoder \<Rightarrow> (blob \<times> encoder) option" where
  "encode nx null sz e =
     (if e_in_progress e = None then Some ([], e)
      else encode_loop nx null (if null then e_bufsize e else sz) [] e)"

text \<open>The raw decoder turns whatever was read into one message; running out of memory aborts.\<close>

definition raw_decode :: "nat \<Rightarrow> blob \<Rightarrow> (drc \<times> nat \<times> wmsg) option" where
  "raw_decode mem data =
     do { r \<leftarrow> wmsg_init_size mem (length data);
          case r of
            Inl _ \<Rightarrow> None
          | Inr m \<Rightarrow> do { b \<leftarrow> splice (wm_data m) 0 data; Some (DDone, length data, m\<lparr>wm_data := b\<rparr>) } }"

declare run_steps.simps [code] decode_loop.simps [code] in_loop.simps [code] encode_loop.simps [code]

section \<open>Decoding does not depend on how the stream is cut\<close>

text \<open>The reference: take the bytes one by one.\<close>

fun feed :: "(decoder \<Rightarrow> (drc \<times> decoder) option) \<Rightarrow> blob \<Rightarrow> decoder \<Rightarrow> (wmsg list \<times> errno option \<times> decoder) option" where
  "feed nx [] d = Some ([], None, d)"
| "feed nx (b # bs) d =
     do { d \<leftarrow> dec_write [b] d;
          (rc, d) \<leftarrow> run_steps nx d;
          case rc of
            DMore \<Rightarrow> feed nx bs d
          | DError e \<Rightarrow> Some ([], Some e, d)
          | DDone \<Rightarrow> do { (ms, e, d') \<leftarrow> feed nx bs (d\<lparr>d_msg := wmsg_init\<rparr>); Some (d_msg d # ms, e, d') } }"

lemma splice_append:
  "splice xs i (ys @ zs) = do { xs \<leftarrow> splice xs i ys; splice xs (i + length ys) zs }"
  by (cases ys) (auto simp: splice_def min_def ac_simps)

lemma dec_write_append: "dec_write (ys @ zs) d = do { d \<leftarrow> dec_write ys d; dec_write zs d }"
  by (cases "read_pos d") (auto simp: dec_write_def splice_append add.assoc split: Option.bind_split)

lemma dec_write_to_read: "dec_write ys d = Some d' \<Longrightarrow> to_read d' = to_read d - length ys"
  by (auto simp: dec_write_def bind_eq_Some_conv split: dest.splits)

lemma run_steps_idle: "to_read d \<noteq> 0 \<Longrightarrow> run_steps nx d = Some (DMore, d)"
  by (subst run_steps.simps) simp

lemma run_steps_more_aux:
  assumes "run_steps nx d = Some r"
  shows "fst r = DMore \<longrightarrow> 0 < to_read (snd r)"
proof (rule run_steps.raw_induct [where P = "\<lambda>nx d r. fst r = DMore \<longrightarrow> 0 < to_read (snd r)", OF _ assms])
  fix run :: "(decoder \<Rightarrow> (drc \<times> decoder) option) \<Rightarrow> decoder \<Rightarrow> (drc \<times> decoder) option" and nx d r
  assume IH: "\<And>nx d r. run nx d = Some r \<Longrightarrow> fst r = DMore \<longrightarrow> 0 < to_read (snd r)"
    and eq: "(if to_read d \<noteq> 0 then Some (DMore, d)
      else do { (rc, d) \<leftarrow> nx d; if rc \<noteq> DMore then Some (rc, d) else run nx d }) = Some r"
  show "fst r = DMore \<longrightarrow> 0 < to_read (snd r)"
    using eq by (cases r) (auto simp: bind_eq_Some_conv split: if_splits dest: IH)
qed

lemma run_steps_more: "run_steps nx d = Some (DMore, d') \<Longrightarrow> 0 < to_read d'"
  using run_steps_more_aux by fastforce

text \<open>The copying loop is the bytewise machine up to the first event.\<close>

lemma decode_loop_byte:
  assumes "0 < to_read d"
  shows "decode_loop nx (b # bs) d =
     do { d \<leftarrow> dec_write [b] d;
          (rc, d) \<leftarrow> run_steps nx d;
          if rc \<noteq> DMore then Some (rc, 1, d)
          else do { (rc, used, d) \<leftarrow> decode_loop nx bs d; Some (rc, 1 + used, d) } }"
proof (cases "to_read d = 1 \<or> bs = []")
  case True
  then have "min (to_read d) (length (b # bs)) = 1" using assms by auto
  then show ?thesis by (subst decode_loop.simps) (simp cong: if_cong)
next
  case False
  define n where "n = min (to_read d - 1) (length bs)"
  have n: "min (to_read d) (length (b # bs)) = Suc n" using assms by (auto simp: n_def)
  have w: "dec_write (b # take n bs) d = do { d \<leftarrow> dec_write [b] d; dec_write (take n bs) d }"
    using dec_write_append [of "[b]" "take n bs" d] by simp
  show ?thesis
  proof (cases "dec_write [b] d")
    case None
    then show ?thesis using n w by (subst decode_loop.simps) simp
  next
    case (Some d1)
    have t1: "to_read d1 = to_read d - 1" using dec_write_to_read [OF Some] by simp
    then have idle: "run_steps nx d1 = Some (DMore, d1)" using False assms by (intro run_steps_idle) simp
    have n1: "min (to_read d1) (length bs) = n" by (simp add: t1 n_def)
    have "decode_loop nx (b # bs) d =
        do { d \<leftarrow> dec_write (take n bs) d1; (rc, d) \<leftarrow> run_steps nx d;
             if rc \<noteq> DMore then Some (rc, Suc n, d)
             else do { (rc, used, d) \<leftarrow> decode_loop nx (drop n bs) d; Some (rc, Suc n + used, d) } }"
      using n w Some by (subst decode_loop.simps) (simp cong: if_cong)
    moreover have "decode_loop nx bs d1 =
        do { d \<leftarrow> dec_write (take n bs) d1; (rc, d) \<leftarrow> run_steps nx d;
             if rc \<noteq> DMore then Some (rc, n, d)
             else do { (rc, used, d) \<leftarrow> decode_loop nx (drop n bs) d; Some (rc, n + used, d) } }"
      using n1 False by (subst decode_loop.simps) (simp cong: if_cong)
    ultimately show ?thesis using Some idle
      by (auto split: Option.bind_split)
  qed
qed

text \<open>
  The interface of a decoder to the engine: after a complete message it asks for at least one
  byte, and its steps leave the size of the input buffer alone. Everything below holds for every decoder of this kind.
\<close>

locale stream_decoder =
  fixes nx :: "decoder \<Rightarrow> (drc \<times> decoder) option"
  assumes done_reads: "nx d = Some (DDone, d') \<Longrightarrow> 0 < to_read d'"
    and keeps_bufsize: "nx d = Some (rc, d') \<Longrightarrow> d_bufsize d' = d_bufsize d"
begin

lemma run_steps_done_aux:
  assumes "run_steps nx' d = Some r"
  shows "nx' = nx \<longrightarrow> fst r = DDone \<longrightarrow> 0 < to_read (snd r)"
proof (rule run_steps.raw_induct [where P = "\<lambda>nx' d r. nx' = nx \<longrightarrow> fst r = DDone \<longrightarrow> 0 < to_read (snd r)", OF _ assms])
  fix run :: "(decoder \<Rightarrow> (drc \<times> decoder) option) \<Rightarrow> decoder \<Rightarrow> (drc \<times> decoder) option" and nx' d r
  assume IH: "\<And>nx' d r. run nx' d = Some r \<Longrightarrow> nx' = nx \<longrightarrow> fst r = DDone \<longrightarrow> 0 < to_read (snd r)"
    and eq: "(if to_read d \<noteq> 0 then Some (DMore, d)
      else do { (rc, d) \<leftarrow> nx' d; if rc \<noteq> DMore then Some (rc, d) else run nx' d }) = Some r"
  show "nx' = nx \<longrightarrow> fst r = DDone \<longrightarrow> 0 < to_read (snd r)"
  proof
    assume "nx' = nx"
    then show "fst r = DDone \<longrightarrow> 0 < to_read (snd r)"
      using eq by (cases r) (auto simp: bind_eq_Some_conv split: if_splits dest: IH done_reads)
  qed
qed

lemma run_steps_reads: "run_steps nx d = Some (rc, d') \<Longrightarrow> \<forall>e. rc \<noteq> DError e \<Longrightarrow> 0 < to_read d'"
  using run_steps_done_aux [of nx d "(rc, d')"] run_steps_more [of nx d d'] by (cases rc) auto

lemma decode_loop_used:
  "0 < to_read d \<Longrightarrow> decode_loop nx data d = Some (rc, used, d') \<Longrightarrow>
   used \<le> length data \<and> (rc = DMore \<longrightarrow> used = length data \<and> 0 < to_read d')"
proof (induction data arbitrary: d rc used d')
  case Nil
  then show ?case by (subst (asm) decode_loop.simps) simp
next
  case (Cons b bs)
  from Cons.prems(2) [unfolded decode_loop_byte [OF Cons.prems(1)]]
  obtain d1 rc1 d2 where d: "dec_write [b] d = Some d1" "run_steps nx d1 = Some (rc1, d2)"
    and r: "(if rc1 \<noteq> DMore then Some (rc1, 1, d2)
          else do { (rc, used, d) \<leftarrow> decode_loop nx bs d2; Some (rc, 1 + used, d) }) = Some (rc, used, d')"
    by (auto simp: bind_eq_Some_conv)
  show ?case
  proof (cases "rc1 = DMore")
    case True
    with r obtain u where "decode_loop nx bs d2 = Some (rc, u, d')" "used = 1 + u"
      by (auto simp: bind_eq_Some_conv)
    then show ?thesis using Cons.IH [of d2 rc u d'] run_steps_more d(2) True by auto
  qed (use r in auto)
qed

lemma in_loop_feed: "0 < to_read d \<Longrightarrow> in_loop nx False data d = feed nx data d"
proof (induction "length data" arbitrary: data d rule: less_induct)
  case less
  show ?case
  proof (cases data)
    case Nil
    then show ?thesis by (subst in_loop.simps) simp
  next
    case (Cons b bs)
    show ?thesis
    proof (cases "dec_write [b] d")
      case None
      then show ?thesis using Cons less.prems
        by (subst in_loop.simps) (simp add: decode_def decode_loop_byte)
    next
      case (Some d1)
      show ?thesis
      proof (cases "run_steps nx d1")
        case None
        then show ?thesis using Cons Some less.prems
          by (subst in_loop.simps) (simp add: decode_def decode_loop_byte)
      next
        case r: (Some x)
        obtain rc d2 where x: "x = (rc, d2)" by force
        show ?thesis
        proof (cases rc)
          case (DError e)
          then show ?thesis using Cons Some r x less.prems
            by (subst in_loop.simps) (simp add: decode_def decode_loop_byte)
        next
          case DDone
          then have "0 < to_read d2" using run_steps_reads r x by auto
          then have "in_loop nx False bs (d2\<lparr>d_msg := wmsg_init\<rparr>) = feed nx bs (d2\<lparr>d_msg := wmsg_init\<rparr>)"
            using less.hyps [of bs] Cons by simp
          then show ?thesis using Cons Some r x DDone less.prems
            by (subst in_loop.simps) (simp add: decode_def decode_loop_byte)
        next
          case DMore
          then have rd: "0 < to_read d2" using run_steps_reads r x by auto
          have IH: "in_loop nx False bs d2 = feed nx bs d2" using less.hyps [of bs] Cons rd by simp
          have "in_loop nx False (b # bs) d = in_loop nx False bs d2"
          proof (cases "bs = []")
            case True
            then show ?thesis using Some r x DMore less.prems decode_loop.simps [of nx "[]" d2]
              by (subst (1 2) in_loop.simps) (simp add: decode_def decode_loop_byte)
          next
            case False
            then show ?thesis using Some r x DMore less.prems
              by (subst (1 2) in_loop.simps)
                 (auto simp: decode_def decode_loop_byte zmq_assert_def split: Option.bind_split)
          qed
          then show ?thesis using IH Cons Some r x DMore by simp
        qed
      qed
    qed
  qed
qed

lemma zero_copy_same:
  assumes "0 < to_read d" "length data \<le> to_read d"
  shows "in_loop nx True data d = in_loop nx False data d"
proof (cases "data = []")
  case True
  then show ?thesis by (subst (1 2) in_loop.simps) simp
next
  case False
  have "decode nx True data d = decode nx False data d"
    using assms False decode_loop.simps [of nx "[]"]
    by (simp add: decode_def decode_loop.simps [of nx data d] min_absorb2 Let_def cong: if_cong)
       (auto split: Option.bind_split)
  then show ?thesis by (subst (1 2) in_loop.simps) simp
qed

lemma dec_write_bufsize: "dec_write ys d = Some d' \<Longrightarrow> d_bufsize d' = d_bufsize d"
  by (auto simp: dec_write_def bind_eq_Some_conv split: dest.splits)

lemma run_steps_bufsize_aux:
  assumes "run_steps nx' d = Some r"
  shows "nx' = nx \<longrightarrow> d_bufsize (snd r) = d_bufsize d"
proof (rule run_steps.raw_induct [where P = "\<lambda>nx' d r. nx' = nx \<longrightarrow> d_bufsize (snd r) = d_bufsize d", OF _ assms])
  fix run :: "(decoder \<Rightarrow> (drc \<times> decoder) option) \<Rightarrow> decoder \<Rightarrow> (drc \<times> decoder) option" and nx' d r
  assume IH: "\<And>nx' d r. run nx' d = Some r \<Longrightarrow> nx' = nx \<longrightarrow> d_bufsize (snd r) = d_bufsize d"
    and eq: "(if to_read d \<noteq> 0 then Some (DMore, d)
      else do { (rc, d) \<leftarrow> nx' d; if rc \<noteq> DMore then Some (rc, d) else run nx' d }) = Some r"
  show "nx' = nx \<longrightarrow> d_bufsize (snd r) = d_bufsize d"
  proof
    assume "nx' = nx"
    then show "d_bufsize (snd r) = d_bufsize d"
    proof (cases "to_read d = 0")
      case True
      with eq \<open>nx' = nx\<close> obtain rc d1 where n: "nx d = Some (rc, d1)" by (auto simp: bind_eq_Some_conv)
      with True eq \<open>nx' = nx\<close> IH [of nx d1 r] keeps_bufsize [OF n] show ?thesis by (auto split: if_splits)
    qed (use eq in auto)
  qed
qed

lemma feed_keeps:
  "0 < to_read d \<Longrightarrow> feed nx data d = Some (ms, None, d') \<Longrightarrow> 0 < to_read d' \<and> d_bufsize d' = d_bufsize d"
proof (induction data arbitrary: d ms)
  case (Cons b bs)
  from Cons.prems(2) obtain d1 rc d2 where d: "dec_write [b] d = Some d1" "run_steps nx d1 = Some (rc, d2)"
    and r: "(case rc of DMore \<Rightarrow> feed nx bs d2 | DError e \<Rightarrow> Some ([], Some e, d2)
          | DDone \<Rightarrow> do { (ms, e, d') \<leftarrow> feed nx bs (d2\<lparr>d_msg := wmsg_init\<rparr>); Some (d_msg d2 # ms, e, d') }) =
        Some (ms, None, d')"
    by (auto simp: bind_eq_Some_conv)
  have b: "d_bufsize d2 = d_bufsize d"
    using run_steps_bufsize_aux [OF d(2)] dec_write_bufsize [OF d(1)] by simp
  show ?case
  proof (cases rc)
    case DMore
    then show ?thesis using r b Cons.IH [of d2 ms] run_steps_reads [OF d(2)] by simp
  next
    case DDone
    with r obtain ms' where "feed nx bs (d2\<lparr>d_msg := wmsg_init\<rparr>) = Some (ms', None, d')"
      by (auto simp: bind_eq_Some_conv)
    then show ?thesis using b DDone Cons.IH [of "d2\<lparr>d_msg := wmsg_init\<rparr>" ms'] run_steps_reads [OF d(2)] by simp
  qed (use r in simp)
qed simp

lemma in_event_feed:
  assumes "0 < to_read d" "length data \<le> snd (get_buffer d)"
  shows "in_event nx data d = feed nx data d"
  using assms zero_copy_same [of d data] in_loop_feed [of d data]
  by (auto simp: in_event_def get_buffer_def split: if_splits)

end

lemma feed_append:
  "feed nx (xs @ ys) d =
     do { (ms, e, d) \<leftarrow> feed nx xs d;
          if e \<noteq> None then Some (ms, e, d)
          else do { (ms', e, d) \<leftarrow> feed nx ys d; Some (ms @ ms', e, d) } }"
proof (induction xs arbitrary: d)
  case Nil
  then show ?case by (auto split: Option.bind_split)
next
  case (Cons b bs)
  show ?case
    by (auto simp: Cons.IH split: Option.bind_split drc.split)
qed

text \<open>The stream as the engine sees it: \<open>tcp_read\<close> returns pieces of any size, at most what the
  decoder offers. \<open>ns\<close> are the sizes the network would deliver.\<close>

fun recv :: "(decoder \<Rightarrow> (drc \<times> decoder) option) \<Rightarrow> nat list \<Rightarrow> blob \<Rightarrow> decoder \<Rightarrow> (wmsg list \<times> errno option \<times> decoder) option" where
  "recv nx [] stream d = Some ([], None, d)"
| "recv nx (n # ns) stream d =
     (let chunk = take (min n (snd (get_buffer d))) stream in
      do { (ms, e, d) \<leftarrow> in_event nx chunk d;
           if e \<noteq> None then Some (ms, e, d)
           else do { (ms', e, d) \<leftarrow> recv nx ns (drop (length chunk) stream) d; Some (ms @ ms', e, d) } })"

context stream_decoder
begin

lemma recv_feed:
  "0 < to_read d \<Longrightarrow> 0 < d_bufsize d \<Longrightarrow> (\<And>n. n \<in> set ns \<Longrightarrow> 0 < n) \<Longrightarrow> length stream \<le> length ns \<Longrightarrow>
   recv nx ns stream d = feed nx stream d"
proof (induction ns arbitrary: stream d)
  case (Cons n ns)
  define c where "c = take (min n (snd (get_buffer d))) stream"
  define r where "r = drop (length c) stream"
  have split: "stream = c @ r" by (simp add: c_def r_def min_def)
  have ev: "in_event nx c d = feed nx c d"
    by (rule in_event_feed) (use Cons.prems in \<open>auto simp: c_def min_def\<close>)
  have "0 < snd (get_buffer d)" using Cons.prems(1,2) by (auto simp: get_buffer_def)
  then have "0 < min n (snd (get_buffer d))" using Cons.prems(3) [of n] by simp
  then have len: "length r \<le> length ns" using Cons.prems(4) by (auto simp: r_def c_def min_def)
  have IH: "recv nx ns r d1 = feed nx r d1" if "feed nx c d = Some (ms, None, d1)" for ms d1
    using feed_keeps [OF Cons.prems(1) that] Cons.prems(2,3) len by (intro Cons.IH) auto
  have "recv nx (n # ns) stream d = do { (ms, e, d) \<leftarrow> in_event nx c d;
           if e \<noteq> None then Some (ms, e, d)
           else do { (ms', e, d) \<leftarrow> recv nx ns r d; Some (ms @ ms', e, d) } }"
    by (simp only: recv.simps Let_def c_def [symmetric] r_def [symmetric])
  also have "\<dots> = do { (ms, e, d) \<leftarrow> feed nx c d;
           if e \<noteq> None then Some (ms, e, d)
           else do { (ms', e, d) \<leftarrow> feed nx r d; Some (ms @ ms', e, d) } }"
    unfolding ev using IH by (cases "feed nx c d") auto
  also have "\<dots> = feed nx (c @ r) d" by (rule feed_append [symmetric])
  finally show ?case using split by simp
qed simp

end

section \<open>One frame\<close>

definition continue :: "(decoder \<Rightarrow> (drc \<times> decoder) option) \<Rightarrow> blob \<Rightarrow> drc \<times> decoder \<Rightarrow> (wmsg list \<times> errno option \<times> decoder) option" where
  "continue nx bs r =
     (case r of
        (DMore, d) \<Rightarrow> feed nx bs d
      | (DError e, d) \<Rightarrow> Some ([], Some e, d)
      | (DDone, d) \<Rightarrow> do { (ms, e, d') \<leftarrow> feed nx bs (d\<lparr>d_msg := wmsg_init\<rparr>); Some (d_msg d # ms, e, d') })"

lemma feed_continue:
  "feed nx (b # bs) d = do { d \<leftarrow> dec_write [b] d; r \<leftarrow> run_steps nx d; continue nx bs r }"
  by (auto simp: continue_def split: Option.bind_split drc.split)

lemma run_steps_step:
  "to_read d = 0 \<Longrightarrow> run_steps nx d = do { (rc, d) \<leftarrow> nx d; if rc \<noteq> DMore then Some (rc, d) else run_steps nx d }"
  by (subst run_steps.simps) simp

text \<open>A block of exactly the bytes that were asked for.\<close>

lemma feed_block:
  "xs \<noteq> [] \<Longrightarrow> length xs = to_read d \<Longrightarrow>
   feed nx (xs @ ys) d = do { d \<leftarrow> dec_write xs d; r \<leftarrow> run_steps nx d; continue nx ys r }"
proof (induction xs arbitrary: d)
  case (Cons b bs)
  show ?case
  proof (cases "bs = []")
    case True
    then show ?thesis by (simp add: feed_continue del: feed.simps)
  next
    case False
    have w: "dec_write (b # bs) d = do { d \<leftarrow> dec_write [b] d; dec_write bs d }"
      using dec_write_append [of "[b]" bs d] by simp
    show ?thesis
    proof (cases "dec_write [b] d")
      case None
      then show ?thesis using w by simp
    next
      case (Some d1)
      have t1: "to_read d1 = length bs" using dec_write_to_read [OF Some] Cons.prems(2) by simp
      then have "run_steps nx d1 = Some (DMore, d1)" using False by (intro run_steps_idle) simp
      moreover have "feed nx (bs @ ys) d1 = do { d \<leftarrow> dec_write bs d1; r \<leftarrow> run_steps nx d; continue nx ys r }"
        using Cons.IH [of d1] False t1 by simp
      ultimately show ?thesis using Some w by (simp add: feed_continue continue_def del: feed.simps)
    qed
  qed
qed simp

lemma splice_all: "length xs = length ys \<Longrightarrow> splice xs 0 ys = Some ys"
  by (simp add: splice_def)

text \<open>The body of a message, empty or not.\<close>

lemma run_body:
  assumes d: "d_next d = MessageReady" "read_pos d = Body 0" "to_read d = length bs"
      "length (wm_data (d_msg d)) = length bs"
    and nx: "\<And>x. d_next x = MessageReady \<Longrightarrow> nx x = Some (DDone, dec_next_step (Tmpbuf 0) 1 first x)"
  shows "(run_steps nx d \<bind> continue nx bs) =
    Some ([(d_msg d)\<lparr>wm_data := bs\<rparr>], None, dec_next_step (Tmpbuf 0) 1 first (d\<lparr>d_msg := wmsg_init\<rparr>))"
proof (cases "bs = []")
  case True
  then have "run_steps nx d = Some (DDone, dec_next_step (Tmpbuf 0) 1 first d)"
    using d nx [of d] by (subst run_steps_step) auto
  then show ?thesis using True d(4) by (simp add: continue_def dec_next_step_def)
next
  case False
  then have idle: "run_steps nx d = Some (DMore, d)" using d(3) by (intro run_steps_idle) simp
  let ?d = "d\<lparr>d_msg := (d_msg d)\<lparr>wm_data := bs\<rparr>, read_pos := Body (length bs), to_read := 0\<rparr>"
  have w: "dec_write bs d = Some ?d" using d splice_all [OF d(4)] by (simp add: dec_write_def)
  have "run_steps nx ?d = Some (DDone, dec_next_step (Tmpbuf 0) 1 first ?d)"
    using d(1) nx [of ?d] by (subst run_steps_step) auto
  then show ?thesis using feed_block [of bs d nx "[]"] False d(3) w idle
    by (simp add: continue_def dec_next_step_def)
qed


lemmas v2_step_defs = v2_step_def v2_flags_ready_def v2_size_ready_def v2_one_byte_size_ready_def
  v2_eight_byte_size_ready_def v2_message_ready_def dec_next_step_def

lemmas v1_step_defs = v1_step_def v1_flags_ready_def v1_payload_ready_def v1_one_byte_size_ready_def
  v1_eight_byte_size_ready_def v1_message_ready_def dec_next_step_def

interpretation v2dec: stream_decoder v2_step
proof (unfold_locales, goal_cases)
  case (1 d d') then show ?case
    by (auto simp: v2_step_defs Let_def bind_eq_Some_conv case_sum_eq_Some split: dstep.splits if_splits)
next
  case (2 d rc d') then show ?case
    by (auto simp: v2_step_defs Let_def bind_eq_Some_conv case_sum_eq_Some split: dstep.splits if_splits)
qed

interpretation v1dec: stream_decoder v1_step
proof (unfold_locales, goal_cases)
  case (1 d d') then show ?case
    by (auto simp: v1_step_defs Let_def bind_eq_Some_conv case_sum_eq_Some split: dstep.splits if_splits)
next
  case (2 d rc d') then show ?case
    by (auto simp: v1_step_defs Let_def bind_eq_Some_conv case_sum_eq_Some split: dstep.splits if_splits)
qed

text \<open>
  A frame format: a decoder that waits for the first byte of a frame, the header of a message, and which messages
  the format and the limits of the decoder allow. The one law is about a single frame; streams
  of frames, cut in any way, follow.
\<close>

definition limits :: "decoder \<Rightarrow> int \<times> nat \<times> nat" where
  "limits d = (maxmsgsize d, d_bufsize d, d_avail d)"

locale frame_format = stream_decoder +
  fixes idle :: "decoder \<Rightarrow> bool" and header :: "wmsg \<Rightarrow> blob"
    and fits :: "int \<times> nat \<times> nat \<Rightarrow> wmsg \<Rightarrow> bool"
  assumes idle_reads: "idle d \<Longrightarrow> 0 < to_read d"
    and one_frame: "idle d \<Longrightarrow> fits (limits d) m \<Longrightarrow>
      \<exists>d'. feed nx (header m @ wm_data m) d = Some ([m], None, d') \<and> idle d' \<and> limits d' = limits d"
begin

lemma feed_frames:
  "idle d \<Longrightarrow> (\<And>m. m \<in> set ms \<Longrightarrow> fits (limits d) m) \<Longrightarrow>
   \<exists>d'. feed nx (concat (map (\<lambda>m. header m @ wm_data m) ms)) d = Some (ms, None, d') \<and>
      idle d' \<and> limits d' = limits d"
proof (induction ms arbitrary: d)
  case (Cons m ms)
  from one_frame [OF Cons.prems(1), of m] Cons.prems(2) obtain d1 where
    d1: "feed nx (header m @ wm_data m) d = Some ([m], None, d1)" "idle d1" "limits d1 = limits d" by auto
  from Cons.IH [OF d1(2)] Cons.prems(2) d1(3) obtain d2 where
    "feed nx (concat (map (\<lambda>m. header m @ wm_data m) ms)) d1 = Some (ms, None, d2)"
    "idle d2" "limits d2 = limits d1" by auto
  with d1 show ?case by (auto simp: feed_append [of nx "header m @ wm_data m"] simp flip: append_assoc)
qed simp

lemma recv_frames:
  assumes "idle d" "\<And>m. m \<in> set ms \<Longrightarrow> fits (limits d) m" "0 < d_bufsize d" "\<And>n. n \<in> set ns \<Longrightarrow> 0 < n"
    "length (concat (map (\<lambda>m. header m @ wm_data m) ms)) \<le> length ns"
  shows "\<exists>d'. recv nx ns (concat (map (\<lambda>m. header m @ wm_data m) ms)) d = Some (ms, None, d') \<and>
      idle d' \<and> limits d' = limits d"
  using feed_frames [of d ms] recv_feed [of d ns] assms idle_reads by simp

end


lemma feed_tmpbuf:
  assumes "read_pos d = Tmpbuf 0" "to_read d = length xs" "xs \<noteq> []" "length xs \<le> length (d_tmpbuf d)"
    "nx (d\<lparr>d_tmpbuf := xs @ drop (length xs) (d_tmpbuf d), read_pos := Tmpbuf (length xs), to_read := 0\<rparr>) = Some r"
  shows "feed nx (xs @ ys) d =
    (if fst r = DMore then (run_steps nx (snd r) \<bind> continue nx ys) else continue nx ys r)"
proof -
  let ?d = "d\<lparr>d_tmpbuf := xs @ drop (length xs) (d_tmpbuf d), read_pos := Tmpbuf (length xs), to_read := 0\<rparr>"
  have "dec_write xs d = Some ?d" using assms by (simp add: dec_write_def splice_def)
  moreover have "run_steps nx ?d = (if fst r = DMore then run_steps nx (snd r) else Some r)"
    using assms(5) by (subst run_steps_step) (auto split: prod.split)
  ultimately show ?thesis using assms(2,3) by (auto simp: feed_block)
qed

lemma feed_tmpbuf_more:
  assumes "read_pos d = Tmpbuf 0" "to_read d = length xs" "xs \<noteq> []" "length xs \<le> length (d_tmpbuf d)"
    "nx (d\<lparr>d_tmpbuf := xs @ drop (length xs) (d_tmpbuf d), read_pos := Tmpbuf (length xs), to_read := 0\<rparr>) =
       Some (DMore, d1)" "to_read d1 \<noteq> 0"
  shows "feed nx (xs @ ys) d = feed nx ys d1"
  using feed_tmpbuf [of d xs nx "(DMore, d1)" ys] assms run_steps_idle [OF assms(6), of nx]
  by (simp add: continue_def)

definition size_allowed :: "int \<times> nat \<times> nat \<Rightarrow> nat \<Rightarrow> bool" where
  "size_allowed lim sz \<longleftrightarrow> (case lim of (maxsize, _, mem) \<Rightarrow>
     (0 \<le> maxsize \<longrightarrow> int sz \<le> maxsize) \<and> (sz \<le> max_vsm_size \<or> \<not> malloc_fails mem sz) \<and> size_fits sz)"

lemma size_allowedD:
  assumes "size_allowed (limits d) sz"
  shows "\<not> (0 \<le> maxmsgsize d \<and> maxmsgsize d < int sz)"
    "wmsg_init_size (d_avail d) sz = Some (Inr \<lparr>wm_flags = 0, wm_data = replicate sz 0\<rparr>)" "sz < 2 ^ 64"
  using assms by (auto simp: size_allowed_def limits_def wmsg_init_size_def size_fits_def sizeof_content_def)

definition v2_idle :: "decoder \<Rightarrow> bool" where
  "v2_idle d \<longleftrightarrow> d_next d = FlagsReady \<and> read_pos d = Tmpbuf 0 \<and> to_read d = 1 \<and> length (d_tmpbuf d) = 8"

definition v2_fits :: "int \<times> nat \<times> nat \<Rightarrow> wmsg \<Rightarrow> bool" where
  "v2_fits lim m \<longleftrightarrow> wm_flags m \<in> {0, flag_more, flag_command, flag_more OR flag_command} \<and>
     size_allowed lim (length (wm_data m))"

text \<open>The flags byte and the length, for short and for long messages.\<close>

definition v2_length :: "nat \<Rightarrow> blob" where
  "v2_length sz = (if sz > 255 then put_uint64 (of_nat sz) else [of_nat sz])"

lemma v2_flags_roundtrip:
  assumes "wm_flags m \<in> {0, flag_more, flag_command, flag_more OR flag_command}" "d_next d = FlagsReady"
  shows "v2_step (d\<lparr>d_tmpbuf := hd (v2_header m) # t, read_pos := p, to_read := 0\<rparr>) =
    Some (DMore, d\<lparr>d_tmpbuf := hd (v2_header m) # t, d_msg_flags := wm_flags m, read_pos := Tmpbuf 0,
      to_read := length (v2_length (length (wm_data m))),
      d_next := (if length (wm_data m) > 255 then EightByteSizeReady else OneByteSizeReady)\<rparr>)"
  using assms
  by (auto simp: v2_step_defs v2_header_def v2_length_def Let_def v2_more_flag_def v2_large_flag_def
      v2_command_flag_def flag_more_def flag_command_def)


lemma get_uint64_prefix: "get_uint64 (put_uint64 v @ t) = v"
proof -
  have "get_uint64 (put_uint64 v @ t) = get_uint64 (put_uint64 v)"
    by (simp add: get_uint64_def put_uint64_def)
  then show ?thesis by simp
qed

lemma unat_u64: "sz < 2 ^ 64 \<Longrightarrow> unat (of_nat sz :: u64) = sz"
  by (simp add: unat_of_nat take_bit_nat_eq_self)

lemma unat_byte: "sz \<le> 255 \<Longrightarrow> unat (of_nat sz :: byte) = sz"
  by (simp add: unat_of_nat take_bit_nat_eq_self)

lemma v2_size_roundtrip:
  assumes "size_allowed (limits d) sz"
    "d_next d = (if sz > 255 then EightByteSizeReady else OneByteSizeReady)"
  shows "v2_step (d\<lparr>d_tmpbuf := v2_length sz @ t, read_pos := p, to_read := 0\<rparr>) =
    Some (DMore, d\<lparr>d_tmpbuf := v2_length sz @ t, d_msg := \<lparr>wm_flags = d_msg_flags d, wm_data = replicate sz 0\<rparr>,
      read_pos := Body 0, to_read := sz, d_next := MessageReady\<rparr>)"
proof -
  note sz = size_allowedD [OF assms(1)]
  show ?thesis
  proof (cases "sz > 255")
    case True
    then show ?thesis using assms(2) sz
      by (auto simp: v2_step_defs v2_length_def get_uint64_prefix unat_u64)
  next
    case False
    then show ?thesis using assms(2) sz
      by (auto simp: v2_step_defs v2_length_def unat_byte)
  qed
qed

lemma v2_one_frame:
  assumes "v2_idle d" "v2_fits (limits d) m"
  shows "\<exists>d'. feed v2_step (v2_header m @ wm_data m) d = Some ([m], None, d') \<and> v2_idle d' \<and> limits d' = limits d"
proof -
  let ?sz = "length (wm_data m)" and ?b = "hd (v2_header m)"
  have hd: "v2_header m = [?b] @ v2_length ?sz" by (simp add: v2_header_def v2_length_def Let_def)
  have len: "0 < length (v2_length ?sz)" "length (v2_length ?sz) \<le> 8" by (simp_all add: v2_length_def put_uint64_def)
  define t where "t = drop 1 (d_tmpbuf d)"
  define d1 where "d1 = d\<lparr>d_tmpbuf := ?b # t, d_msg_flags := wm_flags m, read_pos := Tmpbuf 0,
      to_read := length (v2_length ?sz),
      d_next := (if ?sz > 255 then EightByteSizeReady else OneByteSizeReady)\<rparr>"
  define t' where "t' = drop (length (v2_length ?sz)) (d_tmpbuf d1)"
  define d2 where "d2 = d1\<lparr>d_tmpbuf := v2_length ?sz @ t', d_msg := \<lparr>wm_flags = wm_flags m, wm_data = replicate ?sz 0\<rparr>,
      read_pos := Body 0, to_read := ?sz, d_next := MessageReady\<rparr>"
  have lt: "length (d_tmpbuf d1) = 8" "length (v2_length ?sz @ t') = 8"
    using assms(1) len(2) by (auto simp: d1_def t_def t'_def v2_idle_def)
  have "feed v2_step ([?b] @ v2_length ?sz @ wm_data m) d = feed v2_step (v2_length ?sz @ wm_data m) d1"
    by (rule feed_tmpbuf_more)
       (use assms len v2_flags_roundtrip [of m d _ t] in \<open>auto simp: v2_idle_def v2_fits_def d1_def t_def\<close>)
  also have "\<dots> = (run_steps v2_step d2 \<bind> continue v2_step (wm_data m))"
  proof -
    have "size_allowed (limits d1) ?sz" using assms(2) by (simp add: v2_fits_def d1_def limits_def)
    from v2_size_roundtrip [OF this]
    have "v2_step (d1\<lparr>d_tmpbuf := v2_length ?sz @ t', read_pos := Tmpbuf (length (v2_length ?sz)), to_read := 0\<rparr>) =
        Some (DMore, d2)" by (simp add: d1_def d2_def)
    then show ?thesis
      using feed_tmpbuf [of d1 "v2_length ?sz" v2_step "(DMore, d2)" "wm_data m"] len lt(1)
      by (simp add: t'_def) (simp add: d1_def)
  qed
  also have "\<dots> = Some ([m], None, dec_next_step (Tmpbuf 0) 1 FlagsReady (d2\<lparr>d_msg := wmsg_init\<rparr>))"
    by (subst run_body [where first = FlagsReady]) (auto simp: d2_def v2_step_defs)
  finally have "feed v2_step (v2_header m @ wm_data m) d =
      Some ([m], None, dec_next_step (Tmpbuf 0) 1 FlagsReady (d2\<lparr>d_msg := wmsg_init\<rparr>))"
    by (subst hd) simp
  then show ?thesis using lt(2)
    by (auto simp: v2_idle_def dec_next_step_def limits_def d2_def d1_def)
qed

interpretation v2fmt: frame_format v2_step v2_idle v2_header v2_fits
proof (unfold_locales, goal_cases)
  case (1 d) then show ?case by (simp add: v2_idle_def)
next
  case (2 d m) then show ?case by (rule v2_one_frame)
qed


definition v1_idle :: "decoder \<Rightarrow> bool" where
  "v1_idle d \<longleftrightarrow> d_next d = OneByteSizeReady \<and> read_pos d = Tmpbuf 0 \<and> to_read d = 1 \<and> length (d_tmpbuf d) = 8"

definition v1_fits :: "int \<times> nat \<times> nat \<Rightarrow> wmsg \<Rightarrow> bool" where
  "v1_fits lim m \<longleftrightarrow> wm_flags m \<in> {0, flag_more} \<and> size_allowed lim (length (wm_data m))"

definition v1_length :: "nat \<Rightarrow> blob" where
  "v1_length sz = (if sz < 254 then [of_nat (sz + 1)] else 0xff # put_uint64 (of_nat (sz + 1)))"

definition v1_sized :: "nat \<Rightarrow> blob \<Rightarrow> decoder \<Rightarrow> decoder" where
  "v1_sized sz t d = d\<lparr>d_tmpbuf := t, d_msg := \<lparr>wm_flags = 0, wm_data = replicate sz 0\<rparr>,
     read_pos := Tmpbuf 0, to_read := 1, d_next := FlagsReady\<rparr>"

lemma v1_payload_roundtrip:
  assumes "size_allowed (limits d) sz"
  shows "v1_payload_ready (sz + 1) d = Some (DMore, v1_sized sz (d_tmpbuf d) d)"
  using size_allowedD [OF assms] by (auto simp: v1_payload_ready_def v1_sized_def dec_next_step_def)

lemma v1_length_roundtrip:
  assumes "v1_idle d" "size_allowed (limits d) sz"
  shows "\<exists>t. length t = 8 \<and> feed v1_step (v1_length sz @ ys) d = feed v1_step ys (v1_sized sz t d)"
proof (cases "sz < 254")
  case True
  define t where "t = of_nat (sz + 1) # drop 1 (d_tmpbuf d)"
  define d0 where "d0 = d\<lparr>d_tmpbuf := t, read_pos := Tmpbuf 1, to_read := 0\<rparr>"
  have n: "unat (of_nat (sz + 1) :: byte) = sz + 1" using True by (intro unat_byte) simp
  have "unat (of_nat (sz + 1) :: byte) \<noteq> unat (0xff :: byte)" using True by (subst n) simp
  then have "(of_nat (sz + 1) :: byte) \<noteq> 0xff" by metis
  moreover have "limits d0 = limits d" by (simp add: limits_def d0_def)
  ultimately have "v1_step d0 = Some (DMore, v1_sized sz t d0)"
    using n v1_payload_roundtrip [of d0 sz] assms
    by (simp add: v1_step_def v1_one_byte_size_ready_def v1_idle_def d0_def t_def)
  moreover have "v1_sized sz t d0 = v1_sized sz t d" by (simp add: v1_sized_def d0_def)
  ultimately have "feed v1_step ([of_nat (sz + 1)] @ ys) d = feed v1_step ys (v1_sized sz t d)"
    using assms(1) by (intro feed_tmpbuf_more) (auto simp: v1_idle_def d0_def t_def v1_sized_def)
  then show ?thesis using True assms(1) by (intro exI [of _ t]) (simp add: v1_length_def t_def v1_idle_def)
next
  case False
  let ?n = "put_uint64 (of_nat (sz + 1))"
  define d1 where "d1 = d\<lparr>d_tmpbuf := 0xff # drop 1 (d_tmpbuf d), read_pos := Tmpbuf 0, to_read := 8,
    d_next := EightByteSizeReady\<rparr>"
  define d2 where "d2 = d1\<lparr>d_tmpbuf := ?n, read_pos := Tmpbuf 8, to_read := 0\<rparr>"
  have "feed v1_step ([0xff] @ ?n @ ys) d = feed v1_step (?n @ ys) d1"
    using assms(1) by (intro feed_tmpbuf_more) (auto simp: v1_idle_def d1_def v1_step_defs)
  also have "\<dots> = feed v1_step ys (v1_sized sz ?n d2)"
  proof (rule feed_tmpbuf_more)
    have "size_allowed (limits d2) sz" using assms(2) by (simp add: d2_def d1_def limits_def)
    note v1_payload_roundtrip [OF this]
    moreover have "sz + 1 < 2 ^ 64" using assms(2)
      by (auto simp: size_allowed_def size_fits_def sizeof_content_def split: prod.splits)
    then have "unat (get_uint64 ?n) = sz + 1" by (simp add: unat_u64 del: of_nat_add of_nat_Suc)
    ultimately have "v1_step d2 = Some (DMore, v1_sized sz ?n d2)"
      by (simp add: v1_step_def v1_eight_byte_size_ready_def d2_def d1_def)
    then show "v1_step (d1\<lparr>d_tmpbuf := ?n @ drop (length ?n) (d_tmpbuf d1), read_pos := Tmpbuf (length ?n),
        to_read := 0\<rparr>) = Some (DMore, v1_sized sz ?n d2)"
      using assms(1) by (simp add: d2_def d1_def v1_idle_def)
  qed (use assms(1) in \<open>auto simp: d1_def v1_idle_def v1_sized_def put_uint64_def\<close>)
  also have "v1_sized sz ?n d2 = v1_sized sz ?n d" by (simp add: v1_sized_def d2_def d1_def)
  finally show ?thesis using False by (intro exI [of _ ?n]) (simp add: v1_length_def)
qed

lemma v1_one_frame:
  assumes "v1_idle d" "v1_fits (limits d) m"
  shows "\<exists>d'. feed v1_step (v1_header m @ wm_data m) d = Some ([m], None, d') \<and> v1_idle d' \<and> limits d' = limits d"
proof -
  let ?sz = "length (wm_data m)" and ?fl = "wm_flags m AND flag_more"
  have hd: "v1_header m = v1_length ?sz @ [?fl]" by (simp add: v1_header_def v1_length_def Let_def)
  have fl: "?fl AND flag_more = wm_flags m" using assms(2) by (auto simp: v1_fits_def flag_more_def)
  from v1_length_roundtrip [OF assms(1), of ?sz "[?fl] @ wm_data m"] assms(2) obtain t where
    t: "length t = 8" "feed v1_step (v1_header m @ wm_data m) d = feed v1_step ([?fl] @ wm_data m) (v1_sized ?sz t d)"
    by (auto simp: v1_fits_def hd)
  define d2 where "d2 = (v1_sized ?sz t d)\<lparr>d_tmpbuf := ?fl # drop 1 t,
      d_msg := \<lparr>wm_flags = wm_flags m, wm_data = replicate ?sz 0\<rparr>, read_pos := Body 0, to_read := ?sz,
      d_next := MessageReady\<rparr>"
  have "feed v1_step ([?fl] @ wm_data m) (v1_sized ?sz t d) =
      (run_steps v1_step d2 \<bind> continue v1_step (wm_data m))"
    using feed_tmpbuf [of "v1_sized ?sz t d" "[?fl]" v1_step "(DMore, d2)" "wm_data m"] t(1) fl
    by (simp add: v1_sized_def d2_def v1_step_defs)
  also have "\<dots> = Some ([m], None, dec_next_step (Tmpbuf 0) 1 OneByteSizeReady (d2\<lparr>d_msg := wmsg_init\<rparr>))"
    by (subst run_body [where first = OneByteSizeReady]) (auto simp: d2_def v1_step_defs)
  finally show ?thesis using t by (auto simp: v1_idle_def dec_next_step_def limits_def d2_def v1_sized_def)
qed

interpretation v1fmt: frame_format v1_step v1_idle v1_header v1_fits
proof (unfold_locales, goal_cases)
  case (1 d) then show ?case by (simp add: v1_idle_def)
next
  case (2 d m) then show ?case by (rule v1_one_frame)
qed


section \<open>Limits and malformed input\<close>

text \<open>A header of version 2 announcing \<open>sz\<close> bytes, whatever the flags: the decoder decides about the
  size before it touches the body.\<close>

lemma v2_header_fed:
  assumes "v2_idle d" "sz < 2 ^ 64" "wm_flags m \<in> {0, flag_more, flag_command, flag_more OR flag_command}"
    "length (wm_data m) = sz"
  shows "\<exists>d1. maxmsgsize d1 = maxmsgsize d \<and> d_avail d1 = d_avail d \<and> d_msg d1 = d_msg d \<and>
    feed v2_step (v2_header m @ ys) d =
      do { r \<leftarrow> v2_size_ready sz d1;
           if fst r = DMore then (run_steps v2_step (snd r) \<bind> continue v2_step ys) else continue v2_step ys r }"
proof -
  let ?b = "hd (v2_header m)"
  have hd: "v2_header m @ ys = [?b] @ v2_length sz @ ys" using assms(4) by (simp add: v2_header_def v2_length_def Let_def)
  have len: "0 < length (v2_length sz)" "length (v2_length sz) \<le> 8" by (simp_all add: v2_length_def put_uint64_def)
  define d1 where "d1 = d\<lparr>d_tmpbuf := ?b # drop 1 (d_tmpbuf d), d_msg_flags := wm_flags m, read_pos := Tmpbuf 0,
      to_read := length (v2_length sz), d_next := (if sz > 255 then EightByteSizeReady else OneByteSizeReady)\<rparr>"
  define d2 where "d2 = d1\<lparr>d_tmpbuf := v2_length sz @ drop (length (v2_length sz)) (d_tmpbuf d1),
      read_pos := Tmpbuf (length (v2_length sz)), to_read := 0\<rparr>"
  have st: "v2_step d2 = v2_size_ready sz d2"
    using assms(2) by (simp add: v2_step_def d2_def d1_def v2_one_byte_size_ready_def v2_eight_byte_size_ready_def
        v2_length_def get_uint64_prefix unat_u64 unat_byte)
  have t0: "to_read d2 = 0" by (simp add: d2_def)
  have w: "dec_write (v2_length sz) d1 = Some d2"
    using assms(1) len by (simp add: dec_write_def splice_def d1_def d2_def v2_idle_def)
  have "feed v2_step ([?b] @ v2_length sz @ ys) d = feed v2_step (v2_length sz @ ys) d1"
    by (rule feed_tmpbuf_more)
       (use assms len v2_flags_roundtrip [of m d _ "drop 1 (d_tmpbuf d)"] in \<open>auto simp: v2_idle_def d1_def\<close>)
  also have "\<dots> = do { r \<leftarrow> v2_size_ready sz d2;
      if fst r = DMore then (run_steps v2_step (snd r) \<bind> continue v2_step ys) else continue v2_step ys r }"
  proof -
    have "feed v2_step (v2_length sz @ ys) d1 = do { r \<leftarrow> run_steps v2_step d2; continue v2_step ys r }"
      using len w by (subst feed_block) (auto simp: d1_def)
    also have "run_steps v2_step d2 =
        do { r \<leftarrow> v2_size_ready sz d2; if fst r = DMore then run_steps v2_step (snd r) else Some r }"
      using run_steps_step [of d2 v2_step] t0 by (auto simp: st split: Option.bind_split)
    finally show ?thesis by (auto split: Option.bind_split)
  qed
  finally have "feed v2_step ([?b] @ v2_length sz @ ys) d = do { r \<leftarrow> v2_size_ready sz d2;
      if fst r = DMore then (run_steps v2_step (snd r) \<bind> continue v2_step ys) else continue v2_step ys r }" .
  moreover have "maxmsgsize d2 = maxmsgsize d" "d_avail d2 = d_avail d" "d_msg d2 = d_msg d"
    by (simp_all add: d2_def d1_def)
  ultimately show ?thesis by (subst hd) blast
qed

text \<open>A version 2 frame larger than \<open>ZMQ_MAXMSGSIZE\<close> is refused with EMSGSIZE as soon as its length
  is known: no message is delivered and none is allocated, whatever follows and however the
  stream is cut.\<close>

theorem v2_oversized_refused:
  assumes "0 \<le> maxsize" "maxsize < int (length (wm_data m))" "length (wm_data m) < 2 ^ 64"
    "wm_flags m \<in> {0, flag_more, flag_command, flag_more OR flag_command}"
    "0 < bufsize" "\<And>n. n \<in> set ns \<Longrightarrow> 0 < n" "length (v2_header m @ ys) \<le> length ns"
  shows "\<exists>d'. recv v2_step ns (v2_header m @ ys) (v2_decoder_new bufsize maxsize mem) =
    Some ([], Some EMSGSIZE, d') \<and> d_msg d' = wmsg_init"
proof -
  let ?d = "v2_decoder_new bufsize maxsize mem"
  have idle: "v2_idle ?d" "0 < to_read ?d" "0 < d_bufsize ?d"
    using assms(5) by (simp_all add: v2_idle_def v2_decoder_new_def)
  have "recv v2_step ns (v2_header m @ ys) ?d = feed v2_step (v2_header m @ ys) ?d"
    using idle assms(6,7) by (intro v2dec.recv_feed) auto
  moreover obtain d1 where "maxmsgsize d1 = maxsize" "d_msg d1 = wmsg_init" "feed v2_step (v2_header m @ ys) ?d =
      do { r \<leftarrow> v2_size_ready (length (wm_data m)) d1;
           if fst r = DMore then (run_steps v2_step (snd r) \<bind> continue v2_step ys) else continue v2_step ys r }"
    using v2_header_fed [OF idle(1) assms(3,4), of ys] by (auto simp: v2_decoder_new_def)
  ultimately show ?thesis using assms(1,2) by (auto simp: v2_size_ready_def continue_def)
qed

theorem v2_oversized_refused_witness:
  "\<exists>d'. recv v2_step [2, 1, 1, 1, 9] (v2_header \<lparr>wm_flags = 1, wm_data = [5, 6, 7]\<rparr> @ [5, 6, 7]) (v2_decoder_new 8 2 100) =
    Some ([], Some EMSGSIZE, d') \<and> d_msg d' = wmsg_init"
  by (rule v2_oversized_refused) (auto simp: flag_more_def v2_header_def Let_def)

text \<open>C33: A peer that announces a body of nearly 2^64 bytes to a version 2 decoder without a size
  limit makes the process leave defined behaviour: the allocation size wraps around, and the
  header of the message is written past the end of a block smaller than itself.\<close>

theorem v2_huge_frame_undefined:
  assumes "maxsize < 0" "\<not> size_fits (unat v)" "\<not> malloc_fails mem (unat v)" "0 < bufsize"
    "\<And>n. n \<in> set ns \<Longrightarrow> 0 < n" "9 \<le> length ns"
  shows "recv v2_step ns (v2_large_flag # put_uint64 v) (v2_decoder_new bufsize maxsize mem) = None"
proof -
  let ?d = "v2_decoder_new bufsize maxsize mem" and ?m = "\<lparr>wm_flags = 0, wm_data = replicate (unat v) 0\<rparr>"
  have "\<not> sz \<le> 255" if "\<not> size_fits sz" for sz using that by (auto simp: size_fits_def sizeof_content_def)
  from this [OF assms(2)] have big: "unat v > 255" "unat v < 2 ^ 64" using unsigned_less [of v, where ?'a = nat] by auto
  have idle: "v2_idle ?d" "0 < to_read ?d" "0 < d_bufsize ?d"
    using assms(4) by (simp_all add: v2_idle_def v2_decoder_new_def)
  have hd: "v2_large_flag # put_uint64 v = v2_header ?m @ []" using big(1) by (simp add: v2_header_def Let_def)
  have "recv v2_step ns (v2_large_flag # put_uint64 v) ?d = feed v2_step (v2_large_flag # put_uint64 v) ?d"
    using idle assms(5,6) by (intro v2dec.recv_feed) auto
  moreover obtain d1 where "maxmsgsize d1 = maxsize" "d_avail d1 = mem" "feed v2_step (v2_header ?m @ []) ?d =
      do { r \<leftarrow> v2_size_ready (unat v) d1;
           if fst r = DMore then (run_steps v2_step (snd r) \<bind> continue v2_step []) else continue v2_step [] r }"
    using v2_header_fed [OF idle(1) big(2), of ?m "[]"] by (auto simp: v2_decoder_new_def)
  ultimately show ?thesis using assms(1-3) big(1) unfolding hd
    by (auto simp: v2_size_ready_def wmsg_init_size_def max_vsm_size_def)
qed

theorem v2_huge_frame_undefined_witness:
  "recv v2_step (replicate 9 1) (v2_large_flag # put_uint64 (- 1)) (v2_decoder_new 8192 (- 1) 100) = None"
  by (rule v2_huge_frame_undefined)
     (auto simp: size_fits_def malloc_fails_def sizeof_content_def unsigned_minus_1_eq_mask mask_eq_exp_minus_1)

text \<open>A version 1 frame without room for its flags byte is refused with EPROTO.\<close>

theorem v1_empty_frame_refused:
  assumes "0 < bufsize" "0 < n"
  shows "\<exists>d'. recv v1_step (n # ns) (0 # ys) (v1_decoder_new bufsize maxsize mem) = Some ([], Some EPROTO, d')"
proof -
  let ?d = "v1_decoder_new bufsize maxsize mem"
  have r: "0 < to_read ?d" by (simp add: v1_decoder_new_def)
  have f: "\<exists>d'. feed v1_step (0 # zs) ?d = Some ([], Some EPROTO, d')" for zs
    by (subst feed_continue) (auto simp: v1_decoder_new_def dec_write_def splice_def run_steps_step v1_step_defs continue_def)
  have "0 < snd (get_buffer ?d)" using assms(1) by (auto simp: get_buffer_def v1_decoder_new_def)
  then have c: "take (min n (snd (get_buffer ?d))) (0 # ys) = 0 # take (min n (snd (get_buffer ?d)) - 1) ys"
    using assms(2) by (cases "min n (snd (get_buffer ?d))") auto
  have "in_event v1_step (0 # take (min n (snd (get_buffer ?d)) - 1) ys) ?d =
      feed v1_step (0 # take (min n (snd (get_buffer ?d)) - 1) ys) ?d"
    by (rule v1dec.in_event_feed [OF r]) (use \<open>0 < snd (get_buffer ?d)\<close> in auto)
  with f [of "take (min n (snd (get_buffer ?d)) - 1) ys"] show ?thesis by (auto simp: c simp del: feed.simps)
qed

theorem v1_empty_frame_refused_witness:
  "\<exists>d'. recv v1_step [3, 1] [0, 9, 9] (v1_decoder_new 16 (- 1) 100) = Some ([], Some EPROTO, d')"
  by (rule v1_empty_frame_refused) simp_all

end
