(* ===== verification/Engine.thy ===== *)
theory Engine
  imports Codec
begin

text \<open>
  The output side of src/libzmq/src/stream_engine.cpp: \<open>out_event\<close> fills a batch from the
  encoder and hands it to the socket, which takes as much as it likes. The messages that
  \<open>next_msg\<close> provides are a list. Together with the input side of theory \<open>Codec\<close> this gives the
  end-to-end behaviour of a connection.
\<close>

section \<open>The output event\<close>

text \<open>The loop over \<open>next_msg\<close>; \<open>null\<close> says that \<open>outpos\<close> is still NULL.\<close>

fun fill_batch ::
  "(encoder \<Rightarrow> encoder option) \<Rightarrow> nat \<Rightarrow> bool \<Rightarrow> wmsg list \<Rightarrow> blob \<Rightarrow> encoder \<Rightarrow>
   (blob \<times> wmsg list \<times> encoder) option" where
  "fill_batch nx batch null [] out e = Some (out, [], e)"
| "fill_batch nx batch null (m # ms) out e =
     (if length out \<ge> batch then Some (out, m # ms, e)
      else do { e \<leftarrow> load_msg nx m e;
                (bs, e) \<leftarrow> encode nx null (batch - length out) e;
                zmq_assert (0 < length bs);
                fill_batch nx batch False ms (out @ bs) e })"

text \<open>\<open>outpos\<close>/\<open>outsize\<close> is the list of bytes still to be written. \<open>tcp_write\<close> takes at most \<open>k\<close>
  of them; the first component of the result is what it took.\<close>

definition out_event ::
  "(encoder \<Rightarrow> encoder option) \<Rightarrow> nat \<Rightarrow> nat \<Rightarrow> blob \<Rightarrow> wmsg list \<Rightarrow> encoder \<Rightarrow>
   (blob \<times> blob \<times> wmsg list \<times> encoder) option" where
  "out_event nx batch k out ms e =
     do { (out, ms, e) \<leftarrow>
            (if out = []
             then do { (out, e') \<leftarrow> encode nx True 0 e;
                       fill_batch nx batch (e_in_progress e = None) ms out e' }
             else Some (out, ms, e));
          Some (take k out, drop k out, ms, e) }"

text \<open>A run: before each event new messages may have arrived.\<close>

fun out_events ::
  "(encoder \<Rightarrow> encoder option) \<Rightarrow> nat \<Rightarrow> (wmsg list \<times> nat) list \<Rightarrow> blob \<Rightarrow> wmsg list \<Rightarrow> encoder \<Rightarrow>
   (blob \<times> blob \<times> wmsg list \<times> encoder) option" where
  "out_events nx batch [] out ms e = Some ([], out, ms, e)"
| "out_events nx batch ((new, k) # evs) out ms e =
     do { (w, out, ms, e) \<leftarrow> out_event nx batch k out (ms @ new) e;
          (ws, out, ms, e) \<leftarrow> out_events nx batch evs out ms e;
          Some (w @ ws, out, ms, e) }"

section \<open>Encoders\<close>

definition enc_idle :: "encoder \<Rightarrow> bool" where
  "enc_idle e \<longleftrightarrow> e_in_progress e = None \<and> e_next e = EMessageReady"

definition enc_busy :: "encoder \<Rightarrow> wmsg \<Rightarrow> blob \<Rightarrow> bool" where
  "enc_busy e m rest \<longleftrightarrow> e_in_progress e = Some m \<and>
     (if new_msg_flag e then e_next e = EMessageReady \<and> rest = to_write e
      else e_next e = ESizeReady \<and> rest = to_write e @ wm_data m)"

text \<open>What is left of the current message.\<close>

definition enc_left :: "encoder \<Rightarrow> blob \<Rightarrow> bool" where
  "enc_left e rest \<longleftrightarrow> enc_idle e \<and> rest = [] \<or> (\<exists>m. enc_busy e m rest)"

text \<open>
  The interface of the message encoders to \<open>encoder_base_t\<close>: the first step offers the header
  and schedules the body, or the whole message at once; the second step offers the body.
\<close>

locale message_encoder =
  fixes nx :: "encoder \<Rightarrow> encoder option" and header :: "wmsg \<Rightarrow> blob"
  assumes start: "e_in_progress e = Some m \<Longrightarrow> e_next e = EMessageReady \<Longrightarrow>
      \<exists>e'. nx e = Some e' \<and> enc_busy e' m (header m @ wm_data m) \<and> e_bufsize e' = e_bufsize e"
    and body: "e_in_progress e = Some m \<Longrightarrow> e_next e = ESizeReady \<Longrightarrow>
      nx e = Some (e\<lparr>to_write := wm_data m, e_next := EMessageReady, new_msg_flag := True\<rparr>)"
begin

text \<open>One call of \<open>encode\<close> fills the buffer or finishes the message.\<close>

lemma encode_loop_ok:
  "enc_busy e m rest \<Longrightarrow>
   \<exists>x e'. encode_loop nx null bsz out e = Some (out @ x, e') \<and> e_bufsize e' = e_bufsize e \<and>
     (bsz \<le> length (out @ x) \<and> (\<exists>rest'. enc_busy e' m rest' \<and> rest = x @ rest') \<or>
      length (out @ x) < bsz \<and> enc_idle e' \<and> rest = x)"
proof (induction "2 * length rest + of_bool (\<not> new_msg_flag e)" arbitrary: e rest out rule: less_induct)
  case less
  show ?case
  proof (cases "bsz \<le> length out")
    case True
    then show ?thesis using less.prems by (subst encode_loop.simps) auto
  next
    case False
    show ?thesis
    proof (cases "to_write e = [] \<and> new_msg_flag e")
      case True
      then show ?thesis using less.prems False
        by (subst encode_loop.simps) (auto simp: enc_busy_def enc_idle_def)
    next
      case step: False
      define e1 where "e1 = (if to_write e = []
        then e\<lparr>to_write := wm_data m, e_next := EMessageReady, new_msg_flag := True\<rparr> else e)"
      have e1: "(if to_write e = [] then nx e else Some e) = Some e1"
        using less.prems step body [of e m] by (auto simp: e1_def enc_busy_def)
      have b1: "enc_busy e1 m rest" "e_bufsize e1 = e_bufsize e"
        using less.prems step by (auto simp: e1_def enc_busy_def)
      let ?zero = "out = [] \<and> null \<and> bsz \<le> length (to_write e1)"
      define n where "n = min (length (to_write e1)) (bsz - length out)"
      define e2 where "e2 = e1\<lparr>to_write := drop n (to_write e1)\<rparr>"
      have loop: "encode_loop nx null bsz out e =
          (if ?zero then Some (to_write e1, e1\<lparr>to_write := []\<rparr>)
           else encode_loop nx null bsz (out @ take n (to_write e1)) e2)"
        using False step e1 by (subst encode_loop.simps) (auto simp: n_def e2_def Let_def)
      show ?thesis
      proof (cases ?zero)
        case True
        have "\<exists>r. enc_busy (e1\<lparr>to_write := []\<rparr>) m r \<and> rest = to_write e1 @ r"
          using b1(1) by (auto simp: enc_busy_def)
        with True loop b1(2) show ?thesis by auto
      next
        case copy: False
        have b2: "enc_busy e2 m (drop n rest)" "rest = take n (to_write e1) @ drop n rest"
          using b1(1) by (auto simp: enc_busy_def e2_def n_def min_def split: if_splits)
        have "2 * length (drop n rest) + of_bool (\<not> new_msg_flag e2) < 2 * length rest + of_bool (\<not> new_msg_flag e)"
        proof (cases "to_write e = []")
          case True
          then have "\<not> new_msg_flag e" using step by simp
          then show ?thesis using True by (simp add: e2_def e1_def)
        next
          case no: False
          then have n: "0 < n" "n \<le> length (to_write e)" using False by (auto simp: n_def e1_def)
          moreover have "length (to_write e) \<le> length rest"
            using less.prems by (auto simp: enc_busy_def split: if_splits)
          ultimately show ?thesis using no by (simp add: e2_def e1_def)
        qed
        from less.hyps [OF this b2(1), of "out @ take n (to_write e1)"] b2(2) obtain x e' where
          x: "encode_loop nx null bsz (out @ take n (to_write e1)) e2 = Some (out @ take n (to_write e1) @ x, e')"
          "e_bufsize e' = e_bufsize e2"
          "bsz \<le> length (out @ take n (to_write e1) @ x) \<and> (\<exists>rest'. enc_busy e' m rest' \<and> drop n rest = x @ rest') \<or>
           length (out @ take n (to_write e1) @ x) < bsz \<and> enc_idle e' \<and> drop n rest = x" by auto
        show ?thesis
          using loop copy x b1(2) b2(2)
          by (intro exI [of _ "take n (to_write e1) @ x"] exI [of _ e']) (auto simp: e2_def)
      qed
    qed
  qed
qed


lemma encode_ok:
  assumes "enc_busy e m rest"
  defines "bsz \<equiv> \<lambda>null sz. if null then e_bufsize e else sz"
  shows "\<exists>x e'. encode nx null sz e = Some (x, e') \<and> e_bufsize e' = e_bufsize e \<and>
     (bsz null sz \<le> length x \<and> (\<exists>rest'. enc_busy e' m rest' \<and> rest = x @ rest') \<or>
      length x < bsz null sz \<and> enc_idle e' \<and> rest = x)"
  using encode_loop_ok [OF assms(1), of null "bsz null sz" "[]"] assms(1)
  unfolding bsz_def by (simp add: encode_def enc_busy_def)

lemma load_msg_ok:
  "enc_idle e \<Longrightarrow> \<exists>e'. load_msg nx m e = Some e' \<and> enc_busy e' m (header m @ wm_data m) \<and> e_bufsize e' = e_bufsize e"
  using start [of "e\<lparr>e_in_progress := Some m\<rparr>" m] by (auto simp: load_msg_def enc_idle_def)

definition frames :: "wmsg list \<Rightarrow> blob" where
  "frames ms = concat (map (\<lambda>m. header m @ wm_data m) ms)"

lemma frames_simps [simp]: "frames [] = []" "frames (m # ms) = header m @ wm_data m @ frames ms"
  "frames (ms @ ms') = frames ms @ frames ms'"
  by (simp_all add: frames_def)

text \<open>The batch is filled from the front of the stream that is still to be sent.\<close>

lemma fill_batch_ok:
  assumes "e_bufsize e = batch" "length out < batch \<Longrightarrow> enc_idle e \<and> rest = []" "enc_left e rest"
    "null \<longrightarrow> out = []" "\<forall>m \<in> set ms. header m @ wm_data m \<noteq> []"
  shows "\<exists>x ms' e' rest'. fill_batch nx batch null ms out e = Some (out @ x, ms', e') \<and>
    enc_left e' rest' \<and> e_bufsize e' = batch \<and> set ms' \<subseteq> set ms \<and>
    rest @ frames ms = x @ rest' @ frames ms' \<and>
    (out @ x = [] \<longrightarrow> batch = 0 \<or> ms' = [] \<and> rest' = [])"
  using assms
proof (induction ms arbitrary: null out e rest)
  case Nil
  then show ?case by (cases "batch = 0"; cases "out = []") auto
next
  case (Cons m ms)
  show ?case
  proof (cases "batch \<le> length out")
    case True
    then show ?thesis using Cons.prems(1,3) by (auto intro!: exI [of _ "[] :: blob"] exI [of _ rest])
  next
    case False
    then have idle: "enc_idle e" "rest = []" using Cons.prems(2) by auto
    obtain e1 where e1: "load_msg nx m e = Some e1" "enc_busy e1 m (header m @ wm_data m)" "e_bufsize e1 = batch"
      using load_msg_ok [OF idle(1)] Cons.prems(1) by metis
    let ?b = "if null then e_bufsize e1 else batch - length out"
    obtain x e2 where x: "encode nx null (batch - length out) e1 = Some (x, e2)" "e_bufsize e2 = batch"
      "?b \<le> length x \<and> (\<exists>rest'. enc_busy e2 m rest' \<and> header m @ wm_data m = x @ rest') \<or>
       length x < ?b \<and> enc_idle e2 \<and> header m @ wm_data m = x"
      using encode_ok [OF e1(2), of null "batch - length out"] e1(3) by auto
    have b: "?b = batch - length out" using Cons.prems(4) e1(3) by auto
    have ne: "x \<noteq> []" using x(3) b False Cons.prems(5) by auto
    obtain r2 where r2: "enc_left e2 r2" "header m @ wm_data m = x @ r2" "length (out @ x) < batch \<Longrightarrow> enc_idle e2 \<and> r2 = []"
    proof -
      from x(3) show ?thesis
      proof (elim disjE conjE exE)
        fix r assume "?b \<le> length x" "enc_busy e2 m r" "header m @ wm_data m = x @ r"
        then show ?thesis using b by (intro that [of r]) (auto simp: enc_left_def)
      next
        assume "enc_idle e2" "header m @ wm_data m = x"
        then show ?thesis using that [of "[]"] by (auto simp: enc_left_def)
      qed
    qed
    from Cons.IH [of e2 "out @ x" r2 False] x(2) r2 Cons.prems(5) obtain y ms' e' rest' where
      y: "fill_batch nx batch False ms (out @ x) e2 = Some (out @ x @ y, ms', e')"
      "enc_left e' rest'" "e_bufsize e' = batch" "set ms' \<subseteq> set ms" "r2 @ frames ms = y @ rest' @ frames ms'" by auto
    have "fill_batch nx batch null (m # ms) out e = Some (out @ x @ y, ms', e')"
      using False e1(1) x(1) ne y(1) by simp
    moreover have "rest @ frames (m # ms) = x @ y @ rest' @ frames ms'"
      using idle(2) r2(2) y(5) by (metis append.assoc append_Nil frames_simps(2))
    ultimately show ?thesis using y(2-4) ne by (intro exI [of _ "x @ y"] exI [of _ ms'] exI [of _ e'] exI [of _ rest']) auto
  qed
qed

definition out_inv :: "nat \<Rightarrow> blob \<Rightarrow> wmsg list \<Rightarrow> encoder \<Rightarrow> blob \<Rightarrow> bool" where
  "out_inv batch out ms e todo \<longleftrightarrow> e_bufsize e = batch \<and> 0 < batch \<and>
     (\<forall>m \<in> set ms. header m @ wm_data m \<noteq> []) \<and>
     (\<exists>rest. enc_left e rest \<and> todo = out @ rest @ frames ms)"

lemma out_event_ok:
  assumes "out_inv batch out ms e todo"
  shows "\<exists>w out' ms' e' todo'. out_event nx batch k out ms e = Some (w, out', ms', e') \<and>
    out_inv batch out' ms' e' todo' \<and> todo = w @ todo' \<and> (todo \<noteq> [] \<longrightarrow> 0 < k \<longrightarrow> w \<noteq> [])"
proof (cases "out = []")
  case False
  from assms obtain rest where r: "enc_left e rest" "todo = out @ rest @ frames ms" by (auto simp: out_inv_def)
  then have "out_inv batch (drop k out) ms e (drop k out @ rest @ frames ms)"
    "todo = take k out @ drop k out @ rest @ frames ms"
    using assms by (auto simp: out_inv_def simp flip: append_assoc)
  then show ?thesis using False by (auto simp: out_event_def)
next
  case True
  from assms obtain rest where r: "enc_left e rest" "todo = rest @ frames ms" "e_bufsize e = batch" "0 < batch"
    and ne: "\<forall>m \<in> set ms. header m @ wm_data m \<noteq> []" using True by (auto simp: out_inv_def)
  obtain x e1 r1 where x: "encode nx True 0 e = Some (x, e1)" "e_bufsize e1 = batch" "enc_left e1 r1" "rest = x @ r1"
    "length x < batch \<Longrightarrow> enc_idle e1 \<and> r1 = []" "e_in_progress e = None \<longrightarrow> x = []"
  proof (cases "enc_idle e")
    case idle: True
    then have "rest = []" using r(1) by (auto simp: enc_left_def enc_busy_def enc_idle_def)
    then show ?thesis using that [of "[]" e "[]"] idle r(3,4)
      by (simp add: encode_def enc_idle_def enc_left_def)
  next
    case False
    then obtain m where m: "enc_busy e m rest" using r(1) by (auto simp: enc_left_def)
    obtain x e1 where x: "encode nx True 0 e = Some (x, e1)" "e_bufsize e1 = batch"
      "batch \<le> length x \<and> (\<exists>rest'. enc_busy e1 m rest' \<and> rest = x @ rest') \<or> length x < batch \<and> enc_idle e1 \<and> rest = x"
      using encode_ok [OF m, of True 0] r(3) by auto
    have p: "e_in_progress e \<noteq> None" using m by (auto simp: enc_busy_def)
    from x(3) show ?thesis
    proof (elim disjE conjE exE)
      fix r assume "batch \<le> length x" "enc_busy e1 m r" "rest = x @ r"
      then show ?thesis using that [of x e1 r] x p by (auto simp: enc_left_def)
    next
      assume "enc_idle e1" "rest = x"
      then show ?thesis using that [of x e1 "[]"] x p by (auto simp: enc_left_def)
    qed
  qed
  from fill_batch_ok [OF x(2,5,3), where null = "e_in_progress e = None" and ms = ms, OF _ x(6)] ne obtain y ms' e' r' where
    y: "fill_batch nx batch (e_in_progress e = None) ms x e1 = Some (x @ y, ms', e')" "enc_left e' r'"
    "e_bufsize e' = batch" "set ms' \<subseteq> set ms" "r1 @ frames ms = y @ r' @ frames ms'"
    "x @ y = [] \<longrightarrow> batch = 0 \<or> ms' = [] \<and> r' = []" by blast
  have todo: "todo = (x @ y) @ r' @ frames ms'" using r(2) x(4) y(5) by simp
  have "out_event nx batch k out ms e = Some (take k (x @ y), drop k (x @ y), ms', e')"
    using True x(1) y(1) by (simp add: out_event_def)
  moreover have "out_inv batch (drop k (x @ y)) ms' e' (drop k (x @ y) @ r' @ frames ms')"
    using y(2-4) r(4) ne by (auto simp: out_inv_def)
  moreover have "todo = take k (x @ y) @ drop k (x @ y) @ r' @ frames ms'"
    using todo by (metis append.assoc append_take_drop_id)
  moreover have "todo \<noteq> [] \<longrightarrow> 0 < k \<longrightarrow> take k (x @ y) \<noteq> []"
  proof (cases "x @ y = []")
    case True
    then have "todo = []" using todo y(6) r(4) by simp
    then show ?thesis by simp
  qed (simp only: take_eq_Nil, simp)
  ultimately show ?thesis by blast
qed

text \<open>Whole runs: what is written is what was to be sent, from the front, and every event with
  room in the socket makes progress.\<close>

lemma out_events_ok:
  assumes "out_inv batch out ms e todo" "\<forall>m \<in> set (concat (map fst evs)). header m @ wm_data m \<noteq> []"
  shows "\<exists>w out' ms' e' todo'. out_events nx batch evs out ms e = Some (w, out', ms', e') \<and>
    out_inv batch out' ms' e' todo' \<and> todo @ frames (concat (map fst evs)) = w @ todo'"
  using assms
proof (induction evs arbitrary: out ms e todo)
  case (Cons ev evs)
  obtain new k where ev: "ev = (new, k)" by force
  have "out_inv batch out (ms @ new) e (todo @ frames new)"
    using Cons.prems ev by (auto simp: out_inv_def)
  from out_event_ok [OF this, of k] obtain w out1 ms1 e1 todo1 where
    1: "out_event nx batch k out (ms @ new) e = Some (w, out1, ms1, e1)" "out_inv batch out1 ms1 e1 todo1"
    "todo @ frames new = w @ todo1" by auto
  have "\<forall>m \<in> set (concat (map fst evs)). header m @ wm_data m \<noteq> []" using Cons.prems(2) by simp
  from Cons.IH [OF 1(2) this] obtain ws out' ms' e' todo' where
    "out_events nx batch evs out1 ms1 e1 = Some (ws, out', ms', e')" "out_inv batch out' ms' e' todo'"
    "todo1 @ frames (concat (map fst evs)) = ws @ todo'" by blast
  with 1 ev show ?case by (auto simp flip: append_assoc) (auto simp: append_assoc)
qed auto

lemma out_events_drain:
  assumes "out_inv batch out ms e todo" "length todo \<le> length ks" "\<And>k. k \<in> set ks \<Longrightarrow> 0 < k"
  shows "\<exists>out' ms' e'. out_events nx batch (map (Pair []) ks) out ms e = Some (todo, out', ms', e') \<and>
    out_inv batch out' ms' e' []"
  using assms
proof (induction ks arbitrary: out ms e todo)
  case (Cons k ks)
  from out_event_ok [OF Cons.prems(1), of k] obtain w out1 ms1 e1 todo1 where
    1: "out_event nx batch k out ms e = Some (w, out1, ms1, e1)" "out_inv batch out1 ms1 e1 todo1"
    "todo = w @ todo1" "todo \<noteq> [] \<longrightarrow> 0 < k \<longrightarrow> w \<noteq> []" by blast
  then have "todo \<noteq> [] \<longrightarrow> w \<noteq> []" using Cons.prems(3) [of k] by simp
  then have "length todo1 \<le> length ks" using Cons.prems(2) 1(3) by (cases w) auto
  from Cons.IH [OF 1(2) this] Cons.prems(3) 1 show ?case by auto
qed auto

lemma out_events_append:
  "out_events nx batch (evs @ evs') out ms e =
     do { (w, out, ms, e) \<leftarrow> out_events nx batch evs out ms e;
          (ws, out, ms, e) \<leftarrow> out_events nx batch evs' out ms e;
          Some (w @ ws, out, ms, e) }"
proof (induction evs arbitrary: out ms e)
  case Nil
  then show ?case by (auto split: Option.bind_split)
next
  case (Cons ev evs)
  then show ?case by (cases ev) (auto split: Option.bind_split)
qed

lemma out_events_all:
  assumes "out_inv batch [] [] e []"
    "\<forall>m \<in> set (concat (map fst evs)). header m @ wm_data m \<noteq> []"
    "length (frames (concat (map fst evs))) \<le> length ks" "\<And>k. k \<in> set ks \<Longrightarrow> 0 < k"
  shows "\<exists>out' ms' e'. out_events nx batch (evs @ map (Pair []) ks) [] [] e =
    Some (frames (concat (map fst evs)), out', ms', e') \<and> out_inv batch out' ms' e' []"
proof -
  from out_events_ok [OF assms(1,2)] obtain w out' ms' e' todo' where
    1: "out_events nx batch evs [] [] e = Some (w, out', ms', e')" "out_inv batch out' ms' e' todo'"
    "frames (concat (map fst evs)) = w @ todo'" by auto
  then have "length todo' \<le> length ks" using assms(3) by simp
  from out_events_drain [OF 1(2) this assms(4)] 1 show ?thesis by (auto simp: out_events_append)
qed

end


interpretation v2enc: message_encoder v2_enc_step v2_header
proof (unfold_locales, goal_cases)
  case (1 e m) then show ?case by (auto simp: v2_enc_step_def enc_next_step_def enc_busy_def)
next
  case (2 e m) then show ?case by (auto simp: v2_enc_step_def enc_next_step_def)
qed

interpretation v1enc: message_encoder v1_enc_step v1_header
proof (unfold_locales, goal_cases)
  case (1 e m) then show ?case by (auto simp: v1_enc_step_def enc_next_step_def enc_busy_def)
next
  case (2 e m) then show ?case by (auto simp: v1_enc_step_def enc_next_step_def)
qed

interpretation rawenc: message_encoder raw_enc_step "\<lambda>m. []"
proof (unfold_locales, goal_cases)
  case (1 e m) then show ?case by (auto simp: raw_enc_step_def enc_next_step_def enc_busy_def)
next
  case (2 e m) then show ?case by (auto simp: raw_enc_step_def enc_next_step_def)
qed

section \<open>A connection from end to end\<close>

text \<open>
  Both sides of a connection speak the same frame format. The two interfaces are joined: what
  an encoder writes is what the decoder of the format reads.
\<close>

locale connection =
  snd_side: message_encoder enx hdr + rcv_side: frame_format nx idle hdr fits
  for enx and hdr and nx and idle and fits +
  assumes header_nonempty: "hdr m \<noteq> []"
begin

lemma start_inv: "0 < batch \<Longrightarrow> snd_side.out_inv batch [] [] (encoder_new batch) []"
  by (auto simp: snd_side.out_inv_def encoder_new_def enc_left_def enc_idle_def)

text \<open>At any moment the peer has the first messages, in order, and nothing else.\<close>

lemma received_prefix:
  assumes "0 < batch" "idle d" "0 < d_bufsize d" "\<And>m. m \<in> set (concat (map fst evs)) \<Longrightarrow> fits (limits d) m"
  shows "\<exists>w out ms e. out_events enx batch evs [] [] (encoder_new batch) = Some (w, out, ms, e) \<and>
    (\<forall>ns. (\<forall>n \<in> set ns. 0 < n) \<longrightarrow> length w \<le> length ns \<longrightarrow>
       (\<exists>got d'. recv nx ns w d = Some (got, None, d') \<and> prefix got (concat (map fst evs))))"
proof -
  from snd_side.out_events_ok [OF start_inv [OF assms(1)], of evs] header_nonempty obtain w out ms e todo where
    o: "out_events enx batch evs [] [] (encoder_new batch) = Some (w, out, ms, e)"
    "snd_side.frames (concat (map fst evs)) = w @ todo" by auto
  obtain d1 where "feed nx (w @ todo) d = Some (concat (map fst evs), None, d1)"
    using rcv_side.feed_frames [of d "concat (map fst evs)"] assms(2,4) o(2) by (auto simp: snd_side.frames_def)
  then obtain got d' where g: "feed nx w d = Some (got, None, d')" "prefix got (concat (map fst evs))"
    by (auto simp: feed_append bind_eq_Some_conv split: if_splits) (metis prefixI)
  have "recv nx ns w d = Some (got, None, d')" if "\<forall>n \<in> set ns. 0 < n" "length w \<le> length ns" for ns
    using rcv_side.recv_feed [OF rcv_side.idle_reads [OF assms(2)] assms(3), of ns w] that g by simp
  with o(1) g(2) show ?thesis by blast
qed

text \<open>Once the socket has taken enough, the peer has everything.\<close>

lemma received_all:
  assumes "0 < batch" "idle d" "0 < d_bufsize d" "\<And>m. m \<in> set (concat (map fst evs)) \<Longrightarrow> fits (limits d) m"
    "length (concat (map (\<lambda>m. hdr m @ wm_data m) (concat (map fst evs)))) \<le> length ks" "\<And>k. k \<in> set ks \<Longrightarrow> 0 < k"
    "length (concat (map (\<lambda>m. hdr m @ wm_data m) (concat (map fst evs)))) \<le> length ns" "\<And>n. n \<in> set ns \<Longrightarrow> 0 < n"
  shows "\<exists>w out ms e d'. out_events enx batch (evs @ map (Pair []) ks) [] [] (encoder_new batch) = Some (w, out, ms, e) \<and>
    recv nx ns w d = Some (concat (map fst evs), None, d')"
  using snd_side.out_events_all [OF start_inv [OF assms(1)], of evs ks] header_nonempty assms(5,6)
    rcv_side.recv_frames [OF assms(2,4,3,8,7)]
  by (auto simp: snd_side.frames_def)

end

interpretation v2conn: connection v2_enc_step v2_header v2_step v2_idle v2_fits
  by unfold_locales (simp add: v2_header_def Let_def)

interpretation v1conn: connection v1_enc_step v1_header v1_step v1_idle v1_fits
  by unfold_locales (simp add: v1_header_def Let_def)


lemma v2_new_idle [simp]:
  "v2_idle (v2_decoder_new bufsize maxsize mem)" "d_bufsize (v2_decoder_new bufsize maxsize mem) = bufsize"
  "limits (v2_decoder_new bufsize maxsize mem) = (maxsize, bufsize, mem)"
  by (simp_all add: v2_idle_def v2_decoder_new_def limits_def)

lemma v1_new_idle [simp]:
  "v1_idle (v1_decoder_new bufsize maxsize mem)" "d_bufsize (v1_decoder_new bufsize maxsize mem) = bufsize"
  "limits (v1_decoder_new bufsize maxsize mem) = (maxsize, bufsize, mem)"
  by (simp_all add: v1_idle_def v1_decoder_new_def limits_def)

section \<open>Properties\<close>

text \<open>C23: On a ZMTP/2.0 connection the peer never sees anything but the messages that were sent, in
  the order they were sent, whatever batches the engine forms, however many bytes each write
  takes, and however the network cuts the stream; neither side aborts and no error is reported.\<close>

theorem v2_connection_safe:
  assumes "0 < batch" "0 < bufsize"
    "\<And>m. m \<in> set (concat (map fst evs)) \<Longrightarrow> v2_fits (maxsize, bufsize, mem) m"
  shows "\<exists>w out ms e. out_events v2_enc_step batch evs [] [] (encoder_new batch) = Some (w, out, ms, e) \<and>
    (\<forall>ns. (\<forall>n \<in> set ns. 0 < n) \<longrightarrow> length w \<le> length ns \<longrightarrow>
       (\<exists>got d'. recv v2_step ns w (v2_decoder_new bufsize maxsize mem) = Some (got, None, d') \<and>
          prefix got (concat (map fst evs))))"
  by (rule v2conn.received_prefix) (use assms in simp_all)

definition demo_events :: "(wmsg list \<times> nat) list" where
  "demo_events = [([\<lparr>wm_flags = 1, wm_data = [7, 8]\<rparr>], 3), ([\<lparr>wm_flags = 0, wm_data = [9, 10, 11]\<rparr>], 2)]"

lemma demo_fits:
  "m \<in> set (concat (map fst demo_events)) \<Longrightarrow> v2_fits (100, 2, 100) m"
  "m \<in> set (concat (map fst demo_events)) \<Longrightarrow> v1_fits (100, 2, 100) m"
  by (auto simp: demo_events_def v2_fits_def v1_fits_def size_allowed_def size_fits_def max_vsm_size_def
      sizeof_content_def flag_more_def)

theorem v2_connection_safe_witness:
  "map_option fst (out_events v2_enc_step 4 demo_events [] [] (encoder_new 4)) = Some [1, 2, 7, 8] \<and>
   (\<exists>got d'. recv v2_step [1, 4, 1, 1] [1, 2, 7, 8] (v2_decoder_new 2 100 100) = Some (got, None, d') \<and>
      prefix got (concat (map fst demo_events)))"
proof
  show run: "map_option fst (out_events v2_enc_step 4 demo_events [] [] (encoder_new 4)) = Some [1, 2, 7, 8]"
    by code_simp
  from v2_connection_safe [of 4 2 demo_events 100 100] demo_fits(1) obtain w out ms e where
    w: "out_events v2_enc_step 4 demo_events [] [] (encoder_new 4) = Some (w, out, ms, e)"
    "\<And>ns. (\<forall>n \<in> set ns. 0 < n) \<longrightarrow> length w \<le> length ns \<longrightarrow>
       (\<exists>got d'. recv v2_step ns w (v2_decoder_new 2 100 100) = Some (got, None, d') \<and>
          prefix got (concat (map fst demo_events)))" by auto
  then show "\<exists>got d'. recv v2_step [1, 4, 1, 1] [1, 2, 7, 8] (v2_decoder_new 2 100 100) = Some (got, None, d') \<and>
      prefix got (concat (map fst demo_events))"
    using run w(2) [of "[1, 4, 1, 1]"] by simp
qed

text \<open>C24: On a ZMTP/2.0 connection every message arrives: after any run, once the socket has accepted
  enough writes and the stream has been delivered in pieces of any sizes, the peer has all
  messages with their flags and bytes, in order.\<close>

theorem v2_connection_delivers:
  assumes "0 < batch" "0 < bufsize"
    "\<And>m. m \<in> set (concat (map fst evs)) \<Longrightarrow> v2_fits (maxsize, bufsize, mem) m"
    "length (concat (map (\<lambda>m. v2_header m @ wm_data m) (concat (map fst evs)))) \<le> length ks"
    "\<And>k. k \<in> set ks \<Longrightarrow> 0 < k"
    "length (concat (map (\<lambda>m. v2_header m @ wm_data m) (concat (map fst evs)))) \<le> length ns"
    "\<And>n. n \<in> set ns \<Longrightarrow> 0 < n"
  shows "\<exists>w out ms e d'. out_events v2_enc_step batch (evs @ map (Pair []) ks) [] [] (encoder_new batch) = Some (w, out, ms, e) \<and>
    recv v2_step ns w (v2_decoder_new bufsize maxsize mem) = Some (concat (map fst evs), None, d')"
  by (rule v2conn.received_all) (use assms in simp_all)

theorem v2_connection_delivers_witness:
  "\<exists>w out ms e d'. out_events v2_enc_step 4 (demo_events @ map (Pair []) (replicate 9 2)) [] [] (encoder_new 4) = Some (w, out, ms, e) \<and>
    recv v2_step (replicate 9 3) w (v2_decoder_new 2 100 100) = Some (concat (map fst demo_events), None, d')"
  by (rule v2_connection_delivers)
     (simp_all add: demo_fits(1) del: set_concat, simp_all add: demo_events_def v2_header_def Let_def)

text \<open>The same for a ZMTP/1.0 connection, where a frame is a length, a flags byte and the body.\<close>

theorem v1_connection_delivers:
  assumes "0 < batch" "0 < bufsize"
    "\<And>m. m \<in> set (concat (map fst evs)) \<Longrightarrow> v1_fits (maxsize, bufsize, mem) m"
    "length (concat (map (\<lambda>m. v1_header m @ wm_data m) (concat (map fst evs)))) \<le> length ks"
    "\<And>k. k \<in> set ks \<Longrightarrow> 0 < k"
    "length (concat (map (\<lambda>m. v1_header m @ wm_data m) (concat (map fst evs)))) \<le> length ns"
    "\<And>n. n \<in> set ns \<Longrightarrow> 0 < n"
  shows "\<exists>w out ms e d'. out_events v1_enc_step batch (evs @ map (Pair []) ks) [] [] (encoder_new batch) = Some (w, out, ms, e) \<and>
    recv v1_step ns w (v1_decoder_new bufsize maxsize mem) = Some (concat (map fst evs), None, d')"
  by (rule v1conn.received_all) (use assms in simp_all)

theorem v1_connection_delivers_witness:
  "\<exists>w out ms e d'. out_events v1_enc_step 4 (demo_events @ map (Pair []) (replicate 9 2)) [] [] (encoder_new 4) = Some (w, out, ms, e) \<and>
    recv v1_step (replicate 9 3) w (v1_decoder_new 2 100 100) = Some (concat (map fst demo_events), None, d')"
  by (rule v1_connection_delivers)
     (simp_all add: demo_fits(2) del: set_concat, simp_all add: demo_events_def v1_header_def Let_def)

end
