(* ===== verification/Pipe.thy ===== *)
theory Pipe
  imports Ypipe Msg
begin

unbundle bit_operations_syntax

text \<open>
  \<open>pipe_t\<close> (src/libzmq/src/pipe.cpp, pipe.hpp): the two ends of a bidirectional message pipe, their
  watermarks, the commands they exchange and the termination handshake. An operation works on
  one end; it may use the shared channels, send commands to the other end, raise events in its
  sink and close messages. Messages are values here: the sharing of their buffers is the subject
  of theory \<open>Msg\<close>. A channel is what theory \<open>Ypipe\<close> shows \<open>ypipe_t\<close> to be, or the cell that
  theory \<open>Conflate\<close> shows \<open>ypipe_conflate_t\<close> to be.
\<close>

section \<open>Messages and channels\<close>

record pmsg =
  pm_flags :: byte
  pm_delim :: bool
  pm_data :: blob

definition pm_more :: "pmsg \<Rightarrow> bool" where "pm_more m \<longleftrightarrow> pm_flags m AND flag_more \<noteq> 0"
definition pm_is_identity :: "pmsg \<Rightarrow> bool" where "pm_is_identity m \<longleftrightarrow> pm_flags m AND flag_identity = flag_identity"
definition pm_is_credential :: "pmsg \<Rightarrow> bool" where "pm_is_credential m \<longleftrightarrow> pm_flags m AND flag_credential = flag_credential"

definition pm_init :: pmsg where "pm_init = \<lparr>pm_flags = 0, pm_delim = False, pm_data = []\<rparr>"
definition pm_init_delimiter :: pmsg where "pm_init_delimiter = \<lparr>pm_flags = 0, pm_delim = True, pm_data = []\<rparr>"

text \<open>\<open>Fifo\<close> is a \<open>ypipe_t\<close>, \<open>Cell\<close> a \<open>ypipe_conflate_t\<close>. \<open>lk\<close> is the outcome of the writer's
  \<open>try_lock\<close> on a conflating pipe.\<close>

datatype chan = Fifo "pmsg pspec" | Cell "pmsg option"

definition chan_new :: "bool \<Rightarrow> chan" where
  "chan_new confl = (if confl then Cell None else Fifo pspec_new)"

fun chan_write :: "bool \<Rightarrow> pmsg \<Rightarrow> bool \<Rightarrow> chan \<Rightarrow> chan" where
  "chan_write lk m incomplete (Fifo a) = Fifo (pspec_write m incomplete a)"
| "chan_write lk m incomplete (Cell v) = Cell (if lk then Some m else v)"

fun chan_unwrite :: "chan \<Rightarrow> pmsg option \<times> chan" where
  "chan_unwrite (Fifo a) = (let (m, a) = pspec_unwrite a in (m, Fifo a))"
| "chan_unwrite (Cell v) = (None, Cell v)"

fun chan_flush :: "chan \<Rightarrow> bool \<times> chan" where
  "chan_flush (Fifo a) = (let (ok, a) = pspec_flush a in (ok, Fifo a))"
| "chan_flush (Cell v) = (False, Cell v)"

fun chan_check_read :: "chan \<Rightarrow> bool \<times> chan" where
  "chan_check_read (Fifo a) = (let (ok, a) = pspec_check_read a in (ok, Fifo a))"
| "chan_check_read (Cell v) = (v \<noteq> None, Cell v)"

fun chan_read :: "chan \<Rightarrow> pmsg option \<times> chan" where
  "chan_read (Fifo a) = (let (m, a) = pspec_read a in (m, Fifo a))"
| "chan_read (Cell v) = (v, Cell None)"

fun chan_probe :: "(pmsg \<Rightarrow> bool) \<Rightarrow> chan \<Rightarrow> (bool \<times> chan) option" where
  "chan_probe fn (Fifo a) =
     (let (ok, a) = pspec_check_read a in do { zmq_assert ok; Some (fn (hd (flushed a)), Fifo a) })"
| "chan_probe fn (Cell v) = Some (fn (case v of None \<Rightarrow> pm_init | Some m \<Rightarrow> m), Cell v)"

section \<open>One end of a pipe\<close>

datatype pstate = Active | DelimiterReceived | WaitingForDelimiter | TermAckSent | TermReqSent1 | TermReqSent2

datatype pcmd = ActivateRead | ActivateWrite u64 | Hiccup addr | PipeTerm | PipeTermAck

datatype pevent = ReadActivated | WriteActivated | Hiccuped | PipeTerminated

record pipe_end =
  inpipe :: "addr option"
  outpipe :: "addr option"
  in_active :: bool
  out_active :: bool
  hwm :: int
  lwm :: int
  msgs_read :: u64
  msgs_written :: u64
  peers_msgs_read :: u64
  pstate :: pstate
  delay :: bool
  conflate :: bool
  pidentity :: blob
  pcredential :: blob

text \<open>What an operation sees and changes: the end itself, the channels, the commands it sends to
  the peer, the events of its sink, the messages it closes.\<close>

record pctx =
  pe :: pipe_end
  ch :: "chan heap"
  sent :: "pcmd list"
  raised :: "pevent list"
  closed :: "pmsg list"

definition send_cmd :: "pcmd \<Rightarrow> pctx \<Rightarrow> pctx" where "send_cmd c s = s\<lparr>sent := sent s @ [c]\<rparr>"
definition raise_ev :: "pevent \<Rightarrow> pctx \<Rightarrow> pctx" where "raise_ev e s = s\<lparr>raised := raised s @ [e]\<rparr>"
definition close_msg :: "pmsg \<Rightarrow> pctx \<Rightarrow> pctx" where "close_msg m s = s\<lparr>closed := closed s @ [m]\<rparr>"
definition upd :: "(pipe_end \<Rightarrow> pipe_end) \<Rightarrow> pctx \<Rightarrow> pctx" where "upd f s = s\<lparr>pe := f (pe s)\<rparr>"

text \<open>\<open>inpipe->op ()\<close> and \<open>outpipe->op ()\<close>: a NULL or dangling pointer is undefined behaviour.\<close>

definition on_chan :: "addr option \<Rightarrow> (chan \<Rightarrow> ('r \<times> chan) option) \<Rightarrow> pctx \<Rightarrow> ('r \<times> pctx) option" where
  "on_chan p f s =
     do { a \<leftarrow> p; c \<leftarrow> heap_load (ch s) a; (r, c) \<leftarrow> f c; h \<leftarrow> heap_store (ch s) a c;
          Some (r, s\<lparr>ch := h\<rparr>) }"

definition on_in :: "(chan \<Rightarrow> ('r \<times> chan) option) \<Rightarrow> pctx \<Rightarrow> ('r \<times> pctx) option" where
  "on_in f s = on_chan (inpipe (pe s)) f s"

definition on_out :: "(chan \<Rightarrow> ('r \<times> chan) option) \<Rightarrow> pctx \<Rightarrow> ('r \<times> pctx) option" where
  "on_out f s = on_chan (outpipe (pe s)) f s"

definition max_wm_delta :: int where "max_wm_delta = 1024"

text \<open>The division is that of C; watermarks are not negative in the branch that divides, except
  for the -1 that \<open>socket_base_t\<close> passes for conflating pipes.\<close>

definition compute_lwm :: "int \<Rightarrow> int" where
  "compute_lwm h = (if h > max_wm_delta * 2 then h - max_wm_delta else (h + 1) div 2)"

definition pipe_new :: "addr \<Rightarrow> addr \<Rightarrow> int \<Rightarrow> int \<Rightarrow> bool \<Rightarrow> pipe_end" where
  "pipe_new inp outp inhwm outhwm confl =
     \<lparr>inpipe = Some inp, outpipe = Some outp, in_active = True, out_active = True, hwm = outhwm,
      lwm = compute_lwm inhwm, msgs_read = 0, msgs_written = 0, peers_msgs_read = 0, pstate = Active,
      delay = True, conflate = confl, pidentity = [], pcredential = []\<rparr>"

definition pipe_set_identity :: "blob \<Rightarrow> pctx \<Rightarrow> pctx" where
  "pipe_set_identity b = upd (\<lambda>p. p\<lparr>pidentity := b\<rparr>)"

definition process_delimiter :: "pctx \<Rightarrow> pctx option" where
  "process_delimiter s =
     do { zmq_assert (pstate (pe s) = Active \<or> pstate (pe s) = WaitingForDelimiter);
          Some (if pstate (pe s) = Active then upd (\<lambda>p. p\<lparr>pstate := DelimiterReceived\<rparr>) s
                else upd (\<lambda>p. p\<lparr>pstate := TermAckSent\<rparr>)
                       (send_cmd PipeTermAck (upd (\<lambda>p. p\<lparr>outpipe := None\<rparr>) s))) }"

definition readable :: "pipe_end \<Rightarrow> bool" where
  "readable p \<longleftrightarrow> in_active p \<and> (pstate p = Active \<or> pstate p = WaitingForDelimiter)"

definition pipe_check_read :: "pctx \<Rightarrow> (bool \<times> pctx) option" where
  "pipe_check_read s =
     (if \<not> readable (pe s) then Some (False, s)
      else do { (ok, s) \<leftarrow> on_in (\<lambda>c. Some (chan_check_read c)) s;
                if \<not> ok then Some (False, upd (\<lambda>p. p\<lparr>in_active := False\<rparr>) s)
                else do { (delim, s) \<leftarrow> on_in (chan_probe pm_delim) s;
                          if delim
                          then do { (m, s) \<leftarrow> on_in (\<lambda>c. Some (chan_read c)) s;
                                    zmq_assert (m \<noteq> None);
                                    s \<leftarrow> process_delimiter s;
                                    Some (False, s) }
                          else Some (True, s) } })"

text \<open>The label \<open>read_message\<close>: credentials are stored and skipped.\<close>

partial_function (option) read_message :: "pctx \<Rightarrow> (pmsg option \<times> pctx) option" where
  "read_message s =
     do { (r, s) \<leftarrow> on_in (\<lambda>c. Some (chan_read c)) s;
          case r of
            None \<Rightarrow> Some (None, upd (\<lambda>p. p\<lparr>in_active := False\<rparr>) s)
          | Some m \<Rightarrow>
              if pm_is_credential m
              then read_message (close_msg m (upd (\<lambda>p. p\<lparr>pcredential := pm_data m\<rparr>) s))
              else Some (Some m, s) }"

declare read_message.simps [code]

definition pipe_read :: "pctx \<Rightarrow> (pmsg option \<times> pctx) option" where
  "pipe_read s =
     (if \<not> readable (pe s) then Some (None, s)
      else do { (r, s) \<leftarrow> read_message s;
                case r of
                  None \<Rightarrow> Some (None, s)
                | Some m \<Rightarrow>
                    if pm_delim m then do { s \<leftarrow> process_delimiter s; Some (None, s) }
                    else (let s = (if \<not> pm_more m \<and> \<not> pm_is_identity m
                                   then upd (\<lambda>p. p\<lparr>msgs_read := msgs_read p + 1\<rparr>) s else s);
                              s = (if lwm (pe s) > 0 \<and> uint (msgs_read (pe s)) mod lwm (pe s) = 0
                                   then send_cmd (ActivateWrite (msgs_read (pe s))) s else s)
                          in Some (Some m, s)) })"

definition pipe_check_write :: "pctx \<Rightarrow> bool \<times> pctx" where
  "pipe_check_write s =
     (if \<not> out_active (pe s) \<or> pstate (pe s) \<noteq> Active then (False, s)
      else if hwm (pe s) > 0 \<and> msgs_written (pe s) - peers_msgs_read (pe s) = of_int (hwm (pe s))
      then (False, upd (\<lambda>p. p\<lparr>out_active := False\<rparr>) s)
      else (True, s))"

definition pipe_write :: "bool \<Rightarrow> pmsg \<Rightarrow> pctx \<Rightarrow> (bool \<times> pctx) option" where
  "pipe_write lk m s =
     (let (ok, s) = pipe_check_write s
      in if \<not> ok then Some (False, s)
         else do { (_, s) \<leftarrow> on_out (\<lambda>c. Some ((), chan_write lk m (pm_more m) c)) s;
                   Some (True, if \<not> pm_more m \<and> \<not> pm_is_identity m
                               then upd (\<lambda>p. p\<lparr>msgs_written := msgs_written p + 1\<rparr>) s else s) })"

partial_function (option) rollback_loop :: "pctx \<Rightarrow> pctx option" where
  "rollback_loop s =
     do { (r, s) \<leftarrow> on_out (\<lambda>c. Some (chan_unwrite c)) s;
          case r of
            None \<Rightarrow> Some s
          | Some m \<Rightarrow> do { zmq_assert (pm_more m); rollback_loop (close_msg m s) } }"

declare rollback_loop.simps [code]

definition pipe_rollback :: "pctx \<Rightarrow> pctx option" where
  "pipe_rollback s = (if outpipe (pe s) = None then Some s else rollback_loop s)"

definition pipe_flush :: "pctx \<Rightarrow> pctx option" where
  "pipe_flush s =
     (if pstate (pe s) = TermAckSent \<or> outpipe (pe s) = None then Some s
      else do { (ok, s) \<leftarrow> on_out (\<lambda>c. Some (chan_flush c)) s;
                Some (if \<not> ok then send_cmd ActivateRead s else s) })"

definition process_activate_read :: "pctx \<Rightarrow> pctx" where
  "process_activate_read s =
     (if \<not> in_active (pe s) \<and> (pstate (pe s) = Active \<or> pstate (pe s) = WaitingForDelimiter)
      then raise_ev ReadActivated (upd (\<lambda>p. p\<lparr>in_active := True\<rparr>) s) else s)"

definition process_activate_write :: "u64 \<Rightarrow> pctx \<Rightarrow> pctx" where
  "process_activate_write n s =
     (let s = upd (\<lambda>p. p\<lparr>peers_msgs_read := n\<rparr>) s
      in if \<not> out_active (pe s) \<and> pstate (pe s) = Active
         then raise_ev WriteActivated (upd (\<lambda>p. p\<lparr>out_active := True\<rparr>) s) else s)"

text \<open>\<open>while (p->read (&msg)) msg.close ();\<close>\<close>

partial_function (option) drain :: "addr option \<Rightarrow> pctx \<Rightarrow> pctx option" where
  "drain p s =
     do { (r, s) \<leftarrow> on_chan p (\<lambda>c. Some (chan_read c)) s;
          case r of None \<Rightarrow> Some s | Some m \<Rightarrow> drain p (close_msg m s) }"

declare drain.simps [code]

definition delete_chan :: "addr option \<Rightarrow> pctx \<Rightarrow> pctx option" where
  "delete_chan p s = do { a \<leftarrow> p; h \<leftarrow> heap_free (ch s) a; Some (s\<lparr>ch := h\<rparr>) }"

definition process_hiccup :: "addr \<Rightarrow> pctx \<Rightarrow> pctx option" where
  "process_hiccup a s =
     do { zmq_assert (outpipe (pe s) \<noteq> None);
          (_, s) \<leftarrow> on_out (\<lambda>c. Some (chan_flush c)) s;
          s \<leftarrow> drain (outpipe (pe s)) s;
          s \<leftarrow> delete_chan (outpipe (pe s)) s;
          let s = upd (\<lambda>p. p\<lparr>outpipe := Some a, out_active := True\<rparr>) s;
          Some (if pstate (pe s) = Active then raise_ev Hiccuped s else s) }"

definition process_pipe_term :: "pctx \<Rightarrow> pctx option" where
  "process_pipe_term s =
     do { zmq_assert (pstate (pe s) = Active \<or> pstate (pe s) = DelimiterReceived \<or> pstate (pe s) = TermReqSent1);
          Some (if pstate (pe s) = Active
                then if delay (pe s) then upd (\<lambda>p. p\<lparr>pstate := WaitingForDelimiter\<rparr>) s
                     else send_cmd PipeTermAck (upd (\<lambda>p. p\<lparr>pstate := TermAckSent, outpipe := None\<rparr>) s)
                else if pstate (pe s) = DelimiterReceived
                then send_cmd PipeTermAck (upd (\<lambda>p. p\<lparr>pstate := TermAckSent, outpipe := None\<rparr>) s)
                else send_cmd PipeTermAck (upd (\<lambda>p. p\<lparr>pstate := TermReqSent2, outpipe := None\<rparr>) s)) }"

text \<open>The end deallocates itself: the caller drops it.\<close>

definition process_pipe_term_ack :: "pctx \<Rightarrow> pctx option" where
  "process_pipe_term_ack s =
     do { let s = raise_ev PipeTerminated s;
          s \<leftarrow> (if pstate (pe s) = TermReqSent1
               then Some (send_cmd PipeTermAck (upd (\<lambda>p. p\<lparr>outpipe := None\<rparr>) s))
               else do { zmq_assert (pstate (pe s) = TermAckSent \<or> pstate (pe s) = TermReqSent2); Some s });
          s \<leftarrow> (if \<not> conflate (pe s) then drain (inpipe (pe s)) s else Some s);
          delete_chan (inpipe (pe s)) s }"

definition pipe_set_nodelay :: "pctx \<Rightarrow> pctx" where
  "pipe_set_nodelay = upd (\<lambda>p. p\<lparr>delay := False\<rparr>)"

text \<open>The part of \<open>terminate\<close> after the switch on the state.\<close>

definition stop_output :: "bool \<Rightarrow> pctx \<Rightarrow> pctx option" where
  "stop_output lk s =
     do { let s = upd (\<lambda>p. p\<lparr>out_active := False\<rparr>) s;
          if outpipe (pe s) = None then Some s
          else do { s \<leftarrow> pipe_rollback s;
                    (_, s) \<leftarrow> on_out (\<lambda>c. Some ((), chan_write lk pm_init_delimiter False c)) s;
                    pipe_flush s } }"

definition pipe_terminate :: "bool \<Rightarrow> bool \<Rightarrow> pctx \<Rightarrow> pctx option" where
  "pipe_terminate lk dl s =
     (let s = upd (\<lambda>p. p\<lparr>delay := dl\<rparr>) s
      in case pstate (pe s) of
           TermReqSent1 \<Rightarrow> Some s
         | TermReqSent2 \<Rightarrow> Some s
         | TermAckSent \<Rightarrow> Some s
         | Active \<Rightarrow> stop_output lk (upd (\<lambda>p. p\<lparr>pstate := TermReqSent1\<rparr>) (send_cmd PipeTerm s))
         | WaitingForDelimiter \<Rightarrow>
             stop_output lk
               (if \<not> dl
                then upd (\<lambda>p. p\<lparr>pstate := TermAckSent\<rparr>) (send_cmd PipeTermAck (upd (\<lambda>p. p\<lparr>outpipe := None\<rparr>) s))
                else s)
         | DelimiterReceived \<Rightarrow> stop_output lk (upd (\<lambda>p. p\<lparr>pstate := TermReqSent1\<rparr>) (send_cmd PipeTerm s)))"

definition pipe_hiccup :: "pctx \<Rightarrow> pctx" where
  "pipe_hiccup s =
     (if pstate (pe s) \<noteq> Active then s
      else let (a, h) = heap_alloc (ch s) (chan_new (conflate (pe s)))
           in send_cmd (Hiccup a) (upd (\<lambda>p. p\<lparr>inpipe := Some a, in_active := True\<rparr>) (s\<lparr>ch := h\<rparr>)))"

definition pipe_set_hwms :: "int \<Rightarrow> int \<Rightarrow> pctx \<Rightarrow> pctx" where
  "pipe_set_hwms inhwm outhwm = upd (\<lambda>p. p\<lparr>lwm := compute_lwm inhwm, hwm := outhwm\<rparr>)"

definition pipe_check_hwm :: "pipe_end \<Rightarrow> bool" where
  "pipe_check_hwm p \<longleftrightarrow> \<not> (hwm p > 0 \<and> of_int (hwm p - 1) \<le> msgs_written p - peers_msgs_read p)"

end
