(* ===== verification/Pipepair.thy ===== *)
theory Pipepair
  imports Pipe
begin

text \<open>
  A pair of pipe ends as \<open>pipepair\<close> of src/libzmq/src/pipe.cpp creates it, used from two threads:
  each end has a user and receives commands from the other end in the order they were sent
  (object.cpp and mailbox.cpp keep that order). The theory shows that the termination
  handshake is safe for every interleaving.
\<close>

section \<open>The two ends and their commands\<close>

text \<open>Sides are booleans; \<open>mail x\<close> are the commands on their way to side \<open>x\<close>. An end that has
  deallocated itself is \<open>None\<close>.\<close>

record psys =
  ends :: "bool \<Rightarrow> pipe_end option"
  mail :: "bool \<Rightarrow> pcmd list"
  chans :: "chan heap"
  events :: "(bool \<times> pevent) list"
  released :: "pmsg list"

definition pipepair :: "int \<Rightarrow> int \<Rightarrow> bool \<Rightarrow> bool \<Rightarrow> psys" where
  "pipepair hwm0 hwm1 confl0 confl1 =
     (let (upipe1, h) = heap_alloc [] (chan_new confl0);
          (upipe2, h) = heap_alloc h (chan_new confl1)
      in \<lparr>ends = (\<lambda>x. if x then Some (pipe_new upipe2 upipe1 hwm0 hwm1 confl1)
                      else Some (pipe_new upipe1 upipe2 hwm1 hwm0 confl0)),
          mail = (\<lambda>_. []), chans = h, events = [], released = []\<rparr>)"

datatype uop =
    UCheckRead | URead | UCheckWrite | UWrite bool pmsg | URollback | UFlush | UTerminate bool bool
  | UHiccup | USetNodelay | USetIdentity blob

datatype pact = Use bool uop | Deliver bool

fun use_op :: "uop \<Rightarrow> pctx \<Rightarrow> pctx option" where
  "use_op UCheckRead s = map_option snd (pipe_check_read s)"
| "use_op URead s = map_option snd (pipe_read s)"
| "use_op UCheckWrite s = Some (snd (pipe_check_write s))"
| "use_op (UWrite lk m) s = map_option snd (pipe_write lk m s)"
| "use_op URollback s = pipe_rollback s"
| "use_op UFlush s = pipe_flush s"
| "use_op (UTerminate lk dl) s = pipe_terminate lk dl s"
| "use_op UHiccup s = Some (pipe_hiccup s)"
| "use_op USetNodelay s = Some (pipe_set_nodelay s)"
| "use_op (USetIdentity b) s = Some (pipe_set_identity b s)"

text \<open>\<open>object_t::process_command\<close>: dispatch of a command to its handler. The flag of the result
  says whether the end is still there.\<close>

fun process_command :: "pcmd \<Rightarrow> pctx \<Rightarrow> (bool \<times> pctx) option" where
  "process_command ActivateRead s = Some (True, process_activate_read s)"
| "process_command (ActivateWrite n) s = Some (True, process_activate_write n s)"
| "process_command (Hiccup a) s = map_option (Pair True) (process_hiccup a s)"
| "process_command PipeTerm s = map_option (Pair True) (process_pipe_term s)"
| "process_command PipeTermAck s = map_option (Pair False) (process_pipe_term_ack s)"

definition ctx_of :: "pipe_end \<Rightarrow> psys \<Rightarrow> pctx" where
  "ctx_of p s = \<lparr>pe = p, ch = chans s, sent = [], raised = [], closed = []\<rparr>"

text \<open>The effects of an operation of side \<open>x\<close>. A command to an end that no longer exists would be
  processed by freed memory.\<close>

definition commit :: "bool \<Rightarrow> pipe_end option \<Rightarrow> pctx \<Rightarrow> psys \<Rightarrow> psys option" where
  "commit x p c s =
     do { zmq_assert (sent c = [] \<or> ends s (\<not> x) \<noteq> None);
          Some \<lparr>ends = (ends s)(x := p), mail = (mail s)((\<not> x) := mail s (\<not> x) @ sent c), chans = ch c,
                events = events s @ map (Pair x) (raised c), released = released s @ closed c\<rparr> }"

fun pact_step :: "pact \<Rightarrow> psys \<Rightarrow> psys option" where
  "pact_step (Use x u) s =
     (case ends s x of
        None \<Rightarrow> Some s
      | Some p \<Rightarrow> do { c \<leftarrow> use_op u (ctx_of p s); commit x (Some (pe c)) c s })"
| "pact_step (Deliver x) s =
     (case mail s x of
        [] \<Rightarrow> Some s
      | m # q \<Rightarrow>
          do { p \<leftarrow> ends s x;
               (alive, c) \<leftarrow> process_command m (ctx_of p s);
               commit x (if alive then Some (pe c) else None) c (s\<lparr>mail := (mail s)(x := q)\<rparr>) })"

fun pact_run :: "pact list \<Rightarrow> psys \<Rightarrow> psys option" where
  "pact_run [] s = Some s"
| "pact_run (a # as) s = do { s \<leftarrow> pact_step a s; pact_run as s }"

section \<open>Channels\<close>

fun chan_ok :: "chan \<Rightarrow> bool" where
  "chan_ok (Fifo a) \<longleftrightarrow> pspec_wf a \<and> (\<forall>m \<in> set (partial a). pm_more m)"
| "chan_ok (Cell v) \<longleftrightarrow> True"

definition chans_ok :: "chan heap \<Rightarrow> bool" where
  "chans_ok h \<longleftrightarrow> (\<forall>a c. heap_load h a = Some c \<longrightarrow> chan_ok c)"

lemma chan_ok_ops [inv_intros]:
  "chan_ok (chan_new confl)"
  "chan_ok c \<Longrightarrow> chan_ok (chan_write lk m (pm_more m) c)"
  "chan_ok c \<Longrightarrow> chan_ok (chan_write lk m False c)"
  "chan_ok c \<Longrightarrow> chan_ok (snd (chan_unwrite c))"
  "chan_ok c \<Longrightarrow> chan_ok (snd (chan_flush c))"
  "chan_ok c \<Longrightarrow> chan_ok (snd (chan_check_read c))"
  "chan_ok c \<Longrightarrow> chan_ok (snd (chan_read c))"
proof -
  show "chan_ok (chan_new confl)" by (auto simp: chan_new_def pspec_new_def pspec_wf_def)
next
  assume "chan_ok c"
  then show "chan_ok (chan_write lk m (pm_more m) c)" "chan_ok (chan_write lk m False c)"
    by (cases c; auto simp: pspec_wf_def pspec_write_def split: if_splits)+
next
  assume "chan_ok c"
  then show "chan_ok (snd (chan_unwrite c))" "chan_ok (snd (chan_flush c))"
    "chan_ok (snd (chan_check_read c))" "chan_ok (snd (chan_read c))"
    by (cases c; auto simp: pspec_wf_def pspec_unwrite_def pspec_flush_def pspec_check_read_def pspec_read_def
        Let_def split: prod.splits if_splits dest: in_set_butlastD)+
qed


section \<open>The handshake\<close>

text \<open>The commands that matter: \<open>PipeTermAck\<close> is the last command an end ever sends, and it creates
  no new channel after \<open>PipeTerm\<close>, of which it sends at most one.\<close>

fun mail_ok :: "pcmd list \<Rightarrow> bool" where
  "mail_ok [] \<longleftrightarrow> True"
| "mail_ok (PipeTermAck # q) \<longleftrightarrow> q = []"
| "mail_ok (PipeTerm # q) \<longleftrightarrow> PipeTerm \<notin> set q \<and> (\<forall>a. Hiccup a \<notin> set q) \<and> mail_ok q"
| "mail_ok (c # q) \<longleftrightarrow> mail_ok q"

fun acked :: "pstate option \<Rightarrow> bool" where
  "acked None \<longleftrightarrow> True"
| "acked (Some p) \<longleftrightarrow> p = TermAckSent \<or> p = TermReqSent2"

text \<open>What the states of the two ends and the commands under way have to do with each other.\<close>

definition hs_side :: "pstate option \<Rightarrow> pstate option \<Rightarrow> pcmd list \<Rightarrow> bool" where
  "hs_side own other q \<longleftrightarrow> mail_ok q \<and>
     (PipeTermAck \<in> set q \<longrightarrow> acked other \<and> own \<in> {Some TermAckSent, Some TermReqSent1, Some TermReqSent2}) \<and>
     (PipeTerm \<in> set q \<longrightarrow> other \<in> {Some TermReqSent1, Some TermReqSent2, None} \<and>
        own \<in> {Some Active, Some DelimiterReceived, Some TermReqSent1}) \<and>
     (own = None \<longrightarrow> q = [] \<and> acked other) \<and>
     (own \<in> {Some WaitingForDelimiter, Some TermAckSent, Some TermReqSent2} \<longrightarrow>
        other \<in> {Some TermReqSent1, Some TermReqSent2, None} \<and> PipeTerm \<notin> set q) \<and>
     (\<forall>a. Hiccup a \<in> set q \<longrightarrow> own \<in> {Some Active, Some DelimiterReceived, Some TermReqSent1}) \<and>
     (other \<in> {Some TermReqSent1, Some TermReqSent2} \<longrightarrow>
        PipeTerm \<in> set q \<or> own \<in> {Some WaitingForDelimiter, Some TermAckSent, Some TermReqSent2, None}) \<and>
     (acked other \<and> own \<noteq> None \<longrightarrow> PipeTermAck \<in> set q)"

definition hs :: "(bool \<Rightarrow> pstate option) \<Rightarrow> (bool \<Rightarrow> pcmd list) \<Rightarrow> bool" where
  "hs st ml \<longleftrightarrow> (\<forall>x. hs_side (st x) (st (\<not> x)) (ml x))"

fun is_act :: "pcmd \<Rightarrow> bool" where
  "is_act ActivateRead \<longleftrightarrow> True"
| "is_act (ActivateWrite n) \<longleftrightarrow> True"
| "is_act c \<longleftrightarrow> False"

lemma mail_ok_append_act: "mail_ok q \<Longrightarrow> PipeTermAck \<notin> set q \<Longrightarrow> is_act c \<Longrightarrow> mail_ok (q @ [c])"
  by (induction q rule: mail_ok.induct) (auto elim: is_act.elims)

lemma mail_ok_append_ack: "mail_ok q \<Longrightarrow> PipeTermAck \<notin> set q \<Longrightarrow> mail_ok (q @ [PipeTermAck])"
  by (induction q rule: mail_ok.induct) auto

lemma mail_ok_append_term: "mail_ok q \<Longrightarrow> PipeTermAck \<notin> set q \<Longrightarrow> PipeTerm \<notin> set q \<Longrightarrow> mail_ok (q @ [PipeTerm])"
  by (induction q rule: mail_ok.induct) auto

lemma mail_ok_append_hiccup: "mail_ok q \<Longrightarrow> PipeTermAck \<notin> set q \<Longrightarrow> PipeTerm \<notin> set q \<Longrightarrow> mail_ok (q @ [Hiccup a])"
  by (induction q rule: mail_ok.induct) auto

lemma mail_ok_tl: "mail_ok (c # q) \<Longrightarrow> mail_ok q"
  by (cases c) auto

lemmas mail_ok_intros = mail_ok_append_act mail_ok_append_ack mail_ok_append_term mail_ok_append_hiccup

lemma hs_at: "hs st ml \<longleftrightarrow> hs_side (st x) (st (\<not> x)) (ml x) \<and> hs_side (st (\<not> x)) (st x) (ml (\<not> x))"
  by (cases x) (auto simp: hs_def all_bool_eq)

lemma pstate_option_cases:
  obtains "p = None" | "p = Some Active" | "p = Some DelimiterReceived" | "p = Some WaitingForDelimiter"
  | "p = Some TermAckSent" | "p = Some TermReqSent1" | "p = Some TermReqSent2"
  by (cases p) (auto intro: pstate.exhaust)

text \<open>One lemma per kind of step; \<open>x\<close> is the side that moves.\<close>

lemma hs_pop_act:
  assumes "hs st ml" "ml x = c # q" "is_act c"
  shows "hs st (ml(x := q))"
proof -
  have "hs_side a b (c # q) \<Longrightarrow> hs_side a b q" for a b
    using assms(3) by (cases c) (auto simp: hs_side_def)
  then show ?thesis using assms(1,2) by (simp add: hs_at [of _ _ x])
qed

lemma hs_send_act:
  assumes "hs st ml" "\<not> acked (st x)" "is_act c"
  shows "hs st (ml((\<not> x) := ml (\<not> x) @ [c]))"
proof -
  have "hs_side b a r \<Longrightarrow> \<not> acked a \<Longrightarrow> hs_side b a (r @ [c])" for a b r
    using mail_ok_intros(1) [of r c] assms(3) by (cases c; cases b rule: pstate_option_cases) (auto simp: hs_side_def)
  then show ?thesis using assms(1,2) by (simp add: hs_at [of _ _ x])
qed

lemma hs_delimiter:
  assumes "hs st ml" "st x = Some Active"
  shows "hs (st(x := Some DelimiterReceived)) ml"
proof -
  have "hs_side (Some Active) b q \<Longrightarrow> hs_side b (Some Active) r \<Longrightarrow>
      hs_side (Some DelimiterReceived) b q \<and> hs_side b (Some DelimiterReceived) r" for b q r
    by (cases b rule: pstate_option_cases) (auto simp: hs_side_def)
  then show ?thesis using assms by (simp add: hs_at [of _ _ x]) blast
qed

lemma hs_ack_after_wait:
  assumes "hs st ml" "st x = Some WaitingForDelimiter"
  shows "hs (st(x := Some TermAckSent)) (ml((\<not> x) := ml (\<not> x) @ [PipeTermAck]))"
proof -
  have "hs_side (Some WaitingForDelimiter) b q \<Longrightarrow> hs_side b (Some WaitingForDelimiter) r \<Longrightarrow>
      hs_side (Some TermAckSent) b q \<and> hs_side b (Some TermAckSent) (r @ [PipeTermAck])" for b q r
    using mail_ok_intros(2) [of r] by (cases b rule: pstate_option_cases) (auto simp: hs_side_def)
  then show ?thesis using assms by (simp add: hs_at [of _ _ x]) blast
qed

lemma hs_terminate:
  assumes "hs st ml" "st x = Some Active \<or> st x = Some DelimiterReceived"
  shows "hs (st(x := Some TermReqSent1)) (ml((\<not> x) := ml (\<not> x) @ [PipeTerm]))"
proof -
  have "hs_side a b q \<Longrightarrow> hs_side b a r \<Longrightarrow> a = Some Active \<or> a = Some DelimiterReceived \<Longrightarrow>
      hs_side (Some TermReqSent1) b q \<and> hs_side b (Some TermReqSent1) (r @ [PipeTerm])" for a b q r
    using mail_ok_intros(3) [of r] by (cases b rule: pstate_option_cases) (auto simp: hs_side_def)
  then show ?thesis using assms by (simp add: hs_at [of _ _ x]) blast
qed

lemma hs_hiccup:
  assumes "hs st ml" "st x = Some Active"
  shows "hs st (ml((\<not> x) := ml (\<not> x) @ [Hiccup a]))"
proof -
  have "hs_side b (Some Active) r \<Longrightarrow> hs_side (Some Active) b q \<Longrightarrow> hs_side b (Some Active) (r @ [Hiccup a])" for b q r
    using mail_ok_intros(4) [of r a] by (cases b rule: pstate_option_cases) (auto simp: hs_side_def)
  then show ?thesis using assms by (auto simp: hs_at [of _ _ x])
qed

lemma hs_pop_hiccup:
  assumes "hs st ml" "ml x = Hiccup a # q"
  shows "hs st (ml(x := q)) \<and> st x \<in> {Some Active, Some DelimiterReceived, Some TermReqSent1}"
proof -
  have "hs_side s b (Hiccup a # q) \<Longrightarrow> hs_side s b q \<and> s \<in> {Some Active, Some DelimiterReceived, Some TermReqSent1}" for s b
    by (cases s rule: pstate_option_cases) (auto simp: hs_side_def)
  then show ?thesis using assms by (simp add: hs_at [of _ _ x]) blast
qed

lemma hs_pop_term_wait:
  assumes "hs st ml" "ml x = PipeTerm # q" "st x = Some Active"
  shows "hs (st(x := Some WaitingForDelimiter)) (ml(x := q))"
proof -
  have "hs_side (Some Active) b (PipeTerm # q) \<Longrightarrow> hs_side b (Some Active) r \<Longrightarrow>
      hs_side (Some WaitingForDelimiter) b q \<and> hs_side b (Some WaitingForDelimiter) r" for b r
    by (cases b rule: pstate_option_cases) (auto simp: hs_side_def)
  then show ?thesis using assms by (simp add: hs_at [of _ _ x]) blast
qed

lemma hs_pop_term_ack:
  assumes "hs st ml" "ml x = PipeTerm # q" "st x = Some Active \<or> st x = Some DelimiterReceived"
  shows "hs (st(x := Some TermAckSent)) (ml(x := q, (\<not> x) := ml (\<not> x) @ [PipeTermAck]))"
proof -
  have "hs_side a b (PipeTerm # q) \<Longrightarrow> hs_side b a r \<Longrightarrow> a = Some Active \<or> a = Some DelimiterReceived \<Longrightarrow>
      hs_side (Some TermAckSent) b q \<and> hs_side b (Some TermAckSent) (r @ [PipeTermAck])" for a b r
    using mail_ok_intros(2) [of r] by (cases b rule: pstate_option_cases) (auto simp: hs_side_def)
  then show ?thesis using assms by (simp add: hs_at [of _ _ x]) blast
qed

lemma hs_pop_term_cross:
  assumes "hs st ml" "ml x = PipeTerm # q" "st x = Some TermReqSent1"
  shows "hs (st(x := Some TermReqSent2)) (ml(x := q, (\<not> x) := ml (\<not> x) @ [PipeTermAck]))"
proof -
  have "hs_side (Some TermReqSent1) b (PipeTerm # q) \<Longrightarrow> hs_side b (Some TermReqSent1) r \<Longrightarrow>
      hs_side (Some TermReqSent2) b q \<and> hs_side b (Some TermReqSent2) (r @ [PipeTermAck])" for b r
    using mail_ok_intros(2) [of r] by (cases b rule: pstate_option_cases) (auto simp: hs_side_def)
  then show ?thesis using assms by (simp add: hs_at [of _ _ x]) blast
qed

lemma hs_pop_ack_late:
  assumes "hs st ml" "ml x = PipeTermAck # q" "st x = Some TermReqSent1"
  shows "hs (st(x := None)) (ml(x := q, (\<not> x) := ml (\<not> x) @ [PipeTermAck]))"
proof -
  have "hs_side (Some TermReqSent1) b (PipeTermAck # q) \<Longrightarrow> hs_side b (Some TermReqSent1) r \<Longrightarrow>
      hs_side None b q \<and> hs_side b None (r @ [PipeTermAck])" for b r
    using mail_ok_intros(2) [of r] by (cases b rule: pstate_option_cases) (auto simp: hs_side_def)
  then show ?thesis using assms by (simp add: hs_at [of _ _ x]) blast
qed

lemma hs_pop_ack:
  assumes "hs st ml" "ml x = PipeTermAck # q" "st x \<noteq> Some TermReqSent1"
  shows "hs (st(x := None)) (ml(x := q)) \<and> (st x = Some TermAckSent \<or> st x = Some TermReqSent2)"
proof -
  have "hs_side a b (PipeTermAck # q) \<Longrightarrow> hs_side b a r \<Longrightarrow> a \<noteq> Some TermReqSent1 \<Longrightarrow>
      hs_side None b q \<and> hs_side b None r \<and> (a = Some TermAckSent \<or> a = Some TermReqSent2)" for a b r
    by (cases a rule: pstate_option_cases; cases b rule: pstate_option_cases) (auto simp: hs_side_def)
  then show ?thesis using assms by (simp add: hs_at [of _ _ x]) blast
qed


section \<open>What an operation does to its context\<close>

definition live :: "pctx \<Rightarrow> addr option \<Rightarrow> bool" where
  "live s p \<longleftrightarrow> (\<exists>a. p = Some a \<and> heap_load (ch s) a \<noteq> None)"

lemma live_cong: "dom (heap_load (ch s')) = dom (heap_load (ch s)) \<Longrightarrow> live s' = live s"
  by (fastforce simp: live_def fun_eq_iff)

text \<open>A context an operation can run in: the channels are in order, \<open>inpipe\<close> points to a channel,
  and \<open>outpipe\<close> does unless the end has given it up together with its acknowledgement.\<close>

definition ctx_ok :: "pctx \<Rightarrow> bool" where
  "ctx_ok s \<longleftrightarrow> chans_ok (ch s) \<and> live s (inpipe (pe s)) \<and>
     (if acked (Some (pstate (pe s))) then outpipe (pe s) = None else live s (outpipe (pe s)))"

text \<open>A quiet step leaves the handshake and the set of channels alone; it may send activations,
  but not after the acknowledgement.\<close>

definition quiet :: "pctx \<Rightarrow> pctx \<Rightarrow> bool" where
  "quiet s s' \<longleftrightarrow> ctx_ok s' \<and> dom (heap_load (ch s')) = dom (heap_load (ch s)) \<and>
     pstate (pe s') = pstate (pe s) \<and> inpipe (pe s') = inpipe (pe s) \<and> outpipe (pe s') = outpipe (pe s) \<and>
     (\<exists>q. sent s' = sent s @ q \<and> (\<forall>c \<in> set q. is_act c) \<and> (q \<noteq> [] \<longrightarrow> \<not> acked (Some (pstate (pe s)))))"

lemma quiet_refl: "ctx_ok s \<Longrightarrow> quiet s s"
  by (simp add: quiet_def)

lemma quiet_trans: "quiet s s' \<Longrightarrow> quiet s' s'' \<Longrightarrow> quiet s s''"
  unfolding quiet_def by (elim conjE exE) (rename_tac q q', intro conjI; auto intro!: exI [of _ "q @ q'" for q q'])

lemma quiet_ok: "quiet s s' \<Longrightarrow> ctx_ok s'"
  by (simp add: quiet_def)

lemma quiet_upd:
  "ctx_ok s \<Longrightarrow> pstate (f (pe s)) = pstate (pe s) \<Longrightarrow> inpipe (f (pe s)) = inpipe (pe s) \<Longrightarrow>
   outpipe (f (pe s)) = outpipe (pe s) \<Longrightarrow> quiet s (upd f s)"
  by (auto simp: quiet_def upd_def ctx_ok_def live_def)

lemma quiet_send:
  "ctx_ok s \<Longrightarrow> is_act c \<Longrightarrow> \<not> acked (Some (pstate (pe s))) \<Longrightarrow> quiet s (send_cmd c s)"
  by (auto simp: quiet_def send_cmd_def ctx_ok_def live_def)

lemma quiet_log: "ctx_ok s \<Longrightarrow> quiet s (raise_ev e s)" "ctx_ok s \<Longrightarrow> quiet s (close_msg m s)"
  by (auto simp: quiet_def raise_ev_def close_msg_def ctx_ok_def live_def)

text \<open>An access to a live channel succeeds and is quiet.\<close>

definition frame :: "pctx \<Rightarrow> pctx \<Rightarrow> bool" where
  "frame s s' \<longleftrightarrow> chans_ok (ch s') \<and> dom (heap_load (ch s')) = dom (heap_load (ch s)) \<and> pe s' = pe s \<and> sent s' = sent s"

lemma frame_quiet: "ctx_ok s \<Longrightarrow> frame s s' \<Longrightarrow> quiet s s'"
  using live_cong [of s' s] by (simp add: frame_def quiet_def ctx_ok_def)

lemma on_chan_frame:
  assumes ok: "chans_ok (ch s)" and a: "p = Some a" "heap_load (ch s) a = Some c" and f: "f c = Some (r, c')" "chan_ok c'"
  shows "\<exists>s'. on_chan p f s = Some (r, s') \<and> frame s s' \<and> closed s' = closed s \<and> raised s' = raised s \<and>
    heap_load (ch s') = (heap_load (ch s))(a \<mapsto> c')"
proof -
  from heap_store_ok [of "ch s" a c'] a(2) obtain h where h: "heap_store (ch s) a c' = Some h" by auto
  have ld: "heap_load h = (heap_load (ch s))(a \<mapsto> c')" by (rule heap_load_store [OF h])
  have "on_chan p f s = Some (r, s\<lparr>ch := h\<rparr>)" using a f h by (simp add: on_chan_def)
  moreover have "frame s (s\<lparr>ch := h\<rparr>)" using ok ld f(2) a(2) by (auto simp: frame_def chans_ok_def)
  ultimately show ?thesis using ld by auto
qed

lemma on_chan_at:
  assumes "ctx_ok s" "p = Some a" "heap_load (ch s) a = Some c" "f c = Some (r, c')" "chan_ok c'"
  shows "\<exists>s'. on_chan p f s = Some (r, s') \<and> quiet s s' \<and> pe s' = pe s \<and> sent s' = sent s \<and>
    heap_load (ch s') = (heap_load (ch s))(a \<mapsto> c')"
proof -
  have "chans_ok (ch s)" using assms(1) by (simp add: ctx_ok_def)
  from on_chan_frame [of s p a c f r, OF this assms(2-5)] obtain s' where
    "on_chan p f s = Some (r, s')" "frame s s'" "heap_load (ch s') = (heap_load (ch s))(a \<mapsto> c')" by blast
  then show ?thesis using frame_quiet [OF assms(1)] by (auto simp: frame_def)
qed

lemma live_chan: "ctx_ok s \<Longrightarrow> live s p \<Longrightarrow> \<exists>a c. p = Some a \<and> heap_load (ch s) a = Some c \<and> chan_ok c"
  by (auto simp: live_def ctx_ok_def chans_ok_def)

lemma on_chan_simple:
  assumes "ctx_ok s" "live s p" "\<And>c. chan_ok c \<Longrightarrow> chan_ok (snd (g c))"
  shows "\<exists>r s'. on_chan p (\<lambda>c. Some (g c)) s = Some (r, s') \<and> quiet s s' \<and> pe s' = pe s \<and> sent s' = sent s"
proof -
  obtain a c where c: "p = Some a" "heap_load (ch s) a = Some c" "chan_ok c" using live_chan [OF assms(1,2)] by blast
  from on_chan_at [of s p a c "\<lambda>c. Some (g c)" "fst (g c)" "snd (g c)", OF assms(1) c(1,2) _ assms(3) [OF c(3)]]
  show ?thesis by auto
qed

lemma ctx_live: "ctx_ok s \<Longrightarrow> live s (inpipe (pe s))" "ctx_ok s \<Longrightarrow> \<not> acked (Some (pstate (pe s))) \<Longrightarrow> live s (outpipe (pe s))"
  by (simp_all add: ctx_ok_def)

lemma check_write_quiet: "ctx_ok s \<Longrightarrow> quiet s (snd (pipe_check_write s))"
  by (auto simp: pipe_check_write_def intro!: quiet_refl quiet_upd)

lemma write_quiet:
  assumes "ctx_ok s"
  shows "\<exists>ok s'. pipe_write lk m s = Some (ok, s') \<and> quiet s s'"
proof (cases "fst (pipe_check_write s)")
  case False
  then show ?thesis using check_write_quiet [OF assms] by (auto simp: pipe_write_def split: prod.splits)
next
  case True
  then have w: "pipe_check_write s = (True, s)" "\<not> acked (Some (pstate (pe s)))"
    by (auto simp: pipe_check_write_def split: if_splits)
  from on_chan_simple [OF assms ctx_live(2) [OF assms w(2)], of "\<lambda>c. ((), chan_write lk m (pm_more m) c)"] chan_ok_ops(2)
  obtain s1 where s1: "on_chan (outpipe (pe s)) (\<lambda>c. Some ((), chan_write lk m (pm_more m) c)) s = Some ((), s1)" "quiet s s1"
    by auto
  have "quiet s1 (upd (\<lambda>p. p\<lparr>msgs_written := msgs_written p + 1\<rparr>) s1)"
    by (rule quiet_upd) (simp_all add: quiet_ok [OF s1(2)])
  then show ?thesis using w(1) s1 quiet_trans [OF s1(2)] by (auto simp: pipe_write_def on_out_def)
qed

text \<open>The loops end: each iteration takes an item out of the channel.\<close>

fun readable_items :: "chan \<Rightarrow> nat" where
  "readable_items (Fifo a) = length (flushed a)"
| "readable_items (Cell v) = (case v of None \<Rightarrow> 0 | Some _ \<Rightarrow> 1)"

fun partial_items :: "chan \<Rightarrow> nat" where
  "partial_items (Fifo a) = length (partial a)"
| "partial_items (Cell v) = 0"

lemma chan_read_less: "chan_ok c \<Longrightarrow> chan_read c = (Some m, c') \<Longrightarrow> readable_items c' < readable_items c"
  by (cases c) (auto simp: pspec_read_def pspec_check_read_def pspec_wf_def Let_def split: if_splits prod.splits)

lemma chan_unwrite_less: "chan_ok c \<Longrightarrow> chan_unwrite c = (Some m, c') \<Longrightarrow> partial_items c' < partial_items c \<and> pm_more m"
  by (cases c) (auto simp: pspec_unwrite_def Let_def split: if_splits prod.splits)

lemma on_chan_read:
  assumes "ctx_ok s" "p = Some a" "heap_load (ch s) a = Some c"
  shows "\<exists>s'. on_chan p (\<lambda>c. Some (chan_read c)) s = Some (fst (chan_read c), s') \<and> quiet s s' \<and> pe s' = pe s \<and>
    sent s' = sent s \<and> heap_load (ch s') a = Some (snd (chan_read c))"
proof -
  have "chan_ok c" using assms by (auto simp: ctx_ok_def chans_ok_def)
  from on_chan_at [of s p a c "\<lambda>c. Some (chan_read c)" "fst (chan_read c)", OF assms _ chan_ok_ops(7) [OF this]] show ?thesis by auto
qed

lemma drain_frame:
  "chans_ok (ch s) \<Longrightarrow> p = Some a \<Longrightarrow> heap_load (ch s) a = Some c \<Longrightarrow>
   \<exists>s'. drain p s = Some s' \<and> frame s s'"
proof (induction "readable_items c" arbitrary: s c rule: less_induct)
  case less
  have c: "chan_ok c" using less.prems by (auto simp: chans_ok_def)
  from on_chan_frame [of s p a c "\<lambda>c. Some (chan_read c)" "fst (chan_read c)", OF less.prems _ chan_ok_ops(7) [OF c]] obtain s1 where
    s1: "on_chan p (\<lambda>c. Some (chan_read c)) s = Some (fst (chan_read c), s1)" "frame s s1"
    "heap_load (ch s1) a = Some (snd (chan_read c))" by auto
  show ?case
  proof (cases "fst (chan_read c)")
    case None
    then show ?thesis using s1 by (subst drain.simps) simp
  next
    case (Some m)
    have lt: "readable_items (snd (chan_read c)) < readable_items c"
      using chan_read_less [OF c, of m] Some by (cases "chan_read c") auto
    have h: "chans_ok (ch (close_msg m s1))" "heap_load (ch (close_msg m s1)) a = Some (snd (chan_read c))"
      using s1(2,3) by (simp_all add: close_msg_def frame_def)
    from less.hyps [OF lt h(1) less.prems(2) h(2)] obtain s2 where
      "drain p (close_msg m s1) = Some s2" "frame (close_msg m s1) s2" by blast
    then show ?thesis using s1(1,2) Some by (subst drain.simps) (auto simp: frame_def close_msg_def)
  qed
qed

lemma read_message_quiet:
  "ctx_ok s \<Longrightarrow> inpipe (pe s) = Some a \<Longrightarrow> heap_load (ch s) a = Some c \<Longrightarrow>
   \<exists>r s'. read_message s = Some (r, s') \<and> quiet s s' \<and> sent s' = sent s"
proof (induction "readable_items c" arbitrary: s c rule: less_induct)
  case less
  from on_chan_read [OF less.prems] obtain s1 where
    s1: "on_chan (inpipe (pe s)) (\<lambda>c. Some (chan_read c)) s = Some (fst (chan_read c), s1)" "quiet s s1" "pe s1 = pe s"
    "sent s1 = sent s" "heap_load (ch s1) a = Some (snd (chan_read c))" by blast
  note ok1 = quiet_ok [OF s1(2)]
  show ?case
  proof (cases "fst (chan_read c)")
    case None
    have "quiet s1 (upd (\<lambda>p. p\<lparr>in_active := False\<rparr>) s1)" by (rule quiet_upd) (simp_all add: ok1)
    then show ?thesis using s1 None quiet_trans [OF s1(2)] by (subst read_message.simps) (auto simp: on_in_def upd_def)
  next
    case (Some m)
    have "chan_ok c" using less.prems by (auto simp: ctx_ok_def chans_ok_def)
    then have lt: "readable_items (snd (chan_read c)) < readable_items c"
      using chan_read_less [of c m] Some by (cases "chan_read c") auto
    let ?s2 = "close_msg m (upd (\<lambda>p. p\<lparr>pcredential := pm_data m\<rparr>) s1)"
    have q: "quiet s1 ?s2"
      by (rule quiet_trans [OF quiet_upd quiet_log(2) [OF quiet_ok [OF quiet_upd]]]) (simp_all add: ok1)
    have h: "heap_load (ch ?s2) a = Some (snd (chan_read c))" "inpipe (pe ?s2) = Some a" "sent ?s2 = sent s"
      using s1 less.prems(2) by (simp_all add: close_msg_def upd_def)
    from less.hyps [OF lt quiet_ok [OF q] h(2,1)] obtain r s3 where
      "read_message ?s2 = Some (r, s3)" "quiet ?s2 s3" "sent s3 = sent s" using h(3) by auto
    then show ?thesis using s1 Some quiet_trans [OF quiet_trans [OF s1(2) q]]
      by (subst read_message.simps) (auto simp: on_in_def)
  qed
qed

lemma rollback_loop_quiet:
  "ctx_ok s \<Longrightarrow> outpipe (pe s) = Some a \<Longrightarrow> heap_load (ch s) a = Some c \<Longrightarrow>
   \<exists>s'. rollback_loop s = Some s' \<and> quiet s s' \<and> pe s' = pe s \<and> sent s' = sent s"
proof (induction "partial_items c" arbitrary: s c rule: less_induct)
  case less
  have c: "chan_ok c" using less.prems by (auto simp: ctx_ok_def chans_ok_def)
  from on_chan_at [of s "outpipe (pe s)" a c "\<lambda>c. Some (chan_unwrite c)" "fst (chan_unwrite c)", OF less.prems _ chan_ok_ops(4) [OF c]] obtain s1 where
    s1: "on_chan (outpipe (pe s)) (\<lambda>c. Some (chan_unwrite c)) s = Some (fst (chan_unwrite c), s1)" "quiet s s1"
    "pe s1 = pe s" "sent s1 = sent s" "heap_load (ch s1) a = Some (snd (chan_unwrite c))" by auto
  show ?case
  proof (cases "fst (chan_unwrite c)")
    case None
    then show ?thesis using s1 by (subst rollback_loop.simps) (simp add: on_out_def)
  next
    case (Some m)
    have lt: "partial_items (snd (chan_unwrite c)) < partial_items c" "pm_more m"
      using chan_unwrite_less [OF c, of m] Some by (cases "chan_unwrite c"; auto)+
    have q: "quiet s1 (close_msg m s1)" using quiet_log(2) [OF quiet_ok [OF s1(2)]] .
    have h: "heap_load (ch (close_msg m s1)) a = Some (snd (chan_unwrite c))" "outpipe (pe (close_msg m s1)) = Some a"
      using s1 less.prems(2) by (simp_all add: close_msg_def)
    from less.hyps [OF lt(1) quiet_ok [OF q] h(2,1)] obtain s2 where
      "rollback_loop (close_msg m s1) = Some s2" "quiet (close_msg m s1) s2" "pe s2 = pe s" "sent s2 = sent s"
      using s1(3,4) by (auto simp: close_msg_def)
    then show ?thesis using s1(1) Some lt(2) quiet_trans [OF quiet_trans [OF s1(2) q]]
      by (subst rollback_loop.simps) (auto simp: on_out_def)
  qed
qed

lemma rollback_quiet:
  assumes "ctx_ok s"
  shows "\<exists>s'. pipe_rollback s = Some s' \<and> quiet s s' \<and> pe s' = pe s \<and> sent s' = sent s"
proof (cases "outpipe (pe s)")
  case None
  then show ?thesis using quiet_refl [OF assms] by (simp add: pipe_rollback_def)
next
  case (Some a)
  then obtain c where "heap_load (ch s) a = Some c"
    using assms by (auto simp: ctx_ok_def live_def split: if_splits)
  from rollback_loop_quiet [OF assms Some this] Some show ?thesis by (simp add: pipe_rollback_def)
qed

lemma flush_quiet:
  assumes "ctx_ok s"
  shows "\<exists>s'. pipe_flush s = Some s' \<and> quiet s s'"
proof (cases "acked (Some (pstate (pe s)))")
  case True
  then show ?thesis using quiet_refl [OF assms] assms by (auto simp: pipe_flush_def ctx_ok_def)
next
  case False
  from on_chan_simple [OF assms ctx_live(2) [OF assms False], of chan_flush] chan_ok_ops(5) obtain ok s1 where
    s1: "on_chan (outpipe (pe s)) (\<lambda>c. Some (chan_flush c)) s = Some (ok, s1)" "quiet s s1" "pe s1 = pe s" by auto
  have "quiet s1 (send_cmd ActivateRead s1)"
    by (rule quiet_send) (use quiet_ok [OF s1(2)] False s1(3) in auto)
  then show ?thesis using s1 quiet_trans [OF s1(2)] False ctx_live(2) [OF assms False]
    by (auto simp: pipe_flush_def on_out_def live_def)
qed


text \<open>Reading is quiet, or quiet up to the delimiter.\<close>

definition up_to_delimiter :: "pctx \<Rightarrow> pctx \<Rightarrow> bool" where
  "up_to_delimiter s s' \<longleftrightarrow> quiet s s' \<or>
     (\<exists>s1. quiet s s1 \<and> sent s1 = sent s \<and> pstate (pe s) \<in> {Active, WaitingForDelimiter} \<and> process_delimiter s1 = Some s')"

lemma process_delimiter_Some:
  "pstate (pe s) = Active \<or> pstate (pe s) = WaitingForDelimiter \<Longrightarrow> \<exists>s'. process_delimiter s = Some s'"
  by (simp add: process_delimiter_def)

lemma read_quiet:
  assumes "ctx_ok s"
  shows "\<exists>r s'. pipe_read s = Some (r, s') \<and> up_to_delimiter s s'"
proof (cases "readable (pe s)")
  case False
  then show ?thesis using quiet_refl [OF assms] by (simp add: pipe_read_def up_to_delimiter_def)
next
  case True
  then have st: "pstate (pe s) = Active \<or> pstate (pe s) = WaitingForDelimiter" by (simp add: readable_def)
  obtain a c where a: "inpipe (pe s) = Some a" "heap_load (ch s) a = Some c"
    using live_chan [OF assms ctx_live(1) [OF assms]] by blast
  from read_message_quiet [OF assms a] obtain r s1 where
    s1: "read_message s = Some (r, s1)" "quiet s s1" "sent s1 = sent s" by blast
  have st1: "pstate (pe s1) = pstate (pe s)" using s1(2) by (simp add: quiet_def)
  show ?thesis
  proof (cases r)
    case None
    then show ?thesis using True s1 by (simp add: pipe_read_def up_to_delimiter_def)
  next
    case (Some m)
    show ?thesis
    proof (cases "pm_delim m")
      case True
      obtain s2 where "process_delimiter s1 = Some s2" using process_delimiter_Some [of s1] st st1 by auto
      then show ?thesis using True \<open>readable (pe s)\<close> s1 Some st by (auto simp: pipe_read_def up_to_delimiter_def)
    next
      case False
      define s2 where "s2 = (if \<not> pm_more m \<and> \<not> pm_is_identity m
        then upd (\<lambda>p. p\<lparr>msgs_read := msgs_read p + 1\<rparr>) s1 else s1)"
      have q2: "quiet s s2" unfolding s2_def
        using quiet_trans [OF s1(2) quiet_upd [OF quiet_ok [OF s1(2)], of "\<lambda>p. p\<lparr>msgs_read := msgs_read p + 1\<rparr>"]] s1(2) by simp
      then have "quiet s2 (send_cmd (ActivateWrite (msgs_read (pe s2))) s2)"
        using st by (intro quiet_send) (auto simp: quiet_def)
      then show ?thesis using False True s1 Some q2 quiet_trans [OF q2]
        by (auto simp: pipe_read_def up_to_delimiter_def s2_def [symmetric] Let_def)
    qed
  qed
qed

lemma check_read_quiet:
  assumes "ctx_ok s"
  shows "\<exists>r s'. pipe_check_read s = Some (r, s') \<and> up_to_delimiter s s'"
proof (cases "readable (pe s)")
  case False
  then show ?thesis using quiet_refl [OF assms] by (auto simp: pipe_check_read_def up_to_delimiter_def)
next
  case True
  then have st: "pstate (pe s) = Active \<or> pstate (pe s) = WaitingForDelimiter" by (simp add: readable_def)
  obtain a c where a: "inpipe (pe s) = Some a" "heap_load (ch s) a = Some c" "chan_ok c"
    using live_chan [OF assms ctx_live(1) [OF assms]] by blast
  let ?c1 = "snd (chan_check_read c)"
  have c1: "chan_ok ?c1" by (rule chan_ok_ops(6) [OF a(3)])
  from on_chan_at [of s "inpipe (pe s)" a c "\<lambda>c. Some (chan_check_read c)" "fst (chan_check_read c)", OF assms a(1,2) _ c1] obtain s1 where
    s1: "on_chan (inpipe (pe s)) (\<lambda>c. Some (chan_check_read c)) s = Some (fst (chan_check_read c), s1)" "quiet s s1"
    "pe s1 = pe s" "sent s1 = sent s" "heap_load (ch s1) a = Some ?c1" by auto
  show ?thesis
  proof (cases "fst (chan_check_read c)")
    case False
    then have "quiet s (upd (\<lambda>p. p\<lparr>in_active := False\<rparr>) s1)"
      by (intro quiet_trans [OF s1(2) quiet_upd [OF quiet_ok [OF s1(2)]]]) simp_all
    then show ?thesis using False True s1 by (auto simp: pipe_check_read_def on_in_def up_to_delimiter_def)
  next
    case more: True
    have pr: "\<exists>b. chan_probe pm_delim ?c1 = Some (b, ?c1)" "fst (chan_read ?c1) \<noteq> None"
      using more a(3) by (cases c; auto simp: pspec_check_read_def pspec_read_def pspec_wf_def split: if_splits)+
    then obtain b where b: "chan_probe pm_delim ?c1 = Some (b, ?c1)" by blast
    from on_chan_at [of s1 "inpipe (pe s1)" a ?c1 "chan_probe pm_delim", OF quiet_ok [OF s1(2)] _ s1(5) b c1] a(1) s1(3) obtain s2 where
      s2: "on_chan (inpipe (pe s1)) (chan_probe pm_delim) s1 = Some (b, s2)" "quiet s1 s2" "pe s2 = pe s"
      "sent s2 = sent s" "heap_load (ch s2) a = Some ?c1" using s1(4,5) by auto
    have q2: "quiet s s2" by (rule quiet_trans [OF s1(2) s2(2)])
    show ?thesis
    proof (cases b)
      case False
      then show ?thesis using True more s1 s2 q2 by (auto simp: pipe_check_read_def on_in_def up_to_delimiter_def)
    next
      case delim: True
      from on_chan_read [OF quiet_ok [OF s2(2)] _ s2(5), of "inpipe (pe s2)"] a(1) s2(3) obtain s3 where
        s3: "on_chan (inpipe (pe s2)) (\<lambda>c. Some (chan_read c)) s2 = Some (fst (chan_read ?c1), s3)" "quiet s2 s3"
        "pe s3 = pe s" "sent s3 = sent s" using s2(4) by auto
      obtain s4 where "process_delimiter s3 = Some s4" using process_delimiter_Some [of s3] st s3(3) by auto
      then have "pipe_check_read s = Some (False, s4)" "up_to_delimiter s s4"
        using True more s1 s2 s3 delim pr(2) st quiet_trans [OF q2 s3(2)]
        by (auto simp: pipe_check_read_def on_in_def up_to_delimiter_def)
      then show ?thesis by blast
    qed
  qed
qed


lemma stop_output_quiet:
  assumes "ctx_ok s"
  shows "\<exists>s'. stop_output lk s = Some s' \<and> quiet s s'"
proof -
  let ?s0 = "upd (\<lambda>p. p\<lparr>out_active := False\<rparr>) s"
  have q0: "quiet s ?s0" by (rule quiet_upd) (simp_all add: assms)
  show ?thesis
  proof (cases "outpipe (pe ?s0) = None")
    case True
    then show ?thesis using q0 by (simp add: stop_output_def)
  next
    case False
    from rollback_quiet [OF quiet_ok [OF q0]] obtain s1 where
      s1: "pipe_rollback ?s0 = Some s1" "quiet ?s0 s1" "pe s1 = pe ?s0" by blast
    have "live s1 (outpipe (pe s1))"
      using False s1(3) quiet_ok [OF s1(2)] by (auto simp: ctx_ok_def split: if_splits)
    from on_chan_simple [OF quiet_ok [OF s1(2)] this, of "\<lambda>c. ((), chan_write lk pm_init_delimiter False c)"] chan_ok_ops(3)
    obtain s2 where s2: "on_chan (outpipe (pe s1)) (\<lambda>c. Some ((), chan_write lk pm_init_delimiter False c)) s1 = Some ((), s2)"
      "quiet s1 s2" by auto
    from flush_quiet [OF quiet_ok [OF s2(2)]] obtain s3 where s3: "pipe_flush s2 = Some s3" "quiet s2 s3" by blast
    show ?thesis using False s1 s2 s3 quiet_trans [OF quiet_trans [OF quiet_trans [OF q0 s1(2)] s2(2)] s3(2)]
      by (auto simp: stop_output_def on_out_def)
  qed
qed

section \<open>Who owns which channel\<close>

text \<open>\<open>ins x\<close> is the channel side \<open>x\<close> reads from, \<open>lks x\<close> the channels side \<open>x\<close> writes to, now and
  after the hiccups on their way to it. The reader reads the newest of them; once the
  writer has given up its end the reader owns its channel alone.\<close>

definition owned :: "(bool \<Rightarrow> addr option) \<Rightarrow> (bool \<Rightarrow> addr list) \<Rightarrow> bool \<Rightarrow> addr list" where
  "owned ins lks x = (case ins x of None \<Rightarrow> [] | Some a \<Rightarrow> if lks (\<not> x) = [] then [a] else lks (\<not> x))"

definition own_inv :: "(bool \<Rightarrow> addr option) \<Rightarrow> (bool \<Rightarrow> addr list) \<Rightarrow> chan heap \<Rightarrow> bool" where
  "own_inv ins lks h \<longleftrightarrow>
     (\<forall>x. case ins x of None \<Rightarrow> lks (\<not> x) = [] | Some a \<Rightarrow> lks (\<not> x) \<noteq> [] \<longrightarrow> a = last (lks (\<not> x))) \<and>
     distinct (owned ins lks True @ owned ins lks False) \<and>
     dom (heap_load h) = set (owned ins lks True) \<union> set (owned ins lks False) \<and> chans_ok h"

lemma own_at:
  "own_inv ins lks h \<longleftrightarrow>
     (\<forall>y \<in> {x, \<not> x}. case ins y of None \<Rightarrow> lks (\<not> y) = [] | Some a \<Rightarrow> lks (\<not> y) \<noteq> [] \<longrightarrow> a = last (lks (\<not> y))) \<and>
     distinct (owned ins lks x @ owned ins lks (\<not> x)) \<and>
     dom (heap_load h) = set (owned ins lks x) \<union> set (owned ins lks (\<not> x)) \<and> chans_ok h"
  by (cases x) (auto simp: own_inv_def all_bool_eq)

lemma own_ack:
  assumes "own_inv ins lks h" "lks x = [a]"
  shows "own_inv ins (lks(x := [])) h"
  using assms by (auto simp: own_at [of _ _ _ x] owned_def split: option.splits)

lemma own_hiccup:
  assumes "own_inv ins lks h" "lks (\<not> x) \<noteq> []" "heap_alloc h (chan_new cf) = (a, h')"
  shows "own_inv (ins(x := Some a)) (lks((\<not> x) := lks (\<not> x) @ [a])) h'"
proof -
  have fresh: "heap_load h a = None" "heap_load h' = (heap_load h)(a \<mapsto> chan_new cf)"
    using hp.al_fresh [OF assms(3)] hp.ld_al [OF assms(3)] by auto
  then have "chans_ok h'" using assms(1) chan_ok_ops(1) by (auto simp: own_inv_def chans_ok_def)
  moreover have "a \<notin> dom (heap_load h)" using fresh(1) by auto
  moreover have "ins x \<noteq> None" using assms(1,2) by (auto simp: own_at [of _ _ _ x])
  ultimately show ?thesis using assms(1,2) fresh by (auto simp: own_at [of _ _ _ x] owned_def split: option.splits)
qed

lemma own_drop:
  assumes "own_inv ins lks h" "lks x = b # q" "q \<noteq> []" "heap_free h b = Some h'"
  shows "own_inv ins (lks(x := q)) h'"
proof -
  have fr: "heap_load h' = (heap_load h)(b := None)" by (rule heap_load_free [OF assms(4)])
  then have "chans_ok h'" using assms(1) by (auto simp: own_inv_def chans_ok_def)
  then show ?thesis using assms(1-3) fr
    by (auto simp: own_at [of _ _ _ x] owned_def split: option.splits)
qed

lemma own_gone:
  assumes "own_inv ins lks h" "ins x = Some a" "lks (\<not> x) = []" "heap_free h a = Some h'"
  shows "own_inv (ins(x := None)) lks h'"
proof -
  have fr: "heap_load h' = (heap_load h)(a := None)" by (rule heap_load_free [OF assms(4)])
  then have "chans_ok h'" using assms(1) by (auto simp: own_inv_def chans_ok_def)
  then show ?thesis using assms(1-3) fr
    by (auto simp: own_at [of _ _ _ x] owned_def split: option.splits)
qed


section \<open>The invariant of a pair\<close>

definition st_of :: "psys \<Rightarrow> bool \<Rightarrow> pstate option" where
  "st_of s x = map_option pstate (ends s x)"

definition ins_of :: "psys \<Rightarrow> bool \<Rightarrow> addr option" where
  "ins_of s x = (case ends s x of None \<Rightarrow> None | Some p \<Rightarrow> inpipe p)"

fun hics :: "pcmd list \<Rightarrow> addr list" where
  "hics [] = []"
| "hics (Hiccup a # q) = a # hics q"
| "hics (c # q) = hics q"

definition outs_of :: "pipe_end option \<Rightarrow> addr list" where
  "outs_of e = (case e of None \<Rightarrow> [] | Some p \<Rightarrow> (case outpipe p of None \<Rightarrow> [] | Some a \<Rightarrow> [a]))"

definition lks_of :: "psys \<Rightarrow> bool \<Rightarrow> addr list" where
  "lks_of s x = outs_of (ends s x) @ hics (mail s x)"

definition end_ok :: "pipe_end \<Rightarrow> bool" where
  "end_ok p \<longleftrightarrow> inpipe p \<noteq> None \<and> (outpipe p = None \<longleftrightarrow> acked (Some (pstate p)))"

definition pinv :: "psys \<Rightarrow> bool" where
  "pinv s \<longleftrightarrow> hs (st_of s) (mail s) \<and> own_inv (ins_of s) (lks_of s) (chans s) \<and>
     (\<forall>x p. ends s x = Some p \<longrightarrow> end_ok p)"

lemma hics_append [simp]: "hics (q @ r) = hics q @ hics r"
  by (induction q rule: hics.induct) auto

lemma hics_acts: "\<forall>c \<in> set q. is_act c \<Longrightarrow> hics q = []"
  by (induction q rule: hics.induct) auto

lemma hics_Nil: "hics q = [] \<longleftrightarrow> (\<forall>a. Hiccup a \<notin> set q)"
  by (induction q rule: hics.induct) auto

lemma hs_send_acts:
  "hs st ml \<Longrightarrow> (q \<noteq> [] \<longrightarrow> \<not> acked (st x)) \<Longrightarrow> \<forall>c \<in> set q. is_act c \<Longrightarrow> hs st (ml((\<not> x) := ml (\<not> x) @ q))"
proof (induction q rule: rev_induct)
  case Nil
  then show ?case by simp
next
  case (snoc c q)
  then have "hs st (ml((\<not> x) := ml (\<not> x) @ q))" by (intro snoc.IH) auto
  from hs_send_act [OF this, of x c] snoc.prems
  have "hs st ((ml((\<not> x) := ml (\<not> x) @ q))((\<not> x) := (ml((\<not> x) := ml (\<not> x) @ q)) (\<not> x) @ [c]))" by auto
  then show ?case by (simp only: fun_upd_upd fun_upd_same append_assoc)
qed

lemma pinv_owned:
  assumes "pinv s" "ends s x = Some p"
  shows "ctx_ok (ctx_of p s)"
proof -
  have p: "inpipe p \<noteq> None" "outpipe p = None \<longleftrightarrow> acked (Some (pstate p))"
    using assms by (auto simp: pinv_def end_ok_def)
  have o: "own_inv (ins_of s) (lks_of s) (chans s)" using assms(1) by (simp add: pinv_def)
  from p(1) obtain a where a: "inpipe p = Some a" by blast
  have "a \<in> dom (heap_load (chans s))"
    using o assms(2) a by (auto simp: own_at [of _ _ _ x] owned_def ins_of_def)
  then have "heap_load (chans s) a \<noteq> None" by auto
  moreover have "heap_load (chans s) b \<noteq> None" if "outpipe p = Some b" for b
  proof -
    have b: "b \<in> set (lks_of s x)" using that assms(2) by (simp add: lks_of_def outs_of_def)
    then have "lks_of s x \<noteq> []" by auto
    then have "ins_of s (\<not> x) \<noteq> None" using o by (auto simp: own_at [of _ _ _ x])
    then have "owned (ins_of s) (lks_of s) (\<not> x) = lks_of s x" using \<open>lks_of s x \<noteq> []\<close> by (auto simp: owned_def)
    then have "b \<in> dom (heap_load (chans s))" using o b by (simp add: own_at [of _ _ _ x])
    then show ?thesis by auto
  qed
  moreover have "chans_ok (chans s)" using o by (simp add: own_inv_def)
  ultimately show ?thesis using p a
    by (cases "outpipe p") (auto simp: ctx_ok_def ctx_of_def live_def)
qed

text \<open>An end that has not acknowledged has a peer.\<close>

lemma peer_alive:
  assumes "pinv s" "ends s x = Some p" "\<not> acked (Some (pstate p))"
  shows "ends s (\<not> x) \<noteq> None"
proof -
  have "hs_side (st_of s (\<not> x)) (st_of s x) (mail s (\<not> x))" using assms(1) by (simp add: pinv_def hs_at [of _ _ x])
  then show ?thesis using assms(2,3) by (auto simp: hs_side_def st_of_def)
qed

text \<open>Continuing quietly after an effect that has been accounted for.\<close>

lemma pinv_quiet:
  assumes one: "commit x (Some (pe c1)) c1 s = Some s1" and inv: "pinv s1" and q: "quiet c1 c"
  shows "\<exists>s'. commit x (Some (pe c)) c s = Some s' \<and> pinv s'"
proof -
  from q obtain r where r: "sent c = sent c1 @ r" "\<forall>d \<in> set r. is_act d" "r \<noteq> [] \<longrightarrow> \<not> acked (Some (pstate (pe c1)))"
    by (auto simp: quiet_def)
  have same: "pstate (pe c) = pstate (pe c1)" "inpipe (pe c) = inpipe (pe c1)" "outpipe (pe c) = outpipe (pe c1)"
    "dom (heap_load (ch c)) = dom (heap_load (ch c1))" "chans_ok (ch c)"
    using q by (auto simp: quiet_def ctx_ok_def)
  have s1: "sent c1 = [] \<or> ends s (\<not> x) \<noteq> None"
    "s1 = \<lparr>ends = (ends s)(x := Some (pe c1)), mail = (mail s)((\<not> x) := mail s (\<not> x) @ sent c1), chans = ch c1,
      events = events s @ map (Pair x) (raised c1), released = released s @ closed c1\<rparr>"
    using one by (auto simp: commit_def bind_eq_Some_conv)
  then have e1: "ends s1 x = Some (pe c1)" "ends s1 (\<not> x) = ends s (\<not> x)" by simp_all
  define s' where "s' = \<lparr>ends = (ends s)(x := Some (pe c)), mail = (mail s)((\<not> x) := mail s (\<not> x) @ sent c), chans = ch c,
    events = events s @ map (Pair x) (raised c), released = released s @ closed c\<rparr>"
  have "commit x (Some (pe c)) c s = Some s'"
    using r(1,3) s1(1) peer_alive [OF inv e1(1)] e1(2) by (cases "r = []") (auto simp: commit_def s'_def)
  moreover have "st_of s' = st_of s1" "ins_of s' = ins_of s1" "lks_of s' = lks_of s1"
    using same s1(2) r(1) hics_acts [OF r(2)]
    by (auto simp: fun_eq_iff st_of_def ins_of_def lks_of_def outs_of_def s'_def)
  moreover have "hs (st_of s1) (mail s')"
  proof -
    have "hs (st_of s1) ((mail s1)((\<not> x) := mail s1 (\<not> x) @ r))"
      using inv r(2,3) e1(1) by (intro hs_send_acts) (auto simp: pinv_def st_of_def)
    moreover have "mail s' = (mail s1)((\<not> x) := mail s1 (\<not> x) @ r)" using s1(2) r(1) by (simp add: s'_def)
    ultimately show ?thesis by simp
  qed
  moreover have "own_inv (ins_of s1) (lks_of s1) (chans s')"
    using inv same(4,5) s1(2) by (simp add: pinv_def own_inv_def s'_def)
  moreover have "end_ok (pe c)" using inv e1(1) same(1-3) by (simp add: pinv_def end_ok_def)
  then have "\<forall>y p'. ends s' y = Some p' \<longrightarrow> end_ok p'" using inv s1(2) by (auto simp: pinv_def s'_def split: if_splits)
  ultimately show ?thesis by (auto simp: pinv_def)
qed

lemma commit_nothing: "ends s x = Some p \<Longrightarrow> commit x (Some (pe (ctx_of p s))) (ctx_of p s) s = Some s"
  by (cases s) (auto simp: commit_def ctx_of_def)

lemmas pinv_quiet_start = pinv_quiet [OF commit_nothing]

text \<open>A step that is quiet except for a move of the handshake. \<open>ev\<close> is the command that was taken
  from the mailbox, if any; the new mailboxes are those of the state after the step.\<close>

lemma pinv_intro:
  assumes "hs (st_of s') (mail s')" "own_inv (ins_of s') (lks_of s') (chans s')"
    "\<And>y p. ends s' y = Some p \<Longrightarrow> end_ok p"
  shows "pinv s'"
  using assms by (simp add: pinv_def)

lemma pinv_move:
  assumes inv: "pinv s" and p: "ends s x = Some p" and q: "ml = mail s \<or> (\<exists>m. mail s x = m # q \<and> ml = (mail s)(x := q))"
    and c: "ch c = chans s" "sent c = cmds" "inpipe (pe c) = inpipe p" "end_ok (pe c)"
    and h: "hs ((st_of s)(x := Some (pstate (pe c)))) (ml((\<not> x) := ml (\<not> x) @ cmds))"
    and nohic: "hics (mail s x) = hics (ml x)" "hics cmds = []"
    and out: "outpipe (pe c) = outpipe p \<or> outpipe (pe c) = None \<and> hics (ml x) = []"
    and alive: "cmds \<noteq> [] \<Longrightarrow> \<not> acked (Some (pstate p))"
  shows "\<exists>s'. commit x (Some (pe c)) c (s\<lparr>mail := ml\<rparr>) = Some s' \<and> pinv s' \<and> ends s' = (ends s)(x := Some (pe c))"
proof -
  define s' where "s' = \<lparr>ends = (ends s)(x := Some (pe c)), mail = ml((\<not> x) := ml (\<not> x) @ cmds), chans = chans s,
    events = events s @ map (Pair x) (raised c), released = released s @ closed c\<rparr>"
  have cm: "commit x (Some (pe c)) c (s\<lparr>mail := ml\<rparr>) = Some s'"
    using c peer_alive [OF inv p] alive by (cases "cmds = []") (auto simp: commit_def s'_def)
  have st: "st_of s' = (st_of s)(x := Some (pstate (pe c)))" "ins_of s' = ins_of s"
    using p c(3) by (auto simp: fun_eq_iff st_of_def ins_of_def s'_def)
  have mly: "ml (\<not> x) = mail s (\<not> x)" using q by auto
  have lk: "lks_of s' = (lks_of s)(x := outs_of (Some (pe c)) @ hics (ml x))"
    using mly nohic(2) by (auto simp: fun_eq_iff lks_of_def s'_def)
  have "own_inv (ins_of s) (lks_of s') (chans s)"
  proof (cases "outpipe (pe c) = outpipe p")
    case True
    then have "lks_of s' = lks_of s" using lk nohic(1) p by (auto simp: fun_eq_iff lks_of_def outs_of_def)
    then show ?thesis using inv by (simp add: pinv_def)
  next
    case False
    with out have o: "outpipe (pe c) = None" "hics (ml x) = []" by auto
    then obtain a where "lks_of s x = [a]" using False p nohic(1) by (cases "outpipe p") (auto simp: lks_of_def outs_of_def)
    from own_ack [of "ins_of s" "lks_of s" "chans s", OF _ this] inv have "own_inv (ins_of s) ((lks_of s)(x := [])) (chans s)" by (simp add: pinv_def)
    moreover have "lks_of s' = (lks_of s)(x := [])" using lk o by (simp add: outs_of_def)
    ultimately show ?thesis by simp
  qed
  moreover have "end_ok p'" if "ends s' y = Some p'" for y p'
    using that inv c(4) by (auto simp: s'_def pinv_def split: if_splits)
  ultimately have "pinv s'" using h st by (intro pinv_intro) (simp_all add: s'_def)
  with cm show ?thesis by (auto simp: s'_def)
qed


lemma ack_entitled:
  assumes "pinv s" "ends s x = Some p" "pstate p = WaitingForDelimiter"
  shows "hics (mail s x) = []"
proof -
  have "hs_side (st_of s x) (st_of s (\<not> x)) (mail s x)" using assms(1) by (simp add: pinv_def hs_at [of _ _ x])
  then show ?thesis using assms(2,3) by (auto simp: hs_side_def st_of_def hics_Nil)
qed

lemma pinv_delimiter:
  assumes inv: "pinv s" and p: "ends s x = Some p" and d: "process_delimiter c1 = Some c"
    and c1: "pe c1 = p" "ch c1 = chans s" "sent c1 = []"
  shows "\<exists>s'. commit x (Some (pe c)) c s = Some s' \<and> pinv s'"
proof -
  have h: "hs (st_of s) (mail s)" "end_ok p" using inv p by (auto simp: pinv_def)
  have st: "st_of s x = Some (pstate p)" using p by (simp add: st_of_def)
  from d consider (active) "pstate p = Active" "c = upd (\<lambda>p. p\<lparr>pstate := DelimiterReceived\<rparr>) c1"
    | (wait) "pstate p = WaitingForDelimiter"
        "c = upd (\<lambda>p. p\<lparr>pstate := TermAckSent\<rparr>) (send_cmd PipeTermAck (upd (\<lambda>p. p\<lparr>outpipe := None\<rparr>) c1))"
    using c1 by (auto simp: process_delimiter_def bind_eq_Some_conv split: if_splits)
  then show ?thesis
  proof cases
    case active
    have "hs ((st_of s)(x := Some DelimiterReceived)) (mail s)" using hs_delimiter [OF h(1), of x] st active(1) by simp
    then show ?thesis
      using pinv_move [OF inv p, of "mail s" _ c "[]"] active h(2) c1 by (auto simp: upd_def end_ok_def)
  next
    case wait
    have "hs ((st_of s)(x := Some TermAckSent)) ((mail s)((\<not> x) := mail s (\<not> x) @ [PipeTermAck]))"
      using hs_ack_after_wait [OF h(1), of x] st wait(1) by simp
    then show ?thesis
      using pinv_move [OF inv p, of "mail s" _ c "[PipeTermAck]"] wait h(2) c1 ack_entitled [OF inv p wait(1)]
      by (auto simp: upd_def send_cmd_def end_ok_def)
  qed
qed

lemma pinv_up_to_delimiter:
  assumes inv: "pinv s" and p: "ends s x = Some p" and u: "up_to_delimiter (ctx_of p s) c"
  shows "\<exists>s'. commit x (Some (pe c)) c s = Some s' \<and> pinv s'"
  using u unfolding up_to_delimiter_def
proof (elim disjE exE conjE)
  assume "quiet (ctx_of p s) c"
  then show ?thesis by (rule pinv_quiet_start [OF p inv])
next
  fix c1 assume q: "quiet (ctx_of p s) c1" "sent c1 = sent (ctx_of p s)" and d: "process_delimiter c1 = Some c"
  from pinv_quiet_start [OF p inv q(1)] obtain s1 where s1: "commit x (Some (pe c1)) c1 s = Some s1" "pinv s1" by blast
  define s2 where "s2 = s1\<lparr>events := events s, released := released s\<rparr>"
  have e: "sent c1 = []" "s2 = s\<lparr>ends := (ends s)(x := Some (pe c1)), chans := ch c1\<rparr>"
    using s1(1) q(2) by (auto simp: commit_def s2_def ctx_of_def)
  have "pinv s2" using s1(2) by (simp add: pinv_def s2_def st_of_def [abs_def] ins_of_def [abs_def] lks_of_def [abs_def])
  have "ends s2 x = Some (pe c1)" "ch c1 = chans s2" using e(2) by simp_all
  from pinv_delimiter [OF \<open>pinv s2\<close> this(1) d refl this(2) e(1)] obtain s' where
    s': "commit x (Some (pe c)) c s2 = Some s'" "pinv s'" by blast
  have "commit x (Some (pe c)) c s2 = commit x (Some (pe c)) c s" using e(2) by (simp add: commit_def)
  with s' show ?thesis by auto
qed

lemma pinv_terminate:
  assumes inv: "pinv s" and p: "ends s x = Some p"
  shows "\<exists>c s'. pipe_terminate lk dl (ctx_of p s) = Some c \<and> commit x (Some (pe c)) c s = Some s' \<and> pinv s' \<and>
    (\<not> dl \<longrightarrow> pstate (pe c) \<in> {TermReqSent1, TermReqSent2, TermAckSent})"
proof -
  have h: "hs (st_of s) (mail s)" "end_ok p" using inv p by (auto simp: pinv_def)
  have st: "st_of s x = Some (pstate p)" using p by (simp add: st_of_def)
  let ?k = "ctx_of p s"
  let ?d = "upd (\<lambda>p. p\<lparr>delay := dl\<rparr>) ?k"
  have ok0: "quiet ?k ?d" by (rule quiet_upd) (use pinv_owned [OF inv p] in simp_all)
  let ?req = "upd (\<lambda>p. p\<lparr>pstate := TermReqSent1\<rparr>) (send_cmd PipeTerm ?d)"
  let ?ack = "upd (\<lambda>p. p\<lparr>pstate := TermAckSent\<rparr>) (send_cmd PipeTermAck (upd (\<lambda>p. p\<lparr>outpipe := None\<rparr>) ?d))"
  have finish: "\<exists>c s'. stop_output lk c1 = Some c \<and> commit x (Some (pe c)) c s = Some s' \<and> pinv s' \<and>
      pstate (pe c) = pstate (pe c1)"
    if "commit x (Some (pe c1)) c1 s = Some s1" "pinv s1" "ctx_ok c1" for c1 s1
  proof -
    from stop_output_quiet [OF that(3)] obtain c where c: "stop_output lk c1 = Some c" "quiet c1 c" by blast
    with pinv_quiet [OF that(1,2) c(2)] show ?thesis by (auto simp: quiet_def)
  qed
  have moved: "ctx_ok c1" if "commit x (Some (pe c1)) c1 s = Some s1" "pinv s1" for c1 s1
  proof -
    from that(1) have "ends s1 x = Some (pe c1)" "chans s1 = ch c1" by (auto simp: commit_def bind_eq_Some_conv)
    from pinv_owned [OF that(2) this(1)] this(2) show ?thesis
      by (auto simp: ctx_ok_def ctx_of_def live_def split: if_splits)
  qed
  consider (over) "pstate p \<in> {TermReqSent1, TermReqSent2, TermAckSent}" | (req) "pstate p \<in> {Active, DelimiterReceived}"
    | (wait) "pstate p = WaitingForDelimiter" by (cases "pstate p") auto
  then show ?thesis
  proof cases
    case over
    then have "pipe_terminate lk dl ?k = Some ?d"
      by (auto simp: pipe_terminate_def upd_def ctx_of_def Let_def)
    with pinv_quiet_start [OF p inv ok0] over show ?thesis by (auto simp: upd_def ctx_of_def)
  next
    case req
    have "hs ((st_of s)(x := Some TermReqSent1)) ((mail s)((\<not> x) := mail s (\<not> x) @ [PipeTerm]))"
      using hs_terminate [OF h(1), of x] st req by auto
    then obtain s1 where s1: "commit x (Some (pe ?req)) ?req s = Some s1" "pinv s1"
      using pinv_move [OF inv p, of "mail s" _ ?req "[PipeTerm]"] h(2) req
      by (auto simp: upd_def send_cmd_def end_ok_def ctx_of_def)
    have "pipe_terminate lk dl ?k = stop_output lk ?req" using req by (auto simp: pipe_terminate_def upd_def ctx_of_def Let_def)
    moreover have "pstate (pe ?req) = TermReqSent1" by (simp add: upd_def)
    ultimately show ?thesis using finish [OF s1 moved [OF s1]] by auto
  next
    case wait
    show ?thesis
    proof (cases dl)
      case True
      then have "pipe_terminate lk dl ?k = stop_output lk ?d" using wait by (auto simp: pipe_terminate_def upd_def ctx_of_def Let_def)
      moreover from pinv_quiet_start [OF p inv ok0] obtain s1 where "commit x (Some (pe ?d)) ?d s = Some s1" "pinv s1" by blast
      ultimately show ?thesis using finish [OF _ _ quiet_ok [OF ok0]] True by metis
    next
      case False
      have "hs ((st_of s)(x := Some TermAckSent)) ((mail s)((\<not> x) := mail s (\<not> x) @ [PipeTermAck]))"
        using hs_ack_after_wait [OF h(1), of x] st wait by simp
      then obtain s1 where s1: "commit x (Some (pe ?ack)) ?ack s = Some s1" "pinv s1"
        using pinv_move [OF inv p, of "mail s" _ ?ack "[PipeTermAck]"] h(2) wait ack_entitled [OF inv p wait]
        by (auto simp: upd_def send_cmd_def end_ok_def ctx_of_def)
      have "pipe_terminate lk dl ?k = stop_output lk ?ack" using wait False by (auto simp: pipe_terminate_def upd_def ctx_of_def Let_def)
      moreover have "pstate (pe ?ack) = TermAckSent" by (simp add: upd_def)
      ultimately show ?thesis using finish [OF s1 moved [OF s1]] by auto
    qed
  qed
qed


lemma pinv_hiccup:
  assumes inv: "pinv s" and p: "ends s x = Some p"
  shows "\<exists>s'. commit x (Some (pe (pipe_hiccup (ctx_of p s)))) (pipe_hiccup (ctx_of p s)) s = Some s' \<and> pinv s'"
proof (cases "pstate p = Active")
  case False
  then show ?thesis using commit_nothing [OF p] inv by (auto simp: pipe_hiccup_def ctx_of_def)
next
  case True
  obtain a h where al: "heap_alloc (chans s) (chan_new (conflate p)) = (a, h)" by force
  have hs: "hs (st_of s) (mail s)" "end_ok p" "st_of s x = Some Active" using inv p True by (auto simp: pinv_def st_of_def)
  have peer: "ends s (\<not> x) \<noteq> None" using peer_alive [OF inv p] True by simp
  define s' where "s' = \<lparr>ends = (ends s)(x := Some (p\<lparr>inpipe := Some a, in_active := True\<rparr>)),
    mail = (mail s)((\<not> x) := mail s (\<not> x) @ [Hiccup a]), chans = h, events = events s, released = released s\<rparr>"
  have "commit x (Some (pe (pipe_hiccup (ctx_of p s)))) (pipe_hiccup (ctx_of p s)) s = Some s'"
    using True al peer by (auto simp: pipe_hiccup_def commit_def s'_def ctx_of_def upd_def send_cmd_def)
  moreover have "pinv s'"
  proof (rule pinv_intro)
    have "st_of s' = st_of s" using p by (auto simp: fun_eq_iff st_of_def s'_def)
    then show "hs (st_of s') (mail s')" using hs_hiccup [OF hs(1,3), of a] by (simp add: s'_def)
    have "hs_side (st_of s (\<not> x)) (st_of s x) (mail s (\<not> x))" "hs_side (st_of s x) (st_of s (\<not> x)) (mail s x)"
      using hs(1) by (simp_all add: hs_at [of _ _ x])
    then have "\<not> acked (st_of s (\<not> x))"
      using hs(3) by (cases "st_of s (\<not> x)" rule: pstate_option_cases) (auto simp: hs_side_def)
    moreover obtain p' where p': "ends s (\<not> x) = Some p'" using peer by blast
    moreover have "end_ok p'" using inv p' by (auto simp: pinv_def)
    ultimately have "lks_of s (\<not> x) \<noteq> []" by (cases "outpipe p'") (auto simp: end_ok_def lks_of_def outs_of_def st_of_def)
    from own_hiccup [of "ins_of s" "lks_of s" "chans s", OF _ this al] inv
    have "own_inv ((ins_of s)(x := Some a)) ((lks_of s)((\<not> x) := lks_of s (\<not> x) @ [a])) h" by (simp add: pinv_def)
    moreover have "ins_of s' = (ins_of s)(x := Some a)" by (auto simp: fun_eq_iff ins_of_def s'_def)
    moreover have "lks_of s' = (lks_of s)((\<not> x) := lks_of s (\<not> x) @ [a])"
      using p by (auto simp: fun_eq_iff lks_of_def outs_of_def s'_def)
    ultimately show "own_inv (ins_of s') (lks_of s') (chans s')" by (simp add: s'_def)
  next
    fix y q assume "ends s' y = Some q"
    then show "end_ok q" using inv hs(2) by (auto simp: s'_def pinv_def end_ok_def split: if_splits)
  qed
  ultimately show ?thesis by blast
qed

text \<open>Every use of an end.\<close>

lemma pinv_use:
  assumes inv: "pinv s"
  shows "\<exists>s'. pact_step (Use x u) s = Some s' \<and> pinv s'"
proof (cases "ends s x")
  case None
  then show ?thesis using inv by simp
next
  case (Some p)
  note ok = pinv_owned [OF inv Some]
  have quiet: "\<exists>s'. commit x (Some (pe c)) c s = Some s' \<and> pinv s'" if "quiet (ctx_of p s) c" for c
    by (rule pinv_quiet_start [OF Some inv that])
  show ?thesis
  proof (cases u)
    case UCheckRead
    then show ?thesis using check_read_quiet [OF ok] pinv_up_to_delimiter [OF inv Some] Some by fastforce
  next
    case URead
    then show ?thesis using read_quiet [OF ok] pinv_up_to_delimiter [OF inv Some] Some by fastforce
  next
    case UCheckWrite
    then show ?thesis using check_write_quiet [OF ok] quiet Some by fastforce
  next
    case (UWrite lk m)
    then show ?thesis using write_quiet [OF ok, of lk m] quiet Some by fastforce
  next
    case URollback
    then show ?thesis using rollback_quiet [OF ok] quiet Some by fastforce
  next
    case UFlush
    then show ?thesis using flush_quiet [OF ok] quiet Some by fastforce
  next
    case (UTerminate lk dl)
    then show ?thesis using pinv_terminate [OF inv Some, of lk dl] Some by fastforce
  next
    case UHiccup
    then show ?thesis using pinv_hiccup [OF inv Some] Some by fastforce
  next
    case USetNodelay
    have "quiet (ctx_of p s) (pipe_set_nodelay (ctx_of p s))" unfolding pipe_set_nodelay_def by (rule quiet_upd [OF ok]) simp_all
    then show ?thesis using quiet Some USetNodelay by fastforce
  next
    case (USetIdentity b)
    have "quiet (ctx_of p s) (pipe_set_identity b (ctx_of p s))" unfolding pipe_set_identity_def by (rule quiet_upd [OF ok]) simp_all
    then show ?thesis using quiet Some USetIdentity by fastforce
  qed
qed


text \<open>Every delivery of a command.\<close>

lemma pinv_deliver_act:
  assumes inv: "pinv s" and p: "ends s x = Some p" and m: "mail s x = m # q" "is_act m"
    and k: "ctx_ok (ctx_of p s) \<Longrightarrow> quiet (ctx_of p s) c"
  shows "\<exists>s'. commit x (Some (pe c)) c (s\<lparr>mail := (mail s)(x := q)\<rparr>) = Some s' \<and> pinv s'"
proof -
  let ?s = "s\<lparr>mail := (mail s)(x := q)\<rparr>"
  have "hs (st_of s) ((mail s)(x := q))" using hs_pop_act [of "st_of s" "mail s" x m q] m inv by (simp add: pinv_def)
  moreover have "hics (mail s x) = hics q" using m by (cases m) auto
  then have "lks_of ?s = lks_of s" by (auto simp: fun_eq_iff lks_of_def)
  moreover have "st_of ?s = st_of s" "ins_of ?s = ins_of s" by (auto simp: fun_eq_iff st_of_def ins_of_def)
  ultimately have inv': "pinv ?s" using inv by (simp add: pinv_def)
  have ctx: "ctx_of p ?s = ctx_of p s" by (simp add: ctx_of_def)
  show ?thesis using pinv_quiet_start [of ?s x p, OF _ inv'] p k pinv_owned [OF inv p] by (simp add: ctx)
qed

lemma pinv_deliver_term:
  assumes inv: "pinv s" and p: "ends s x = Some p" and m: "mail s x = PipeTerm # q"
  shows "\<exists>c s'. process_pipe_term (ctx_of p s) = Some c \<and>
    commit x (Some (pe c)) c (s\<lparr>mail := (mail s)(x := q)\<rparr>) = Some s' \<and> pinv s'"
proof -
  have h: "hs (st_of s) (mail s)" "end_ok p" "st_of s x = Some (pstate p)" using inv p by (auto simp: pinv_def st_of_def)
  have side: "hs_side (st_of s x) (st_of s (\<not> x)) (PipeTerm # q)" using h(1) m by (simp add: hs_at [of _ _ x])
  then have nohic: "hics q = []" by (simp add: hs_side_def hics_Nil)
  have "pstate p \<in> {Active, DelimiterReceived, TermReqSent1}" using side h(3) by (auto simp: hs_side_def)
  then consider (wait) "pstate p = Active" "delay p" | (ack) "pstate p = Active \<and> \<not> delay p \<or> pstate p = DelimiterReceived"
    | (cross) "pstate p = TermReqSent1" by auto
  then show ?thesis
  proof cases
    case wait
    let ?k = "upd (\<lambda>p. p\<lparr>pstate := WaitingForDelimiter\<rparr>) (ctx_of p s)"
    have "process_pipe_term (ctx_of p s) = Some ?k" using wait by (simp add: process_pipe_term_def ctx_of_def)
    moreover have "(mail s)(x := q, (\<not> x) := mail s (\<not> x)) = (mail s)(x := q)" by auto
    then have "hs ((st_of s)(x := Some WaitingForDelimiter)) ((mail s)(x := q, (\<not> x) := mail s (\<not> x)))"
      using hs_pop_term_wait [OF h(1) m] h(3) wait by simp
    then have "\<exists>s'. commit x (Some (pe ?k)) ?k (s\<lparr>mail := (mail s)(x := q)\<rparr>) = Some s' \<and> pinv s'"
      using pinv_move [OF inv p, of "(mail s)(x := q)" q ?k "[]"] m nohic h(2) wait
      by (auto simp: upd_def ctx_of_def end_ok_def)
    ultimately show ?thesis by blast
  next
    case ack
    let ?k = "send_cmd PipeTermAck (upd (\<lambda>p. p\<lparr>pstate := TermAckSent, outpipe := None\<rparr>) (ctx_of p s))"
    have "process_pipe_term (ctx_of p s) = Some ?k" using ack by (auto simp: process_pipe_term_def ctx_of_def)
    moreover have "hs ((st_of s)(x := Some TermAckSent)) ((mail s)(x := q, (\<not> x) := mail s (\<not> x) @ [PipeTermAck]))"
      using hs_pop_term_ack [OF h(1) m] h(3) ack by auto
    then have "\<exists>s'. commit x (Some (pe ?k)) ?k (s\<lparr>mail := (mail s)(x := q)\<rparr>) = Some s' \<and> pinv s'"
      using pinv_move [OF inv p, of "(mail s)(x := q)" q ?k "[PipeTermAck]"] m nohic h(2) ack
      by (auto simp: upd_def ctx_of_def end_ok_def send_cmd_def)
    ultimately show ?thesis by blast
  next
    case cross
    let ?k = "send_cmd PipeTermAck (upd (\<lambda>p. p\<lparr>pstate := TermReqSent2, outpipe := None\<rparr>) (ctx_of p s))"
    have "process_pipe_term (ctx_of p s) = Some ?k" using cross by (auto simp: process_pipe_term_def ctx_of_def)
    moreover have "hs ((st_of s)(x := Some TermReqSent2)) ((mail s)(x := q, (\<not> x) := mail s (\<not> x) @ [PipeTermAck]))"
      using hs_pop_term_cross [OF h(1) m] h(3) cross by auto
    then have "\<exists>s'. commit x (Some (pe ?k)) ?k (s\<lparr>mail := (mail s)(x := q)\<rparr>) = Some s' \<and> pinv s'"
      using pinv_move [OF inv p, of "(mail s)(x := q)" q ?k "[PipeTermAck]"] m nohic h(2) cross
      by (auto simp: upd_def ctx_of_def end_ok_def send_cmd_def)
    ultimately show ?thesis by blast
  qed
qed


lemma pinv_deliver_hiccup:
  assumes inv: "pinv s" and p: "ends s x = Some p" and m: "mail s x = Hiccup a # q"
  shows "\<exists>c s'. process_hiccup a (ctx_of p s) = Some c \<and>
    commit x (Some (pe c)) c (s\<lparr>mail := (mail s)(x := q)\<rparr>) = Some s' \<and> pinv s'"
proof -
  let ?k = "ctx_of p s"
  note ok = pinv_owned [OF inv p]
  have h: "hs (st_of s) (mail s)" "end_ok p" "st_of s x = Some (pstate p)" using inv p by (auto simp: pinv_def st_of_def)
  from hs_pop_hiccup [OF h(1) m] h(3) have na: "hs (st_of s) ((mail s)(x := q))" "\<not> acked (Some (pstate p))" by auto
  then obtain b where b: "outpipe p = Some b" using h(2) by (auto simp: end_ok_def)
  from on_chan_simple [OF ok ctx_live(2) [OF ok], of chan_flush] chan_ok_ops(5) na(2) obtain r k1 where
    k1: "on_chan (Some b) (\<lambda>c. Some (chan_flush c)) ?k = Some (r, k1)" "quiet ?k k1" "pe k1 = p" "sent k1 = []"
    by (auto simp: ctx_of_def b)
  obtain c where "heap_load (ch k1) b = Some c"
    using live_chan [OF quiet_ok [OF k1(2)] ctx_live(2) [OF quiet_ok [OF k1(2)]]] k1(3) na(2) b by auto
  moreover have "chans_ok (ch k1)" using quiet_ok [OF k1(2)] by (simp add: ctx_ok_def)
  ultimately obtain k2 where k2: "drain (Some b) k1 = Some k2" "quiet k1 k2" "pe k2 = p" "sent k2 = []"
    using drain_frame [of k1 "Some b" b c] frame_quiet [OF quiet_ok [OF k1(2)]] k1(3,4) by (auto simp: frame_def)
  have dom2: "dom (heap_load (ch k2)) = dom (heap_load (chans s))" "chans_ok (ch k2)"
    using k1(2) k2(2) by (auto simp: quiet_def ctx_of_def ctx_ok_def)
  have "live k2 (Some b)" using ctx_live(2) [OF quiet_ok [OF k2(2)]] k2(3) na(2) b by simp
  then obtain g where g: "heap_free (ch k2) b = Some g" using heap_free_ok [of "ch k2" b] by (auto simp: live_def)
  define k3 where "k3 = upd (\<lambda>p. p\<lparr>outpipe := Some a, out_active := True\<rparr>) (k2\<lparr>ch := g\<rparr>)"
  define k4 where "k4 = (if pstate p = Active then raise_ev Hiccuped k3 else k3)"
  have ph: "process_hiccup a ?k = Some k4"
    using b k1 k2 g by (simp add: process_hiccup_def on_out_def delete_chan_def ctx_of_def k3_def k4_def upd_def)
  have k4: "pe k4 = p\<lparr>outpipe := Some a, out_active := True\<rparr>" "ch k4 = g" "sent k4 = []"
    using k2(3,4) by (simp_all add: k4_def k3_def upd_def raise_ev_def)
  define s' where "s' = \<lparr>ends = (ends s)(x := Some (pe k4)), mail = (mail s)(x := q), chans = g,
    events = events s @ map (Pair x) (raised k4), released = released s @ closed k4\<rparr>"
  have "commit x (Some (pe k4)) k4 (s\<lparr>mail := (mail s)(x := q)\<rparr>) = Some s'"
    using k4 by (auto simp: commit_def s'_def)
  moreover have "pinv s'"
  proof (rule pinv_intro)
    have "st_of s' = st_of s" using p k4(1) by (auto simp: fun_eq_iff st_of_def s'_def)
    then show "hs (st_of s') (mail s')" using na(1) by (simp add: s'_def)
    have "own_inv (ins_of s) (lks_of s) (ch k2)" using inv dom2 by (simp add: pinv_def own_inv_def)
    moreover have "lks_of s x = b # a # hics q" using p b m by (simp add: lks_of_def outs_of_def)
    ultimately have "own_inv (ins_of s) ((lks_of s)(x := a # hics q)) g"
      using own_drop [of "ins_of s" "lks_of s" "ch k2" x b "a # hics q" g] g by simp
    moreover have "ins_of s' = ins_of s" using p k4(1) by (auto simp: fun_eq_iff ins_of_def s'_def)
    moreover have "lks_of s' = (lks_of s)(x := a # hics q)"
      using k4(1) by (auto simp: fun_eq_iff lks_of_def outs_of_def s'_def)
    ultimately show "own_inv (ins_of s') (lks_of s') (chans s')" by (simp add: s'_def)
  next
    fix y p' assume y: "ends s' y = Some p'"
    have "end_ok (pe k4)" using h(2) na(2) by (simp add: k4(1) end_ok_def)
    then show "end_ok p'" using inv y by (auto simp: s'_def pinv_def split: if_splits)
  qed
  ultimately show ?thesis using ph by blast
qed

text \<open>The last command: the end drains and frees its channel and goes.\<close>

lemma pinv_deliver_ack:
  assumes inv: "pinv s" and p: "ends s x = Some p" and m: "mail s x = PipeTermAck # q"
  shows "\<exists>c s'. process_pipe_term_ack (ctx_of p s) = Some c \<and>
    commit x None c (s\<lparr>mail := (mail s)(x := q)\<rparr>) = Some s' \<and> pinv s'"
proof -
  let ?k = "ctx_of p s"
  note ok = pinv_owned [OF inv p]
  have h: "hs (st_of s) (mail s)" "end_ok p" "st_of s x = Some (pstate p)" using inv p by (auto simp: pinv_def st_of_def)
  have side: "hs_side (st_of s x) (st_of s (\<not> x)) (PipeTermAck # q)" "hs_side (st_of s (\<not> x)) (st_of s x) (mail s (\<not> x))"
    using h(1) m by (simp_all add: hs_at [of _ _ x])
  have q: "q = []" "acked (st_of s (\<not> x))" using side(1) by (auto simp: hs_side_def)
  have st: "pstate p \<in> {TermAckSent, TermReqSent1, TermReqSent2}" using side(1) h(3) by (auto simp: hs_side_def)
  define late where "late \<longleftrightarrow> pstate p = TermReqSent1"
  define k1 where "k1 = (if late then send_cmd PipeTermAck (upd (\<lambda>p. p\<lparr>outpipe := None\<rparr>) (raise_ev PipeTerminated ?k))
    else raise_ev PipeTerminated ?k)"
  obtain a where a: "inpipe p = Some a" using h(2) by (auto simp: end_ok_def)
  have k1: "ch k1 = chans s" "inpipe (pe k1) = Some a" "conflate (pe k1) = conflate p"
    "sent k1 = (if late then [PipeTermAck] else [])"
    using a by (simp_all add: k1_def send_cmd_def upd_def raise_ev_def ctx_of_def)
  obtain c where c: "heap_load (ch k1) a = Some c" using ctx_live(1) [OF ok] a k1(1) by (auto simp: live_def ctx_of_def)
  have ck: "chans_ok (ch k1)" using ok k1(1) by (simp add: ctx_ok_def ctx_of_def)
  obtain k2 where k2: "(if \<not> conflate p then drain (Some a) k1 else Some k1) = Some k2" "frame k1 k2"
    using drain_frame [OF ck refl c] ck by (cases "conflate p") (auto simp: frame_def)
  have dom2: "dom (heap_load (ch k2)) = dom (heap_load (chans s))" "chans_ok (ch k2)" "pe k2 = pe k1" "sent k2 = sent k1"
    using k2(2) k1(1) by (auto simp: frame_def)
  obtain g where g: "heap_free (ch k2) a = Some g"
    using heap_free_ok [of "ch k2" a] dom2(1) c k1(1) by (metis domIff option.distinct(1))
  have pt: "process_pipe_term_ack ?k = Some (k2\<lparr>ch := g\<rparr>)"
    using st k1 k2(1) g dom2(3) by (auto simp: process_pipe_term_ack_def k1_def late_def delete_chan_def ctx_of_def
        raise_ev_def upd_def send_cmd_def)
  define s' where "s' = \<lparr>ends = (ends s)(x := None), mail = (mail s)(x := q, (\<not> x) := mail s (\<not> x) @ sent k1), chans = g,
    events = events s @ map (Pair x) (raised k2), released = released s @ closed k2\<rparr>"
  have peer: "late \<Longrightarrow> ends s (\<not> x) \<noteq> None" using peer_alive [OF inv p] by (simp add: late_def)
  have "commit x None (k2\<lparr>ch := g\<rparr>) (s\<lparr>mail := (mail s)(x := q)\<rparr>) = Some s'"
    using dom2(4) k1(4) peer by (cases late) (auto simp: commit_def s'_def)
  moreover have "pinv s'"
  proof (rule pinv_intro)
    have "st_of s' = (st_of s)(x := None)" by (auto simp: fun_eq_iff st_of_def s'_def)
    moreover have "hs ((st_of s)(x := None)) (mail s')"
    proof (cases late)
      case True
      then show ?thesis using hs_pop_ack_late [OF h(1) m] h(3) k1(4) by (simp add: s'_def late_def)
    next
      case False
      moreover have "(mail s)(x := q, (\<not> x) := mail s (\<not> x)) = (mail s)(x := q)" by auto
      ultimately show ?thesis using hs_pop_ack [OF h(1) m] h(3) k1(4) by (simp add: s'_def late_def)
    qed
    ultimately show "hs (st_of s') (mail s')" by simp
    have o: "own_inv (ins_of s) (lks_of s) (ch k2)" using inv dom2(1,2) by (simp add: pinv_def own_inv_def)
    have "own_inv (ins_of s) ((lks_of s)(x := [])) (ch k2)"
    proof (cases "outpipe p")
      case None
      then have "lks_of s x = []" using p m q(1) by (simp add: lks_of_def outs_of_def)
      then have "(lks_of s)(x := []) = lks_of s" by auto
      then show ?thesis using o by simp
    next
      case (Some b)
      then have "lks_of s x = [b]" using p m q(1) by (simp add: lks_of_def outs_of_def)
      then show ?thesis by (rule own_ack [OF o])
    qed
    moreover have "lks_of s (\<not> x) = []"
    proof -
      have "hics (mail s (\<not> x)) = []" using side(2) q(2) by (cases "st_of s (\<not> x)" rule: pstate_option_cases) (auto simp: hs_side_def hics_Nil)
      moreover have "outs_of (ends s (\<not> x)) = []"
        using q(2) inv by (cases "ends s (\<not> x)") (auto simp: outs_of_def st_of_def pinv_def end_ok_def split: option.splits)
      ultimately show ?thesis by (simp add: lks_of_def)
    qed
    moreover have "ins_of s x = Some a" using p a by (simp add: ins_of_def)
    ultimately have "own_inv ((ins_of s)(x := None)) ((lks_of s)(x := [])) g"
      using own_gone [of "ins_of s" "(lks_of s)(x := [])" "ch k2" x a g] g by simp
    moreover have "ins_of s' = (ins_of s)(x := None)" by (auto simp: fun_eq_iff ins_of_def s'_def)
    moreover have "lks_of s' = (lks_of s)(x := [])"
      using q(1) k1(4) by (auto simp: fun_eq_iff lks_of_def outs_of_def s'_def)
    ultimately show "own_inv (ins_of s') (lks_of s') (chans s')" by (simp add: s'_def)
  next
    fix y p' assume "ends s' y = Some p'"
    then show "end_ok p'" using inv by (auto simp: s'_def pinv_def split: if_splits)
  qed
  ultimately show ?thesis using pt by blast
qed


lemma hs_side_None: "hs_side None b q \<Longrightarrow> q = []"
  by (simp add: hs_side_def)

lemma pinv_deliver:
  assumes inv: "pinv s"
  shows "\<exists>s'. pact_step (Deliver x) s = Some s' \<and> pinv s'"
proof (cases "mail s x")
  case Nil
  then show ?thesis using inv by simp
next
  case (Cons m q)
  have "hs_side (st_of s x) (st_of s (\<not> x)) (mail s x)" using inv by (simp add: pinv_def hs_at [of _ _ x])
  then obtain p where p: "ends s x = Some p" using Cons hs_side_None by (cases "ends s x") (auto simp: st_of_def)
  show ?thesis
  proof (cases m)
    case ActivateRead
    have "quiet (ctx_of p s) (process_activate_read (ctx_of p s))" if "ctx_ok (ctx_of p s)"
    proof -
      let ?l = "upd (\<lambda>p. p\<lparr>in_active := True\<rparr>) (ctx_of p s)"
      have l: "quiet (ctx_of p s) ?l" by (rule quiet_upd [OF that]) simp_all
      show ?thesis using quiet_refl [OF that] quiet_trans [OF l quiet_log(1) [OF quiet_ok [OF l]]]
        by (simp add: process_activate_read_def)
    qed
    from pinv_deliver_act [OF inv p Cons _ this] show ?thesis using Cons p ActivateRead by simp
  next
    case (ActivateWrite n)
    have "quiet (ctx_of p s) (process_activate_write n (ctx_of p s))" if "ctx_ok (ctx_of p s)"
    proof -
      let ?k = "upd (\<lambda>p. p\<lparr>peers_msgs_read := n\<rparr>) (ctx_of p s)"
      let ?l = "upd (\<lambda>p. p\<lparr>out_active := True\<rparr>) ?k"
      have k: "quiet (ctx_of p s) ?k" by (rule quiet_upd [OF that]) simp_all
      have l: "quiet ?k ?l" by (rule quiet_upd [OF quiet_ok [OF k]]) simp_all
      show ?thesis using k quiet_trans [OF quiet_trans [OF k l] quiet_log(1) [OF quiet_ok [OF l]]]
        by (simp add: process_activate_write_def Let_def)
    qed
    from pinv_deliver_act [OF inv p Cons _ this] show ?thesis using Cons p ActivateWrite by simp
  next
    case (Hiccup a)
    then show ?thesis using pinv_deliver_hiccup [OF inv p, of a q] Cons p by fastforce
  next
    case PipeTerm
    then show ?thesis using pinv_deliver_term [OF inv p, of q] Cons p by fastforce
  next
    case PipeTermAck
    then show ?thesis using pinv_deliver_ack [OF inv p, of q] Cons p by fastforce
  qed
qed

lemma pinv_step: "pinv s \<Longrightarrow> \<exists>s'. pact_step a s = Some s' \<and> pinv s'"
  using pinv_use pinv_deliver by (cases a) blast+

lemma pinv_run: "pinv s \<Longrightarrow> \<exists>s'. pact_run as s = Some s' \<and> pinv s'"
proof (induction as arbitrary: s)
  case (Cons a as)
  from pinv_step [OF Cons.prems, of a] Cons.IH show ?case by auto
qed simp

lemma pinv_new: "pinv (pipepair hwm0 hwm1 confl0 confl1)"
proof -
  let ?s = "pipepair hwm0 hwm1 confl0 confl1"
  have "st_of ?s = (\<lambda>_. Some Active)" "ins_of ?s = (\<lambda>x. Some (if x then 1 else 0))" "lks_of ?s = (\<lambda>x. [if x then 0 else 1])"
    "chans ?s = [Some (chan_new confl0), Some (chan_new confl1)]" "mail ?s = (\<lambda>_. [])"
    by (auto simp: fun_eq_iff st_of_def ins_of_def lks_of_def outs_of_def pipepair_def pipe_new_def heap_alloc_def)
  moreover have "dom (heap_load [Some (chan_new confl0), Some (chan_new confl1)]) = {0, 1}"
    by (auto simp: heap_load_def less_2_cases_iff split: if_splits)
  moreover have "chans_ok [Some (chan_new confl0), Some (chan_new confl1)]"
    using chan_ok_ops(1) by (auto simp: chans_ok_def heap_load_def nth_Cons split: if_splits nat.splits)
  moreover have "end_ok p" if "ends ?s x = Some p" for x p
    using that by (auto simp: pipepair_def heap_alloc_def pipe_new_def end_ok_def split: if_splits)
  ultimately show ?thesis
    by (auto simp: pinv_def hs_def hs_side_def own_inv_def owned_def)
qed

lemma both_gone:
  assumes "pinv s" "ends s True = None" "ends s False = None"
  shows "heap_load (chans s) a = None \<and> mail s x = []"
proof -
  have "ins_of s = (\<lambda>_. None)" using assms(2,3) by (auto simp: fun_eq_iff ins_of_def all_bool_eq)
  then have "dom (heap_load (chans s)) = {}" using assms(1) by (simp add: pinv_def own_inv_def owned_def)
  moreover have "hs_side (st_of s x) (st_of s (\<not> x)) (mail s x)" using assms(1) by (simp add: pinv_def hs_at [of _ _ x])
  then have "mail s x = []" using assms(2,3) by (cases x) (auto simp: hs_side_def st_of_def)
  ultimately show ?thesis by auto
qed

section \<open>Properties\<close>

text \<open>C34: Two threads may use the two ends of a pipe in any way and in any order, with commands
  delivered at any time: no operation fails an assertion, uses a channel that was freed or a NULL
  pointer, frees a channel twice, or sends a command to an end that no longer exists; the
  loops that drain a channel end; and when both ends are gone all channels are freed and no
  command is under way.\<close>

theorem pipepair_safe:
  "\<exists>s. pact_run acts (pipepair hwm0 hwm1 confl0 confl1) = Some s \<and>
     (ends s True = None \<and> ends s False = None \<longrightarrow> (\<forall>a. heap_load (chans s) a = None) \<and> (\<forall>x. mail s x = []))"
  using pinv_run [OF pinv_new, of acts hwm0 hwm1 confl0 confl1] both_gone by blast

definition handshake_demo :: "pact list" where
  "handshake_demo = [Use True (UWrite True pm_init), Use True UFlush, Use False URead, Use True (UTerminate True False),
     Use False UHiccup, Deliver False, Use False URead, Use False (UTerminate True False), Deliver True, Deliver True,
     Deliver True, Deliver False, Deliver False]"

theorem pipepair_safe_witness:
  "map_option (\<lambda>s. (ends s True, ends s False, chans s, mail s True)) (pact_run handshake_demo (pipepair 1 1 False False)) =
     Some (None, None, [None, None, None], []) \<and>
   (\<exists>s. pact_run handshake_demo (pipepair 1 1 False False) = Some s \<and>
     (ends s True = None \<and> ends s False = None \<longrightarrow> (\<forall>a. heap_load (chans s) a = None) \<and> (\<forall>x. mail s x = [])))"
proof
  show "map_option (\<lambda>s. (ends s True, ends s False, chans s, mail s True)) (pact_run handshake_demo (pipepair 1 1 False False)) =
     Some (None, None, [None, None, None], [])" by code_simp
qed (rule pipepair_safe)

section \<open>Termination completes\<close>

text \<open>How many more commands can be delivered if nobody uses the pipe.\<close>

definition todo :: "psys \<Rightarrow> nat" where
  "todo s = length (mail s True) + length (mail s False) +
     2 * (of_bool (\<not> acked (st_of s True)) + of_bool (\<not> acked (st_of s False)))"

definition closing :: "psys \<Rightarrow> bool" where
  "closing s \<longleftrightarrow> (\<forall>x. st_of s x \<in> {Some TermReqSent1, Some TermReqSent2, Some TermAckSent, None})"

lemma quiescent_gone:
  assumes "pinv s" "closing s" "mail s True = []" "mail s False = []"
  shows "ends s True = None \<and> ends s False = None"
proof -
  have "hs_side (st_of s True) (st_of s False) []" "hs_side (st_of s False) (st_of s True) []"
    using assms(1,3,4) by (simp_all add: pinv_def hs_def all_bool_eq)
  then have "st_of s True = None \<and> st_of s False = None"
    using assms(2)
    by (cases "st_of s True" rule: pstate_option_cases; cases "st_of s False" rule: pstate_option_cases)
       (simp_all add: hs_side_def closing_def all_bool_eq)
  then show ?thesis by (simp add: st_of_def)
qed


lemma on_chan_same: "on_chan p f s = Some (r, s') \<Longrightarrow> pe s' = pe s \<and> sent s' = sent s"
  by (auto simp: on_chan_def bind_eq_Some_conv)

lemma drain_same:
  assumes "drain p s = Some s'"
  shows "pe s' = pe s \<and> sent s' = sent s"
proof (rule drain.raw_induct [where P = "\<lambda>p s s'. pe s' = pe s \<and> sent s' = sent s", OF _ assms])
  fix dr p s s'
  assume IH: "\<And>p s s'. dr p s = Some s' \<Longrightarrow> pe s' = pe s \<and> sent s' = sent s"
    and eq: "do { (r, s) \<leftarrow> on_chan p (\<lambda>c. Some (chan_read c)) s;
       case r of None \<Rightarrow> Some s | Some m \<Rightarrow> dr p (close_msg m s) } = Some s'"
  then obtain r s1 where "on_chan p (\<lambda>c. Some (chan_read c)) s = Some (r, s1)"
    "(case r of None \<Rightarrow> Some s1 | Some m \<Rightarrow> dr p (close_msg m s1)) = Some s'" by (auto simp: bind_eq_Some_conv)
  then show "pe s' = pe s \<and> sent s' = sent s"
    using on_chan_same [of p _ s r s1] IH [of p _ s'] by (cases r) (auto simp: close_msg_def)
qed

lemma delete_chan_same: "delete_chan p s = Some s' \<Longrightarrow> pe s' = pe s \<and> sent s' = sent s"
  by (auto simp: delete_chan_def bind_eq_Some_conv)

lemma process_hiccup_same:
  "process_hiccup a s = Some s' \<Longrightarrow> pstate (pe s') = pstate (pe s) \<and> sent s' = sent s"
  by (auto simp: process_hiccup_def on_out_def bind_eq_Some_conv upd_def raise_ev_def Let_def split: if_splits
      dest!: on_chan_same drain_same delete_chan_same)

lemma process_ack_sent:
  "process_pipe_term_ack s = Some s' \<Longrightarrow> sent s' = sent s @ (if pstate (pe s) = TermReqSent1 then [PipeTermAck] else [])"
  by (auto simp: process_pipe_term_ack_def bind_eq_Some_conv upd_def raise_ev_def send_cmd_def Let_def split: if_splits
      dest!: drain_same delete_chan_same)

text \<open>What a command does to an end that is closing: it answers at most once.\<close>

lemma command_effect:
  assumes "process_command m k = Some (alive, c)" "pstate (pe k) \<in> {TermReqSent1, TermReqSent2, TermAckSent}"
  shows "sent c = sent k \<and> (alive \<longrightarrow> pstate (pe c) = pstate (pe k)) \<or>
    sent c = sent k @ [PipeTermAck] \<and> pstate (pe k) = TermReqSent1 \<and> (alive \<longrightarrow> pstate (pe c) = TermReqSent2)"
proof (cases m)
  case ActivateRead
  then show ?thesis using assms by (auto simp: process_activate_read_def raise_ev_def upd_def)
next
  case (ActivateWrite n)
  then show ?thesis using assms by (auto simp: process_activate_write_def raise_ev_def upd_def Let_def)
next
  case (Hiccup a)
  then show ?thesis using assms by (auto dest: process_hiccup_same)
next
  case PipeTerm
  then show ?thesis using assms by (auto simp: process_pipe_term_def upd_def send_cmd_def split: if_splits)
next
  case PipeTermAck
  then show ?thesis using assms by (auto dest!: process_ack_sent split: if_splits)
qed

text \<open>A delivery makes progress and does not undo a termination under way.\<close>

lemma deliver_progress:
  assumes inv: "pinv s" and cl: "closing s" and st: "pact_step (Deliver x) s = Some s'"
  shows "closing s' \<and> (if mail s x = [] then s' = s else todo s' < todo s)"
proof (cases "mail s x")
  case Nil
  then show ?thesis using st cl by simp
next
  case (Cons m q)
  from st Cons obtain p alive c where p: "ends s x = Some p" and c: "process_command m (ctx_of p s) = Some (alive, c)"
    and s': "commit x (if alive then Some (pe c) else None) c (s\<lparr>mail := (mail s)(x := q)\<rparr>) = Some s'"
    by (auto simp: bind_eq_Some_conv)
  have "st_of s x = Some (pstate p)" using p by (simp add: st_of_def)
  with cl have pst: "pstate (pe (ctx_of p s)) \<in> {TermReqSent1, TermReqSent2, TermAckSent}"
    by (auto simp: closing_def ctx_of_def dest!: spec [of _ x])
  have m': "mail s' x = q" "mail s' (\<not> x) = mail s (\<not> x) @ sent c" "st_of s' (\<not> x) = st_of s (\<not> x)"
    "st_of s' x = (if alive then Some (pstate (pe c)) else None)"
    using s' by (auto simp: commit_def bind_eq_Some_conv st_of_def)
  have t: "todo s = length (mail s x) + length (mail s (\<not> x)) +
      2 * (of_bool (\<not> acked (st_of s x)) + of_bool (\<not> acked (st_of s (\<not> x))))" for s by (cases x) (simp_all add: todo_def)
  have "sent (ctx_of p s) = []" "pe (ctx_of p s) = p" by (simp_all add: ctx_of_def)
  with command_effect [OF c pst] m' Cons \<open>st_of s x = Some (pstate p)\<close>
  have "todo s' < todo s" unfolding t by auto
  moreover have "closing s'"
    unfolding closing_def
  proof
    fix y
    consider "y = x" | "y = (\<not> x)" by blast
    then show "st_of s' y \<in> {Some TermReqSent1, Some TermReqSent2, Some TermAckSent, None}"
    proof cases
      case 1
      then show ?thesis using m'(4) command_effect [OF c pst] pst by auto
    next
      case 2
      then show ?thesis using m'(3) cl by (simp add: closing_def)
    qed
  qed
  ultimately show ?thesis using Cons by simp
qed

lemma rounds_gone:
  "pinv s \<Longrightarrow> closing s \<Longrightarrow> todo s \<le> n \<Longrightarrow>
   \<exists>s'. pact_run (concat (replicate n [Deliver True, Deliver False])) s = Some s' \<and> pinv s' \<and>
     ends s' True = None \<and> ends s' False = None"
proof (induction n arbitrary: s)
  case 0
  then show ?case using quiescent_gone [of s] by (simp add: todo_def)
next
  case (Suc n)
  from pinv_step [OF Suc.prems(1), of "Deliver True"] obtain s1 where s1: "pact_step (Deliver True) s = Some s1" "pinv s1" by blast
  from pinv_step [OF s1(2), of "Deliver False"] obtain s2 where s2: "pact_step (Deliver False) s1 = Some s2" "pinv s2" by blast
  note p1 = deliver_progress [OF Suc.prems(1,2) s1(1)]
  note p2 = deliver_progress [OF s1(2) conjunct1 [OF p1] s2(1)]
  show ?case
  proof (cases "mail s True = [] \<and> mail s1 False = []")
    case True
    then have "s2 = s" "mail s False = []" using p1 p2 by simp_all
    then have "ends s True = None \<and> ends s False = None" using quiescent_gone [OF Suc.prems(1,2)] True by simp
    then have "todo s = 0" using True \<open>mail s False = []\<close> by (simp add: todo_def st_of_def)
    then show ?thesis using Suc.IH [OF s2(2)] \<open>s2 = s\<close> Suc.prems(2) s1(1) s2(1) by simp
  next
    case False
    then have "todo s2 \<le> n" using p1 p2 Suc.prems(3) by (auto split: if_splits)
    then show ?thesis using Suc.IH [OF s2(2)] p2 s1(1) s2(1) by simp
  qed
qed


lemma use_terminate:
  assumes "pinv s"
  shows "\<exists>s'. pact_step (Use x (UTerminate lk False)) s = Some s' \<and> pinv s' \<and> st_of s' (\<not> x) = st_of s (\<not> x) \<and>
    st_of s' x \<in> {Some TermReqSent1, Some TermReqSent2, Some TermAckSent, None}"
proof (cases "ends s x")
  case None
  then show ?thesis using assms by (simp add: st_of_def)
next
  case (Some p)
  from pinv_terminate [OF assms Some, of lk False] obtain c s' where
    "pipe_terminate lk False (ctx_of p s) = Some c" "commit x (Some (pe c)) c s = Some s'" "pinv s'"
    "pstate (pe c) \<in> {TermReqSent1, TermReqSent2, TermAckSent}" by auto
  then show ?thesis using Some by (auto simp: commit_def bind_eq_Some_conv st_of_def)
qed

lemma pact_run_append: "pact_run (as @ bs) s = (pact_run as s \<bind> pact_run bs)"
  by (induction as arbitrary: s) (auto split: Option.bind_split)

text \<open>C35: Whatever has happened before, once both users have asked for termination without delay, the
  delivery of the commands under way is enough: after finitely many rounds both ends have
  deallocated themselves and every channel is freed.\<close>

theorem pipepair_terminates:
  "\<exists>n. \<forall>k \<ge> n. \<exists>s. pact_run (acts @ [Use True (UTerminate lk False), Use False (UTerminate lk' False)] @
       concat (replicate k [Deliver True, Deliver False])) (pipepair hwm0 hwm1 confl0 confl1) = Some s \<and>
     ends s True = None \<and> ends s False = None \<and> (\<forall>a. heap_load (chans s) a = None)"
proof -
  from pinv_run [OF pinv_new, of acts hwm0 hwm1 confl0 confl1] obtain s0 where
    s0: "pact_run acts (pipepair hwm0 hwm1 confl0 confl1) = Some s0" "pinv s0" by blast
  from use_terminate [OF s0(2), of True lk] obtain s1 where
    s1: "pact_step (Use True (UTerminate lk False)) s0 = Some s1" "pinv s1"
    "st_of s1 True \<in> {Some TermReqSent1, Some TermReqSent2, Some TermAckSent, None}" by blast
  from use_terminate [OF s1(2), of False lk'] obtain s2 where
    s2: "pact_step (Use False (UTerminate lk' False)) s1 = Some s2" "pinv s2" "st_of s2 True = st_of s1 True"
    "st_of s2 False \<in> {Some TermReqSent1, Some TermReqSent2, Some TermAckSent, None}" by auto
  have "closing s2" using s1(3) s2(3,4) by (simp add: closing_def all_bool_eq)
  from rounds_gone [OF s2(2) this] both_gone
  have "\<exists>s. pact_run (concat (replicate k [Deliver True, Deliver False])) s2 = Some s \<and>
      ends s True = None \<and> ends s False = None \<and> (\<forall>a. heap_load (chans s) a = None)" if "todo s2 \<le> k" for k
    using that by blast
  then show ?thesis using s0(1) s1(1) s2(1) by (intro exI [of _ "todo s2"]) (simp add: pact_run_append)
qed

theorem pipepair_terminates_witness:
  "\<exists>n. \<forall>k \<ge> n. \<exists>s. pact_run ([Use False UHiccup, Use True (UWrite True pm_init)] @
       [Use True (UTerminate True False), Use False (UTerminate True False)] @
       concat (replicate k [Deliver True, Deliver False])) (pipepair 1000 1000 False True) = Some s \<and>
     ends s True = None \<and> ends s False = None \<and> (\<forall>a. heap_load (chans s) a = None)"
  by (rule pipepair_terminates)

end
