(* ===== verification/Watermark.thy ===== *)
theory Watermark
  imports Pipepair
begin

text \<open>
  The watermarks of \<open>pipe_t\<close> (src/libzmq/src/pipe.cpp): what \<open>compute_lwm\<close> guarantees, and where the
  message counters of the two ends drift apart from what the channel holds.
\<close>

section \<open>The low watermark\<close>

text \<open>The low watermark of a pipe with a positive high watermark is positive, never above the
  high watermark and below it unless that is 1, and at most \<open>max_wm_delta\<close> below a large one.\<close>

theorem compute_lwm_bounds:
  assumes "0 < h"
  shows "0 < compute_lwm h \<and> compute_lwm h \<le> h \<and> (compute_lwm h = h \<longleftrightarrow> h = 1) \<and>
    (max_wm_delta * 2 < h \<longrightarrow> h - compute_lwm h = max_wm_delta)"
  using assms by (auto simp: compute_lwm_def max_wm_delta_def)

theorem compute_lwm_bounds_witness: "compute_lwm 1000 = 500 \<and> 0 < compute_lwm 1000 \<and> compute_lwm 1000 \<le> 1000 \<and> compute_lwm 1 = 1"
  using compute_lwm_bounds [of 1000] by (simp add: compute_lwm_def max_wm_delta_def)

section \<open>Counters and channels drift apart\<close>

text \<open>A hiccup of the reader throws the unread messages away but leaves the writer's counters as
  they are: a writer that was at its high watermark still is, with an empty channel.\<close>

theorem pipe_hiccup_stays_full:
  assumes "process_hiccup a s = Some s'" "pstate (pe s) = Active" "0 < hwm (pe s)"
    "msgs_written (pe s) - peers_msgs_read (pe s) = of_int (hwm (pe s))"
  shows "\<not> fst (pipe_check_write s')"
proof -
  have "msgs_written (pe s') = msgs_written (pe s) \<and> peers_msgs_read (pe s') = peers_msgs_read (pe s) \<and>
      hwm (pe s') = hwm (pe s)"
    using assms(1)
    by (auto simp: process_hiccup_def on_out_def bind_eq_Some_conv upd_def raise_ev_def Let_def split: if_splits
        dest!: on_chan_same drain_same delete_chan_same)
  then show ?thesis using assms(2-4) by (auto simp: pipe_check_write_def)
qed

text \<open>A full writer with an empty new channel at address 2.\<close>

definition full_end :: pctx where
  "full_end = \<lparr>pe = (pipe_new 1 0 1 1 False)\<lparr>msgs_written := 1\<rparr>,
     ch = [Some (Fifo pspec_new), Some (Fifo pspec_new), Some (Fifo pspec_new)], sent = [], raised = [], closed = []\<rparr>"

theorem pipe_hiccup_stays_full_witness:
  "\<exists>s'. process_hiccup 2 full_end = Some s' \<and> outpipe (pe s') = Some 2 \<and> heap_load (ch s') 2 = Some (Fifo pspec_new) \<and>
     \<not> fst (pipe_check_write s')"
proof -
  have "(case process_hiccup 2 full_end of None \<Rightarrow> False
      | Some s' \<Rightarrow> outpipe (pe s') = Some 2 \<and> heap_load (ch s') 2 = Some (Fifo pspec_new))"
    by code_simp
  then obtain s' where s': "process_hiccup 2 full_end = Some s'" "outpipe (pe s') = Some 2"
      "heap_load (ch s') 2 = Some (Fifo pspec_new)"
    by (auto split: option.splits)
  moreover have "\<not> fst (pipe_check_write s')"
    by (rule pipe_hiccup_stays_full [OF s'(1)]) (simp_all add: full_end_def pipe_new_def)
  ultimately show ?thesis by blast
qed

definition credential :: pmsg where
  "credential = \<lparr>pm_flags = flag_credential, pm_delim = False, pm_data = [1]\<rparr>"

definition refused :: "psys \<Rightarrow> bool" where
  "refused s = (case ends s True of None \<Rightarrow> False
     | Some p \<Rightarrow> pstate p = Active \<and> \<not> fst (pipe_check_write (ctx_of p s)) \<and>
         (case outpipe p of None \<Rightarrow> False | Some a \<Rightarrow> heap_load (chans s) a = Some (Fifo (pspec_new\<lparr>asleep := True\<rparr>))))"

text \<open>A credential uses up the writer's high watermark for good: on a pipe with watermark 1, after
  one credential has been written, flushed and read, nothing is under way, the channel is empty, and the
  writer is refused.\<close>

theorem credential_blocks_writer:
  "\<exists>s. pact_run [Use True (UWrite True credential), Use True UFlush, Use False URead, Deliver True, Deliver False]
         (pipepair 1 1 False False) = Some s \<and> mail s True = [] \<and> mail s False = [] \<and> refused s"
proof -
  have "(case pact_run [Use True (UWrite True credential), Use True UFlush, Use False URead, Deliver True, Deliver False]
      (pipepair 1 1 False False) of None \<Rightarrow> False | Some s \<Rightarrow> mail s True = [] \<and> mail s False = [] \<and> refused s)"
    by code_simp
  then show ?thesis by (auto split: option.splits)
qed

text \<open>\<open>check_hwm\<close> and \<open>check_write\<close> disagree by one message: when there is room for exactly one
  more message, a write is still accepted but \<open>check_hwm\<close> reports the pipe as full.\<close>

theorem check_hwm_one_early:
  assumes "pstate (pe s) = Active" "out_active (pe s)" "0 < hwm (pe s)" "hwm (pe s) < 2 ^ 31"
    "msgs_written (pe s) - peers_msgs_read (pe s) = of_int (hwm (pe s) - 1)"
  shows "fst (pipe_check_write s) \<and> \<not> pipe_check_hwm (pe s)"
proof -
  have "(of_int (hwm (pe s) - 1) :: u64) \<noteq> of_int (hwm (pe s))" by simp
  then show ?thesis using assms by (simp add: pipe_check_write_def pipe_check_hwm_def)
qed

theorem check_hwm_one_early_witness:
  "fst (pipe_check_write (full_end\<lparr>pe := pipe_new 1 0 1 1 False\<rparr>)) \<and> \<not> pipe_check_hwm (pipe_new 1 0 1 1 False)"
  using check_hwm_one_early [of "full_end\<lparr>pe := pipe_new 1 0 1 1 False\<rparr>"] by (simp add: pipe_new_def)

end
