(* ===== verification/Array.thy ===== *)
theory Array
  imports Prelude
begin

text \<open>
  \<open>array_t\<close> (src/libzmq/src/array.hpp): a vector of pointers whose items know their index, so that
  insertion, removal and exchange take constant time. The index lives in the item
  (\<open>array_item_t\<close>); every array has its own ID and hence its own index field per item, which
  the model keeps beside the vector.
\<close>

section \<open>The code\<close>

record array =
  items :: "addr option list"
  array_index :: "addr \<Rightarrow> int"

definition array_new :: array where
  "array_new = \<lparr>items = [], array_index = (\<lambda>_. -1)\<rparr>"

definition set_array_index :: "addr option \<Rightarrow> int \<Rightarrow> array \<Rightarrow> array" where
  "set_array_index p i a = (case p of None \<Rightarrow> a | Some q \<Rightarrow> a\<lparr>array_index := (array_index a)(q := i)\<rparr>)"

definition array_size :: "array \<Rightarrow> nat" where "array_size a = length (items a)"

definition array_empty :: "array \<Rightarrow> bool" where "array_empty a \<longleftrightarrow> items a = []"

text \<open>\<open>pipes [i]\<close> as a pointer that is about to be dereferenced: an index out of range and a NULL
  item are undefined behaviour.\<close>

definition array_at :: "array \<Rightarrow> nat \<Rightarrow> addr option" where
  "array_at a i = (if i < length (items a) then items a ! i else None)"

definition array_push_back :: "addr option \<Rightarrow> array \<Rightarrow> array" where
  "array_push_back p a =
     (let a = set_array_index p (int (length (items a))) a in a\<lparr>items := items a @ [p]\<rparr>)"

text \<open>The cast to \<open>size_type\<close> turns the index -1 of an item that is in no array into a huge one.\<close>

definition array_index_of :: "addr \<Rightarrow> array \<Rightarrow> nat" where
  "array_index_of p a = (if array_index a p < 0 then 2 ^ 64 - 1 else nat (array_index a p))"

definition array_erase_at :: "nat \<Rightarrow> array \<Rightarrow> array option" where
  "array_erase_at i a =
     (if i < length (items a)
      then let a = set_array_index (last (items a)) (int i) a;
               a = a\<lparr>items := (items a)[i := last (items a)]\<rparr>
           in Some (a\<lparr>items := butlast (items a)\<rparr>)
      else None)"

definition array_erase :: "addr \<Rightarrow> array \<Rightarrow> array option" where
  "array_erase p a = array_erase_at (array_index_of p a) a"

definition array_swap :: "nat \<Rightarrow> nat \<Rightarrow> array \<Rightarrow> array option" where
  "array_swap i j a =
     (if i < length (items a) \<and> j < length (items a)
      then let a = set_array_index (items a ! i) (int j) a;
               a = set_array_index (items a ! j) (int i) a
           in Some (a\<lparr>items := list_swap (items a) i j\<rparr>)
      else None)"

definition array_clear :: "array \<Rightarrow> array" where "array_clear a = a\<lparr>items := []\<rparr>"

section \<open>Prefixes under exchange\<close>

lemma set_take_swap_same:
  assumes "i < length xs" "j < length xs" "i < n \<longleftrightarrow> j < n"
  shows "set (take n (list_swap xs i j)) = set (take n xs)"
proof (cases "i < n")
  case True
  with assms have "take n (list_swap xs i j) = list_swap (take n xs) i j"
    by (auto simp: list_swap_def take_update_swap)
  with True assms show ?thesis by simp
next
  case False
  with assms show ?thesis by (simp add: list_swap_def)
qed

lemma set_take_swap_out:
  assumes "distinct xs" "i < n" "n \<le> length xs"
  shows "set (take (n - 1) (list_swap xs i (n - 1))) = set (take n xs) - {xs ! i}"
proof -
  let ?ys = "list_swap xs i (n - 1)"
  have "take n ?ys = take (n - 1) ?ys @ [xs ! i]"
    using assms by (cases n) (auto simp: take_Suc_conv_app_nth nth_list_swap)
  moreover have "set (take n ?ys) = set (take n xs)"
    by (rule set_take_swap_same) (use assms in auto)
  moreover have "distinct (take n ?ys)" using assms by simp
  ultimately show ?thesis by auto
qed

lemma erase_swap:
  assumes "distinct xs" "i < length xs"
  shows "set (butlast (list_swap xs i (length xs - 1))) = set xs - {xs ! i}"
    and "distinct (butlast (list_swap xs i (length xs - 1)))"
    and "n \<le> i \<Longrightarrow> take n (butlast (list_swap xs i (length xs - 1))) = take n xs"
proof -
  have "0 < length xs" using assms by auto
  then show "set (butlast (list_swap xs i (length xs - 1))) = set xs - {xs ! i}"
    using set_take_swap_out [of xs i "length xs"] assms by (simp add: butlast_conv_take)
  show "distinct (butlast (list_swap xs i (length xs - 1)))"
    using assms by (simp add: distinct_butlast)
  show "take n (butlast (list_swap xs i (length xs - 1))) = take n xs" if "n \<le> i"
    using that assms by (auto simp: butlast_conv_take list_swap_def min_def)
qed

section \<open>What an array promises\<close>

text \<open>The items are different objects, and each knows its place.\<close>

definition elems :: "array \<Rightarrow> addr list" where "elems a = map the (items a)"

definition array_ok :: "array \<Rightarrow> bool" where
  "array_ok a \<longleftrightarrow> None \<notin> set (items a) \<and> distinct (elems a) \<and>
     (\<forall>i < length (elems a). array_index a (elems a ! i) = int i)"

lemma items_elems: "None \<notin> set xs \<Longrightarrow> xs = map Some (map the xs)"
  by (induction xs) auto

lemma array_okE:
  assumes "array_ok a"
  obtains xs where "items a = map Some xs" "elems a = xs" "distinct xs"
    "\<And>i. i < length xs \<Longrightarrow> array_index a (xs ! i) = int i"
proof
  show "items a = map Some (elems a)" unfolding elems_def
    by (rule items_elems) (use assms in \<open>simp add: array_ok_def\<close>)
qed (use assms in \<open>auto simp: array_ok_def\<close>)

lemma array_okI:
  "items a = map Some xs \<Longrightarrow> distinct xs \<Longrightarrow> (\<And>i. i < length xs \<Longrightarrow> array_index a (xs ! i) = int i) \<Longrightarrow>
   array_ok a \<and> elems a = xs"
  by (auto simp: array_ok_def elems_def comp_def)

text \<open>The interface: an array stands for a list of different items. The clients keep pipes of
  one kind in front; the facts about such prefixes are proved once for every implementation.\<close>

locale item_array =
  fixes ok :: "'r \<Rightarrow> bool"
    and els :: "'r \<Rightarrow> 'p list"
    and push :: "'p option \<Rightarrow> 'r \<Rightarrow> 'r"
    and index :: "'p \<Rightarrow> 'r \<Rightarrow> nat"
    and erase :: "'p \<Rightarrow> 'r \<Rightarrow> 'r option"
    and swap :: "nat \<Rightarrow> nat \<Rightarrow> 'r \<Rightarrow> 'r option"
  assumes els_distinct: "ok a \<Longrightarrow> distinct (els a)"
    and push_ok: "ok a \<Longrightarrow> p \<notin> set (els a) \<Longrightarrow> ok (push (Some p) a)"
    and push_els: "ok a \<Longrightarrow> els (push (Some p) a) = els a @ [p]"
    and index_nth: "ok a \<Longrightarrow> i < length (els a) \<Longrightarrow> index (els a ! i) a = i"
    and swap_ok: "ok a \<Longrightarrow> i < length (els a) \<Longrightarrow> j < length (els a) \<Longrightarrow>
        \<exists>a'. swap i j a = Some a' \<and> ok a' \<and> els a' = list_swap (els a) i j"
    and erase_ok: "ok a \<Longrightarrow> i < length (els a) \<Longrightarrow>
        \<exists>a'. erase (els a ! i) a = Some a' \<and> ok a' \<and> els a' = butlast (list_swap (els a) i (length (els a) - 1))"
begin

lemma index_less: "ok a \<Longrightarrow> p \<in> set (els a) \<Longrightarrow> index p a < length (els a)"
  by (auto simp: in_set_conv_nth index_nth)

lemma nth_index: "ok a \<Longrightarrow> p \<in> set (els a) \<Longrightarrow> els a ! index p a = p"
  by (auto simp: in_set_conv_nth index_nth)

lemma in_front_iff: "ok a \<Longrightarrow> p \<in> set (els a) \<Longrightarrow> n \<le> length (els a) \<Longrightarrow> p \<in> set (take n (els a)) \<longleftrightarrow> index p a < n"
  using els_distinct [of a] by (auto simp: in_set_conv_nth index_nth nth_eq_iff_index_eq)

lemma move_out:
  assumes "ok a" "i < n" "n \<le> length (els a)"
  shows "\<exists>a'. swap i (n - 1) a = Some a' \<and> ok a' \<and> length (els a') = length (els a) \<and> set (els a') = set (els a) \<and>
    set (take (n - 1) (els a')) = set (take n (els a)) - {els a ! i} \<and>
    (\<forall>k \<ge> n. set (take k (els a')) = set (take k (els a))) \<and> (\<forall>k \<le> i. take k (els a') = take k (els a))"
proof -
  have "i < length (els a)" "n - 1 < length (els a)" using assms by auto
  with assms(1) swap_ok [of a i "n - 1"] obtain a' where a': "swap i (n - 1) a = Some a'" "ok a'"
      "els a' = list_swap (els a) i (n - 1)" by auto
  moreover have "set (take k (els a')) = set (take k (els a))" if "k \<ge> n" for k
    unfolding a'(3) by (rule set_take_swap_same) (use assms that in auto)
  moreover have "take k (els a') = take k (els a)" if "k \<le> i" for k
    using assms that unfolding a'(3) by (simp add: list_swap_def)
  ultimately show ?thesis using assms els_distinct [of a] set_take_swap_out [of "els a" i n] by auto
qed

lemma move_in:
  assumes "ok a" "p \<in> set (els a)" "n \<le> index p a"
  shows "\<exists>a'. swap (index p a) n a = Some a' \<and> ok a' \<and> length (els a') = length (els a) \<and> set (els a') = set (els a) \<and>
    take (Suc n) (els a') = take n (els a) @ [p] \<and>
    (\<forall>k > index p a. set (take k (els a')) = set (take k (els a)))"
proof -
  let ?i = "index p a"
  have i: "?i < length (els a)" "els a ! ?i = p" using assms index_less nth_index by auto
  with assms swap_ok [of a ?i n] obtain a' where a': "swap ?i n a = Some a'" "ok a'"
      "els a' = list_swap (els a) ?i n" by auto
  moreover have "set (take k (els a')) = set (take k (els a))" if "k > ?i" for k
    unfolding a'(3) by (rule set_take_swap_same) (use assms i that in auto)
  moreover have "take (Suc n) (els a') = take n (els a) @ [p]"
    unfolding a'(3) using assms i by (simp add: take_Suc_conv_app_nth nth_list_swap) (simp add: list_swap_def)
  ultimately show ?thesis using assms i by auto
qed

lemma remove:
  assumes "ok a" "p \<in> set (els a)"
  shows "\<exists>a'. erase p a = Some a' \<and> ok a' \<and> set (els a') = set (els a) - {p} \<and> length (els a') = length (els a) - 1 \<and>
    (\<forall>n \<le> index p a. take n (els a') = take n (els a))"
proof -
  let ?i = "index p a"
  have i: "?i < length (els a)" "els a ! ?i = p" using assms index_less nth_index by auto
  with erase_ok [OF assms(1) i(1)] obtain a' where "erase p a = Some a'" "ok a'"
      "els a' = butlast (list_swap (els a) ?i (length (els a) - 1))" by auto
  then show ?thesis using erase_swap [OF els_distinct [OF assms(1)] i(1)] i by auto
qed

end

interpretation arr: item_array array_ok elems array_push_back array_index_of array_erase array_swap
proof
  fix a p i j
  assume "array_ok a"
  then obtain xs where xs: "items a = map Some xs" "elems a = xs" "distinct xs"
      "\<And>i. i < length xs \<Longrightarrow> array_index a (xs ! i) = int i" by (rule array_okE) blast
  show "distinct (elems a)" using xs by simp
  show "elems (array_push_back (Some p) a) = elems a @ [p]"
    by (simp add: array_push_back_def set_array_index_def elems_def)
  show "array_index_of (elems a ! i) a = i" if "i < length (elems a)"
    using xs that by (simp add: array_index_of_def)
  show "array_ok (array_push_back (Some p) a)" if "p \<notin> set (elems a)"
    by (rule array_okI [of _ "xs @ [p]", THEN conjunct1])
      (use xs that in \<open>auto simp: array_push_back_def set_array_index_def nth_append less_Suc_eq\<close>)
  show "\<exists>a'. array_swap i j a = Some a' \<and> array_ok a' \<and> elems a' = list_swap (elems a) i j"
    if "i < length (elems a)" "j < length (elems a)"
  proof -
    let ?a = "a\<lparr>array_index := (array_index a)(xs ! i := int j, xs ! j := int i), items := map Some (list_swap xs i j)\<rparr>"
    have "array_swap i j a = Some ?a"
      using xs that by (simp add: array_swap_def set_array_index_def list_swap_def map_update)
    moreover have "array_ok ?a \<and> elems ?a = list_swap xs i j"
      by (rule array_okI) (use xs that in \<open>auto simp: nth_list_swap nth_eq_iff_index_eq\<close>)
    ultimately show ?thesis using xs by blast
  qed
  show "\<exists>a'. array_erase (elems a ! i) a = Some a' \<and> array_ok a' \<and>
      elems a' = butlast (list_swap (elems a) i (length (elems a) - 1))" if "i < length (elems a)"
  proof -
    let ?n = "length xs - 1" and ?ys = "butlast (list_swap xs i (length xs - 1))"
    let ?a = "a\<lparr>array_index := (array_index a)(xs ! ?n := int i), items := map Some ?ys\<rparr>"
    have ne: "xs \<noteq> []" "i < length xs" using that xs by auto
    have "array_erase (elems a ! i) a = Some ?a"
      using xs that ne
      by (simp add: array_erase_def array_erase_at_def array_index_of_def set_array_index_def list_swap_def last_map
          last_conv_nth map_butlast map_update butlast_list_update)
    moreover have "array_ok ?a \<and> elems ?a = ?ys"
      by (rule array_okI) (use xs ne in \<open>auto simp: nth_butlast nth_list_swap nth_eq_iff_index_eq distinct_butlast\<close>)
    ultimately show ?thesis using xs by blast
  qed
qed

lemma array_new_ok [simp]: "array_ok array_new" "elems array_new = []"
  by (simp_all add: array_new_def array_ok_def elems_def)

lemma array_clear_ok [simp]: "array_ok (array_clear a)" "elems (array_clear a) = []"
  by (simp_all add: array_clear_def array_ok_def elems_def)

lemma array_at_nth: "array_ok a \<Longrightarrow> i < length (elems a) \<Longrightarrow> array_at a i = Some (elems a ! i)"
  by (erule array_okE) (simp add: array_at_def)

lemma list_swap_commute: "i < length xs \<Longrightarrow> j < length xs \<Longrightarrow> list_swap xs i j = list_swap xs j i"
  by (cases "i = j") (simp_all add: list_swap_def list_update_swap [of i j])

lemma array_swap_commute: "array_ok a \<Longrightarrow> array_swap i j a = array_swap j i a"
proof (cases "i = j")
  case False
  assume "array_ok a"
  then show ?thesis using False
    by (elim array_okE) (auto simp: array_swap_def set_array_index_def list_swap_commute fun_upd_twist nth_eq_iff_index_eq)
qed simp

lemma array_swap_self: "array_ok a \<Longrightarrow> i < length (elems a) \<Longrightarrow> array_swap i i a = Some a"
  by (elim array_okE) (simp add: array_swap_def set_array_index_def fun_upd_idem)

lemma array_size_elems: "array_size a = length (elems a)"
  by (simp add: array_size_def elems_def)

text \<open>The array after the given items were added in this order.\<close>

definition array_of :: "addr list \<Rightarrow> array" where
  "array_of ps = fold (\<lambda>p. array_push_back (Some p)) ps array_new"

lemma array_of_ok: "distinct ps \<Longrightarrow> array_ok (array_of ps) \<and> elems (array_of ps) = ps"
proof (induction ps rule: rev_induct)
  case (snoc p ps)
  then show ?case using arr.push_ok [of "array_of ps" p] arr.push_els [of "array_of ps" p] by (simp add: array_of_def)
qed (simp add: array_of_def)

end
