(* ===== verification/Pool.thy ===== *)
theory Pool
  imports Pipepair Array
begin

text \<open>
  The pipe ends a socket owns, by address, each with its own channels and outgoing commands: the
  state that \<open>fq_t\<close>, \<open>lb_t\<close>, \<open>dist_t\<close> and the socket types work on. What they need of a pipe
  operation is the contract \<open>gate\<close>: an operation that is refused closes the pipe for this
  operation, and a closed pipe refuses without doing anything until an activation event.
\<close>

section \<open>Operations on a pipe of the socket\<close>

type_synonym pool = "pctx heap"

definition pool_op :: "addr \<Rightarrow> ('c \<Rightarrow> ('r \<times> 'c) option) \<Rightarrow> 'c heap \<Rightarrow> ('r \<times> 'c heap) option" where
  "pool_op p f w = do { c \<leftarrow> heap_load w p; (r, c) \<leftarrow> f c; w \<leftarrow> heap_store w p c; Some (r, w) }"

text \<open>A pipe operation without a result.\<close>

definition plain :: "(pctx \<Rightarrow> pctx option) \<Rightarrow> pctx \<Rightarrow> (unit \<times> pctx) option" where
  "plain f c = map_option (Pair ()) (f c)"

definition pool_do :: "addr \<Rightarrow> (pctx \<Rightarrow> pctx option) \<Rightarrow> pool \<Rightarrow> pool option" where
  "pool_do p f w = map_option snd (pool_op p (plain f) w)"

text \<open>A pipe accepts writes, as far as \<open>check_write\<close> can tell without its watermark.\<close>

definition writable :: "pipe_end \<Rightarrow> bool" where
  "writable p \<longleftrightarrow> out_active p \<and> pstate p = Active"

definition pool_pipe :: "pool \<Rightarrow> addr \<Rightarrow> pipe_end option" where
  "pool_pipe w p = map_option pe (heap_load w p)"

section \<open>The contract of a pipe operation\<close>

locale gate =
  fixes op :: "'c \<Rightarrow> ('r \<times> 'c) option"
    and hit :: "'r \<Rightarrow> bool"
    and opened :: "'c \<Rightarrow> bool"
    and ok :: "'c \<Rightarrow> bool"
  assumes op_total: "ok c \<Longrightarrow> \<exists>r c'. op c = Some (r, c') \<and> ok c'"
    and miss_closes: "op c = Some (r, c') \<Longrightarrow> \<not> hit r \<Longrightarrow> \<not> opened c'"
    and closed_misses: "\<not> opened c \<Longrightarrow> op c = Some (r, c') \<Longrightarrow> \<not> hit r \<and> c' = c"
begin

lemma op_ok: "ok c \<Longrightarrow> op c = Some (r, c') \<Longrightarrow> ok c'"
  using op_total by fastforce

lemma miss_again: "op c = Some (r, c') \<Longrightarrow> \<not> hit r \<Longrightarrow> op c' = Some (r', c'') \<Longrightarrow> \<not> hit r' \<and> c'' = c'"
  using miss_closes closed_misses by blast

end

lemma process_delimiter_eq:
  "process_delimiter s = Some s' \<longleftrightarrow>
     pstate (pe s) = Active \<and> s' = upd (\<lambda>p. p\<lparr>pstate := DelimiterReceived\<rparr>) s \<or>
     pstate (pe s) = WaitingForDelimiter \<and>
       s' = upd (\<lambda>p. p\<lparr>pstate := TermAckSent\<rparr>) (send_cmd PipeTermAck (upd (\<lambda>p. p\<lparr>outpipe := None\<rparr>) s))"
  by (cases "pstate (pe s)") (auto simp: process_delimiter_def)

lemma process_delimiter_closes: "process_delimiter s = Some s' \<Longrightarrow> \<not> readable (pe s')"
  by (auto simp: process_delimiter_eq readable_def upd_def send_cmd_def)

lemma process_delimiter_ok: "ctx_ok s \<Longrightarrow> process_delimiter s = Some s' \<Longrightarrow> ctx_ok s'"
  by (auto simp: process_delimiter_eq upd_def send_cmd_def ctx_ok_def live_def)

lemma up_to_delimiter_ok: "up_to_delimiter s s' \<Longrightarrow> ctx_ok s'"
  using quiet_ok process_delimiter_ok by (auto simp: up_to_delimiter_def)

lemma read_message_end:
  assumes "read_message s = Some (r, s')"
  shows "r = None \<longrightarrow> \<not> in_active (pe s')"
proof -
  have "fst (r, s') = None \<longrightarrow> \<not> in_active (pe (snd (r, s')))"
  proof (rule read_message.raw_induct [where P = "\<lambda>s y. fst y = None \<longrightarrow> \<not> in_active (pe (snd y))", OF _ assms])
    fix rm s y
    assume IH: "\<And>s y. rm s = Some y \<Longrightarrow> fst y = None \<longrightarrow> \<not> in_active (pe (snd y))"
      and eq: "(on_in (\<lambda>c. Some (chan_read c)) s \<bind> (\<lambda>(r, s). case r of
          None \<Rightarrow> Some (None, upd (\<lambda>p. p\<lparr>in_active := False\<rparr>) s)
        | Some m \<Rightarrow> if pm_is_credential m then rm (close_msg m (upd (\<lambda>p. p\<lparr>pcredential := pm_data m\<rparr>) s))
            else Some (Some m, s))) = Some y"
    from eq obtain r1 s1 where "(case r1 of
          None \<Rightarrow> Some (None, upd (\<lambda>p. p\<lparr>in_active := False\<rparr>) s1)
        | Some m \<Rightarrow> if pm_is_credential m then rm (close_msg m (upd (\<lambda>p. p\<lparr>pcredential := pm_data m\<rparr>) s1))
            else Some (Some m, s1)) = Some y" by (auto simp: bind_eq_Some_conv)
    then show "fst y = None \<longrightarrow> \<not> in_active (pe (snd y))"
      using IH by (cases r1) (fastforce simp: upd_def split: if_splits)+
  qed
  then show ?thesis by simp
qed

lemma read_miss:
  assumes "pipe_read s = Some (None, s')"
  shows "\<not> readable (pe s')"
proof (cases "readable (pe s)")
  case True
  then obtain r s1 where r: "read_message s = Some (r, s1)" using assms by (auto simp: pipe_read_def bind_eq_Some_conv)
  then show ?thesis
    using assms True read_message_end [OF r] process_delimiter_closes [of s1 s']
    by (cases r) (auto simp: pipe_read_def readable_def Let_def bind_eq_Some_conv split: if_splits)
qed (use assms in \<open>simp add: pipe_read_def\<close>)

lemma check_read_miss: "pipe_check_read s = Some (False, s') \<Longrightarrow> \<not> readable (pe s')"
  by (auto simp: pipe_check_read_def bind_eq_Some_conv Let_def split: option.splits if_splits
      dest: process_delimiter_closes) (auto simp: readable_def upd_def)

interpretation rd: gate pipe_read "\<lambda>r. r \<noteq> None" "\<lambda>c. readable (pe c)" ctx_ok
proof
  show "\<exists>r c'. pipe_read c = Some (r, c') \<and> ctx_ok c'" if "ctx_ok c" for c
    using read_quiet [OF that] up_to_delimiter_ok by blast
  show "\<not> readable (pe c')" if "pipe_read c = Some (r, c')" "\<not> r \<noteq> None" for c r c'
    using read_miss that by auto
  show "\<not> r \<noteq> None \<and> c' = c" if "\<not> readable (pe c)" "pipe_read c = Some (r, c')" for c r c'
    using that by (simp add: pipe_read_def)
qed

interpretation crd: gate pipe_check_read "\<lambda>r. r" "\<lambda>c. readable (pe c)" ctx_ok
proof
  show "\<exists>r c'. pipe_check_read c = Some (r, c') \<and> ctx_ok c'" if "ctx_ok c" for c
    using check_read_quiet [OF that] up_to_delimiter_ok by blast
  show "\<not> readable (pe c')" if "pipe_check_read c = Some (r, c')" "\<not> r" for c r c'
    using check_read_miss that by auto
  show "\<not> r \<and> c' = c" if "\<not> readable (pe c)" "pipe_check_read c = Some (r, c')" for c r c'
    using that by (simp add: pipe_check_read_def)
qed

interpretation wr: gate "pipe_write lk m" "\<lambda>r. r" "\<lambda>c. writable (pe c)" ctx_ok
proof
  show "\<exists>r c'. pipe_write lk m c = Some (r, c') \<and> ctx_ok c'" if "ctx_ok c" for c
    using write_quiet [OF that] quiet_ok by blast
  show "\<not> writable (pe c')" if "pipe_write lk m c = Some (r, c')" "\<not> r" for c r c'
    using that
    by (auto simp: pipe_write_def pipe_check_write_def bind_eq_Some_conv writable_def upd_def Let_def split: if_splits)
  show "\<not> r \<and> c' = c" if "\<not> writable (pe c)" "pipe_write lk m c = Some (r, c')" for c r c'
    using that by (auto simp: pipe_write_def pipe_check_write_def writable_def)
qed

definition check_write_op :: "pctx \<Rightarrow> (bool \<times> pctx) option" where
  "check_write_op c = Some (pipe_check_write c)"

interpretation cwr: gate check_write_op "\<lambda>r. r" "\<lambda>c. writable (pe c)" ctx_ok
proof
  show "\<exists>r c'. check_write_op c = Some (r, c') \<and> ctx_ok c'" if "ctx_ok c" for c
    using check_write_quiet [OF that] quiet_ok by (cases "pipe_check_write c") (auto simp: check_write_op_def)
  show "\<not> writable (pe c')" if "check_write_op c = Some (r, c')" "\<not> r" for c r c'
    using that
    by (auto simp: check_write_op_def pipe_check_write_def writable_def upd_def split: if_splits)
  show "\<not> r \<and> c' = c" if "\<not> writable (pe c)" "check_write_op c = Some (r, c')" for c r c'
    using that by (auto simp: check_write_op_def pipe_check_write_def writable_def)
qed

section \<open>Pools\<close>

lemma pool_op_Some:
  "pool_op p f w = Some (r, w') \<longleftrightarrow>
     (\<exists>c c'. heap_load w p = Some c \<and> f c = Some (r, c') \<and> heap_store w p c' = Some w')"
  by (auto simp: pool_op_def bind_eq_Some_conv)

lemma pool_op_at:
  assumes "heap_load w p = Some c" "f c = Some (r, c')"
  shows "\<exists>w'. pool_op p f w = Some (r, w') \<and> heap_load w' = (heap_load w)(p \<mapsto> c')"
proof -
  obtain w' where "heap_store w p c' = Some w'" using heap_store_ok [of w p c'] assms(1) by auto
  then show ?thesis using assms heap_load_store [of w p c' w'] by (auto simp: pool_op_Some)
qed

lemma pool_do_at:
  assumes "heap_load w p = Some c" "f c = Some c'"
  shows "\<exists>w'. pool_do p f w = Some w' \<and> heap_load w' = (heap_load w)(p \<mapsto> c')"
  using pool_op_at [of w p c "plain f" "()" c'] assms by (auto simp: pool_do_def plain_def)

text \<open>A pipe that would not take anything.\<close>

definition full :: "pool \<Rightarrow> addr \<Rightarrow> bool" where
  "full w p \<longleftrightarrow> (\<exists>c. heap_load w p = Some c \<and> (\<forall>lk m. pipe_write lk m c = Some (False, c)))"

lemma closed_full: "\<not> writable (pe c) \<Longrightarrow> heap_load w p = Some c \<Longrightarrow> full w p"
  by (auto simp: full_def pipe_write_def pipe_check_write_def writable_def)

text \<open>What a pipe looks like after it took a message: written, and flushed after the last part.\<close>

definition took :: "bool \<Rightarrow> pmsg \<Rightarrow> pctx \<Rightarrow> pctx \<Rightarrow> bool" where
  "took lk m c c' \<longleftrightarrow> (\<exists>c1. pipe_write lk m c = Some (True, c1) \<and> (if pm_more m then c' = c1 else pipe_flush c1 = Some c'))"

lemma write_room: "pipe_write lk m c = Some (r, c') \<Longrightarrow> r = fst (pipe_check_write c)"
  by (auto simp: pipe_write_def Let_def bind_eq_Some_conv split: prod.splits if_splits)

lemma took_ok: "ctx_ok c \<Longrightarrow> took lk m c c' \<Longrightarrow> ctx_ok c'"
  using wr.op_ok [of c lk m True] flush_quiet quiet_ok by (fastforce simp: took_def split: if_splits)

lemma took_total:
  assumes "ctx_ok c" "fst (pipe_check_write c)"
  shows "\<exists>c1 c'. pipe_write lk m c = Some (True, c1) \<and> ctx_ok c1 \<and> took lk m c c' \<and> ctx_ok c' \<and>
    (if pm_more m then c' = c1 else pipe_flush c1 = Some c')"
proof -
  from wr.op_total [OF assms(1)] obtain r c1 where c1: "pipe_write lk m c = Some (r, c1)" "ctx_ok c1" by blast
  then have r: "r" using write_room assms(2) by blast
  from flush_quiet [OF c1(2)] quiet_ok obtain c2 where "pipe_flush c1 = Some c2" "ctx_ok c2" by blast
  then show ?thesis using c1 r by (auto simp: took_def)
qed

text \<open>The parts of one message: all but the last have the flag \<open>more\<close>.\<close>

fun one_message :: "pmsg list \<Rightarrow> bool" where
  "one_message [] \<longleftrightarrow> False"
| "one_message [m] \<longleftrightarrow> \<not> pm_more m"
| "one_message (m # ms) \<longleftrightarrow> pm_more m \<and> one_message ms"

text \<open>The pipe has taken the parts in order, the message is complete.\<close>

fun took_all :: "bool \<Rightarrow> pmsg list \<Rightarrow> pctx \<Rightarrow> pctx \<Rightarrow> bool" where
  "took_all lk [] c c' \<longleftrightarrow> c' = c"
| "took_all lk (m # ms) c c' \<longleftrightarrow> (\<exists>c1. took lk m c c1 \<and> took_all lk ms c1 c')"

text \<open>A pipe does not become full in the middle of a message.\<close>

lemma took_room: "took lk m c c' \<Longrightarrow> pm_more m \<Longrightarrow> fst (pipe_check_write c')"
proof -
  assume t: "took lk m c c'" and m: "pm_more m"
  then have w: "pipe_write lk m c = Some (True, c')" by (simp add: took_def)
  then have "pipe_check_write c = (True, c)" using write_room [OF w] by (auto simp: pipe_check_write_def split: if_splits)
  then have "pe c' = pe c" using w m by (auto simp: pipe_write_def on_out_def bind_eq_Some_conv dest: on_chan_same)
  then show ?thesis using write_room [OF w] by (auto simp: pipe_check_write_def Let_def split: if_splits)
qed

text \<open>A socket's end with the messages \<open>ms\<close> waiting and watermark \<open>h\<close> in both directions.\<close>

definition sock_pipe :: "pmsg list \<Rightarrow> int \<Rightarrow> pctx" where
  "sock_pipe ms h = \<lparr>pe = pipe_new 0 1 h h False, ch = [Some (Fifo (pspec_new\<lparr>flushed := ms\<rparr>)), Some (Fifo pspec_new)],
     sent = [], raised = [], closed = []\<rparr>"

lemma sock_pipe_ok: "ctx_ok (sock_pipe ms h)"
  by (auto simp: ctx_ok_def sock_pipe_def pipe_new_def live_def chans_ok_def heap_load_def pspec_new_def pspec_wf_def
      nth_Cons' split: if_splits)

definition part :: "byte \<Rightarrow> pmsg" where "part b = \<lparr>pm_flags = flag_more, pm_delim = False, pm_data = [b]\<rparr>"
definition whole :: "byte \<Rightarrow> pmsg" where "whole b = \<lparr>pm_flags = 0, pm_delim = False, pm_data = [b]\<rparr>"

end
