(* ===== verification/Dist.thy ===== *)
theory Dist
  imports Pool
begin

text \<open>
  \<open>dist_t\<close> (src/libzmq/src/dist.cpp): distribution of each message to a set of outbound pipes. The array of
  pipes is divided: first the matching pipes, among the active ones, among the eligible ones.
  \<open>lk p\<close> is the outcome of the lock attempt of pipe \<open>p\<close> if it is a conflating one; \<open>vsm\<close> says whether the
  message is a very small one, whose copies share nothing.
\<close>

section \<open>The code\<close>

record dist =
  d_pipes :: array
  d_matching :: nat
  d_active :: nat
  d_eligible :: nat
  d_more :: bool

definition dist_new :: dist where
  "dist_new = \<lparr>d_pipes = array_new, d_matching = 0, d_active = 0, d_eligible = 0, d_more = False\<rparr>"

definition dist_attach :: "addr \<Rightarrow> dist \<Rightarrow> dist option" where
  "dist_attach p s =
     (let a = array_push_back (Some p) (d_pipes s)
      in if d_more s
         then do { a \<leftarrow> array_swap (d_eligible s) (array_size a - 1) a;
                   Some (s\<lparr>d_pipes := a, d_eligible := d_eligible s + 1\<rparr>) }
         else do { a \<leftarrow> array_swap (d_active s) (array_size a - 1) a;
                   Some (s\<lparr>d_pipes := a, d_active := d_active s + 1, d_eligible := d_eligible s + 1\<rparr>) })"

definition dist_match :: "addr \<Rightarrow> dist \<Rightarrow> dist option" where
  "dist_match p s =
     (let i = array_index_of p (d_pipes s)
      in if i < d_matching s \<or> d_eligible s \<le> i then Some s
         else do { a \<leftarrow> array_swap i (d_matching s) (d_pipes s);
                   Some (s\<lparr>d_pipes := a, d_matching := d_matching s + 1\<rparr>) })"

definition dist_unmatch :: "dist \<Rightarrow> dist" where "dist_unmatch s = s\<lparr>d_matching := 0\<rparr>"

text \<open>Moving a pipe to the end of the first \<open>n\<close> items.\<close>

definition push_out :: "addr \<Rightarrow> nat \<Rightarrow> array \<Rightarrow> array option" where
  "push_out p n a = array_swap (array_index_of p a) (n - 1) a"

definition dist_pipe_terminated :: "addr \<Rightarrow> dist \<Rightarrow> dist option" where
  "dist_pipe_terminated p s =
     do { s \<leftarrow> (if array_index_of p (d_pipes s) < d_matching s
               then do { a \<leftarrow> push_out p (d_matching s) (d_pipes s); Some (s\<lparr>d_pipes := a, d_matching := d_matching s - 1\<rparr>) }
               else Some s);
          s \<leftarrow> (if array_index_of p (d_pipes s) < d_active s
               then do { a \<leftarrow> push_out p (d_active s) (d_pipes s); Some (s\<lparr>d_pipes := a, d_active := d_active s - 1\<rparr>) }
               else Some s);
          s \<leftarrow> (if array_index_of p (d_pipes s) < d_eligible s
               then do { a \<leftarrow> push_out p (d_eligible s) (d_pipes s); Some (s\<lparr>d_pipes := a, d_eligible := d_eligible s - 1\<rparr>) }
               else Some s);
          a \<leftarrow> array_erase p (d_pipes s);
          Some (s\<lparr>d_pipes := a\<rparr>) }"

definition dist_activated :: "addr \<Rightarrow> dist \<Rightarrow> dist option" where
  "dist_activated p s =
     do { a \<leftarrow> array_swap (array_index_of p (d_pipes s)) (d_eligible s) (d_pipes s);
          let s = s\<lparr>d_pipes := a, d_eligible := d_eligible s + 1\<rparr>;
          if \<not> d_more s
          then do { a \<leftarrow> array_swap (d_eligible s - 1) (d_active s) (d_pipes s);
                    Some (s\<lparr>d_pipes := a, d_active := d_active s + 1\<rparr>) }
          else Some s }"

text \<open>The part of \<open>write\<close> that retires a pipe which refused.\<close>

definition dist_retire :: "addr \<Rightarrow> dist \<Rightarrow> dist option" where
  "dist_retire p s =
     do { a \<leftarrow> push_out p (d_matching s) (d_pipes s);
          a \<leftarrow> push_out p (d_active s) a;
          a \<leftarrow> array_swap (d_active s - 1) (d_eligible s - 1) a;
          Some (s\<lparr>d_pipes := a, d_matching := d_matching s - 1, d_active := d_active s - 1, d_eligible := d_eligible s - 1\<rparr>) }"

definition dist_write :: "bool \<Rightarrow> addr \<Rightarrow> pmsg \<Rightarrow> dist \<Rightarrow> pool \<Rightarrow> (bool \<times> dist \<times> pool) option" where
  "dist_write lk p m s w =
     do { (ok, w) \<leftarrow> pool_op p (pipe_write lk m) w;
          if \<not> ok then do { s \<leftarrow> dist_retire p s; Some (False, s, w) }
          else if \<not> pm_more m then do { w \<leftarrow> pool_do p pipe_flush w; Some (True, s, w) }
          else Some (True, s, w) }"

text \<open>The loop of \<open>distribute\<close>: after a refusal the same index holds another pipe.\<close>

partial_function (option) dist_loop ::
  "(addr \<Rightarrow> bool) \<Rightarrow> pmsg \<Rightarrow> nat \<Rightarrow> nat \<Rightarrow> dist \<Rightarrow> pool \<Rightarrow> (nat \<times> dist \<times> pool) option" where
  "dist_loop lk m i failed s w =
     (if i < d_matching s
      then do { p \<leftarrow> array_at (d_pipes s) i;
                (ok, s, w) \<leftarrow> dist_write (lk p) p m s w;
                if ok then dist_loop lk m (i + 1) failed s w else dist_loop lk m i (failed + 1) s w }
      else Some (failed, s, w))"

declare dist_loop.simps [code]

text \<open>The number returned is by how much the calls of \<open>add_refs\<close> and \<open>rm_refs\<close> change the reference
  count of the message.\<close>

definition dist_distribute :: "(addr \<Rightarrow> bool) \<Rightarrow> bool \<Rightarrow> pmsg \<Rightarrow> dist \<Rightarrow> pool \<Rightarrow> (int \<times> dist \<times> pool) option" where
  "dist_distribute lk vsm m s w =
     (if d_matching s = 0 then Some (0, s, w)
      else if vsm then do { (_, s, w) \<leftarrow> dist_loop lk m 0 0 s w; Some (0, s, w) }
      else do { let added = int (d_matching s) - 1;
                (failed, s, w) \<leftarrow> dist_loop lk m 0 0 s w;
                Some (added - int failed, s, w) })"

definition dist_send_to_matching :: "(addr \<Rightarrow> bool) \<Rightarrow> bool \<Rightarrow> pmsg \<Rightarrow> dist \<Rightarrow> pool \<Rightarrow> (int \<times> dist \<times> pool) option" where
  "dist_send_to_matching lk vsm m s w =
     do { (k, s, w) \<leftarrow> dist_distribute lk vsm m s w;
          let s = (if \<not> pm_more m then s\<lparr>d_active := d_eligible s\<rparr> else s);
          Some (k, s\<lparr>d_more := pm_more m\<rparr>, w) }"

definition dist_send_to_all :: "(addr \<Rightarrow> bool) \<Rightarrow> bool \<Rightarrow> pmsg \<Rightarrow> dist \<Rightarrow> pool \<Rightarrow> (int \<times> dist \<times> pool) option" where
  "dist_send_to_all lk vsm m s w = dist_send_to_matching lk vsm m (s\<lparr>d_matching := d_active s\<rparr>) w"

definition dist_has_out :: "dist \<Rightarrow> bool" where "dist_has_out s = True"

fun check_hwm_loop :: "nat list \<Rightarrow> dist \<Rightarrow> pool \<Rightarrow> bool option" where
  "check_hwm_loop [] s w = Some True"
| "check_hwm_loop (i # is) s w =
     do { p \<leftarrow> array_at (d_pipes s) i;
          e \<leftarrow> pool_pipe w p;
          if \<not> pipe_check_hwm e then Some False else check_hwm_loop is s w }"

definition dist_check_hwm :: "dist \<Rightarrow> pool \<Rightarrow> bool option" where
  "dist_check_hwm s w = check_hwm_loop [0..<d_matching s] s w"

section \<open>Invariant\<close>

definition d_elems :: "dist \<Rightarrow> addr list" where "d_elems s = elems (d_pipes s)"
definition d_all :: "dist \<Rightarrow> addr set" where "d_all s = set (d_elems s)"
definition d_match :: "dist \<Rightarrow> addr set" where "d_match s = set (take (d_matching s) (d_elems s))"
definition d_act :: "dist \<Rightarrow> addr set" where "d_act s = set (take (d_active s) (d_elems s))"
definition d_elig :: "dist \<Rightarrow> addr set" where "d_elig s = set (take (d_eligible s) (d_elems s))"

lemmas d_defs = d_elems_def d_all_def d_match_def d_act_def d_elig_def

text \<open>Matching pipes are active, active ones are eligible; between messages all eligible pipes are
  active.\<close>

definition dist_ok :: "dist \<Rightarrow> bool" where
  "dist_ok s \<longleftrightarrow> array_ok (d_pipes s) \<and> d_matching s \<le> d_active s \<and> d_active s \<le> d_eligible s \<and>
     d_eligible s \<le> length (d_elems s) \<and> (\<not> d_more s \<longrightarrow> d_active s = d_eligible s)"

text \<open>A pipe that is not eligible refuses writes.\<close>

definition dist_pool :: "dist \<Rightarrow> pool \<Rightarrow> bool" where
  "dist_pool s w \<longleftrightarrow> dist_ok s \<and>
     (\<forall>p \<in> d_all s. \<exists>c. heap_load w p = Some c \<and> ctx_ok c \<and> (p \<notin> d_elig s \<longrightarrow> \<not> writable (pe c)))"

lemma dist_new_ok: "dist_pool dist_new w"
  by (simp add: dist_pool_def dist_ok_def dist_new_def d_defs)

lemma push_out_ok:
  assumes "array_ok a" "p \<in> set (elems a)" "array_index_of p a < n" "n \<le> length (elems a)"
  shows "\<exists>a'. push_out p n a = Some a' \<and> array_ok a' \<and> length (elems a') = length (elems a) \<and> set (elems a') = set (elems a) \<and>
    set (take (n - 1) (elems a')) = set (take n (elems a)) - {p} \<and> array_index_of p a' = n - 1 \<and>
    (\<forall>k \<ge> n. set (take k (elems a')) = set (take k (elems a))) \<and>
    (\<forall>k \<le> array_index_of p a. take k (elems a') = take k (elems a))"
proof -
  from arr.move_out [OF assms(1,3,4)] arr.nth_index [OF assms(1,2)] obtain a' where
    a': "push_out p n a = Some a'" "array_ok a'" "length (elems a') = length (elems a)" "set (elems a') = set (elems a)"
    "set (take (n - 1) (elems a')) = set (take n (elems a)) - {p}" "\<forall>k \<ge> n. set (take k (elems a')) = set (take k (elems a))"
    "\<forall>k \<le> array_index_of p a. take k (elems a') = take k (elems a)" by (auto simp: push_out_def)
  have p': "p \<in> set (elems a')" using a'(4) assms(2) by simp
  have "p \<in> set (take n (elems a'))" using arr.in_front_iff [OF assms(1,2,4)] assms(3) a'(6) by simp
  then have "array_index_of p a' < n" "\<not> array_index_of p a' < n - 1"
    using arr.in_front_iff [OF a'(2) p'] a'(3,5) assms(4) by auto
  then show ?thesis using a' by auto
qed

lemma in_front: "array_ok a \<Longrightarrow> n \<le> length (elems a) \<Longrightarrow> p \<in> set (take n (elems a)) \<Longrightarrow> p \<in> set (elems a) \<and> array_index_of p a < n"
  using arr.in_front_iff [of a p n] by (auto dest: in_set_takeD)

text \<open>A pipe that refuses leaves all three parts.\<close>

lemma dist_retire_ok:
  assumes "dist_ok s" "p \<in> d_match s"
  shows "\<exists>s'. dist_retire p s = Some s' \<and> dist_ok s' \<and> d_all s' = d_all s \<and> d_matching s' = d_matching s - 1 \<and>
    d_match s' = d_match s - {p} \<and> d_act s' = d_act s - {p} \<and> d_elig s' = d_elig s - {p} \<and> d_more s' = d_more s \<and>
    (\<forall>k \<le> array_index_of p (d_pipes s). take k (d_elems s') = take k (d_elems s))"
proof -
  let ?m = "d_matching s" and ?n = "d_active s" and ?e = "d_eligible s" and ?a = "d_pipes s"
  have b: "array_ok ?a" "?m \<le> ?n" "?n \<le> ?e" "?e \<le> length (elems ?a)" using assms(1) by (auto simp: dist_ok_def d_elems_def)
  have p: "p \<in> set (elems ?a)" "array_index_of p ?a < ?m" using in_front [of ?a ?m p] assms(2) b by (auto simp: d_defs)
  from push_out_ok [OF b(1) p] b obtain a1 where a1: "push_out p ?m ?a = Some a1" "array_ok a1" "length (elems a1) = length (elems ?a)"
    "set (elems a1) = set (elems ?a)" "set (take (?m - 1) (elems a1)) = set (take ?m (elems ?a)) - {p}" "array_index_of p a1 = ?m - 1"
    "\<forall>k \<ge> ?m. set (take k (elems a1)) = set (take k (elems ?a))" "\<forall>k \<le> array_index_of p ?a. take k (elems a1) = take k (elems ?a)" by auto
  have lt: "?m - 1 < ?n" "?n - 1 < ?e" using p(2) b by auto
  from push_out_ok [OF a1(2), of p ?n] a1(3,4,6) b p lt obtain a2 where a2: "push_out p ?n a1 = Some a2" "array_ok a2"
    "length (elems a2) = length (elems ?a)" "set (elems a2) = set (elems ?a)" "set (take (?n - 1) (elems a2)) = set (take ?n (elems a1)) - {p}"
    "array_index_of p a2 = ?n - 1" "\<forall>k \<ge> ?n. set (take k (elems a2)) = set (take k (elems a1))"
    "\<forall>k \<le> ?m - 1. take k (elems a2) = take k (elems a1)" by auto
  from push_out_ok [OF a2(2), of p ?e] a2(3,4,6) b p lt obtain a3 where a3: "array_swap (?n - 1) (?e - 1) a2 = Some a3" "array_ok a3"
    "length (elems a3) = length (elems ?a)" "set (elems a3) = set (elems ?a)" "set (take (?e - 1) (elems a3)) = set (take ?e (elems a2)) - {p}"
    "\<forall>k \<le> ?n - 1. take k (elems a3) = take k (elems a2)" by (auto simp: push_out_def)
  let ?s = "s\<lparr>d_pipes := a3, d_matching := ?m - 1, d_active := ?n - 1, d_eligible := ?e - 1\<rparr>"
  have "dist_retire p s = Some ?s" using a1(1) a2(1) a3(1) by (simp add: dist_retire_def)
  moreover have "take k (elems a3) = take k (elems ?a)" if "k \<le> array_index_of p ?a" for k
    using that a1(8) a2(8) a3(6) p b by simp
  moreover have "set (take (?m - 1) (elems a3)) = set (take ?m (elems ?a)) - {p}" using a1(5) a2(8) a3(6) b by simp
  moreover have "set (take (?n - 1) (elems a3)) = set (take ?n (elems ?a)) - {p}" using a1(7) a2(5) a3(6) b by simp
  moreover have "set (take (?e - 1) (elems a3)) = set (take ?e (elems ?a)) - {p}" using a1(7) a2(7) a3(5) b by simp
  ultimately show ?thesis using a3(2-4) b p assms(1)
    by (intro exI [of _ ?s]) (auto simp: dist_ok_def d_defs)
qed

section \<open>Distribution\<close>

definition accepts :: "pool \<Rightarrow> addr \<Rightarrow> bool" where
  "accepts w p \<longleftrightarrow> (\<exists>c. heap_load w p = Some c \<and> fst (pipe_check_write c))"

lemma accepts_iff: "accepts w p \<longleftrightarrow> (case heap_load w p of None \<Rightarrow> False | Some c \<Rightarrow> fst (pipe_check_write c))"
  by (auto simp: accepts_def split: option.splits)

definition refusing :: "pool \<Rightarrow> addr set \<Rightarrow> addr set" where
  "refusing w T = {p \<in> T. \<not> accepts w p}"

definition handed :: "(addr \<Rightarrow> bool) \<Rightarrow> pmsg \<Rightarrow> addr set \<Rightarrow> pool \<Rightarrow> pool \<Rightarrow> bool" where
  "handed lk m T w w' \<longleftrightarrow> (\<forall>p. p \<notin> T \<longrightarrow> heap_load w' p = heap_load w p) \<and>
     (\<forall>p \<in> T. accepts w p \<longrightarrow> (\<exists>c c'. heap_load w p = Some c \<and> took (lk p) m c c' \<and> heap_load w' p = Some c'))"

lemma handed_step:
  assumes "handed lk m T w1 w'" "p \<notin> T" "heap_load w1 = (heap_load w)(p \<mapsto> c')"
    "accepts w p \<Longrightarrow> \<exists>c. heap_load w p = Some c \<and> took (lk p) m c c'"
  shows "handed lk m (insert p T) w w'"
proof -
  have "heap_load w' p = Some c'" using assms(1-3) by (simp add: handed_def)
  moreover have "\<exists>c c'. heap_load w q = Some c \<and> took (lk q) m c c' \<and> heap_load w' q = Some c'" if "q \<in> T" "accepts w q" for q
  proof -
    have "heap_load w1 q = heap_load w q" using assms(2,3) that(1) by auto
    moreover from this have "accepts w1 q" using that(2) by (simp add: accepts_def)
    ultimately show ?thesis using assms(1) that(1) unfolding handed_def by metis
  qed
  ultimately show ?thesis using assms(1,3,4) by (auto simp: handed_def)
qed

text \<open>The effect of offering a message to the pipes \<open>T\<close>: those that accept took it, those that refuse
  are no longer eligible, no other pipe is touched.\<close>

definition offered :: "(addr \<Rightarrow> bool) \<Rightarrow> pmsg \<Rightarrow> addr set \<Rightarrow> dist \<Rightarrow> pool \<Rightarrow> dist \<Rightarrow> pool \<Rightarrow> bool" where
  "offered lk m T s w s' w' \<longleftrightarrow> dist_pool s' w' \<and> d_all s' = d_all s \<and> d_more s' = d_more s \<and>
     d_match s' = d_match s - refusing w T \<and> d_act s' = d_act s - refusing w T \<and> d_elig s' = d_elig s - refusing w T \<and>
     handed lk m T w w'"

lemma refusing_insert:
  "refusing w (insert p T) = (if accepts w p then refusing w T else insert p (refusing w T))"
  by (auto simp: refusing_def)

lemma accepts_cong: "heap_load w' p = heap_load w p \<Longrightarrow> accepts w' p = accepts w p"
  by (simp add: accepts_def)

lemma refusing_cong: "(\<And>p. p \<in> T \<Longrightarrow> heap_load w' p = heap_load w p) \<Longrightarrow> refusing w' T = refusing w T"
  by (auto simp: refusing_def accepts_def)

definition todo_set :: "nat \<Rightarrow> dist \<Rightarrow> addr set" where
  "todo_set i s = set (drop i (take (d_matching s) (d_elems s)))"

lemma todo_set_conv:
  assumes "dist_ok s"
  shows "todo_set i s = d_match s - set (take i (take (d_matching s) (d_elems s)))"
proof -
  have "distinct (take (d_matching s) (d_elems s))" using assms arr.els_distinct by (simp add: dist_ok_def d_elems_def)
  then show ?thesis
    using set_take_disj_set_drop_if_distinct [of "take (d_matching s) (d_elems s)" i i]
      append_take_drop_id [of i "take (d_matching s) (d_elems s)"]
    by (simp add: todo_set_def d_match_def) (metis Diff_disjoint Diff_triv Un_Diff Un_empty_left set_append Diff_cancel inf_commute)
qed

lemma dist_pool_at: "dist_pool s w \<Longrightarrow> p \<in> d_all s \<Longrightarrow> \<exists>c. heap_load w p = Some c \<and> ctx_ok c"
  by (auto simp: dist_pool_def)

lemma dist_write_accepts:
  assumes "dist_pool s w" "p \<in> d_elig s" "accepts w p"
  shows "\<exists>w' c c'. dist_write lk p m s w = Some (True, s, w') \<and> dist_pool s w' \<and> heap_load w p = Some c \<and> took lk m c c' \<and>
    heap_load w' = (heap_load w)(p \<mapsto> c')"
proof -
  have "p \<in> d_all s" using assms(2) by (auto simp: d_defs dest: in_set_takeD)
  with assms obtain c where c: "heap_load w p = Some c" "ctx_ok c" "fst (pipe_check_write c)"
    using dist_pool_at by (fastforce simp: accepts_def)
  from took_total [OF c(2,3), of lk m] obtain c1 c2 where c1: "pipe_write lk m c = Some (True, c1)" "ctx_ok c1" "took lk m c c2"
    "ctx_ok c2" "if pm_more m then c2 = c1 else pipe_flush c1 = Some c2" by blast
  from pool_op_at [of w p c "pipe_write lk m", OF c(1) c1(1)] obtain w1 where
    w1: "pool_op p (pipe_write lk m) w = Some (True, w1)" "heap_load w1 = (heap_load w)(p \<mapsto> c1)" by blast
  have "\<exists>w'. dist_write lk p m s w = Some (True, s, w') \<and> heap_load w' = (heap_load w)(p \<mapsto> c2)"
  proof (cases "pm_more m")
    case True
    then show ?thesis using w1 c1(5) by (simp add: dist_write_def)
  next
    case False
    then show ?thesis using w1 c1(5) pool_do_at [of w1 p c1 pipe_flush c2] by (auto simp: dist_write_def)
  qed
  then obtain w' where w': "dist_write lk p m s w = Some (True, s, w')" "heap_load w' = (heap_load w)(p \<mapsto> c2)" by blast
  moreover have "dist_pool s w'" using assms(1,2) w'(2) c1(4) by (auto simp: dist_pool_def)
  ultimately show ?thesis using c(1) c1(3) by blast
qed

lemma dist_write_refuses:
  assumes "dist_pool s w" "p \<in> d_match s" "\<not> accepts w p"
  shows "\<exists>s' w' c'. dist_write lk p m s w = Some (False, s', w') \<and> dist_retire p s = Some s' \<and> dist_pool s' w' \<and>
    heap_load w' = (heap_load w)(p \<mapsto> c')"
proof -
  have p: "p \<in> d_all s" using assms(2) by (auto simp: d_defs dest: in_set_takeD)
  with assms obtain c where c: "heap_load w p = Some c" "ctx_ok c" "\<not> fst (pipe_check_write c)"
    using dist_pool_at by (fastforce simp: accepts_def)
  from wr.op_total [OF c(2), of lk m] write_room c(3) obtain c1 where
    c1: "pipe_write lk m c = Some (False, c1)" "ctx_ok c1" by (metis (full_types))
  from pool_op_at [of w p c "pipe_write lk m", OF c(1) c1(1)] obtain w1 where
    w1: "pool_op p (pipe_write lk m) w = Some (False, w1)" "heap_load w1 = (heap_load w)(p \<mapsto> c1)" by blast
  have "dist_ok s" using assms(1) by (simp add: dist_pool_def)
  from dist_retire_ok [OF this assms(2)] obtain s' where s': "dist_retire p s = Some s'" "dist_ok s'" "d_all s' = d_all s"
    "d_elig s' = d_elig s - {p}" by blast
  have "\<not> writable (pe c1)" using wr.miss_closes [OF c1(1)] by simp
  then have "dist_pool s' w1" using assms(1) s' w1(2) c1(2) by (auto simp: dist_pool_def)
  then show ?thesis using w1 s'(1) by (auto simp: dist_write_def)
qed

lemma match_elig: "dist_ok s \<Longrightarrow> d_match s \<subseteq> d_elig s"
  unfolding d_match_def d_elig_def by (rule set_take_subset_set_take) (auto simp: dist_ok_def)

lemma dist_loop_ok:
  assumes "dist_pool s w" "i \<le> d_matching s"
  shows "\<exists>s' w'. dist_loop lk m i failed s w = Some (failed + card (refusing w (todo_set i s)), s', w') \<and>
    offered lk m (todo_set i s) s w s' w'"
  using assms
proof (induction "d_matching s - i" arbitrary: i failed s w rule: less_induct)
  case less
  have ok: "dist_ok s" using less.prems(1) by (simp add: dist_pool_def)
  show ?case
  proof (cases "i < d_matching s")
    case False
    then have "todo_set i s = {}" by (simp add: todo_set_def)
    then show ?thesis using False less.prems(1) by (subst dist_loop.simps) (simp add: offered_def refusing_def handed_def)
  next
    case True
    let ?p = "d_elems s ! i"
    have len: "d_matching s \<le> length (d_elems s)" using ok by (simp add: dist_ok_def)
    have pm: "?p \<in> d_match s" using True len by (auto simp: d_match_def in_set_conv_nth)
    have pe: "?p \<in> d_elig s" using pm match_elig [OF ok] by auto
    have at: "array_at (d_pipes s) i = Some ?p" using True len ok by (simp add: array_at_nth dist_ok_def d_elems_def)
    have idx: "array_index_of ?p (d_pipes s) = i" using True len ok arr.index_nth by (simp add: dist_ok_def d_elems_def)
    have T: "todo_set i s = insert ?p (todo_set (Suc i) s)" "?p \<notin> todo_set (Suc i) s"
    proof -
      let ?M = "take (d_matching s) (d_elems s)"
      have d: "drop i ?M = ?p # drop (Suc i) ?M" using True len by (simp add: Cons_nth_drop_Suc [symmetric])
      then show "todo_set i s = insert ?p (todo_set (Suc i) s)" by (simp add: todo_set_def)
      have "distinct ?M" using ok arr.els_distinct by (simp add: dist_ok_def d_elems_def)
      then have "distinct (drop i ?M)" by (rule distinct_drop)
      then show "?p \<notin> todo_set (Suc i) s" unfolding d by (simp add: todo_set_def)
    qed
    show ?thesis
    proof (cases "accepts w ?p")
      case acc: True
      from dist_write_accepts [OF less.prems(1) pe acc, of "lk ?p" m] obtain w1 c c' where
        w1: "dist_write (lk ?p) ?p m s w = Some (True, s, w1)" "dist_pool s w1" "heap_load w ?p = Some c" "took (lk ?p) m c c'"
          "heap_load w1 = (heap_load w)(?p \<mapsto> c')" by blast
      have "d_matching s - Suc i < d_matching s - i" using True by simp
      from less.hyps [OF this w1(2), of failed] True obtain s' w' where
        r: "dist_loop lk m (Suc i) failed s w1 = Some (failed + card (refusing w1 (todo_set (Suc i) s)), s', w')"
          "offered lk m (todo_set (Suc i) s) s w1 s' w'" by auto
      have "refusing w1 (todo_set (Suc i) s) = refusing w (todo_set (Suc i) s)"
        by (rule refusing_cong) (use T(2) w1(5) in auto)
      then have rf: "refusing w1 (todo_set (Suc i) s) = refusing w (todo_set i s)" using T(1) acc by (simp add: refusing_insert)
      have "offered lk m (todo_set i s) s w s' w'"
        using r(2) T(1) handed_step [OF _ T(2) w1(5)] w1(3,4) unfolding offered_def rf by simp
      then show ?thesis using r(1) True at w1(1) rf by (subst dist_loop.simps) simp
    next
      case ref: False
      from dist_write_refuses [OF less.prems(1) pm ref, of "lk ?p" m] obtain s1 w1 c' where
        w1: "dist_write (lk ?p) ?p m s w = Some (False, s1, w1)" "dist_retire ?p s = Some s1" "dist_pool s1 w1"
          "heap_load w1 = (heap_load w)(?p \<mapsto> c')" by blast
      from dist_retire_ok [OF ok pm] w1(2) idx have s1: "dist_ok s1" "d_all s1 = d_all s" "d_matching s1 = d_matching s - 1"
        "d_match s1 = d_match s - {?p}" "d_act s1 = d_act s - {?p}" "d_elig s1 = d_elig s - {?p}" "d_more s1 = d_more s"
        "take i (d_elems s1) = take i (d_elems s)" by auto
      have T1: "todo_set i s1 = todo_set (Suc i) s"
      proof -
        have "take i (take (d_matching s1) (d_elems s1)) = take i (take (d_matching s) (d_elems s))"
          using s1(3,8) True by (auto simp: min_def)
        then have "todo_set i s1 = todo_set i s - {?p}"
          using todo_set_conv [OF s1(1), of i] todo_set_conv [OF ok, of i] s1(4) by auto
        then show ?thesis using T by auto
      qed
      have "d_matching s1 - i < d_matching s - i" "i \<le> d_matching s1" using True s1(3) by auto
      from less.hyps [OF this(1) w1(3) this(2), of "Suc failed"] obtain s' w' where
        r: "dist_loop lk m i (Suc failed) s1 w1 = Some (Suc failed + card (refusing w1 (todo_set (Suc i) s)), s', w')"
          "offered lk m (todo_set (Suc i) s) s1 w1 s' w'" by (auto simp: T1)
      have "refusing w1 (todo_set (Suc i) s) = refusing w (todo_set (Suc i) s)"
        by (rule refusing_cong) (use T(2) w1(4) in auto)
      then have rf: "refusing w (todo_set i s) = insert ?p (refusing w1 (todo_set (Suc i) s))" using T(1) ref by (simp add: refusing_insert)
      have "?p \<notin> refusing w1 (todo_set (Suc i) s)" "finite (refusing w1 (todo_set (Suc i) s))"
        using T(2) by (auto simp: refusing_def todo_set_def)
      then have card: "card (refusing w (todo_set i s)) = Suc (card (refusing w1 (todo_set (Suc i) s)))" by (simp add: rf)
      have "offered lk m (todo_set i s) s w s' w'"
        using r(2) T(1) handed_step [OF _ T(2) w1(4)] ref s1 unfolding offered_def rf by auto
      then show ?thesis using r(1) True at w1(1) card by (subst dist_loop.simps) simp
    qed
  qed
qed

section \<open>The other operations keep the invariant\<close>

lemma dist_attach_ok:
  assumes "dist_pool s w" "p \<notin> d_all s" "heap_load w p = Some c" "ctx_ok c"
  shows "\<exists>s'. dist_attach p s = Some s' \<and> dist_pool s' w \<and> d_all s' = insert p (d_all s) \<and> d_elig s' = insert p (d_elig s) \<and>
    d_match s' = d_match s"
proof -
  let ?a = "array_push_back (Some p) (d_pipes s)" and ?n = "d_eligible s"
  have ok: "dist_ok s" using assms(1) by (simp add: dist_pool_def)
  then have b: "array_ok (d_pipes s)" "d_matching s \<le> d_active s" "d_active s \<le> d_eligible s" "d_eligible s \<le> length (elems (d_pipes s))"
    "\<not> d_more s \<Longrightarrow> d_active s = d_eligible s" by (auto simp: dist_ok_def d_elems_def)
  have a: "array_ok ?a" "elems ?a = elems (d_pipes s) @ [p]" using b(1) assms(2) arr.push_ok arr.push_els by (auto simp: d_defs)
  have i: "array_index_of p ?a = array_size ?a - 1" "?n \<le> array_index_of p ?a"
    using arr.index_nth [OF a(1), of "length (elems (d_pipes s))"] a(2) b by (auto simp: array_size_elems)
  from arr.move_in [OF a(1) _ i(2)] a(2) array_swap_commute [OF a(1)] i(1) obtain a' where
    a': "array_swap ?n (array_size ?a - 1) ?a = Some a'" "array_ok a'" "length (elems a') = Suc (length (elems (d_pipes s)))"
    "set (elems a') = insert p (set (elems (d_pipes s)))" "take (Suc ?n) (elems a') = take ?n (elems (d_pipes s)) @ [p]" using b(4) by auto
  have t: "take k (elems a') = take k (elems (d_pipes s))" if "k \<le> ?n" for k
  proof -
    have "take k (elems a') = take k (take (Suc ?n) (elems a'))" using that by (simp add: min_def)
    also have "\<dots> = take k (elems (d_pipes s))" unfolding a'(5) using that b by (auto simp: min_def split: if_splits)
    finally show ?thesis .
  qed
  let ?s = "if d_more s then s\<lparr>d_pipes := a', d_eligible := d_eligible s + 1\<rparr>
    else s\<lparr>d_pipes := a', d_active := d_active s + 1, d_eligible := d_eligible s + 1\<rparr>"
  have "dist_attach p s = Some ?s" using a'(1) b(5) by (auto simp: dist_attach_def Let_def)
  moreover have s: "dist_ok ?s" "d_all ?s = insert p (d_all s)" "d_elig ?s = insert p (d_elig s)" "d_match ?s = d_match s"
    using a' b t [of "d_matching s"] by (simp_all add: dist_ok_def d_defs)
  moreover have "dist_pool ?s w"
    unfolding dist_pool_def s(2,3) using s(1) assms(1,3,4) by (auto simp: dist_pool_def)
  ultimately show ?thesis by blast
qed

lemma dist_match_ok:
  assumes "dist_pool s w" "\<not> d_more s" "p \<in> d_all s"
  shows "\<exists>s'. dist_match p s = Some s' \<and> dist_pool s' w \<and> d_all s' = d_all s \<and> d_elig s' = d_elig s \<and> \<not> d_more s' \<and>
    d_match s' = (if p \<in> d_elig s then insert p (d_match s) else d_match s)"
proof -
  let ?i = "array_index_of p (d_pipes s)"
  have b: "array_ok (d_pipes s)" "d_matching s \<le> d_eligible s" "d_active s = d_eligible s" "d_eligible s \<le> length (elems (d_pipes s))"
    using assms by (auto simp: dist_pool_def dist_ok_def d_elems_def)
  have p: "p \<in> set (elems (d_pipes s))" using assms(3) by (simp add: d_defs)
  have fr: "p \<in> d_elig s \<longleftrightarrow> ?i < d_eligible s" "p \<in> d_match s \<longleftrightarrow> ?i < d_matching s"
    using arr.in_front_iff [OF b(1) p] b by (auto simp: d_defs)
  show ?thesis
  proof (cases "?i < d_matching s \<or> d_eligible s \<le> ?i")
    case True
    then show ?thesis using assms fr by (auto simp: dist_match_def insert_absorb)
  next
    case False
    then obtain a' where a': "array_swap ?i (d_matching s) (d_pipes s) = Some a'" "array_ok a'" "length (elems a') = length (elems (d_pipes s))"
      "set (elems a') = set (elems (d_pipes s))" "take (Suc (d_matching s)) (elems a') = take (d_matching s) (elems (d_pipes s)) @ [p]"
      "\<forall>k > ?i. set (take k (elems a')) = set (take k (elems (d_pipes s)))" using arr.move_in [OF b(1) p, of "d_matching s"] by auto
    let ?s = "s\<lparr>d_pipes := a', d_matching := d_matching s + 1\<rparr>"
    have s: "dist_ok ?s" "d_all ?s = d_all s" "d_elig ?s = d_elig s" "d_match ?s = insert p (d_match s)"
      using a' b False assms(2) by (auto simp: dist_ok_def d_defs)
    moreover have "dist_pool ?s w" unfolding dist_pool_def s(2,3) using s(1) assms(1) by (auto simp: dist_pool_def)
    moreover have "dist_match p s = Some ?s" using a'(1) False by (auto simp: dist_match_def Let_def)
    ultimately show ?thesis using fr(1) False assms(2) by auto
  qed
qed

lemma dist_unmatch_ok: "dist_pool s w \<Longrightarrow> dist_pool (dist_unmatch s) w \<and> d_match (dist_unmatch s) = {} \<and>
    d_all (dist_unmatch s) = d_all s \<and> d_elig (dist_unmatch s) = d_elig s"
  by (auto simp: dist_pool_def dist_ok_def dist_unmatch_def d_defs)

lemma dist_activated_ok:
  assumes "dist_pool s w" "p \<in> d_all s" "p \<notin> d_elig s"
  shows "\<exists>s'. dist_activated p s = Some s' \<and> dist_pool s' w \<and> d_all s' = d_all s \<and> d_elig s' = insert p (d_elig s) \<and>
    d_match s' = d_match s"
proof -
  let ?i = "array_index_of p (d_pipes s)" and ?n = "d_eligible s"
  have b: "array_ok (d_pipes s)" "d_matching s \<le> d_active s" "d_active s \<le> ?n" "?n \<le> length (elems (d_pipes s))"
    "\<not> d_more s \<Longrightarrow> d_active s = ?n" using assms(1) by (auto simp: dist_pool_def dist_ok_def d_elems_def)
  have p: "p \<in> set (elems (d_pipes s))" using assms(2) by (simp add: d_defs)
  have i: "?n \<le> ?i" using arr.in_front_iff [OF b(1) p b(4)] assms(3) by (simp add: d_defs)
  have lt: "?n < length (elems (d_pipes s))" using i arr.index_less [OF b(1) p] by simp
  from arr.move_in [OF b(1) p i] obtain a where a: "array_swap ?i ?n (d_pipes s) = Some a" "array_ok a"
    "length (elems a) = length (elems (d_pipes s))" "set (elems a) = set (elems (d_pipes s))"
    "take (Suc ?n) (elems a) = take ?n (elems (d_pipes s)) @ [p]" by blast
  have t: "take k (elems a) = take k (elems (d_pipes s))" if "k \<le> ?n" for k
  proof -
    have "take k (elems a) = take k (take (Suc ?n) (elems a))" using that by (simp add: min_def)
    also have "\<dots> = take k (elems (d_pipes s))" unfolding a(5) using that b by (auto simp: min_def)
    finally show ?thesis .
  qed
  let ?s = "s\<lparr>d_pipes := a, d_eligible := ?n + 1, d_active := if d_more s then d_active s else d_active s + 1\<rparr>"
  have "dist_activated p s = Some ?s"
    using a(1,3) b(5) lt array_swap_self [OF a(2), of ?n] by (auto simp: dist_activated_def Let_def)
  moreover have s: "dist_ok ?s" "d_all ?s = d_all s" "d_elig ?s = insert p (d_elig s)" "d_match ?s = d_match s"
    using a b lt t [of "d_matching s"] by (simp_all add: dist_ok_def d_defs)
  moreover have "dist_pool ?s w" unfolding dist_pool_def s(2,3) using s(1) assms(1) by (auto simp: dist_pool_def)
  ultimately show ?thesis by blast
qed

text \<open>Leaving one of the parts when the pipe is in it.\<close>

lemma leave_part:
  assumes "array_ok a" "p \<in> set (elems a)" "n \<le> length (elems a)"
  shows "\<exists>a'. (if array_index_of p a < n then push_out p n a else Some a) = Some a' \<and> array_ok a' \<and>
    length (elems a') = length (elems a) \<and> set (elems a') = set (elems a) \<and>
    set (take (if array_index_of p a < n then n - 1 else n) (elems a')) = set (take n (elems a)) - {p} \<and>
    (if array_index_of p a < n then n - 1 else n) \<le> array_index_of p a' \<and>
    (array_index_of p a < n \<longrightarrow> array_index_of p a' < n) \<and>
    (n \<le> array_index_of p a \<longrightarrow> a' = a) \<and>
    (\<forall>k \<ge> n. set (take k (elems a')) = set (take k (elems a))) \<and>
    (\<forall>k \<le> array_index_of p a. take k (elems a') = take k (elems a))"
proof (cases "array_index_of p a < n")
  case True
  then show ?thesis using push_out_ok [OF assms(1,2) True assms(3)] by auto
next
  case False
  then show ?thesis using arr.in_front_iff [OF assms] assms by auto
qed

lemma dist_pipe_terminated_ok:
  assumes "dist_pool s w" "p \<in> d_all s"
  shows "\<exists>s'. dist_pipe_terminated p s = Some s' \<and> dist_pool s' w \<and> d_all s' = d_all s - {p} \<and> d_elig s' = d_elig s - {p} \<and>
    d_match s' = d_match s - {p}"
proof -
  let ?m = "d_matching s" and ?n = "d_active s" and ?e = "d_eligible s" and ?a = "d_pipes s"
  have b: "array_ok ?a" "?m \<le> ?n" "?n \<le> ?e" "?e \<le> length (elems ?a)" using assms(1) by (auto simp: dist_pool_def dist_ok_def d_elems_def)
  have p: "p \<in> set (elems ?a)" using assms(2) by (simp add: d_defs)
  let ?f = "\<lambda>n a. if array_index_of p a < n then n - 1 else n"
  from leave_part [OF b(1) p, of ?m] b obtain a1 where a1: "(if array_index_of p ?a < ?m then push_out p ?m ?a else Some ?a) = Some a1"
    "array_ok a1" "length (elems a1) = length (elems ?a)" "set (elems a1) = set (elems ?a)"
    "set (take (?f ?m ?a) (elems a1)) = set (take ?m (elems ?a)) - {p}" "?f ?m ?a \<le> array_index_of p a1"
    "array_index_of p ?a < ?m \<longrightarrow> array_index_of p a1 < ?m" "?m \<le> array_index_of p ?a \<longrightarrow> a1 = ?a"
    "\<forall>k \<ge> ?m. set (take k (elems a1)) = set (take k (elems ?a))" by auto
  have p1: "p \<in> set (elems a1)" using p a1(4) by simp
  from leave_part [OF a1(2) p1, of ?n] b a1(3) obtain a2 where a2: "(if array_index_of p a1 < ?n then push_out p ?n a1 else Some a1) = Some a2"
    "array_ok a2" "length (elems a2) = length (elems ?a)" "set (elems a2) = set (elems a1)"
    "set (take (?f ?n a1) (elems a2)) = set (take ?n (elems a1)) - {p}" "?f ?n a1 \<le> array_index_of p a2"
    "array_index_of p a1 < ?n \<longrightarrow> array_index_of p a2 < ?n" "?n \<le> array_index_of p a1 \<longrightarrow> a2 = a1"
    "\<forall>k \<ge> ?n. set (take k (elems a2)) = set (take k (elems a1))" "\<forall>k \<le> array_index_of p a1. take k (elems a2) = take k (elems a1)" by auto
  have p2: "p \<in> set (elems a2)" using p1 a2(4) by simp
  from leave_part [OF a2(2) p2, of ?e] b a2(3) obtain a3 where a3: "(if array_index_of p a2 < ?e then push_out p ?e a2 else Some a2) = Some a3"
    "array_ok a3" "length (elems a3) = length (elems ?a)" "set (elems a3) = set (elems a2)"
    "set (take (?f ?e a2) (elems a3)) = set (take ?e (elems a2)) - {p}" "?f ?e a2 \<le> array_index_of p a3"
    "\<forall>k \<le> array_index_of p a2. take k (elems a3) = take k (elems a2)" by auto
  have p3: "p \<in> set (elems a3)" using p2 a3(4) by simp
  from arr.remove [OF a3(2) p3] obtain a4 where a4: "array_erase p a3 = Some a4" "array_ok a4" "set (elems a4) = set (elems a3) - {p}"
    "length (elems a4) = length (elems a3) - 1" "\<forall>k \<le> array_index_of p a3. take k (elems a4) = take k (elems a3)" by blast
  let ?s = "s\<lparr>d_pipes := a4, d_matching := ?f ?m ?a, d_active := ?f ?n a1, d_eligible := ?f ?e a2\<rparr>"
  have run: "dist_pipe_terminated p s = Some ?s"
    using a1(1) a2(1) a3(1) a4(1) by (auto simp: dist_pipe_terminated_def split: if_splits)
  have le: "?f ?m ?a \<le> ?f ?n a1" "?f ?n a1 \<le> ?f ?e a2" "?f ?e a2 \<le> array_index_of p a3"
    using a1(6-8) a2(6-8) a3(6) b by (auto split: if_splits)
  have e: "take k (elems a4) = take k (elems a3)" if "k \<le> ?f ?e a2" for k using that le(3) a4(5) by auto
  have "set (take (?f ?m ?a) (elems a4)) = set (take ?m (elems ?a)) - {p}"
    using e [of "?f ?m ?a"] le a3(7) a2(6,10) a1(5,6) by auto
  moreover have "set (take (?f ?n a1) (elems a4)) = set (take ?n (elems ?a)) - {p}"
    using e [of "?f ?n a1"] le a3(7) a2(5,6) a1(9) b by auto
  moreover have "set (take (?f ?e a2) (elems a4)) = set (take ?e (elems ?a)) - {p}"
    using e [of "?f ?e a2"] a3(5) a2(9) a1(9) b by auto
  moreover have "set (elems a4) = set (elems ?a) - {p}" using a4(3) a3(4) a2(4) a1(4) by simp
  moreover have "?f ?e a2 \<le> length (elems a4)" using le(3) arr.index_less [OF a3(2) p3] a4(4) a3(3) by simp
  moreover have "?f ?n a1 = ?f ?e a2" if "?n = ?e" using that a2(7,8) by auto
  ultimately have s: "dist_ok ?s" "d_all ?s = d_all s - {p}" "d_elig ?s = d_elig s - {p}" "d_match ?s = d_match s - {p}"
    using le a4(2) assms(1) by (auto simp: dist_ok_def dist_pool_def d_defs)
  moreover have "dist_pool ?s w" unfolding dist_pool_def s(2,3) using s(1) assms(1) by (auto simp: dist_pool_def)
  ultimately show ?thesis using run by blast
qed

section \<open>Properties\<close>

lemma todo_set_0: "todo_set 0 s = d_match s"
  by (simp add: todo_set_def d_match_def)

lemma finite_d_match: "finite (d_match s)" by (simp add: d_match_def)

lemma dist_distribute_ok:
  assumes "dist_pool s w"
  shows "\<exists>k s' w'. dist_distribute lk vsm m s w = Some (k, s', w') \<and> offered lk m (d_match s) s w s' w' \<and>
    (\<not> vsm \<and> d_match s \<noteq> {} \<longrightarrow> 1 + k = int (card (d_match s - refusing w (d_match s))))"
proof (cases "d_matching s = 0")
  case True
  then show ?thesis using assms by (simp add: dist_distribute_def offered_def handed_def refusing_def d_match_def)
next
  case False
  from dist_loop_ok [OF assms, of 0 lk m 0] obtain s' w' where
    l: "dist_loop lk m 0 0 s w = Some (card (refusing w (d_match s)), s', w')" "offered lk m (d_match s) s w s' w'"
    by (auto simp: todo_set_0)
  have "distinct (take (d_matching s) (d_elems s))" "d_matching s \<le> length (d_elems s)"
    using assms arr.els_distinct by (auto simp: dist_pool_def dist_ok_def d_elems_def)
  then have "card (d_match s) = d_matching s" by (simp add: d_match_def distinct_card)
  moreover have "card (d_match s - refusing w (d_match s)) = card (d_match s) - card (refusing w (d_match s))"
    by (rule card_Diff_subset) (auto simp: refusing_def finite_d_match)
  moreover have "card (refusing w (d_match s)) \<le> card (d_match s)"
    by (rule card_mono) (auto simp: refusing_def finite_d_match)
  ultimately show ?thesis using l False by (auto simp: dist_distribute_def Let_def)
qed

lemma dist_send_ok:
  assumes "dist_pool s w"
  shows "\<exists>k s' w'. dist_send_to_matching lk vsm m s w = Some (k, s', w') \<and> dist_pool s' w' \<and> d_all s' = d_all s \<and>
    (\<forall>p. p \<notin> d_match s \<longrightarrow> heap_load w' p = heap_load w p) \<and>
    (\<forall>p \<in> d_match s. accepts w p \<longrightarrow> (\<exists>c c'. heap_load w p = Some c \<and> took (lk p) m c c' \<and> heap_load w' p = Some c')) \<and>
    d_match s' = {p \<in> d_match s. accepts w p} \<and> d_elig s' = d_elig s - {p \<in> d_match s. \<not> accepts w p} \<and>
    d_act s' = (if pm_more m then d_act s - {p \<in> d_match s. \<not> accepts w p} else d_elig s') \<and> d_more s' = pm_more m \<and>
    (\<not> vsm \<and> d_match s \<noteq> {} \<longrightarrow> 1 + k = int (card (d_match s')))"
proof -
  from dist_distribute_ok [OF assms, of lk vsm m] obtain k s1 w1 where
    d: "dist_distribute lk vsm m s w = Some (k, s1, w1)" "offered lk m (d_match s) s w s1 w1"
    "\<not> vsm \<and> d_match s \<noteq> {} \<longrightarrow> 1 + k = int (card (d_match s - refusing w (d_match s)))" by blast
  let ?s = "(if \<not> pm_more m then s1\<lparr>d_active := d_eligible s1\<rparr> else s1)\<lparr>d_more := pm_more m\<rparr>"
  have run: "dist_send_to_matching lk vsm m s w = Some (k, ?s, w1)" using d(1) by (simp add: dist_send_to_matching_def)
  have f: "d_all ?s = d_all s1" "d_match ?s = d_match s1" "d_elig ?s = d_elig s1" "d_more ?s = pm_more m"
    "d_act ?s = (if pm_more m then d_act s1 else d_elig s1)" by (auto simp: d_defs)
  have "dist_ok s1" using d(2) by (simp add: offered_def dist_pool_def)
  then have "dist_ok ?s" by (auto simp: dist_ok_def d_defs)
  moreover have "dist_pool s1 w1" using d(2) by (simp add: offered_def)
  ultimately have "dist_pool ?s w1" unfolding dist_pool_def f by blast
  moreover have "d_match s1 = {p \<in> d_match s. accepts w p}" using d(2) by (auto simp: offered_def refusing_def)
  ultimately show ?thesis unfolding run using d(2,3) f by (auto simp: offered_def handed_def refusing_def)
qed

text \<open>C39: Distribution: a message is offered to every matching pipe; each of those that accept has taken it
  once (flushed after the last part), each of those that refuse is no longer eligible, no other
  pipe is touched; after the last part all eligible pipes are active again; and the reference count
  of a shared message ends at the number of pipes that took it.\<close>

theorem dist_delivers:
  assumes "dist_pool s w"
  shows "\<exists>k s' w'. dist_send_to_matching lk vsm m s w = Some (k, s', w') \<and> dist_pool s' w' \<and> d_all s' = d_all s \<and>
    (\<forall>p. p \<notin> d_match s \<longrightarrow> heap_load w' p = heap_load w p) \<and>
    (\<forall>p \<in> d_match s. accepts w p \<longrightarrow> (\<exists>c c'. heap_load w p = Some c \<and> took (lk p) m c c' \<and> heap_load w' p = Some c')) \<and>
    d_match s' = {p \<in> d_match s. accepts w p} \<and> d_elig s' = d_elig s - {p \<in> d_match s. \<not> accepts w p} \<and>
    d_act s' = (if pm_more m then d_act s - {p \<in> d_match s. \<not> accepts w p} else d_elig s') \<and> d_more s' = pm_more m \<and>
    (\<not> vsm \<and> d_match s \<noteq> {} \<longrightarrow> 1 + k = int (card (d_match s')))"
  by (rule dist_send_ok [OF assms])

subsection \<open>Witness\<close>

text \<open>Three pipes with watermark 1; the second one is full.\<close>

definition pub_pool :: pool where
  "pub_pool = [Some (sock_pipe [] 1), Some ((sock_pipe [] 1)\<lparr>pe := (pipe_new 0 1 1 1 False)\<lparr>msgs_written := 1\<rparr>\<rparr>), Some (sock_pipe [] 1)]"

definition pub_dist :: dist where
  "pub_dist = \<lparr>d_pipes = array_of [0, 1, 2], d_matching = 2, d_active = 3, d_eligible = 3, d_more = False\<rparr>"

lemma pub_dist_pool: "dist_pool pub_dist pub_pool"
proof -
  have "array_ok (array_of [0, 1, 2])" "elems (array_of [0, 1, 2]) = [0, 1, 2]" using array_of_ok [of "[0, 1, 2]"] by auto
  moreover have "ctx_ok ((sock_pipe [] 1)\<lparr>pe := (pipe_new 0 1 1 1 False)\<lparr>msgs_written := 1\<rparr>\<rparr>)"
    using sock_pipe_ok [of "[]" 1] by (simp add: ctx_ok_def sock_pipe_def pipe_new_def live_def)
  ultimately show ?thesis
    by (simp add: dist_pool_def dist_ok_def pub_dist_def d_defs pub_pool_def heap_load_def sock_pipe_ok)
qed

theorem dist_delivers_witness:
  "\<exists>s' w'. dist_send_to_matching (\<lambda>_. True) False (whole 5) pub_dist pub_pool = Some (0, s', w') \<and> dist_pool s' w' \<and>
     d_match s' = {0} \<and> heap_load w' 2 = heap_load pub_pool 2"
proof -
  have m: "d_match pub_dist = {0, 1}" using array_of_ok [of "[0, 1, 2]"] by (simp add: d_defs pub_dist_def)
  have acc: "{p \<in> d_match pub_dist. accepts pub_pool p} = {0}"
    unfolding m by (auto simp: accepts_iff pub_pool_def heap_load_def sock_pipe_def pipe_new_def pipe_check_write_def)
  from dist_delivers [OF pub_dist_pool, of "\<lambda>_. True" False "whole 5"] show ?thesis
    unfolding acc unfolding m by force
qed

end
