(* ===== verification/Roundrobin.thy ===== *)
theory Roundrobin
  imports Pool
begin

text \<open>
  What \<open>fq_t\<close> (src/libzmq/src/fq.cpp) and \<open>lb_t\<close> (src/libzmq/src/lb.cpp) have in common: an array of pipes
  whose first \<open>active\<close> items are the active ones, the \<open>current\<close> one among these, and a loop that tries
  the current pipe and retires it when it refuses.
\<close>

section \<open>The code\<close>

record rr =
  rr_pipes :: array
  rr_active :: nat
  rr_current :: nat
  rr_more :: bool

text \<open>\<open>active--; pipes.swap (i, active); if (current == active) current = 0;\<close>\<close>

definition rr_retire :: "nat \<Rightarrow> 'x rr_scheme \<Rightarrow> 'x rr_scheme option" where
  "rr_retire i s =
     do { let n = rr_active s - 1;
          a \<leftarrow> array_swap i n (rr_pipes s);
          Some (s\<lparr>rr_pipes := a, rr_active := n, rr_current := if rr_current s = n then 0 else rr_current s\<rparr>) }"

definition rr_deactivate :: "'x rr_scheme \<Rightarrow> 'x rr_scheme option" where
  "rr_deactivate s = rr_retire (rr_current s) s"

text \<open>Move the pipe to the active pipes.\<close>

definition rr_activated :: "addr \<Rightarrow> 'x rr_scheme \<Rightarrow> 'x rr_scheme option" where
  "rr_activated p s =
     do { a \<leftarrow> array_swap (array_index_of p (rr_pipes s)) (rr_active s) (rr_pipes s);
          Some (s\<lparr>rr_pipes := a, rr_active := rr_active s + 1\<rparr>) }"

text \<open>The common part of \<open>pipe_terminated\<close>.\<close>

definition rr_remove :: "addr \<Rightarrow> 'x rr_scheme \<Rightarrow> 'x rr_scheme option" where
  "rr_remove p s =
     do { let i = array_index_of p (rr_pipes s);
          s \<leftarrow> (if i < rr_active s then rr_retire i s else Some s);
          a \<leftarrow> array_erase p (rr_pipes s);
          Some (s\<lparr>rr_pipes := a\<rparr>) }"

text \<open>The loop: try the current pipe, retire it if it refuses. In the middle of a message no
  pipe may refuse.\<close>

partial_function (option) rr_scan ::
  "('x rr_scheme \<Rightarrow> 'x rr_scheme option) \<Rightarrow> ('c \<Rightarrow> ('r \<times> 'c) option) \<Rightarrow> ('r \<Rightarrow> bool) \<Rightarrow>
   'x rr_scheme \<Rightarrow> 'c heap \<Rightarrow> ((addr \<times> 'r) option \<times> 'x rr_scheme \<times> 'c heap) option" where
  "rr_scan deact op hit s w =
     (if rr_active s = 0 then Some (None, s, w)
      else do { p \<leftarrow> array_at (rr_pipes s) (rr_current s);
                (r, w) \<leftarrow> pool_op p op w;
                if hit r then Some (Some (p, r), s, w)
                else do { zmq_assert (\<not> rr_more s); s \<leftarrow> deact s; rr_scan deact op hit s w } })"

declare rr_scan.simps [code]

section \<open>The invariant\<close>

definition rr_ok :: "'x rr_scheme \<Rightarrow> bool" where
  "rr_ok s \<longleftrightarrow> array_ok (rr_pipes s) \<and> rr_active s \<le> length (elems (rr_pipes s)) \<and>
     (if rr_active s = 0 then rr_current s = 0 else rr_current s < rr_active s)"

definition rr_all :: "'x rr_scheme \<Rightarrow> addr set" where "rr_all s = set (elems (rr_pipes s))"

definition rr_act :: "'x rr_scheme \<Rightarrow> addr set" where "rr_act s = set (take (rr_active s) (elems (rr_pipes s)))"

definition rr_cur :: "'x rr_scheme \<Rightarrow> addr" where "rr_cur s = elems (rr_pipes s) ! rr_current s"

lemma rr_act_all: "rr_act s \<subseteq> rr_all s"
  by (auto simp: rr_act_def rr_all_def dest: in_set_takeD)

lemma rr_cur_act: "rr_ok s \<Longrightarrow> 0 < rr_active s \<Longrightarrow> rr_cur s \<in> rr_act s"
  by (auto simp: rr_ok_def rr_cur_def rr_act_def in_set_conv_nth split: if_splits intro!: exI [of _ "rr_current s"])

lemma rr_cur_at: "rr_ok s \<Longrightarrow> 0 < rr_active s \<Longrightarrow> array_at (rr_pipes s) (rr_current s) = Some (rr_cur s)"
  by (simp add: rr_ok_def rr_cur_def array_at_nth)

lemma rr_index_cur: "rr_ok s \<Longrightarrow> rr_cur s \<in> rr_all s \<Longrightarrow> array_index_of (rr_cur s) (rr_pipes s) = rr_current s"
  using arr.index_nth [of "rr_pipes s" "rr_current s"] length_pos_if_in_set [of "rr_cur s" "elems (rr_pipes s)"]
  by (auto simp: rr_ok_def rr_cur_def rr_all_def split: if_splits)

lemma rr_act_empty: "rr_ok s \<Longrightarrow> rr_act s = {} \<longleftrightarrow> rr_active s = 0"
  by (auto simp: rr_act_def rr_ok_def)

lemma rr_retire_ok:
  assumes "rr_ok s" "i < rr_active s"
  shows "\<exists>s'. rr_retire i s = Some s' \<and> rr_ok s' \<and> rr_active s' = rr_active s - 1 \<and> rr_all s' = rr_all s \<and>
    rr_act s' = rr_act s - {elems (rr_pipes s) ! i} \<and> rr_more s' = rr_more s \<and> rr.more s' = rr.more s"
proof -
  have "array_ok (rr_pipes s)" "rr_active s \<le> length (elems (rr_pipes s))" and c: "rr_current s < rr_active s"
    using assms by (auto simp: rr_ok_def split: if_splits)
  from arr.move_out [OF this(1) assms(2) this(2)] obtain a where a: "array_swap i (rr_active s - 1) (rr_pipes s) = Some a" "array_ok a"
    "length (elems a) = length (elems (rr_pipes s))" "set (elems a) = set (elems (rr_pipes s))"
    "set (take (rr_active s - 1) (elems a)) = set (take (rr_active s) (elems (rr_pipes s))) - {elems (rr_pipes s) ! i}"
    by blast
  show ?thesis using a c assms(1)
    by (auto simp: rr_retire_def Let_def rr_ok_def rr_all_def rr_act_def intro!: exI)
qed

lemma rr_deactivate_ok:
  assumes "rr_ok s" "0 < rr_active s"
  shows "\<exists>s'. rr_deactivate s = Some s' \<and> rr_ok s' \<and> rr_active s' = rr_active s - 1 \<and> rr_all s' = rr_all s \<and>
    rr_act s' = rr_act s - {rr_cur s} \<and> rr_more s' = rr_more s \<and> rr.more s' = rr.more s"
  using rr_retire_ok [of s "rr_current s"] assms by (auto simp: rr_deactivate_def rr_cur_def rr_ok_def)

lemma rr_activated_ok:
  assumes "rr_ok s" "p \<in> rr_all s" "p \<notin> rr_act s"
  shows "\<exists>s'. rr_activated p s = Some s' \<and> rr_ok s' \<and> rr_all s' = rr_all s \<and> rr_act s' = insert p (rr_act s) \<and>
    rr_more s' = rr_more s \<and> rr.more s' = rr.more s \<and> rr_active s' = rr_active s + 1 \<and> rr_current s' = rr_current s \<and>
    take (rr_active s + 1) (elems (rr_pipes s')) = take (rr_active s) (elems (rr_pipes s)) @ [p]"
proof -
  have ok: "array_ok (rr_pipes s)" and p: "p \<in> set (elems (rr_pipes s))" and n: "rr_active s \<le> length (elems (rr_pipes s))"
    using assms by (auto simp: rr_ok_def rr_all_def)
  have i: "rr_active s \<le> array_index_of p (rr_pipes s)"
    using arr.in_front_iff [OF ok p n] assms(3) by (simp add: rr_act_def)
  have lt: "rr_active s < length (elems (rr_pipes s))" using i arr.index_less [OF ok p] by simp
  from arr.move_in [OF ok p i] obtain a where "array_swap (array_index_of p (rr_pipes s)) (rr_active s) (rr_pipes s) = Some a"
    "array_ok a" "length (elems a) = length (elems (rr_pipes s))" "set (elems a) = set (elems (rr_pipes s))"
    "take (Suc (rr_active s)) (elems a) = take (rr_active s) (elems (rr_pipes s)) @ [p]" by blast
  then show ?thesis using assms lt by (auto simp: rr_activated_def rr_ok_def rr_all_def rr_act_def split: if_splits)
qed

lemma rr_push_ok:
  fixes s :: "'x rr_scheme" and p
  defines "s1 \<equiv> s\<lparr>rr_pipes := array_push_back (Some p) (rr_pipes s)\<rparr>"
  assumes "rr_ok s" "p \<notin> rr_all s"
  shows "rr_ok s1 \<and> rr_all s1 = insert p (rr_all s) \<and> rr_act s1 = rr_act s \<and>
    array_index_of p (rr_pipes s1) = array_size (rr_pipes s1) - 1"
proof -
  let ?a = "array_push_back (Some p) (rr_pipes s)"
  have a: "array_ok ?a" "elems ?a = elems (rr_pipes s) @ [p]"
    using assms arr.push_ok arr.push_els by (auto simp: rr_ok_def rr_all_def)
  have "array_index_of p ?a = array_size ?a - 1"
    using arr.index_nth [OF a(1), of "length (elems (rr_pipes s))"] a(2) by (simp add: array_size_elems)
  then show ?thesis using assms(2) a by (simp add: s1_def rr_ok_def rr_all_def rr_act_def split: if_splits)
qed

lemma rr_push_activated:
  assumes "rr_ok s" "p \<notin> rr_all s"
  shows "\<exists>s'. rr_activated p (s\<lparr>rr_pipes := array_push_back (Some p) (rr_pipes s)\<rparr>) = Some s' \<and> rr_ok s' \<and>
    rr_all s' = insert p (rr_all s) \<and> rr_act s' = insert p (rr_act s) \<and> rr_more s' = rr_more s \<and> rr.more s' = rr.more s"
  using rr_push_ok [OF assms] rr_activated_ok [of "s\<lparr>rr_pipes := array_push_back (Some p) (rr_pipes s)\<rparr>" p]
    assms(2) rr_act_all [of s] by auto

lemma rr_remove_ok:
  assumes "rr_ok s" "p \<in> rr_all s"
  shows "\<exists>s'. rr_remove p s = Some s' \<and> rr_ok s' \<and> rr_all s' = rr_all s - {p} \<and> rr_act s' = rr_act s - {p} \<and>
    rr_more s' = rr_more s \<and> rr.more s' = rr.more s"
proof -
  have ok: "array_ok (rr_pipes s)" and p: "p \<in> set (elems (rr_pipes s))" and n: "rr_active s \<le> length (elems (rr_pipes s))"
    using assms by (auto simp: rr_ok_def rr_all_def)
  let ?i = "array_index_of p (rr_pipes s)"
  obtain s1 where s1: "(if ?i < rr_active s then rr_retire ?i s else Some s) = Some s1" "rr_ok s1" "rr_all s1 = rr_all s"
      "rr_act s1 = rr_act s - {p}" "rr_more s1 = rr_more s" "rr.more s1 = rr.more s"
  proof (cases "?i < rr_active s")
    case True
    then show thesis using that rr_retire_ok [OF assms(1) True] arr.nth_index [OF ok p] by auto
  next
    case False
    then show thesis using that [of s] assms(1) arr.in_front_iff [OF ok p n] by (auto simp: rr_act_def)
  qed
  have ok1: "array_ok (rr_pipes s1)" and p1: "p \<in> set (elems (rr_pipes s1))" and n1: "rr_active s1 \<le> length (elems (rr_pipes s1))"
    using s1 assms by (auto simp: rr_ok_def rr_all_def)
  have i1: "rr_active s1 \<le> array_index_of p (rr_pipes s1)"
    using arr.in_front_iff [OF ok1 p1 n1] s1(4) by (simp add: rr_act_def)
  from arr.remove [OF ok1 p1] obtain a where "array_erase p (rr_pipes s1) = Some a" "array_ok a"
    "set (elems a) = set (elems (rr_pipes s1)) - {p}" "length (elems a) = length (elems (rr_pipes s1)) - 1"
    "take (rr_active s1) (elems a) = take (rr_active s1) (elems (rr_pipes s1))" using i1 by blast
  then show ?thesis using s1 i1 arr.index_less [OF ok1 p1]
    by (auto simp: rr_remove_def rr_ok_def rr_all_def rr_act_def split: if_splits)
qed

section \<open>The loop\<close>

lemma rr_scan_hit:
  assumes "rr_ok s" "0 < rr_active s" "heap_load w (rr_cur s) = Some c" "op c = Some (r, c')" "hit r"
  shows "\<exists>w'. rr_scan deact op hit s w = Some (Some (rr_cur s, r), s, w') \<and> heap_load w' = (heap_load w)(rr_cur s \<mapsto> c')"
  using pool_op_at [of w "rr_cur s" c op r c', OF assms(3,4)] rr_cur_at [OF assms(1,2)] assms(2,5)
  by (subst rr_scan.simps) auto

text \<open>A pipe outside the active part is closed for the operation of the loop.\<close>

definition rr_pool :: "('c \<Rightarrow> bool) \<Rightarrow> ('c \<Rightarrow> bool) \<Rightarrow> 'x rr_scheme \<Rightarrow> 'c heap \<Rightarrow> bool" where
  "rr_pool opened ok s w \<longleftrightarrow> rr_ok s \<and>
     (\<forall>p \<in> rr_all s. \<exists>c. heap_load w p = Some c \<and> ok c \<and> (p \<notin> rr_act s \<longrightarrow> \<not> opened c))"

lemma rr_pool_ok: "rr_pool opened ok s w \<Longrightarrow> rr_ok s"
  by (simp add: rr_pool_def)

lemma rr_pool_insert:
  "rr_pool opened ok s w \<Longrightarrow> rr_ok s' \<Longrightarrow> rr_all s' = insert p (rr_all s) \<Longrightarrow> rr_act s' = insert p (rr_act s) \<Longrightarrow>
   heap_load w p = Some c \<Longrightarrow> ok c \<Longrightarrow> rr_pool opened ok s' w"
  unfolding rr_pool_def by simp blast

lemma rr_pool_remove:
  "rr_pool opened ok s w \<Longrightarrow> rr_ok s' \<Longrightarrow> rr_all s' = rr_all s - {p} \<Longrightarrow> rr_act s' = rr_act s - {p} \<Longrightarrow> rr_pool opened ok s' w"
  unfolding rr_pool_def by simp

text \<open>What a pass of the loop leaves behind: the pipes that left the active part have refused.\<close>

definition rr_passed :: "('c \<Rightarrow> bool) \<Rightarrow> 'x rr_scheme \<Rightarrow> 'c heap \<Rightarrow> 'x rr_scheme \<Rightarrow> 'c heap \<Rightarrow> bool" where
  "rr_passed opened s w s' w' \<longleftrightarrow> rr_all s' = rr_all s \<and> rr_act s' \<subseteq> rr_act s \<and> rr_more s' = rr_more s \<and>
     rr.more s' = rr.more s \<and> (\<forall>p. p \<notin> rr_act s \<longrightarrow> heap_load w' p = heap_load w p) \<and>
     (\<forall>p \<in> rr_act s - rr_act s'. \<exists>c. heap_load w' p = Some c \<and> \<not> opened c)"

text \<open>The outcome: every active pipe has refused, or the current one has served the call and
  those that stay active beside it were not touched.\<close>

definition rr_result ::
  "('c \<Rightarrow> ('r \<times> 'c) option) \<Rightarrow> ('r \<Rightarrow> bool) \<Rightarrow> 'c heap \<Rightarrow> (addr \<times> 'r) option \<Rightarrow> 'x rr_scheme \<Rightarrow> 'c heap \<Rightarrow> bool" where
  "rr_result op hit w res s' w' =
     (case res of None \<Rightarrow> rr_active s' = 0
      | Some (p, r) \<Rightarrow> hit r \<and> 0 < rr_active s' \<and> p = rr_cur s' \<and>
          (\<exists>c c'. heap_load w p = Some c \<and> op c = Some (r, c') \<and> heap_load w' p = Some c') \<and>
          (\<forall>q \<in> rr_act s' - {p}. heap_load w' q = heap_load w q))"

context gate
begin

lemma scan:
  assumes "rr_pool opened ok s w" "\<And>s. rr_ok s \<Longrightarrow> 0 < rr_active s \<Longrightarrow> deact s = rr_deactivate s"
    "rr_more s \<Longrightarrow> 0 < rr_active s \<Longrightarrow> (\<forall>c r c'. heap_load w (rr_cur s) = Some c \<longrightarrow> op c = Some (r, c') \<longrightarrow> hit r)"
  shows "\<exists>res s' w'. rr_scan deact op hit s w = Some (res, s', w') \<and> rr_pool opened ok s' w' \<and> rr_passed opened s w s' w' \<and>
    rr_result op hit w res s' w' \<and> (rr_more s \<and> 0 < rr_active s \<longrightarrow> res \<noteq> None \<and> s' = s)"
  using assms(1,3)
proof (induction "rr_active s" arbitrary: s w)
  case 0
  then show ?case by (subst rr_scan.simps) (auto simp: rr_passed_def rr_result_def)
next
  case (Suc n)
  then have pos: "0 < rr_active s" and ok: "rr_ok s" by (auto simp: rr_pool_def)
  have cur: "rr_cur s \<in> rr_act s" "rr_cur s \<in> rr_all s" using rr_cur_act [OF ok pos] rr_act_all by auto
  with Suc.prems(1) obtain c where c: "heap_load w (rr_cur s) = Some c" "ok c" by (auto simp: rr_pool_def)
  from op_total [OF c(2)] obtain r c' where r: "op c = Some (r, c')" "ok c'" by blast
  from pool_op_at [of w "rr_cur s" c op r c', OF c(1) r(1)] obtain w1 where
    w1: "pool_op (rr_cur s) op w = Some (r, w1)" "heap_load w1 = (heap_load w)(rr_cur s \<mapsto> c')" by blast
  show ?case
  proof (cases "hit r")
    case True
    have "rr_scan deact op hit s w = Some (Some (rr_cur s, r), s, w1)"
      using pos True w1 rr_cur_at [OF ok pos] by (subst rr_scan.simps) simp
    moreover have "rr_pool opened ok s w1" using Suc.prems(1) w1(2) r(2) cur by (auto simp: rr_pool_def)
    moreover have "rr_passed opened s w s w1" using w1(2) cur by (auto simp: rr_passed_def)
    ultimately show ?thesis using True pos w1(2) c(1) r(1) by (auto simp: rr_result_def)
  next
    case False
    then have nm: "\<not> rr_more s" using Suc.prems(2) pos c(1) r(1) by blast
    have cl: "\<not> opened c'" using miss_closes [OF r(1) False] .
    from rr_deactivate_ok [OF ok pos] obtain s1 where s1: "rr_deactivate s = Some s1" "rr_ok s1" "rr_active s1 = rr_active s - 1"
      "rr_all s1 = rr_all s" "rr_act s1 = rr_act s - {rr_cur s}" "rr_more s1 = rr_more s" "rr.more s1 = rr.more s" by blast
    have p1: "rr_pool opened ok s1 w1" using Suc.prems(1) s1 w1(2) r(2) cl by (auto simp: rr_pool_def)
    have "rr_scan deact op hit s w = rr_scan deact op hit s1 w1"
      using pos False nm w1 s1(1) rr_cur_at [OF ok pos] assms(2) [OF ok pos] by (subst rr_scan.simps) simp
    moreover have n: "n = rr_active s1" using Suc.hyps(2) s1(3) by simp
    moreover obtain res s' w' where *: "rr_scan deact op hit s1 w1 = Some (res, s', w')" "rr_pool opened ok s' w'"
        "rr_passed opened s1 w1 s' w'" "rr_result op hit w1 res s' w'"
      using Suc.hyps(1) [of s1 w1, OF n p1] s1(6) nm by auto
    have sub: "rr_act s' \<subseteq> rr_act s - {rr_cur s}" "heap_load w' (rr_cur s) = Some c'"
      using *(3) s1(5) w1(2) by (auto simp: rr_passed_def)
    have "rr_passed opened s w s' w'"
      using *(3) s1 w1(2) cl cur sub unfolding rr_passed_def by (auto; metis Diff_iff singletonD)
    moreover have "rr_cur s' \<in> rr_act s'" if "0 < rr_active s'" using rr_cur_act that *(2) by (auto simp: rr_pool_def)
    moreover from this *(4) sub w1(2) have "rr_result op hit w res s' w'"
      by (cases res) (auto simp: rr_result_def split: if_splits)
    ultimately show ?thesis using * nm by auto
  qed
qed

end

text \<open>A pipe was tried once by the loop and refused: what the operation did to it is all that changed.\<close>

definition rr_missed :: "('c \<Rightarrow> ('r \<times> 'c) option) \<Rightarrow> ('r \<Rightarrow> bool) \<Rightarrow> 'c heap \<Rightarrow> 'c heap \<Rightarrow> addr \<Rightarrow> bool" where
  "rr_missed op hit w w' p \<longleftrightarrow>
     (\<exists>c r c'. heap_load w p = Some c \<and> op c = Some (r, c') \<and> \<not> hit r \<and> heap_load w' p = Some c')"

context gate
begin

text \<open>When the loop returned, its assertion has held.\<close>

lemma scan_returned:
  assumes "rr_pool opened ok s w" "\<And>s. rr_ok s \<Longrightarrow> 0 < rr_active s \<Longrightarrow> deact s = rr_deactivate s"
    and ret: "rr_scan deact op hit s w = Some (res, s', w')"
  shows "rr_pool opened ok s' w' \<and> rr_passed opened s w s' w' \<and> rr_result op hit w res s' w'"
proof -
  have "hit r" if "rr_more s" "0 < rr_active s" "heap_load w (rr_cur s) = Some c" "op c = Some (r, c')" for c r c'
  proof (rule ccontr)
    assume "\<not> hit r"
    moreover have "rr_ok s" using assms(1) by (rule rr_pool_ok)
    moreover from pool_op_at [of w "rr_cur s" c op r c', OF that(3,4)] obtain w1 where
      "pool_op (rr_cur s) op w = Some (r, w1)" by blast
    ultimately have "rr_scan deact op hit s w = None"
      using that(1,2) rr_cur_at [of s] by (subst rr_scan.simps) simp
    then show False using ret by simp
  qed
  then show ?thesis using scan [OF assms(1,2)] ret by fastforce
qed

text \<open>A pipe that left the active part was asked in the state it had before the call.\<close>

lemma scan_retired:
  assumes ret: "rr_scan deact op hit s w = Some (res, s', w')" and inv: "rr_pool opened ok s w"
    and deact: "\<And>s. rr_ok s \<Longrightarrow> 0 < rr_active s \<Longrightarrow> deact s = rr_deactivate s"
    and p: "p \<in> rr_act s" "p \<notin> rr_act s'"
  shows "rr_missed op hit w w' p"
  using ret inv p(1)
proof (induction "rr_active s" arbitrary: s w)
  case 0
  then show ?case by (simp add: rr_act_def)
next
  case (Suc n)
  then have pos: "0 < rr_active s" and rok: "rr_ok s" by (auto simp: rr_pool_def)
  have cur: "rr_cur s \<in> rr_act s" "rr_cur s \<in> rr_all s" using rr_cur_act [OF rok pos] rr_act_all by auto
  with Suc.prems(2) obtain c where c: "heap_load w (rr_cur s) = Some c" "ok c" by (auto simp: rr_pool_def)
  from op_total [OF c(2)] obtain r c' where r: "op c = Some (r, c')" "ok c'" by blast
  from pool_op_at [of w "rr_cur s" c op r c', OF c(1) r(1)] obtain w1 where
    w1: "pool_op (rr_cur s) op w = Some (r, w1)" "heap_load w1 = (heap_load w)(rr_cur s \<mapsto> c')" by blast
  have miss: "\<not> hit r"
  proof
    assume "hit r"
    then have "s' = s" using Suc.prems(1) pos w1(1) rr_cur_at [OF rok pos] by (subst (asm) rr_scan.simps) simp
    then show False using Suc.prems(3) p(2) by simp
  qed
  from rr_deactivate_ok [OF rok pos] obtain s1 where s1: "rr_deactivate s = Some s1" "rr_ok s1" "rr_active s1 = rr_active s - 1"
    "rr_all s1 = rr_all s" "rr_act s1 = rr_act s - {rr_cur s}" by blast
  have inv1: "rr_pool opened ok s1 w1" using Suc.prems(2) s1 w1(2) r(2) miss_closes [OF r(1) miss] by (auto simp: rr_pool_def)
  have ret1: "rr_scan deact op hit s1 w1 = Some (res, s', w')"
    using Suc.prems(1) pos miss w1(1) s1(1) rr_cur_at [OF rok pos] deact [OF rok pos]
    by (subst (asm) rr_scan.simps) (cases "rr_more s"; simp)
  show ?case
  proof (cases "p = rr_cur s")
    case True
    have "heap_load w' p = Some c'"
      using scan_returned [OF inv1 deact ret1] s1(5) True w1(2) by (auto simp: rr_passed_def)
    then show ?thesis using True c(1) r(1) miss by (auto simp: rr_missed_def)
  next
    case False
    then have "rr_missed op hit w1 w' p"
      using Suc.hyps(1) [of s1 w1] Suc.hyps(2) s1(3,5) ret1 inv1 Suc.prems(3) by simp
    then show ?thesis using False w1(2) by (simp add: rr_missed_def)
  qed
qed

text \<open>Every pipe but the one that served was not touched or has refused; if none served, all have refused.\<close>

lemma scan_others:
  assumes ret: "rr_scan deact op hit s w = Some (res, s', w')" and inv: "rr_pool opened ok s w"
    and deact: "\<And>s. rr_ok s \<Longrightarrow> 0 < rr_active s \<Longrightarrow> deact s = rr_deactivate s"
  shows "res = None \<Longrightarrow> q \<in> rr_all s \<Longrightarrow> rr_missed op hit w w' q"
    and "res = Some (p, r) \<Longrightarrow> q \<noteq> p \<Longrightarrow> heap_load w' q = heap_load w q \<or> q \<in> rr_act s \<and> rr_missed op hit w w' q"
proof -
  note r = scan_returned [OF inv deact ret]
  show "rr_missed op hit w w' q" if "res = None" "q \<in> rr_all s"
  proof (cases "q \<in> rr_act s")
    case True
    then show ?thesis using scan_retired [OF ret inv deact True] r that(1) by (simp add: rr_result_def rr_act_def)
  next
    case False
    with inv that(2) obtain c where c: "heap_load w q = Some c" "ok c" "\<not> opened c" by (auto simp: rr_pool_def)
    with op_total closed_misses obtain x where "op c = Some (x, c)" "\<not> hit x" by metis
    then show ?thesis using c(1) False r by (auto simp: rr_missed_def rr_passed_def)
  qed
  show "heap_load w' q = heap_load w q \<or> q \<in> rr_act s \<and> rr_missed op hit w w' q" if "res = Some (p, r)" "q \<noteq> p"
  proof (cases "q \<in> rr_act s \<and> q \<notin> rr_act s'")
    case True
    then show ?thesis using scan_retired [OF ret inv deact] by simp
  next
    case False
    then show ?thesis using r that by (auto simp: rr_passed_def rr_result_def)
  qed
qed

end

text \<open>When another pipe than the current one is removed while the current one is the last active
  pipe, the current index falls back to 0.\<close>

lemma rr_remove_switches:
  assumes "rr_ok s" "p \<in> rr_act s" "p \<noteq> rr_cur s" "rr_current s = rr_active s - 1" "0 < array_index_of p (rr_pipes s)"
  shows "\<exists>s'. rr_remove p s = Some s' \<and> rr_cur s' = elems (rr_pipes s) ! 0 \<and> rr_cur s' \<noteq> rr_cur s \<and> rr_cur s \<in> rr_act s'"
proof -
  let ?E = "elems (rr_pipes s)" and ?i = "array_index_of p (rr_pipes s)" and ?n = "rr_active s - 1"
  have ok: "array_ok (rr_pipes s)" and n: "rr_active s \<le> length ?E" and p: "p \<in> set ?E"
    using assms(1,2) by (auto simp: rr_ok_def rr_act_def dest: in_set_takeD)
  have i: "?i < rr_active s" using arr.in_front_iff [OF ok p n] assms(2) by (simp add: rr_act_def)
  from arr.move_out [OF ok i n] obtain a where a: "array_swap ?i ?n (rr_pipes s) = Some a" "array_ok a"
    "length (elems a) = length ?E" "set (elems a) = set ?E" "set (take ?n (elems a)) = set (take (rr_active s) ?E) - {?E ! ?i}"
    "\<forall>k \<le> ?i. take k (elems a) = take k ?E" by blast
  have pi: "?E ! ?i = p" by (rule arr.nth_index [OF ok p])
  have pa: "p \<in> set (elems a)" "p \<notin> set (take ?n (elems a))" using a(4,5) p pi by auto
  have j: "?n \<le> array_index_of p a"
    using arr.in_front_iff [OF a(2) pa(1), of ?n] pa(2) a(3) n by auto
  from arr.remove [OF a(2) pa(1)] obtain b where b: "array_erase p a = Some b" "\<forall>k \<le> array_index_of p a. take k (elems b) = take k (elems a)"
    by blast
  let ?s = "s\<lparr>rr_pipes := b, rr_active := ?n, rr_current := 0\<rparr>"
  have "rr_remove p s = Some ?s" using a(1) b(1) i assms(4) by (simp add: rr_remove_def rr_retire_def Let_def)
  moreover have "0 < ?n" using i assms(5) by simp
  then have "take 1 (elems b) = take 1 ?E" using a(6) b(2) j assms(5) by (metis One_nat_def Suc_leI order_trans)
  then have h: "elems b ! 0 = ?E ! 0" using n \<open>0 < ?n\<close> by (metis nth_take zero_less_one)
  moreover have "?E ! 0 \<noteq> rr_cur s"
    using nth_eq_iff_index_eq [OF arr.els_distinct [OF ok], of 0 ?n] \<open>0 < ?n\<close> n assms(4)
    by (cases "?E = []") (auto simp: rr_cur_def)
  moreover have "rr_cur s \<in> set (take ?n (elems b))"
    using b(2) j a(5) pi rr_cur_act [OF assms(1)] i assms(3) by (auto simp: rr_act_def)
  ultimately show ?thesis by (auto simp: rr_cur_def rr_act_def)
qed

end
