(* ===== verification/Fq.thy ===== *)
theory Fq
  imports Roundrobin
begin

text \<open>
  \<open>fq_t\<close> (src/libzmq/src/fq.cpp): fair queueing over the inbound pipes of a socket. The results are the
  pipe and the message, or \<open>None\<close> for EAGAIN; the message object passed in is released first and holds the
  message that is returned, so only the latter appears.
\<close>

section \<open>The code\<close>

record fq = rr +
  last_in :: "addr option"
  saved_credential :: blob

definition fq_new :: fq where
  "fq_new = \<lparr>rr_pipes = array_new, rr_active = 0, rr_current = 0, rr_more = False, last_in = None, saved_credential = []\<rparr>"

definition fq_attach :: "addr \<Rightarrow> fq \<Rightarrow> fq option" where
  "fq_attach p s =
     do { let a = array_push_back (Some p) (rr_pipes s);
          a \<leftarrow> array_swap (rr_active s) (array_size a - 1) a;
          Some (s\<lparr>rr_pipes := a, rr_active := rr_active s + 1\<rparr>) }"

definition fq_pipe_terminated :: "addr \<Rightarrow> fq \<Rightarrow> pool \<Rightarrow> fq option" where
  "fq_pipe_terminated p s w =
     do { s \<leftarrow> rr_remove p s;
          if last_in s = Some p
          then do { e \<leftarrow> pool_pipe w p; Some (s\<lparr>saved_credential := pcredential e, last_in := None\<rparr>) }
          else Some s }"

definition fq_activated :: "addr \<Rightarrow> fq \<Rightarrow> fq option" where
  "fq_activated p s = rr_activated p s"

definition fq_recvpipe :: "fq \<Rightarrow> pool \<Rightarrow> ((addr \<times> pmsg) option \<times> fq \<times> pool) option" where
  "fq_recvpipe s w =
     do { (res, s, w) \<leftarrow> rr_scan rr_deactivate pipe_read (\<lambda>r. r \<noteq> None) s w;
          case res of
            Some (p, Some m) \<Rightarrow>
              (let s = s\<lparr>rr_more := pm_more m\<rparr>;
                   s = (if \<not> rr_more s then s\<lparr>last_in := Some p, rr_current := (rr_current s + 1) mod rr_active s\<rparr> else s)
               in Some (Some (p, m), s, w))
          | _ \<Rightarrow> Some (None, s, w) }"

definition fq_recv :: "fq \<Rightarrow> pool \<Rightarrow> (pmsg option \<times> fq \<times> pool) option" where
  "fq_recv s w = map_option (\<lambda>(r, s, w). (map_option snd r, s, w)) (fq_recvpipe s w)"

definition fq_has_in :: "fq \<Rightarrow> pool \<Rightarrow> (bool \<times> fq \<times> pool) option" where
  "fq_has_in s w =
     (if rr_more s then Some (True, s, w)
      else do { (res, s, w) \<leftarrow> rr_scan rr_deactivate pipe_check_read (\<lambda>r. r) s w; Some (res \<noteq> None, s, w) })"

definition fq_get_credential :: "fq \<Rightarrow> pool \<Rightarrow> blob option" where
  "fq_get_credential s w =
     (case last_in s of Some p \<Rightarrow> map_option pcredential (pool_pipe w p) | None \<Rightarrow> Some (saved_credential s))"

section \<open>Invariant\<close>

text \<open>The pipes are alive, those outside the active part have nothing to read, and in the middle of
  a message the current pipe has its next part.\<close>

definition fq_pool :: "fq \<Rightarrow> pool \<Rightarrow> bool" where
  "fq_pool s w = rr_pool (\<lambda>c. readable (pe c)) ctx_ok s w"

definition fq_next_part :: "fq \<Rightarrow> pool \<Rightarrow> bool" where
  "fq_next_part s w \<longleftrightarrow> 0 < rr_active s \<and>
     (\<forall>c r c'. heap_load w (rr_cur s) = Some c \<longrightarrow> pipe_read c = Some (r, c') \<longrightarrow> r \<noteq> None)"

text \<open>A pipe that would not deliver anything.\<close>

definition dry :: "pool \<Rightarrow> addr \<Rightarrow> bool" where
  "dry w p \<longleftrightarrow> (\<exists>c. heap_load w p = Some c \<and> pipe_read c = Some (None, c))"

lemma closed_dry: "ctx_ok c \<Longrightarrow> \<not> readable (pe c) \<Longrightarrow> heap_load w p = Some c \<Longrightarrow> dry w p"
  using rd.op_total [of c] rd.closed_misses [of c] by (auto simp: dry_def)

lemma fq_new_ok: "fq_pool fq_new w"
  by (simp add: fq_pool_def rr_pool_def rr_ok_def rr_all_def fq_new_def)

lemma fq_attach_ok:
  assumes "fq_pool s w" "p \<notin> rr_all s" "heap_load w p = Some c" "ctx_ok c"
  shows "\<exists>s'. fq_attach p s = Some s' \<and> fq_pool s' w \<and> rr_all s' = insert p (rr_all s) \<and> rr_act s' = insert p (rr_act s)"
proof -
  have ok: "rr_ok s" using assms(1) by (simp add: fq_pool_def rr_pool_def)
  from rr_push_activated [OF ok assms(2)] obtain s' where
    s': "rr_activated p (s\<lparr>rr_pipes := array_push_back (Some p) (rr_pipes s)\<rparr>) = Some s'" "rr_ok s'"
      "rr_all s' = insert p (rr_all s)" "rr_act s' = insert p (rr_act s)" by blast
  moreover have "fq_attach p s = Some s'"
    using s'(1) rr_push_ok [OF ok assms(2)]
    by (simp add: fq_attach_def rr_activated_def array_swap_commute [of _ "rr_active s"] rr_ok_def)
  ultimately show ?thesis using assms by (auto simp: fq_pool_def rr_pool_def)
qed

lemma fq_activated_ok:
  assumes "fq_pool s w" "p \<in> rr_all s" "p \<notin> rr_act s"
  shows "\<exists>s'. fq_activated p s = Some s' \<and> fq_pool s' w \<and> rr_all s' = rr_all s \<and> rr_act s' = insert p (rr_act s)"
  using assms rr_activated_ok [of s p] by (force simp: fq_activated_def fq_pool_def rr_pool_def)

lemma fq_pipe_terminated_ok:
  assumes "fq_pool s w" "p \<in> rr_all s"
  shows "\<exists>s'. fq_pipe_terminated p s w = Some s' \<and> fq_pool s' w \<and> rr_all s' = rr_all s - {p} \<and>
    rr_act s' = rr_act s - {p} \<and> last_in s' \<noteq> Some p"
proof -
  obtain c where c: "heap_load w p = Some c" using assms by (auto simp: fq_pool_def rr_pool_def)
  from assms rr_remove_ok [of s p] obtain s1 where s1: "rr_remove p s = Some s1" "rr_ok s1" "rr_all s1 = rr_all s - {p}"
    "rr_act s1 = rr_act s - {p}" by (auto simp: fq_pool_def rr_pool_def)
  have "fq_pool s1 w" using s1 assms(1) by (auto simp: fq_pool_def rr_pool_def)
  then show ?thesis using s1 c
    by (auto simp: fq_pipe_terminated_def pool_pipe_def fq_pool_def rr_pool_def rr_ok_def rr_all_def rr_act_def)
qed

section \<open>Receiving\<close>

lemma fq_pool_closed: "fq_pool s w \<Longrightarrow> rr_active s = 0 \<Longrightarrow> p \<in> rr_all s \<Longrightarrow> dry w p"
  by (auto simp: fq_pool_def rr_pool_def rr_act_def intro: closed_dry)

lemma fq_recvpipe_ok:
  assumes "fq_pool s w" "rr_more s \<longrightarrow> fq_next_part s w"
  shows "\<exists>res s' w'. fq_recvpipe s w = Some (res, s', w') \<and> fq_pool s' w' \<and> rr_all s' = rr_all s \<and>
    (case res of
       None \<Rightarrow> \<not> rr_more s' \<and> (\<forall>p \<in> rr_all s. dry w' p)
     | Some (p, m) \<Rightarrow> p \<in> rr_act s \<and> rr_more s' = pm_more m \<and> (\<not> pm_more m \<longrightarrow> last_in s' = Some p) \<and>
         (\<exists>c c'. heap_load w p = Some c \<and> pipe_read c = Some (Some m, c') \<and> heap_load w' p = Some c') \<and>
         (\<forall>q. q \<noteq> p \<longrightarrow> dry w' q \<or> heap_load w' q = heap_load w q))"
proof -
  obtain res s1 w1 where 1: "rr_scan rr_deactivate pipe_read (\<lambda>r. r \<noteq> None) s w = Some (res, s1, w1)"
    "rr_pool (\<lambda>c. readable (pe c)) ctx_ok s1 w1" "rr_passed (\<lambda>c. readable (pe c)) s w s1 w1"
    "rr_result pipe_read (\<lambda>r. r \<noteq> None) w res s1 w1" "rr_more s \<longrightarrow> res \<noteq> None"
    using rd.scan [of s w rr_deactivate] assms by (auto simp: fq_pool_def fq_next_part_def)
  let ?f = "\<lambda>p m. let s = s1\<lparr>rr_more := pm_more m\<rparr>
    in if \<not> rr_more s then s\<lparr>last_in := Some p, rr_current := (rr_current s + 1) mod rr_active s\<rparr> else s"
  have same: "rr_all s1 = rr_all s" "rr_act s1 \<subseteq> rr_act s" "rr_more s1 = rr_more s" using 1(3) by (auto simp: rr_passed_def)
  show ?thesis
  proof (cases res)
    case None
    then have "rr_active s1 = 0" using 1(4) by (simp add: rr_result_def)
    then show ?thesis using 1 None same fq_pool_closed [of s1 w1] by (auto simp: fq_recvpipe_def fq_pool_def)
  next
    case (Some pr)
    then obtain p m where pm: "res = Some (p, Some m)" using 1(4) by (cases pr) (auto simp: rr_result_def)
    have r: "0 < rr_active s1" "p = rr_cur s1" using 1(4) pm by (auto simp: rr_result_def)
    have p: "p \<in> rr_act s" using rr_cur_act [of s1] r 1(2) same by (auto simp: rr_pool_def)
    define s2 where "s2 = ?f p m"
    have eq: "fq_recvpipe s w = Some (Some (p, m), s2, w1)" using 1(1) pm by (simp add: fq_recvpipe_def Let_def s2_def)
    have inv: "fq_pool s2 w1" "rr_all s2 = rr_all s" "rr_more s2 = pm_more m" "\<not> pm_more m \<longrightarrow> last_in s2 = Some p"
      using 1(2) r same by (auto simp: fq_pool_def rr_pool_def rr_ok_def rr_all_def rr_act_def Let_def s2_def)
    moreover have "dry w1 q \<or> heap_load w1 q = heap_load w q" if "q \<noteq> p" for q
    proof (cases "q \<in> rr_act s - rr_act s1")
      case True
      then have "q \<in> rr_all s1" "q \<notin> rr_act s1" using rr_act_all [of s] same(1) by auto
      with 1(2) obtain c where "heap_load w1 q = Some c" "ctx_ok c" "\<not> readable (pe c)" by (auto simp: rr_pool_def)
      then show ?thesis using closed_dry by blast
    next
      case False
      then show ?thesis using 1(3,4) pm that by (auto simp: rr_passed_def rr_result_def)
    qed
    moreover obtain c c' where "heap_load w p = Some c" "pipe_read c = Some (Some m, c')" "heap_load w1 p = Some c'"
      using 1(4) pm by (auto simp: rr_result_def)
    ultimately show ?thesis using p eq by (intro exI [of _ "Some (p, m)"] exI [of _ s2] exI [of _ w1]) simp
  qed
qed

section \<open>Fairness\<close>

text \<open>Receive up to \<open>n\<close> messages.\<close>

fun fq_recv_n :: "nat \<Rightarrow> fq \<Rightarrow> pool \<Rightarrow> ((addr \<times> pmsg) list \<times> fq \<times> pool) option" where
  "fq_recv_n 0 s w = Some ([], s, w)"
| "fq_recv_n (Suc n) s w =
     do { (r, s, w) \<leftarrow> fq_recvpipe s w;
          case r of
            None \<Rightarrow> Some ([], s, w)
          | Some x \<Rightarrow> do { (xs, s, w) \<leftarrow> fq_recv_n n s w; Some (x # xs, s, w) } }"

text \<open>A complete message waits in the pipe.\<close>

definition ready :: "pool \<Rightarrow> addr \<Rightarrow> bool" where
  "ready w p \<longleftrightarrow> (\<exists>c m c'. heap_load w p = Some c \<and> pipe_read c = Some (Some m, c') \<and> \<not> pm_more m)"

lemma fq_recvpipe_ready:
  assumes "rr_ok s" "0 < rr_active s" "ready w (rr_cur s)"
  shows "\<exists>m w'. fq_recvpipe s w = Some (Some (rr_cur s, m),
      s\<lparr>rr_more := False, last_in := Some (rr_cur s), rr_current := (rr_current s + 1) mod rr_active s\<rparr>, w') \<and>
    (\<forall>q. q \<noteq> rr_cur s \<longrightarrow> heap_load w' q = heap_load w q)"
proof -
  from assms(3) obtain c m c' where c: "heap_load w (rr_cur s) = Some c" "pipe_read c = Some (Some m, c')" "\<not> pm_more m"
    by (auto simp: ready_def)
  from rr_scan_hit [of s w c pipe_read "Some m" c' "\<lambda>r. r \<noteq> None" rr_deactivate, OF assms(1,2) c(1,2)] obtain w' where
    "rr_scan rr_deactivate pipe_read (\<lambda>r. r \<noteq> None) s w = Some (Some (rr_cur s, Some m), s, w')"
    "heap_load w' = (heap_load w)(rr_cur s \<mapsto> c')" by auto
  then show ?thesis using c(3) by (auto simp: fq_recvpipe_def Let_def)
qed

lemma fq_recv_n_round:
  assumes "rr_ok s" "k \<le> rr_active s"
    "\<And>i. i < k \<Longrightarrow> ready w (elems (rr_pipes s) ! ((rr_current s + i) mod rr_active s))"
  shows "\<exists>xs s' w'. fq_recv_n k s w = Some (xs, s', w') \<and>
    map fst xs = map (\<lambda>i. elems (rr_pipes s) ! ((rr_current s + i) mod rr_active s)) [0..<k]"
  using assms
proof (induction k arbitrary: s w)
  case (Suc k)
  let ?E = "elems (rr_pipes s)" and ?a = "rr_active s"
  have pos: "0 < ?a" and c: "rr_current s < ?a" using Suc.prems(1,2) by (auto simp: rr_ok_def split: if_splits)
  let ?s = "s\<lparr>rr_more := False, last_in := Some (rr_cur s), rr_current := (rr_current s + 1) mod ?a\<rparr>"
  have "ready w (rr_cur s)" using Suc.prems(3) [of 0] c by (simp add: rr_cur_def)
  from fq_recvpipe_ready [OF Suc.prems(1) pos this] obtain m w1 where
    1: "fq_recvpipe s w = Some (Some (rr_cur s, m), ?s, w1)" "\<forall>q. q \<noteq> rr_cur s \<longrightarrow> heap_load w1 q = heap_load w q" by blast
  have ok: "rr_ok ?s" using Suc.prems(1) pos by (simp add: rr_ok_def)
  have step: "(Suc (rr_current s) mod ?a + i) mod ?a = Suc (rr_current s + i) mod ?a" for i
    by (simp add: mod_add_left_eq)
  have "ready w1 (?E ! ((rr_current s + Suc i) mod ?a))" if "i < k" for i
  proof -
    have "(rr_current s + Suc i) mod ?a \<noteq> rr_current s"
      using that Suc.prems(2) c by (cases "rr_current s + Suc i < ?a") (auto simp: mod_if)
    moreover have "distinct ?E" "?a \<le> length ?E" using Suc.prems(1) arr.els_distinct by (auto simp: rr_ok_def)
    moreover from this(2) have "(rr_current s + Suc i) mod ?a < length ?E" using pos by (meson mod_less_divisor less_le_trans)
    ultimately have "?E ! ((rr_current s + Suc i) mod ?a) \<noteq> rr_cur s"
      using c nth_eq_iff_index_eq [of ?E "(rr_current s + Suc i) mod ?a" "rr_current s"] by (simp add: rr_cur_def)
    then show ?thesis using Suc.prems(3) [of "Suc i"] that 1(2) by (simp add: ready_def)
  qed
  then have "ready w1 (elems (rr_pipes ?s) ! ((rr_current ?s + i) mod rr_active ?s))" if "i < k" for i
    using that step by simp
  from Suc.IH [OF ok _ this] Suc.prems(2) obtain xs s' w' where "fq_recv_n k ?s w1 = Some (xs, s', w')"
    "map fst xs = map (\<lambda>i. ?E ! ((rr_current s + Suc i) mod ?a)) [0..<k]" by (auto simp: step)
  then show ?case using 1(1) c by (simp add: upt_conv_Cons map_Suc_upt [symmetric] rr_cur_def comp_def del: upt_Suc)
qed simp

section \<open>Properties\<close>

text \<open>The pipe was read once, with nothing to deliver, and nothing else was done to it.\<close>

definition read_in_vain :: "pool \<Rightarrow> pool \<Rightarrow> addr \<Rightarrow> bool" where
  "read_in_vain w w' p \<longleftrightarrow> (\<exists>c c'. heap_load w p = Some c \<and> pipe_read c = Some (None, c') \<and> heap_load w' p = Some c')"

lemma read_missed: "rr_missed pipe_read (\<lambda>r. r \<noteq> None) w w' p = read_in_vain w w' p"
  by (auto simp: rr_missed_def read_in_vain_def)

lemma fq_recvpipe_others:
  assumes "fq_pool s w" "fq_recvpipe s w = Some (res, s', w')"
  shows "res = None \<Longrightarrow> q \<in> rr_all s \<Longrightarrow> read_in_vain w w' q"
    and "res = Some (p, m) \<Longrightarrow> q \<noteq> p \<Longrightarrow> heap_load w' q = heap_load w q \<or> read_in_vain w w' q"
proof -
  obtain res1 s1 w1 where scan1: "rr_scan rr_deactivate pipe_read (\<lambda>r. r \<noteq> None) s w = Some (res1, s1, w1)"
    using assms(2) by (cases "rr_scan rr_deactivate pipe_read (\<lambda>r. r \<noteq> None) s w") (auto simp: fq_recvpipe_def)
  have res: "w1 = w' \<and> (case res1 of Some (p, Some m) \<Rightarrow> res = Some (p, m) | _ \<Rightarrow> res = None)"
    using assms(2) unfolding fq_recvpipe_def scan1 by (auto simp: Let_def split: option.splits)
  have scan: "rr_scan rr_deactivate pipe_read (\<lambda>r. r \<noteq> None) s w = Some (res1, s1, w')" using scan1 res by simp
  note pool = assms(1) [unfolded fq_pool_def]
  note others = rd.scan_others [OF scan pool refl, unfolded read_missed]
  have "res1 = None" if "res = None"
    using conjunct2 [OF res] that rd.scan_returned [OF pool refl scan]
    by (cases res1) (auto simp: rr_result_def split: option.splits)
  then show "res = None \<Longrightarrow> q \<in> rr_all s \<Longrightarrow> read_in_vain w w' q" using others(1) by blast
  show "res = Some (p, m) \<Longrightarrow> q \<noteq> p \<Longrightarrow> heap_load w' q = heap_load w q \<or> read_in_vain w w' q"
    using conjunct2 [OF res] others(2) [of p "Some m" q] by (simp split: option.splits prod.splits) blast
qed

text \<open>C36: Receiving from the inbound pipes of a socket never misses or loses a message. EAGAIN is returned only when
  every attached pipe, also those the queue regards as inactive, had nothing to deliver when the call
  began: one read of it in its state before the call yields nothing, and its state after the call is
  the one that read leaves. A message comes from one attached pipe, which gave it in a single
  read; every other pipe is left alone or was read once in vain. No pipe that was read in vain delivers
  anything to the next read either.\<close>

theorem fq_recv_complete:
  assumes "fq_pool s w" "rr_more s \<longrightarrow> fq_next_part s w"
  shows "\<exists>res s' w'. fq_recvpipe s w = Some (res, s', w') \<and> fq_pool s' w' \<and> rr_all s' = rr_all s \<and>
    (case res of
       None \<Rightarrow> \<not> rr_more s' \<and> (\<forall>p \<in> rr_all s. read_in_vain w w' p \<and> dry w' p)
     | Some (p, m) \<Rightarrow> p \<in> rr_act s \<and> rr_more s' = pm_more m \<and> (\<not> pm_more m \<longrightarrow> last_in s' = Some p) \<and>
         (\<exists>c c'. heap_load w p = Some c \<and> pipe_read c = Some (Some m, c') \<and> heap_load w' p = Some c') \<and>
         (\<forall>q. q \<noteq> p \<longrightarrow> heap_load w' q = heap_load w q \<or> read_in_vain w w' q \<and> dry w' q))"
proof -
  from fq_recvpipe_ok [OF assms] obtain res s' w' where r: "fq_recvpipe s w = Some (res, s', w')" "fq_pool s' w'" "rr_all s' = rr_all s"
    "case res of
       None \<Rightarrow> \<not> rr_more s' \<and> (\<forall>p \<in> rr_all s. dry w' p)
     | Some (p, m) \<Rightarrow> p \<in> rr_act s \<and> rr_more s' = pm_more m \<and> (\<not> pm_more m \<longrightarrow> last_in s' = Some p) \<and>
         (\<exists>c c'. heap_load w p = Some c \<and> pipe_read c = Some (Some m, c') \<and> heap_load w' p = Some c') \<and>
         (\<forall>q. q \<noteq> p \<longrightarrow> dry w' q \<or> heap_load w' q = heap_load w q)" by blast
  note others = fq_recvpipe_others [OF assms(1) r(1)]
  show ?thesis
  proof (cases res)
    case None
    then show ?thesis using r others(1) by auto
  next
    case (Some pm)
    then obtain p m where pm: "res = Some (p, m)" by (cases pm) simp
    have "\<forall>q. q \<noteq> p \<longrightarrow> heap_load w' q = heap_load w q \<or> read_in_vain w w' q \<and> dry w' q"
      using r(4) others(2) pm by auto
    then show ?thesis using r pm by (intro exI [of _ res] exI [of _ s'] exI [of _ w']) simp
  qed
qed

text \<open>C37: Fair queueing: when every active pipe has a complete message, as many receives as there are
  active pipes serve each of them exactly once, in the order of the array from the current one.\<close>

theorem fq_fair:
  assumes "rr_ok s" "\<And>p. p \<in> rr_act s \<Longrightarrow> ready w p"
  shows "\<exists>xs s' w'. fq_recv_n (rr_active s) s w = Some (xs, s', w') \<and>
    map fst xs = rotate (rr_current s) (take (rr_active s) (elems (rr_pipes s))) \<and> distinct (map fst xs)"
proof -
  let ?E = "elems (rr_pipes s)" and ?a = "rr_active s"
  have a: "?a \<le> length ?E" "distinct ?E" using assms(1) arr.els_distinct by (auto simp: rr_ok_def)
  have "ready w (?E ! ((rr_current s + i) mod ?a))" if "i < ?a" for i
    using that a(1) by (intro assms(2)) (auto simp: rr_act_def in_set_conv_nth intro!: exI [of _ "(rr_current s + i) mod ?a"])
  from fq_recv_n_round [OF assms(1) order_refl this] obtain xs s' w' where
    xs: "fq_recv_n ?a s w = Some (xs, s', w')" "map fst xs = map (\<lambda>i. ?E ! ((rr_current s + i) mod ?a)) [0..<?a]" by blast
  have "map (\<lambda>i. ?E ! ((rr_current s + i) mod ?a)) [0..<?a] = rotate (rr_current s) (take ?a ?E)"
    using a(1) by (intro nth_equalityI) (auto simp: nth_rotate min_def)
  moreover have "distinct (rotate (rr_current s) (take ?a ?E))" using a(2) by simp
  ultimately show ?thesis using xs by auto
qed

text \<open>Message parts of two peers are mixed: when a pipe terminates while a multipart message is being
  read from the last active pipe, the queue goes on reading from the first pipe, although the
  interrupted one is still active and holds the rest of the message.\<close>

theorem fq_termination_switches_pipe:
  assumes "fq_pool s w" "rr_more s" "p \<in> rr_act s" "p \<noteq> rr_cur s" "rr_current s = rr_active s - 1"
    "0 < array_index_of p (rr_pipes s)"
  shows "\<exists>s'. fq_pipe_terminated p s w = Some s' \<and> rr_more s' \<and> rr_cur s' \<noteq> rr_cur s \<and> rr_cur s \<in> rr_act s'"
proof -
  have ok: "rr_ok s" and p: "p \<in> rr_all s" using assms(1,3) rr_act_all [of s] by (auto simp: fq_pool_def rr_pool_def)
  from rr_remove_switches [OF ok assms(3-6)] obtain s1 where
    s1: "rr_remove p s = Some s1" "rr_cur s1 \<noteq> rr_cur s" "rr_cur s \<in> rr_act s1" by blast
  moreover have "rr_more s1" using rr_remove_ok [OF ok p] s1(1) assms(2) by auto
  moreover obtain c where "heap_load w p = Some c" using assms(1) p by (auto simp: fq_pool_def rr_pool_def)
  ultimately show ?thesis by (auto simp: fq_pipe_terminated_def pool_pipe_def rr_cur_def rr_act_def)
qed

subsection \<open>Witnesses\<close>

definition three_pipes :: pool where
  "three_pipes = [Some (sock_pipe [whole 1] 10), Some (sock_pipe [whole 2] 10), Some (sock_pipe [part 3, whole 4] 10)]"

definition three_fq :: "nat \<Rightarrow> fq" where
  "three_fq c = fq_new\<lparr>rr_pipes := array_of [0, 1, 2], rr_active := 3, rr_current := c\<rparr>"

lemma three_fq_pool: "c < 3 \<Longrightarrow> fq_pool (three_fq c) three_pipes"
proof -
  assume "c < 3"
  have a: "array_ok (array_of [0, 1, 2])" "elems (array_of [0, 1, 2]) = [0, 1, 2]" using array_of_ok [of "[0, 1, 2]"] by auto
  with \<open>c < 3\<close> show ?thesis
    by (simp add: fq_pool_def rr_pool_def three_fq_def rr_ok_def rr_all_def rr_act_def three_pipes_def heap_load_def
        sock_pipe_ok)
qed

theorem fq_recv_complete_witness:
  "\<exists>s' w'. fq_recvpipe (three_fq 1) three_pipes = Some (Some (1, whole 2), s', w') \<and> fq_pool s' w' \<and> \<not> rr_more s'"
proof -
  have "(case fq_recvpipe (three_fq 1) three_pipes of Some (Some (p, m), _) \<Rightarrow> p = 1 \<and> m = whole 2 | _ \<Rightarrow> False)"
    by code_simp
  then show ?thesis
    using fq_recv_complete [of "three_fq 1" three_pipes, OF three_fq_pool]
    by (auto simp: three_fq_def fq_new_def whole_def pm_more_def split: option.splits)
qed

theorem fq_termination_switches_pipe_witness:
  "\<exists>s'. fq_pipe_terminated 1 ((three_fq 2)\<lparr>rr_more := True\<rparr>) three_pipes = Some s' \<and> rr_more s' \<and>
     rr_cur s' \<noteq> 2 \<and> 2 \<in> rr_act s'"
proof -
  have "fq_pool ((three_fq 2)\<lparr>rr_more := True\<rparr>) three_pipes"
    using three_fq_pool [of 2] by (simp add: fq_pool_def rr_pool_def rr_ok_def rr_all_def rr_act_def)
  moreover have "array_ok (array_of [0, 1, 2])" "elems (array_of [0, 1, 2]) = [0, 1, 2]" using array_of_ok [of "[0, 1, 2]"] by auto
  ultimately show ?thesis
    using fq_termination_switches_pipe [of "(three_fq 2)\<lparr>rr_more := True\<rparr>" three_pipes 1] arr.index_nth [of "array_of [0, 1, 2]" 1]
    by (simp add: three_fq_def rr_act_def rr_cur_def)
qed

theorem fq_fair_witness:
  "\<exists>xs s' w'. fq_recv_n 2 ((three_fq 1)\<lparr>rr_active := 2\<rparr>) three_pipes = Some (xs, s', w') \<and> map fst xs = [1, 0]"
proof -
  have a: "array_ok (array_of [0, 1, 2])" "elems (array_of [0, 1, 2]) = [0, 1, 2]" using array_of_ok [of "[0, 1, 2]"] by auto
  have "case pipe_read (sock_pipe [whole b] 10) of Some (Some m, _) \<Rightarrow> \<not> pm_more m | _ \<Rightarrow> False" if "b \<in> {1, 2}" for b
    using that by (auto; code_simp)
  from this [of 1] this [of 2] have "ready three_pipes p" if "p \<in> {0, 1}" for p
    using that by (auto simp: ready_def three_pipes_def heap_load_def split: option.splits)
  then show ?thesis
    using fq_fair [of "(three_fq 1)\<lparr>rr_active := 2\<rparr>" three_pipes] a
    by (auto simp: three_fq_def rr_act_def rr_ok_def rotate1_def rotate_def)
qed

end
