(* ===== verification/Lb.thy ===== *)
theory Lb
  imports Roundrobin
begin

text \<open>
  \<open>lb_t\<close> (src/libzmq/src/lb.cpp): load balancing over the outbound pipes of a socket. \<open>lk\<close> is the outcome of
  the lock attempt that a conflating pipe makes in the one write that succeeds.
\<close>

section \<open>The code\<close>

record lb = rr +
  dropping :: bool

definition lb_new :: lb where
  "lb_new = \<lparr>rr_pipes = array_new, rr_active = 0, rr_current = 0, rr_more = False, dropping = False\<rparr>"

definition lb_activated :: "addr \<Rightarrow> lb \<Rightarrow> lb option" where
  "lb_activated p s = rr_activated p s"

definition lb_attach :: "addr \<Rightarrow> lb \<Rightarrow> lb option" where
  "lb_attach p s = lb_activated p (s\<lparr>rr_pipes := array_push_back (Some p) (rr_pipes s)\<rparr>)"

definition lb_pipe_terminated :: "addr \<Rightarrow> lb \<Rightarrow> lb option" where
  "lb_pipe_terminated p s =
     rr_remove p (if array_index_of p (rr_pipes s) = rr_current s \<and> rr_more s then s\<lparr>dropping := True\<rparr> else s)"

text \<open>\<open>active--; if (current < active) pipes.swap (current, active); else current = 0;\<close>\<close>

definition lb_deactivate :: "lb \<Rightarrow> lb option" where
  "lb_deactivate s =
     (let n = rr_active s - 1
      in if rr_current s < n
         then do { a \<leftarrow> array_swap (rr_current s) n (rr_pipes s); Some (s\<lparr>rr_pipes := a, rr_active := n\<rparr>) }
         else Some (s\<lparr>rr_active := n, rr_current := 0\<rparr>))"

text \<open>The result of a send: EAGAIN, or success with the pipe that took the message, if any did.\<close>

definition lb_sendpipe :: "bool \<Rightarrow> pmsg \<Rightarrow> lb \<Rightarrow> pool \<Rightarrow> ((errno + addr option) \<times> lb \<times> pool) option" where
  "lb_sendpipe lk m s w =
     (if dropping s then Some (Inr None, s\<lparr>rr_more := pm_more m, dropping := pm_more m\<rparr>, w)
      else do { (res, s, w) \<leftarrow> rr_scan lb_deactivate (pipe_write lk m) (\<lambda>r. r) s w;
                case res of
                  None \<Rightarrow> Some (Inl EAGAIN, s, w)
                | Some (p, _) \<Rightarrow>
                    if pm_more m then Some (Inr (Some p), s\<lparr>rr_more := True\<rparr>, w)
                    else do { w \<leftarrow> pool_do p pipe_flush w;
                              Some (Inr (Some p),
                                s\<lparr>rr_more := False, rr_current := (rr_current s + 1) mod rr_active s\<rparr>, w) } })"

definition lb_send :: "bool \<Rightarrow> pmsg \<Rightarrow> lb \<Rightarrow> pool \<Rightarrow> ((errno + unit) \<times> lb \<times> pool) option" where
  "lb_send lk m s w = map_option (\<lambda>(r, s, w). (map_sum id (\<lambda>_. ()) r, s, w)) (lb_sendpipe lk m s w)"

definition lb_has_out :: "lb \<Rightarrow> pool \<Rightarrow> (bool \<times> lb \<times> pool) option" where
  "lb_has_out s w =
     (if rr_more s then Some (True, s, w)
      else do { (res, s, w) \<leftarrow> rr_scan rr_deactivate check_write_op (\<lambda>r. r) s w; Some (res \<noteq> None, s, w) })"

section \<open>Invariant\<close>

definition lb_pool :: "lb \<Rightarrow> pool \<Rightarrow> bool" where
  "lb_pool s w = rr_pool (\<lambda>c. writable (pe c)) ctx_ok s w"

lemma lb_new_ok: "lb_pool lb_new w"
  by (simp add: lb_pool_def rr_pool_def rr_ok_def rr_all_def lb_new_def)

lemma lb_attach_ok:
  assumes "lb_pool s w" "p \<notin> rr_all s" "heap_load w p = Some c" "ctx_ok c"
  shows "\<exists>s'. lb_attach p s = Some s' \<and> lb_pool s' w \<and> rr_all s' = insert p (rr_all s) \<and> rr_act s' = insert p (rr_act s)"
proof -
  have "rr_ok s" using assms(1) rr_pool_ok unfolding lb_pool_def by blast
  from rr_push_activated [OF this assms(2)] obtain s' where
    "rr_activated p (s\<lparr>rr_pipes := array_push_back (Some p) (rr_pipes s)\<rparr>) = Some s'" "rr_ok s'"
    "rr_all s' = insert p (rr_all s)" "rr_act s' = insert p (rr_act s)" by blast
  moreover from this assms have "lb_pool s' w" unfolding lb_pool_def by (blast intro: rr_pool_insert)
  ultimately show ?thesis by (simp add: lb_attach_def lb_activated_def)
qed

lemma lb_activated_ok:
  assumes "lb_pool s w" "p \<in> rr_all s" "p \<notin> rr_act s"
  shows "\<exists>s'. lb_activated p s = Some s' \<and> lb_pool s' w \<and> rr_all s' = rr_all s \<and> rr_act s' = insert p (rr_act s)"
  using assms rr_activated_ok [of s p] by (force simp: lb_activated_def lb_pool_def rr_pool_def)

lemma same_dropping: "rr.more s = rr.more t \<Longrightarrow> dropping s = dropping t"
  by (cases s; cases t) simp

lemma lb_pipe_terminated_ok:
  assumes "lb_pool s w" "p \<in> rr_all s"
  shows "\<exists>s'. lb_pipe_terminated p s = Some s' \<and> lb_pool s' w \<and> rr_all s' = rr_all s - {p} \<and>
    rr_act s' = rr_act s - {p} \<and> (p = rr_cur s \<and> rr_more s \<longrightarrow> dropping s')"
proof -
  let ?s = "if array_index_of p (rr_pipes s) = rr_current s \<and> rr_more s then s\<lparr>dropping := True\<rparr> else s"
  have ok: "rr_ok ?s" and p: "p \<in> rr_all ?s" and e: "rr_all ?s = rr_all s" "rr_act ?s = rr_act s"
    using assms by (auto simp: lb_pool_def rr_pool_def rr_ok_def rr_all_def rr_act_def)
  from rr_remove_ok [OF ok p] obtain s' where s': "rr_remove p ?s = Some s'" "rr_ok s'" "rr_all s' = rr_all s - {p}"
    "rr_act s' = rr_act s - {p}" "rr.more s' = rr.more ?s" unfolding e by blast
  have "array_index_of p (rr_pipes s) = rr_current s" if "p = rr_cur s"
    using that assms rr_index_cur [of s] by (auto simp: lb_pool_def rr_pool_def)
  then have "p = rr_cur s \<and> rr_more s \<longrightarrow> dropping s'" using same_dropping [OF s'(5)] by simp
  then show ?thesis using s' assms(1) by (auto simp: lb_pipe_terminated_def lb_pool_def rr_pool_def)
qed

text \<open>The two ways in which \<open>sendpipe\<close> and \<open>has_out\<close> retire a pipe come to the same.\<close>

lemma lb_deactivate_eq:
  assumes "rr_ok s" "0 < rr_active s"
  shows "lb_deactivate s = rr_deactivate s"
proof (cases "rr_current s < rr_active s - 1")
  case True
  then show ?thesis by (auto simp: lb_deactivate_def rr_deactivate_def rr_retire_def Let_def)
next
  case False
  then have c: "rr_current s = rr_active s - 1" "rr_active s - 1 < length (elems (rr_pipes s))" "array_ok (rr_pipes s)"
    using assms by (auto simp: rr_ok_def split: if_splits)
  then show ?thesis using array_swap_self [OF c(3,2)] by (simp add: lb_deactivate_def rr_deactivate_def rr_retire_def)
qed

section \<open>Sending\<close>

definition lb_room :: "lb \<Rightarrow> pool \<Rightarrow> bool" where
  "lb_room s w \<longleftrightarrow> 0 < rr_active s \<and>
     (\<forall>c. heap_load w (rr_cur s) = Some c \<longrightarrow> fst (pipe_check_write c))"

lemma lb_sendpipe_ok:
  assumes "lb_pool s w" "rr_more s \<and> \<not> dropping s \<longrightarrow> lb_room s w"
  shows "\<exists>res s' w'. lb_sendpipe lk m s w = Some (res, s', w') \<and> lb_pool s' w' \<and> rr_all s' = rr_all s \<and>
    (case res of
       Inl e \<Rightarrow> e = EAGAIN \<and> \<not> rr_more s \<and> \<not> dropping s \<and> (\<forall>p \<in> rr_all s. full w' p)
     | Inr None \<Rightarrow> dropping s \<and> w' = w \<and> rr_more s' = pm_more m \<and> dropping s' = pm_more m
     | Inr (Some p) \<Rightarrow> \<not> dropping s \<and> p \<in> rr_act s \<and> (rr_more s \<longrightarrow> p = rr_cur s) \<and>
         rr_more s' = pm_more m \<and> (pm_more m \<longrightarrow> p = rr_cur s') \<and>
         (\<exists>c c'. heap_load w p = Some c \<and> took lk m c c' \<and> heap_load w' p = Some c') \<and>
         (\<forall>q. q \<noteq> p \<longrightarrow> full w' q \<or> heap_load w' q = heap_load w q))"
proof (cases "dropping s")
  case True
  then show ?thesis using assms(1)
    by (auto simp: lb_sendpipe_def lb_pool_def rr_pool_def rr_ok_def rr_all_def rr_act_def)
next
  case False
  note nd = this
  have hits: "\<forall>c r c'. heap_load w (rr_cur s) = Some c \<longrightarrow> pipe_write lk m c = Some (r, c') \<longrightarrow> r" if "rr_more s" "0 < rr_active s"
    using that assms(2) False write_room by (auto simp: lb_room_def)
  obtain res s1 w1 where 1: "rr_scan lb_deactivate (pipe_write lk m) (\<lambda>r. r) s w = Some (res, s1, w1)"
    "rr_pool (\<lambda>c. writable (pe c)) ctx_ok s1 w1" "rr_passed (\<lambda>c. writable (pe c)) s w s1 w1"
    "rr_result (pipe_write lk m) (\<lambda>r. r) w res s1 w1" "rr_more s \<longrightarrow> res \<noteq> None \<and> s1 = s"
    using wr.scan [of s w lb_deactivate lk m, OF assms(1) [unfolded lb_pool_def] lb_deactivate_eq hits] assms(2) False by (auto simp: lb_room_def)
  have same: "rr_all s1 = rr_all s" "rr_act s1 \<subseteq> rr_act s" "rr_more s1 = rr_more s" using 1(3) by (auto simp: rr_passed_def)
  have shut: "full w1 q" if "q \<in> rr_all s1" "q \<notin> rr_act s1" for q
    using 1(2) that closed_full by (fastforce simp: rr_pool_def)
  show ?thesis
  proof (cases res)
    case None
    then have "rr_act s1 = {}" using 1(4) by (simp add: rr_result_def rr_act_def)
    then show ?thesis using 1 None False same shut by (auto simp: lb_sendpipe_def lb_pool_def)
  next
    case (Some pr)
    then obtain p where pr: "res = Some (p, True)" using 1(4) by (cases pr) (auto simp: rr_result_def)
    obtain c c1 where r: "0 < rr_active s1" "p = rr_cur s1" "heap_load w p = Some c" "pipe_write lk m c = Some (True, c1)"
      "heap_load w1 p = Some c1" using 1(4) pr by (auto simp: rr_result_def)
    have p: "p \<in> rr_act s1" "p \<in> rr_act s" "p \<in> rr_all s1"
      using rr_cur_act [of s1] r 1(2) same rr_act_all [of s1] by (auto simp: rr_pool_def)
    have ok1: "ctx_ok c1" using 1(2) p r(5) by (auto simp: rr_pool_def)
    have cur: "rr_more s \<longrightarrow> p = rr_cur s" using 1(5) r(2) by auto
    have others: "full w1 q \<or> heap_load w1 q = heap_load w q" if "q \<noteq> p" for q
      using 1(3,4) pr that shut [of q] same rr_act_all [of s] by (cases "q \<in> rr_act s - rr_act s1") (auto simp: rr_passed_def rr_result_def)
    show ?thesis
    proof (cases "pm_more m")
      case True
      let ?s = "s1\<lparr>rr_more := True\<rparr>"
      have "lb_pool ?s w1" "rr_cur ?s = p" "rr_all ?s = rr_all s"
        using 1(2) r(2) same by (auto simp: lb_pool_def rr_pool_def rr_ok_def rr_all_def rr_act_def rr_cur_def)
      moreover have "lb_sendpipe lk m s w = Some (Inr (Some p), ?s, w1)" using 1(1) pr nd True by (simp add: lb_sendpipe_def)
      moreover have "took lk m c c1" using r(4) True by (simp add: took_def)
      ultimately show ?thesis using True nd p cur r(3,5) others
        by (intro exI [of _ "Inr (Some p)"] exI [of _ ?s] exI [of _ w1]) auto
    next
      case False
      from flush_quiet [OF ok1] obtain c2 where c2: "pipe_flush c1 = Some c2" "ctx_ok c2" using quiet_ok by blast
      from pool_do_at [of w1 p c1 pipe_flush c2, OF r(5) c2(1)] obtain w2 where w2: "pool_do p pipe_flush w1 = Some w2" "heap_load w2 = (heap_load w1)(p \<mapsto> c2)" by blast
      let ?s = "s1\<lparr>rr_more := False, rr_current := (rr_current s1 + 1) mod rr_active s1\<rparr>"
      have e: "rr_all ?s = rr_all s" "rr_act ?s = rr_act s1" "rr_ok ?s"
        using 1(2) r(1) same by (auto simp: rr_pool_def rr_ok_def rr_all_def rr_act_def)
      then have "lb_pool ?s w2" using 1(2) c2(2) w2(2) p same by (auto simp: lb_pool_def rr_pool_def)
      moreover have "lb_sendpipe lk m s w = Some (Inr (Some p), ?s, w2)" using 1(1) pr nd False w2(1) by (simp add: lb_sendpipe_def)
      moreover have "took lk m c c2" using r(4) c2(1) False by (auto simp: took_def)
      moreover have "full w2 q \<or> heap_load w2 q = heap_load w q" if "q \<noteq> p" for q
        using others [OF that] w2(2) that by (simp add: full_def)
      ultimately show ?thesis using False nd p cur r(3) w2(2) e
        by (intro exI [of _ "Inr (Some p)"] exI [of _ ?s] exI [of _ w2]) auto
    qed
  qed
qed

text \<open>The pipe refused the message: one write to it in its state before the call fails, which changes neither
  its channels nor the commands it sent, and nothing else was done to it.\<close>

definition write_in_vain :: "bool \<Rightarrow> pmsg \<Rightarrow> pool \<Rightarrow> pool \<Rightarrow> addr \<Rightarrow> bool" where
  "write_in_vain lk m w w' p \<longleftrightarrow> (\<exists>c c'. heap_load w p = Some c \<and> pipe_write lk m c = Some (False, c') \<and>
     ch c' = ch c \<and> sent c' = sent c \<and> heap_load w' p = Some c')"

lemma write_refused: "pipe_write lk m c = Some (False, c') \<Longrightarrow> ch c' = ch c \<and> sent c' = sent c"
  by (auto simp: pipe_write_def pipe_check_write_def bind_eq_Some_conv upd_def Let_def split: if_splits)

lemma write_missed: "rr_missed (pipe_write lk m) (\<lambda>r. r) w w' p = write_in_vain lk m w w' p"
  using write_refused by (fastforce simp: rr_missed_def write_in_vain_def)

lemma lb_sendpipe_others:
  assumes "lb_pool s w" "lb_sendpipe lk m s w = Some (res, s', w')"
  shows "res = Inl e \<Longrightarrow> q \<in> rr_all s \<Longrightarrow> write_in_vain lk m w w' q"
    and "res = Inr (Some p) \<Longrightarrow> q \<noteq> p \<Longrightarrow> heap_load w' q = heap_load w q \<or> write_in_vain lk m w w' q"
proof -
  note pool = assms(1) [unfolded lb_pool_def]
  note others = wr.scan_others [OF _ pool lb_deactivate_eq, unfolded write_missed]
  show "write_in_vain lk m w w' q" if res: "res = Inl e" and q: "q \<in> rr_all s"
  proof -
    obtain s1 where "rr_scan lb_deactivate (pipe_write lk m) (\<lambda>r. r) s w = Some (None, s1, w')"
      using assms(2) res unfolding lb_sendpipe_def
      by (cases "rr_scan lb_deactivate (pipe_write lk m) (\<lambda>r. r) s w")
        (auto simp: bind_eq_Some_conv split: if_splits option.splits)
    from others(1) [OF this _ _ refl q] show ?thesis by simp
  qed
  show "heap_load w' q = heap_load w q \<or> write_in_vain lk m w w' q" if "res = Inr (Some p)" "q \<noteq> p"
  proof -
    from assms(2) that(1) obtain x s1 w1 where scan: "rr_scan lb_deactivate (pipe_write lk m) (\<lambda>r. r) s w = Some (Some (p, x), s1, w1)"
      and w': "w' = w1 \<or> pool_do p pipe_flush w1 = Some w'"
      by (auto simp: lb_sendpipe_def bind_eq_Some_conv split: if_splits option.splits)
    have "heap_load w' q = heap_load w1 q" using w' that(2) by (auto simp: pool_do_def pool_op_Some heap_load_store)
    then show ?thesis using others(2) [OF scan _ _ refl that(2)] by (auto simp: write_in_vain_def)
  qed
qed

text \<open>C38: Sending through the load balancer. EAGAIN is returned only when every attached pipe, also those
  it regards as inactive, refuses the message in the state it had when the call began, and then no pipe has
  taken anything: the channels and the sent commands of all of them are unchanged. Otherwise exactly one
  pipe takes the message, and every other pipe is left alone or has refused the message in
  the same sense. Pipes that refused go on refusing. The parts of one message all go to the same pipe, and
  while a message is dropped no pipe is touched.\<close>

theorem lb_send_complete:
  assumes "lb_pool s w" "rr_more s \<and> \<not> dropping s \<longrightarrow> lb_room s w"
  shows "\<exists>res s' w'. lb_sendpipe lk m s w = Some (res, s', w') \<and> lb_pool s' w' \<and> rr_all s' = rr_all s \<and>
    (case res of
       Inl e \<Rightarrow> e = EAGAIN \<and> \<not> rr_more s \<and> \<not> dropping s \<and> (\<forall>p \<in> rr_all s. write_in_vain lk m w w' p \<and> full w' p)
     | Inr None \<Rightarrow> dropping s \<and> w' = w \<and> rr_more s' = pm_more m \<and> dropping s' = pm_more m
     | Inr (Some p) \<Rightarrow> \<not> dropping s \<and> p \<in> rr_act s \<and> (rr_more s \<longrightarrow> p = rr_cur s) \<and>
         rr_more s' = pm_more m \<and> (pm_more m \<longrightarrow> p = rr_cur s') \<and>
         (\<exists>c c'. heap_load w p = Some c \<and> took lk m c c' \<and> heap_load w' p = Some c') \<and>
         (\<forall>q. q \<noteq> p \<longrightarrow> heap_load w' q = heap_load w q \<or> write_in_vain lk m w w' q \<and> full w' q))"
proof -
  from lb_sendpipe_ok [OF assms] obtain res s' w' where r: "lb_sendpipe lk m s w = Some (res, s', w')" "lb_pool s' w'" "rr_all s' = rr_all s"
    "case res of
       Inl e \<Rightarrow> e = EAGAIN \<and> \<not> rr_more s \<and> \<not> dropping s \<and> (\<forall>p \<in> rr_all s. full w' p)
     | Inr None \<Rightarrow> dropping s \<and> w' = w \<and> rr_more s' = pm_more m \<and> dropping s' = pm_more m
     | Inr (Some p) \<Rightarrow> \<not> dropping s \<and> p \<in> rr_act s \<and> (rr_more s \<longrightarrow> p = rr_cur s) \<and>
         rr_more s' = pm_more m \<and> (pm_more m \<longrightarrow> p = rr_cur s') \<and>
         (\<exists>c c'. heap_load w p = Some c \<and> took lk m c c' \<and> heap_load w' p = Some c') \<and>
         (\<forall>q. q \<noteq> p \<longrightarrow> full w' q \<or> heap_load w' q = heap_load w q)" by blast
  note others = lb_sendpipe_others [OF assms(1) r(1)]
  show ?thesis
  proof (cases "\<exists>p. res = Inr (Some p)")
    case True
    then obtain p where p: "res = Inr (Some p)" ..
    have "\<forall>q. q \<noteq> p \<longrightarrow> heap_load w' q = heap_load w q \<or> write_in_vain lk m w w' q \<and> full w' q"
      using r(4) others(2) p by auto
    then show ?thesis using r p by (intro exI [of _ res] exI [of _ s'] exI [of _ w']) simp
  next
    case False
    then show ?thesis using r others(1)
      by (intro exI [of _ res] exI [of _ s'] exI [of _ w']) (auto split: sum.splits option.splits)
  qed
qed

lemma lb_refused_aborts:
  assumes "lb_pool s w" "0 < rr_active s" "rr_more s" "\<not> dropping s"
    "pool_pipe w (rr_cur s) = Some e" "pstate e \<noteq> Active"
  shows "lb_sendpipe lk m s w = None"
proof -
  have ok: "rr_ok s" using assms(1) rr_pool_ok unfolding lb_pool_def by blast
  obtain c where c: "heap_load w (rr_cur s) = Some c" "pe c = e" using assms(5) by (auto simp: pool_pipe_def)
  then have "pipe_write lk m c = Some (False, c)" using assms(6) by (simp add: pipe_write_def pipe_check_write_def)
  from pool_op_at [of w "rr_cur s" c "pipe_write lk m", OF c(1) this] obtain w1 where
    "pool_op (rr_cur s) (pipe_write lk m) w = Some (False, w1)" by blast
  then have "rr_scan lb_deactivate (pipe_write lk m) (\<lambda>r. r) s w = None"
    using assms(2,3) rr_cur_at [OF ok assms(2)] by (subst rr_scan.simps) simp
  then show ?thesis using assms(4) by (simp add: lb_sendpipe_def)
qed

text \<open>A peer that disconnects in the middle of a multipart send brings the process down: while the rest of
  the message is due and the termination of the pipe has begun but is not complete, the next
  part is refused by the pipe and the assertion \<open>!more\<close> fails.\<close>

theorem lb_send_aborts:
  assumes "lb_pool s w" "0 < rr_active s" "rr_more s" "\<not> dropping s"
    "pool_pipe w (rr_cur s) = Some e" "pstate e \<noteq> Active"
  shows "lb_sendpipe lk m s w = None"
  by (rule lb_refused_aborts [OF assms])

subsection \<open>Witnesses\<close>

definition two_pipes :: pool where
  "two_pipes = [Some (sock_pipe [] 10), Some (sock_pipe [] 10)]"

definition two_lb :: lb where
  "two_lb = lb_new\<lparr>rr_pipes := array_of [0, 1], rr_active := 2, rr_current := 1\<rparr>"

lemma two_lb_pool: "lb_pool two_lb two_pipes"
proof -
  have "array_ok (array_of [0, 1])" "elems (array_of [0, 1]) = [0, 1]" using array_of_ok [of "[0, 1]"] by auto
  then show ?thesis
    by (simp add: lb_pool_def rr_pool_def two_lb_def rr_ok_def rr_all_def rr_act_def two_pipes_def heap_load_def sock_pipe_ok)
qed

theorem lb_send_complete_witness:
  "\<exists>s' w'. lb_sendpipe True (part 7) two_lb two_pipes = Some (Inr (Some 1), s', w') \<and> lb_pool s' w' \<and> rr_more s' \<and> rr_cur s' = 1"
proof -
  have "(case lb_sendpipe True (part 7) two_lb two_pipes of Some (r, _) \<Rightarrow> r = Inr (Some 1) | _ \<Rightarrow> False)" by code_simp
  then show ?thesis
    using lb_send_complete [of two_lb two_pipes True "part 7", OF two_lb_pool]
    by (auto simp: two_lb_def lb_new_def part_def pm_more_def flag_more_def split: option.splits)
qed

text \<open>The first part was sent to pipe 1, then the peer's request to terminate that pipe arrived.\<close>

definition closing_pool :: pool where
  "closing_pool = (case heap_load two_pipes 1 of Some c \<Rightarrow>
     (case process_pipe_term c of Some c \<Rightarrow> two_pipes[1 := Some c] | None \<Rightarrow> []) | None \<Rightarrow> [])"

theorem lb_send_aborts_witness: "lb_sendpipe True (whole 8) (two_lb\<lparr>rr_more := True\<rparr>) closing_pool = None"
proof -
  let ?c = "(sock_pipe [] 10)\<lparr>pe := (pipe_new 0 1 10 10 False)\<lparr>pstate := WaitingForDelimiter\<rparr>\<rparr>"
  have a: "array_ok (array_of [0, 1])" "elems (array_of [0, 1]) = [0, 1]" using array_of_ok [of "[0, 1]"] by auto
  have cl: "closing_pool = [Some (sock_pipe [] 10), Some ?c]"
    by (simp add: closing_pool_def two_pipes_def heap_load_def process_pipe_term_def sock_pipe_def pipe_new_def upd_def)
  have "ctx_ok ?c" using sock_pipe_ok [of "[]" 10] by (simp add: ctx_ok_def sock_pipe_def pipe_new_def live_def)
  then have "lb_pool (two_lb\<lparr>rr_more := True\<rparr>) closing_pool"
    using two_lb_pool a
    by (simp add: lb_pool_def rr_pool_def two_lb_def rr_ok_def rr_all_def rr_act_def cl heap_load_def sock_pipe_ok)
  then show ?thesis
    by (rule lb_send_aborts [where e = "pe ?c"])
      (use a in \<open>simp_all add: two_lb_def lb_new_def rr_cur_def cl pool_pipe_def heap_load_def\<close>)
qed

end
