(* ===== verification/Dealer.thy ===== *)
theory Dealer
  imports Fq Lb
begin

text \<open>
  The socket types that are built from fair queueing and load balancing alone: \<open>push_t\<close>, \<open>pull_t\<close>,
  \<open>dealer_t\<close>, and \<open>pair_t\<close>, which owns a single pipe (src/libzmq/src/push.cpp, pull.cpp, dealer.cpp, pair.cpp). \<open>p\<close> is
  the pipe that an event comes from, \<open>w\<close> the pool of the socket's pipe ends.
\<close>

section \<open>PUSH and PULL\<close>

type_synonym push = lb
type_synonym pull = fq

definition push_xattach_pipe :: "addr \<Rightarrow> push \<Rightarrow> push option" where "push_xattach_pipe p s = lb_attach p s"
definition push_xwrite_activated :: "addr \<Rightarrow> push \<Rightarrow> push option" where "push_xwrite_activated p s = lb_activated p s"
definition push_xpipe_terminated :: "addr \<Rightarrow> push \<Rightarrow> push option" where "push_xpipe_terminated p s = lb_pipe_terminated p s"
definition push_xsend :: "bool \<Rightarrow> pmsg \<Rightarrow> push \<Rightarrow> pool \<Rightarrow> ((errno + unit) \<times> push \<times> pool) option" where
  "push_xsend lk m s w = lb_send lk m s w"
definition push_xhas_out :: "push \<Rightarrow> pool \<Rightarrow> (bool \<times> push \<times> pool) option" where "push_xhas_out s w = lb_has_out s w"

definition pull_xattach_pipe :: "addr \<Rightarrow> pull \<Rightarrow> pull option" where "pull_xattach_pipe p s = fq_attach p s"
definition pull_xread_activated :: "addr \<Rightarrow> pull \<Rightarrow> pull option" where "pull_xread_activated p s = fq_activated p s"
definition pull_xpipe_terminated :: "addr \<Rightarrow> pull \<Rightarrow> pool \<Rightarrow> pull option" where
  "pull_xpipe_terminated p s w = fq_pipe_terminated p s w"
definition pull_xrecv :: "pull \<Rightarrow> pool \<Rightarrow> (pmsg option \<times> pull \<times> pool) option" where "pull_xrecv s w = fq_recv s w"
definition pull_xhas_in :: "pull \<Rightarrow> pool \<Rightarrow> (bool \<times> pull \<times> pool) option" where "pull_xhas_in s w = fq_has_in s w"
definition pull_get_credential :: "pull \<Rightarrow> pool \<Rightarrow> blob option" where "pull_get_credential s w = fq_get_credential s w"

section \<open>PAIR\<close>

record pair_sock =
  pr_pipe :: "addr option"
  pr_last_in :: "addr option"
  pr_saved_credential :: blob

definition pair_new :: pair_sock where
  "pair_new = \<lparr>pr_pipe = None, pr_last_in = None, pr_saved_credential = []\<rparr>"

definition pair_xattach_pipe :: "bool \<Rightarrow> addr \<Rightarrow> pair_sock \<Rightarrow> pool \<Rightarrow> (pair_sock \<times> pool) option" where
  "pair_xattach_pipe lk p s w =
     (if pr_pipe s = None then Some (s\<lparr>pr_pipe := Some p\<rparr>, w)
      else do { w \<leftarrow> pool_do p (pipe_terminate lk False) w; Some (s, w) })"

definition pair_xpipe_terminated :: "addr \<Rightarrow> pair_sock \<Rightarrow> pool \<Rightarrow> pair_sock option" where
  "pair_xpipe_terminated p s w =
     (if pr_pipe s = Some p
      then do { s \<leftarrow> (if pr_last_in s = pr_pipe s
                     then do { e \<leftarrow> pool_pipe w p; Some (s\<lparr>pr_saved_credential := pcredential e, pr_last_in := None\<rparr>) }
                     else Some s);
                Some (s\<lparr>pr_pipe := None\<rparr>) }
      else Some s)"

definition pair_xsend :: "bool \<Rightarrow> pmsg \<Rightarrow> pair_sock \<Rightarrow> pool \<Rightarrow> ((errno + unit) \<times> pair_sock \<times> pool) option" where
  "pair_xsend lk m s w =
     (case pr_pipe s of
        None \<Rightarrow> Some (Inl EAGAIN, s, w)
      | Some p \<Rightarrow>
          do { (ok, w) \<leftarrow> pool_op p (pipe_write lk m) w;
               if \<not> ok then Some (Inl EAGAIN, s, w)
               else if \<not> pm_more m then do { w \<leftarrow> pool_do p pipe_flush w; Some (Inr (), s, w) }
               else Some (Inr (), s, w) })"

definition pair_xrecv :: "pair_sock \<Rightarrow> pool \<Rightarrow> (pmsg option \<times> pair_sock \<times> pool) option" where
  "pair_xrecv s w =
     (case pr_pipe s of
        None \<Rightarrow> Some (None, s, w)
      | Some p \<Rightarrow>
          do { (r, w) \<leftarrow> pool_op p pipe_read w;
               Some (r, if r = None then s else s\<lparr>pr_last_in := pr_pipe s\<rparr>, w) })"

definition pair_xhas_in :: "pair_sock \<Rightarrow> pool \<Rightarrow> (bool \<times> pool) option" where
  "pair_xhas_in s w = (case pr_pipe s of None \<Rightarrow> Some (False, w) | Some p \<Rightarrow> pool_op p pipe_check_read w)"

definition pair_xhas_out :: "pair_sock \<Rightarrow> pool \<Rightarrow> (bool \<times> pool) option" where
  "pair_xhas_out s w = (case pr_pipe s of None \<Rightarrow> Some (False, w) | Some p \<Rightarrow> pool_op p check_write_op w)"

definition pair_get_credential :: "pair_sock \<Rightarrow> pool \<Rightarrow> blob option" where
  "pair_get_credential s w =
     (case pr_last_in s of Some p \<Rightarrow> map_option pcredential (pool_pipe w p) | None \<Rightarrow> Some (pr_saved_credential s))"

section \<open>DEALER\<close>

record dealer =
  dl_fq :: fq
  dl_lb :: lb
  dl_probe :: bool

definition dealer_new :: dealer where
  "dealer_new = \<lparr>dl_fq = fq_new, dl_lb = lb_new, dl_probe = False\<rparr>"

text \<open>The probe message of the option ZMQ_PROBE_ROUTER; a refusal is ignored.\<close>

definition send_probe :: "bool \<Rightarrow> addr \<Rightarrow> pool \<Rightarrow> pool option" where
  "send_probe lk p w = do { (_, w) \<leftarrow> pool_op p (pipe_write lk pm_init) w; pool_do p pipe_flush w }"

definition dealer_xattach_pipe :: "bool \<Rightarrow> addr \<Rightarrow> dealer \<Rightarrow> pool \<Rightarrow> (dealer \<times> pool) option" where
  "dealer_xattach_pipe lk p s w =
     do { w \<leftarrow> (if dl_probe s then send_probe lk p w else Some w);
          f \<leftarrow> fq_attach p (dl_fq s);
          l \<leftarrow> lb_attach p (dl_lb s);
          Some (s\<lparr>dl_fq := f, dl_lb := l\<rparr>, w) }"

text \<open>Option values: \<open>Some v\<close> when the caller passed an \<open>int\<close>.\<close>

definition ZMQ_PROBE_ROUTER :: int where "ZMQ_PROBE_ROUTER = 51"

definition dealer_xsetsockopt :: "int \<Rightarrow> int option \<Rightarrow> dealer \<Rightarrow> (errno + unit) \<times> dealer" where
  "dealer_xsetsockopt opt value s =
     (case value of
        Some v \<Rightarrow> if opt = ZMQ_PROBE_ROUTER \<and> v \<ge> 0 then (Inr (), s\<lparr>dl_probe := v \<noteq> 0\<rparr>) else (Inl EINVAL, s)
      | None \<Rightarrow> (Inl EINVAL, s))"

definition dealer_sendpipe :: "bool \<Rightarrow> pmsg \<Rightarrow> dealer \<Rightarrow> pool \<Rightarrow> ((errno + addr option) \<times> dealer \<times> pool) option" where
  "dealer_sendpipe lk m s w = map_option (\<lambda>(r, l, w). (r, s\<lparr>dl_lb := l\<rparr>, w)) (lb_sendpipe lk m (dl_lb s) w)"

definition dealer_recvpipe :: "dealer \<Rightarrow> pool \<Rightarrow> ((addr \<times> pmsg) option \<times> dealer \<times> pool) option" where
  "dealer_recvpipe s w = map_option (\<lambda>(r, f, w). (r, s\<lparr>dl_fq := f\<rparr>, w)) (fq_recvpipe (dl_fq s) w)"

definition dealer_xsend :: "bool \<Rightarrow> pmsg \<Rightarrow> dealer \<Rightarrow> pool \<Rightarrow> ((errno + unit) \<times> dealer \<times> pool) option" where
  "dealer_xsend lk m s w = map_option (\<lambda>(r, s, w). (map_sum id (\<lambda>_. ()) r, s, w)) (dealer_sendpipe lk m s w)"

definition dealer_xrecv :: "dealer \<Rightarrow> pool \<Rightarrow> (pmsg option \<times> dealer \<times> pool) option" where
  "dealer_xrecv s w = map_option (\<lambda>(r, s, w). (map_option snd r, s, w)) (dealer_recvpipe s w)"

definition dealer_xhas_in :: "dealer \<Rightarrow> pool \<Rightarrow> (bool \<times> dealer \<times> pool) option" where
  "dealer_xhas_in s w = map_option (\<lambda>(r, f, w). (r, s\<lparr>dl_fq := f\<rparr>, w)) (fq_has_in (dl_fq s) w)"

definition dealer_xhas_out :: "dealer \<Rightarrow> pool \<Rightarrow> (bool \<times> dealer \<times> pool) option" where
  "dealer_xhas_out s w = map_option (\<lambda>(r, l, w). (r, s\<lparr>dl_lb := l\<rparr>, w)) (lb_has_out (dl_lb s) w)"

definition dealer_get_credential :: "dealer \<Rightarrow> pool \<Rightarrow> blob option" where
  "dealer_get_credential s w = fq_get_credential (dl_fq s) w"

definition dealer_xread_activated :: "addr \<Rightarrow> dealer \<Rightarrow> dealer option" where
  "dealer_xread_activated p s = map_option (\<lambda>f. s\<lparr>dl_fq := f\<rparr>) (fq_activated p (dl_fq s))"

definition dealer_xwrite_activated :: "addr \<Rightarrow> dealer \<Rightarrow> dealer option" where
  "dealer_xwrite_activated p s = map_option (\<lambda>l. s\<lparr>dl_lb := l\<rparr>) (lb_activated p (dl_lb s))"

definition dealer_xpipe_terminated :: "addr \<Rightarrow> dealer \<Rightarrow> pool \<Rightarrow> dealer option" where
  "dealer_xpipe_terminated p s w =
     do { f \<leftarrow> fq_pipe_terminated p (dl_fq s) w;
          l \<leftarrow> lb_pipe_terminated p (dl_lb s);
          Some (s\<lparr>dl_fq := f, dl_lb := l\<rparr>) }"

end
