(* ===== verification/Sync.thy ===== *)
theory Sync
  imports Fq Lb
begin

text \<open>
  How the activity recorded in a queue of pipes follows the flags of the pipes. A pipe raises an
  activation event only when its flag is down, and the queue must then have it among the inactive
  pipes. The contract \<open>switch\<close> extends \<open>gate\<close> by the flag and by the phase of the pipe's life in which the
  flag counts.
\<close>

section \<open>Flags and phases\<close>

definition in_phase :: "pctx \<Rightarrow> bool" where
  "in_phase c \<longleftrightarrow> pstate (pe c) = Active \<or> pstate (pe c) = WaitingForDelimiter"

definition in_flag :: "pctx \<Rightarrow> bool" where "in_flag c \<longleftrightarrow> in_active (pe c)"

definition out_phase :: "pctx \<Rightarrow> bool" where "out_phase c \<longleftrightarrow> pstate (pe c) = Active"

definition out_flag :: "pctx \<Rightarrow> bool" where "out_flag c \<longleftrightarrow> out_active (pe c)"

lemmas flag_defs = in_phase_def in_flag_def out_phase_def out_flag_def

definition rr_sync :: "(pctx \<Rightarrow> bool) \<Rightarrow> (pctx \<Rightarrow> bool) \<Rightarrow> 'x rr_scheme \<Rightarrow> pool \<Rightarrow> bool" where
  "rr_sync ph fl s w \<longleftrightarrow> rr_ok s \<and>
     (\<forall>p \<in> rr_all s. \<exists>c. heap_load w p = Some c \<and> ctx_ok c \<and> (ph c \<longrightarrow> (p \<in> rr_act s \<longleftrightarrow> fl c)))"

lemma rr_sync_at: "rr_sync ph fl s w \<Longrightarrow> p \<in> rr_all s \<Longrightarrow> \<exists>c. heap_load w p = Some c \<and> ctx_ok c \<and> (ph c \<longrightarrow> (p \<in> rr_act s \<longleftrightarrow> fl c))"
  by (simp add: rr_sync_def)

text \<open>A step of a pipe that leaves a flag, or another view of the pipe, alone: the pipe may leave the phase, but never enter it.\<close>

definition steady :: "(pctx \<Rightarrow> bool) \<Rightarrow> (pctx \<Rightarrow> 'f) \<Rightarrow> pctx \<Rightarrow> pctx \<Rightarrow> bool" where
  "steady ph fl c c' \<longleftrightarrow> ctx_ok c' \<and> (ph c' \<longrightarrow> ph c \<and> fl c' = fl c)"

definition pool_steady :: "(pctx \<Rightarrow> bool) \<Rightarrow> (pctx \<Rightarrow> 'f) \<Rightarrow> pool \<Rightarrow> pool \<Rightarrow> bool" where
  "pool_steady ph fl w w' \<longleftrightarrow>
     (\<forall>p c. heap_load w p = Some c \<longrightarrow> ctx_ok c \<longrightarrow> (\<exists>c'. heap_load w' p = Some c' \<and> steady ph fl c c'))"

lemma steady_trans: "steady ph fl c c' \<Longrightarrow> steady ph fl c' c'' \<Longrightarrow> steady ph fl c c''"
  by (auto simp: steady_def)

lemma pool_steady_refl: "pool_steady ph fl w w"
  by (auto simp: pool_steady_def steady_def)

lemma pool_steady_trans: "pool_steady ph fl w w' \<Longrightarrow> pool_steady ph fl w' w'' \<Longrightarrow> pool_steady ph fl w w''"
  unfolding pool_steady_def by (metis steady_trans steady_def)

lemma pool_steady_upd:
  "heap_load w p = Some c \<Longrightarrow> heap_load w' = (heap_load w)(p \<mapsto> c') \<Longrightarrow> (ctx_ok c \<Longrightarrow> steady ph fl c c') \<Longrightarrow> pool_steady ph fl w w'"
  by (auto simp: pool_steady_def) (simp add: steady_def)

lemma pool_op_steady:
  assumes "pool_op p op w = Some (r, w')" "\<And>c r c'. ctx_ok c \<Longrightarrow> op c = Some (r, c') \<Longrightarrow> steady ph fl c c'"
  shows "pool_steady ph fl w w'"
proof -
  from assms(1) obtain c c' where c: "heap_load w p = Some c" "op c = Some (r, c')" "heap_store w p c' = Some w'"
    by (auto simp: pool_op_Some)
  show ?thesis by (rule pool_steady_upd [OF c(1) heap_load_store [OF c(3)]]) (rule assms(2) [OF _ c(2)])
qed

lemma sync_steady: "rr_sync ph fl s w \<Longrightarrow> pool_steady ph fl w w' \<Longrightarrow> rr_sync ph fl s w'"
  unfolding rr_sync_def pool_steady_def steady_def by (metis (mono_tags))

text \<open>The loop over one kind of queue leaves the flags of the other direction alone.\<close>

lemma rr_scan_steady:
  fixes deact :: "'x rr_scheme \<Rightarrow> 'x rr_scheme option" and op :: "pctx \<Rightarrow> ('r \<times> pctx) option"
  assumes "rr_scan deact op hit s w = Some (res, s', w')"
    and st: "\<And>c r c'. ctx_ok c \<Longrightarrow> op c = Some (r, c') \<Longrightarrow> steady ph fl c c'"
  shows "pool_steady ph fl w w'"
proof -
  let ?st = "\<lambda>op. \<forall>c r c'. ctx_ok c \<longrightarrow> op c = Some (r, c') \<longrightarrow> steady ph fl c c'"
  have "?st op \<longrightarrow> pool_steady ph fl w (snd (snd (res, s', w')))"
  proof (rule rr_scan.raw_induct [where P = "\<lambda>deact op hit s w y. ?st op \<longrightarrow> pool_steady ph fl w (snd (snd y))", OF _ assms(1)], intro impI)
    fix scan and deact :: "'x rr_scheme \<Rightarrow> 'x rr_scheme option" and op :: "pctx \<Rightarrow> ('r \<times> pctx) option" and hit s w y
    assume IH: "\<And>deact op hit s w y. scan deact op hit s w = Some y \<Longrightarrow> ?st op \<longrightarrow> pool_steady ph fl w (snd (snd y))"
      and st: "?st op"
      and eq: "(if rr_active s = 0 then Some (None, s, w)
        else do { p \<leftarrow> array_at (rr_pipes s) (rr_current s);
                  (r, w) \<leftarrow> pool_op p op w;
                  if hit r then Some (Some (p, r), s, w)
                  else do { zmq_assert (\<not> rr_more s); s \<leftarrow> deact s; scan deact op hit s w } }) = Some y"
    show "pool_steady ph fl w (snd (snd y))"
    proof (cases "rr_active s = 0")
      case True
      then show ?thesis using eq pool_steady_refl by auto
    next
      case False
      then obtain p r w1 where p: "array_at (rr_pipes s) (rr_current s) = Some p" "pool_op p op w = Some (r, w1)"
        using eq by (auto simp: bind_eq_Some_conv)
      have "pool_steady ph fl w w1" by (rule pool_op_steady [OF p(2)]) (use st in blast)
      moreover have "pool_steady ph fl w1 (snd (snd y))"
        using eq False p pool_steady_refl st by (auto simp: bind_eq_Some_conv split: if_splits dest: IH)
      ultimately show ?thesis by (rule pool_steady_trans)
    qed
  qed
  then show ?thesis using st by simp
qed

section \<open>The contract\<close>

locale switch = gate op hit opened ctx_ok
  for op :: "pctx \<Rightarrow> ('r \<times> pctx) option" and hit :: "'r \<Rightarrow> bool" and opened :: "pctx \<Rightarrow> bool" +
  fixes ph :: "pctx \<Rightarrow> bool" and fl :: "pctx \<Rightarrow> bool"
  assumes opened_iff: "opened c \<longleftrightarrow> ph c \<and> fl c"
    and hit_opened: "op c = Some (r, c') \<Longrightarrow> hit r \<Longrightarrow> opened c'"
begin

lemma sync_pool: "rr_sync ph fl s w \<Longrightarrow> rr_pool opened ctx_ok s w"
  unfolding rr_sync_def rr_pool_def opened_iff by blast

lemma scan_sync:
  assumes "rr_sync ph fl s w" "rr_scan deact op hit s w = Some (res, s', w')" "rr_pool opened ctx_ok s' w'"
    "rr_passed opened s w s' w'" "rr_result op hit w res s' w'"
  shows "rr_sync ph fl s' w'"
  unfolding rr_sync_def
proof (intro conjI ballI)
  show "rr_ok s'" using assms(3) by (simp add: rr_pool_def)
  fix p assume p: "p \<in> rr_all s'"
  with assms(3) obtain c' where c': "heap_load w' p = Some c'" "ctx_ok c'" "p \<notin> rr_act s' \<longrightarrow> \<not> opened c'" by (auto simp: rr_pool_def)
  have all: "rr_all s' = rr_all s" "rr_act s' \<subseteq> rr_act s" using assms(4) by (auto simp: rr_passed_def)
  with assms(1) p obtain c where c: "heap_load w p = Some c" "ph c \<longrightarrow> (p \<in> rr_act s \<longleftrightarrow> fl c)" by (auto simp: rr_sync_def)
  have "ph c' \<longrightarrow> (p \<in> rr_act s' \<longleftrightarrow> fl c')"
  proof (cases "p \<in> rr_act s'")
    case True
    then have "0 < rr_active s'" by (cases "rr_active s'") (auto simp: rr_act_def)
    then obtain q r where res: "res = Some (q, r)" using assms(5) by (cases res) (auto simp: rr_result_def)
    have "opened c'" if "p = q" using assms(5) res that c' hit_opened by (auto simp: rr_result_def)
    moreover have "c' = c" if "p \<noteq> q" using assms(5) res that True c c' by (auto simp: rr_result_def)
    ultimately show ?thesis using True all(2) c opened_iff by (cases "p = q") auto
  next
    case False
    then show ?thesis using c'(3) opened_iff by auto
  qed
  with c' show "\<exists>c. heap_load w' p = Some c \<and> ctx_ok c \<and> (ph c \<longrightarrow> (p \<in> rr_act s' \<longleftrightarrow> fl c))" by blast
qed

end

text \<open>What reading and writing do to the flags.\<close>

lemma read_message_flags:
  assumes "read_message s = Some (r, s')"
  shows "pstate (pe s') = pstate (pe s) \<and> out_active (pe s') = out_active (pe s) \<and> (r \<noteq> None \<longrightarrow> in_active (pe s') = in_active (pe s))"
proof -
  let ?P = "\<lambda>s y. pstate (pe (snd y)) = pstate (pe s) \<and> out_active (pe (snd y)) = out_active (pe s) \<and>
    (fst y \<noteq> None \<longrightarrow> in_active (pe (snd y)) = in_active (pe s))"
  have "?P s (r, s')"
  proof (rule read_message.raw_induct [where P = ?P, OF _ assms])
    fix rm s y
    assume IH: "\<And>s y. rm s = Some y \<Longrightarrow> ?P s y"
      and eq: "(on_in (\<lambda>c. Some (chan_read c)) s \<bind> (\<lambda>(r, s). case r of
          None \<Rightarrow> Some (None, upd (\<lambda>p. p\<lparr>in_active := False\<rparr>) s)
        | Some m \<Rightarrow> if pm_is_credential m then rm (close_msg m (upd (\<lambda>p. p\<lparr>pcredential := pm_data m\<rparr>) s))
            else Some (Some m, s))) = Some y"
    from eq obtain r1 s1 where 1: "on_in (\<lambda>c. Some (chan_read c)) s = Some (r1, s1)" "(case r1 of
          None \<Rightarrow> Some (None, upd (\<lambda>p. p\<lparr>in_active := False\<rparr>) s1)
        | Some m \<Rightarrow> if pm_is_credential m then rm (close_msg m (upd (\<lambda>p. p\<lparr>pcredential := pm_data m\<rparr>) s1))
            else Some (Some m, s1)) = Some y" by (auto simp: bind_eq_Some_conv)
    have "pe s1 = pe s" using on_chan_same [OF 1(1) [unfolded on_in_def]] by simp
    then show "?P s y"
      using 1(2) IH by (cases r1) (fastforce simp: upd_def close_msg_def split: if_splits)+
  qed
  then show ?thesis by simp
qed

lemma process_delimiter_flags:
  "process_delimiter s = Some s' \<Longrightarrow> out_active (pe s') = out_active (pe s) \<and> pstate (pe s') \<noteq> Active \<and> pstate (pe s') \<noteq> WaitingForDelimiter"
  by (auto simp: process_delimiter_eq upd_def send_cmd_def)

lemma read_flags:
  assumes "pipe_read c = Some (r, c')"
  shows "(r \<noteq> None \<longrightarrow> readable (pe c')) \<and> out_active (pe c') = out_active (pe c) \<and> (pstate (pe c') = Active \<longrightarrow> pstate (pe c) = Active)"
proof (cases "readable (pe c)")
  case True
  then obtain r1 c1 where 1: "read_message c = Some (r1, c1)" using assms by (auto simp: pipe_read_def bind_eq_Some_conv)
  note f = read_message_flags [OF 1]
  show ?thesis
  proof (cases r1)
    case None
    then show ?thesis using assms True 1 f by (auto simp: pipe_read_def)
  next
    case (Some m)
    then show ?thesis using assms True 1 f process_delimiter_flags [of c1 c']
      by (auto simp: pipe_read_def Let_def bind_eq_Some_conv readable_def upd_def send_cmd_def split: if_splits)
  qed
qed (use assms in \<open>simp add: pipe_read_def\<close>)

lemma check_read_flags:
  assumes "pipe_check_read c = Some (r, c')"
  shows "(r \<longrightarrow> readable (pe c')) \<and> out_active (pe c') = out_active (pe c) \<and> (pstate (pe c') = Active \<longrightarrow> pstate (pe c) = Active)"
proof (cases "readable (pe c)")
  case True
  then show ?thesis using assms
    by (auto simp: pipe_check_read_def on_in_def bind_eq_Some_conv upd_def split: if_splits dest!: on_chan_same process_delimiter_flags)
qed (use assms in \<open>auto simp: pipe_check_read_def\<close>)

lemma write_flags:
  assumes "pipe_write lk m c = Some (r, c')"
  shows "(r \<longrightarrow> writable (pe c')) \<and> in_active (pe c') = in_active (pe c) \<and> pstate (pe c') = pstate (pe c)"
proof (cases "fst (pipe_check_write c)")
  case True
  then have w: "pipe_check_write c = (True, c)" "writable (pe c)" by (auto simp: pipe_check_write_def writable_def split: if_splits)
  with assms obtain c1 where c1: "on_chan (outpipe (pe c)) (\<lambda>h. Some ((), chan_write lk m (pm_more m) h)) c = Some ((), c1)"
    "r" "c' = (if \<not> pm_more m \<and> \<not> pm_is_identity m then upd (\<lambda>p. p\<lparr>msgs_written := msgs_written p + 1\<rparr>) c1 else c1)"
    by (auto simp: pipe_write_def on_out_def bind_eq_Some_conv)
  then show ?thesis using w(2) on_chan_same [OF c1(1)] by (simp add: writable_def upd_def)
next
  case False
  then show ?thesis using assms
    by (cases "pipe_check_write c") (auto simp: pipe_write_def pipe_check_write_def upd_def split: if_splits)
qed

lemma flush_flags:
  "pipe_flush c = Some c' \<Longrightarrow> in_active (pe c') = in_active (pe c) \<and> out_active (pe c') = out_active (pe c) \<and> pstate (pe c') = pstate (pe c)"
  by (auto simp: pipe_flush_def on_out_def bind_eq_Some_conv send_cmd_def split: if_splits dest!: on_chan_same)

interpretation rsw: switch pipe_read "\<lambda>r. r \<noteq> None" "\<lambda>c. readable (pe c)" in_phase in_flag
  by unfold_locales (use read_flags in \<open>auto simp: readable_def flag_defs\<close>)

interpretation crsw: switch pipe_check_read "\<lambda>r. r" "\<lambda>c. readable (pe c)" in_phase in_flag
  by unfold_locales (use check_read_flags in \<open>auto simp: readable_def flag_defs\<close>)

interpretation wsw: switch "pipe_write lk m" "\<lambda>r. r" "\<lambda>c. writable (pe c)" out_phase out_flag
  by unfold_locales (use write_flags in \<open>auto simp: writable_def flag_defs\<close>)

interpretation cwsw: switch check_write_op "\<lambda>r. r" "\<lambda>c. writable (pe c)" out_phase out_flag
  by unfold_locales (auto simp: writable_def flag_defs check_write_op_def pipe_check_write_def split: if_splits)

lemma read_steady: "ctx_ok c \<Longrightarrow> pipe_read c = Some (r, c') \<Longrightarrow> steady out_phase out_flag c c'"
  using read_flags [of c r c'] rd.op_ok by (auto simp: steady_def flag_defs)

lemma check_read_steady: "ctx_ok c \<Longrightarrow> pipe_check_read c = Some (r, c') \<Longrightarrow> steady out_phase out_flag c c'"
  using check_read_flags [of c r c'] crd.op_ok by (auto simp: steady_def flag_defs)

lemma write_steady: "ctx_ok c \<Longrightarrow> pipe_write lk m c = Some (r, c') \<Longrightarrow> steady in_phase in_flag c c'"
  using write_flags [of lk m c r c'] wr.op_ok by (auto simp: steady_def flag_defs)

lemma check_write_steady: "ctx_ok c \<Longrightarrow> check_write_op c = Some (r, c') \<Longrightarrow> steady in_phase in_flag c c'"
  using cwr.op_ok [of c r c'] by (auto simp: steady_def flag_defs check_write_op_def pipe_check_write_def upd_def split: if_splits)

lemma flush_steady: "ctx_ok c \<Longrightarrow> pipe_flush c = Some c' \<Longrightarrow> steady in_phase in_flag c c' \<and> steady out_phase out_flag c c'"
  using flush_flags [of c c'] flush_quiet [of c] quiet_ok [of c c'] by (auto simp: steady_def flag_defs)

section \<open>Receiving and sending as loops\<close>

lemma rr_sync_cong:
  "rr_sync ph fl s w \<Longrightarrow> rr_ok s' \<Longrightarrow> rr_all s' = rr_all s \<Longrightarrow> rr_act s' = rr_act s \<Longrightarrow> rr_sync ph fl s' w"
  by (simp add: rr_sync_def)

text \<open>A queue after the bookkeeping that follows the loop.\<close>

definition rr_next :: "bool \<Rightarrow> 'x rr_scheme \<Rightarrow> 'x rr_scheme \<Rightarrow> bool" where
  "rr_next served s s' \<longleftrightarrow> rr_pipes s' = rr_pipes s \<and> rr_active s' = rr_active s \<and>
     (rr_current s' = rr_current s \<or> served \<and> rr_current s' = (rr_current s + 1) mod rr_active s)"

lemma rr_next_sync:
  "rr_sync ph fl s w \<Longrightarrow> rr_next served s s' \<Longrightarrow> (served \<Longrightarrow> 0 < rr_active s) \<Longrightarrow> rr_sync ph fl s' w \<and> rr_all s' = rr_all s"
  by (auto simp: rr_sync_def rr_next_def rr_ok_def rr_all_def rr_act_def split: if_splits)

lemma rr_result_active: "rr_result op hit w res s w' \<Longrightarrow> res \<noteq> None \<Longrightarrow> 0 < rr_active s"
  by (auto simp: rr_result_def)

lemma fq_recvpipe_scan:
  assumes "fq_recvpipe s w = Some (r, s', w')"
  shows "\<exists>res s1. rr_scan rr_deactivate pipe_read (\<lambda>r. r \<noteq> None) s w = Some (res, s1, w') \<and> rr_next (res \<noteq> None) s1 s'"
proof -
  obtain res s1 w1 where 1: "rr_scan rr_deactivate pipe_read (\<lambda>r. r \<noteq> None) s w = Some (res, s1, w1)"
    using assms by (auto simp: fq_recvpipe_def bind_eq_Some_conv)
  consider "res = None" | p where "res = Some (p, None)" | p m where "res = Some (p, Some m)"
    by (metis option.exhaust surj_pair)
  then show ?thesis using assms 1 by cases (auto simp: fq_recvpipe_def Let_def rr_next_def)
qed

lemma lb_sendpipe_scan:
  assumes "lb_sendpipe lk m s w = Some (r, s', w')" "\<not> dropping s"
  shows "\<exists>res s1 w1. rr_scan lb_deactivate (pipe_write lk m) (\<lambda>r. r) s w = Some (res, s1, w1) \<and> rr_next (res \<noteq> None) s1 s' \<and>
    (w' = w1 \<or> (\<exists>p. pool_do p pipe_flush w1 = Some w'))"
proof -
  obtain res s1 w1 where 1: "rr_scan lb_deactivate (pipe_write lk m) (\<lambda>r. r) s w = Some (res, s1, w1)"
    using assms by (auto simp: lb_sendpipe_def bind_eq_Some_conv)
  then show ?thesis using assms
    by (cases res) (auto simp: lb_sendpipe_def rr_next_def bind_eq_Some_conv split: if_splits)
qed

lemma pool_do_steady:
  assumes "pool_do p f w = Some w'" "\<And>c c'. ctx_ok c \<Longrightarrow> f c = Some c' \<Longrightarrow> steady ph fl c c'"
  shows "pool_steady ph fl w w'"
proof -
  obtain r where "pool_op p (plain f) w = Some (r, w')" using assms(1) by (auto simp: pool_do_def)
  then show ?thesis by (rule pool_op_steady) (use assms(2) in \<open>auto simp: plain_def\<close>)
qed

lemma terminate_active:
  assumes "ctx_ok c" "pstate (pe c) = Active"
  shows "\<exists>c'. pipe_terminate lk False c = Some c' \<and> ctx_ok c' \<and> \<not> in_phase c' \<and> \<not> out_phase c'"
proof -
  let ?c = "upd (\<lambda>p. p\<lparr>pstate := TermReqSent1\<rparr>) (send_cmd PipeTerm (upd (\<lambda>p. p\<lparr>delay := False\<rparr>) c))"
  have "ctx_ok ?c" using assms by (simp add: ctx_ok_def upd_def send_cmd_def live_def)
  from stop_output_quiet [OF this, of lk] obtain c' where c': "stop_output lk ?c = Some c'" "quiet ?c c'" by blast
  have "pipe_terminate lk False c = Some c'" using c'(1) assms(2) by (simp add: pipe_terminate_def upd_def)
  moreover have "pstate (pe c') = TermReqSent1" using c'(2) by (simp add: quiet_def upd_def)
  ultimately show ?thesis using quiet_ok [OF c'(2)] by (simp add: flag_defs)
qed

end
