(* ===== verification/Inbox.thy ===== *)
theory Inbox
  imports Sync
begin

text \<open>
  What the reader of a pipe will get: the sequence of messages that successive calls of
  \<open>pipe_t::read\<close> (src/libzmq/src/pipe.cpp) deliver, and fair queueing (src/libzmq/src/fq.cpp) as an operation on these
  sequences. The peers write whole messages, so that the last frame that waits in a pipe ends a message.
\<close>

section \<open>The frames waiting in a pipe\<close>

fun queued :: "chan \<Rightarrow> pmsg list" where
  "queued (Fifo a) = flushed a"
| "queued (Cell v) = (case v of None \<Rightarrow> [] | Some m \<Rightarrow> [m])"

definition inflow :: "pctx \<Rightarrow> pmsg list" where
  "inflow c = (case inpipe (pe c) of None \<Rightarrow> [] | Some a \<Rightarrow> (case heap_load (ch c) a of None \<Rightarrow> [] | Some h \<Rightarrow> queued h))"

definition payload :: "pmsg list \<Rightarrow> pmsg list" where "payload ms = filter (\<lambda>m. \<not> pm_is_credential m) ms"

definition inbox :: "pctx \<Rightarrow> pmsg list" where
  "inbox c = (if readable (pe c) then takeWhile (\<lambda>m. \<not> pm_delim m) (payload (inflow c)) else [])"

lemma payload_simps [simp]:
  "payload [] = []" "payload (m # ms) = (if pm_is_credential m then payload ms else m # payload ms)"
  by (simp_all add: payload_def)

lemma chan_read_queued:
  "chan_ok c \<Longrightarrow> chan_read c = (r, c') \<Longrightarrow>
     (case queued c of [] \<Rightarrow> r = None \<and> queued c' = [] | m # ms \<Rightarrow> r = Some m \<and> queued c' = ms)"
  by (cases c) (auto simp: pspec_read_def pspec_check_read_def pspec_wf_def Let_def split: if_splits prod.splits list.splits option.splits)

lemma on_in_read:
  assumes "ctx_ok s"
  shows "\<exists>r s'. on_in (\<lambda>c. Some (chan_read c)) s = Some (r, s') \<and> ctx_ok s' \<and> pe s' = pe s \<and>
    (case inflow s of [] \<Rightarrow> r = None \<and> inflow s' = [] | m # ms \<Rightarrow> r = Some m \<and> inflow s' = ms)"
proof -
  obtain a c where c: "inpipe (pe s) = Some a" "heap_load (ch s) a = Some c" "chan_ok c"
    using live_chan [OF assms, of "inpipe (pe s)"] assms by (auto simp: ctx_ok_def)
  from on_chan_read [OF assms c(1,2)] obtain s1 where
    s1: "on_chan (inpipe (pe s)) (\<lambda>c. Some (chan_read c)) s = Some (fst (chan_read c), s1)" "quiet s s1" "pe s1 = pe s"
      "heap_load (ch s1) a = Some (snd (chan_read c))" by blast
  have "inflow s = queued c" "inflow s1 = queued (snd (chan_read c))" using c s1 by (simp_all add: inflow_def)
  then show ?thesis using s1 quiet_ok [OF s1(2)] chan_read_queued [OF c(3), of "fst (chan_read c)" "snd (chan_read c)"]
    by (auto simp: on_in_def split: list.splits)
qed

lemma inflow_upd [simp]: "(\<And>p. inpipe (f p) = inpipe p) \<Longrightarrow> inflow (upd f s) = inflow s"
  by (simp add: inflow_def upd_def split: option.split)

lemma inflow_logs [simp]: "inflow (close_msg m s) = inflow s" "inflow (send_cmd x s) = inflow s"
  by (simp_all add: inflow_def close_msg_def send_cmd_def split: option.split)

lemma read_message_inflow:
  "ctx_ok s \<Longrightarrow> \<exists>r s'. read_message s = Some (r, s') \<and>
     (case payload (inflow s) of [] \<Rightarrow> r = None | m # ms \<Rightarrow> r = Some m \<and> payload (inflow s') = ms)"
proof (induction "inflow s" arbitrary: s)
  case Nil
  then show ?case using on_in_read [of s] by (subst read_message.simps) auto
next
  case (Cons m ms)
  from on_in_read [OF Cons.prems] obtain s1 where
    s1: "on_in (\<lambda>c. Some (chan_read c)) s = Some (Some m, s1)" "ctx_ok s1" "pe s1 = pe s" "inflow s1 = ms"
    unfolding Cons.hyps(2) [symmetric] by auto
  show ?case
  proof (cases "pm_is_credential m")
    case True
    let ?s = "close_msg m (upd (\<lambda>p. p\<lparr>pcredential := pm_data m\<rparr>) s1)"
    have "ctx_ok ?s" using s1(2) by (auto simp: ctx_ok_def close_msg_def upd_def live_def)
    moreover have "ms = inflow ?s" using s1(4) by simp
    ultimately have "\<exists>r s'. read_message ?s = Some (r, s') \<and>
        (case payload ms of [] \<Rightarrow> r = None | m # ms \<Rightarrow> r = Some m \<and> payload (inflow s') = ms)"
      using Cons.hyps(1) [of ?s] by simp
    then show ?thesis using True s1(1) by (subst read_message.simps) (simp add: Cons.hyps(2) [symmetric])
  next
    case False
    then show ?thesis using s1 Cons.hyps(2) [symmetric] by (subst read_message.simps) simp
  qed
qed

lemma read_inbox:
  assumes "ctx_ok c" "pipe_read c = Some (r, c')"
  shows "case r of None \<Rightarrow> inbox c = [] \<and> inbox c' = [] | Some m \<Rightarrow> inbox c = m # inbox c'"
proof (cases "readable (pe c)")
  case False
  then show ?thesis using assms(2) by (simp add: pipe_read_def inbox_def)
next
  case True
  from read_message_inflow [OF assms(1)] obtain r1 c1 where 1: "read_message c = Some (r1, c1)"
    "case payload (inflow c) of [] \<Rightarrow> r1 = None | m # ms \<Rightarrow> r1 = Some m \<and> payload (inflow c1) = ms" by blast
  show ?thesis
  proof (cases r1)
    case None
    then have "r = None" "payload (inflow c) = []" using 1 assms(2) True by (auto simp: pipe_read_def split: list.splits)
    then show ?thesis using read_miss [of c c'] assms(2) by (simp add: inbox_def)
  next
    case (Some m)
    then have m: "payload (inflow c) = m # payload (inflow c1)" using 1(2) by (auto split: list.splits)
    show ?thesis
    proof (cases "pm_delim m")
      case True
      then have "r = None" using 1(1) Some assms(2) \<open>readable (pe c)\<close> by (auto simp: pipe_read_def bind_eq_Some_conv)
      then show ?thesis using read_miss [of c c'] assms(2) True m by (simp add: inbox_def)
    next
      case False
      have r: "r = Some m" "inflow c' = inflow c1"
        using 1(1) Some assms(2) \<open>readable (pe c)\<close> False by (auto simp: pipe_read_def Let_def split: if_splits)
      then show ?thesis using read_flags [OF assms(2)] \<open>readable (pe c)\<close> m False by (simp add: inbox_def)
    qed
  qed
qed

section \<open>Fair queueing over inboxes\<close>

definition pin :: "pool \<Rightarrow> addr \<Rightarrow> pmsg list" where
  "pin w p = (case heap_load w p of None \<Rightarrow> [] | Some c \<Rightarrow> inbox c)"

definition whole_msgs :: "pmsg list \<Rightarrow> bool" where "whole_msgs ms \<longleftrightarrow> ms = [] \<or> \<not> pm_more (last ms)"

text \<open>The queue over pipes whose peers write whole messages: in the middle of a message the rest of
  it waits in the current pipe.\<close>

definition fq_whole :: "fq \<Rightarrow> pool \<Rightarrow> bool" where
  "fq_whole s w \<longleftrightarrow> fq_pool s w \<and> (\<forall>p \<in> rr_all s. whole_msgs (pin w p)) \<and>
     (rr_more s \<longrightarrow> 0 < rr_active s \<and> pin w (rr_cur s) \<noteq> [])"

lemma whole_msgs_ConsD: "whole_msgs (m # ms) \<Longrightarrow> whole_msgs ms \<and> (pm_more m \<longrightarrow> ms \<noteq> [])"
  by (auto simp: whole_msgs_def split: if_splits)

text \<open>The frames after the message that the list begins with or is in the middle of.\<close>

definition drop_msg :: "pmsg list \<Rightarrow> pmsg list" where "drop_msg ms = tl (dropWhile pm_more ms)"

lemma drop_msg_Cons [simp]: "drop_msg (m # ms) = (if pm_more m then drop_msg ms else ms)"
  by (simp add: drop_msg_def)

lemma drop_msg_less: "ms \<noteq> [] \<Longrightarrow> length (drop_msg ms) < length ms"
  using length_dropWhile_le [of pm_more ms] by (cases ms) (auto simp: drop_msg_def less_Suc_eq_le)

lemma whole_drop_msg: "whole_msgs ms \<Longrightarrow> whole_msgs (drop_msg ms)"
  by (induction ms) (auto simp: drop_msg_def dest: whole_msgs_ConsD)

lemma sock_pipe_inbox: "inbox (sock_pipe ms h) = takeWhile (\<lambda>m. \<not> pm_delim m) (payload ms)"
  by (simp add: inbox_def sock_pipe_def pipe_new_def readable_def inflow_def heap_load_def)

context gate
begin

text \<open>What a refused call does not change stays as it is for all pipes but the one that served.\<close>

lemma scan_keeps:
  assumes ret: "rr_scan deact op hit s w = Some (res, s', w')" and inv: "rr_pool opened ok s w"
    and deact: "\<And>s. rr_ok s \<Longrightarrow> 0 < rr_active s \<Longrightarrow> deact s = rr_deactivate s"
    and keep: "\<And>c r c'. ok c \<Longrightarrow> op c = Some (r, c') \<Longrightarrow> \<not> hit r \<Longrightarrow> f c' = f c"
    and p: "res = None \<or> fst (the res) \<noteq> p"
  shows "map_option f (heap_load w' p) = map_option f (heap_load w p)"
  using ret inv
proof (induction "rr_active s" arbitrary: s w)
  case 0
  then show ?case by (subst (asm) rr_scan.simps) simp
next
  case (Suc n)
  then have pos: "0 < rr_active s" and rok: "rr_ok s" by (auto simp: rr_pool_def)
  have cur: "rr_cur s \<in> rr_act s" "rr_cur s \<in> rr_all s" using rr_cur_act [OF rok pos] rr_act_all by auto
  with Suc.prems(2) obtain c where c: "heap_load w (rr_cur s) = Some c" "ok c" by (auto simp: rr_pool_def)
  from op_total [OF c(2)] obtain r c' where r: "op c = Some (r, c')" "ok c'" by blast
  from pool_op_at [of w "rr_cur s" c op r c', OF c(1) r(1)] obtain w1 where
    w1: "pool_op (rr_cur s) op w = Some (r, w1)" "heap_load w1 = (heap_load w)(rr_cur s \<mapsto> c')" by blast
  show ?case
  proof (cases "hit r")
    case True
    then have "res = Some (rr_cur s, r)" "w' = w1"
      using Suc.prems(1) pos w1(1) rr_cur_at [OF rok pos] by (subst (asm) rr_scan.simps, simp)+
    then show ?thesis using p w1(2) by auto
  next
    case False
    from rr_deactivate_ok [OF rok pos] obtain s1 where s1: "rr_deactivate s = Some s1" "rr_ok s1" "rr_active s1 = rr_active s - 1"
      "rr_all s1 = rr_all s" "rr_act s1 = rr_act s - {rr_cur s}" by blast
    have "rr_pool opened ok s1 w1" using Suc.prems(2) s1 w1(2) r(2) miss_closes [OF r(1) False] by (auto simp: rr_pool_def)
    moreover have "rr_scan deact op hit s1 w1 = Some (res, s', w')"
      using Suc.prems(1) pos False w1(1) s1(1) rr_cur_at [OF rok pos] deact [OF rok pos]
      by (subst (asm) rr_scan.simps) (cases "rr_more s"; simp)
    ultimately have "map_option f (heap_load w' p) = map_option f (heap_load w1 p)"
      using Suc.hyps(1) [of s1 w1] Suc.hyps(2) s1(3) by simp
    then show ?thesis using w1(2) c(1) keep [OF c(2) r(1) False] by auto
  qed
qed

end

lemma pin_map: "map_option inbox (heap_load w' p) = map_option inbox (heap_load w p) \<Longrightarrow> pin w' p = pin w p"
  by (cases "heap_load w' p"; cases "heap_load w p") (auto simp: pin_def)

lemma read_miss_inbox: "ctx_ok c \<Longrightarrow> pipe_read c = Some (r, c') \<Longrightarrow> \<not> r \<noteq> None \<Longrightarrow> inbox c' = inbox c"
  using read_inbox [of c r c'] by simp

lemma pin_closed: "heap_load w p = Some c \<Longrightarrow> \<not> readable (pe c) \<Longrightarrow> pin w p = []"
  by (simp add: pin_def inbox_def)

lemma fq_whole_next: "fq_whole s w \<Longrightarrow> rr_more s \<Longrightarrow> fq_next_part s w"
proof -
  assume a: "fq_whole s w" "rr_more s"
  then have "0 < rr_active s" "rr_cur s \<in> rr_all s" using rr_cur_act [of s] rr_act_all [of s] by (auto simp: fq_whole_def fq_pool_def rr_pool_def)
  then show ?thesis using a read_inbox by (fastforce simp: fq_next_part_def fq_whole_def fq_pool_def rr_pool_def pin_def)
qed

text \<open>One receive takes the first frame of one inbox and leaves the others alone.\<close>

lemma fq_recv_inbox:
  assumes "fq_whole s w"
  shows "\<exists>res s' w'. fq_recvpipe s w = Some (res, s', w') \<and> fq_whole s' w' \<and> rr_all s' = rr_all s \<and>
    (case res of
       None \<Rightarrow> \<not> rr_more s \<and> \<not> rr_more s' \<and> rr_active s' = 0 \<and> (\<forall>p \<in> rr_all s. pin w p = [] \<and> pin w' p = [])
     | Some (p, m) \<Rightarrow> p \<in> rr_all s \<and> (rr_more s \<longrightarrow> p = rr_cur s) \<and> rr_more s' = pm_more m \<and> (pm_more m \<longrightarrow> rr_cur s' = p) \<and>
         pin w p = m # pin w' p \<and> (\<forall>q. q \<noteq> p \<longrightarrow> pin w' q = pin w q))"
proof -
  have pool: "rr_pool (\<lambda>c. readable (pe c)) ctx_ok s w" and whole: "\<forall>p \<in> rr_all s. whole_msgs (pin w p)"
    using assms by (auto simp: fq_whole_def fq_pool_def)
  obtain res s1 w1 where 1: "rr_scan rr_deactivate pipe_read (\<lambda>r. r \<noteq> None) s w = Some (res, s1, w1)"
    "rr_pool (\<lambda>c. readable (pe c)) ctx_ok s1 w1" "rr_passed (\<lambda>c. readable (pe c)) s w s1 w1"
    "rr_result pipe_read (\<lambda>r. r \<noteq> None) w res s1 w1" "rr_more s \<and> 0 < rr_active s \<longrightarrow> res \<noteq> None \<and> s1 = s"
    using rd.scan [of s w rr_deactivate, OF pool refl] fq_whole_next [OF assms] unfolding fq_next_part_def by blast
  have act: "rr_more s \<longrightarrow> 0 < rr_active s" using assms by (simp add: fq_whole_def)
  have same: "rr_all s1 = rr_all s" "rr_more s1 = rr_more s" using 1(3) by (auto simp: rr_passed_def)
  have keep: "pin w1 q = pin w q" if "res = None \<or> fst (the res) \<noteq> q" for q
    by (rule pin_map, rule rd.scan_keeps [OF 1(1) pool _ read_miss_inbox that]) auto
  show ?thesis
  proof (cases res)
    case None
    then have z: "rr_active s1 = 0" using 1(4) by (simp add: rr_result_def)
    have e: "pin w1 p = [] \<and> pin w p = []" if "p \<in> rr_all s" for p
      using 1(2) that same(1) z keep [of p] None pin_closed by (fastforce simp: rr_pool_def rr_act_def)
    then have "fq_whole s1 w1" using 1(2,5) act same None by (auto simp: fq_whole_def fq_pool_def whole_msgs_def)
    then show ?thesis using 1(1,5) act None same e z by (auto simp: fq_recvpipe_def)
  next
    case (Some pr)
    then obtain p m where pm: "res = Some (p, Some m)" using 1(4) by (cases pr) (auto simp: rr_result_def)
    obtain c c' where r: "0 < rr_active s1" "p = rr_cur s1" "heap_load w p = Some c" "pipe_read c = Some (Some m, c')" "heap_load w1 p = Some c'"
      using 1(4) pm by (auto simp: rr_result_def)
    have p: "p \<in> rr_all s" using rr_cur_act [of s1] rr_act_all [of s1] r(1,2) 1(2) same(1) by (auto simp: rr_pool_def)
    have "ctx_ok c" using pool p r(3) by (auto simp: rr_pool_def)
    from read_inbox [OF this r(4)] r(3,5) have head: "pin w p = m # pin w1 p" by (simp add: pin_def)
    have others: "pin w1 q = pin w q" if "q \<noteq> p" for q using keep [of q] pm that by simp
    define s2 where "s2 = (let s = s1\<lparr>rr_more := pm_more m\<rparr>
      in if \<not> rr_more s then s\<lparr>last_in := Some p, rr_current := (rr_current s + 1) mod rr_active s\<rparr> else s)"
    have eq: "fq_recvpipe s w = Some (Some (p, m), s2, w1)" using 1(1) pm by (simp add: fq_recvpipe_def Let_def s2_def)
    have s2: "fq_pool s2 w1" "rr_all s2 = rr_all s" "rr_more s2 = pm_more m" "pm_more m \<longrightarrow> rr_cur s2 = p" "0 < rr_active s2"
      using 1(2) r same by (auto simp: fq_pool_def rr_pool_def rr_ok_def rr_all_def rr_act_def rr_cur_def Let_def s2_def)
    have w: "whole_msgs (pin w1 q)" if "q \<in> rr_all s" for q
      using whole that head others whole_msgs_ConsD by (cases "q = p") (metis, simp)
    have "pm_more m \<longrightarrow> pin w1 p \<noteq> []" using whole p head whole_msgs_ConsD [of m "pin w1 p"] by auto
    with s2 w have "fq_whole s2 w1" by (auto simp: fq_whole_def)
    then show ?thesis using eq s2 p head others 1(5) act r(2) by (intro exI [of _ "Some (p, m)"] exI [of _ s2] exI [of _ w1]) auto
  qed
qed

text \<open>The number of frames that wait.\<close>

definition waiting :: "fq \<Rightarrow> pool \<Rightarrow> nat" where "waiting s w = (\<Sum>p \<in> rr_all s. length (pin w p))"

lemma waiting_less:
  assumes "p \<in> rr_all s" "rr_all s' = rr_all s" "pin w p = m # pin w' p" "\<forall>q. q \<noteq> p \<longrightarrow> pin w' q = pin w q"
  shows "waiting s' w' < waiting s w"
proof -
  have fin: "finite (rr_all s)" by (simp add: rr_all_def)
  have "length (pin w' q) \<le> length (pin w q)" for q using assms(3,4) by (cases "q = p") auto
  moreover have "length (pin w' p) < length (pin w p)" using assms(3) by simp
  ultimately show ?thesis unfolding waiting_def assms(2) by (intro sum_strict_mono_ex1 [OF fin] ballI bexI [OF _ assms(1)])
qed

end
