(* ===== verification/Req.thy ===== *)
theory Req
  imports Dealer Inbox Wire
begin

text \<open>
  The REQ socket, \<open>req_t\<close> (src/libzmq/src/req.cpp): a DEALER socket that alternates between requests and replies,
  puts an empty frame (and an id frame with ZMQ_REQ_CORRELATE) before the request, and takes only replies with
  the same envelope from the pipe that took the request. The id frame is a copy of the counter; the
  code lets the frame refer to the counter itself.
\<close>

section \<open>The code\<close>

record req =
  rq_dealer :: dealer
  receiving_reply :: bool
  message_begins :: bool
  reply_pipe :: "addr option"
  request_id_frames_enabled :: bool
  request_id :: u32
  rq_strict :: bool

definition req_new :: "u32 \<Rightarrow> req" where
  "req_new rnd = \<lparr>rq_dealer = dealer_new, receiving_reply = False, message_begins = True, reply_pipe = None,
     request_id_frames_enabled = False, request_id = rnd, rq_strict = True\<rparr>"

text \<open>The object representation of the counter, on a little-endian machine.\<close>

definition id_bytes :: "u32 \<Rightarrow> blob" where "id_bytes x = rev (put_uint32 x)"

definition id_frame :: "u32 \<Rightarrow> pmsg" where "id_frame x = \<lparr>pm_flags = flag_more, pm_delim = False, pm_data = id_bytes x\<rparr>"

definition bottom_frame :: pmsg where "bottom_frame = pm_init\<lparr>pm_flags := flag_more\<rparr>"

text \<open>\<open>dealer_t::sendpipe (&msg, &reply_pipe)\<close>\<close>

definition req_sendpipe :: "bool \<Rightarrow> pmsg \<Rightarrow> req \<Rightarrow> pool \<Rightarrow> ((errno + unit) \<times> req \<times> pool) option" where
  "req_sendpipe lk m s w =
     do { (r, d, w) \<leftarrow> dealer_sendpipe lk m (rq_dealer s) w;
          let s = s\<lparr>rq_dealer := d\<rparr>;
          Some (case r of
                  Inl e \<Rightarrow> (Inl e, s, w)
                | Inr None \<Rightarrow> (Inr (), s, w)
                | Inr (Some p) \<Rightarrow> (Inr (), s\<lparr>reply_pipe := Some p\<rparr>, w)) }"

text \<open>Eat all messages that are available.\<close>

partial_function (option) req_drop :: "dealer \<Rightarrow> pool \<Rightarrow> (dealer \<times> pool) option" where
  "req_drop d w =
     do { (r, d, w) \<leftarrow> dealer_xrecv d w;
          case r of None \<Rightarrow> Some (d, w) | Some m \<Rightarrow> req_drop d w }"

declare req_drop.simps [code]

definition req_send_bottom :: "bool \<Rightarrow> req \<Rightarrow> pool \<Rightarrow> ((errno + unit) \<times> req \<times> pool) option" where
  "req_send_bottom lk s w =
     do { (r, s, w) \<leftarrow> req_sendpipe lk bottom_frame s w;
          case r of
            Inl e \<Rightarrow> Some (Inl e, s, w)
          | Inr _ \<Rightarrow>
              do { zmq_assert (reply_pipe s \<noteq> None);
                   (d, w) \<leftarrow> req_drop (rq_dealer s) w;
                   Some (Inr (), s\<lparr>message_begins := False, rq_dealer := d\<rparr>, w) } }"

definition req_send_envelope :: "bool \<Rightarrow> req \<Rightarrow> pool \<Rightarrow> ((errno + unit) \<times> req \<times> pool) option" where
  "req_send_envelope lk s w =
     (let s = s\<lparr>reply_pipe := None\<rparr>
      in if request_id_frames_enabled s
         then do { let s = s\<lparr>request_id := request_id s + 1\<rparr>;
                   (r, s, w) \<leftarrow> req_sendpipe lk (id_frame (request_id s)) s w;
                   case r of Inl e \<Rightarrow> Some (Inl e, s, w) | Inr _ \<Rightarrow> req_send_bottom lk s w }
         else req_send_bottom lk s w)"

text \<open>The part of \<open>xsend\<close> after the check of the state machine.\<close>

definition req_send_frame :: "bool \<Rightarrow> pmsg \<Rightarrow> req \<Rightarrow> pool \<Rightarrow> ((errno + unit) \<times> req \<times> pool) option" where
  "req_send_frame lk m s w =
     do { (r, s, w) \<leftarrow> (if message_begins s then req_send_envelope lk s w else Some (Inr (), s, w));
          case r of
            Inl e \<Rightarrow> Some (Inl e, s, w)
          | Inr _ \<Rightarrow>
              do { (r, d, w) \<leftarrow> dealer_xsend lk m (rq_dealer s) w;
                   let s = s\<lparr>rq_dealer := d\<rparr>;
                   Some (r, if r = Inr () \<and> \<not> pm_more m then s\<lparr>receiving_reply := True, message_begins := True\<rparr> else s, w) } }"

definition req_xsend :: "bool \<Rightarrow> pmsg \<Rightarrow> req \<Rightarrow> pool \<Rightarrow> ((errno + unit) \<times> req \<times> pool) option" where
  "req_xsend lk m s w =
     (if receiving_reply s \<and> rq_strict s then Some (Inl EFSM, s, w)
      else if receiving_reply s
      then do { w \<leftarrow> (case reply_pipe s of None \<Rightarrow> Some w | Some p \<Rightarrow> pool_do p (pipe_terminate lk False) w);
                req_send_frame lk m (s\<lparr>receiving_reply := False, message_begins := True\<rparr>) w }
      else req_send_frame lk m s w)"

partial_function (option) recv_reply_pipe :: "req \<Rightarrow> pool \<Rightarrow> (pmsg option \<times> req \<times> pool) option" where
  "recv_reply_pipe s w =
     do { (r, d, w) \<leftarrow> dealer_recvpipe (rq_dealer s) w;
          let s = s\<lparr>rq_dealer := d\<rparr>;
          case r of
            None \<Rightarrow> Some (None, s, w)
          | Some (p, m) \<Rightarrow>
              if reply_pipe s = None \<or> reply_pipe s = Some p then Some (Some m, s, w) else recv_reply_pipe s w }"

declare recv_reply_pipe.simps [code]

text \<open>\<open>while (msg_->flags () & msg_t::more)\<close>: skip the remaining frames.\<close>

partial_function (option) skip_frames :: "pmsg \<Rightarrow> req \<Rightarrow> pool \<Rightarrow> (req \<times> pool) option" where
  "skip_frames m s w =
     (if \<not> pm_more m then Some (s, w)
      else do { (r, s, w) \<leftarrow> recv_reply_pipe s w;
                case r of None \<Rightarrow> None | Some m \<Rightarrow> skip_frames m s w })"

declare skip_frames.simps [code]

text \<open>One frame of the envelope: an error, or whether the frame is the expected one; if not, the
  message is skipped.\<close>

definition expect_frame :: "(pmsg \<Rightarrow> bool) \<Rightarrow> req \<Rightarrow> pool \<Rightarrow> ((errno + bool) \<times> req \<times> pool) option" where
  "expect_frame good s w =
     do { (r, s, w) \<leftarrow> recv_reply_pipe s w;
          case r of
            None \<Rightarrow> Some (Inl EAGAIN, s, w)
          | Some m \<Rightarrow>
              if good m then Some (Inr True, s, w)
              else do { (s, w) \<leftarrow> skip_frames m s w; Some (Inr False, s, w) } }"

definition is_id_frame :: "u32 \<Rightarrow> pmsg \<Rightarrow> bool" where
  "is_id_frame x m \<longleftrightarrow> pm_more m \<and> length (pm_data m) = 4 \<and> pm_data m = id_bytes x"

definition is_bottom_frame :: "pmsg \<Rightarrow> bool" where
  "is_bottom_frame m \<longleftrightarrow> pm_more m \<and> length (pm_data m) = 0"

definition expect_id :: "req \<Rightarrow> pool \<Rightarrow> ((errno + bool) \<times> req \<times> pool) option" where
  "expect_id s w = (if request_id_frames_enabled s then expect_frame (is_id_frame (request_id s)) s w else Some (Inr True, s, w))"

text \<open>The body of the loop \<open>while (message_begins)\<close>: an error, or whether the envelope was found.\<close>

definition expect_envelope :: "req \<Rightarrow> pool \<Rightarrow> ((errno + bool) \<times> req \<times> pool) option" where
  "expect_envelope s w =
     do { (r, s, w) \<leftarrow> expect_id s w;
          case r of
            Inl e \<Rightarrow> Some (Inl e, s, w)
          | Inr ok \<Rightarrow> if ok then expect_frame is_bottom_frame s w else Some (Inr False, s, w) }"

partial_function (option) find_envelope :: "req \<Rightarrow> pool \<Rightarrow> ((errno + unit) \<times> req \<times> pool) option" where
  "find_envelope s w =
     (if \<not> message_begins s then Some (Inr (), s, w)
      else do { (r, s, w) \<leftarrow> expect_envelope s w;
                case r of
                  Inl e \<Rightarrow> Some (Inl e, s, w)
                | Inr ok \<Rightarrow> find_envelope (if ok then s\<lparr>message_begins := False\<rparr> else s) w })"

declare find_envelope.simps [code]

definition req_xrecv :: "req \<Rightarrow> pool \<Rightarrow> ((errno + pmsg) \<times> req \<times> pool) option" where
  "req_xrecv s w =
     (if \<not> receiving_reply s then Some (Inl EFSM, s, w)
      else do { (r, s, w) \<leftarrow> find_envelope s w;
                case r of
                  Inl e \<Rightarrow> Some (Inl e, s, w)
                | Inr _ \<Rightarrow>
                    do { (r, s, w) \<leftarrow> recv_reply_pipe s w;
                         Some (case r of
                                 None \<Rightarrow> (Inl EAGAIN, s, w)
                               | Some m \<Rightarrow>
                                   (Inr m, if \<not> pm_more m then s\<lparr>receiving_reply := False, message_begins := True\<rparr> else s, w)) } })"

definition req_xhas_in :: "req \<Rightarrow> pool \<Rightarrow> (bool \<times> req \<times> pool) option" where
  "req_xhas_in s w =
     (if \<not> receiving_reply s then Some (False, s, w)
      else map_option (\<lambda>(b, d, w). (b, s\<lparr>rq_dealer := d\<rparr>, w)) (dealer_xhas_in (rq_dealer s) w))"

definition req_xhas_out :: "req \<Rightarrow> pool \<Rightarrow> (bool \<times> req \<times> pool) option" where
  "req_xhas_out s w =
     (if receiving_reply s then Some (False, s, w)
      else map_option (\<lambda>(b, d, w). (b, s\<lparr>rq_dealer := d\<rparr>, w)) (dealer_xhas_out (rq_dealer s) w))"

definition ZMQ_REQ_CORRELATE :: int where "ZMQ_REQ_CORRELATE = 52"
definition ZMQ_REQ_RELAXED :: int where "ZMQ_REQ_RELAXED = 53"

definition req_xsetsockopt :: "int \<Rightarrow> int option \<Rightarrow> req \<Rightarrow> (errno + unit) \<times> req" where
  "req_xsetsockopt opt value s =
     (case value of
        Some v \<Rightarrow>
          if opt = ZMQ_REQ_CORRELATE \<and> v \<ge> 0 then (Inr (), s\<lparr>request_id_frames_enabled := v \<noteq> 0\<rparr>)
          else if opt = ZMQ_REQ_RELAXED \<and> v \<ge> 0 then (Inr (), s\<lparr>rq_strict := v = 0\<rparr>)
          else let (r, d) = dealer_xsetsockopt opt value (rq_dealer s) in (r, s\<lparr>rq_dealer := d\<rparr>)
      | None \<Rightarrow> let (r, d) = dealer_xsetsockopt opt value (rq_dealer s) in (r, s\<lparr>rq_dealer := d\<rparr>))"

definition req_xpipe_terminated :: "addr \<Rightarrow> req \<Rightarrow> pool \<Rightarrow> req option" where
  "req_xpipe_terminated p s w =
     do { let s = (if reply_pipe s = Some p then s\<lparr>reply_pipe := None\<rparr> else s);
          d \<leftarrow> dealer_xpipe_terminated p (rq_dealer s) w;
          Some (s\<lparr>rq_dealer := d\<rparr>) }"

section \<open>Replies as frame sequences\<close>

abbreviation req_fq :: "req \<Rightarrow> fq" where "req_fq s \<equiv> dl_fq (rq_dealer s)"

definition reply_from :: "req \<Rightarrow> addr \<Rightarrow> bool" where
  "reply_from s p \<longleftrightarrow> reply_pipe s = None \<or> reply_pipe s = Some p"

text \<open>What a client expects of its replies: the first message with the right envelope counts, the others are
  ignored.\<close>

fun strip :: "(pmsg \<Rightarrow> bool) list \<Rightarrow> pmsg list \<Rightarrow> pmsg list option" where
  "strip [] ms = Some ms"
| "strip (g # gs) [] = None"
| "strip (g # gs) (m # ms) = (if g m then strip gs ms else None)"

definition envelope :: "bool \<Rightarrow> u32 \<Rightarrow> (pmsg \<Rightarrow> bool) list" where
  "envelope ids x = (if ids then [is_id_frame x] else []) @ [is_bottom_frame]"

function find_reply :: "(pmsg \<Rightarrow> bool) list \<Rightarrow> pmsg list \<Rightarrow> pmsg list option" where
  "find_reply env ms =
     (if ms = [] then None
      else case strip env ms of Some body \<Rightarrow> Some body | None \<Rightarrow> find_reply env (drop_msg ms))"
  by pat_completeness auto
termination by (relation "measure (length \<circ> snd)") (auto simp: drop_msg_less)

declare find_reply.simps [simp del]

lemma reply_from_simps [simp]: "reply_from (s\<lparr>rq_dealer := d\<rparr>) = reply_from s" "reply_from (s\<lparr>message_begins := b\<rparr>) = reply_from s"
  by (simp_all add: reply_from_def fun_eq_iff)

text \<open>The outcome of waiting for a frame from one of the pipes \<open>P\<close>.\<close>

definition replied :: "(addr \<Rightarrow> bool) \<Rightarrow> fq \<Rightarrow> pool \<Rightarrow> pmsg option \<Rightarrow> fq \<Rightarrow> pool \<Rightarrow> bool" where
  "replied P f w r f' w' \<longleftrightarrow> fq_whole f' w' \<and> rr_all f' = rr_all f \<and>
     (r = None \<longrightarrow> (\<forall>p \<in> rr_all f. pin w' p = [] \<and> (P p \<longrightarrow> pin w p = []))) \<and>
     (\<forall>m. r = Some m \<longrightarrow> waiting f' w' < waiting f w \<and> rr_more f' = pm_more m \<and>
        (\<exists>p \<in> rr_all f. P p \<and> pin w p = m # pin w' p \<and> (pm_more m \<longrightarrow> rr_cur f' = p)))"

lemma replied_skip:
  assumes "replied P f1 w1 r f' w'" "rr_all f1 = rr_all f" "waiting f1 w1 < waiting f w" "\<And>q. P q \<Longrightarrow> pin w1 q = pin w q"
  shows "replied P f w r f' w'"
proof -
  have "\<exists>p \<in> rr_all f. P p \<and> pin w p = m # pin w' p \<and> (pm_more m \<longrightarrow> rr_cur f' = p)" if "r = Some m" for m
  proof -
    from assms(1) that obtain p where "p \<in> rr_all f1" "P p" "pin w1 p = m # pin w' p" "pm_more m \<longrightarrow> rr_cur f' = p"
      by (auto simp: replied_def)
    then show ?thesis using assms(2,4) by (intro bexI [of _ p]) auto
  qed
  then show ?thesis using assms by (auto simp: replied_def)
qed

lemma recv_reply_ok:
  assumes "fq_whole (req_fq s) w"
  shows "\<exists>r d w'. recv_reply_pipe s w = Some (r, s\<lparr>rq_dealer := d\<rparr>, w') \<and> replied (reply_from s) (req_fq s) w r (dl_fq d) w'"
  using assms
proof (induction "waiting (req_fq s) w" arbitrary: s w rule: less_induct)
  case less
  from fq_recv_inbox [OF less.prems] obtain res f w1 where f: "fq_recvpipe (req_fq s) w = Some (res, f, w1)" "fq_whole f w1"
    "rr_all f = rr_all (req_fq s)" "case res of
       None \<Rightarrow> \<not> rr_more (req_fq s) \<and> \<not> rr_more f \<and> rr_active f = 0 \<and> (\<forall>p \<in> rr_all (req_fq s). pin w p = [] \<and> pin w1 p = [])
     | Some (p, m) \<Rightarrow> p \<in> rr_all (req_fq s) \<and> (rr_more (req_fq s) \<longrightarrow> p = rr_cur (req_fq s)) \<and> rr_more f = pm_more m \<and>
         (pm_more m \<longrightarrow> rr_cur f = p) \<and> pin w p = m # pin w1 p \<and> (\<forall>q. q \<noteq> p \<longrightarrow> pin w1 q = pin w q)" by blast
  let ?d = "rq_dealer s\<lparr>dl_fq := f\<rparr>" and ?s = "s\<lparr>rq_dealer := rq_dealer s\<lparr>dl_fq := f\<rparr>\<rparr>"
  have d: "dealer_recvpipe (rq_dealer s) w = Some (res, ?d, w1)" using f(1) by (simp add: dealer_recvpipe_def)
  show ?case
  proof (cases res)
    case None
    then have "recv_reply_pipe s w = Some (None, ?s, w1)" using d by (subst recv_reply_pipe.simps) simp
    then show ?thesis using f None by (intro exI [of _ None] exI [of _ ?d] exI [of _ w1]) (auto simp: replied_def)
  next
    case (Some pm)
    then obtain p m where pm: "res = Some (p, m)" by (cases pm) auto
    have lt: "waiting f w1 < waiting (req_fq s) w" using waiting_less [of p "req_fq s" f w m w1] f(3,4) pm by auto
    show ?thesis
    proof (cases "reply_from s p")
      case True
      then have "recv_reply_pipe s w = Some (Some m, ?s, w1)" using d pm by (subst recv_reply_pipe.simps) (simp add: reply_from_def)
      then show ?thesis using f pm lt True by (intro exI [of _ "Some m"] exI [of _ ?d] exI [of _ w1]) (auto simp: replied_def)
    next
      case False
      then have rec: "recv_reply_pipe s w = recv_reply_pipe ?s w1" using d pm
        by (subst recv_reply_pipe.simps) (auto simp: reply_from_def)
      have same: "pin w1 q = pin w q" if "reply_from s q" for q
      proof -
        have "q \<noteq> p" using that False by auto
        then show ?thesis using f(4) pm by simp
      qed
      from less.hyps [of ?s w1] lt f(2) obtain r d w' where
        r: "recv_reply_pipe ?s w1 = Some (r, ?s\<lparr>rq_dealer := d\<rparr>, w')" "replied (reply_from s) f w1 r (dl_fq d) w'" by auto
      show ?thesis using rec r(1) replied_skip [OF r(2) f(3) lt same] by (intro exI [of _ r] exI [of _ d] exI [of _ w']) simp
    qed
  qed
qed

lemma skip_frames_ok:
  assumes "fq_whole (req_fq s) w" "rr_more (req_fq s) = pm_more m" "pm_more m \<longrightarrow> reply_from s (rr_cur (req_fq s))"
  shows "\<exists>d w'. skip_frames m s w = Some (s\<lparr>rq_dealer := d\<rparr>, w') \<and> fq_whole (dl_fq d) w' \<and> rr_all (dl_fq d) = rr_all (req_fq s) \<and>
    waiting (dl_fq d) w' \<le> waiting (req_fq s) w \<and>
    (\<forall>p. reply_pipe s = Some p \<longrightarrow> pin w' p = (if pm_more m then drop_msg (pin w p) else pin w p))"
  using assms
proof (induction "waiting (req_fq s) w" arbitrary: s w m rule: less_induct)
  case less
  show ?case
  proof (cases "pm_more m")
    case False
    then show ?thesis using less.prems by (subst skip_frames.simps) (auto intro!: exI [of _ "rq_dealer s"])
  next
    case True
    let ?f = "req_fq s"
    have cur: "rr_cur ?f \<in> rr_all ?f" "pin w (rr_cur ?f) \<noteq> []"
      using less.prems(1,2) True rr_cur_act [of ?f] rr_act_all [of ?f] by (auto simp: fq_whole_def fq_pool_def rr_pool_def)
    from recv_reply_ok [OF less.prems(1)] obtain r d w1 where
      r: "recv_reply_pipe s w = Some (r, s\<lparr>rq_dealer := d\<rparr>, w1)" "replied (reply_from s) ?f w r (dl_fq d) w1" by blast
    from r(2) cur less.prems(3) True obtain m' where m': "r = Some m'" by (cases r) (auto simp: replied_def)
    let ?s = "s\<lparr>rq_dealer := d\<rparr>"
    from r(2) m' obtain p where f1: "fq_whole (dl_fq d) w1" "rr_all (dl_fq d) = rr_all ?f" and p: "waiting (dl_fq d) w1 < waiting ?f w" "rr_more (dl_fq d) = pm_more m'" "reply_from s p"
      "pin w p = m' # pin w1 p" "pm_more m' \<longrightarrow> rr_cur (dl_fq d) = p" by (auto simp: replied_def)
    from less.hyps [of ?s w1 m'] p f1(1) obtain d' w' where
      rec: "skip_frames m' ?s w1 = Some (?s\<lparr>rq_dealer := d'\<rparr>, w')" "fq_whole (dl_fq d') w'" "rr_all (dl_fq d') = rr_all (dl_fq d)"
        "waiting (dl_fq d') w' \<le> waiting (dl_fq d) w1"
        "\<forall>p. reply_pipe s = Some p \<longrightarrow> pin w' p = (if pm_more m' then drop_msg (pin w1 p) else pin w1 p)"
      by auto
    have "skip_frames m s w = skip_frames m' ?s w1" using True r(1) m' by (subst skip_frames.simps) simp
    then show ?thesis using rec p f1(2) True by (intro exI [of _ d'] exI [of _ w']) (auto simp: reply_from_def)
  qed
qed

text \<open>One message is tried against an envelope: nothing there, skipped, or taken up to its body.\<close>

definition stripped :: "(pmsg \<Rightarrow> bool) list \<Rightarrow> pmsg list \<Rightarrow> errno + bool \<Rightarrow> pmsg list \<Rightarrow> bool" where
  "stripped env ms r ms' \<longleftrightarrow>
     (if ms = [] then r = Inl EAGAIN \<and> ms' = []
      else case strip env ms of None \<Rightarrow> r = Inr False \<and> ms' = drop_msg ms | Some body \<Rightarrow> r = Inr True \<and> ms' = body)"

definition expected :: "(pmsg \<Rightarrow> bool) list \<Rightarrow> addr option \<Rightarrow> fq \<Rightarrow> pool \<Rightarrow> errno + bool \<Rightarrow> fq \<Rightarrow> pool \<Rightarrow> bool" where
  "expected env rp f w r f' w' \<longleftrightarrow> fq_whole f' w' \<and> rr_all f' = rr_all f \<and> (\<forall>e. r = Inl e \<longrightarrow> e = EAGAIN) \<and>
     (r \<noteq> Inl EAGAIN \<longrightarrow> waiting f' w' < waiting f w) \<and>
     (\<forall>p \<in> rr_all f. rp = Some p \<longrightarrow> stripped env (pin w p) r (pin w' p))"

lemma stripped_Cons:
  "stripped (g # gs) (m # ms) r ms' \<longleftrightarrow>
     (if g m then (case strip gs ms of None \<Rightarrow> r = Inr False \<and> ms' = drop_msg (m # ms) | Some body \<Rightarrow> r = Inr True \<and> ms' = body)
      else r = Inr False \<and> ms' = drop_msg (m # ms))"
  by (simp add: stripped_def)

lemma stripped_append:
  assumes "stripped [g] ms (Inr True) ms1" "stripped gs ms1 r ms2" "whole_msgs ms" "\<And>m. g m \<Longrightarrow> pm_more m"
  shows "stripped (g # gs) ms r ms2"
proof -
  obtain m where m: "ms = m # ms1" "g m" using assms(1) by (cases ms) (auto simp: stripped_def split: if_splits)
  then have "pm_more m" "ms1 \<noteq> []" using assms(3,4) whole_msgs_ConsD by auto
  then show ?thesis using assms(2) m by (simp add: stripped_def split: option.splits)
qed

lemma stripped_miss: "stripped [g] ms r ms' \<Longrightarrow> r \<noteq> Inr True \<Longrightarrow> stripped (g # gs) ms r ms'"
  by (cases ms) (auto simp: stripped_def split: if_splits)

lemma expect_frame_ok:
  assumes "fq_whole (req_fq s) w"
  shows "\<exists>r d w'. expect_frame good s w = Some (r, s\<lparr>rq_dealer := d\<rparr>, w') \<and>
    expected [good] (reply_pipe s) (req_fq s) w r (dl_fq d) w'"
proof -
  let ?f = "req_fq s"
  from recv_reply_ok [OF assms] obtain r d w1 where
    r: "recv_reply_pipe s w = Some (r, s\<lparr>rq_dealer := d\<rparr>, w1)" "replied (reply_from s) ?f w r (dl_fq d) w1" by blast
  show ?thesis
  proof (cases r)
    case None
    then have "expect_frame good s w = Some (Inl EAGAIN, s\<lparr>rq_dealer := d\<rparr>, w1)" using r(1) by (simp add: expect_frame_def)
    then show ?thesis using r(2) None by (auto simp: replied_def expected_def stripped_def reply_from_def)
  next
    case (Some m)
    with r(2) obtain p where f1: "fq_whole (dl_fq d) w1" "rr_all (dl_fq d) = rr_all ?f" and
      p: "waiting (dl_fq d) w1 < waiting ?f w" "rr_more (dl_fq d) = pm_more m" "reply_from s p" "pin w p = m # pin w1 p"
        "pm_more m \<longrightarrow> rr_cur (dl_fq d) = p" by (auto simp: replied_def)
    show ?thesis
    proof (cases "good m")
      case True
      then have "expect_frame good s w = Some (Inr True, s\<lparr>rq_dealer := d\<rparr>, w1)" using r(1) Some by (simp add: expect_frame_def)
      then show ?thesis using f1 p True by (auto simp: reply_from_def expected_def stripped_Cons)
    next
      case False
      from skip_frames_ok [of "s\<lparr>rq_dealer := d\<rparr>" w1 m] f1 p obtain d' w' where
        sk: "skip_frames m (s\<lparr>rq_dealer := d\<rparr>) w1 = Some (s\<lparr>rq_dealer := d'\<rparr>, w')" "fq_whole (dl_fq d') w'"
          "rr_all (dl_fq d') = rr_all (dl_fq d)" "waiting (dl_fq d') w' \<le> waiting (dl_fq d) w1"
          "\<forall>p. reply_pipe s = Some p \<longrightarrow> pin w' p = (if pm_more m then drop_msg (pin w1 p) else pin w1 p)" by auto
      have "expect_frame good s w = Some (Inr False, s\<lparr>rq_dealer := d'\<rparr>, w')" using r(1) Some sk(1) False by (simp add: expect_frame_def)
      moreover have "expected [good] (reply_pipe s) ?f w (Inr False) (dl_fq d') w'"
        using sk f1 p False by (auto simp: reply_from_def expected_def stripped_Cons)
      ultimately show ?thesis by blast
    qed
  qed
qed

text \<open>What \<open>find_envelope\<close> achieves.\<close>

definition found :: "req \<Rightarrow> pool \<Rightarrow> errno + unit \<Rightarrow> fq \<Rightarrow> pool \<Rightarrow> bool" where
  "found s w r f' w' \<longleftrightarrow> fq_whole f' w' \<and> rr_all f' = rr_all (req_fq s) \<and> r \<in> {Inl EAGAIN, Inr ()} \<and>
     (r = Inr () \<longrightarrow> waiting f' w' < waiting (req_fq s) w) \<and>
     (\<forall>p \<in> rr_all (req_fq s). reply_pipe s = Some p \<longrightarrow>
        (case find_reply (envelope (request_id_frames_enabled s) (request_id s)) (pin w p) of
           None \<Rightarrow> r = Inl EAGAIN \<and> pin w' p = []
         | Some body \<Rightarrow> r = Inr () \<and> pin w' p = body))"

lemma find_reply_step:
  assumes "stripped env ms r ms'"
  shows "(r = Inl EAGAIN \<longrightarrow> find_reply env ms = None \<and> ms' = []) \<and> (r = Inr True \<longrightarrow> find_reply env ms = Some ms') \<and>
    (r = Inr False \<longrightarrow> find_reply env ms = find_reply env ms')"
  using assms by (subst (1 2 3) find_reply.simps) (auto simp: stripped_def split: if_splits option.splits)

lemma expect_envelope_ok:
  assumes "fq_whole (req_fq s) w"
  shows "\<exists>r d w'. expect_envelope s w = Some (r, s\<lparr>rq_dealer := d\<rparr>, w') \<and>
    expected (envelope (request_id_frames_enabled s) (request_id s)) (reply_pipe s) (req_fq s) w r (dl_fq d) w'"
proof (cases "request_id_frames_enabled s")
  case False
  then show ?thesis using expect_frame_ok [OF assms, of is_bottom_frame] by (simp add: expect_envelope_def expect_id_def envelope_def)
next
  case True
  let ?g = "is_id_frame (request_id s)"
  have env: "envelope True (request_id s) = [?g, is_bottom_frame]" by (simp add: envelope_def)
  from expect_frame_ok [OF assms, of ?g] obtain r d w1 where
    r: "expect_frame ?g s w = Some (r, s\<lparr>rq_dealer := d\<rparr>, w1)" "expected [?g] (reply_pipe s) (req_fq s) w r (dl_fq d) w1" by blast
  show ?thesis
  proof (cases "r = Inr True")
    case False
    then have "expect_envelope s w = Some (r, s\<lparr>rq_dealer := d\<rparr>, w1)"
      using True r(1) by (cases r) (auto simp: expect_envelope_def expect_id_def)
    then show ?thesis using r(2) True False stripped_miss by (auto simp: env expected_def)
  next
    case ok: True
    let ?s = "s\<lparr>rq_dealer := d\<rparr>"
    have eq: "expect_envelope s w = expect_frame is_bottom_frame ?s w1" using True ok r(1) by (simp add: expect_envelope_def expect_id_def)
    from expect_frame_ok [of ?s w1 is_bottom_frame] r(2) obtain r2 d2 w2 where
      r2: "expect_frame is_bottom_frame ?s w1 = Some (r2, s\<lparr>rq_dealer := d2\<rparr>, w2)"
        "expected [is_bottom_frame] (reply_pipe s) (dl_fq d) w1 r2 (dl_fq d2) w2" by (auto simp: expected_def)
    have "stripped [?g, is_bottom_frame] (pin w p) r2 (pin w2 p)" if "p \<in> rr_all (req_fq s)" "reply_pipe s = Some p" for p
      by (rule stripped_append [of _ _ "pin w1 p"])
        (use r(2) r2(2) ok that assms in \<open>auto simp: expected_def fq_whole_def is_id_frame_def\<close>)
    then have "expected [?g, is_bottom_frame] (reply_pipe s) (req_fq s) w r2 (dl_fq d2) w2"
      using r(2) r2(2) ok by (auto simp: expected_def)
    then show ?thesis unfolding eq using r2(1) True env by auto
  qed
qed

lemma find_envelope_ok:
  "fq_whole (req_fq s) w \<Longrightarrow> message_begins s \<Longrightarrow>
   \<exists>r d w'. find_envelope s w = Some (r, s\<lparr>rq_dealer := d, message_begins := r \<noteq> Inr ()\<rparr>, w') \<and> found s w r (dl_fq d) w'"
proof (induction "waiting (req_fq s) w" arbitrary: s w rule: less_induct)
  case less
  let ?env = "envelope (request_id_frames_enabled s) (request_id s)"
  from expect_envelope_ok [OF less.prems(1)] obtain r d w1 where
    r: "expect_envelope s w = Some (r, s\<lparr>rq_dealer := d\<rparr>, w1)" "expected ?env (reply_pipe s) (req_fq s) w r (dl_fq d) w1" by blast
  let ?s = "s\<lparr>rq_dealer := d\<rparr>"
  have fw: "fq_whole (dl_fq d) w1" "rr_all (dl_fq d) = rr_all (req_fq s)"
    "r \<noteq> Inl EAGAIN \<longrightarrow> waiting (dl_fq d) w1 < waiting (req_fq s) w" using r(2) by (auto simp: expected_def)
  have at: "stripped ?env (pin w p) r (pin w1 p)" if "p \<in> rr_all (req_fq s)" "reply_pipe s = Some p" for p
    using r(2) that by (auto simp: expected_def)
  have b: "?s\<lparr>message_begins := True\<rparr> = ?s" using less.prems(2) by simp
  consider "r = Inl EAGAIN" | "r = Inr True" | "r = Inr False" using r(2) by (cases r) (auto simp: expected_def)
  then show ?case
  proof cases
    case 1
    then have "find_envelope s w = Some (Inl EAGAIN, ?s\<lparr>message_begins := Inl EAGAIN \<noteq> Inr ()\<rparr>, w1)"
      using r(1) less.prems(2) b by (subst find_envelope.simps) simp
    moreover have "found s w (Inl EAGAIN) (dl_fq d) w1" using 1 fw at find_reply_step unfolding found_def by fastforce
    ultimately show ?thesis by blast
  next
    case 2
    then have "find_envelope s w = Some (Inr (), ?s\<lparr>message_begins := Inr () \<noteq> Inr ()\<rparr>, w1)" using r(1) less.prems(2)
      by (subst find_envelope.simps, simp) (subst find_envelope.simps, simp)
    moreover have "found s w (Inr ()) (dl_fq d) w1" using 2 fw at find_reply_step unfolding found_def by fastforce
    ultimately show ?thesis by blast
  next
    case 3
    then have eq: "find_envelope s w = find_envelope ?s w1" using r(1) less.prems(2) by (subst find_envelope.simps) simp
    have lt: "waiting (dl_fq d) w1 < waiting (req_fq s) w" using fw(3) 3 by simp
    from less.hyps [of ?s w1] lt fw(1) less.prems(2) obtain r' d' w' where
      rec: "find_envelope ?s w1 = Some (r', ?s\<lparr>rq_dealer := d', message_begins := r' \<noteq> Inr ()\<rparr>, w')" "found ?s w1 r' (dl_fq d') w'" by auto
    have fr: "find_reply ?env (pin w p) = find_reply ?env (pin w1 p)" if "p \<in> rr_all (req_fq s)" "reply_pipe s = Some p" for p
      using find_reply_step [OF at [OF that]] 3 by simp
    have "found s w r' (dl_fq d') w'" using rec(2) fw(2) fr lt unfolding found_def by auto
    then show ?thesis using eq rec(1) by auto
  qed
qed

section \<open>Receiving\<close>

lemma strip_body: "strip env ms = Some body \<Longrightarrow> env \<noteq> [] \<Longrightarrow> (\<And>g m. g \<in> set env \<Longrightarrow> g m \<Longrightarrow> pm_more m) \<Longrightarrow> whole_msgs ms \<Longrightarrow> body \<noteq> []"
proof (induction env ms rule: strip.induct)
  case (3 g gs m ms)
  then have "g m" "strip gs ms = Some body" by (auto split: if_splits)
  moreover have "whole_msgs ms" "ms \<noteq> []" using whole_msgs_ConsD [OF "3.prems"(4)] "3.prems"(3) [of g m] \<open>g m\<close> by auto
  ultimately show ?case using 3 by (cases gs) auto
qed auto

lemma envelope_more: "g \<in> set (envelope ids x) \<Longrightarrow> g m \<Longrightarrow> pm_more m"
  by (auto simp: envelope_def is_id_frame_def is_bottom_frame_def split: if_splits)

lemma find_reply_body: "find_reply (envelope ids x) ms = Some body \<Longrightarrow> whole_msgs ms \<Longrightarrow> body \<noteq> []"
proof (induction "envelope ids x" ms rule: find_reply.induct)
  case (1 ms)
  show ?case
  proof (cases "strip (envelope ids x) ms")
    case None
    then show ?thesis using 1 whole_drop_msg by (auto simp: find_reply.simps [of _ ms] split: if_splits)
  next
    case (Some b)
    then have "b = body" using "1.prems"(1) by (simp add: find_reply.simps [of _ ms] split: if_splits)
    moreover have "envelope ids x \<noteq> []" by (simp add: envelope_def)
    ultimately show ?thesis using strip_body [OF Some] envelope_more "1.prems"(2) by blast
  qed
qed

text \<open>C18: The reply a REQ socket returns is determined by what the replying peer sent: of the messages
  that wait in the pipe that took the request, the first one whose leading frames are the
  request id (with ZMQ_REQ_CORRELATE) and an empty frame is delivered without them, those before it are
  discarded, and EAGAIN is returned when there is none. Messages of other pipes never count.\<close>

theorem req_recv_matches:
  assumes "fq_whole (req_fq s) w" "receiving_reply s" "message_begins s" "reply_pipe s = Some p" "p \<in> rr_all (req_fq s)"
  shows "\<exists>r s' w'. req_xrecv s w = Some (r, s', w') \<and> fq_whole (req_fq s') w' \<and>
    (case find_reply (envelope (request_id_frames_enabled s) (request_id s)) (pin w p) of
       None \<Rightarrow> r = Inl EAGAIN \<and> receiving_reply s' \<and> message_begins s' \<and> pin w' p = []
     | Some body \<Rightarrow> r = Inr (hd body) \<and> pin w' p = tl body \<and> body \<noteq> [] \<and>
         receiving_reply s' = pm_more (hd body) \<and> message_begins s' = (\<not> pm_more (hd body)))"
proof -
  let ?env = "envelope (request_id_frames_enabled s) (request_id s)"
  from find_envelope_ok [OF assms(1,3)] obtain r d1 w1 where
    f: "find_envelope s w = Some (r, s\<lparr>rq_dealer := d1, message_begins := r \<noteq> Inr ()\<rparr>, w1)" "found s w r (dl_fq d1) w1" by blast
  define s1 where "s1 = s\<lparr>rq_dealer := d1, message_begins := r \<noteq> Inr ()\<rparr>"
  have s1: "fq_whole (req_fq s1) w1" "rr_all (req_fq s1) = rr_all (req_fq s)" "reply_pipe s1 = Some p" "receiving_reply s1"
    "message_begins s1 = (r \<noteq> Inr ())" "find_envelope s w = Some (r, s1, w1)"
    using f assms(2,4) by (auto simp: s1_def found_def)
  show ?thesis
  proof (cases "find_reply ?env (pin w p)")
    case None
    then have "r = Inl EAGAIN" "pin w1 p = []" using f(2) assms(4,5) by (auto simp: found_def)
    then show ?thesis using s1 None assms(2) by (simp add: req_xrecv_def)
  next
    case (Some body)
    have ne: "body \<noteq> []" using find_reply_body [OF Some] assms(1,5) by (auto simp: fq_whole_def)
    have r: "r = Inr ()" "pin w1 p = body" using f(2) Some assms(4,5) by (auto simp: found_def)
    from recv_reply_ok [OF s1(1)] obtain r2 d w2 where
      r2: "recv_reply_pipe s1 w1 = Some (r2, s1\<lparr>rq_dealer := d\<rparr>, w2)" "replied (reply_from s1) (req_fq s1) w1 r2 (dl_fq d) w2" by blast
    then obtain m where m: "r2 = Some m" using r(2) ne s1(2,3) assms(5) by (cases r2) (auto simp: replied_def reply_from_def)
    have b: "fq_whole (dl_fq d) w2" "body = m # pin w2 p" using r2(2) m s1(3) r(2) by (auto simp: replied_def reply_from_def)
    show ?thesis using r r2(1) m b s1 Some assms(2) by (simp add: req_xrecv_def)
  qed
qed

text \<open>C20: Receiving on a REQ socket always returns, whatever the peers have sent and also when the
  reply pipe is gone: the loops that skip foreign messages and unwanted envelopes end, none
  of their assertions fails, and a call that does not return an error has consumed frames.\<close>

theorem req_recv_returns:
  assumes "fq_whole (req_fq s) w"
  shows "\<exists>r s' w'. req_xrecv s w = Some (r, s', w') \<and> fq_whole (req_fq s') w' \<and> rr_all (req_fq s') = rr_all (req_fq s) \<and>
    (case r of Inl e \<Rightarrow> e = (if receiving_reply s then EAGAIN else EFSM) | Inr m \<Rightarrow> waiting (req_fq s') w' < waiting (req_fq s) w)"
proof -
  obtain r s1 w1 where f: "find_envelope s w = Some (r, s1, w1)" "fq_whole (req_fq s1) w1" "rr_all (req_fq s1) = rr_all (req_fq s)"
    "r \<in> {Inl EAGAIN, Inr ()}" "r = Inr () \<longrightarrow> waiting (req_fq s1) w1 \<le> waiting (req_fq s) w"
  proof (cases "message_begins s")
    case False
    then have "find_envelope s w = Some (Inr (), s, w)" by (subst find_envelope.simps) simp
    then show thesis using that assms by auto
  next
    case True
    from find_envelope_ok [OF assms True] that show thesis unfolding found_def by fastforce
  qed
  from recv_reply_ok [OF f(2)] obtain r2 d w2 where
    r2: "recv_reply_pipe s1 w1 = Some (r2, s1\<lparr>rq_dealer := d\<rparr>, w2)" "replied (reply_from s1) (req_fq s1) w1 r2 (dl_fq d) w2" by blast
  show ?thesis
  proof (cases "receiving_reply s")
    case False
    then show ?thesis using assms by (simp add: req_xrecv_def)
  next
    case True
    then show ?thesis using f r2 by (cases r2; cases r) (auto simp: req_xrecv_def replied_def)
  qed
qed

section \<open>Witnesses\<close>

text \<open>Pipe 0 took the request; a message without envelope, then the reply wait in it. Pipe 1 has a foreign message.\<close>

definition reply_pool :: pool where
  "reply_pool = [Some (sock_pipe [whole 3, bottom_frame, whole 5] 10), Some (sock_pipe [bottom_frame, whole 9] 10)]"

definition waiting_req :: req where
  "waiting_req = (req_new 7)\<lparr>rq_dealer := dealer_new\<lparr>dl_fq := fq_new\<lparr>rr_pipes := array_of [0, 1], rr_active := 2, rr_current := 1\<rparr>\<rparr>,
     receiving_reply := True, reply_pipe := Some 0\<rparr>"

lemmas frame_simps = whole_def bottom_frame_def pm_init_def pm_more_def pm_is_credential_def flag_more_def flag_credential_def

lemma reply_pins: "pin reply_pool 0 = [whole 3, bottom_frame, whole 5]" "pin reply_pool 1 = [bottom_frame, whole 9]"
  by (simp_all add: pin_def reply_pool_def heap_load_def sock_pipe_inbox frame_simps)

lemma waiting_req_whole: "fq_whole (req_fq waiting_req) reply_pool"
proof -
  have "array_ok (array_of [0, 1])" "elems (array_of [0, 1]) = [0, 1]" using array_of_ok [of "[0, 1]"] by auto
  then have "rr_all (req_fq waiting_req) = {0, 1}" "fq_pool (req_fq waiting_req) reply_pool"
    by (simp_all add: fq_pool_def rr_pool_def waiting_req_def rr_ok_def rr_all_def rr_act_def reply_pool_def heap_load_def sock_pipe_ok)
  then show ?thesis using reply_pins
    by (simp add: fq_whole_def whole_msgs_def waiting_req_def fq_new_def) (simp add: frame_simps)
qed

theorem req_recv_matches_witness:
  "\<exists>s' w'. req_xrecv waiting_req reply_pool = Some (Inr (whole 5), s', w') \<and> pin w' 0 = [] \<and> \<not> receiving_reply s'"
proof -
  have "elems (array_of [0, 1]) = [0, 1]" using array_of_ok [of "[0, 1]"] by auto
  then have p: "0 \<in> rr_all (req_fq waiting_req)" by (simp add: waiting_req_def rr_all_def)
  have "find_reply (envelope False x) [whole 3, bottom_frame, whole 5] = Some [whole 5]" for x
    by (simp add: find_reply.simps envelope_def is_bottom_frame_def frame_simps)
  then show ?thesis
    using req_recv_matches [of waiting_req reply_pool 0, OF waiting_req_whole _ _ _ p] reply_pins(1)
    by (simp add: waiting_req_def req_new_def) (auto simp: frame_simps)
qed

theorem req_recv_returns_witness:
  "\<exists>r s' w'. req_xrecv (waiting_req\<lparr>reply_pipe := None\<rparr>) reply_pool = Some (r, s', w') \<and> fq_whole (req_fq s') w'"
  using req_recv_returns [of "waiting_req\<lparr>reply_pipe := None\<rparr>" reply_pool] waiting_req_whole by auto

end
