(* ===== verification/Reqsend.thy ===== *)
theory Reqsend
  imports Req
begin

text \<open>
  Sending a request (\<open>req_t::xsend\<close>, src/libzmq/src/req.cpp) and the two histories in which it brings the process down:
  before the body of the request is sent, stale messages are read from all pipes, and reading can end the
  life of the pipe that has the envelope; and a new request with ZMQ_REQ_RELAXED cuts off a half-read reply.
\<close>

abbreviation req_lb :: "req \<Rightarrow> lb" where "req_lb s \<equiv> dl_lb (rq_dealer s)"

section \<open>A pipe whose peer has gone\<close>

text \<open>The end-of-stream mark waits behind the messages of an active pipe.\<close>

definition ending :: "pctx \<Rightarrow> bool" where
  "ending c \<longleftrightarrow> readable (pe c) \<and> (\<exists>m \<in> set (payload (inflow c)). pm_delim m)"

definition doomed :: "pctx \<Rightarrow> bool" where "doomed c \<longleftrightarrow> ending c \<or> pstate (pe c) \<noteq> Active"

lemma read_doomed:
  assumes "ctx_ok c" "doomed c" "pipe_read c = Some (r, c')"
  shows "doomed c'"
proof (cases "readable (pe c)")
  case False
  then show ?thesis using assms by (simp add: pipe_read_def)
next
  case True
  from read_message_inflow [OF assms(1)] obtain r1 c1 where 1: "read_message c = Some (r1, c1)"
    "case payload (inflow c) of [] \<Rightarrow> r1 = None | m # ms \<Rightarrow> r1 = Some m \<and> payload (inflow c1) = ms" by blast
  show ?thesis
  proof (cases "pstate (pe c) = Active")
    case False
    then show ?thesis using read_flags [OF assms(3)] by (auto simp: doomed_def)
  next
    case act: True
    then obtain d where d: "d \<in> set (payload (inflow c))" "pm_delim d" using assms(2) by (auto simp: doomed_def ending_def)
    then obtain m where m: "r1 = Some m" "payload (inflow c) = m # payload (inflow c1)"
      using 1(2) by (cases "payload (inflow c)") auto
    show ?thesis
    proof (cases "pm_delim m")
      case True
      then have "process_delimiter c1 = Some c'" using 1(1) m assms(3) \<open>readable (pe c)\<close> by (auto simp: pipe_read_def bind_eq_Some_conv)
      then show ?thesis using process_delimiter_flags by (auto simp: doomed_def)
    next
      case False
      then have r: "r = Some m" "inflow c' = inflow c1"
        using 1(1) m assms(3) \<open>readable (pe c)\<close> by (auto simp: pipe_read_def Let_def split: if_splits)
      moreover have "readable (pe c')" using read_flags [OF assms(3)] r(1) by simp
      ultimately show ?thesis using d m False by (auto simp: doomed_def ending_def)
    qed
  qed
qed

text \<open>Reading from the pipes of a socket: what holds of a pipe and survives a read survives.\<close>

lemma fq_recvpipe_keeps:
  assumes "fq_recvpipe s w = Some (r, s', w')" "\<And>c r c'. ctx_ok c \<Longrightarrow> P c \<Longrightarrow> pipe_read c = Some (r, c') \<Longrightarrow> P c'"
    "heap_load w p = Some c" "ctx_ok c" "P c"
  shows "\<exists>c'. heap_load w' p = Some c' \<and> ctx_ok c' \<and> P c'"
proof -
  obtain res s1 where 1: "rr_scan rr_deactivate pipe_read (\<lambda>r. r \<noteq> None) s w = Some (res, s1, w')"
    using fq_recvpipe_scan [OF assms(1)] by blast
  have "steady (\<lambda>c. \<not> P c) (\<lambda>_. True) c c'" if "ctx_ok c" "pipe_read c = Some (r, c')" for c r c'
    using that assms(2) rd.op_ok by (auto simp: steady_def)
  then have "pool_steady (\<lambda>c. \<not> P c) (\<lambda>_. True) w w'" by (rule rr_scan_steady [OF 1])
  then show ?thesis using assms(3-5) by (auto simp: pool_steady_def steady_def)
qed

text \<open>The loop that drops stale messages ends with all pipes dry.\<close>

lemma req_drop_ok:
  assumes "fq_whole (dl_fq d) w"
  shows "\<exists>f w'. req_drop d w = Some (d\<lparr>dl_fq := f\<rparr>, w') \<and> fq_whole f w' \<and> rr_all f = rr_all (dl_fq d) \<and> \<not> rr_more f \<and> rr_active f = 0 \<and>
    (\<forall>p \<in> rr_all f. pin w' p = []) \<and> pool_steady out_phase out_flag w w' \<and>
    (\<forall>p c. heap_load w p = Some c \<longrightarrow> ctx_ok c \<longrightarrow> doomed c \<longrightarrow> (\<exists>c'. heap_load w' p = Some c' \<and> ctx_ok c' \<and> doomed c'))"
  using assms
proof (induction "waiting (dl_fq d) w" arbitrary: d w rule: less_induct)
  case less
  from fq_recv_inbox [OF less.prems] obtain res f w1 where f: "fq_recvpipe (dl_fq d) w = Some (res, f, w1)" "fq_whole f w1"
    "rr_all f = rr_all (dl_fq d)" "case res of
       None \<Rightarrow> \<not> rr_more (dl_fq d) \<and> \<not> rr_more f \<and> rr_active f = 0 \<and> (\<forall>p \<in> rr_all (dl_fq d). pin w p = [] \<and> pin w1 p = [])
     | Some (p, m) \<Rightarrow> p \<in> rr_all (dl_fq d) \<and> (rr_more (dl_fq d) \<longrightarrow> p = rr_cur (dl_fq d)) \<and> rr_more f = pm_more m \<and>
         (pm_more m \<longrightarrow> rr_cur f = p) \<and> pin w p = m # pin w1 p \<and> (\<forall>q. q \<noteq> p \<longrightarrow> pin w1 q = pin w q)" by blast
  obtain res' s1 where sc: "rr_scan rr_deactivate pipe_read (\<lambda>r. r \<noteq> None) (dl_fq d) w = Some (res', s1, w1)"
    using fq_recvpipe_scan [OF f(1)] by blast
  have st: "pool_steady out_phase out_flag w w1" by (rule rr_scan_steady [OF sc read_steady])
  have dm: "\<exists>c'. heap_load w1 p = Some c' \<and> ctx_ok c' \<and> doomed c'" if "heap_load w p = Some c" "ctx_ok c" "doomed c" for p c
    by (rule fq_recvpipe_keeps [where P = doomed, OF f(1) _ that]) (rule read_doomed)
  have rx: "dealer_xrecv d w = Some (map_option snd res, d\<lparr>dl_fq := f\<rparr>, w1)"
    using f(1) by (simp add: dealer_xrecv_def dealer_recvpipe_def)
  show ?case
  proof (cases res)
    case None
    then have "req_drop d w = Some (d\<lparr>dl_fq := f\<rparr>, w1)" using rx by (subst req_drop.simps) simp
    then show ?thesis using None f st dm by auto
  next
    case (Some pm)
    then obtain p m where pm: "res = Some (p, m)" by (cases pm) auto
    have lt: "waiting f w1 < waiting (dl_fq d) w" using waiting_less [of p "dl_fq d" f w m w1] f(3,4) pm by auto
    have eq: "req_drop d w = req_drop (d\<lparr>dl_fq := f\<rparr>) w1" using rx pm by (subst req_drop.simps) simp
    from less.hyps [of "d\<lparr>dl_fq := f\<rparr>" w1] lt f(2) obtain f' w' where
      *: "req_drop (d\<lparr>dl_fq := f\<rparr>) w1 = Some (d\<lparr>dl_fq := f'\<rparr>, w')" "fq_whole f' w'" "rr_all f' = rr_all f" "\<not> rr_more f'" "rr_active f' = 0"
        "\<forall>p \<in> rr_all f'. pin w' p = []" "pool_steady out_phase out_flag w1 w'"
        "\<forall>p c. heap_load w1 p = Some c \<longrightarrow> ctx_ok c \<longrightarrow> doomed c \<longrightarrow> (\<exists>c'. heap_load w' p = Some c' \<and> ctx_ok c' \<and> doomed c')" by auto
    have "\<exists>c'. heap_load w' p = Some c' \<and> ctx_ok c' \<and> doomed c'" if "heap_load w p = Some c" "ctx_ok c" "doomed c" for p c
      using dm [OF that] *(8) by blast
    then show ?thesis using eq * f(3) pool_steady_trans [OF st *(7)] by auto
  qed
qed

section \<open>Disconnection during a request\<close>

lemma lb_pool_steady: "lb_pool s w \<Longrightarrow> pool_steady out_phase out_flag w w' \<Longrightarrow> lb_pool s w'"
proof -
  assume a: "lb_pool s w" "pool_steady out_phase out_flag w w'"
  have "\<exists>c'. heap_load w' p = Some c' \<and> ctx_ok c' \<and> (p \<notin> rr_act s \<longrightarrow> \<not> writable (pe c'))" if "p \<in> rr_all s" for p
  proof -
    obtain c where c: "heap_load w p = Some c" "ctx_ok c" "p \<notin> rr_act s \<longrightarrow> \<not> writable (pe c)"
      using a(1) \<open>p \<in> rr_all s\<close> by (auto simp: lb_pool_def rr_pool_def)
    with a(2) obtain c' where "heap_load w' p = Some c'" "steady out_phase out_flag c c'" by (auto simp: pool_steady_def)
    then show ?thesis using c(3) by (auto simp: steady_def flag_defs writable_def)
  qed
  then show ?thesis using a(1) by (auto simp: lb_pool_def rr_pool_def)
qed

text \<open>A write leaves the inbound messages alone if the two channels are different ones.\<close>

lemma write_inflow:
  assumes "pipe_write lk m c = Some (r, c')" "inpipe (pe c) \<noteq> outpipe (pe c)"
  shows "inflow c' = inflow c \<and> pstate (pe c') = pstate (pe c) \<and> in_active (pe c') = in_active (pe c)"
proof (cases "fst (pipe_check_write c)")
  case False
  then have "c' = snd (pipe_check_write c)" using assms(1) by (cases "pipe_check_write c") (simp add: pipe_write_def)
  then show ?thesis by (auto simp: pipe_check_write_def inflow_upd upd_def inflow_def split: option.split)
next
  case True
  then have "pipe_check_write c = (True, c)" by (auto simp: pipe_check_write_def split: if_splits)
  with assms(1) obtain c1 where c1: "on_chan (outpipe (pe c)) (\<lambda>h. Some ((), chan_write lk m (pm_more m) h)) c = Some ((), c1)"
    "c' = (if \<not> pm_more m \<and> \<not> pm_is_identity m then upd (\<lambda>p. p\<lparr>msgs_written := msgs_written p + 1\<rparr>) c1 else c1)"
    by (auto simp: pipe_write_def on_out_def bind_eq_Some_conv)
  from c1(1) obtain a h h' where a: "outpipe (pe c) = Some a" "heap_store (ch c) a h' = Some h" "c1 = c\<lparr>ch := h\<rparr>"
    by (auto simp: on_chan_def bind_eq_Some_conv)
  then have "inflow c1 = inflow c" using heap_load_store [OF a(2)] assms(2)
    by (auto simp: inflow_def split: option.splits)
  then show ?thesis using c1(2) a(3) by (auto simp: upd_def inflow_def split: option.splits)
qed

text \<open>A peer that disconnects at the wrong moment brings the requester down: the empty frame of a request has
  gone into a pipe, and before the body follows, the loop that eats stale messages reads the end-of-stream
  mark that waits in the same pipe. The pipe then refuses the body, and the assertion \<open>!more\<close> of the load balancer
  fails.\<close>

theorem req_send_disconnect_aborts:
  assumes "fq_whole (req_fq s) w" "lb_pool (req_lb s) w" "lb_room (req_lb s) w" "\<not> rr_more (req_lb s)" "\<not> dropping (req_lb s)"
    "\<not> receiving_reply s" "message_begins s" "\<not> request_id_frames_enabled s"
    "p = rr_cur (req_lb s)" "p \<in> rr_all (req_fq s)" "heap_load w p = Some c" "ending c" "inpipe (pe c) \<noteq> outpipe (pe c)"
  shows "req_xsend lk m s w = None"
proof -
  let ?l = "req_lb s" and ?s0 = "s\<lparr>reply_pipe := None\<rparr>"
  have ok: "rr_ok ?l" "ctx_ok c" using assms(1,2,10,11) by (auto simp: lb_pool_def rr_pool_def fq_whole_def fq_pool_def)
  have pos: "0 < rr_active ?l" and room: "fst (pipe_check_write c)" using assms(3,9,11) by (auto simp: lb_room_def)
  have more: "pm_more bottom_frame" by (simp add: frame_simps)
  from took_total [OF ok(2) room, of lk bottom_frame] more obtain c1 where c1: "pipe_write lk bottom_frame c = Some (True, c1)" "ctx_ok c1" by auto
  from rr_scan_hit [of ?l w c "pipe_write lk bottom_frame" True c1 "\<lambda>r. r" lb_deactivate] ok pos assms(9,11) c1(1) obtain w1 where
    w1: "rr_scan lb_deactivate (pipe_write lk bottom_frame) (\<lambda>r. r) ?l w = Some (Some (p, True), ?l, w1)"
      "heap_load w1 = (heap_load w)(p \<mapsto> c1)" by auto
  let ?d1 = "rq_dealer s\<lparr>dl_lb := ?l\<lparr>rr_more := True\<rparr>\<rparr>"
  have snd: "req_sendpipe lk bottom_frame ?s0 w = Some (Inr (), ?s0\<lparr>rq_dealer := ?d1, reply_pipe := Some p\<rparr>, w1)"
    using w1(1) assms(5) more by (simp add: req_sendpipe_def dealer_sendpipe_def lb_sendpipe_def)
  have fl: "inflow c1 = inflow c" "pstate (pe c1) = pstate (pe c)" "in_active (pe c1) = in_active (pe c)"
    using write_inflow [OF c1(1) assms(13)] by auto
  have dm: "doomed c1" using assms(12) fl by (simp add: doomed_def ending_def readable_def)
  have rd: "readable (pe c1) = readable (pe c)" using fl by (simp add: readable_def)
  have pins: "pin w1 q = pin w q" for q using w1(2) assms(11) fl rd by (simp add: pin_def inbox_def)
  have fw: "fq_whole (dl_fq ?d1) w1"
    using assms(1) w1(2) c1(2) assms(11) fl pins unfolding fq_whole_def fq_pool_def rr_pool_def
    by (auto simp: rd)
  from req_drop_ok [OF fw] obtain f w2 where dr: "req_drop ?d1 w1 = Some (?d1\<lparr>dl_fq := f\<rparr>, w2)" "fq_whole f w2" "rr_all f = rr_all (req_fq s)" "rr_active f = 0" "pool_steady out_phase out_flag w1 w2"
    "\<forall>p c. heap_load w1 p = Some c \<longrightarrow> ctx_ok c \<longrightarrow> doomed c \<longrightarrow> (\<exists>c'. heap_load w2 p = Some c' \<and> ctx_ok c' \<and> doomed c')" by auto
  have "heap_load w1 p = Some c1" using w1(2) by simp
  then obtain c2 where c2: "heap_load w2 p = Some c2" "doomed c2" using dr(6) c1(2) dm by blast
  have "\<not> readable (pe c2)" using dr(2-4) assms(10) c2(1) by (auto simp: fq_whole_def fq_pool_def rr_pool_def rr_act_def)
  then have st: "pstate (pe c2) \<noteq> Active" using c2(2) by (simp add: doomed_def ending_def)
  have "lb_pool ?l w1" using assms(2) w1(2) c1(2) ok pos rr_cur_act [of ?l] assms(9) by (auto simp: lb_pool_def rr_pool_def)
  then have "lb_pool (?l\<lparr>rr_more := True\<rparr>) w2"
    using lb_pool_steady [OF _ dr(5)] by (simp add: lb_pool_def rr_pool_def rr_ok_def rr_all_def rr_act_def)
  then have "lb_sendpipe lk m (?l\<lparr>rr_more := True\<rparr>) w2 = None"
    by (rule lb_refused_aborts [where e = "pe c2"]) (use c2(1) st pos assms(5,9) in \<open>simp_all add: pool_pipe_def rr_cur_def\<close>)
  then show ?thesis using snd dr(1) assms(6-8)
    by (simp add: req_xsend_def req_send_frame_def req_send_envelope_def req_send_bottom_def dealer_xsend_def dealer_sendpipe_def)
qed

section \<open>A new request in the middle of a reply\<close>

lemma write_miss_room: "pipe_write lk m c = Some (r, c') \<Longrightarrow> \<not> r \<Longrightarrow> fst (pipe_check_write c') = fst (pipe_check_write c)"
  using write_room [of lk m c r c'] wr.miss_closes [of lk m c r c'] by (auto simp: pipe_check_write_def writable_def)

lemma lb_sendpipe_room:
  assumes "lb_pool s w" "\<not> rr_more s" "\<not> dropping s" "q \<in> rr_all s" "heap_load w q = Some c" "fst (pipe_check_write c)"
  shows "\<exists>p s' w'. lb_sendpipe lk m s w = Some (Inr (Some p), s', w')"
proof -
  from lb_sendpipe_ok [OF assms(1), of lk m] assms(2,3) obtain res s' w' where
    r: "lb_sendpipe lk m s w = Some (res, s', w')" "(case res of
       Inl e \<Rightarrow> e = EAGAIN \<and> \<not> rr_more s \<and> \<not> dropping s \<and> (\<forall>p \<in> rr_all s. full w' p)
     | Inr None \<Rightarrow> dropping s \<and> w' = w \<and> rr_more s' = pm_more m \<and> dropping s' = pm_more m
     | Inr (Some p) \<Rightarrow> \<not> dropping s \<and> p \<in> rr_act s \<and> (rr_more s \<longrightarrow> p = rr_cur s) \<and>
         rr_more s' = pm_more m \<and> (pm_more m \<longrightarrow> p = rr_cur s') \<and>
         (\<exists>c c'. heap_load w p = Some c \<and> took lk m c c' \<and> heap_load w' p = Some c') \<and>
         (\<forall>q. q \<noteq> p \<longrightarrow> full w' q \<or> heap_load w' q = heap_load w q))" by blast
  have "res \<noteq> Inl e" for e
  proof
    assume e: "res = Inl e"
    obtain x s1 w1 where sc: "rr_scan lb_deactivate (pipe_write lk m) (\<lambda>r. r) s w = Some (x, s1, w1)"
      using r(1) assms(3) by (auto simp: lb_sendpipe_def bind_eq_Some_conv)
    then have "rr_scan lb_deactivate (pipe_write lk m) (\<lambda>r. r) s w = Some (None, s1, w')"
      using r(1) e assms(3) by (cases x) (auto simp: lb_sendpipe_def bind_eq_Some_conv split: if_splits)
    then have "map_option (\<lambda>c. fst (pipe_check_write c)) (heap_load w' q) = map_option (\<lambda>c. fst (pipe_check_write c)) (heap_load w q)"
      by (rule wr.scan_keeps [OF _ assms(1) [unfolded lb_pool_def] lb_deactivate_eq]) (use write_miss_room in auto)
    then obtain c' where "heap_load w' q = Some c'" "fst (pipe_check_write c')" using assms(5,6) by auto
    moreover have "full w' q" using r(2) e assms(4) by simp
    ultimately show False using write_room [of lk m c' False c'] by (auto simp: full_def)
  qed
  then show ?thesis using r assms(3) by (cases res) (auto split: option.splits)
qed

lemma lb_sendpipe_scanned:
  assumes "lb_sendpipe lk m s w = Some (r, s', w')" "pm_more m" "\<not> dropping s"
  shows "pool_steady in_phase in_flag w w'"
proof -
  obtain res s1 where "rr_scan lb_deactivate (pipe_write lk m) (\<lambda>r. r) s w = Some (res, s1, w')"
    using assms by (auto simp: lb_sendpipe_def bind_eq_Some_conv split: option.splits)
  then show ?thesis by (rule rr_scan_steady) (rule write_steady)
qed

text \<open>ZMQ_REQ_RELAXED is fatal in the middle of a reply: when the first part of a multipart reply has been
  read and the application sends a new request that another pipe takes, the reply pipe is terminated, and
  the loop that eats stale messages then finds the rest of the reply unreadable, which fails
  the assertion \<open>!more\<close> of fair queueing.\<close>

theorem req_relaxed_resend_aborts:
  assumes "fq_pool (req_fq s) w" "rr_more (req_fq s)" "0 < rr_active (req_fq s)" "p = rr_cur (req_fq s)"
    "lb_pool (req_lb s) w" "\<not> rr_more (req_lb s)" "\<not> dropping (req_lb s)"
    "receiving_reply s" "\<not> rq_strict s" "reply_pipe s = Some p" "\<not> request_id_frames_enabled s"
    "pool_pipe w p = Some e" "pstate e = Active"
    "q \<in> rr_all (req_lb s)" "q \<noteq> p" "heap_load w q = Some cq" "fst (pipe_check_write cq)"
  shows "req_xsend lk m s w = None"
proof -
  let ?f = "req_fq s" and ?l = "req_lb s"
  have fok: "rr_ok ?f" and pf: "p \<in> rr_all ?f"
    using assms(1,3,4) rr_cur_act [of ?f] rr_act_all [of ?f] by (auto simp: fq_pool_def rr_pool_def)
  obtain c where c: "heap_load w p = Some c" "ctx_ok c" "pstate (pe c) = Active"
    using assms(1,12,13) pf by (auto simp: fq_pool_def rr_pool_def pool_pipe_def)
  from terminate_active [OF c(2,3), of lk] obtain c1 where
    c1: "pipe_terminate lk False c = Some c1" "ctx_ok c1" "\<not> in_phase c1" "\<not> out_phase c1" by blast
  from pool_do_at [of w p c "pipe_terminate lk False" c1] c(1) c1(1) obtain w1 where
    w1: "pool_do p (pipe_terminate lk False) w = Some w1" "heap_load w1 = (heap_load w)(p \<mapsto> c1)" by auto
  have lp: "lb_pool ?l w1" using assms(5) w1(2) c1(2,4) by (auto simp: lb_pool_def rr_pool_def writable_def out_phase_def)
  have "heap_load w1 q = Some cq" using w1(2) assms(15,16) by simp
  from lb_sendpipe_room [OF lp assms(6,7,14) this assms(17), of lk bottom_frame] obtain t l w2 where
    b: "lb_sendpipe lk bottom_frame ?l w1 = Some (Inr (Some t), l, w2)" by blast
  have "pool_steady in_phase in_flag w1 w2" by (rule lb_sendpipe_scanned [OF b _ assms(7)]) (simp add: frame_simps)
  moreover have "heap_load w1 p = Some c1" using w1(2) by simp
  ultimately obtain c2 where c2: "heap_load w2 p = Some c2" "steady in_phase in_flag c1 c2"
    using c1(2) unfolding pool_steady_def by blast
  then have "pipe_read c2 = Some (None, c2)" using c1(3) by (auto simp: steady_def in_phase_def pipe_read_def readable_def)
  from pool_op_at [of w2 p c2 pipe_read None c2, OF c2(1) this] obtain w3 where "pool_op p pipe_read w2 = Some (None, w3)" by blast
  then have "rr_scan rr_deactivate pipe_read (\<lambda>r. r \<noteq> None) ?f w2 = None"
    using rr_cur_at [OF fok assms(3)] assms(2-4) by (subst rr_scan.simps) simp
  then have "req_drop (rq_dealer s\<lparr>dl_lb := l\<rparr>) w2 = None"
    by (subst req_drop.simps) (simp add: dealer_xrecv_def dealer_recvpipe_def fq_recvpipe_def)
  then show ?thesis using w1(1) b assms(8-11)
    by (simp add: req_xsend_def req_send_frame_def req_send_envelope_def req_send_bottom_def req_sendpipe_def dealer_sendpipe_def)
qed

section \<open>Witnesses\<close>

text \<open>Two pipes; the peer of pipe 1, which is next, has closed its end.\<close>

definition leaving_pool :: pool where
  "leaving_pool = [Some (sock_pipe [] 10), Some (sock_pipe [pm_init_delimiter] 10)]"

definition idle_req :: req where
  "idle_req = (req_new 7)\<lparr>rq_dealer := dealer_new\<lparr>dl_fq := fq_new\<lparr>rr_pipes := array_of [0, 1], rr_active := 2\<rparr>,
     dl_lb := lb_new\<lparr>rr_pipes := array_of [0, 1], rr_active := 2, rr_current := 1\<rparr>\<rparr>\<rparr>"

lemma two_array: "array_ok (array_of [0, Suc 0])" "elems (array_of [0, Suc 0]) = [0, Suc 0]"
  using array_of_ok [of "[0, Suc 0]"] by auto

lemma sock_pipe_simps: "pe (sock_pipe ms h) = pipe_new 0 1 h h False" "fst (pipe_check_write (sock_pipe ms 10))"
  by (simp_all add: sock_pipe_def pipe_check_write_def pipe_new_def)

lemmas two_simps = two_array idle_req_def req_new_def dealer_new_def fq_new_def lb_new_def rr_ok_def rr_all_def rr_act_def rr_cur_def
  heap_load_def sock_pipe_ok sock_pipe_simps

lemma leaving_pool_ok: "fq_whole (req_fq idle_req) leaving_pool" "lb_pool (req_lb idle_req) leaving_pool"
  "lb_room (req_lb idle_req) leaving_pool"
proof -
  have "pin leaving_pool 0 = []" "pin leaving_pool 1 = []"
    by (simp_all add: pin_def leaving_pool_def heap_load_def sock_pipe_inbox pm_init_delimiter_def)
  then show "fq_whole (req_fq idle_req) leaving_pool"
    by (simp add: fq_whole_def fq_pool_def rr_pool_def two_simps leaving_pool_def whole_msgs_def)
  show "lb_pool (req_lb idle_req) leaving_pool" by (simp add: lb_pool_def rr_pool_def two_simps leaving_pool_def)
  show "lb_room (req_lb idle_req) leaving_pool"
    by (simp add: lb_room_def two_simps leaving_pool_def)
qed

theorem req_send_disconnect_aborts_witness: "req_xsend True (whole 8) idle_req leaving_pool = None"
  by (rule req_send_disconnect_aborts [OF leaving_pool_ok, where p = 1 and c = "sock_pipe [pm_init_delimiter] 10"])
    (simp_all add: two_simps leaving_pool_def, simp_all add: ending_def sock_pipe_def pipe_new_def readable_def inflow_def
      heap_load_def pm_init_delimiter_def pm_is_credential_def flag_credential_def)

text \<open>The first part of a reply from pipe 0 has been read.\<close>

definition reading_req :: req where
  "reading_req = idle_req\<lparr>receiving_reply := True, message_begins := False, reply_pipe := Some 0, rq_strict := False,
     rq_dealer := (rq_dealer idle_req)\<lparr>dl_fq := (req_fq idle_req)\<lparr>rr_more := True\<rparr>\<rparr>\<rparr>"

theorem req_relaxed_resend_aborts_witness:
  "req_xsend True (whole 8) reading_req [Some (sock_pipe [whole 5] 10), Some (sock_pipe [] 10)] = None"
  by (rule req_relaxed_resend_aborts [where p = 0 and q = 1 and e = "pipe_new 0 1 10 10 False" and cq = "sock_pipe [] 10"])
    (simp_all add: reading_req_def fq_pool_def lb_pool_def rr_pool_def two_simps pool_pipe_def pipe_new_def)

end
