(* ===== verification/Router.thy ===== *)
theory Router
  imports Dealer Inbox Wire
begin

text \<open>
  The ROUTER and REP sockets, \<open>router_t\<close> and \<open>rep_t\<close> (src/libzmq/src/router.cpp, rep.cpp): inbound messages are
  fair-queued and prefixed with the identity of their peer, outbound messages go to the peer that their
  first part names. The table of peers is a list of entries with distinct identities; the order of
  \<open>std::map\<close> only matters for a search that has at most one result.
\<close>

section \<open>ROUTER\<close>

type_synonym outpipes = "(blob \<times> addr \<times> bool) list"

record router =
  ro_fq :: fq
  prefetched :: bool
  identity_sent :: bool
  prefetched_id :: pmsg
  prefetched_msg :: pmsg
  more_in :: bool
  anonymous_pipes :: "addr set"
  outpipes :: outpipes
  current_out :: "addr option"
  more_out :: bool
  next_rid :: u32
  mandatory :: bool
  raw_sock :: bool
  ro_probe :: bool
  handover :: bool
  connect_rid :: blob
  opt_raw_sock :: bool
  opt_recv_identity :: bool

definition router_new :: "u32 \<Rightarrow> router" where
  "router_new rnd =
     \<lparr>ro_fq = fq_new, prefetched = False, identity_sent = False, prefetched_id = pm_init, prefetched_msg = pm_init,
      more_in = False, anonymous_pipes = {}, outpipes = [], current_out = None, more_out = False, next_rid = rnd,
      mandatory = False, raw_sock = False, ro_probe = False, handover = False, connect_rid = [],
      opt_raw_sock = False, opt_recv_identity = True\<rparr>"

definition out_find :: "blob \<Rightarrow> router \<Rightarrow> (addr \<times> bool) option" where
  "out_find i s = map_of (outpipes s) i"

text \<open>\<open>outpipes.insert (...).second\<close> with the assertion on it.\<close>

definition out_insert :: "blob \<Rightarrow> addr \<Rightarrow> bool \<Rightarrow> router \<Rightarrow> router option" where
  "out_insert i p act s = do { zmq_assert (out_find i s = None); Some (s\<lparr>outpipes := (i, p, act) # outpipes s\<rparr>) }"

definition out_erase :: "blob \<Rightarrow> router \<Rightarrow> router" where
  "out_erase i s = s\<lparr>outpipes := filter (\<lambda>e. fst e \<noteq> i) (outpipes s)\<rparr>"

definition out_set_active :: "blob \<Rightarrow> bool \<Rightarrow> router \<Rightarrow> router" where
  "out_set_active i act s = s\<lparr>outpipes := map (\<lambda>(j, p, a). (j, p, if j = i then act else a)) (outpipes s)\<rparr>"

text \<open>An identity of the socket's own: a zero byte and the counter.\<close>

definition new_rid :: "router \<Rightarrow> blob \<times> router" where
  "new_rid s = (0 # put_uint32 (next_rid s), s\<lparr>next_rid := next_rid s + 1\<rparr>)"

definition set_identity :: "addr \<Rightarrow> blob \<Rightarrow> pool \<Rightarrow> pool option" where
  "set_identity p i w = pool_do p (\<lambda>c. Some (pipe_set_identity i c)) w"

text \<open>The end of \<open>identify_peer\<close>.\<close>

definition register_peer :: "addr \<Rightarrow> blob \<Rightarrow> router \<Rightarrow> pool \<Rightarrow> (router \<times> pool) option" where
  "register_peer p i s w = do { w \<leftarrow> set_identity p i w; s \<leftarrow> out_insert i p True s; Some (s, w) }"

text \<open>The existing pipe \<open>q\<close> gives its identity \<open>i\<close> up and is terminated.\<close>

definition hand_over :: "bool \<Rightarrow> blob \<Rightarrow> addr \<times> bool \<Rightarrow> router \<Rightarrow> pool \<Rightarrow> (router \<times> pool) option" where
  "hand_over lk i qa s w =
     (let (j, s) = new_rid s
      in do { w \<leftarrow> set_identity (fst qa) j w;
              s \<leftarrow> out_insert j (fst qa) (snd qa) s;
              let s = out_erase i s;
              w \<leftarrow> pool_do (fst qa) (pipe_terminate lk True) w;
              Some (s, w) })"

definition identify_peer :: "bool \<Rightarrow> addr \<Rightarrow> router \<Rightarrow> pool \<Rightarrow> (bool \<times> router \<times> pool) option" where
  "identify_peer lk p s w =
     (if connect_rid s \<noteq> []
      then do { let i = connect_rid s;
                let s = s\<lparr>connect_rid := []\<rparr>;
                zmq_assert (out_find i s = None);
                (s, w) \<leftarrow> register_peer p i s w;
                Some (True, s, w) }
      else if opt_raw_sock s
      then do { let (i, s) = new_rid s;
                (s, w) \<leftarrow> register_peer p i s w;
                Some (True, s, w) }
      else do { (r, w) \<leftarrow> pool_op p pipe_read w;
                case r of
                  None \<Rightarrow> Some (False, s, w)
                | Some m \<Rightarrow>
                    if pm_data m = []
                    then do { let (i, s) = new_rid s;
                              (s, w) \<leftarrow> register_peer p i s w;
                              Some (True, s, w) }
                    else case out_find (pm_data m) s of
                           None \<Rightarrow> do { (s, w) \<leftarrow> register_peer p (pm_data m) s w; Some (True, s, w) }
                         | Some qa \<Rightarrow>
                             if \<not> handover s then Some (False, s, w)
                             else do { (s, w) \<leftarrow> hand_over lk (pm_data m) qa s w;
                                       (s, w) \<leftarrow> register_peer p (pm_data m) s w;
                                       Some (True, s, w) } })"

definition ro_attach_fq :: "addr \<Rightarrow> router \<Rightarrow> router option" where
  "ro_attach_fq p s = map_option (\<lambda>f. s\<lparr>ro_fq := f\<rparr>) (fq_attach p (ro_fq s))"

definition router_xattach_pipe :: "bool \<Rightarrow> addr \<Rightarrow> router \<Rightarrow> pool \<Rightarrow> (router \<times> pool) option" where
  "router_xattach_pipe lk p s w =
     do { w \<leftarrow> (if ro_probe s then send_probe lk p w else Some w);
          (ok, s, w) \<leftarrow> identify_peer lk p s w;
          s \<leftarrow> (if ok then ro_attach_fq p s else Some (s\<lparr>anonymous_pipes := insert p (anonymous_pipes s)\<rparr>));
          Some (s, w) }"

definition ZMQ_ROUTER_MANDATORY :: int where "ZMQ_ROUTER_MANDATORY = 33"
definition ZMQ_ROUTER_RAW :: int where "ZMQ_ROUTER_RAW = 41"
definition ZMQ_ROUTER_HANDOVER :: int where "ZMQ_ROUTER_HANDOVER = 56"
definition ZMQ_CONNECT_RID :: int where "ZMQ_CONNECT_RID = 61"

text \<open>The option value as the bytes that the caller passed and, when they have the size of an \<open>int\<close>, their value.\<close>

definition router_xsetsockopt :: "int \<Rightarrow> blob \<Rightarrow> int option \<Rightarrow> router \<Rightarrow> (errno + unit) \<times> router" where
  "router_xsetsockopt opt bytes value s =
     (if opt = ZMQ_CONNECT_RID then (if bytes \<noteq> [] then (Inr (), s\<lparr>connect_rid := bytes\<rparr>) else (Inl EINVAL, s))
      else case value of
             None \<Rightarrow> (Inl EINVAL, s)
           | Some v \<Rightarrow>
               if v < 0 then (Inl EINVAL, s)
               else if opt = ZMQ_ROUTER_RAW
               then (Inr (), if v \<noteq> 0 then s\<lparr>raw_sock := True, opt_recv_identity := False, opt_raw_sock := True\<rparr> else s\<lparr>raw_sock := False\<rparr>)
               else if opt = ZMQ_ROUTER_MANDATORY then (Inr (), s\<lparr>mandatory := v \<noteq> 0\<rparr>)
               else if opt = ZMQ_PROBE_ROUTER then (Inr (), s\<lparr>ro_probe := v \<noteq> 0\<rparr>)
               else if opt = ZMQ_ROUTER_HANDOVER then (Inr (), s\<lparr>handover := v \<noteq> 0\<rparr>)
               else (Inl EINVAL, s))"

definition router_xpipe_terminated :: "addr \<Rightarrow> router \<Rightarrow> pool \<Rightarrow> router option" where
  "router_xpipe_terminated p s w =
     (if p \<in> anonymous_pipes s then Some (s\<lparr>anonymous_pipes := anonymous_pipes s - {p}\<rparr>)
      else do { e \<leftarrow> pool_pipe w p;
                zmq_assert (out_find (pidentity e) s \<noteq> None);
                let s = out_erase (pidentity e) s;
                f \<leftarrow> fq_pipe_terminated p (ro_fq s) w;
                let s = s\<lparr>ro_fq := f\<rparr>;
                Some (if current_out s = Some p then s\<lparr>current_out := None\<rparr> else s) })"

definition router_xread_activated :: "bool \<Rightarrow> addr \<Rightarrow> router \<Rightarrow> pool \<Rightarrow> (router \<times> pool) option" where
  "router_xread_activated lk p s w =
     (if p \<notin> anonymous_pipes s then do { f \<leftarrow> fq_activated p (ro_fq s); Some (s\<lparr>ro_fq := f\<rparr>, w) }
      else do { (ok, s, w) \<leftarrow> identify_peer lk p s w;
                s \<leftarrow> (if ok then ro_attach_fq p (s\<lparr>anonymous_pipes := anonymous_pipes s - {p}\<rparr>) else Some s);
                Some (s, w) })"

definition router_xwrite_activated :: "addr \<Rightarrow> router \<Rightarrow> router option" where
  "router_xwrite_activated p s =
     (case find (\<lambda>(i, q, a). q = p) (outpipes s) of
        None \<Rightarrow> None
      | Some (i, q, a) \<Rightarrow> do { zmq_assert (\<not> a); Some (out_set_active i True s) })"

text \<open>The first part of an outbound message: choose the pipe.\<close>

definition router_route :: "pmsg \<Rightarrow> router \<Rightarrow> pool \<Rightarrow> ((errno + unit) \<times> router \<times> pool) option" where
  "router_route m s w =
     (if \<not> pm_more m then Some (Inr (), s, w)
      else do { let s = s\<lparr>more_out := True\<rparr>;
                case out_find (pm_data m) s of
                  Some (p, a) \<Rightarrow>
                    do { (ok, w) \<leftarrow> pool_op p check_write_op w;
                         if ok then Some (Inr (), s\<lparr>current_out := Some p\<rparr>, w)
                         else do { let s = (out_set_active (pm_data m) False s)\<lparr>current_out := None\<rparr>;
                                   Some (if mandatory s then (Inl EAGAIN, s\<lparr>more_out := False\<rparr>, w) else (Inr (), s, w)) } }
                | None \<Rightarrow> Some (if mandatory s then (Inl EHOSTUNREACH, s\<lparr>more_out := False\<rparr>, w) else (Inr (), s, w)) })"

text \<open>A further part goes to the chosen pipe, or is dropped.\<close>

definition router_push :: "bool \<Rightarrow> pmsg \<Rightarrow> router \<Rightarrow> pool \<Rightarrow> (router \<times> pool) option" where
  "router_push lk m0 s w =
     (let m = (if opt_raw_sock s then m0\<lparr>pm_flags := pm_flags m0 AND NOT flag_more\<rparr> else m0);
          s = s\<lparr>more_out := pm_more m\<rparr>
      in case current_out s of
           None \<Rightarrow> Some (s, w)
         | Some p \<Rightarrow>
             if raw_sock s \<and> pm_data m = []
             then do { w \<leftarrow> pool_do p (pipe_terminate lk False) w; Some (s\<lparr>current_out := None\<rparr>, w) }
             else do { (ok, w) \<leftarrow> pool_op p (pipe_write lk m) w;
                       if \<not> ok then Some (s\<lparr>current_out := None\<rparr>, w)
                       else if \<not> more_out s
                       then do { w \<leftarrow> pool_do p pipe_flush w; Some (s\<lparr>current_out := None\<rparr>, w) }
                       else Some (s, w) })"

definition router_xsend :: "bool \<Rightarrow> pmsg \<Rightarrow> router \<Rightarrow> pool \<Rightarrow> ((errno + unit) \<times> router \<times> pool) option" where
  "router_xsend lk m s w =
     (if \<not> more_out s then do { zmq_assert (current_out s = None); router_route m s w }
      else do { (s, w) \<leftarrow> router_push lk m s w; Some (Inr (), s, w) })"

text \<open>\<open>fq.recvpipe\<close> until the message is not an identity.\<close>

partial_function (option) router_fetch :: "fq \<Rightarrow> pool \<Rightarrow> ((addr \<times> pmsg) option \<times> fq \<times> pool) option" where
  "router_fetch f w =
     do { (r, f, w) \<leftarrow> fq_recvpipe f w;
          case r of
            None \<Rightarrow> Some (None, f, w)
          | Some (p, m) \<Rightarrow> if pm_is_identity m then router_fetch f w else Some (Some (p, m), f, w) }"

declare router_fetch.simps [code]

definition id_part :: "blob \<Rightarrow> pmsg" where "id_part i = \<lparr>pm_flags = flag_more, pm_delim = False, pm_data = i\<rparr>"

definition router_xrecv :: "router \<Rightarrow> pool \<Rightarrow> (pmsg option \<times> router \<times> pool) option" where
  "router_xrecv s w =
     (if prefetched s
      then (let (m, s) = (if \<not> identity_sent s then (prefetched_id s, s\<lparr>identity_sent := True, prefetched_id := pm_init\<rparr>)
                          else (prefetched_msg s, s\<lparr>prefetched := False, prefetched_msg := pm_init\<rparr>))
            in Some (Some m, s\<lparr>more_in := pm_more m\<rparr>, w))
      else do { (r, f, w) \<leftarrow> router_fetch (ro_fq s) w;
                let s = s\<lparr>ro_fq := f\<rparr>;
                case r of
                  None \<Rightarrow> Some (None, s, w)
                | Some (p, m) \<Rightarrow>
                    if more_in s then Some (Some m, s\<lparr>more_in := pm_more m\<rparr>, w)
                    else do { e \<leftarrow> pool_pipe w p;
                              Some (Some (id_part (pidentity e)),
                                    s\<lparr>prefetched_msg := m, prefetched := True, identity_sent := True\<rparr>, w) } })"

definition router_rollback :: "router \<Rightarrow> pool \<Rightarrow> (router \<times> pool) option" where
  "router_rollback s w =
     (case current_out s of
        None \<Rightarrow> Some (s, w)
      | Some p \<Rightarrow> do { w \<leftarrow> pool_do p pipe_rollback w; Some (s\<lparr>current_out := None, more_out := False\<rparr>, w) })"

definition router_xhas_in :: "router \<Rightarrow> pool \<Rightarrow> (bool \<times> router \<times> pool) option" where
  "router_xhas_in s w =
     (if more_in s \<or> prefetched s then Some (True, s, w)
      else do { (r, f, w) \<leftarrow> router_fetch (ro_fq s) w;
                let s = s\<lparr>ro_fq := f\<rparr>;
                case r of
                  None \<Rightarrow> Some (False, s\<lparr>prefetched_msg := pm_init\<rparr>, w)
                | Some (p, m) \<Rightarrow>
                    do { e \<leftarrow> pool_pipe w p;
                         Some (True, s\<lparr>prefetched_msg := m, prefetched_id := id_part (pidentity e), prefetched := True,
                                      identity_sent := False\<rparr>, w) } })"

definition router_xhas_out :: "router \<Rightarrow> bool" where "router_xhas_out s = True"

definition router_get_credential :: "router \<Rightarrow> pool \<Rightarrow> blob option" where
  "router_get_credential s w = fq_get_credential (ro_fq s) w"

section \<open>REP\<close>

record rep =
  rp_router :: router
  sending_reply :: bool
  request_begins :: bool

definition rep_new :: "u32 \<Rightarrow> rep" where
  "rep_new rnd = \<lparr>rp_router = router_new rnd, sending_reply = False, request_begins = True\<rparr>"

definition rep_xsend :: "bool \<Rightarrow> pmsg \<Rightarrow> rep \<Rightarrow> pool \<Rightarrow> ((errno + unit) \<times> rep \<times> pool) option" where
  "rep_xsend lk m s w =
     (if \<not> sending_reply s then Some (Inl EFSM, s, w)
      else do { (r, t, w) \<leftarrow> router_xsend lk m (rp_router s) w;
                let s = s\<lparr>rp_router := t\<rparr>;
                Some (r, if r = Inr () \<and> \<not> pm_more m then s\<lparr>sending_reply := False\<rparr> else s, w) })"

text \<open>The loop that copies the labels of a request to the reply pipe: \<open>Some True\<close> when the empty part was
  found, \<open>Some False\<close> for EAGAIN.\<close>

partial_function (option) copy_labels :: "bool \<Rightarrow> router \<Rightarrow> pool \<Rightarrow> (bool \<times> router \<times> pool) option" where
  "copy_labels lk t w =
     do { (r, t, w) \<leftarrow> router_xrecv t w;
          case r of
            None \<Rightarrow> Some (False, t, w)
          | Some m \<Rightarrow>
              if pm_more m
              then do { (e, t, w) \<leftarrow> router_xsend lk m t w;
                        zmq_assert (e = Inr ());
                        if pm_data m = [] then Some (True, t, w) else copy_labels lk t w }
              else do { (t, w) \<leftarrow> router_rollback t w; copy_labels lk t w } }"

declare copy_labels.simps [code]

definition rep_xrecv :: "bool \<Rightarrow> rep \<Rightarrow> pool \<Rightarrow> ((errno + pmsg) \<times> rep \<times> pool) option" where
  "rep_xrecv lk s w =
     (if sending_reply s then Some (Inl EFSM, s, w)
      else do { (ok, t, w) \<leftarrow> (if request_begins s then copy_labels lk (rp_router s) w else Some (True, rp_router s, w));
                let s = s\<lparr>rp_router := t\<rparr>;
                if \<not> ok then Some (Inl EAGAIN, s, w)
                else do { let s = s\<lparr>request_begins := False\<rparr>;
                          (r, t, w) \<leftarrow> router_xrecv (rp_router s) w;
                          let s = s\<lparr>rp_router := t\<rparr>;
                          Some (case r of
                                  None \<Rightarrow> (Inl EAGAIN, s, w)
                                | Some m \<Rightarrow>
                                    (Inr m, if \<not> pm_more m then s\<lparr>sending_reply := True, request_begins := True\<rparr> else s, w)) } })"

definition rep_xhas_in :: "rep \<Rightarrow> pool \<Rightarrow> (bool \<times> rep \<times> pool) option" where
  "rep_xhas_in s w =
     (if sending_reply s then Some (False, s, w)
      else map_option (\<lambda>(b, t, w). (b, s\<lparr>rp_router := t\<rparr>, w)) (router_xhas_in (rp_router s) w))"

definition rep_xhas_out :: "rep \<Rightarrow> bool" where
  "rep_xhas_out s \<longleftrightarrow> sending_reply s \<and> router_xhas_out (rp_router s)"

end
