(* ===== verification/Dealersys.thy ===== *)
theory Dealersys
  imports Dealer Sync
begin

text \<open>
  A DEALER socket with its pipes as a system: the calls of the application, the commands that its
  pipes receive with the events they raise (\<open>socket_base_t::read_activated\<close> and its siblings, src/libzmq/src/socket_base.cpp),
  new pipes, and whatever the peers do to the shared channels. The invariant ties the
  activity that the two queues record to the flags of the pipes.
\<close>

section \<open>Events\<close>

text \<open>\<open>imm\<close> is \<open>options.immediate == 1\<close>; otherwise a hiccup reaches \<open>xhiccuped\<close>, which this socket type
  does not implement.\<close>

fun dealer_event :: "bool \<Rightarrow> bool \<Rightarrow> addr \<Rightarrow> pevent \<Rightarrow> dealer \<times> pool \<Rightarrow> (dealer \<times> pool) option" where
  "dealer_event imm lk p ReadActivated (s, w) = map_option (\<lambda>s. (s, w)) (dealer_xread_activated p s)"
| "dealer_event imm lk p WriteActivated (s, w) = map_option (\<lambda>s. (s, w)) (dealer_xwrite_activated p s)"
| "dealer_event imm lk p Hiccuped (s, w) =
     (if imm then map_option (Pair s) (pool_do p (pipe_terminate lk False) w) else None)"
| "dealer_event imm lk p PipeTerminated (s, w) = map_option (\<lambda>s. (s, w)) (dealer_xpipe_terminated p s w)"

text \<open>The events that a command raises, in order, for any type of socket with its event handler \<open>ev\<close>.\<close>

fun sock_events :: "(addr \<Rightarrow> pevent \<Rightarrow> 's \<times> pool \<Rightarrow> ('s \<times> pool) option) \<Rightarrow> addr \<Rightarrow> pevent list \<Rightarrow> 's \<times> pool \<Rightarrow> ('s \<times> pool) option" where
  "sock_events ev p [] x = Some x"
| "sock_events ev p (e # es) x = do { x \<leftarrow> ev p e x; sock_events ev p es x }"

text \<open>A command for pipe \<open>p\<close>: its handler runs, the socket gets the events, and a pipe that has
  acknowledged its termination is gone.\<close>

definition sock_command :: "(addr \<Rightarrow> pevent \<Rightarrow> 's \<times> pool \<Rightarrow> ('s \<times> pool) option) \<Rightarrow> addr \<Rightarrow> pcmd \<Rightarrow> 's \<times> pool \<Rightarrow> ('s \<times> pool) option" where
  "sock_command ev p cmd x =
     do { c \<leftarrow> heap_load (snd x) p;
          (alive, c) \<leftarrow> process_command cmd (c\<lparr>raised := []\<rparr>);
          w \<leftarrow> heap_store (snd x) p c;
          (s, w) \<leftarrow> sock_events ev p (raised c) (fst x, w);
          w \<leftarrow> (if alive then Some w else heap_free w p);
          Some (s, w) }"

section \<open>The system\<close>

definition dealer_pipes :: "dealer \<Rightarrow> addr set" where "dealer_pipes s = rr_all (dl_fq s)"

text \<open>A new pipe can be read from and written to.\<close>

definition fresh_pipe :: "pctx \<Rightarrow> bool" where
  "fresh_pipe c \<longleftrightarrow> ctx_ok c \<and> in_active (pe c) \<and> fst (pipe_check_write c)"

text \<open>The peers only change the channels of an attached pipe.\<close>

definition peers_act :: "addr set \<Rightarrow> pool \<Rightarrow> pool \<Rightarrow> bool" where
  "peers_act P w w' \<longleftrightarrow>
     (\<forall>p \<in> P. \<exists>c h. heap_load w p = Some c \<and> heap_load w' p = Some (c\<lparr>ch := h\<rparr>) \<and> ctx_ok (c\<lparr>ch := h\<rparr>))"

inductive dealer_step :: "bool \<Rightarrow> dealer \<times> pool \<Rightarrow> dealer \<times> pool \<Rightarrow> bool" for imm where
  send: "dealer_sendpipe lk m s w = Some (r, s', w') \<Longrightarrow> dealer_step imm (s, w) (s', w')"
| recv: "dealer_recvpipe s w = Some (r, s', w') \<Longrightarrow> dealer_step imm (s, w) (s', w')"
| has_in: "dealer_xhas_in s w = Some (b, s', w') \<Longrightarrow> dealer_step imm (s, w) (s', w')"
| has_out: "dealer_xhas_out s w = Some (b, s', w') \<Longrightarrow> dealer_step imm (s, w) (s', w')"
| setopt: "dealer_xsetsockopt opt value s = (r, s') \<Longrightarrow> dealer_step imm (s, w) (s', w)"
| attach: "p \<notin> dealer_pipes s \<Longrightarrow> heap_load w p = Some c \<Longrightarrow> fresh_pipe c \<Longrightarrow>
    dealer_xattach_pipe lk p s w = Some (s', w') \<Longrightarrow> dealer_step imm (s, w) (s', w')"
| peers: "peers_act (dealer_pipes s) w w' \<Longrightarrow> dealer_step imm (s, w) (s, w')"
| command: "p \<in> dealer_pipes s \<Longrightarrow> heap_load w p = Some c \<Longrightarrow> process_command cmd (c\<lparr>raised := []\<rparr>) = Some (alive, c') \<Longrightarrow>
    (alive \<longrightarrow> ctx_ok c') \<Longrightarrow> sock_command (dealer_event imm lk) p cmd (s, w) = Some (s', w') \<Longrightarrow> dealer_step imm (s, w) (s', w')"

definition dealer_sync :: "dealer \<times> pool \<Rightarrow> bool" where
  "dealer_sync x \<longleftrightarrow> rr_sync in_phase in_flag (dl_fq (fst x)) (snd x) \<and> rr_sync out_phase out_flag (dl_lb (fst x)) (snd x) \<and>
     rr_all (dl_lb (fst x)) = rr_all (dl_fq (fst x))"

section \<open>Calls of the application\<close>

text \<open>For each call: the queue it works on stays in step with the pipes, and the flags of the other
  direction are left alone.\<close>

lemma fq_recvpipe_sync:
  assumes "rr_sync in_phase in_flag s w" "fq_recvpipe s w = Some (r, s', w')"
  shows "rr_sync in_phase in_flag s' w' \<and> rr_all s' = rr_all s \<and> pool_steady out_phase out_flag w w'"
proof -
  obtain res s1 where 1: "rr_scan rr_deactivate pipe_read (\<lambda>r. r \<noteq> None) s w = Some (res, s1, w')" "rr_next (res \<noteq> None) s1 s'"
    using fq_recvpipe_scan [OF assms(2)] by blast
  note p = rd.scan_returned [OF rsw.sync_pool [OF assms(1)] refl 1(1)]
  have s1: "rr_sync in_phase in_flag s1 w'" "rr_all s1 = rr_all s"
    using rsw.scan_sync [OF assms(1) 1(1)] p by (auto simp: rr_passed_def)
  have act: "res \<noteq> None \<Longrightarrow> 0 < rr_active s1" using p rr_result_active by blast
  show ?thesis using rr_next_sync [OF s1(1) 1(2) act] s1(2) rr_scan_steady [OF 1(1) read_steady] by simp
qed

lemma fq_recvpipe_from:
  assumes "rr_sync in_phase in_flag s w" "fq_recvpipe s w = Some (Some (p, m), s', w')"
  shows "p \<in> rr_all s"
proof -
  obtain res s1 w1 where 1: "rr_scan rr_deactivate pipe_read (\<lambda>r. r \<noteq> None) s w = Some (res, s1, w1)"
    using assms(2) by (auto simp: fq_recvpipe_def bind_eq_Some_conv)
  note q = rd.scan_returned [OF rsw.sync_pool [OF assms(1)] refl 1]
  obtain m' where "res = Some (p, Some m')" using assms(2) 1 by (auto simp: fq_recvpipe_def Let_def split: option.splits)
  then have "p = rr_cur s1" "0 < rr_active s1" using q by (auto simp: rr_result_def)
  then show ?thesis using q rr_cur_act [of s1] rr_act_all [of s1] by (auto simp: rr_pool_def rr_passed_def)
qed

lemma fq_has_in_sync:
  assumes "rr_sync in_phase in_flag s w" "fq_has_in s w = Some (b, s', w')"
  shows "rr_sync in_phase in_flag s' w' \<and> rr_all s' = rr_all s \<and> pool_steady out_phase out_flag w w'"
proof (cases "rr_more s")
  case True
  then show ?thesis using assms pool_steady_refl by (auto simp: fq_has_in_def)
next
  case False
  then obtain res where 1: "rr_scan rr_deactivate pipe_check_read (\<lambda>r. r) s w = Some (res, s', w')"
    using assms(2) by (auto simp: fq_has_in_def bind_eq_Some_conv)
  note p = crd.scan_returned [OF crsw.sync_pool [OF assms(1)] refl 1]
  then show ?thesis using crsw.scan_sync [OF assms(1) 1] rr_scan_steady [OF 1 check_read_steady] by (auto simp: rr_passed_def)
qed

lemma lb_sendpipe_sync:
  assumes "rr_sync out_phase out_flag s w" "lb_sendpipe lk m s w = Some (r, s', w')"
  shows "rr_sync out_phase out_flag s' w' \<and> rr_all s' = rr_all s \<and> pool_steady in_phase in_flag w w'"
proof (cases "dropping s")
  case True
  then show ?thesis using assms pool_steady_refl
    by (auto simp: lb_sendpipe_def rr_sync_def rr_ok_def rr_all_def rr_act_def)
next
  case False
  from lb_sendpipe_scan [OF assms(2) this] obtain res s1 w1 where
    1: "rr_scan lb_deactivate (pipe_write lk m) (\<lambda>r. r) s w = Some (res, s1, w1)" "rr_next (res \<noteq> None) s1 s'"
      "w' = w1 \<or> (\<exists>p. pool_do p pipe_flush w1 = Some w')" by blast
  note p = wr.scan_returned [OF wsw.sync_pool [OF assms(1)] lb_deactivate_eq 1(1)]
  have s1: "rr_sync out_phase out_flag s1 w1" "rr_all s1 = rr_all s" "pool_steady in_phase in_flag w w1"
    using wsw.scan_sync [OF assms(1) 1(1)] p rr_scan_steady [OF 1(1) write_steady] by (auto simp: rr_passed_def)
  have "pool_steady in_phase in_flag w1 w' \<and> pool_steady out_phase out_flag w1 w'"
    using 1(3) pool_do_steady [of _ pipe_flush w1 w'] flush_steady pool_steady_refl by blast
  then have f: "pool_steady in_phase in_flag w1 w'" "rr_sync out_phase out_flag s1 w'" using sync_steady [OF s1(1)] by auto
  have act: "res \<noteq> None \<Longrightarrow> 0 < rr_active s1" using p rr_result_active by blast
  show ?thesis using rr_next_sync [OF f(2) 1(2) act] s1(2) pool_steady_trans [OF s1(3) f(1)] by simp
qed

lemma lb_has_out_sync:
  assumes "rr_sync out_phase out_flag s w" "lb_has_out s w = Some (b, s', w')"
  shows "rr_sync out_phase out_flag s' w' \<and> rr_all s' = rr_all s \<and> pool_steady in_phase in_flag w w'"
proof (cases "rr_more s")
  case True
  then show ?thesis using assms pool_steady_refl by (auto simp: lb_has_out_def)
next
  case False
  then obtain res where 1: "rr_scan rr_deactivate check_write_op (\<lambda>r. r) s w = Some (res, s', w')"
    using assms(2) by (auto simp: lb_has_out_def bind_eq_Some_conv)
  note p = cwr.scan_returned [OF cwsw.sync_pool [OF assms(1)] refl 1]
  then show ?thesis using cwsw.scan_sync [OF assms(1) 1] rr_scan_steady [OF 1 check_write_steady] by (auto simp: rr_passed_def)
qed

section \<open>Pipes come and go\<close>

lemma rr_sync_insert:
  "rr_sync ph fl s w \<Longrightarrow> rr_ok s' \<Longrightarrow> rr_all s' = insert p (rr_all s) \<Longrightarrow> rr_act s' = insert p (rr_act s) \<Longrightarrow>
   heap_load w' = (heap_load w)(p \<mapsto> c) \<Longrightarrow> ctx_ok c \<Longrightarrow> (ph c \<longrightarrow> fl c) \<Longrightarrow> rr_sync ph fl s' w'"
  unfolding rr_sync_def by auto

lemma rr_sync_remove:
  "rr_sync ph fl s w \<Longrightarrow> rr_ok s' \<Longrightarrow> rr_all s' = rr_all s - {p} \<Longrightarrow> rr_act s' = rr_act s - {p} \<Longrightarrow>
   (\<And>q. q \<noteq> p \<Longrightarrow> heap_load w' q = heap_load w q) \<Longrightarrow> rr_sync ph fl s' w'"
  unfolding rr_sync_def by auto

lemma dealer_syncD:
  assumes "dealer_sync (s, w)"
  shows "fq_pool (dl_fq s) w" "lb_pool (dl_lb s) w"
  using assms rsw.sync_pool [of "dl_fq s" w] wsw.sync_pool [of "dl_lb s" w]
  by (auto simp: dealer_sync_def fq_pool_def lb_pool_def)

lemma probe_fresh:
  assumes "fresh_pipe c" "heap_load w p = Some c"
  shows "\<exists>w' c'. send_probe lk p w = Some w' \<and> heap_load w' = (heap_load w)(p \<mapsto> c') \<and> ctx_ok c' \<and> in_active (pe c') \<and> out_active (pe c')"
proof -
  from took_total [of c lk pm_init] assms(1) obtain c1 c2 where c: "pipe_write lk pm_init c = Some (True, c1)" "ctx_ok c1" "ctx_ok c2"
    "pipe_flush c1 = Some c2" by (auto simp: fresh_pipe_def pm_more_def pm_init_def)
  from pool_op_at [of w p c "pipe_write lk pm_init", OF assms(2) c(1)] obtain w1 where
    w1: "pool_op p (pipe_write lk pm_init) w = Some (True, w1)" "heap_load w1 = (heap_load w)(p \<mapsto> c1)" by blast
  from pool_do_at [of w1 p c1 pipe_flush c2] w1(2) c(4) obtain w2 where
    "pool_do p pipe_flush w1 = Some w2" "heap_load w2 = (heap_load w1)(p \<mapsto> c2)" by auto
  then show ?thesis using w1 c write_flags [OF c(1)] flush_flags [OF c(4)] assms(1)
    by (auto simp: send_probe_def fresh_pipe_def writable_def)
qed

lemma dealer_attach_sync:
  assumes "dealer_sync (s, w)" "p \<notin> dealer_pipes s" "heap_load w p = Some c" "fresh_pipe c"
  shows "\<exists>s' w'. dealer_xattach_pipe lk p s w = Some (s', w') \<and> dealer_sync (s', w')"
proof -
  have pr: "\<exists>w1 c1. (if dl_probe s then send_probe lk p w else Some w) = Some w1 \<and> heap_load w1 = (heap_load w)(p \<mapsto> c1) \<and>
      ctx_ok c1 \<and> in_active (pe c1) \<and> out_active (pe c1)"
  proof (cases "dl_probe s")
    case True
    then show ?thesis using probe_fresh [OF assms(4,3)] by auto
  next
    case False
    then show ?thesis using assms(3,4)
      by (auto simp: fresh_pipe_def pipe_check_write_def split: if_splits intro!: exI [of _ w] exI [of _ c])
  qed
  then obtain w1 c1 where w1: "(if dl_probe s then send_probe lk p w else Some w) = Some w1"
    "heap_load w1 = (heap_load w)(p \<mapsto> c1)" "ctx_ok c1" "in_active (pe c1)" "out_active (pe c1)" by blast
  have all: "rr_all (dl_lb s) = rr_all (dl_fq s)" using assms(1) by (simp add: dealer_sync_def)
  from fq_attach_ok [OF dealer_syncD(1) [OF assms(1)], of p c] assms(2-4) obtain f where
    f: "fq_attach p (dl_fq s) = Some f" "rr_ok f" "rr_all f = insert p (rr_all (dl_fq s))" "rr_act f = insert p (rr_act (dl_fq s))"
    by (auto simp: dealer_pipes_def fresh_pipe_def fq_pool_def rr_pool_def)
  from lb_attach_ok [OF dealer_syncD(2) [OF assms(1)], of p c] assms(2-4) all obtain l where
    l: "lb_attach p (dl_lb s) = Some l" "rr_ok l" "rr_all l = insert p (rr_all (dl_lb s))" "rr_act l = insert p (rr_act (dl_lb s))"
    by (auto simp: dealer_pipes_def fresh_pipe_def lb_pool_def rr_pool_def)
  have "rr_sync in_phase in_flag f w1"
    by (rule rr_sync_insert [OF _ f(2-4) w1(2,3)]) (use assms(1) w1(4) in \<open>auto simp: dealer_sync_def in_flag_def\<close>)
  moreover have "rr_sync out_phase out_flag l w1"
    by (rule rr_sync_insert [OF _ l(2-4) w1(2,3)]) (use assms(1) w1(5) in \<open>auto simp: dealer_sync_def out_flag_def\<close>)
  ultimately show ?thesis using w1(1) f(1,3) l(1,3) all by (auto simp: dealer_xattach_pipe_def dealer_sync_def)
qed

section \<open>Commands\<close>

lemma on_chan_raised: "on_chan p f s = Some (r, s') \<Longrightarrow> raised s' = raised s"
  by (auto simp: on_chan_def bind_eq_Some_conv)

lemma drain_raised:
  assumes "drain p s = Some s'"
  shows "raised s' = raised s"
proof (rule drain.raw_induct [where P = "\<lambda>p s s'. raised s' = raised s", OF _ assms])
  fix dr p s s'
  assume IH: "\<And>p s s'. dr p s = Some s' \<Longrightarrow> raised s' = raised s"
    and eq: "do { (r, s) \<leftarrow> on_chan p (\<lambda>c. Some (chan_read c)) s;
       case r of None \<Rightarrow> Some s | Some m \<Rightarrow> dr p (close_msg m s) } = Some s'"
  then obtain r s1 where "on_chan p (\<lambda>c. Some (chan_read c)) s = Some (r, s1)"
    "(case r of None \<Rightarrow> Some s1 | Some m \<Rightarrow> dr p (close_msg m s1)) = Some s'" by (auto simp: bind_eq_Some_conv)
  then show "raised s' = raised s"
    using on_chan_raised [of p _ s r s1] IH [of p _ s'] by (cases r) (auto simp: close_msg_def)
qed

lemma delete_chan_raised: "delete_chan p s = Some s' \<Longrightarrow> raised s' = raised s"
  by (auto simp: delete_chan_def bind_eq_Some_conv)

definition same_in :: "pctx \<Rightarrow> pctx \<Rightarrow> bool" where
  "same_in c c' \<longleftrightarrow> (in_phase c' \<longrightarrow> in_phase c \<and> in_flag c' = in_flag c)"

definition same_out :: "pctx \<Rightarrow> pctx \<Rightarrow> bool" where
  "same_out c c' \<longleftrightarrow> (out_phase c' \<longrightarrow> out_phase c \<and> out_flag c' = out_flag c)"

text \<open>What a command handler does to the flags, by the event it raises.\<close>

definition cmd_effect :: "bool \<Rightarrow> pctx \<Rightarrow> pctx \<Rightarrow> bool" where
  "cmd_effect alive c c' \<longleftrightarrow>
     raised c' = [] \<and> alive \<and> same_in c c' \<and> same_out c c' \<or>
     raised c' = [ReadActivated] \<and> alive \<and> in_phase c \<and> \<not> in_flag c \<and> in_flag c' \<and> same_out c c' \<or>
     raised c' = [WriteActivated] \<and> alive \<and> out_phase c \<and> \<not> out_flag c \<and> out_flag c' \<and> same_in c c' \<or>
     raised c' = [Hiccuped] \<and> alive \<and> pstate (pe c') = Active \<or>
     raised c' = [PipeTerminated] \<and> \<not> alive"

lemma hiccup_effect:
  assumes "process_hiccup a c = Some c'" "raised c = []"
  shows "cmd_effect True c c'"
proof -
  from assms(1) obtain r c1 c2 c3 where c: "on_chan (outpipe (pe c)) (\<lambda>h. Some (chan_flush h)) c = Some (r, c1)"
    "drain (outpipe (pe c1)) c1 = Some c2" "delete_chan (outpipe (pe c2)) c2 = Some c3"
    "c' = (let s = upd (\<lambda>p. p\<lparr>outpipe := Some a, out_active := True\<rparr>) c3 in if pstate (pe s) = Active then raise_ev Hiccuped s else s)"
    by (auto simp: process_hiccup_def on_out_def bind_eq_Some_conv Let_def split: if_splits)
  have "pe c3 = pe c" "raised c3 = []"
    using on_chan_same [OF c(1)] drain_same [OF c(2)] delete_chan_same [OF c(3)]
      on_chan_raised [OF c(1)] drain_raised [OF c(2)] delete_chan_raised [OF c(3)] assms(2) by simp_all
  then show ?thesis unfolding c(4)
    by (auto simp: cmd_effect_def same_in_def same_out_def flag_defs upd_def raise_ev_def Let_def)
qed

lemma term_ack_effect:
  assumes "process_pipe_term_ack c = Some c'" "raised c = []"
  shows "raised c' = [PipeTerminated]"
proof -
  from assms(1) obtain c1 c2 where c: "(if pstate (pe (raise_ev PipeTerminated c)) = TermReqSent1
      then Some (send_cmd PipeTermAck (upd (\<lambda>p. p\<lparr>outpipe := None\<rparr>) (raise_ev PipeTerminated c)))
      else do { zmq_assert (pstate (pe (raise_ev PipeTerminated c)) = TermAckSent \<or> pstate (pe (raise_ev PipeTerminated c)) = TermReqSent2);
        Some (raise_ev PipeTerminated c) }) = Some c1"
    "(if \<not> conflate (pe c1) then drain (inpipe (pe c1)) c1 else Some c1) = Some c2" "delete_chan (inpipe (pe c2)) c2 = Some c'"
    unfolding process_pipe_term_ack_def Let_def bind_eq_Some_conv by blast
  have "raised c1 = [PipeTerminated]"
    using c(1) assms(2) by (auto simp: raise_ev_def send_cmd_def upd_def zmq_assert_def split: if_splits)
  moreover have "raised c2 = raised c1" using c(2) drain_raised by (auto split: if_splits)
  ultimately show ?thesis using delete_chan_raised [OF c(3)] by simp
qed

lemma activate_read_effect: "raised c = [] \<Longrightarrow> cmd_effect True c (process_activate_read c)"
  by (cases "\<not> in_active (pe c) \<and> (pstate (pe c) = Active \<or> pstate (pe c) = WaitingForDelimiter)")
    (simp_all add: process_activate_read_def cmd_effect_def same_in_def same_out_def flag_defs upd_def raise_ev_def)

lemma activate_write_effect: "raised c = [] \<Longrightarrow> cmd_effect True c (process_activate_write n c)"
  by (cases "\<not> out_active (pe c) \<and> pstate (pe c) = Active")
    (simp_all add: process_activate_write_def cmd_effect_def same_in_def same_out_def flag_defs upd_def raise_ev_def Let_def)

lemma pipe_term_effect:
  assumes "process_pipe_term c = Some c'" "raised c = []"
  shows "cmd_effect True c c'"
proof -
  have "pstate (pe c) = Active \<or> pstate (pe c) = DelimiterReceived \<or> pstate (pe c) = TermReqSent1"
    using assms(1) by (cases "pstate (pe c)") (simp_all add: process_pipe_term_def)
  then show ?thesis using assms
    by (elim disjE; cases "delay (pe c)")
      (simp_all add: process_pipe_term_def cmd_effect_def same_in_def same_out_def flag_defs upd_def send_cmd_def,
       auto simp: flag_defs)
qed

lemma command_effects:
  assumes "process_command cmd c = Some (alive, c')" "raised c = []"
  shows "cmd_effect alive c c'"
  using assms activate_read_effect activate_write_effect hiccup_effect pipe_term_effect term_ack_effect
  by (cases cmd) (auto simp: cmd_effect_def [of False])

text \<open>Storing the pipe after a command that does not concern a queue.\<close>

lemma rr_sync_store:
  "rr_sync ph fl s w \<Longrightarrow> heap_load w p = Some c \<Longrightarrow> heap_load w' = (heap_load w)(p \<mapsto> c') \<Longrightarrow> ctx_ok c' \<Longrightarrow>
   (ph c' \<longrightarrow> ph c \<and> fl c' = fl c) \<Longrightarrow> rr_sync ph fl s w'"
  by (auto simp: rr_sync_def)

lemma fq_terminated_rr:
  assumes "rr_ok s" "p \<in> rr_all s" "pool_pipe w p = Some e"
  shows "\<exists>s'. fq_pipe_terminated p s w = Some s' \<and> rr_ok s' \<and> rr_all s' = rr_all s - {p} \<and> rr_act s' = rr_act s - {p}"
proof -
  from rr_remove_ok [OF assms(1,2)] obtain s1 where "rr_remove p s = Some s1" "rr_ok s1" "rr_all s1 = rr_all s - {p}"
    "rr_act s1 = rr_act s - {p}" by blast
  then show ?thesis using assms(3) by (auto simp: fq_pipe_terminated_def rr_ok_def rr_all_def rr_act_def)
qed

lemma dealer_command_sync:
  assumes sync: "dealer_sync (s, w)" and p: "p \<in> dealer_pipes s" "heap_load w p = Some c"
    and cmd: "process_command cmd (c\<lparr>raised := []\<rparr>) = Some (alive, c')" "alive \<longrightarrow> ctx_ok c'" "Hiccuped \<in> set (raised c') \<longrightarrow> imm"
  shows "\<exists>s' w'. sock_command (dealer_event imm lk) p cmd (s, w) = Some (s', w') \<and> dealer_sync (s', w')"
proof -
  obtain w1 where w1: "heap_store w p c' = Some w1" using heap_store_ok [of w p c'] p(2) by auto
  note ld = heap_load_store [OF w1]
  have fl: "flag (c\<lparr>raised := []\<rparr>) = flag c" if "flag \<in> {in_phase, in_flag, out_phase, out_flag}" for flag
    using that by (auto simp: flag_defs)
  have p': "p \<in> rr_all (dl_fq s)" "p \<in> rr_all (dl_lb s)" "rr_all (dl_lb s) = rr_all (dl_fq s)"
    using p(1) sync by (auto simp: dealer_pipes_def dealer_sync_def)
  have fs: "rr_sync in_phase in_flag (dl_fq s) w" and ls: "rr_sync out_phase out_flag (dl_lb s) w"
    using sync by (auto simp: dealer_sync_def)
  have inp: "in_phase c \<longrightarrow> (p \<in> rr_act (dl_fq s) \<longleftrightarrow> in_flag c)" using rr_sync_at [OF fs p'(1)] p(2) by simp
  have outp: "out_phase c \<longrightarrow> (p \<in> rr_act (dl_lb s) \<longleftrightarrow> out_flag c)" using rr_sync_at [OF ls p'(2)] p(2) by simp
  have in1: "rr_sync in_phase in_flag (dl_fq s) w1" if "same_in c c'" "alive"
    by (rule rr_sync_store [OF fs p(2) ld]) (use cmd(2) that in \<open>auto simp: same_in_def\<close>)
  have out1: "rr_sync out_phase out_flag (dl_lb s) w1" if "same_out c c'" "alive"
    by (rule rr_sync_store [OF ls p(2) ld]) (use cmd(2) that in \<open>auto simp: same_out_def\<close>)
  have run: "sock_command (dealer_event imm lk) p cmd (s, w) = sock_events (dealer_event imm lk) p (raised c') (s, w1) \<bind>
      (\<lambda>(s, w). do { w \<leftarrow> (if alive then Some w else heap_free w p); Some (s, w) })"
    using p(2) cmd(1) w1 by (simp add: sock_command_def)
  have "cmd_effect alive c c'"
    using command_effects [OF cmd(1)] by (simp add: cmd_effect_def same_in_def same_out_def fl)
  then show ?thesis unfolding cmd_effect_def
  proof (elim disjE conjE)
    assume "raised c' = []" "alive" "same_in c c'" "same_out c c'"
    then show ?thesis unfolding run using in1 out1 p'(3) by (simp add: dealer_sync_def)
  next
    assume a: "raised c' = [ReadActivated]" "alive" "in_phase c" "\<not> in_flag c" "in_flag c'" "same_out c c'"
    then have "p \<notin> rr_act (dl_fq s)" using inp by simp
    from fq_activated_ok [OF dealer_syncD(1) [OF sync] p'(1) this] obtain f where
      f: "fq_activated p (dl_fq s) = Some f" "rr_ok f" "rr_all f = insert p (rr_all (dl_fq s))" "rr_act f = insert p (rr_act (dl_fq s))"
      using p'(1) by (auto simp: fq_pool_def rr_pool_def)
    have "rr_sync in_phase in_flag f w1" by (rule rr_sync_insert [OF fs f(2-4) ld]) (use a cmd(2) in auto)
    then show ?thesis unfolding run using a out1 f(1,3) p' by (simp add: dealer_xread_activated_def dealer_sync_def insert_absorb)
  next
    assume a: "raised c' = [WriteActivated]" "alive" "out_phase c" "\<not> out_flag c" "out_flag c'" "same_in c c'"
    then have "p \<notin> rr_act (dl_lb s)" using outp by simp
    from lb_activated_ok [OF dealer_syncD(2) [OF sync] p'(2) this] obtain l where
      l: "lb_activated p (dl_lb s) = Some l" "rr_ok l" "rr_all l = insert p (rr_all (dl_lb s))" "rr_act l = insert p (rr_act (dl_lb s))"
      using p'(2) by (auto simp: lb_pool_def rr_pool_def)
    have "rr_sync out_phase out_flag l w1" by (rule rr_sync_insert [OF ls l(2-4) ld]) (use a cmd(2) in auto)
    then show ?thesis unfolding run using a in1 l(1,3) p' by (simp add: dealer_xwrite_activated_def dealer_sync_def insert_absorb)
  next
    assume a: "raised c' = [Hiccuped]" "alive" "pstate (pe c') = Active"
    with terminate_active [of c' lk] cmd(2) obtain c2 where c2: "pipe_terminate lk False c' = Some c2" "ctx_ok c2" "\<not> in_phase c2" "\<not> out_phase c2" by blast
    from pool_do_at [of w1 p c' "pipe_terminate lk False" c2] ld c2(1) obtain w2 where
      w2: "pool_do p (pipe_terminate lk False) w1 = Some w2" "heap_load w2 = (heap_load w)(p \<mapsto> c2)" by auto
    have "rr_sync in_phase in_flag (dl_fq s) w2" by (rule rr_sync_store [OF fs p(2) w2(2) c2(2)]) (use c2 in simp)
    moreover have "rr_sync out_phase out_flag (dl_lb s) w2" by (rule rr_sync_store [OF ls p(2) w2(2) c2(2)]) (use c2 in simp)
    ultimately show ?thesis unfolding run using a w2(1) cmd(3) p'(3) by (simp add: dealer_sync_def)
  next
    assume a: "raised c' = [PipeTerminated]" "\<not> alive"
    have at: "pool_pipe w1 p = Some (pe c')" using ld by (simp add: pool_pipe_def)
    obtain f where f: "fq_pipe_terminated p (dl_fq s) w1 = Some f" "rr_ok f" "rr_all f = rr_all (dl_fq s) - {p}" "rr_act f = rr_act (dl_fq s) - {p}"
      using fq_terminated_rr [OF _ p'(1) at] fs by (auto simp: rr_sync_def)
    from lb_pipe_terminated_ok [OF dealer_syncD(2) [OF sync] p'(2)] obtain l where
      l: "lb_pipe_terminated p (dl_lb s) = Some l" "rr_ok l" "rr_all l = rr_all (dl_lb s) - {p}" "rr_act l = rr_act (dl_lb s) - {p}"
      by (auto simp: lb_pool_def rr_pool_def)
    obtain w2 where w2: "heap_free w1 p = Some w2" using heap_free_ok [of w1 p] ld by auto
    have q: "heap_load w2 q = heap_load w q" if "q \<noteq> p" for q using that ld heap_load_free [OF w2] by simp
    have "rr_sync in_phase in_flag f w2" by (rule rr_sync_remove [OF fs f(2-4) q])
    moreover have "rr_sync out_phase out_flag l w2" by (rule rr_sync_remove [OF ls l(2-4) q])
    ultimately show ?thesis unfolding run using a w2 f(1,3) l(1,3) p'(3) by (simp add: dealer_xpipe_terminated_def dealer_sync_def)
  qed
qed

section \<open>The invariant\<close>

lemma dealer_new_sync: "dealer_sync (dealer_new, w)"
  by (simp add: dealer_sync_def dealer_new_def rr_sync_def rr_ok_def rr_all_def fq_new_def lb_new_def)

lemma peers_sync: "rr_sync ph fl s w \<Longrightarrow> peers_act (rr_all s) w w' \<Longrightarrow> (\<And>c h. ph (c\<lparr>ch := h\<rparr>) = ph c \<and> fl (c\<lparr>ch := h\<rparr>) = fl c) \<Longrightarrow> rr_sync ph fl s w'"
  by (fastforce simp: rr_sync_def peers_act_def)

lemma dealer_step_sync:
  assumes "dealer_step imm x y" "dealer_sync x"
  shows "dealer_sync y"
  using assms
proof (induction rule: dealer_step.induct)
  case (send lk m s w r s' w')
  then obtain l where "lb_sendpipe lk m (dl_lb s) w = Some (r, l, w')" "s' = s\<lparr>dl_lb := l\<rparr>" by (auto simp: dealer_sendpipe_def)
  then show ?case using send.prems lb_sendpipe_sync sync_steady by (fastforce simp: dealer_sync_def)
next
  case (recv s w r s' w')
  then obtain f where "fq_recvpipe (dl_fq s) w = Some (r, f, w')" "s' = s\<lparr>dl_fq := f\<rparr>" by (auto simp: dealer_recvpipe_def)
  then show ?case using recv.prems fq_recvpipe_sync sync_steady by (fastforce simp: dealer_sync_def)
next
  case (has_in s w b s' w')
  then obtain f where "fq_has_in (dl_fq s) w = Some (b, f, w')" "s' = s\<lparr>dl_fq := f\<rparr>" by (auto simp: dealer_xhas_in_def)
  then show ?case using has_in.prems fq_has_in_sync sync_steady by (fastforce simp: dealer_sync_def)
next
  case (has_out s w b s' w')
  then obtain l where "lb_has_out (dl_lb s) w = Some (b, l, w')" "s' = s\<lparr>dl_lb := l\<rparr>" by (auto simp: dealer_xhas_out_def)
  then show ?case using has_out.prems lb_has_out_sync sync_steady by (fastforce simp: dealer_sync_def)
next
  case (setopt opt v s r s' w)
  then show ?case by (auto simp: dealer_xsetsockopt_def dealer_sync_def split: option.splits if_splits)
next
  case (attach p s w c lk s' w')
  from dealer_attach_sync [OF attach.prems attach.hyps(1-3), of lk] attach.hyps(4) show ?case by auto
next
  case (peers s w w')
  then show ?case using peers_sync [of in_phase in_flag "dl_fq s" w w'] peers_sync [of out_phase out_flag "dl_lb s" w w']
    by (simp add: dealer_sync_def dealer_pipes_def flag_defs)
next
  case (command p s w c cmd alive c' lk s' w')
  have "Hiccuped \<in> set (raised c') \<longrightarrow> imm"
  proof (intro impI, rule ccontr)
    assume a: "Hiccuped \<in> set (raised c')" "\<not> imm"
    have "cmd_effect alive (c\<lparr>raised := []\<rparr>) c'" using command_effects [OF command.hyps(3)] by simp
    with a(1) have "raised c' = [Hiccuped]" by (auto simp: cmd_effect_def)
    then have "sock_command (dealer_event imm lk) p cmd (s, w) = None"
      using a(2) command.hyps(2,3) by (auto simp: sock_command_def split: Option.bind_split)
    then show False using command.hyps(5) by simp
  qed
  from dealer_command_sync [OF command.prems command.hyps(1-4) this, of lk] command.hyps(5) show ?case by auto
qed

text \<open>C21: A DEALER socket never loses track of a pipe: whatever the application does, whatever commands its
  pipes receive and whatever the peers put into or take out of the channels, an attached pipe is in the
  active part of the fair queue exactly if its read flag is up, and in the active part of the load balancer
  exactly if its write flag is up, as long as reading or writing is possible at all. Hence, between
  messages, receiving returns EAGAIN only when no attached pipe has anything to deliver.\<close>

theorem dealer_invariant:
  assumes "(dealer_step imm)\<^sup>*\<^sup>* (dealer_new, w0) (s, w)"
  shows "dealer_sync (s, w) \<and>
    (\<not> rr_more (dl_fq s) \<longrightarrow> (\<exists>r s' w'. dealer_recvpipe s w = Some (r, s', w') \<and>
       (r = None \<longrightarrow> (\<forall>p \<in> dealer_pipes s. dry w' p))))"
proof
  show sync: "dealer_sync (s, w)"
    using assms by (induction rule: rtranclp_induct) (auto intro: dealer_new_sync dealer_step_sync)
  show "\<not> rr_more (dl_fq s) \<longrightarrow> (\<exists>r s' w'. dealer_recvpipe s w = Some (r, s', w') \<and>
       (r = None \<longrightarrow> (\<forall>p \<in> dealer_pipes s. dry w' p)))"
    using fq_recvpipe_ok [OF dealer_syncD(1) [OF sync]] by (fastforce simp: dealer_recvpipe_def dealer_pipes_def)
qed

definition dealer_demo :: "(dealer \<times> pool) option" where
  "dealer_demo = do { (s, w) \<leftarrow> dealer_xattach_pipe False 0 dealer_new three_pipes; (_, s, w) \<leftarrow> dealer_recvpipe s w; Some (s, w) }"

lemma fresh_sock_pipe: "fresh_pipe (sock_pipe ms 10)"
  unfolding fresh_pipe_def using sock_pipe_ok [of ms 10] by (simp add: sock_pipe_def pipe_new_def pipe_check_write_def)

theorem dealer_invariant_witness:
  "\<exists>s w. dealer_demo = Some (s, w) \<and> dealer_sync (s, w) \<and> dealer_pipes s = {0} \<and>
     (\<exists>s' w'. dealer_recvpipe s w = Some (None, s', w') \<and> dry w' 0)"
proof -
  have "(case dealer_demo of Some (s, w) \<Rightarrow> elems (rr_pipes (dl_fq s)) = [0] \<and> \<not> rr_more (dl_fq s) \<and>
      map_option fst (dealer_recvpipe s w) = Some None | None \<Rightarrow> False)"
    by code_simp
  then obtain s w y where d: "dealer_demo = Some (s, w)" "dealer_pipes s = {0}" "\<not> rr_more (dl_fq s)"
      "dealer_recvpipe s w = Some (None, y)"
    by (auto simp: dealer_pipes_def rr_all_def split: option.splits)
  from d(1) obtain s1 w1 r where 1: "dealer_xattach_pipe False 0 dealer_new three_pipes = Some (s1, w1)"
      "dealer_recvpipe s1 w1 = Some (r, s, w)"
    by (auto simp: dealer_demo_def bind_eq_Some_conv)
  have "dealer_step False (dealer_new, three_pipes) (s1, w1)"
    by (rule dealer_step.attach [OF _ _ fresh_sock_pipe [of "[whole 1]"] 1(1)])
      (simp_all add: three_pipes_def heap_load_def dealer_pipes_def dealer_new_def fq_new_def rr_all_def)
  moreover have "dealer_step False (s1, w1) (s, w)" by (rule dealer_step.recv [OF 1(2)])
  ultimately have "(dealer_step False)\<^sup>*\<^sup>* (dealer_new, three_pipes) (s, w)" by (meson r_into_rtranclp rtranclp_trans)
  from dealer_invariant [OF this] show ?thesis using d by (cases y) auto
qed

end
