(* ===== verification/Routersys.thy ===== *)
theory Routersys
  imports Router Dealersys
begin

text \<open>
  A ROUTER socket with its pipes as a system. The invariant ties the table of peers
  (src/libzmq/src/router.cpp, \<open>outpipes\<close>) to the identities and the flags that the pipes carry.
\<close>

section \<open>What pipe operations leave alone\<close>

definition ident :: "pctx \<Rightarrow> blob" where "ident c = pidentity (pe c)"

definition has_room :: "pctx \<Rightarrow> bool" where "has_room c \<longleftrightarrow> fst (pipe_check_write c)"

definition outview :: "pctx \<Rightarrow> bool \<times> int \<times> u64 \<times> u64" where
  "outview c = (out_active (pe c), hwm (pe c), msgs_written (pe c), peers_msgs_read (pe c))"

text \<open>A step that the outbound side of a pipe does not notice, except that output may end.\<close>

definition mild :: "pctx \<Rightarrow> pctx \<Rightarrow> bool" where
  "mild c c' \<longleftrightarrow> ctx_ok c' \<and> ident c' = ident c \<and>
     (out_phase c' \<longrightarrow> out_phase c \<and> out_flag c' = out_flag c \<and> (has_room c \<longrightarrow> has_room c'))"

definition calm :: "pool \<Rightarrow> pool \<Rightarrow> bool" where
  "calm w w' \<longleftrightarrow> (\<forall>p c. heap_load w p = Some c \<longrightarrow> ctx_ok c \<longrightarrow> (\<exists>c'. heap_load w' p = Some c' \<and> mild c c'))"

lemma has_room_view: "outview c' = outview c \<Longrightarrow> out_phase c \<Longrightarrow> out_phase c' \<Longrightarrow> has_room c' = has_room c"
  by (auto simp: has_room_def outview_def out_phase_def pipe_check_write_def)

lemma mild_steady: "steady (\<lambda>_. True) ident c c' \<Longrightarrow> steady out_phase outview c c' \<Longrightarrow> mild c c'"
  using has_room_view [of c' c] by (auto simp: mild_def steady_def out_flag_def) (simp_all add: outview_def)

lemma calm_steady: "pool_steady (\<lambda>_. True) ident w w' \<Longrightarrow> pool_steady out_phase outview w w' \<Longrightarrow> calm w w'"
  unfolding calm_def pool_steady_def using mild_steady by (metis option.inject)

lemma read_message_view:
  assumes "read_message s = Some (r, s')"
  shows "ident s' = ident s \<and> outview s' = outview s"
proof -
  let ?P = "\<lambda>s y. ident (snd y) = ident s \<and> outview (snd y) = outview s"
  have "?P s (r, s')"
  proof (rule read_message.raw_induct [where P = ?P, OF _ assms])
    fix rm s y
    assume IH: "\<And>s y. rm s = Some y \<Longrightarrow> ?P s y"
      and eq: "(on_in (\<lambda>c. Some (chan_read c)) s \<bind> (\<lambda>(r, s). case r of
          None \<Rightarrow> Some (None, upd (\<lambda>p. p\<lparr>in_active := False\<rparr>) s)
        | Some m \<Rightarrow> if pm_is_credential m then rm (close_msg m (upd (\<lambda>p. p\<lparr>pcredential := pm_data m\<rparr>) s))
            else Some (Some m, s))) = Some y"
    from eq obtain r1 s1 where 1: "on_in (\<lambda>c. Some (chan_read c)) s = Some (r1, s1)" "(case r1 of
          None \<Rightarrow> Some (None, upd (\<lambda>p. p\<lparr>in_active := False\<rparr>) s1)
        | Some m \<Rightarrow> if pm_is_credential m then rm (close_msg m (upd (\<lambda>p. p\<lparr>pcredential := pm_data m\<rparr>) s1))
            else Some (Some m, s1)) = Some y" by (auto simp: bind_eq_Some_conv)
    have "pe s1 = pe s" using on_chan_same [OF 1(1) [unfolded on_in_def]] by simp
    then show "?P s y"
      using 1(2) IH by (cases r1) (fastforce simp: ident_def outview_def upd_def close_msg_def split: if_splits)+
  qed
  then show ?thesis by simp
qed

lemma process_delimiter_view: "process_delimiter s = Some s' \<Longrightarrow> ident s' = ident s"
  by (auto simp: process_delimiter_eq upd_def send_cmd_def ident_def)

lemma read_view:
  assumes "pipe_read c = Some (r, c')"
  shows "ident c' = ident c \<and> (out_phase c' \<longrightarrow> out_phase c \<and> outview c' = outview c)"
proof (cases "readable (pe c)")
  case True
  then obtain r1 c1 where 1: "read_message c = Some (r1, c1)" using assms by (auto simp: pipe_read_def bind_eq_Some_conv)
  note f = read_message_view [OF 1] read_message_flags [OF 1]
  show ?thesis
  proof (cases r1)
    case None
    then show ?thesis using assms True 1 f by (auto simp: pipe_read_def out_phase_def)
  next
    case (Some m)
    then show ?thesis using assms True 1 f process_delimiter_view [of c1 c'] process_delimiter_flags [of c1 c']
      by (auto simp: pipe_read_def Let_def bind_eq_Some_conv out_phase_def ident_def outview_def upd_def send_cmd_def split: if_splits)
  qed
qed (use assms in \<open>simp add: pipe_read_def\<close>)

lemma read_mild: "ctx_ok c \<Longrightarrow> pipe_read c = Some (r, c') \<Longrightarrow> mild c c'"
  using read_view [of c r c'] rd.op_ok [of c r c'] by (intro mild_steady) (auto simp: steady_def)

lemma fq_recvpipe_calm:
  assumes "fq_recvpipe s w = Some (r, s', w')"
  shows "calm w w'"
proof -
  obtain res s1 where 1: "rr_scan rr_deactivate pipe_read (\<lambda>r. r \<noteq> None) s w = Some (res, s1, w')"
    using fq_recvpipe_scan [OF assms] by blast
  have "pool_steady (\<lambda>_. True) ident w w'" by (rule rr_scan_steady [OF 1]) (use read_view rd.op_ok in \<open>auto simp: steady_def\<close>)
  moreover have "pool_steady out_phase outview w w'" by (rule rr_scan_steady [OF 1]) (use read_view rd.op_ok in \<open>auto simp: steady_def\<close>)
  ultimately show ?thesis by (rule calm_steady)
qed

lemma mild_refl: "ctx_ok c \<Longrightarrow> mild c c"
  by (simp add: mild_def)

lemma mild_trans: "mild c c' \<Longrightarrow> mild c' c'' \<Longrightarrow> mild c c''"
  by (auto simp: mild_def)

lemma calm_refl: "calm w w"
  by (simp add: calm_def mild_refl)

lemma calm_trans: "calm w w' \<Longrightarrow> calm w' w'' \<Longrightarrow> calm w w''"
  unfolding calm_def by (metis mild_trans mild_def)

lemma calm_upd: "heap_load w p = Some c \<Longrightarrow> heap_load w' = (heap_load w)(p \<mapsto> c') \<Longrightarrow> mild c c' \<Longrightarrow> calm w w'"
  by (auto simp: calm_def mild_refl)

text \<open>Termination of a pipe.\<close>

lemma rollback_loop_pe:
  assumes "rollback_loop s = Some s'"
  shows "pe s' = pe s"
proof (rule rollback_loop.raw_induct [where P = "\<lambda>s s'. pe s' = pe s", OF _ assms])
  fix rl s s'
  assume IH: "\<And>s s'. rl s = Some s' \<Longrightarrow> pe s' = pe s"
    and eq: "on_out (\<lambda>c. Some (chan_unwrite c)) s \<bind> (\<lambda>(r, s). case r of None \<Rightarrow> Some s
      | Some m \<Rightarrow> zmq_assert (pm_more m) \<bind> (\<lambda>_. rl (close_msg m s))) = Some s'"
  then obtain r s1 where 1: "on_out (\<lambda>c. Some (chan_unwrite c)) s = Some (r, s1)"
    "(case r of None \<Rightarrow> Some s1 | Some m \<Rightarrow> zmq_assert (pm_more m) \<bind> (\<lambda>_. rl (close_msg m s1))) = Some s'"
    by (auto simp: bind_eq_Some_conv)
  have "pe s1 = pe s" using on_chan_same [OF 1(1) [unfolded on_out_def]] by simp
  then show "pe s' = pe s" using 1(2) IH by (cases r) (auto simp: bind_eq_Some_conv close_msg_def)
qed

lemma flush_pe: "pipe_flush s = Some s' \<Longrightarrow> pe s' = pe s"
  by (auto simp: pipe_flush_def on_out_def bind_eq_Some_conv send_cmd_def split: if_splits dest!: on_chan_same)

lemma stop_output_pe:
  assumes "stop_output lk s = Some s'"
  shows "pe s' = (pe s)\<lparr>out_active := False\<rparr>"
proof (cases "outpipe (pe s)")
  case None
  then show ?thesis using assms by (auto simp: stop_output_def upd_def)
next
  case (Some a)
  let ?s = "upd (\<lambda>p. p\<lparr>out_active := False\<rparr>) s"
  obtain s1 s2 where s: "pipe_rollback ?s = Some s1" "on_out (\<lambda>c. Some ((), chan_write lk pm_init_delimiter False c)) s1 = Some ((), s2)"
    "pipe_flush s2 = Some s'" using assms Some by (auto simp: stop_output_def upd_def bind_eq_Some_conv)
  have "pe s1 = pe ?s" using s(1) rollback_loop_pe by (auto simp: pipe_rollback_def split: if_splits)
  then show ?thesis using on_chan_same [OF s(2) [unfolded on_out_def]] flush_pe [OF s(3)] by (simp add: upd_def)
qed

lemma terminate_ends:
  assumes "ctx_ok c"
  shows "\<exists>c'. pipe_terminate lk dl c = Some c' \<and> ctx_ok c' \<and> ident c' = ident c \<and> same_in c c' \<and> \<not> out_phase c'"
proof -
  have stop: "\<exists>c'. stop_output lk c1 = Some c' \<and> ctx_ok c' \<and> pe c' = (pe c1)\<lparr>out_active := False\<rparr>" if "ctx_ok c1" for c1
    using stop_output_quiet [OF that, of lk] quiet_ok stop_output_pe by blast
  let ?d = "upd (\<lambda>p. p\<lparr>delay := dl\<rparr>) c"
  have d: "pstate (pe ?d) = pstate (pe c)" "ctx_ok ?d" using assms by (auto simp: upd_def ctx_ok_def live_def)
  define c1 where "c1 = (case pstate (pe c) of WaitingForDelimiter \<Rightarrow>
      if \<not> dl then upd (\<lambda>p. p\<lparr>pstate := TermAckSent\<rparr>) (send_cmd PipeTermAck (upd (\<lambda>p. p\<lparr>outpipe := None\<rparr>) ?d)) else ?d
    | _ \<Rightarrow> upd (\<lambda>p. p\<lparr>pstate := TermReqSent1\<rparr>) (send_cmd PipeTerm ?d))"
  show ?thesis
  proof (cases "pstate (pe c) \<in> {TermReqSent1, TermReqSent2, TermAckSent}")
    case True
    then have "pipe_terminate lk dl c = Some ?d" using d(1) by (auto simp: pipe_terminate_def)
    then show ?thesis using d True by (auto simp: ident_def same_in_def flag_defs upd_def)
  next
    case False
    then have st: "pstate (pe c) \<in> {Active, WaitingForDelimiter, DelimiterReceived}" by (cases "pstate (pe c)") auto
    have ok: "ctx_ok c1" using assms st by (auto simp: c1_def ctx_ok_def live_def upd_def send_cmd_def)
    have "pipe_terminate lk dl c = stop_output lk c1" using st d(1) by (auto simp: pipe_terminate_def c1_def)
    moreover have "ident c1 = ident c" "same_in c c1" "pstate (pe c1) \<noteq> Active"
      using st by (auto simp: c1_def ident_def same_in_def flag_defs upd_def send_cmd_def)
    ultimately show ?thesis using stop [OF ok] by (auto simp: ident_def same_in_def flag_defs)
  qed
qed

lemma terminate_mild: "ctx_ok c \<Longrightarrow> pipe_terminate lk dl c = Some c' \<Longrightarrow> mild c c' \<and> same_in c c'"
  using terminate_ends [of c lk dl] by (auto simp: mild_def)

text \<open>Writing.\<close>

lemma write_view:
  assumes "pipe_write lk m c = Some (r, c')"
  shows "ident c' = ident c \<and> (pm_more m \<longrightarrow> has_room c \<longrightarrow> outview c' = outview c)"
proof (cases "has_room c")
  case True
  then have w: "pipe_check_write c = (True, c)" by (auto simp: has_room_def pipe_check_write_def split: if_splits)
  with assms obtain c1 where c1: "on_chan (outpipe (pe c)) (\<lambda>h. Some ((), chan_write lk m (pm_more m) h)) c = Some ((), c1)"
    "c' = (if \<not> pm_more m \<and> \<not> pm_is_identity m then upd (\<lambda>p. p\<lparr>msgs_written := msgs_written p + 1\<rparr>) c1 else c1)"
    by (auto simp: pipe_write_def on_out_def bind_eq_Some_conv)
  then show ?thesis using on_chan_same [OF c1(1)] by (auto simp: ident_def outview_def upd_def)
next
  case False
  then show ?thesis using assms
    by (cases "pipe_check_write c") (auto simp: has_room_def pipe_write_def pipe_check_write_def ident_def upd_def split: if_splits)
qed

text \<open>Commands never change the identity.\<close>

lemma command_ident:
  assumes "process_command cmd c = Some (alive, c')"
  shows "ident c' = ident c"
proof (cases cmd)
  case ActivateRead
  then show ?thesis using assms by (auto simp: process_activate_read_def ident_def upd_def raise_ev_def)
next
  case (ActivateWrite n)
  then show ?thesis using assms by (auto simp: process_activate_write_def ident_def upd_def raise_ev_def Let_def)
next
  case (Hiccup a)
  then show ?thesis using assms
    by (auto simp: process_hiccup_def on_out_def bind_eq_Some_conv Let_def ident_def upd_def raise_ev_def
        dest!: on_chan_same drain_same delete_chan_same split: if_splits)
next
  case PipeTerm
  then show ?thesis using assms by (auto simp: process_pipe_term_def bind_eq_Some_conv ident_def upd_def send_cmd_def)
next
  case PipeTermAck
  then show ?thesis using assms
    by (auto simp: process_pipe_term_ack_def bind_eq_Some_conv Let_def ident_def upd_def raise_ev_def send_cmd_def
        dest!: drain_same delete_chan_same split: if_splits)
qed

section \<open>The invariant\<close>

definition entry_ok :: "pool \<Rightarrow> blob \<Rightarrow> addr \<Rightarrow> bool \<Rightarrow> bool" where
  "entry_ok w i p a \<longleftrightarrow> (\<exists>c. heap_load w p = Some c \<and> ident c = i \<and> (out_phase c \<longrightarrow> a = out_flag c))"

definition anon_ok :: "pool \<Rightarrow> addr \<Rightarrow> bool" where
  "anon_ok w p \<longleftrightarrow> (\<exists>c. heap_load w p = Some c \<and> ctx_ok c \<and> (out_phase c \<longrightarrow> out_flag c))"

definition room_ok :: "pool \<Rightarrow> addr \<Rightarrow> bool" where
  "room_ok w p \<longleftrightarrow> (\<exists>c. heap_load w p = Some c \<and> (out_phase c \<longrightarrow> has_room c))"

text \<open>The socket with the unidentified pipes \<open>A\<close>: the table lists exactly the pipes of the fair queue, under their
  identities, with a flag that agrees with the pipe as long as output is possible; and the
  pipe in use can take the rest of a message.\<close>

definition peers_inv :: "addr set \<Rightarrow> fq \<Rightarrow> outpipes \<Rightarrow> addr option \<Rightarrow> bool \<Rightarrow> pool \<Rightarrow> bool" where
  "peers_inv A f os cur mo w \<longleftrightarrow> rr_sync in_phase in_flag f w \<and> distinct (map fst os) \<and>
     (\<forall>(i, p, a) \<in> set os. p \<in> rr_all f \<and> entry_ok w i p a) \<and>
     (\<forall>p \<in> rr_all f. \<exists>i a. (i, p, a) \<in> set os) \<and>
     (\<forall>p \<in> A. p \<notin> rr_all f \<and> anon_ok w p) \<and>
     (\<forall>p. cur = Some p \<longrightarrow> mo \<and> p \<in> rr_all f \<and> room_ok w p)"

definition router_inv :: "addr set \<Rightarrow> router \<Rightarrow> pool \<Rightarrow> bool" where
  "router_inv A s w \<longleftrightarrow> peers_inv A (ro_fq s) (outpipes s) (current_out s) (more_out s) w"

lemmas inv_defs = router_inv_def peers_inv_def

lemma router_invI:
  assumes "rr_sync in_phase in_flag (ro_fq s) w" "distinct (map fst (outpipes s))"
    "\<And>i p a. (i, p, a) \<in> set (outpipes s) \<Longrightarrow> p \<in> rr_all (ro_fq s) \<and> entry_ok w i p a"
    "\<And>p. p \<in> rr_all (ro_fq s) \<Longrightarrow> \<exists>i a. (i, p, a) \<in> set (outpipes s)"
    "\<And>p. p \<in> A \<Longrightarrow> p \<notin> rr_all (ro_fq s) \<and> anon_ok w p"
    "\<And>p. current_out s = Some p \<Longrightarrow> more_out s \<and> p \<in> rr_all (ro_fq s) \<and> room_ok w p"
  shows "router_inv A s w"
  using assms unfolding inv_defs by blast

lemma router_invD:
  assumes "router_inv A s w"
  shows "rr_sync in_phase in_flag (ro_fq s) w" "distinct (map fst (outpipes s))"
    "(i, p, a) \<in> set (outpipes s) \<Longrightarrow> p \<in> rr_all (ro_fq s) \<and> entry_ok w i p a"
    "p \<in> rr_all (ro_fq s) \<Longrightarrow> \<exists>i a. (i, p, a) \<in> set (outpipes s)"
    "p \<in> rr_all (ro_fq s) \<Longrightarrow> \<exists>c. heap_load w p = Some c \<and> ctx_ok c"
    "p \<in> A \<Longrightarrow> p \<notin> rr_all (ro_fq s) \<and> anon_ok w p"
    "current_out s = Some p \<Longrightarrow> more_out s \<and> p \<in> rr_all (ro_fq s) \<and> room_ok w p"
  using assms unfolding inv_defs rr_sync_def by blast+

definition router_ok :: "router \<times> pool \<Rightarrow> bool" where
  "router_ok x \<longleftrightarrow> router_inv (anonymous_pipes (fst x)) (fst x) (snd x)"

lemma calm_ok:
  assumes "calm w w'" "heap_load w p = Some c" "ctx_ok c"
  shows "entry_ok w i p a \<Longrightarrow> entry_ok w' i p a" "anon_ok w p \<Longrightarrow> anon_ok w' p" "room_ok w p \<Longrightarrow> room_ok w' p"
proof -
  from assms obtain c' where c': "heap_load w' p = Some c'" "mild c c'" by (auto simp: calm_def)
  show "entry_ok w i p a \<Longrightarrow> entry_ok w' i p a" "anon_ok w p \<Longrightarrow> anon_ok w' p" "room_ok w p \<Longrightarrow> room_ok w' p"
    using c' assms(2) by (auto simp: entry_ok_def anon_ok_def room_ok_def mild_def)
qed

lemma sync_alive: "rr_sync ph fl s w \<Longrightarrow> p \<in> rr_all s \<Longrightarrow> \<exists>c. heap_load w p = Some c \<and> ctx_ok c"
  by (auto simp: rr_sync_def)

text \<open>Steps that only concern the inbound side.\<close>

lemma router_inv_calm:
  assumes "router_inv A s w" "calm w w'" "rr_sync in_phase in_flag f w'" "rr_all f = rr_all (ro_fq s)"
  shows "router_inv A (s\<lparr>ro_fq := f\<rparr>) w'"
proof -
  have al: "\<exists>c. heap_load w p = Some c \<and> ctx_ok c" if "p \<in> rr_all (ro_fq s)" for p
    using assms(1) sync_alive that by (auto simp: inv_defs)
  have "entry_ok w' i p a" if "(i, p, a) \<in> set (outpipes s)" for i p a
    using assms(1) that al calm_ok(1) [OF assms(2)] by (fastforce simp: inv_defs)
  moreover have "anon_ok w' p" if "p \<in> A" for p
  proof -
    have "anon_ok w p" using assms(1) that by (auto simp: inv_defs)
    then show ?thesis using calm_ok(2) [OF assms(2)] by (auto simp: anon_ok_def)
  qed
  moreover have "room_ok w' p" if "current_out s = Some p" for p
    using assms(1) that al calm_ok(3) [OF assms(2)] by (auto simp: inv_defs)
  ultimately show ?thesis using assms by (auto simp: inv_defs)
qed

lemma router_inv_same: "router_inv A s w \<Longrightarrow> calm w w' \<Longrightarrow> pool_steady in_phase in_flag w w' \<Longrightarrow> router_inv A s w'"
  using router_inv_calm [of A s w w' "ro_fq s"] sync_steady [of in_phase in_flag "ro_fq s" w w'] by (simp add: inv_defs)

lemma router_inv_dropped: "router_inv A s w \<Longrightarrow> peers_inv A (ro_fq s) (outpipes s) None b w"
  by (auto simp: inv_defs)

lemma router_fetch_ok:
  assumes "router_fetch f w = Some (r, f', w')" "rr_sync in_phase in_flag f w"
  shows "rr_sync in_phase in_flag f' w' \<and> rr_all f' = rr_all f \<and> calm w w' \<and> (\<forall>p m. r = Some (p, m) \<longrightarrow> p \<in> rr_all f)"
proof -
  let ?P = "\<lambda>f w y. rr_sync in_phase in_flag f w \<longrightarrow> rr_sync in_phase in_flag (fst (snd y)) (snd (snd y)) \<and>
    rr_all (fst (snd y)) = rr_all f \<and> calm w (snd (snd y)) \<and> (\<forall>p m. fst y = Some (p, m) \<longrightarrow> p \<in> rr_all f)"
  have "?P f w (r, f', w')"
  proof (rule router_fetch.raw_induct [where P = ?P, OF _ assms(1)], intro impI)
    fix rf f w y
    assume IH: "\<And>f w y. rf f w = Some y \<Longrightarrow> ?P f w y" and sy: "rr_sync in_phase in_flag f w"
      and eq: "(fq_recvpipe f w \<bind> (\<lambda>(r, f, w). case r of None \<Rightarrow> Some (None, f, w)
        | Some (p, m) \<Rightarrow> if pm_is_identity m then rf f w else Some (Some (p, m), f, w))) = Some y"
    from eq obtain r1 f1 w1 where 1: "fq_recvpipe f w = Some (r1, f1, w1)"
      "(case r1 of None \<Rightarrow> Some (None, f1, w1) | Some (p, m) \<Rightarrow> if pm_is_identity m then rf f1 w1 else Some (Some (p, m), f1, w1)) = Some y"
      by (auto simp: bind_eq_Some_conv)
    note s1 = fq_recvpipe_sync [OF sy 1(1)] and c1 = fq_recvpipe_calm [OF 1(1)]
    have p: "p \<in> rr_all f" if "r1 = Some (p, m)" for p m using fq_recvpipe_from [OF sy, of p m f1 w1] 1(1) that by simp
    show "rr_sync in_phase in_flag (fst (snd y)) (snd (snd y)) \<and>
      rr_all (fst (snd y)) = rr_all f \<and> calm w (snd (snd y)) \<and> (\<forall>p m. fst y = Some (p, m) \<longrightarrow> p \<in> rr_all f)"
    proof (cases r1)
      case None
      then have "y = (None, f1, w1)" using 1(2) by simp
      then show ?thesis using s1 c1 by simp
    next
      case (Some pm)
      then obtain p m where pm: "r1 = Some (p, m)" by (cases pm) auto
      show ?thesis
      proof (cases "pm_is_identity m")
        case True
        then have "rf f1 w1 = Some y" using 1(2) pm by simp
        then have "?P f1 w1 y" by (rule IH)
        then show ?thesis using s1 calm_trans [OF c1] by simp
      next
        case False
        then have "y = (Some (p, m), f1, w1)" using 1(2) pm by simp
        then show ?thesis using s1 c1 p [OF pm] by simp
      qed
    qed
  qed
  then show ?thesis using assms(2) by simp
qed

section \<open>Calls of the application\<close>

lemma router_xrecv_inv:
  assumes "router_inv A s w" "router_xrecv s w = Some (r, s', w')"
  shows "router_inv A s' w' \<and> anonymous_pipes s' = anonymous_pipes s"
proof (cases "prefetched s")
  case True
  then show ?thesis using assms by (auto simp: router_xrecv_def Let_def router_inv_def split: if_splits)
next
  case False
  then obtain r1 f w1 where 1: "router_fetch (ro_fq s) w = Some (r1, f, w1)" using assms(2) by (auto simp: router_xrecv_def bind_eq_Some_conv)
  have sy: "rr_sync in_phase in_flag (ro_fq s) w" using assms(1) by (simp add: inv_defs)
  have inv: "router_inv A (s\<lparr>ro_fq := f\<rparr>) w1" using router_fetch_ok [OF 1 sy] router_inv_calm [OF assms(1)] by blast
  show ?thesis using assms(2) False 1 inv
    by (cases r1) (auto simp: router_xrecv_def bind_eq_Some_conv router_inv_def Let_def split: if_splits)
qed

lemma router_xhas_in_inv:
  assumes "router_inv A s w" "router_xhas_in s w = Some (b, s', w')"
  shows "router_inv A s' w' \<and> anonymous_pipes s' = anonymous_pipes s"
proof (cases "more_in s \<or> prefetched s")
  case True
  then show ?thesis using assms by (auto simp: router_xhas_in_def)
next
  case False
  then obtain r1 f w1 where 1: "router_fetch (ro_fq s) w = Some (r1, f, w1)" using assms(2) by (auto simp: router_xhas_in_def bind_eq_Some_conv)
  have sy: "rr_sync in_phase in_flag (ro_fq s) w" using assms(1) by (simp add: inv_defs)
  have inv: "router_inv A (s\<lparr>ro_fq := f\<rparr>) w1" using router_fetch_ok [OF 1 sy] router_inv_calm [OF assms(1)] by blast
  show ?thesis using assms(2) False 1 inv
    by (cases r1) (auto simp: router_xhas_in_def bind_eq_Some_conv router_inv_def)
qed

text \<open>One pipe changes.\<close>

lemma router_inv_store_fq:
  assumes "router_inv A s w" "heap_load w p = Some c" "heap_load w' = (heap_load w)(p \<mapsto> c')" "ctx_ok c'" "ident c' = ident c"
    "rr_sync in_phase in_flag f w'" "rr_all f = rr_all (ro_fq s)" "same_out c c'" "current_out s = Some p \<longrightarrow> out_phase c' \<longrightarrow> has_room c'"
  shows "router_inv A (s\<lparr>ro_fq := f\<rparr>) w'"
proof -
  have "entry_ok w' i q a" if "entry_ok w i q a" for i q a
    using that assms(2,3,5,8) by (auto simp: entry_ok_def same_out_def)
  moreover have "anon_ok w' q" if "anon_ok w q" for q using that assms(2-4,8) by (auto simp: anon_ok_def same_out_def)
  moreover have "room_ok w' q" if "room_ok w q" "current_out s = Some q" for q
    using that assms(2,3,9) by (auto simp: room_ok_def)
  ultimately show ?thesis using assms(1,6,7) by (fastforce simp: inv_defs)
qed

lemma router_inv_store:
  assumes "router_inv A s w" "heap_load w p = Some c" "heap_load w' = (heap_load w)(p \<mapsto> c')" "ctx_ok c'" "ident c' = ident c"
    "same_in c c'" "same_out c c'" "current_out s = Some p \<longrightarrow> out_phase c' \<longrightarrow> has_room c'"
  shows "router_inv A s w'"
proof -
  have "rr_sync in_phase in_flag (ro_fq s) w'"
    by (rule rr_sync_store [OF _ assms(2-4)]) (use assms(1,6) in \<open>auto simp: inv_defs same_in_def\<close>)
  from router_inv_store_fq [OF assms(1-5) this refl assms(7,8)] show ?thesis by simp
qed

text \<open>A pipe and its flag in the table change together.\<close>

lemma router_inv_flag:
  assumes "router_inv A s w" "(i, p, a) \<in> set (outpipes s)" "heap_load w p = Some c" "heap_load w' = (heap_load w)(p \<mapsto> c')"
    "ctx_ok c'" "ident c' = ident c" "same_in c c'" "out_phase c' \<longrightarrow> b = out_flag c'"
    "current_out s = Some p \<longrightarrow> out_phase c' \<longrightarrow> has_room c'"
  shows "router_inv A (out_set_active i b s) w'"
proof -
  let ?o = "out_set_active i b s"
  have keys: "map fst (outpipes ?o) = map fst (outpipes s)" by (induction "outpipes s") (auto simp: out_set_active_def)
  have p: "p \<in> rr_all (ro_fq s)" "ident c = i" using assms(1-3) by (auto simp: inv_defs entry_ok_def)
  have "rr_sync in_phase in_flag (ro_fq s) w'"
    by (rule rr_sync_store [OF _ assms(3-5)]) (use assms(1,7) in \<open>auto simp: inv_defs same_in_def\<close>)
  moreover have "q \<in> rr_all (ro_fq s) \<and> entry_ok w' j q d" if "(j, q, d) \<in> set (outpipes ?o)" for j q d
  proof -
    from that obtain d0 where d0: "(j, q, d0) \<in> set (outpipes s)" "d = (if j = i then b else d0)"
      by (auto simp: out_set_active_def)
    then have e: "q \<in> rr_all (ro_fq s)" "entry_ok w j q d0" using assms(1) by (auto simp: inv_defs)
    have "j = i \<longleftrightarrow> q = p"
    proof
      assume "j = i"
      moreover have "distinct (map fst (outpipes s))" using assms(1) by (simp add: inv_defs)
      ultimately have "(q, d0) = (p, a)" using d0(1) assms(2) eq_key_imp_eq_value [of "outpipes s" i "(q, d0)" "(p, a)"] by simp
      then show "q = p" by simp
    next
      assume "q = p"
      then show "j = i" using e(2) assms(3) p(2) by (auto simp: entry_ok_def)
    qed
    then show ?thesis using e d0(2) assms(3-6,8) p(2) by (auto simp: entry_ok_def)
  qed
  moreover have "\<exists>j d. (j, q, d) \<in> set (outpipes ?o)" if "q \<in> rr_all (ro_fq s)" for q
  proof -
    from assms(1) that obtain j d where "(j, q, d) \<in> set (outpipes s)" by (auto simp: inv_defs)
    then have "(j, q, if j = i then b else d) \<in> set (outpipes ?o)" by (force simp: out_set_active_def)
    then show ?thesis by blast
  qed
  moreover have "anon_ok w' q" if "q \<in> A" for q
  proof -
    have "q \<noteq> p" "anon_ok w q" using that assms(1) p(1) by (auto simp: inv_defs)
    then show ?thesis using assms(4) by (simp add: anon_ok_def)
  qed
  moreover have "room_ok w' q" if "current_out s = Some q" for q
    using that assms(1,4,9) by (auto simp: room_ok_def inv_defs)
  moreover have "ro_fq ?o = ro_fq s" "current_out ?o = current_out s" "more_out ?o = more_out s" by (simp_all add: out_set_active_def)
  ultimately show ?thesis using router_invD [OF assms(1)] unfolding inv_defs keys by auto
qed

lemma out_find_in: "out_find i s = Some (p, a) \<Longrightarrow> (i, p, a) \<in> set (outpipes s)"
  by (simp add: out_find_def map_of_SomeD)

lemma check_write_same_in: "check_write_op c = Some (ok, c') \<Longrightarrow> ident c' = ident c \<and> same_in c c' \<and> (ok \<longrightarrow> c' = c \<and> has_room c) \<and> (\<not> ok \<longrightarrow> \<not> (out_phase c' \<and> out_flag c'))"
  by (auto simp: check_write_op_def pipe_check_write_def ident_def same_in_def flag_defs has_room_def upd_def split: if_splits)

lemma router_route_inv:
  assumes "router_inv A s w" "current_out s = None" "router_route m s w = Some (r, s', w')"
  shows "router_inv A s' w' \<and> anonymous_pipes s' = anonymous_pipes s"
proof (cases "pm_more m \<and> out_find (pm_data m) s \<noteq> None")
  case False
  then have "s' \<in> {s, s\<lparr>more_out := True\<rparr>, s\<lparr>more_out := False\<rparr>}" "w' = w"
    using assms(3) by (auto simp: router_route_def out_find_def Let_def split: if_splits option.splits)
  then show ?thesis using router_inv_dropped [OF assms(1)] assms(1,2) by (auto simp: router_inv_def)
next
  case True
  then obtain p a where e: "out_find (pm_data m) s = Some (p, a)" by auto
  let ?s = "s\<lparr>more_out := True\<rparr>"
  have f: "out_find (pm_data m) ?s = Some (p, a)" using e by (simp add: out_find_def)
  have p: "p \<in> rr_all (ro_fq s)" using out_find_in [OF e] assms(1) by (auto simp: inv_defs)
  then obtain c where c: "heap_load w p = Some c" "ctx_ok c" using router_invD(5) [OF assms(1)] by blast
  obtain ok c' where op: "check_write_op c = Some (ok, c')" "ctx_ok c'" using cwr.op_total [OF c(2)] by blast
  from pool_op_at [of w p c check_write_op ok c', OF c(1) op(1)] obtain w1 where
    w1: "pool_op p check_write_op w = Some (ok, w1)" "heap_load w1 = (heap_load w)(p \<mapsto> c')" by blast
  note v = check_write_same_in [OF op(1)]
  have inv: "router_inv A ?s w" using router_inv_dropped [OF assms(1)] assms(2) by (simp add: router_inv_def)
  show ?thesis
  proof (cases ok)
    case True
    then have "router_inv A ?s w1" using v assms(2) by (intro router_inv_store [OF inv c(1) w1(2) op(2)]) (auto simp: same_out_def)
    moreover have "room_ok w1 p" using v True w1(2) by (simp add: room_ok_def)
    ultimately have "router_inv A (?s\<lparr>current_out := Some p\<rparr>) w1" using p by (simp add: inv_defs)
    then show ?thesis using assms(3) True e f w1(1) \<open>pm_more m \<and> _\<close> by (auto simp: router_route_def)
  next
    case False
    have "router_inv A (out_set_active (pm_data m) False ?s) w1"
      by (rule router_inv_flag [OF inv _ c(1) w1(2) op(2)]) (use v False assms(2) out_find_in [OF f] in auto)
    note d = router_inv_dropped [OF this]
    show ?thesis using assms(3) False e f w1(1) \<open>pm_more m \<and> _\<close> d
      by (auto simp: router_route_def out_set_active_def router_inv_def Let_def split: if_splits)
  qed
qed

lemma router_push_inv:
  assumes "router_inv A s w" "router_push lk m0 s w = Some (s', w')"
  shows "router_inv A s' w' \<and> anonymous_pipes s' = anonymous_pipes s"
proof (cases "current_out s")
  case None
  then show ?thesis using assms router_inv_dropped [OF assms(1)] by (auto simp: router_push_def Let_def router_inv_def)
next
  case (Some p)
  define m where "m = (if opt_raw_sock s then m0\<lparr>pm_flags := pm_flags m0 AND NOT flag_more\<rparr> else m0)"
  let ?s = "s\<lparr>more_out := pm_more m\<rparr>" and ?n = "s\<lparr>more_out := pm_more m, current_out := None\<rparr>"
  have p: "p \<in> rr_all (ro_fq s)" "room_ok w p" using router_invD(7) [OF assms(1) Some] by auto
  then obtain c where c: "heap_load w p = Some c" "ctx_ok c" "out_phase c \<longrightarrow> has_room c"
    using router_invD(5) [OF assms(1) p(1)] by (auto simp: room_ok_def)
  have n: "router_inv A ?n w" using router_inv_dropped [OF assms(1)] by (simp add: router_inv_def)
  show ?thesis
  proof (cases "raw_sock s \<and> pm_data m = []")
    case True
    from terminate_ends [OF c(2), of lk False] obtain c1 where
      c1: "pipe_terminate lk False c = Some c1" "ctx_ok c1" "ident c1 = ident c" "same_in c c1" "\<not> out_phase c1" by blast
    from pool_do_at [of w p c "pipe_terminate lk False" c1] c(1) c1(1) obtain w1 where
      w1: "pool_do p (pipe_terminate lk False) w = Some w1" "heap_load w1 = (heap_load w)(p \<mapsto> c1)" by auto
    have "router_inv A ?n w1" by (rule router_inv_store [OF n c(1) w1(2) c1(2-4)]) (use c1(5) in \<open>auto simp: same_out_def\<close>)
    then show ?thesis using assms(2) True Some w1(1) by (auto simp: router_push_def m_def [symmetric] Let_def)
  next
    case False
    from wr.op_total [OF c(2), of lk m] obtain r c1 where c1: "pipe_write lk m c = Some (r, c1)" "ctx_ok c1" by blast
    from pool_op_at [of w p c "pipe_write lk m" r c1] c(1) c1(1) obtain w1 where
      w1: "pool_op p (pipe_write lk m) w = Some (r, w1)" "heap_load w1 = (heap_load w)(p \<mapsto> c1)" by auto
    have rr: "r = has_room c" using write_room [OF c1(1)] by (simp add: has_room_def)
    note fl = write_flags [OF c1(1)] write_view [OF c1(1)]
    have si: "same_in c c1" using fl by (simp add: same_in_def flag_defs)
    have so: "same_out c c1"
    proof (cases r)
      case True
      then show ?thesis using fl rr by (auto simp: same_out_def flag_defs writable_def has_room_def pipe_check_write_def split: if_splits)
    next
      case False
      then have "c1 = c" using c1(1) c(3) rr by (auto simp: out_phase_def pipe_write_def pipe_check_write_def)
      then show ?thesis by (simp add: same_out_def)
    qed
    have w1n: "router_inv A ?n w1" by (rule router_inv_store [OF n c(1) w1(2) c1(2) _ si so]) (use fl in simp_all)
    show ?thesis
    proof (cases "r \<and> pm_more m")
      case True
      then have "has_room c1" using fl rr has_room_view [of c1 c] by (auto simp: writable_def has_room_def out_phase_def pipe_check_write_def split: if_splits)
      then have "router_inv A ?s w1" using Some True
        by (intro router_inv_store [OF _ c(1) w1(2) c1(2) _ si so]) (use fl assms(1) in \<open>auto simp: router_inv_def peers_inv_def\<close>)
      then show ?thesis using assms(2) Some False w1(1) True by (auto simp: router_push_def m_def [symmetric] Let_def)
    next
      case fin: False
      show ?thesis
      proof (cases r)
        case True
        from flush_quiet [OF c1(2)] obtain c2 where c2: "pipe_flush c1 = Some c2" "ctx_ok c2" using quiet_ok by blast
        from pool_do_at [of w1 p c1 pipe_flush c2] w1(2) c2(1) obtain w2 where
          w2: "pool_do p pipe_flush w1 = Some w2" "heap_load w2 = (heap_load w1)(p \<mapsto> c2)" by auto
        have "heap_load w1 p = Some c1" using w1(2) by simp
        then have "router_inv A ?n w2"
          by (rule router_inv_store [OF w1n _ w2(2) c2(2)])
            (use flush_pe [OF c2(1)] in \<open>simp_all add: ident_def same_in_def same_out_def flag_defs\<close>)
        then show ?thesis using assms(2) Some False w1(1) w2(1) True fin by (auto simp: router_push_def m_def [symmetric] Let_def)
      next
        case r: False
        then show ?thesis using assms(2) Some False w1(1) w1n by (auto simp: router_push_def m_def [symmetric] Let_def)
      qed
    qed
  qed
qed

lemma router_xsend_inv:
  assumes "router_inv A s w" "router_xsend lk m s w = Some (r, s', w')"
  shows "router_inv A s' w' \<and> anonymous_pipes s' = anonymous_pipes s"
  using assms router_route_inv [OF assms(1)] router_push_inv [OF assms(1)]
  by (auto simp: router_xsend_def bind_eq_Some_conv split: if_splits)

section \<open>Peers are identified\<close>

lemma router_inv_other:
  assumes "router_inv A s w" "\<And>q. q \<in> rr_all (ro_fq s) \<union> A \<Longrightarrow> heap_load w' q = heap_load w q"
  shows "router_inv A s w'"
proof -
  note d = router_invD [OF assms(1)]
  have "rr_sync in_phase in_flag (ro_fq s) w'" using d(1) assms(2) by (auto simp: rr_sync_def)
  moreover have "entry_ok w' i p a" if "(i, p, a) \<in> set (outpipes s)" for i p a
    using d(3) [OF that] assms(2) by (simp add: entry_ok_def)
  moreover have "anon_ok w' p" if "p \<in> A" for p using d(6) [OF that] assms(2) that by (simp add: anon_ok_def)
  moreover have "room_ok w' p" if "current_out s = Some p" for p using d(7) [OF that] assms(2) by (simp add: room_ok_def)
  ultimately show ?thesis using d by (intro router_invI) auto
qed

lemma set_identity_at:
  assumes "heap_load w p = Some c"
  shows "\<exists>w'. set_identity p i w = Some w' \<and> heap_load w' = (heap_load w)(p \<mapsto> pipe_set_identity i c)"
  unfolding set_identity_def using pool_do_at [of w p c "\<lambda>c. Some (pipe_set_identity i c)"] assms by simp

lemma set_identity_props:
  "ident (pipe_set_identity i c) = i" "ctx_ok (pipe_set_identity i c) = ctx_ok c"
  "in_phase (pipe_set_identity i c) = in_phase c" "in_flag (pipe_set_identity i c) = in_flag c"
  "out_phase (pipe_set_identity i c) = out_phase c" "out_flag (pipe_set_identity i c) = out_flag c"
  by (simp_all add: pipe_set_identity_def upd_def ident_def flag_defs ctx_ok_def live_def)

lemma register_attach_inv:
  assumes "router_inv A s w" "p \<notin> rr_all (ro_fq s)" "p \<notin> A" "heap_load w p = Some c" "ctx_ok c"
    "in_phase c \<longrightarrow> in_flag c" "out_phase c \<longrightarrow> out_flag c" "register_peer p i s w = Some (s1, w1)"
  shows "anonymous_pipes s1 = anonymous_pipes s \<and> (\<exists>f. fq_attach p (ro_fq s1) = Some f \<and> router_inv A (s1\<lparr>ro_fq := f\<rparr>) w1)"
proof -
  note d = router_invD [OF assms(1)]
  from set_identity_at [OF assms(4), of i] obtain w2 where
    w2: "set_identity p i w = Some w2" "heap_load w2 = (heap_load w)(p \<mapsto> pipe_set_identity i c)" by blast
  have new: "out_find i s = None" "s1 = s\<lparr>outpipes := (i, p, True) # outpipes s\<rparr>" "w1 = w2"
    using assms(8) w2(1) by (auto simp: register_peer_def out_insert_def bind_eq_Some_conv)
  have fp: "fq_pool (ro_fq s) w" using rsw.sync_pool [OF d(1)] by (simp add: fq_pool_def)
  from fq_attach_ok [OF fp assms(2,4,5)] obtain f where
    f: "fq_attach p (ro_fq s) = Some f" "rr_ok f" "rr_all f = insert p (rr_all (ro_fq s))" "rr_act f = insert p (rr_act (ro_fq s))"
    by (auto simp: fq_pool_def rr_pool_def)
  have "rr_sync in_phase in_flag f w1" unfolding new(3)
    by (rule rr_sync_insert [OF d(1) f(2-4) w2(2)]) (use assms(5,6) in \<open>simp_all add: set_identity_props\<close>)
  moreover have "i \<notin> fst ` set (outpipes s)" using new(1) by (simp add: out_find_def map_of_eq_None_iff)
  moreover have "entry_ok w1 i p True" using new(3) w2(2) assms(7) by (simp add: entry_ok_def set_identity_props)
  moreover have "q \<in> rr_all f \<and> entry_ok w1 j q a" if "(j, q, a) \<in> set (outpipes s)" for j q a
    using d(3) [OF that] f(3) new(3) w2(2) assms(2) by (auto simp: entry_ok_def)
  moreover have "q \<notin> rr_all f \<and> anon_ok w1 q" if "q \<in> A" for q
    using d(6) [OF that] that assms(3) f(3) new(3) w2(2) by (auto simp: anon_ok_def)
  moreover have "more_out s \<and> q \<in> rr_all f \<and> room_ok w1 q" if "current_out s = Some q" for q
    using d(7) [OF that] f(3) new(3) w2(2) assms(2) by (auto simp: room_ok_def)
  moreover have "\<exists>j a. (j, q, a) \<in> set ((i, p, True) # outpipes s)" if "q \<in> rr_all f" for q using that d(4) f(3) by fastforce
  moreover have "p \<in> rr_all f" using f(3) by simp
  ultimately have "router_inv A (s1\<lparr>ro_fq := f\<rparr>) w1" unfolding new(2) using d(2) by (intro router_invI) auto
  then show ?thesis using f(1) new(2) by simp
qed

lemma hand_over_inv:
  assumes "router_inv A s w" "out_find i s = Some (q, a)" "hand_over lk i (q, a) s w = Some (s1, w1)"
  shows "router_inv A s1 w1 \<and> anonymous_pipes s1 = anonymous_pipes s \<and> ro_fq s1 = ro_fq s \<and>
    (\<forall>p. p \<noteq> q \<longrightarrow> heap_load w1 p = heap_load w p)"
proof -
  note d = router_invD [OF assms(1)]
  let ?j = "0 # put_uint32 (next_rid s)"
  have q: "(i, q, a) \<in> set (outpipes s)" "q \<in> rr_all (ro_fq s)" using out_find_in [OF assms(2)] d(3) by blast+
  obtain c where c: "heap_load w q = Some c" "ctx_ok c" "ident c = i" using d(3) [OF q(1)] d(5) [OF q(2)] by (auto simp: entry_ok_def)
  from set_identity_at [OF c(1), of ?j] obtain w2 where
    w2: "set_identity q ?j w = Some w2" "heap_load w2 = (heap_load w)(q \<mapsto> pipe_set_identity ?j c)" by blast
  from terminate_ends [of "pipe_set_identity ?j c" lk True] c(2) obtain c2 where
    c2: "pipe_terminate lk True (pipe_set_identity ?j c) = Some c2" "ctx_ok c2" "ident c2 = ?j" "same_in c c2" "\<not> out_phase c2"
    by (auto simp: set_identity_props same_in_def)
  from pool_do_at [of w2 q "pipe_set_identity ?j c" "pipe_terminate lk True" c2] w2(2) c2(1) obtain w3 where
    w3: "pool_do q (pipe_terminate lk True) w2 = Some w3" "heap_load w3 = (heap_load w)(q \<mapsto> c2)" by auto
  let ?s = "s\<lparr>next_rid := next_rid s + 1\<rparr>"
  have new: "out_find ?j s = None" "s1 = ?s\<lparr>outpipes := filter (\<lambda>e. fst e \<noteq> i) ((?j, q, a) # outpipes s)\<rparr>" "w1 = w3"
    using assms(3) w2(1) w3(1) by (auto simp: hand_over_def new_rid_def out_insert_def out_erase_def out_find_def bind_eq_Some_conv Let_def)
  have ji: "?j \<noteq> i" using new(1) assms(2) by auto
  have os: "outpipes s1 = (?j, q, a) # filter (\<lambda>e. fst e \<noteq> i) (outpipes s)" using new(2) ji by simp
  have fresh: "?j \<notin> fst ` set (outpipes s)" using new(1) by (simp add: out_find_def map_of_eq_None_iff)
  have key: "r = q \<longleftrightarrow> k = i" if "(k, r, b) \<in> set (outpipes s)" for k r b
  proof
    assume "r = q" then show "k = i" using d(3) [OF that] c by (auto simp: entry_ok_def)
  next
    assume "k = i" then show "r = q" using eq_key_imp_eq_value [OF d(2), of i "(r, b)" "(q, a)"] that q(1) by simp
  qed
  have "rr_sync in_phase in_flag (ro_fq s) w3"
    by (rule rr_sync_store [OF d(1) c(1) w3(2) c2(2)]) (use c2(4) in \<open>simp add: same_in_def\<close>)
  moreover have "distinct (map fst (outpipes s1))" using d(2) fresh os by (auto simp: distinct_map_filter)
  moreover have "r \<in> rr_all (ro_fq s) \<and> entry_ok w3 k r b" if "(k, r, b) \<in> set (outpipes s1)" for k r b
  proof (cases "(k, r, b) = (?j, q, a)")
    case False
    then have o: "(k, r, b) \<in> set (outpipes s)" "k \<noteq> i" using that os by auto
    then have "r \<noteq> q" using key by blast
    then show ?thesis using d(3) [OF o(1)] w3(2) by (simp add: entry_ok_def)
  qed (use q(2) w3(2) c2 in \<open>simp add: entry_ok_def\<close>)
  moreover have "\<exists>k b. (k, r, b) \<in> set (outpipes s1)" if r: "r \<in> rr_all (ro_fq s)" for r
  proof (cases "r = q")
    case False
    obtain k b where "(k, r, b) \<in> set (outpipes s)" using d(4) [OF r] by blast
    then show ?thesis using key False os by auto
  qed (use os in auto)
  moreover have "anon_ok w3 r" if "r \<in> A" for r using d(6) [OF that] q(2) w3(2) by (auto simp: anon_ok_def)
  moreover have "more_out s1 \<and> r \<in> rr_all (ro_fq s1) \<and> room_ok w3 r" if "current_out s1 = Some r" for r
    using d(7) [of r] that w3(2) c2(5) new(2) by (auto simp: room_ok_def)
  moreover have "ro_fq s1 = ro_fq s" using new(2) by simp
  ultimately have "router_inv A s1 w3" using d(6) by (intro router_invI) simp_all
  then show ?thesis using new w3(2) by simp
qed

lemma identify_peer_inv:
  assumes "router_inv A s w" "p \<notin> rr_all (ro_fq s)" "p \<notin> A" "heap_load w p = Some c" "ctx_ok c"
    "in_phase c \<longrightarrow> in_flag c" "out_phase c \<longrightarrow> out_flag c" "identify_peer lk p s w = Some (ok, s', w')"
  shows "anonymous_pipes s' = anonymous_pipes s \<and>
    (if ok then \<exists>f. fq_attach p (ro_fq s') = Some f \<and> router_inv A (s'\<lparr>ro_fq := f\<rparr>) w'
     else router_inv A s' w' \<and> p \<notin> rr_all (ro_fq s') \<and> anon_ok w' p)"
proof (cases "connect_rid s \<noteq> [] \<or> opt_raw_sock s")
  case True
  define s0 i where "s0 = (if connect_rid s \<noteq> [] then s\<lparr>connect_rid := []\<rparr> else s\<lparr>next_rid := next_rid s + 1\<rparr>)"
    and "i = (if connect_rid s \<noteq> [] then connect_rid s else 0 # put_uint32 (next_rid s))"
  have reg: "register_peer p i s0 w = Some (s', w')" "ok" using assms(8) True
    by (auto simp: identify_peer_def s0_def i_def new_rid_def bind_eq_Some_conv Let_def split: if_splits)
  have "router_inv A s0 w" "ro_fq s0 = ro_fq s" "anonymous_pipes s0 = anonymous_pipes s" using assms(1) by (auto simp: s0_def router_inv_def)
  then show ?thesis using register_attach_inv [OF _ _ assms(3-7) reg(1)] assms(2) reg(2) by simp
next
  case False
  from rd.op_total [OF assms(5)] obtain r c1 where c1: "pipe_read c = Some (r, c1)" "ctx_ok c1" by blast
  from pool_op_at [of w p c pipe_read r c1] assms(4) c1(1) obtain w1 where
    w1: "pool_op p pipe_read w = Some (r, w1)" "heap_load w1 = (heap_load w)(p \<mapsto> c1)" by auto
  have inv: "router_inv A s w1" by (rule router_inv_other [OF assms(1)]) (use w1(2) assms(2,3) in auto)
  have at: "heap_load w1 p = Some c1" using w1(2) by simp
  have out: "out_phase c1 \<longrightarrow> out_flag c1" using read_mild [OF assms(5) c1(1)] assms(7) by (auto simp: mild_def)
  show ?thesis
  proof (cases r)
    case None
    then show ?thesis using assms(2,8) False w1(1) inv at out c1(2) by (auto simp: identify_peer_def anon_ok_def)
  next
    case (Some m)
    have inp: "in_phase c1 \<longrightarrow> in_flag c1" using read_flags [OF c1(1)] Some by (simp add: readable_def flag_defs)
    note reg = register_attach_inv [OF _ _ assms(3) _ c1(2) inp out]
    show ?thesis
    proof (cases "pm_data m = []")
      case True
      let ?s = "s\<lparr>next_rid := next_rid s + 1\<rparr>"
      have "register_peer p (0 # put_uint32 (next_rid s)) ?s w1 = Some (s', w')" "ok" using assms(8) False w1(1) Some True
        by (auto simp: identify_peer_def new_rid_def bind_eq_Some_conv Let_def)
      then show ?thesis using reg [of ?s w1] inv assms(2) at by (simp add: router_inv_def)
    next
      case ne: False
      show ?thesis
      proof (cases "out_find (pm_data m) s")
        case None
        then have "register_peer p (pm_data m) s w1 = Some (s', w')" "ok" using assms(8) False w1(1) Some ne
          by (auto simp: identify_peer_def bind_eq_Some_conv)
        then show ?thesis using reg [OF inv assms(2) at] by simp
      next
        case dup: (Some qa)
        obtain q a where qa: "qa = (q, a)" by (cases qa)
        show ?thesis
        proof (cases "handover s")
          case True
          then obtain s2 w2 where h: "hand_over lk (pm_data m) (q, a) s w1 = Some (s2, w2)" "register_peer p (pm_data m) s2 w2 = Some (s', w')" "ok"
            using assms(8) False w1(1) Some ne dup qa by (auto simp: identify_peer_def bind_eq_Some_conv)
          have i2: "router_inv A s2 w2" "anonymous_pipes s2 = anonymous_pipes s" "ro_fq s2 = ro_fq s" "\<forall>p. p \<noteq> q \<longrightarrow> heap_load w2 p = heap_load w1 p"
            using hand_over_inv [OF inv _ h(1)] dup qa by auto
          have "q \<in> rr_all (ro_fq s)" using out_find_in [of "pm_data m" s q a] dup qa router_invD(3) [OF inv] by blast
          then have "heap_load w2 p = Some c1" using i2(4) at assms(2) by auto
          then show ?thesis using reg [OF i2(1) _ _ h(2)] i2(2,3) assms(2) h(3) by simp
        next
          case nh: False
          then show ?thesis using assms(2,8) False w1(1) Some ne dup inv at out c1(2) by (auto simp: identify_peer_def anon_ok_def)
        qed
      qed
    qed
  qed
qed

section \<open>Commands and events\<close>

fun router_event :: "bool \<Rightarrow> bool \<Rightarrow> addr \<Rightarrow> pevent \<Rightarrow> router \<times> pool \<Rightarrow> (router \<times> pool) option" where
  "router_event imm lk p ReadActivated (s, w) = router_xread_activated lk p s w"
| "router_event imm lk p WriteActivated (s, w) = map_option (\<lambda>s. (s, w)) (router_xwrite_activated p s)"
| "router_event imm lk p Hiccuped (s, w) =
     (if imm then map_option (Pair s) (pool_do p (pipe_terminate lk False) w) else None)"
| "router_event imm lk p PipeTerminated (s, w) = map_option (\<lambda>s. (s, w)) (router_xpipe_terminated p s w)"

lemma router_inv_grow: "router_inv (A - {p}) s w \<Longrightarrow> p \<notin> rr_all (ro_fq s) \<Longrightarrow> anon_ok w p \<Longrightarrow> router_inv A s w"
  by (auto simp: inv_defs)

lemma router_inv_shrink: "router_inv A s w \<Longrightarrow> B \<subseteq> A \<Longrightarrow> router_inv B s w"
  by (auto simp: inv_defs)

text \<open>A pipe becomes readable.\<close>

lemma router_xread_activated_ok:
  assumes "router_ok (s, w)" "p \<in> rr_all (ro_fq s) \<union> anonymous_pipes s" "heap_load w p = Some c" "heap_load w1 = (heap_load w)(p \<mapsto> c')"
    "ctx_ok c'" "ident c' = ident c" "in_phase c" "\<not> in_flag c" "in_flag c'" "same_out c c'" "has_room c \<and> out_phase c' \<longrightarrow> has_room c'"
    "router_xread_activated lk p s w1 = Some (s', w')"
  shows "router_ok (s', w')"
proof (cases "p \<in> anonymous_pipes s")
  case False
  let ?A = "anonymous_pipes s"
  have inv: "router_inv ?A s w" using assms(1) by (simp add: router_ok_def)
  note d = router_invD [OF inv]
  have p: "p \<in> rr_all (ro_fq s)" using assms(2) False by simp
  have "p \<notin> rr_act (ro_fq s)" using rr_sync_at [OF d(1) p] assms(3,7,8) by auto
  moreover have fp: "fq_pool (ro_fq s) w" using rsw.sync_pool [OF d(1)] by (simp add: fq_pool_def)
  ultimately obtain f where f: "fq_activated p (ro_fq s) = Some f" "rr_ok f" "rr_all f = insert p (rr_all (ro_fq s))"
      "rr_act f = insert p (rr_act (ro_fq s))"
    using fq_activated_ok [OF fp p] p by (auto simp: fq_pool_def rr_pool_def)
  have "rr_sync in_phase in_flag f w1" by (rule rr_sync_insert [OF d(1) f(2-4) assms(4,5)]) (use assms(9) in auto)
  moreover have "current_out s = Some p \<longrightarrow> out_phase c' \<longrightarrow> has_room c'"
    using d(7) [of p] assms(3,10,11) by (auto simp: room_ok_def same_out_def)
  ultimately have "router_inv ?A (s\<lparr>ro_fq := f\<rparr>) w1"
    using f(3) p by (intro router_inv_store_fq [OF inv assms(3-6)] assms(10)) auto
  then show ?thesis using assms(12) False f(1) by (auto simp: router_xread_activated_def router_ok_def)
next
  case True
  let ?A = "anonymous_pipes s"
  have inv: "router_inv ?A s w" using assms(1) by (simp add: router_ok_def)
  have an: "p \<notin> rr_all (ro_fq s)" "out_phase c \<longrightarrow> out_flag c" using router_invD(6) [OF inv True] assms(3) by (auto simp: anon_ok_def)
  have i1: "router_inv (?A - {p}) s w1"
    by (rule router_inv_other [OF router_inv_shrink [OF inv]]) (use assms(4) an(1) in auto)
  obtain ok s2 w2 where id: "identify_peer lk p s w1 = Some (ok, s2, w2)" using assms(12) True
    by (auto simp: router_xread_activated_def bind_eq_Some_conv)
  have "heap_load w1 p = Some c'" "in_phase c' \<longrightarrow> in_flag c'" "out_phase c' \<longrightarrow> out_flag c'" using assms(4,9,10) an(2) by (auto simp: same_out_def)
  from identify_peer_inv [OF i1 an(1) _ this(1) assms(5) this(2,3) id]
  have r: "anonymous_pipes s2 = ?A" "ok \<Longrightarrow> \<exists>f. fq_attach p (ro_fq s2) = Some f \<and> router_inv (?A - {p}) (s2\<lparr>ro_fq := f\<rparr>) w2"
    "\<not> ok \<Longrightarrow> router_inv (?A - {p}) s2 w2 \<and> p \<notin> rr_all (ro_fq s2) \<and> anon_ok w2 p" by (auto split: if_splits)
  show ?thesis
  proof (cases ok)
    case ok: True
    from r(2) [OF ok] obtain f where "fq_attach p (ro_fq s2) = Some f" "router_inv (?A - {p}) (s2\<lparr>ro_fq := f\<rparr>) w2" by blast
    then show ?thesis using assms(12) True id ok r(1)
      by (auto simp: router_xread_activated_def ro_attach_fq_def router_ok_def router_inv_def)
  next
    case nok: False
    then show ?thesis using assms(12) True id r(1,3) router_inv_grow [of ?A p s2 w2] by (auto simp: router_xread_activated_def router_ok_def)
  qed
qed

text \<open>A pipe becomes writable.\<close>

lemma router_xwrite_activated_ok:
  assumes "router_ok (s, w)" "p \<in> rr_all (ro_fq s) \<union> anonymous_pipes s" "heap_load w p = Some c" "heap_load w1 = (heap_load w)(p \<mapsto> c')"
    "ctx_ok c'" "ident c' = ident c" "out_phase c" "\<not> out_flag c" "out_flag c'" "same_in c c'"
  shows "\<exists>s'. router_xwrite_activated p s = Some s' \<and> router_ok (s', w1)"
proof -
  let ?A = "anonymous_pipes s"
  have inv: "router_inv ?A s w" using assms(1) by (simp add: router_ok_def)
  note d = router_invD [OF inv]
  have p: "p \<in> rr_all (ro_fq s)" using d(6) [of p] assms(2,3,7,8) by (auto simp: anon_ok_def)
  obtain x where x: "find (\<lambda>(i, q, a). q = p) (outpipes s) = Some x"
    using d(4) [OF p] by (cases "find (\<lambda>(i, q, a). q = p) (outpipes s)") (auto simp: find_None_iff)
  then obtain i a where e: "x = (i, p, a)" "(i, p, a) \<in> set (outpipes s)"
    by (cases x) (auto simp: find_Some_iff dest: nth_mem)
  have a: "\<not> a" using d(3) [OF e(2)] assms(3,7,8) by (auto simp: entry_ok_def)
  have "current_out s = Some p \<longrightarrow> False" using d(7) [of p] assms(3,7,8)
    by (auto simp: room_ok_def has_room_def pipe_check_write_def flag_defs)
  then have "router_inv ?A (out_set_active i True s) w1"
    by (intro router_inv_flag [OF inv e(2) assms(3-6,10)]) (use assms(9) in auto)
  then show ?thesis using x e(1) a by (simp add: router_xwrite_activated_def router_ok_def out_set_active_def)
qed

text \<open>A pipe is gone.\<close>

lemma router_xpipe_terminated_ok:
  assumes "router_ok (s, w)" "p \<in> rr_all (ro_fq s) \<union> anonymous_pipes s" "heap_load w p = Some c" "heap_load w1 = (heap_load w)(p \<mapsto> c')"
    "ident c' = ident c" "heap_free w1 p = Some w2"
  shows "\<exists>s'. router_xpipe_terminated p s w1 = Some s' \<and> router_ok (s', w2)"
proof (cases "p \<in> anonymous_pipes s")
  case True
  have inv: "router_inv (anonymous_pipes s) s w" using assms(1) by (simp add: router_ok_def)
  have "router_inv (anonymous_pipes s - {p}) s w2"
    by (rule router_inv_other [OF router_inv_shrink [OF inv]])
      (use router_invD(6) [OF inv True] heap_load_free [OF assms(6)] assms(4) in auto)
  then show ?thesis using True by (simp add: router_xpipe_terminated_def router_ok_def router_inv_def)
next
  case False
  let ?A = "anonymous_pipes s"
  have inv: "router_inv ?A s w" using assms(1) by (simp add: router_ok_def)
  note d = router_invD [OF inv]
  have p: "p \<in> rr_all (ro_fq s)" using assms(2) False by simp
  obtain i a where e: "(i, p, a) \<in> set (outpipes s)" "ident c = i" using d(4) [OF p] d(3) assms(3) by (fastforce simp: entry_ok_def)
  have at: "pool_pipe w1 p = Some (pe c')" "pidentity (pe c') = i" using assms(4,5) e(2) by (auto simp: pool_pipe_def ident_def)
  have fnd: "out_find i s \<noteq> None" using e(1) d(2) by (auto simp: out_find_def)
  let ?s = "out_erase i s"
  from fq_terminated_rr [of "ro_fq s" p w1] d(1) p at(1) obtain f where
    f: "fq_pipe_terminated p (ro_fq s) w1 = Some f" "rr_ok f" "rr_all f = rr_all (ro_fq s) - {p}" "rr_act f = rr_act (ro_fq s) - {p}"
    by (auto simp: rr_sync_def)
  have ld: "heap_load w2 q = heap_load w q" if "q \<noteq> p" for q using that heap_load_free [OF assms(6)] assms(4) by simp
  have key: "q = p \<longleftrightarrow> k = i" if "(k, q, b) \<in> set (outpipes s)" for k q b
  proof
    assume "q = p" then show "k = i" using d(3) [OF that] assms(3) e(2) by (auto simp: entry_ok_def)
  next
    assume "k = i" then show "q = p" using eq_key_imp_eq_value [OF d(2), of i "(q, b)" "(p, a)"] that e(1) by simp
  qed
  define s1 where "s1 = (if current_out s = Some p then ?s\<lparr>ro_fq := f, current_out := None\<rparr> else ?s\<lparr>ro_fq := f\<rparr>)"
  have s1: "ro_fq s1 = f" "outpipes s1 = filter (\<lambda>e. fst e \<noteq> i) (outpipes s)" "anonymous_pipes s1 = ?A" "more_out s1 = more_out s"
    "current_out s1 = Some q \<Longrightarrow> current_out s = Some q \<and> q \<noteq> p" for q by (auto simp: s1_def out_erase_def split: if_splits)
  have run: "router_xpipe_terminated p s w1 = Some s1" using False at fnd f(1)
    by (simp add: router_xpipe_terminated_def s1_def out_erase_def)
  have "rr_sync in_phase in_flag f w2" by (rule rr_sync_remove [OF d(1) f(2-4)]) (rule ld)
  moreover have "distinct (map fst (outpipes s1))" using d(2) s1(2) by (simp add: distinct_map_filter)
  moreover have "q \<in> rr_all f \<and> entry_ok w2 k q b" if "(k, q, b) \<in> set (outpipes s1)" for k q b
    using that s1(2) d(3) [of k q b] key [of k q b] f(3) ld by (auto simp: entry_ok_def)
  moreover have "\<exists>k b. (k, q, b) \<in> set (outpipes s1)" if "q \<in> rr_all f" for q
    using that d(4) [of q] key f(3) s1(2) by fastforce
  moreover have "q \<notin> rr_all f \<and> anon_ok w2 q" if "q \<in> ?A" for q
  proof -
    have "q \<noteq> p" using that False by auto
    then show ?thesis using d(6) [OF that] f(3) ld [of q] by (simp add: anon_ok_def)
  qed
  moreover have "more_out s \<and> q \<in> rr_all f \<and> room_ok w2 q" if "current_out s1 = Some q" for q
    using d(7) [of q] s1(5) [OF that] f(3) ld by (auto simp: room_ok_def)
  ultimately have "router_inv ?A s1 w2" using s1(1,4) by (intro router_invI) simp_all
  then show ?thesis using run s1(3) by (simp add: router_ok_def)
qed

section \<open>The system\<close>

definition router_pipes :: "router \<Rightarrow> addr set" where "router_pipes s = rr_all (ro_fq s) \<union> anonymous_pipes s"

text \<open>The message counts that a peer reports only make room: \<open>c\<close> is the pipe before, \<open>c'\<close> after the command.\<close>

definition credit :: "pctx \<Rightarrow> pctx \<Rightarrow> bool" where "credit c c' \<longleftrightarrow> (has_room c \<and> out_phase c' \<longrightarrow> has_room c')"

inductive router_step :: "bool \<Rightarrow> router \<times> pool \<Rightarrow> router \<times> pool \<Rightarrow> bool" for imm where
  rsend: "router_xsend lk m s w = Some (r, s', w') \<Longrightarrow> router_step imm (s, w) (s', w')"
| rrecv: "router_xrecv s w = Some (m, s', w') \<Longrightarrow> router_step imm (s, w) (s', w')"
| rhas_in: "router_xhas_in s w = Some (b, s', w') \<Longrightarrow> router_step imm (s, w) (s', w')"
| rsetopt: "router_xsetsockopt opt bytes v s = (r, s') \<Longrightarrow> router_step imm (s, w) (s', w)"
| rattach: "p \<notin> router_pipes s \<Longrightarrow> heap_load w p = Some c \<Longrightarrow> fresh_pipe c \<Longrightarrow>
    router_xattach_pipe lk p s w = Some (s', w') \<Longrightarrow> router_step imm (s, w) (s', w')"
| rpeers: "peers_act (router_pipes s) w w' \<Longrightarrow> router_step imm (s, w) (s, w')"
| rcommand: "p \<in> router_pipes s \<Longrightarrow> heap_load w p = Some c \<Longrightarrow> process_command cmd (c\<lparr>raised := []\<rparr>) = Some (alive, c') \<Longrightarrow>
    (alive \<longrightarrow> ctx_ok c') \<Longrightarrow> credit c c' \<Longrightarrow> sock_command (router_event imm lk) p cmd (s, w) = Some (s', w') \<Longrightarrow>
    router_step imm (s, w) (s', w')"

lemma router_attach_ok:
  assumes "router_ok (s, w)" "p \<notin> router_pipes s" "heap_load w p = Some c" "fresh_pipe c" "router_xattach_pipe lk p s w = Some (s', w')"
  shows "router_ok (s', w')"
proof -
  let ?A = "anonymous_pipes s"
  have inv: "router_inv ?A s w" and p: "p \<notin> rr_all (ro_fq s)" "p \<notin> ?A" using assms(1,2) by (auto simp: router_ok_def router_pipes_def)
  obtain w1 where w1: "(if ro_probe s then send_probe lk p w else Some w) = Some w1" using assms(5) by (auto simp: router_xattach_pipe_def bind_eq_Some_conv)
  obtain c1 where c1: "heap_load w1 = (heap_load w)(p \<mapsto> c1)" "ctx_ok c1" "in_active (pe c1)" "out_active (pe c1)"
  proof (cases "ro_probe s")
    case True
    then show thesis using that probe_fresh [OF assms(4,3), of lk] w1 by auto
  next
    case False
    have "heap_load w = (heap_load w)(p \<mapsto> c)" using assms(3) by (simp add: fun_upd_idem)
    then show thesis using that [of c] w1 assms(4) False by (auto simp: fresh_pipe_def pipe_check_write_def split: if_splits)
  qed
  have i1: "router_inv ?A s w1" by (rule router_inv_other [OF inv]) (use c1(1) p in auto)
  obtain ok s2 where id: "identify_peer lk p s w1 = Some (ok, s2, w')" using assms(5) w1
    by (auto simp: router_xattach_pipe_def bind_eq_Some_conv split: if_splits)
  have "heap_load w1 p = Some c1" "in_phase c1 \<longrightarrow> in_flag c1" "out_phase c1 \<longrightarrow> out_flag c1" using c1 by (auto simp: flag_defs)
  note r = identify_peer_inv [OF i1 p this(1) c1(2) this(2,3) id]
  show ?thesis
  proof (cases ok)
    case True
    then obtain f where "fq_attach p (ro_fq s2) = Some f" "router_inv ?A (s2\<lparr>ro_fq := f\<rparr>) w'" "anonymous_pipes s2 = ?A" using r by auto
    then show ?thesis using assms(5) w1 id True by (auto simp: router_xattach_pipe_def ro_attach_fq_def router_ok_def)
  next
    case False
    then have "router_inv ?A s2 w'" "p \<notin> rr_all (ro_fq s2)" "anon_ok w' p" "anonymous_pipes s2 = ?A" using r by auto
    then show ?thesis using assms(5) w1 id False
      by (auto simp: router_xattach_pipe_def router_ok_def inv_defs)
  qed
qed

lemma router_command_ok:
  assumes "router_ok (s, w)" "p \<in> router_pipes s" "heap_load w p = Some c" "process_command cmd (c\<lparr>raised := []\<rparr>) = Some (alive, c')"
    "alive \<longrightarrow> ctx_ok c'" "credit c c'" "sock_command (router_event imm lk) p cmd (s, w) = Some (s', w')"
  shows "router_ok (s', w')"
proof -
  have inv: "router_inv (anonymous_pipes s) s w" using assms(1) by (simp add: router_ok_def)
  note p = assms(2) [unfolded router_pipes_def]
  obtain w1 where w1: "heap_store w p c' = Some w1" using heap_store_ok [of w p c'] assms(3) by auto
  note ld = heap_load_store [OF w1]
  have fl: "flag (c\<lparr>raised := []\<rparr>) = flag c" if "flag \<in> {in_phase, in_flag, out_phase, out_flag}" for flag
    using that by (auto simp: flag_defs)
  have idc: "ident c' = ident c" using command_ident [OF assms(4)] by (simp add: ident_def)
  have run: "sock_command (router_event imm lk) p cmd (s, w) = sock_events (router_event imm lk) p (raised c') (s, w1) \<bind>
      (\<lambda>(s, w). do { w \<leftarrow> (if alive then Some w else heap_free w p); Some (s, w) })"
    using assms(3,4) w1 by (simp add: sock_command_def)
  have rm: "current_out s = Some p \<longrightarrow> out_phase c \<longrightarrow> has_room c" using router_invD(7) [OF inv] assms(3) by (auto simp: room_ok_def)
  have "cmd_effect alive c c'"
    using command_effects [OF assms(4)] by (simp add: cmd_effect_def same_in_def same_out_def fl)
  then show ?thesis unfolding cmd_effect_def
  proof (elim disjE conjE)
    assume a: "raised c' = []" "alive" "same_in c c'" "same_out c c'"
    then have "router_inv (anonymous_pipes s) s w1"
      using assms(5,6) rm by (intro router_inv_store [OF inv assms(3) ld _ idc]) (auto simp: credit_def same_out_def)
    then show ?thesis using run a assms(7) by (auto simp: router_ok_def)
  next
    assume a: "raised c' = [ReadActivated]" "alive" "in_phase c" "\<not> in_flag c" "in_flag c'" "same_out c c'"
    have "sock_events (router_event imm lk) p [] x = Some x" for x :: "router \<times> pool" by simp
    then have "router_xread_activated lk p s w1 = Some (s', w')" using run a assms(7)
      by (cases "router_xread_activated lk p s w1") auto
    then show ?thesis using a assms(5,6) by (intro router_xread_activated_ok [OF assms(1) p assms(3) ld _ idc]) (auto simp: credit_def)
  next
    assume a: "raised c' = [WriteActivated]" "alive" "out_phase c" "\<not> out_flag c" "out_flag c'" "same_in c c'"
    then have "router_xwrite_activated p s = Some s'" "w' = w1" using run assms(7)
      by (cases "router_xwrite_activated p s"; auto)+
    then show ?thesis using router_xwrite_activated_ok [OF assms(1) p assms(3) ld _ idc a(3-6)] a(2) assms(5) by auto
  next
    assume a: "raised c' = [Hiccuped]" "alive" "pstate (pe c') = Active"
    with terminate_ends [of c' lk False] assms(5) obtain c2 where
      c2: "pipe_terminate lk False c' = Some c2" "ctx_ok c2" "ident c2 = ident c'" "\<not> out_phase c2" by blast
    with terminate_active [of c' lk] a assms(5) have ip: "\<not> in_phase c2" by auto
    from pool_do_at [of w1 p c' "pipe_terminate lk False" c2] ld c2(1) obtain w2 where
      w2: "pool_do p (pipe_terminate lk False) w1 = Some w2" "heap_load w2 = (heap_load w)(p \<mapsto> c2)" by auto
    have "router_inv (anonymous_pipes s) s w2"
      by (rule router_inv_store [OF inv assms(3) w2(2) c2(2)]) (use c2 ip idc in \<open>auto simp: same_in_def same_out_def\<close>)
    then show ?thesis using run a w2(1) assms(7) by (auto simp: router_ok_def split: if_splits)
  next
    assume a: "raised c' = [PipeTerminated]" "\<not> alive"
    obtain w2 where w2: "heap_free w1 p = Some w2" using heap_free_ok [of w1 p] ld by auto
    from router_xpipe_terminated_ok [OF assms(1) p assms(3) ld idc w2] obtain t where
      "router_xpipe_terminated p s w1 = Some t" "router_ok (t, w2)" by blast
    then show ?thesis using run a w2 assms(7) by auto
  qed
qed

lemma router_new_ok: "router_ok (router_new x, w)"
  unfolding router_ok_def
  by (rule router_invI) (simp_all add: router_new_def rr_sync_def rr_ok_def rr_all_def fq_new_def)

lemma has_room_ch: "has_room (c\<lparr>ch := h\<rparr>) = has_room c"
  by (simp add: has_room_def pipe_check_write_def)

lemma router_step_ok:
  assumes "router_step imm x y" "router_ok x"
  shows "router_ok y"
  using assms
proof (induction rule: router_step.induct)
  case (rsend lk m s w r s' w')
  then show ?case using router_xsend_inv [of "anonymous_pipes s" s w lk m r s' w'] by (simp add: router_ok_def)
next
  case (rrecv s w m s' w')
  then show ?case using router_xrecv_inv [of "anonymous_pipes s" s w m s' w'] by (simp add: router_ok_def)
next
  case (rhas_in s w b s' w')
  then show ?case using router_xhas_in_inv [of "anonymous_pipes s" s w b s' w'] by (simp add: router_ok_def)
next
  case (rsetopt opt bytes v s r s' w)
  then show ?case by (auto simp: router_xsetsockopt_def router_ok_def router_inv_def split: option.splits if_splits)
next
  case (rattach p s w c lk s' w')
  then show ?case using router_attach_ok by blast
next
  case (rpeers s w w')
  have inv: "router_inv (anonymous_pipes s) s w" using rpeers.prems by (simp add: router_ok_def)
  note d = router_invD [OF inv]
  have at: "\<exists>c h. heap_load w p = Some c \<and> heap_load w' p = Some (c\<lparr>ch := h\<rparr>) \<and> ctx_ok (c\<lparr>ch := h\<rparr>)"
    if "p \<in> rr_all (ro_fq s) \<union> anonymous_pipes s" for p using rpeers.hyps that by (auto simp: peers_act_def router_pipes_def)
  have "rr_sync in_phase in_flag (ro_fq s) w'"
    by (rule peers_sync [OF d(1)]) (use rpeers.hyps in \<open>auto simp: peers_act_def router_pipes_def flag_defs\<close>)
  moreover have "entry_ok w' i p a" if "(i, p, a) \<in> set (outpipes s)" for i p a
    using d(3) [OF that] at [of p] by (auto simp: entry_ok_def ident_def flag_defs)
  moreover have "anon_ok w' p" if "p \<in> anonymous_pipes s" for p
    using d(6) [OF that] at [of p] that by (auto simp: anon_ok_def flag_defs)
  moreover have "room_ok w' p" if "current_out s = Some p" for p
    using d(7) [OF that] at [of p] by (auto simp: room_ok_def has_room_ch out_phase_def)
  ultimately show ?case unfolding router_ok_def fst_conv snd_conv using d by (intro router_invI) simp_all
next
  case (rcommand p s w c cmd alive c' lk s' w')
  then show ?case using router_command_ok by blast
qed

text \<open>C17: The routing table of a ROUTER socket is right at all times: whatever the application does, whatever
  commands its pipes receive, whichever identities peers announce and take over, the table lists
  exactly the identified pipes, each under the identity that it carries and that no other has. So the identity that is put
  before a received message always leads back to the pipe the message came from.\<close>

theorem router_invariant:
  assumes "(router_step imm)\<^sup>*\<^sup>* (router_new x, w0) (s, w)"
  shows "router_ok (s, w) \<and> inj_on (\<lambda>p. map_option pidentity (pool_pipe w p)) (rr_all (ro_fq s)) \<and>
    (\<forall>p e. p \<in> rr_all (ro_fq s) \<and> pool_pipe w p = Some e \<longrightarrow> map_option fst (out_find (pidentity e) s) = Some p)"
proof -
  have ok: "router_ok (s, w)"
    using assms by (induction rule: rtranclp_induct) (auto intro: router_new_ok router_step_ok)
  then have inv: "router_inv (anonymous_pipes s) s w" by (simp add: router_ok_def)
  note d = router_invD [OF inv]
  have look: "map_option fst (out_find (pidentity e) s) = Some p" if p: "p \<in> rr_all (ro_fq s)" "pool_pipe w p = Some e" for p e
  proof -
    obtain i a where "(i, p, a) \<in> set (outpipes s)" using d(4) [OF p(1)] by blast
    moreover from d(3) [OF this] p(2) have "pidentity e = i" by (auto simp: entry_ok_def pool_pipe_def ident_def)
    ultimately show ?thesis using d(2) by (simp add: out_find_def)
  qed
  have "inj_on (\<lambda>p. map_option pidentity (pool_pipe w p)) (rr_all (ro_fq s))"
  proof (rule inj_onI)
    fix p q assume p: "p \<in> rr_all (ro_fq s)" "q \<in> rr_all (ro_fq s)" "map_option pidentity (pool_pipe w p) = map_option pidentity (pool_pipe w q)"
    obtain e1 e2 where "pool_pipe w p = Some e1" "pool_pipe w q = Some e2" using d(5) [OF p(1)] d(5) [OF p(2)] by (auto simp: pool_pipe_def)
    then show "p = q" using look [OF p(1)] look [OF p(2)] p(3) by auto
  qed
  then show ?thesis using ok look by blast
qed

text \<open>The peer of pipe 0 announces the identity 1.\<close>

definition router_demo :: "(router \<times> pool) option" where
  "router_demo = router_xattach_pipe False 0 (router_new 5) three_pipes"

lemma router_demo_step: "router_demo = Some x \<Longrightarrow> router_step False (router_new 5, three_pipes) x"
  unfolding router_demo_def
  by (cases x, hypsubst, rule router_step.rattach [OF _ _ fresh_sock_pipe [of "[whole 1]"]])
    (simp_all add: three_pipes_def heap_load_def router_pipes_def router_new_def fq_new_def rr_all_def)

theorem router_invariant_witness:
  "\<exists>s w. router_demo = Some (s, w) \<and> router_ok (s, w) \<and> rr_all (ro_fq s) = {0} \<and> map_option fst (out_find [1] s) = Some 0"
proof -
  have "(case router_demo of Some (s, w) \<Rightarrow> elems (rr_pipes (ro_fq s)) = [0] \<and> map_option pidentity (pool_pipe w 0) = Some [1]
      | None \<Rightarrow> False)"
    by code_simp
  then obtain s w e where d: "router_demo = Some (s, w)" "rr_all (ro_fq s) = {0}" "pool_pipe w 0 = Some e" "pidentity e = [1]"
    by (auto simp: rr_all_def split: option.splits)
  have "(router_step False)\<^sup>*\<^sup>* (router_new 5, three_pipes) (s, w)" using router_demo_step [OF d(1)] by (rule r_into_rtranclp)
  from router_invariant [OF this] show ?thesis using d by auto
qed

end
