(* ===== verification/Routing.thy ===== *)
theory Routing
  imports Routersys
begin

text \<open>
  What ROUTER and REP sockets (src/libzmq/src/router.cpp, rep.cpp) do with messages: routing by identity on every branch, and two
  histories that go wrong, an identity that collides with a generated one and a reply that is lost.
\<close>

section \<open>Routing\<close>

fun router_send_parts :: "bool \<Rightarrow> pmsg list \<Rightarrow> router \<Rightarrow> pool \<Rightarrow> (router \<times> pool) option" where
  "router_send_parts lk [] s w = Some (s, w)"
| "router_send_parts lk (m # ms) s w =
     do { (r, s, w) \<leftarrow> router_xsend lk m s w; zmq_assert (r = Inr ()); router_send_parts lk ms s w }"

lemma send_parts_dropped:
  assumes "one_message ms" "more_out s" "current_out s = None" "\<not> opt_raw_sock s"
  shows "router_send_parts lk ms s w = Some (s\<lparr>more_out := False\<rparr>, w)"
  using assms
proof (induction ms arbitrary: s rule: one_message.induct)
  case (3 m n ms)
  then show ?case using "3.IH" [of "s\<lparr>more_out := True\<rparr>"] by (simp add: router_xsend_def router_push_def Let_def)
qed (simp_all add: router_xsend_def router_push_def Let_def)

lemma push_part:
  assumes "more_out s" "current_out s = Some p" "\<not> opt_raw_sock s" "\<not> raw_sock s" "heap_load w p = Some c" "ctx_ok c" "has_room c"
  shows "\<exists>c' w'. took lk m c c' \<and> ctx_ok c' \<and> heap_load w' = (heap_load w)(p \<mapsto> c') \<and> (pm_more m \<longrightarrow> has_room c') \<and>
    router_xsend lk m s w = Some (Inr (), if pm_more m then s else s\<lparr>more_out := False, current_out := None\<rparr>, w')"
proof -
  from took_total [OF assms(6), of lk m] assms(7) obtain c1 c' where
    c: "pipe_write lk m c = Some (True, c1)" "ctx_ok c1" "took lk m c c'" "ctx_ok c'" "if pm_more m then c' = c1 else pipe_flush c1 = Some c'"
    by (auto simp: has_room_def)
  from pool_op_at [of w p c "pipe_write lk m" True c1] assms(5) c(1) obtain w1 where
    w1: "pool_op p (pipe_write lk m) w = Some (True, w1)" "heap_load w1 = (heap_load w)(p \<mapsto> c1)" by auto
  show ?thesis
  proof (cases "pm_more m")
    case True
    have "has_room c1" using write_view [OF c(1)] write_flags [OF c(1)] True assms(7) has_room_view [of c1 c]
      by (auto simp: has_room_def out_phase_def pipe_check_write_def writable_def split: if_splits)
    moreover have "s\<lparr>more_out := True\<rparr> = s" using assms(1) by simp
    ultimately show ?thesis using True c w1 assms(1-4) by (auto simp: router_xsend_def router_push_def Let_def)
  next
    case False
    from pool_do_at [of w1 p c1 pipe_flush c'] w1(2) c(5) False obtain w2 where
      "pool_do p pipe_flush w1 = Some w2" "heap_load w2 = (heap_load w)(p \<mapsto> c')" by auto
    then show ?thesis using False c w1 assms(1-4) by (auto simp: router_xsend_def router_push_def Let_def)
  qed
qed

lemma send_parts_taken:
  assumes "one_message ms" "more_out s" "current_out s = Some p" "\<not> opt_raw_sock s" "\<not> raw_sock s" "heap_load w p = Some c" "ctx_ok c" "has_room c"
  shows "\<exists>c' w'. took_all lk ms c c' \<and> heap_load w' = (heap_load w)(p \<mapsto> c') \<and>
    router_send_parts lk ms s w = Some (s\<lparr>more_out := False, current_out := None\<rparr>, w')"
  using assms
proof (induction ms arbitrary: w c rule: one_message.induct)
  case (2 m)
  from push_part [OF "2.prems"(2-8), of lk m] "2.prems"(1) obtain c' w' where
    "took lk m c c'" "heap_load w' = (heap_load w)(p \<mapsto> c')"
    "router_xsend lk m s w = Some (Inr (), s\<lparr>more_out := False, current_out := None\<rparr>, w')" by auto
  then show ?case by (intro exI [of _ c'] exI [of _ w']) simp
next
  case (3 m n ms)
  from push_part [OF "3.prems"(2-8), of lk m] "3.prems"(1) obtain c1 w1 where
    1: "took lk m c c1" "ctx_ok c1" "heap_load w1 = (heap_load w)(p \<mapsto> c1)" "has_room c1" "router_xsend lk m s w = Some (Inr (), s, w1)" by auto
  have "heap_load w1 p = Some c1" using 1(3) by simp
  moreover have "one_message (n # ms)" using "3.prems"(1) by simp
  ultimately obtain c' w' where
    "took_all lk (n # ms) c1 c'" "heap_load w' = (heap_load w1)(p \<mapsto> c')"
    "router_send_parts lk (n # ms) s w1 = Some (s\<lparr>more_out := False, current_out := None\<rparr>, w')"
    using "3.IH" [OF _ "3.prems"(2-5) _ 1(2,4)] by blast
  then show ?case using 1 by (intro exI [of _ c'] exI [of _ w']) (auto simp del: router_send_parts.simps simp: router_send_parts.simps(2) [of lk m "n # ms"])
qed simp

text \<open>C19: Routing by identity, on every branch: the first part of a message names the peer. If the peer is
  known and its pipe has room, this pipe and no other takes all further parts, in order and as one message;
  if the peer is unknown or its pipe is full, the message is dropped without a trace, or, with
  ZMQ_ROUTER_MANDATORY, the send fails with EHOSTUNREACH or EAGAIN and the socket can start afresh.\<close>

theorem router_routes:
  assumes "router_ok (s, w)" "\<not> more_out s" "\<not> opt_raw_sock s" "\<not> raw_sock s" "pm_more hd_part" "one_message ms"
  shows "\<exists>r s1 w1. router_xsend lk hd_part s w = Some (r, s1, w1) \<and>
    (case out_find (pm_data hd_part) s of
       None \<Rightarrow> w1 = w \<and> (if mandatory s then r = Inl EHOSTUNREACH \<and> \<not> more_out s1
                else r = Inr () \<and> (\<exists>s2. router_send_parts lk ms s1 w1 = Some (s2, w) \<and> \<not> more_out s2))
     | Some (p, a) \<Rightarrow> (\<exists>c. heap_load w p = Some c \<and> pidentity (pe c) = pm_data hd_part \<and>
         (if has_room c
          then r = Inr () \<and> (\<exists>s2 w2 c'. router_send_parts lk ms s1 w1 = Some (s2, w2) \<and> \<not> more_out s2 \<and>
                 took_all lk ms c c' \<and> heap_load w2 = (heap_load w)(p \<mapsto> c'))
          else (\<forall>q. q \<noteq> p \<longrightarrow> heap_load w1 q = heap_load w q) \<and>
               (if mandatory s then r = Inl EAGAIN \<and> \<not> more_out s1
                else r = Inr () \<and> (\<exists>s2. router_send_parts lk ms s1 w1 = Some (s2, w1) \<and> \<not> more_out s2)))))"
proof -
  have inv: "router_inv (anonymous_pipes s) s w" using assms(1) by (simp add: router_ok_def)
  note d = router_invD [OF inv]
  have cur: "current_out s = None" using d(7) assms(2) by (cases "current_out s") auto
  have first: "router_xsend lk hd_part s w = router_route hd_part s w" using assms(2) cur by (simp add: router_xsend_def)
  let ?s = "s\<lparr>more_out := True\<rparr>"
  have fe: "out_find i ?s = out_find i s" for i by (simp add: out_find_def)
  have drop: "router_send_parts lk ms t v = Some (t\<lparr>more_out := False\<rparr>, v)"
    if "more_out t" "current_out t = None" "opt_raw_sock t = opt_raw_sock s" for t v
    using send_parts_dropped [OF assms(6)] that assms(3) by simp
  show ?thesis
  proof (cases "out_find (pm_data hd_part) s")
    case None
    then show ?thesis unfolding first using assms(5) fe cur drop [of ?s w] by (simp add: router_route_def Let_def)
  next
    case (Some pa)
    then obtain p a where e: "out_find (pm_data hd_part) s = Some (p, a)" by (cases pa) auto
    have "(pm_data hd_part, p, a) \<in> set (outpipes s)" using out_find_in [OF e] .
    then obtain c where c: "heap_load w p = Some c" "ident c = pm_data hd_part" "ctx_ok c"
      using d(3) d(5) by (fastforce simp: entry_ok_def)
    define c1 where "c1 = snd (pipe_check_write c)"
    have op: "check_write_op c = Some (has_room c, c1)" by (simp add: check_write_op_def has_room_def c1_def)
    from pool_op_at [of w p c check_write_op "has_room c" c1] c(1) op obtain w1 where
      w1: "pool_op p check_write_op w = Some (has_room c, w1)" "heap_load w1 = (heap_load w)(p \<mapsto> c1)" by auto
    show ?thesis
    proof (cases "has_room c")
      case True
      then have c1: "c1 = c" by (auto simp: c1_def has_room_def pipe_check_write_def split: if_splits)
      let ?t = "?s\<lparr>current_out := Some p\<rparr>"
      have "heap_load w1 p = Some c" using w1(2) c1 by simp
      from send_parts_taken [OF assms(6), of ?t p w1 c lk] this c(3) True assms(3,4) obtain c' w2 where
        "took_all lk ms c c'" "heap_load w2 = (heap_load w)(p \<mapsto> c')"
        "router_send_parts lk ms ?t w1 = Some (?t\<lparr>more_out := False, current_out := None\<rparr>, w2)" using w1(2) by auto
      then show ?thesis unfolding first e using True assms(5) e fe w1(1) c by (auto simp: router_route_def ident_def)
    next
      case False
      let ?t = "(out_set_active (pm_data hd_part) False ?s)\<lparr>current_out := None\<rparr>"
      show ?thesis unfolding first e using False assms(5) e fe w1 c drop [of ?t w1]
        by (simp add: router_route_def ident_def out_set_active_def Let_def)
    qed
  qed
qed

section \<open>Generated identities\<close>

definition id_msg :: "blob \<Rightarrow> pmsg" where "id_msg i = \<lparr>pm_flags = flag_identity, pm_delim = False, pm_data = i\<rparr>"

text \<open>The peer of pipe 0 announces the identity \<open>i\<close>, that of pipe 1 none.\<close>

definition two_peers :: "blob \<Rightarrow> pool" where
  "two_peers i = [Some (sock_pipe [id_msg i] 10), Some (sock_pipe [id_msg []] 10)]"

lemma sock_pipe_read: "\<exists>c'. pipe_read (sock_pipe [id_msg i] 10) = Some (Some (id_msg i), c') \<and> ctx_ok c'"
proof -
  from rd.op_total [OF sock_pipe_ok [of "[id_msg i]" 10]] obtain r c' where
    r: "pipe_read (sock_pipe [id_msg i] 10) = Some (r, c')" "ctx_ok c'" by blast
  have "inbox (sock_pipe [id_msg i] 10) = [id_msg i]"
    by (simp add: inbox_def sock_pipe_def pipe_new_def readable_def inflow_def heap_load_def id_msg_def pm_is_credential_def
        flag_identity_def flag_credential_def)
  then show ?thesis using read_inbox [OF sock_pipe_ok r(1)] r by (cases r) auto
qed

text \<open>A peer can bring a ROUTER socket down with an identity of the form that the socket generates for others,
  a zero byte and four more: it is accepted, and as soon as the counter of the socket arrives at these four
  bytes, the next peer without an identity makes the insertion into the table fail, and the assertion on it.\<close>

theorem router_id_collision_aborts:
  "\<exists>s w. router_xattach_pipe lk 0 (router_new x) (two_peers (0 # put_uint32 x)) = Some (s, w) \<and>
     router_xattach_pipe lk 1 s w = None"
proof -
  let ?i = "0 # put_uint32 x" and ?w = "two_peers (0 # put_uint32 x)"
  from sock_pipe_read [of ?i] obtain c where c: "pipe_read (sock_pipe [id_msg ?i] 10) = Some (Some (id_msg ?i), c)" by blast
  from sock_pipe_read [of "[]"] obtain d where d: "pipe_read (sock_pipe [id_msg []] 10) = Some (Some (id_msg []), d)" by blast
  have l: "heap_load ?w 0 = Some (sock_pipe [id_msg ?i] 10)" "heap_load ?w 1 = Some (sock_pipe [id_msg []] 10)"
    by (simp_all add: two_peers_def heap_load_def)
  from pool_op_at [of ?w 0 _ pipe_read, OF l(1) c] obtain w1 where
    w1: "pool_op 0 pipe_read ?w = Some (Some (id_msg ?i), w1)" "heap_load w1 = (heap_load ?w)(0 \<mapsto> c)" by blast
  from set_identity_at [of w1 0 c ?i] w1(2) obtain w2 where w2: "set_identity 0 ?i w1 = Some w2" "heap_load w2 1 = heap_load ?w 1" by auto
  obtain f where f: "fq_attach 0 fq_new = Some f"
    using fq_attach_ok [OF fq_new_ok _ l(1) sock_pipe_ok] by (auto simp: fq_new_def rr_all_def)
  let ?s = "(router_new x)\<lparr>outpipes := [(?i, 0, True)], ro_fq := f\<rparr>"
  have "router_xattach_pipe lk 0 (router_new x) ?w = Some (?s, w2)"
    using w1(1) w2(1) f by (simp add: router_xattach_pipe_def identify_peer_def register_peer_def out_insert_def out_find_def
        router_new_def id_msg_def ro_attach_fq_def)
  moreover from pool_op_at [of w2 1 _ pipe_read, OF _ d] w2(2) l(2) obtain w3 where
    "pool_op 1 pipe_read w2 = Some (Some (id_msg []), w3)" by auto
  then have "router_xattach_pipe lk 1 ?s w2 = None"
    by (simp add: router_xattach_pipe_def identify_peer_def register_peer_def out_insert_def out_find_def router_new_def id_msg_def
        new_rid_def Let_def)
  ultimately show ?thesis by blast
qed

section \<open>A lost reply\<close>

text \<open>The state in which REP drops what it sends although a message is under way.\<close>

definition deaf :: "router \<Rightarrow> bool" where
  "deaf t \<longleftrightarrow> more_out t \<and> current_out t = None \<and> \<not> opt_raw_sock t"

lemma router_xrecv_deaf: "router_xrecv t w = Some (r, t', w') \<Longrightarrow> deaf t \<Longrightarrow> deaf t'"
proof (cases "prefetched t")
  case False
  assume eq: "router_xrecv t w = Some (r, t', w')" and df: "deaf t"
  from eq False obtain r1 f w1 where "router_fetch (ro_fq t) w = Some (r1, f, w1)" by (auto simp: router_xrecv_def bind_eq_Some_conv)
  then show ?thesis using eq df False
    by (cases r1) (auto simp: router_xrecv_def deaf_def bind_eq_Some_conv Let_def split: if_splits)
qed (auto simp: router_xrecv_def deaf_def Let_def split: if_splits)

lemma copy_labels_deaf:
  assumes "copy_labels lk t w = Some (b, t', w')" "deaf t"
  shows "deaf t'"
proof -
  let ?P = "\<lambda>(lk :: bool) t (w :: pool) (y :: bool \<times> router \<times> pool). deaf t \<longrightarrow> deaf (fst (snd y))"
  have "?P lk t w (b, t', w')"
  proof (rule copy_labels.raw_induct [where P = ?P, OF _ assms(1)], intro impI)
    fix cl lk t w y
    assume IH: "\<And>lk t w y. cl lk t w = Some y \<Longrightarrow> ?P lk t w y" and df: "deaf t"
      and eq: "(router_xrecv t w \<bind> (\<lambda>(r, t, w). case r of None \<Rightarrow> Some (False, t, w)
        | Some m \<Rightarrow> if pm_more m
            then router_xsend lk m t w \<bind> (\<lambda>(e, t, w). zmq_assert (e = Inr ()) \<bind>
              (\<lambda>_. if pm_data m = [] then Some (True, t, w) else cl lk t w))
            else router_rollback t w \<bind> (\<lambda>(t, w). cl lk t w))) = Some y"
    from eq obtain r t1 w1 where 1: "router_xrecv t w = Some (r, t1, w1)" by (auto simp: bind_eq_Some_conv)
    have d1: "deaf t1" by (rule router_xrecv_deaf [OF 1 df])
    show "deaf (fst (snd y))"
    proof (cases r)
      case None
      then show ?thesis using eq 1 d1 by auto
    next
      case (Some m)
      show ?thesis
      proof (cases "pm_more m")
        case True
        have "router_xsend lk m t1 w1 = Some (Inr (), t1, w1)" using d1 True by (simp add: deaf_def router_xsend_def router_push_def Let_def)
        then show ?thesis using eq 1 Some True d1 IH by (auto split: if_splits)
      next
        case False
        have "router_rollback t1 w1 = Some (t1, w1)" using d1 by (simp add: deaf_def router_rollback_def)
        then show ?thesis using eq 1 Some False d1 IH by auto
      qed
    qed
  qed
  then show ?thesis using assms(2) by simp
qed

text \<open>A REP socket can lose the reply to a good request: a malformed request (one without the empty part) from
  a peer whose pipe is full leaves the router in the middle of a message that goes nowhere, since the
  rollback does nothing without an outbound pipe. The address of the next request is then taken for a further part of it,
  and the reply, which is accepted from the application, reaches no pipe.\<close>

theorem rep_reply_lost:
  assumes "deaf (rp_router s)" "rep_xrecv lk s w = Some (Inr request, s', w')" "\<not> pm_more request" "\<not> pm_more reply"
  shows "\<exists>s''. rep_xsend lk reply s' w' = Some (Inr (), s'', w') \<and> \<not> sending_reply s''"
proof -
  obtain ok t w1 where 1: "(if request_begins s then copy_labels lk (rp_router s) w else Some (True, rp_router s, w)) = Some (ok, t, w1)" "ok"
      "\<not> sending_reply s"
    using assms(2) by (auto simp: rep_xrecv_def bind_eq_Some_conv Let_def split: if_splits)
  have "deaf t" using 1(1) assms(1) copy_labels_deaf by (auto split: if_splits)
  moreover obtain t' where t': "router_xrecv t w1 = Some (Some request, t', w')" "s' = s\<lparr>rp_router := t', sending_reply := True, request_begins := True\<rparr>"
    using assms(2,3) 1 by (auto simp: rep_xrecv_def bind_eq_Some_conv Let_def split: if_splits option.splits)
  ultimately have "deaf t'" using router_xrecv_deaf by blast
  then show ?thesis using t'(2) assms(4) by (simp add: rep_xsend_def router_xsend_def router_push_def deaf_def Let_def)
qed

text \<open>A peer with the high-water mark 1 sends a request, is answered, and sends a message without the empty part;
  then another peer connects and sends a request.\<close>

definition deaf_pool :: pool where
  "deaf_pool = [Some (sock_pipe [id_msg [7], id_part [], whole 1, whole 2] 1), Some (sock_pipe [id_msg [8], id_part [], whole 5] 1)]"

definition rep_attach :: "addr \<Rightarrow> rep \<Rightarrow> pool \<Rightarrow> (rep \<times> pool) option" where
  "rep_attach p s w = do { (t, w) \<leftarrow> router_xattach_pipe False p (rp_router s) w; Some (s\<lparr>rp_router := t\<rparr>, w) }"

definition deaf_demo :: "(rep \<times> pool) option" where
  "deaf_demo = do { (s, w) \<leftarrow> rep_attach 0 (rep_new 5) deaf_pool;
                    (_, s, w) \<leftarrow> rep_xrecv False s w;
                    (_, s, w) \<leftarrow> rep_xsend False (whole 9) s w;
                    (_, s, w) \<leftarrow> rep_xrecv False s w;
                    rep_attach 1 s w }"

theorem rep_reply_lost_witness:
  "\<exists>s w s' w' s''. deaf_demo = Some (s, w) \<and> rep_xrecv False s w = Some (Inr (whole 5), s', w') \<and>
     rep_xsend False (whole 6) s' w' = Some (Inr (), s'', w')"
proof -
  have "(case deaf_demo of None \<Rightarrow> False | Some (s, w) \<Rightarrow>
      deaf (rp_router s) \<and> map_option fst (rep_xrecv False s w) = Some (Inr (whole 5)))"
    by code_simp
  then obtain s w y where d: "deaf_demo = Some (s, w)" "deaf (rp_router s)" "rep_xrecv False s w = Some (Inr (whole 5), y)"
    by (auto split: option.splits)
  obtain s' w' where y: "y = (s', w')" by (cases y)
  have "\<not> pm_more (whole b)" for b by (simp add: whole_def pm_more_def)
  then show ?thesis using d(1) d(3) rep_reply_lost [OF d(2) d(3) [unfolded y], of "whole 6"] y by blast
qed

text \<open>The socket of \<open>router_demo\<close> answers its peer.\<close>

theorem router_routes_witness:
  "\<exists>s w r s1 w1 s2 w2. router_demo = Some (s, w) \<and> router_xsend False (part 1) s w = Some (r, s1, w1) \<and>
     router_send_parts False [part 4, whole 5] s1 w1 = Some (s2, w2)"
proof -
  have "(case router_demo of Some (s, w) \<Rightarrow> out_find [1] s = Some (0, True) \<and> \<not> more_out s \<and> \<not> opt_raw_sock s \<and> \<not> raw_sock s \<and> \<not> mandatory s
      | None \<Rightarrow> False)"
    by code_simp
  then obtain s w where d: "router_demo = Some (s, w)" "out_find [1] s = Some (0, True)" "\<not> more_out s" "\<not> opt_raw_sock s" "\<not> raw_sock s"
      "\<not> mandatory s"
    by (auto split: option.splits)
  have "router_ok (s, w)" using router_demo_step [OF d(1)] router_step_ok router_new_ok by blast
  moreover have "pm_more (part 1)" "pm_data (part 1) = [1]" "one_message [part 4, whole 5]"
    by (simp_all add: part_def whole_def pm_more_def flag_more_def)
  ultimately show ?thesis using router_routes [of s w "part 1" "[part 4, whole 5]" False] d
    by (fastforce simp del: router_send_parts.simps took_all.simps split: if_splits)
qed

end
