(* ===== verification/Xsub.thy ===== *)
theory Xsub
  imports Dist Inbox Trie
begin

text \<open>
  The XSUB and SUB sockets, \<open>xsub_t\<close> and \<open>sub_t\<close> (src/libzmq/src/xsub.cpp, sub.cpp): subscriptions go to all peers
  and into a trie; inbound messages are fair-queued and, on a SUB socket, filtered by the trie. In the
  operations that distribute a message \<open>lk\<close> and \<open>vsm\<close> are those of \<open>dist_t\<close>.
\<close>

section \<open>The code\<close>

record xsub =
  xs_fq :: fq
  xs_dist :: dist
  xs_subs :: trie
  has_message :: bool
  xs_message :: pmsg
  xs_more :: bool
  xs_filter :: bool

definition xsub_new :: xsub where
  "xsub_new = \<lparr>xs_fq = fq_new, xs_dist = dist_new, xs_subs = trie_new, has_message = False, xs_message = pm_init,
     xs_more = False, xs_filter = False\<rparr>"

definition sub_msg :: "blob \<Rightarrow> pmsg" where "sub_msg d = \<lparr>pm_flags = 0, pm_delim = False, pm_data = d\<rparr>"

text \<open>A subscription that the pipe refuses is dropped.\<close>

definition send_subscription :: "bool \<Rightarrow> addr \<Rightarrow> blob \<Rightarrow> pool \<Rightarrow> pool option" where
  "send_subscription lk p topic w = map_option snd (pool_op p (pipe_write lk (sub_msg (1 # topic))) w)"

fun send_subscriptions :: "bool \<Rightarrow> addr \<Rightarrow> blob list \<Rightarrow> pool \<Rightarrow> pool option" where
  "send_subscriptions lk p [] w = Some w"
| "send_subscriptions lk p (k # ks) w = do { w \<leftarrow> send_subscription lk p k w; send_subscriptions lk p ks w }"

definition xsub_xhiccuped :: "bool \<Rightarrow> addr \<Rightarrow> xsub \<Rightarrow> pool \<Rightarrow> pool option" where
  "xsub_xhiccuped lk p s w =
     do { ks \<leftarrow> trie_apply (xs_subs s);
          w \<leftarrow> send_subscriptions lk p ks w;
          pool_do p pipe_flush w }"

definition xsub_xattach_pipe :: "bool \<Rightarrow> addr \<Rightarrow> xsub \<Rightarrow> pool \<Rightarrow> (xsub \<times> pool) option" where
  "xsub_xattach_pipe lk p s w =
     do { f \<leftarrow> fq_attach p (xs_fq s);
          d \<leftarrow> dist_attach p (xs_dist s);
          let s = s\<lparr>xs_fq := f, xs_dist := d\<rparr>;
          ks \<leftarrow> trie_apply (xs_subs s);
          w \<leftarrow> send_subscriptions lk p ks w;
          w \<leftarrow> pool_do p pipe_flush w;
          Some (s, w) }"

definition xsub_xread_activated :: "addr \<Rightarrow> xsub \<Rightarrow> xsub option" where
  "xsub_xread_activated p s = map_option (\<lambda>f. s\<lparr>xs_fq := f\<rparr>) (fq_activated p (xs_fq s))"

definition xsub_xwrite_activated :: "addr \<Rightarrow> xsub \<Rightarrow> xsub option" where
  "xsub_xwrite_activated p s = map_option (\<lambda>d. s\<lparr>xs_dist := d\<rparr>) (dist_activated p (xs_dist s))"

definition xsub_xpipe_terminated :: "addr \<Rightarrow> xsub \<Rightarrow> pool \<Rightarrow> xsub option" where
  "xsub_xpipe_terminated p s w =
     do { f \<leftarrow> fq_pipe_terminated p (xs_fq s) w;
          d \<leftarrow> dist_pipe_terminated p (xs_dist s);
          Some (s\<lparr>xs_fq := f, xs_dist := d\<rparr>) }"

text \<open>What \<open>xsend\<close> does with the trie, and whether the message goes to the peers.\<close>

definition xsub_update :: "blob \<Rightarrow> trie \<Rightarrow> (bool \<times> trie) option" where
  "xsub_update d t =
     (case d of
        [] \<Rightarrow> Some (True, t)
      | c # topic \<Rightarrow>
          if c = 1 then do { (_, t) \<leftarrow> trie_add topic t; Some (True, t) }
          else if c = 0 then trie_rm topic t
          else Some (True, t))"

definition xsub_xsend :: "(addr \<Rightarrow> bool) \<Rightarrow> bool \<Rightarrow> pmsg \<Rightarrow> xsub \<Rightarrow> pool \<Rightarrow> (xsub \<times> pool) option" where
  "xsub_xsend lk vsm m s w =
     do { (forward, t) \<leftarrow> xsub_update (pm_data m) (xs_subs s);
          let s = s\<lparr>xs_subs := t\<rparr>;
          if forward
          then do { (_, d, w) \<leftarrow> dist_send_to_all lk vsm m (xs_dist s) w; Some (s\<lparr>xs_dist := d\<rparr>, w) }
          else Some (s, w) }"

definition xsub_xhas_out :: "xsub \<Rightarrow> bool" where "xsub_xhas_out s = True"

definition xsub_match :: "pmsg \<Rightarrow> trie \<Rightarrow> bool option" where "xsub_match m t = trie_check (pm_data m) t"

text \<open>Popping the remaining parts of a message that does not match.\<close>

partial_function (option) xsub_skip :: "pmsg \<Rightarrow> fq \<Rightarrow> pool \<Rightarrow> (fq \<times> pool) option" where
  "xsub_skip m f w =
     (if \<not> pm_more m then Some (f, w)
      else do { (r, f, w) \<leftarrow> fq_recv f w;
                case r of None \<Rightarrow> None | Some m \<Rightarrow> xsub_skip m f w })"

declare xsub_skip.simps [code]

text \<open>The loop of \<open>xrecv\<close>, and with \<open>pass\<close> being \<open>!options.filter\<close> that of \<open>xhas_in\<close>: \<open>pass\<close> accepts any message.\<close>

partial_function (option) xsub_fetch :: "bool \<Rightarrow> trie \<Rightarrow> fq \<Rightarrow> pool \<Rightarrow> (pmsg option \<times> fq \<times> pool) option" where
  "xsub_fetch pass t f w =
     do { (r, f, w) \<leftarrow> fq_recv f w;
          case r of
            None \<Rightarrow> Some (None, f, w)
          | Some m \<Rightarrow>
              do { ok \<leftarrow> (if pass then Some True else xsub_match m t);
                   if ok then Some (Some m, f, w)
                   else do { (f, w) \<leftarrow> xsub_skip m f w; xsub_fetch pass t f w } } }"

declare xsub_fetch.simps [code]

definition xsub_xrecv :: "xsub \<Rightarrow> pool \<Rightarrow> (pmsg option \<times> xsub \<times> pool) option" where
  "xsub_xrecv s w =
     (if has_message s
      then Some (Some (xs_message s), s\<lparr>xs_message := pm_init, has_message := False, xs_more := pm_more (xs_message s)\<rparr>, w)
      else do { (r, f, w) \<leftarrow> xsub_fetch (xs_more s \<or> \<not> xs_filter s) (xs_subs s) (xs_fq s) w;
                let s = s\<lparr>xs_fq := f\<rparr>;
                Some (r, case r of None \<Rightarrow> s | Some m \<Rightarrow> s\<lparr>xs_more := pm_more m\<rparr>, w) })"

definition xsub_xhas_in :: "xsub \<Rightarrow> pool \<Rightarrow> (bool \<times> xsub \<times> pool) option" where
  "xsub_xhas_in s w =
     (if xs_more s \<or> has_message s then Some (True, s, w)
      else do { (r, f, w) \<leftarrow> xsub_fetch (\<not> xs_filter s) (xs_subs s) (xs_fq s) w;
                let s = s\<lparr>xs_fq := f\<rparr>;
                Some (case r of
                        None \<Rightarrow> (False, s\<lparr>xs_message := pm_init\<rparr>, w)
                      | Some m \<Rightarrow> (True, s\<lparr>xs_message := m, has_message := True\<rparr>, w)) })"

definition xsub_get_credential :: "xsub \<Rightarrow> pool \<Rightarrow> blob option" where
  "xsub_get_credential s w = fq_get_credential (xs_fq s) w"

subsection \<open>SUB\<close>

definition sub_new :: xsub where "sub_new = xsub_new\<lparr>xs_filter := True\<rparr>"

definition ZMQ_SUBSCRIBE :: int where "ZMQ_SUBSCRIBE = 6"
definition ZMQ_UNSUBSCRIBE :: int where "ZMQ_UNSUBSCRIBE = 7"

definition sub_xsetsockopt :: "(addr \<Rightarrow> bool) \<Rightarrow> bool \<Rightarrow> int \<Rightarrow> blob \<Rightarrow> xsub \<Rightarrow> pool \<Rightarrow> ((errno + unit) \<times> xsub \<times> pool) option" where
  "sub_xsetsockopt lk vsm opt topic s w =
     (if opt \<noteq> ZMQ_SUBSCRIBE \<and> opt \<noteq> ZMQ_UNSUBSCRIBE then Some (Inl EINVAL, s, w)
      else do { let m = sub_msg ((if opt = ZMQ_SUBSCRIBE then 1 else 0) # topic);
                (s, w) \<leftarrow> xsub_xsend lk vsm m s w;
                Some (Inr (), s, w) })"

definition sub_xsend :: "pmsg \<Rightarrow> xsub \<Rightarrow> (errno + unit) \<times> xsub" where "sub_xsend m s = (Inl ENOTSUP, s)"

definition sub_xhas_out :: "xsub \<Rightarrow> bool" where "sub_xhas_out s = False"

end
