(* ===== verification/Subfilter.thy ===== *)
theory Subfilter
  imports Xsub
begin

text \<open>
  Receiving on XSUB and SUB sockets (src/libzmq/src/xsub.cpp): the messages that match a subscription, all their parts,
  in the order of each pipe, and nothing else.
\<close>

section \<open>Selecting messages\<close>

fun take_msg :: "pmsg list \<Rightarrow> pmsg list" where
  "take_msg [] = []"
| "take_msg (m # ms) = m # (if pm_more m then take_msg ms else [])"

text \<open>Of a list of whole messages those whose first part satisfies \<open>g\<close>.\<close>

function sel :: "(pmsg \<Rightarrow> bool) \<Rightarrow> pmsg list \<Rightarrow> pmsg list" where
  "sel g ms = (if ms = [] then [] else if g (hd ms) then take_msg ms @ sel g (drop_msg ms) else sel g (drop_msg ms))"
  by pat_completeness auto
termination by (relation "measure (length \<circ> snd)") (auto simp: drop_msg_less)

declare sel.simps [simp del]

text \<open>The parts that the application gets out of \<open>ms\<close>; with \<open>mid\<close> the list begins in the middle of a
  message of which it has a part already.\<close>

definition deliver :: "(pmsg \<Rightarrow> bool) \<Rightarrow> bool \<Rightarrow> pmsg list \<Rightarrow> pmsg list" where
  "deliver g mid ms = (if mid then take_msg ms @ sel g (drop_msg ms) else sel g ms)"

lemma sel_Nil [simp]: "sel g [] = []" by (simp add: sel.simps)

lemma sel_Cons: "sel g (m # ms) = (if g m then m # deliver g (pm_more m) ms else sel g (drop_msg (m # ms)))"
  by (subst sel.simps) (simp add: deliver_def)

lemma deliver_Nil [simp]: "deliver g mid [] = []" by (simp add: deliver_def drop_msg_def)

lemma deliver_mid_Cons: "deliver g True (m # ms) = m # deliver g (pm_more m) ms"
  by (simp add: deliver_def)

lemma deliver_False [simp]: "deliver g False ms = sel g ms" by (simp add: deliver_def)

section \<open>The loops\<close>

lemma fq_recv_frame:
  assumes "fq_whole f w"
  shows "\<exists>r f' w'. fq_recv f w = Some (r, f', w') \<and> fq_whole f' w' \<and> rr_all f' = rr_all f \<and>
    (r = None \<longrightarrow> \<not> rr_more f \<and> \<not> rr_more f' \<and> (\<forall>p \<in> rr_all f. pin w p = [] \<and> pin w' p = [])) \<and>
    (\<forall>m. r = Some m \<longrightarrow> waiting f' w' < waiting f w \<and> rr_more f' = pm_more m \<and>
       (\<exists>p \<in> rr_all f. (rr_more f \<longrightarrow> p = rr_cur f) \<and> (pm_more m \<longrightarrow> rr_cur f' = p) \<and> pin w p = m # pin w' p \<and>
          (\<forall>q. q \<noteq> p \<longrightarrow> pin w' q = pin w q)))"
proof -
  from fq_recv_inbox [OF assms] obtain res f' w' where f: "fq_recvpipe f w = Some (res, f', w')" "fq_whole f' w'" "rr_all f' = rr_all f"
    "case res of
       None \<Rightarrow> \<not> rr_more f \<and> \<not> rr_more f' \<and> rr_active f' = 0 \<and> (\<forall>p \<in> rr_all f. pin w p = [] \<and> pin w' p = [])
     | Some (p, m) \<Rightarrow> p \<in> rr_all f \<and> (rr_more f \<longrightarrow> p = rr_cur f) \<and> rr_more f' = pm_more m \<and> (pm_more m \<longrightarrow> rr_cur f' = p) \<and>
         pin w p = m # pin w' p \<and> (\<forall>q. q \<noteq> p \<longrightarrow> pin w' q = pin w q)" by blast
  show ?thesis
  proof (cases res)
    case None
    then show ?thesis using f by (auto simp: fq_recv_def)
  next
    case (Some pm)
    then obtain p m where pm: "res = Some (p, m)" by (cases pm) auto
    then have "waiting f' w' < waiting f w" using waiting_less [of p f f' w m w'] f(3,4) by simp
    then show ?thesis using f pm by (auto simp: fq_recv_def)
  qed
qed

text \<open>What popping the rest of a message does: the current pipe loses it.\<close>

definition skipped :: "pmsg \<Rightarrow> fq \<Rightarrow> pool \<Rightarrow> fq \<Rightarrow> pool \<Rightarrow> bool" where
  "skipped m f w f' w' \<longleftrightarrow> fq_whole f' w' \<and> rr_all f' = rr_all f \<and> \<not> rr_more f' \<and> waiting f' w' \<le> waiting f w \<and>
     (\<forall>q. pin w' q = (if pm_more m \<and> q = rr_cur f then drop_msg (pin w q) else pin w q))"

lemma xsub_skip_ok:
  "fq_whole f w \<Longrightarrow> rr_more f = pm_more m \<Longrightarrow> \<exists>f' w'. xsub_skip m f w = Some (f', w') \<and> skipped m f w f' w'"
proof (induction "waiting f w" arbitrary: m f w rule: less_induct)
  case less
  show ?case
  proof (cases "pm_more m")
    case False
    then show ?thesis using less.prems by (subst xsub_skip.simps) (auto simp: skipped_def)
  next
    case True
    from fq_recv_frame [OF less.prems(1)] True less.prems(2) obtain m1 f1 w1 where
      1: "fq_recv f w = Some (Some m1, f1, w1)" "fq_whole f1 w1" "rr_all f1 = rr_all f" "waiting f1 w1 < waiting f w"
        "rr_more f1 = pm_more m1" "pm_more m1 \<longrightarrow> rr_cur f1 = rr_cur f" "pin w (rr_cur f) = m1 # pin w1 (rr_cur f)"
        "\<forall>q. q \<noteq> rr_cur f \<longrightarrow> pin w1 q = pin w q" by auto
    from less.hyps [OF 1(4,2,5)] obtain f2 w2 where 2: "xsub_skip m1 f1 w1 = Some (f2, w2)" "skipped m1 f1 w1 f2 w2" by blast
    have "xsub_skip m f w = Some (f2, w2)" using True 1(1) 2(1) by (subst xsub_skip.simps) simp
    moreover have "skipped m f w f2 w2" using 1 2(2) True by (auto simp: skipped_def)
    ultimately show ?thesis by blast
  qed
qed

text \<open>What the loop achieves at the beginning of a message.\<close>

definition fetched :: "(pmsg \<Rightarrow> bool) \<Rightarrow> fq \<Rightarrow> pool \<Rightarrow> pmsg option \<Rightarrow> fq \<Rightarrow> pool \<Rightarrow> bool" where
  "fetched g f w r f' w' \<longleftrightarrow> fq_whole f' w' \<and> rr_all f' = rr_all f \<and>
     (r = None \<longrightarrow> \<not> rr_more f' \<and> (\<forall>p \<in> rr_all f. sel g (pin w p) = [])) \<and>
     (\<forall>m. r = Some m \<longrightarrow> g m \<and> rr_more f' = pm_more m \<and>
        (\<exists>p \<in> rr_all f. (pm_more m \<longrightarrow> rr_cur f' = p) \<and> sel g (pin w p) = m # deliver g (pm_more m) (pin w' p) \<and>
           (\<forall>q. q \<noteq> p \<longrightarrow> sel g (pin w' q) = sel g (pin w q))))"

lemma fetched_skip:
  assumes "fetched g f1 w1 r f' w'" "rr_all f1 = rr_all f" "\<And>q. sel g (pin w1 q) = sel g (pin w q)"
  shows "fetched g f w r f' w'"
  using assms unfolding fetched_def by simp

lemma xsub_fetch_ok:
  assumes "\<And>m. (if pass then Some True else xsub_match m t) = Some (g m)"
  shows "fq_whole f w \<Longrightarrow> \<not> rr_more f \<Longrightarrow> \<exists>r f' w'. xsub_fetch pass t f w = Some (r, f', w') \<and> fetched g f w r f' w'"
proof (induction "waiting f w" arbitrary: f w rule: less_induct)
  case less
  from fq_recv_frame [OF less.prems(1)] obtain r f1 w1 where r: "fq_recv f w = Some (r, f1, w1)" "fq_whole f1 w1" "rr_all f1 = rr_all f"
    "r = None \<longrightarrow> \<not> rr_more f1 \<and> (\<forall>p \<in> rr_all f. pin w p = [] \<and> pin w1 p = [])"
    "\<forall>m. r = Some m \<longrightarrow> waiting f1 w1 < waiting f w \<and> rr_more f1 = pm_more m \<and>
       (\<exists>p \<in> rr_all f. (pm_more m \<longrightarrow> rr_cur f1 = p) \<and> pin w p = m # pin w1 p \<and> (\<forall>q. q \<noteq> p \<longrightarrow> pin w1 q = pin w q))" by blast
  show ?case
  proof (cases r)
    case None
    then have "xsub_fetch pass t f w = Some (None, f1, w1)" using r(1) by (subst xsub_fetch.simps) simp
    then show ?thesis using r None by (auto simp: fetched_def)
  next
    case (Some m)
    with r(5) obtain p where m: "waiting f1 w1 < waiting f w" "rr_more f1 = pm_more m" "p \<in> rr_all f" "pm_more m \<longrightarrow> rr_cur f1 = p"
      "pin w p = m # pin w1 p" "\<forall>q. q \<noteq> p \<longrightarrow> pin w1 q = pin w q" by blast
    show ?thesis
    proof (cases "g m")
      case True
      then have "xsub_fetch pass t f w = Some (Some m, f1, w1)" using r(1) Some assms [of m] by (subst xsub_fetch.simps) simp
      moreover have "\<exists>p \<in> rr_all f. (pm_more m \<longrightarrow> rr_cur f1 = p) \<and> sel g (pin w p) = m # deliver g (pm_more m) (pin w1 p) \<and>
          (\<forall>q. q \<noteq> p \<longrightarrow> sel g (pin w1 q) = sel g (pin w q))"
        by (rule bexI [OF _ m(3)]) (use True m in \<open>simp add: sel_Cons\<close>)
      then have "fetched g f w (Some m) f1 w1" using True r(2,3) m(2) by (simp add: fetched_def)
      ultimately show ?thesis by blast
    next
      case False
      from xsub_skip_ok [OF r(2) m(2)] obtain f2 w2 where 2: "xsub_skip m f1 w1 = Some (f2, w2)" "skipped m f1 w1 f2 w2" by blast
      have eq: "xsub_fetch pass t f w = xsub_fetch pass t f2 w2" using r(1) Some False assms [of m] 2(1) by (subst xsub_fetch.simps) simp
      from 2(2) m(1) have "waiting f2 w2 < waiting f w" "fq_whole f2 w2" "\<not> rr_more f2" by (auto simp: skipped_def)
      from less.hyps [OF this] obtain r' f' w' where 3: "xsub_fetch pass t f2 w2 = Some (r', f', w')" "fetched g f2 w2 r' f' w'" by blast
      have "sel g (pin w2 q) = sel g (pin w q)" for q
      proof (cases "q = p")
        case True
        have "pin w2 p = drop_msg (pin w p)" using 2(2) m(4,5) by (auto simp: skipped_def)
        then show ?thesis using True False m(5) by (simp add: sel_Cons)
      next
        case False
        then show ?thesis using 2(2) m(4,6) by (auto simp: skipped_def)
      qed
      then have "fetched g f w r' f' w'" using fetched_skip [OF 3(2)] 2(2) r(3) by (simp add: skipped_def)
      then show ?thesis using eq 3(1) by auto
    qed
  qed
qed

section \<open>The socket\<close>

definition sub_wants :: "xsub \<Rightarrow> pmsg \<Rightarrow> bool" where
  "sub_wants s m \<longleftrightarrow> (xs_filter s \<longrightarrow> (\<exists>k. prefix k (pm_data m) \<and> trie_abs (xs_subs s) k \<noteq> 0))"

definition xsub_mid :: "xsub \<Rightarrow> bool" where
  "xsub_mid s \<longleftrightarrow> (if has_message s then pm_more (xs_message s) else xs_more s)"

text \<open>The parts that the application will get out of pipe \<open>p\<close>, apart from one that was fetched already.\<close>

definition sub_view :: "xsub \<Rightarrow> pool \<Rightarrow> addr \<Rightarrow> pmsg list" where
  "sub_view s w p = deliver (sub_wants s) (xsub_mid s \<and> p = rr_cur (xs_fq s)) (pin w p)"

definition xsub_rx :: "xsub \<Rightarrow> pool \<Rightarrow> bool" where
  "xsub_rx s w \<longleftrightarrow> fq_whole (xs_fq s) w \<and> trie_wf (xs_subs s) \<and> rr_more (xs_fq s) = xsub_mid s \<and>
     (if has_message s then \<not> xs_more s else xs_message s = pm_init)"

lemma sub_wants_upd [simp]:
  "sub_wants (s\<lparr>xs_fq := f\<rparr>) = sub_wants s" "sub_wants (s\<lparr>xs_more := b\<rparr>) = sub_wants s"
  "sub_wants (s\<lparr>has_message := b\<rparr>) = sub_wants s" "sub_wants (s\<lparr>xs_message := m\<rparr>) = sub_wants s"
  by (auto simp: sub_wants_def fun_eq_iff)

lemma sub_wants_fetch: "trie_wf (xs_subs s) \<Longrightarrow> (if \<not> xs_filter s then Some True else xsub_match m (xs_subs s)) = Some (sub_wants s m)"
  by (auto simp: xsub_match_def trie_check_ok sub_wants_def)

lemma sub_fetch_ok:
  assumes "xsub_rx s w" "\<not> has_message s" "\<not> xs_more s"
  shows "\<exists>r f w'. xsub_fetch (\<not> xs_filter s) (xs_subs s) (xs_fq s) w = Some (r, f, w') \<and> fetched (sub_wants s) (xs_fq s) w r f w'"
  using xsub_fetch_ok [OF sub_wants_fetch, of s "xs_fq s" w] assms by (auto simp: xsub_rx_def xsub_mid_def)

text \<open>In the middle of a message the next part is passed on.\<close>

lemma sub_mid_ok:
  assumes "xsub_rx s w" "\<not> has_message s" "xs_more s"
  shows "\<exists>m f w'. xsub_fetch True (xs_subs s) (xs_fq s) w = Some (Some m, f, w') \<and> fq_whole f w' \<and> rr_all f = rr_all (xs_fq s) \<and>
    rr_more f = pm_more m \<and> rr_cur (xs_fq s) \<in> rr_all (xs_fq s) \<and> (pm_more m \<longrightarrow> rr_cur f = rr_cur (xs_fq s)) \<and>
    pin w (rr_cur (xs_fq s)) = m # pin w' (rr_cur (xs_fq s)) \<and> (\<forall>q. q \<noteq> rr_cur (xs_fq s) \<longrightarrow> pin w' q = pin w q)"
  using fq_recv_frame [of "xs_fq s" w] assms by (subst xsub_fetch.simps) (fastforce simp: xsub_rx_def xsub_mid_def)

text \<open>C15: A SUB socket delivers exactly the messages that match: if parts of a message are still to
  come they come next; otherwise the call returns the first part of a message that has a subscribed topic as a
  prefix. What the application gets out of each pipe is the sequence of matching messages, whole and in
  order, whatever else is skipped, and EAGAIN is returned only when no pipe has a matching message. The loops end and no
  assertion in them fails.\<close>

theorem sub_recv_exact:
  assumes "xsub_rx s w"
  shows "\<exists>r s' w'. xsub_xrecv s w = Some (r, s', w') \<and> xsub_rx s' w' \<and> sub_wants s' = sub_wants s \<and>
    (if has_message s then r = Some (xs_message s) \<and> (\<forall>p. sub_view s' w' p = sub_view s w p)
     else (r = None \<longrightarrow> (\<forall>p \<in> rr_all (xs_fq s). sub_view s w p = [])) \<and>
          (\<forall>m. r = Some m \<longrightarrow> (\<exists>p \<in> rr_all (xs_fq s). sub_view s w p = m # sub_view s' w' p \<and>
             (\<forall>q. q \<noteq> p \<longrightarrow> sub_view s' w' q = sub_view s w q))))"
proof (cases "has_message s")
  case True
  then show ?thesis using assms
    by (auto simp: xsub_xrecv_def xsub_rx_def xsub_mid_def sub_view_def)
next
  case nh: False
  show ?thesis
  proof (cases "xs_more s")
    case True
    from sub_mid_ok [OF assms nh True] obtain m f w' where
      f: "xsub_fetch True (xs_subs s) (xs_fq s) w = Some (Some m, f, w')" "fq_whole f w'" "rr_all f = rr_all (xs_fq s)"
        "rr_more f = pm_more m" "rr_cur (xs_fq s) \<in> rr_all (xs_fq s)" "pm_more m \<longrightarrow> rr_cur f = rr_cur (xs_fq s)"
        "pin w (rr_cur (xs_fq s)) = m # pin w' (rr_cur (xs_fq s))" "\<forall>q. q \<noteq> rr_cur (xs_fq s) \<longrightarrow> pin w' q = pin w q" by blast
    let ?s = "s\<lparr>xs_fq := f, xs_more := pm_more m\<rparr>" and ?c = "rr_cur (xs_fq s)"
    have run: "xsub_xrecv s w = Some (Some m, ?s, w')" using nh True f(1) by (simp add: xsub_xrecv_def)
    have rx: "xsub_rx ?s w'" using assms nh f by (simp add: xsub_rx_def xsub_mid_def)
    have "sub_view s w ?c = m # sub_view ?s w' ?c" using True nh f(6,7) by (auto simp: sub_view_def xsub_mid_def deliver_mid_Cons)
    moreover have "sub_view ?s w' q = sub_view s w q" if "q \<noteq> ?c" for q
      using that f(6,8) nh by (auto simp: sub_view_def xsub_mid_def)
    ultimately show ?thesis using run rx nh f(5) by auto
  next
    case nm: False
    from sub_fetch_ok [OF assms nh nm] obtain r f w' where
      f: "xsub_fetch (\<not> xs_filter s) (xs_subs s) (xs_fq s) w = Some (r, f, w')" "fetched (sub_wants s) (xs_fq s) w r f w'" by blast
    have v: "sub_view s w p = sel (sub_wants s) (pin w p)" for p using nh nm by (simp add: sub_view_def xsub_mid_def)
    show ?thesis
    proof (cases r)
      case None
      have "xsub_xrecv s w = Some (None, s\<lparr>xs_fq := f\<rparr>, w')" using nh nm f(1) None by (simp add: xsub_xrecv_def)
      moreover have "xsub_rx (s\<lparr>xs_fq := f\<rparr>) w'" using assms nh nm f(2) None by (simp add: xsub_rx_def xsub_mid_def fetched_def)
      ultimately show ?thesis using f(2) None nh v by (auto simp: fetched_def)
    next
      case (Some m)
      let ?s = "s\<lparr>xs_fq := f, xs_more := pm_more m\<rparr>"
      have run: "xsub_xrecv s w = Some (Some m, ?s, w')" using nh nm f(1) Some by (simp add: xsub_xrecv_def)
      have rx: "xsub_rx ?s w'" using assms nh f(2) Some by (simp add: xsub_rx_def xsub_mid_def fetched_def)
      from f(2) Some obtain p where p: "p \<in> rr_all (xs_fq s)" "pm_more m \<longrightarrow> rr_cur f = p"
        "sel (sub_wants s) (pin w p) = m # deliver (sub_wants s) (pm_more m) (pin w' p)"
        "\<forall>q. q \<noteq> p \<longrightarrow> sel (sub_wants s) (pin w' q) = sel (sub_wants s) (pin w q)" by (auto simp: fetched_def)
      have "sub_view s w p = m # sub_view ?s w' p" unfolding v using p nh by (cases "pm_more m") (simp_all add: sub_view_def xsub_mid_def)
      moreover have "sub_view ?s w' q = sub_view s w q" if "q \<noteq> p" for q
        unfolding v using p that nh by (cases "pm_more m") (simp_all add: sub_view_def xsub_mid_def)
      ultimately show ?thesis using run rx nh p(1) by auto
    qed
  qed
qed

text \<open>C40: Polling agrees with receiving: \<open>xhas_in\<close>, which fetches a message ahead, says that there is input
  exactly if a receive would return a part, and a receive after it returns the same part and leaves the same
  state as without it.\<close>

theorem sub_poll_agrees:
  assumes "xsub_rx s w"
  shows "\<exists>b s' w'. xsub_xhas_in s w = Some (b, s', w') \<and> xsub_rx s' w' \<and>
    b = (\<exists>m y. xsub_xrecv s w = Some (Some m, y)) \<and> (b \<longrightarrow> xsub_xrecv s' w' = xsub_xrecv s w)"
proof (cases "xs_more s \<or> has_message s")
  case True
  then have "xsub_xhas_in s w = Some (True, s, w)" by (simp add: xsub_xhas_in_def)
  moreover have "\<exists>m y. xsub_xrecv s w = Some (Some m, y)"
  proof (cases "has_message s")
    case False
    then show ?thesis using True sub_mid_ok [OF assms] by (fastforce simp: xsub_xrecv_def)
  qed (simp add: xsub_xrecv_def)
  ultimately show ?thesis using assms by (intro exI [of _ True] exI [of _ s] exI [of _ w]) simp
next
  case False
  then obtain r f w' where f: "xsub_fetch (\<not> xs_filter s) (xs_subs s) (xs_fq s) w = Some (r, f, w')" "fetched (sub_wants s) (xs_fq s) w r f w'"
    using sub_fetch_ok [OF assms] by blast
  have init: "xs_message s = pm_init" using assms False by (simp add: xsub_rx_def)
  show ?thesis
  proof (cases r)
    case None
    let ?s = "s\<lparr>xs_fq := f, xs_message := pm_init\<rparr>"
    have "xsub_rx ?s w'" using assms f(2) None False by (simp add: xsub_rx_def xsub_mid_def fetched_def)
    then show ?thesis using f(1) None False
      by (intro exI [of _ False] exI [of _ ?s] exI [of _ w']) (simp add: xsub_xhas_in_def xsub_xrecv_def)
  next
    case (Some m)
    let ?s = "s\<lparr>xs_fq := f, xs_message := m, has_message := True\<rparr>"
    have "xsub_rx ?s w'" using assms f(2) Some False by (simp add: xsub_rx_def xsub_mid_def fetched_def)
    moreover have "s\<lparr>xs_fq := f, xs_message := pm_init, has_message := False, xs_more := b\<rparr> = s\<lparr>xs_fq := f, xs_more := b\<rparr>" for b
      using init False by simp
    ultimately show ?thesis using f(1) Some False
      by (intro exI [of _ True] exI [of _ ?s] exI [of _ w']) (simp add: xsub_xhas_in_def xsub_xrecv_def)
  qed
qed

section \<open>Witnesses\<close>

text \<open>A subscription to the topic 5; a message that does not match and one that does wait in pipe 0, another one in pipe 1.\<close>

definition filter_pool :: pool where
  "filter_pool = [Some (sock_pipe [whole 3, part 5, whole 9] 10), Some (sock_pipe [part 7, whole 5] 10)]"

definition filter_sub :: xsub where
  "filter_sub = sub_new\<lparr>xs_fq := fq_new\<lparr>rr_pipes := array_of [0, 1], rr_active := 2, rr_current := 1\<rparr>,
     xs_subs := snd (the (trie_add [5] trie_new))\<rparr>"

lemma filter_sub_rx: "xsub_rx filter_sub filter_pool"
proof -
  have a: "array_ok (array_of [0, 1])" "elems (array_of [0, 1]) = [0, 1]" using array_of_ok [of "[0, 1]"] by auto
  have pins: "pin filter_pool 0 = [whole 3, part 5, whole 9]" "pin filter_pool 1 = [part 7, whole 5]"
    by (simp_all add: pin_def filter_pool_def heap_load_def sock_pipe_inbox whole_def part_def pm_is_credential_def
        flag_more_def flag_credential_def)
  have "fq_pool (xs_fq filter_sub) filter_pool" "rr_all (xs_fq filter_sub) = {0, 1}"
    using a by (simp_all add: fq_pool_def rr_pool_def filter_sub_def rr_ok_def rr_all_def rr_act_def filter_pool_def heap_load_def sock_pipe_ok)
  moreover have "trie_wf (xs_subs filter_sub)"
    using trie_add_ok [OF trie_new_wf, of "[5]"] unfolding trie_new_abs by (auto simp: filter_sub_def simp del: trie_add.simps)
  ultimately show ?thesis using pins
    by (simp add: xsub_rx_def fq_whole_def whole_msgs_def filter_sub_def sub_new_def xsub_new_def xsub_mid_def fq_new_def)
      (simp add: whole_def pm_more_def)
qed

theorem sub_recv_exact_witness:
  "\<exists>s' w' p. xsub_xrecv filter_sub filter_pool = Some (Some (part 5), s', w') \<and> xsub_rx s' w' \<and>
     sub_view filter_sub filter_pool p = part 5 # sub_view s' w' p"
proof -
  have "map_option fst (xsub_xrecv filter_sub filter_pool) = Some (Some (part 5))" by code_simp
  moreover have "\<not> has_message filter_sub" by (simp add: filter_sub_def sub_new_def xsub_new_def)
  ultimately show ?thesis using sub_recv_exact [OF filter_sub_rx] by auto
qed

theorem sub_poll_agrees_witness:
  "\<exists>s' w' y. xsub_xhas_in filter_sub filter_pool = Some (True, s', w') \<and> xsub_xrecv s' w' = Some (Some (part 5), y)"
proof -
  have "map_option fst (xsub_xrecv filter_sub filter_pool) = Some (Some (part 5))" by code_simp
  then show ?thesis using sub_poll_agrees [OF filter_sub_rx] by auto
qed

end
