(* ===== verification/Xpub.thy ===== *)
theory Xpub
  imports Dist Mtrie Inbox
begin

text \<open>
  The XPUB and PUB sockets, \<open>xpub_t\<close> and \<open>pub_t\<close> (src/libzmq/src/xpub.cpp, pub.cpp): subscriptions arrive on the inbound
  side of the pipes and go into a multi-trie; outbound messages are distributed to the pipes that the
  multi-trie finds for their first part. \<open>xp_pub\<close> is \<open>options.type == ZMQ_PUB\<close>.
\<close>

section \<open>The code\<close>

record xpub =
  xp_subs :: mtrie
  xp_dist :: dist
  verbose :: bool
  xp_more :: bool
  lossy :: bool
  pending_data :: "blob list"
  pending_flags :: "byte list"
  xp_pub :: bool

definition xpub_new :: xpub where
  "xpub_new = \<lparr>xp_subs = mtrie_new, xp_dist = dist_new, verbose = False, xp_more = False, lossy = True,
     pending_data = [], pending_flags = [], xp_pub = False\<rparr>"

definition xpub_pend :: "blob \<Rightarrow> byte \<Rightarrow> xpub \<Rightarrow> xpub" where
  "xpub_pend d fl s = s\<lparr>pending_data := pending_data s @ [d], pending_flags := pending_flags s @ [fl]\<rparr>"

text \<open>The body of the loop of \<open>xread_activated\<close>: a subscription, an unsubscription, or a message of the
  application on the other side.\<close>

definition xpub_subscription :: "addr \<Rightarrow> byte \<Rightarrow> blob \<Rightarrow> xpub \<Rightarrow> xpub option" where
  "xpub_subscription p c topic s =
     do { (unique, t) \<leftarrow> (if c = 0 then mtrie_rm topic p (xp_subs s) else Some (mtrie_add topic p (xp_subs s)));
          let s = s\<lparr>xp_subs := t\<rparr>;
          Some (if \<not> xp_pub s \<and> (unique \<or> c \<noteq> 0 \<and> verbose s) then xpub_pend (c # topic) 0 s else s) }"

definition xpub_apply :: "addr \<Rightarrow> pmsg \<Rightarrow> xpub \<Rightarrow> xpub option" where
  "xpub_apply p m s =
     (case pm_data m of
        [] \<Rightarrow> Some (xpub_pend [] (pm_flags m) s)
      | c # topic \<Rightarrow> if c = 0 \<or> c = 1 then xpub_subscription p c topic s else Some (xpub_pend (c # topic) (pm_flags m) s))"

partial_function (option) xpub_xread_activated :: "addr \<Rightarrow> xpub \<Rightarrow> pool \<Rightarrow> (xpub \<times> pool) option" where
  "xpub_xread_activated p s w =
     do { (r, w) \<leftarrow> pool_op p pipe_read w;
          case r of
            None \<Rightarrow> Some (s, w)
          | Some m \<Rightarrow> do { s \<leftarrow> xpub_apply p m s; xpub_xread_activated p s w } }"

declare xpub_xread_activated.simps [code]

definition xpub_xattach_pipe :: "addr \<Rightarrow> bool \<Rightarrow> xpub \<Rightarrow> pool \<Rightarrow> (xpub \<times> pool) option" where
  "xpub_xattach_pipe p subscribe_to_all s w =
     do { d \<leftarrow> dist_attach p (xp_dist s);
          let s = s\<lparr>xp_dist := d\<rparr>;
          let s = (if subscribe_to_all then s\<lparr>xp_subs := snd (mtrie_add [] p (xp_subs s))\<rparr> else s);
          xpub_xread_activated p s w }"

definition xpub_xwrite_activated :: "addr \<Rightarrow> xpub \<Rightarrow> xpub option" where
  "xpub_xwrite_activated p s = map_option (\<lambda>d. s\<lparr>xp_dist := d\<rparr>) (dist_activated p (xp_dist s))"

definition ZMQ_XPUB_VERBOSE :: int where "ZMQ_XPUB_VERBOSE = 40"
definition ZMQ_XPUB_NODROP :: int where "ZMQ_XPUB_NODROP = 69"

definition xpub_xsetsockopt :: "int \<Rightarrow> int option \<Rightarrow> xpub \<Rightarrow> (errno + unit) \<times> xpub" where
  "xpub_xsetsockopt opt value s =
     (case value of
        None \<Rightarrow> (Inl EINVAL, s)
      | Some v \<Rightarrow>
          if v < 0 then (Inl EINVAL, s)
          else if opt = ZMQ_XPUB_VERBOSE then (Inr (), s\<lparr>verbose := v \<noteq> 0\<rparr>)
          else if opt = ZMQ_XPUB_NODROP then (Inr (), s\<lparr>lossy := v = 0\<rparr>)
          else (Inl EINVAL, s))"

definition send_unsubscription :: "blob \<Rightarrow> xpub \<Rightarrow> xpub" where
  "send_unsubscription topic s = (if \<not> xp_pub s then xpub_pend (0 # topic) 0 s else s)"

definition xpub_xpipe_terminated :: "addr \<Rightarrow> xpub \<Rightarrow> xpub option" where
  "xpub_xpipe_terminated p s =
     do { (t, ks) \<leftarrow> mtrie_rm_pipe p (xp_subs s);
          let s = fold send_unsubscription ks (s\<lparr>xp_subs := t\<rparr>);
          d \<leftarrow> dist_pipe_terminated p (xp_dist s);
          Some (s\<lparr>xp_dist := d\<rparr>) }"

fun mark_as_matching :: "addr list \<Rightarrow> dist \<Rightarrow> dist option" where
  "mark_as_matching [] d = Some d"
| "mark_as_matching (p # ps) d = do { d \<leftarrow> dist_match p d; mark_as_matching ps d }"

definition xpub_xsend :: "(addr \<Rightarrow> bool) \<Rightarrow> bool \<Rightarrow> pmsg \<Rightarrow> xpub \<Rightarrow> pool \<Rightarrow> ((errno + unit) \<times> xpub \<times> pool) option" where
  "xpub_xsend lk vsm m s w =
     do { d \<leftarrow> (if \<not> xp_more s then do { ps \<leftarrow> mtrie_match (pm_data m) (xp_subs s); mark_as_matching ps (xp_dist s) }
               else Some (xp_dist s));
          let s = s\<lparr>xp_dist := d\<rparr>;
          ok \<leftarrow> (if lossy s then Some True else dist_check_hwm d w);
          if ok
          then do { (_, d, w) \<leftarrow> dist_send_to_matching lk vsm m d w;
                    let d = (if \<not> pm_more m then dist_unmatch d else d);
                    Some (Inr (), s\<lparr>xp_dist := d, xp_more := pm_more m\<rparr>, w) }
          else Some (Inl EAGAIN, s, w) }"

definition xpub_xhas_out :: "xpub \<Rightarrow> bool" where "xpub_xhas_out s = dist_has_out (xp_dist s)"

definition xpub_xrecv :: "xpub \<Rightarrow> ((errno + pmsg) \<times> xpub) option" where
  "xpub_xrecv s =
     (case pending_data s of
        [] \<Rightarrow> Some (Inl EAGAIN, s)
      | d # ds \<Rightarrow>
          case pending_flags s of
            [] \<Rightarrow> None
          | fl # fls \<Rightarrow> Some (Inr \<lparr>pm_flags = fl, pm_delim = False, pm_data = d\<rparr>, s\<lparr>pending_data := ds, pending_flags := fls\<rparr>))"

definition xpub_xhas_in :: "xpub \<Rightarrow> bool" where "xpub_xhas_in s \<longleftrightarrow> pending_data s \<noteq> []"

subsection \<open>PUB\<close>

definition pub_new :: xpub where "pub_new = xpub_new\<lparr>xp_pub := True\<rparr>"
definition pub_xrecv :: "xpub \<Rightarrow> (errno + pmsg) \<times> xpub" where "pub_xrecv s = (Inl ENOTSUP, s)"
definition pub_xhas_in :: "xpub \<Rightarrow> bool" where "pub_xhas_in s = False"

end
