(* ===== verification/Publish.thy ===== *)
theory Publish
  imports Xpub Dealersys
begin

text \<open>
  XPUB and PUB sockets (src/libzmq/src/xpub.cpp) over their histories: the subscriptions only mention attached pipes, a
  message goes to its subscribers and to nobody else, and the exception to it.
\<close>

section \<open>Well-formed sockets\<close>

text \<open>The pipes of a distributor agree with it: as long as a pipe can be written to at all, it is eligible exactly if its flag
  is up.\<close>

definition dist_sync :: "dist \<Rightarrow> pool \<Rightarrow> bool" where
  "dist_sync d w \<longleftrightarrow> dist_pool d w \<and> (\<forall>p \<in> d_elig d. \<forall>c. heap_load w p = Some c \<longrightarrow> out_phase c \<longrightarrow> out_flag c)"

definition xpub_ok :: "xpub \<times> pool \<Rightarrow> bool" where
  "xpub_ok x \<longleftrightarrow> mtrie_wf (xp_subs (fst x)) \<and> (\<forall>k. mtrie_abs (xp_subs (fst x)) k \<subseteq> d_all (xp_dist (fst x))) \<and>
     dist_sync (xp_dist (fst x)) (snd x) \<and> d_more (xp_dist (fst x)) = xp_more (fst x) \<and>
     length (pending_flags (fst x)) = length (pending_data (fst x))"

definition subscribers :: "xpub \<Rightarrow> blob \<Rightarrow> addr set" where
  "subscribers s d = (\<Union>k \<in> {k. prefix k d}. mtrie_abs (xp_subs s) k)"

lemma writable_iff: "writable (pe c) \<longleftrightarrow> out_phase c \<and> out_flag c"
  by (auto simp: writable_def flag_defs)

lemma took_writable:
  assumes "took lk m c c'"
  shows "out_phase c' \<and> out_flag c'"
proof -
  obtain c1 where c1: "pipe_write lk m c = Some (True, c1)" "if pm_more m then c' = c1 else pipe_flush c1 = Some c'"
    using assms by (auto simp: took_def)
  then have "out_phase c1 \<and> out_flag c1" using write_flags [OF c1(1)] by (simp add: writable_iff)
  then show ?thesis using c1(2) flush_flags [of c1 c'] by (auto simp: flag_defs split: if_splits)
qed

lemma mark_as_matching_ok:
  "dist_pool d w \<Longrightarrow> \<not> d_more d \<Longrightarrow> set ps \<subseteq> d_all d \<Longrightarrow>
   \<exists>d'. mark_as_matching ps d = Some d' \<and> dist_pool d' w \<and> \<not> d_more d' \<and> d_all d' = d_all d \<and> d_elig d' = d_elig d \<and>
     d_match d' = d_match d \<union> (set ps \<inter> d_elig d)"
proof (induction ps arbitrary: d)
  case (Cons p ps)
  from dist_match_ok [OF Cons.prems(1,2), of p] Cons.prems(3) obtain d1 where
    1: "dist_match p d = Some d1" "dist_pool d1 w" "d_all d1 = d_all d" "d_elig d1 = d_elig d" "\<not> d_more d1"
      "d_match d1 = (if p \<in> d_elig d then insert p (d_match d) else d_match d)" by auto
  from Cons.IH [OF 1(2,5)] Cons.prems(3) 1(3) obtain d2 where
    2: "mark_as_matching ps d1 = Some d2" "dist_pool d2 w" "\<not> d_more d2" "d_all d2 = d_all d1" "d_elig d2 = d_elig d1"
      "d_match d2 = d_match d1 \<union> (set ps \<inter> d_elig d1)" by auto
  then show ?case using 1 by auto
qed simp

text \<open>The pipes that a part of a message is offered to.\<close>

definition targets :: "xpub \<Rightarrow> pmsg \<Rightarrow> addr set" where
  "targets s m = d_match (xp_dist s) \<union> (if xp_more s then {} else subscribers s (pm_data m) \<inter> d_elig (xp_dist s))"

definition xpub_matched :: "pmsg \<Rightarrow> xpub \<Rightarrow> dist option" where
  "xpub_matched m s =
     (if \<not> xp_more s then do { ps \<leftarrow> mtrie_match (pm_data m) (xp_subs s); mark_as_matching ps (xp_dist s) } else Some (xp_dist s))"

lemma xpub_matched_ok:
  assumes "xpub_ok (s, w)"
  shows "\<exists>d. xpub_matched m s = Some d \<and> dist_sync d w \<and> d_more d = xp_more s \<and> d_all d = d_all (xp_dist s) \<and>
    d_elig d = d_elig (xp_dist s) \<and> d_match d = targets s m"
proof (cases "xp_more s")
  case True
  then show ?thesis using assms by (simp add: xpub_matched_def xpub_ok_def targets_def)
next
  case False
  have wf: "mtrie_wf (xp_subs s)" "dist_pool (xp_dist s) w" "\<not> d_more (xp_dist s)" "\<forall>k. mtrie_abs (xp_subs s) k \<subseteq> d_all (xp_dist s)"
    using assms False by (auto simp: xpub_ok_def dist_sync_def)
  from mtrie_match_ok [OF wf(1), of "pm_data m"] obtain ps where
    ps: "mtrie_match (pm_data m) (xp_subs s) = Some ps" "set ps = subscribers s (pm_data m)" by (auto simp: subscribers_def)
  have "set ps \<subseteq> d_all (xp_dist s)" using ps(2) wf(4) by (auto simp: subscribers_def)
  from mark_as_matching_ok [OF wf(2,3) this] obtain d where
    "mark_as_matching ps (xp_dist s) = Some d" "dist_pool d w" "\<not> d_more d" "d_all d = d_all (xp_dist s)" "d_elig d = d_elig (xp_dist s)"
      "d_match d = d_match (xp_dist s) \<union> (set ps \<inter> d_elig (xp_dist s))" by blast
  then show ?thesis using False ps assms by (auto simp: xpub_matched_def targets_def xpub_ok_def dist_sync_def)
qed

lemma xpub_xsend_matched:
  "xpub_xsend lk vsm m s w =
     do { d \<leftarrow> xpub_matched m s;
          ok \<leftarrow> (if lossy s then Some True else dist_check_hwm d w);
          if ok
          then do { (_, d, w) \<leftarrow> dist_send_to_matching lk vsm m d w;
                    Some (Inr (), s\<lparr>xp_dist := if \<not> pm_more m then dist_unmatch d else d, xp_more := pm_more m\<rparr>, w) }
          else Some (Inl EAGAIN, s\<lparr>xp_dist := d\<rparr>, w) }"
  by (simp add: xpub_xsend_def xpub_matched_def Let_def cong: if_cong)

lemma dist_send_sync:
  assumes "dist_sync d w"
  shows "\<exists>k d' w'. dist_send_to_matching lk vsm m d w = Some (k, d', w') \<and> dist_sync d' w' \<and> d_all d' = d_all d \<and> d_more d' = pm_more m \<and>
    (\<forall>p. p \<notin> d_match d \<longrightarrow> heap_load w' p = heap_load w p) \<and>
    (\<forall>p \<in> d_match d. accepts w p \<longrightarrow> (\<exists>c c'. heap_load w p = Some c \<and> took (lk p) m c c' \<and> heap_load w' p = Some c')) \<and>
    d_match d' = {p \<in> d_match d. accepts w p} \<and> d_elig d' \<subseteq> d_elig d"
proof -
  have dp: "dist_pool d w" using assms by (simp add: dist_sync_def)
  from dist_send_ok [OF dp, of lk vsm m] obtain k d' w' where
    r: "dist_send_to_matching lk vsm m d w = Some (k, d', w')" "dist_pool d' w'" "d_all d' = d_all d"
      "\<forall>p. p \<notin> d_match d \<longrightarrow> heap_load w' p = heap_load w p"
      "\<forall>p \<in> d_match d. accepts w p \<longrightarrow> (\<exists>c c'. heap_load w p = Some c \<and> took (lk p) m c c' \<and> heap_load w' p = Some c')"
      "d_match d' = {p \<in> d_match d. accepts w p}" "d_elig d' = d_elig d - {p \<in> d_match d. \<not> accepts w p}" "d_more d' = pm_more m"
    by blast
  have "out_flag c" if "p \<in> d_elig d'" "heap_load w' p = Some c" "out_phase c" for p c
  proof (cases "p \<in> d_match d")
    case True
    then show ?thesis using that r(5,7) took_writable by fastforce
  next
    case False
    then show ?thesis using that r(4,7) assms by (auto simp: dist_sync_def)
  qed
  then show ?thesis using r by (auto simp: dist_sync_def)
qed

lemma unmatch_sync: "dist_sync d w \<Longrightarrow> dist_sync (dist_unmatch d) w \<and> d_match (dist_unmatch d) = {} \<and> d_all (dist_unmatch d) = d_all d \<and>
    d_elig (dist_unmatch d) = d_elig d \<and> d_more (dist_unmatch d) = d_more d"
  using dist_unmatch_ok [of d w] by (auto simp: dist_sync_def dist_unmatch_def)

lemma check_hwm_total: "dist_pool d w \<Longrightarrow> \<exists>b. dist_check_hwm d w = Some b"
proof -
  assume dp: "dist_pool d w"
  have ln: "d_matching d \<le> length (elems (d_pipes d))" "array_ok (d_pipes d)" using dp by (auto simp: dist_pool_def dist_ok_def d_elems_def)
  have "\<exists>b. check_hwm_loop is d w = Some b" if "set is \<subseteq> {..<length (elems (d_pipes d))}" for "is" using that
  proof (induction "is")
    case (Cons i "is")
    then have i: "array_at (d_pipes d) i = Some (elems (d_pipes d) ! i)" using array_at_nth [OF ln(2), of i] by simp
    have "elems (d_pipes d) ! i \<in> d_all d" using Cons.prems by (simp add: d_all_def d_elems_def)
    then obtain c where "heap_load w (elems (d_pipes d) ! i) = Some c" using dp by (auto simp: dist_pool_def)
    then have "check_hwm_loop (i # is) d w = (if pipe_check_hwm (pe c) then check_hwm_loop is d w else Some False)"
      using i by (simp add: pool_pipe_def)
    then show ?case using Cons by (metis insert_subset list.simps(15))
  next
    case Nil
    show ?case by (rule exI [of _ True]) simp
  qed
  moreover have "set [0..<d_matching d] \<subseteq> {..<length (elems (d_pipes d))}" using ln(1) by auto
  ultimately show ?thesis by (simp add: dist_check_hwm_def)
qed

text \<open>A call of \<open>xsend\<close>: sent, or refused with EAGAIN when messages are not to be dropped.\<close>

lemma xpub_xsend_ok:
  assumes "xpub_ok (s, w)"
  shows "\<exists>r s' w'. xpub_xsend lk vsm m s w = Some (r, s', w') \<and> xpub_ok (s', w') \<and> xp_subs s' = xp_subs s \<and> lossy s' = lossy s \<and>
    (r = Inl EAGAIN \<and> \<not> lossy s \<and> w' = w \<and> d_match (xp_dist s') = targets s m \<and> xp_more s' = xp_more s \<or>
     r = Inr () \<and> xp_more s' = pm_more m \<and> (\<forall>p. p \<notin> targets s m \<longrightarrow> heap_load w' p = heap_load w p) \<and>
     (\<forall>p \<in> targets s m. accepts w p \<longrightarrow> (\<exists>c c'. heap_load w p = Some c \<and> took (lk p) m c c' \<and> heap_load w' p = Some c')) \<and>
     d_match (xp_dist s') = (if pm_more m then {p \<in> targets s m. accepts w p} else {}))"
proof -
  from xpub_matched_ok [OF assms, of m] obtain d where
    d: "xpub_matched m s = Some d" "dist_sync d w" "d_more d = xp_more s" "d_all d = d_all (xp_dist s)" "d_match d = targets s m" by blast
  from check_hwm_total [of d w] d(2) obtain b where b: "dist_check_hwm d w = Some b" by (auto simp: dist_sync_def)
  show ?thesis
  proof (cases "lossy s \<or> b")
    case False
    then have "xpub_xsend lk vsm m s w = Some (Inl EAGAIN, s\<lparr>xp_dist := d\<rparr>, w)" using d(1) b by (simp add: xpub_xsend_matched)
    moreover have "xpub_ok (s\<lparr>xp_dist := d\<rparr>, w)" using assms d(2-4) by (simp add: xpub_ok_def)
    ultimately show ?thesis using False d(5) by auto
  next
    case True
    from dist_send_sync [OF d(2), of lk vsm m] obtain k d1 w1 where
      1: "dist_send_to_matching lk vsm m d w = Some (k, d1, w1)" "dist_sync d1 w1" "d_all d1 = d_all d" "d_more d1 = pm_more m"
        "\<forall>p. p \<notin> d_match d \<longrightarrow> heap_load w1 p = heap_load w p"
        "\<forall>p \<in> d_match d. accepts w p \<longrightarrow> (\<exists>c c'. heap_load w p = Some c \<and> took (lk p) m c c' \<and> heap_load w1 p = Some c')"
        "d_match d1 = {p \<in> d_match d. accepts w p}" by blast
    let ?d = "if \<not> pm_more m then dist_unmatch d1 else d1"
    let ?s = "s\<lparr>xp_dist := ?d, xp_more := pm_more m\<rparr>"
    have run: "xpub_xsend lk vsm m s w = Some (Inr (), ?s, w1)" using True d(1) b 1(1) by (auto simp: xpub_xsend_matched)
    have u: "dist_sync ?d w1" "d_all ?d = d_all d" "d_more ?d = pm_more m" "d_match ?d = (if pm_more m then d_match d1 else {})"
      using unmatch_sync [OF 1(2)] 1(2-4) by auto
    have "xpub_ok (?s, w1)" using assms u(1-3) d(4) by (simp add: xpub_ok_def)
    moreover have "d_match (xp_dist ?s) = (if pm_more m then {p \<in> targets s m. accepts w p} else {})" using u(4) 1(7) d(5) by simp
    ultimately show ?thesis unfolding run using 1(5,6) d(5) by (intro exI [of _ "Inr ()"] exI [of _ ?s] exI [of _ w1]) simp
  qed
qed

section \<open>Publishing\<close>

fun xpub_send_parts :: "(addr \<Rightarrow> bool) \<Rightarrow> (pmsg \<Rightarrow> bool) \<Rightarrow> pmsg list \<Rightarrow> xpub \<Rightarrow> pool \<Rightarrow> (xpub \<times> pool) option" where
  "xpub_send_parts lk vsm [] s w = Some (s, w)"
| "xpub_send_parts lk vsm (m # ms) s w =
     do { (r, s, w) \<leftarrow> xpub_xsend lk (vsm m) m s w; zmq_assert (r = Inr ()); xpub_send_parts lk vsm ms s w }"

text \<open>A message of several parts that all pipes of \<open>T\<close> can take.\<close>

definition got_all :: "(addr \<Rightarrow> bool) \<Rightarrow> pmsg list \<Rightarrow> addr set \<Rightarrow> pool \<Rightarrow> pool \<Rightarrow> bool" where
  "got_all lk ms T w w' \<longleftrightarrow> (\<forall>p. p \<notin> T \<longrightarrow> heap_load w' p = heap_load w p) \<and>
     (\<forall>p \<in> T. \<exists>c c'. heap_load w p = Some c \<and> took_all (lk p) ms c c' \<and> heap_load w' p = Some c')"

lemma got_all_step:
  assumes "got_all lk ms T w1 w'" "\<forall>p. p \<notin> U \<longrightarrow> heap_load w1 p = heap_load w p" "T \<subseteq> U"
    "\<forall>p \<in> T. \<exists>c c'. heap_load w p = Some c \<and> took (lk p) m c c' \<and> heap_load w1 p = Some c'"
  shows "(\<forall>p. p \<notin> U \<longrightarrow> heap_load w' p = heap_load w p) \<and>
    (\<forall>p \<in> T. \<exists>c c'. heap_load w p = Some c \<and> took_all (lk p) (m # ms) c c' \<and> heap_load w' p = Some c')"
proof -
  have "\<exists>c c'. heap_load w p = Some c \<and> took_all (lk p) (m # ms) c c' \<and> heap_load w' p = Some c'" if "p \<in> T" for p
  proof -
    from assms(4) that obtain c c1 where c: "heap_load w p = Some c" "took (lk p) m c c1" "heap_load w1 p = Some c1" by blast
    from assms(1) that c(3) obtain c' where "took_all (lk p) ms c1 c'" "heap_load w' p = Some c'" by (auto simp: got_all_def)
    then show ?thesis using c by auto
  qed
  then show ?thesis using assms(1-3) by (auto simp: got_all_def)
qed

lemma further_parts:
  assumes "one_message ms" "xpub_ok (s, w)" "lossy s" "xp_more s" "\<forall>p \<in> d_match (xp_dist s). accepts w p"
  shows "\<exists>s' w'. xpub_send_parts lk vsm ms s w = Some (s', w') \<and> xpub_ok (s', w') \<and> \<not> xp_more s' \<and> d_match (xp_dist s') = {} \<and>
    xp_subs s' = xp_subs s \<and> got_all lk ms (d_match (xp_dist s)) w w'"
  using assms
proof (induction ms arbitrary: s w rule: one_message.induct)
  case (2 m)
  let ?T = "d_match (xp_dist s)"
  have T: "targets s m = ?T" using "2.prems"(4) by (simp add: targets_def)
  from xpub_xsend_ok [OF "2.prems"(2), of lk "vsm m" m] "2.prems"(1,3) T obtain s1 w1 where
    1: "xpub_xsend lk (vsm m) m s w = Some (Inr (), s1, w1)" "xpub_ok (s1, w1)" "xp_subs s1 = xp_subs s" "\<not> xp_more s1"
      "\<forall>p. p \<notin> ?T \<longrightarrow> heap_load w1 p = heap_load w p" "d_match (xp_dist s1) = {}"
      "\<forall>p \<in> ?T. accepts w p \<longrightarrow> (\<exists>c c'. heap_load w p = Some c \<and> took (lk p) m c c' \<and> heap_load w1 p = Some c')" by auto
  have "got_all lk [m] ?T w w1" using 1(5,7) "2.prems"(5) by (fastforce simp: got_all_def)
  then show ?case using 1 by auto
next
  case (3 m n ms)
  let ?T = "d_match (xp_dist s)"
  have T: "targets s m = ?T" and m: "pm_more m" "one_message (n # ms)" using "3.prems"(1,4) by (simp_all add: targets_def)
  from xpub_xsend_ok [OF "3.prems"(2), of lk "vsm m" m] m(1) "3.prems"(3) T obtain s1 w1 where
    1: "xpub_xsend lk (vsm m) m s w = Some (Inr (), s1, w1)" "xpub_ok (s1, w1)" "xp_subs s1 = xp_subs s" "lossy s1" "xp_more s1"
      "\<forall>p. p \<notin> ?T \<longrightarrow> heap_load w1 p = heap_load w p" "d_match (xp_dist s1) = {p \<in> ?T. accepts w p}"
      "\<forall>p \<in> ?T. accepts w p \<longrightarrow> (\<exists>c c'. heap_load w p = Some c \<and> took (lk p) m c c' \<and> heap_load w1 p = Some c')" by auto
  have T1: "d_match (xp_dist s1) = ?T" using 1(7) "3.prems"(5) by auto
  have tk: "\<forall>p \<in> ?T. \<exists>c c'. heap_load w p = Some c \<and> took (lk p) m c c' \<and> heap_load w1 p = Some c'" using 1(8) "3.prems"(5) by blast
  then have "\<forall>p \<in> d_match (xp_dist s1). accepts w1 p" using T1 took_room m(1) by (fastforce simp: accepts_def)
  from "3.IH" [OF m(2) 1(2,4,5) this] obtain s' w' where
    2: "xpub_send_parts lk vsm (n # ms) s1 w1 = Some (s', w')" "xpub_ok (s', w')" "\<not> xp_more s'" "d_match (xp_dist s') = {}"
      "xp_subs s' = xp_subs s1" "got_all lk (n # ms) ?T w1 w'" unfolding T1 by blast
  have "got_all lk (m # n # ms) ?T w w'" using got_all_step [OF 2(6) 1(6) order_refl tk] unfolding got_all_def by blast
  moreover have "xpub_send_parts lk vsm (m # n # ms) s w = Some (s', w')" using 1(1) 2(1) by (simp del: xpub_send_parts.simps add: xpub_send_parts.simps(2) [of lk vsm m])
  ultimately show ?case using 2(2-5) 1(3) by auto
qed simp

text \<open>C14: A message on a PUB socket reaches its subscribers and nobody else: every pipe that has subscribed to a prefix
  of its first part and has room when the message begins takes all its parts, in order and as one
  message; a pipe without such a subscription is not touched, and afterwards the socket can start the next message.\<close>

theorem xpub_publishes:
  assumes "xpub_ok (s, w)" "lossy s" "\<not> xp_more s" "d_match (xp_dist s) = {}" "one_message ms"
  shows "\<exists>s' w'. xpub_send_parts lk vsm ms s w = Some (s', w') \<and> xpub_ok (s', w') \<and> \<not> xp_more s' \<and> d_match (xp_dist s') = {} \<and>
    xp_subs s' = xp_subs s \<and>
    (\<forall>p \<in> subscribers s (pm_data (hd ms)). p \<in> d_elig (xp_dist s) \<and> accepts w p \<longrightarrow>
       (\<exists>c c'. heap_load w p = Some c \<and> took_all (lk p) ms c c' \<and> heap_load w' p = Some c')) \<and>
    (\<forall>p. p \<notin> subscribers s (pm_data (hd ms)) \<longrightarrow> heap_load w' p = heap_load w p)"
proof -
  obtain m ns where ms: "ms = m # ns" using assms(5) by (cases ms) auto
  let ?U = "subscribers s (pm_data m)" and ?T = "{p \<in> targets s m. accepts w p}"
  have T: "targets s m = ?U \<inter> d_elig (xp_dist s)" using assms(3,4) by (simp add: targets_def)
  from xpub_xsend_ok [OF assms(1), of lk "vsm m" m] assms(2) obtain s1 w1 where
    1: "xpub_xsend lk (vsm m) m s w = Some (Inr (), s1, w1)" "xpub_ok (s1, w1)" "xp_subs s1 = xp_subs s" "lossy s1" "xp_more s1 = pm_more m"
      "\<forall>p. p \<notin> targets s m \<longrightarrow> heap_load w1 p = heap_load w p" "d_match (xp_dist s1) = (if pm_more m then ?T else {})"
      "\<forall>p \<in> targets s m. accepts w p \<longrightarrow> (\<exists>c c'. heap_load w p = Some c \<and> took (lk p) m c c' \<and> heap_load w1 p = Some c')" by auto
  have tk: "\<forall>p \<in> ?T. \<exists>c c'. heap_load w p = Some c \<and> took (lk p) m c c' \<and> heap_load w1 p = Some c'" using 1(8) by blast
  obtain s' w' where 2: "xpub_send_parts lk vsm ns s1 w1 = Some (s', w')" "xpub_ok (s', w')" "\<not> xp_more s'" "d_match (xp_dist s') = {}"
    "xp_subs s' = xp_subs s1" "got_all lk ns ?T w1 w'"
  proof (cases ns)
    case Nil
    then have "\<not> pm_more m" using assms(5) ms by simp
    moreover have "got_all lk [] ?T w1 w1" using tk by (fastforce simp: got_all_def)
    ultimately show thesis using that [of s1 w1] Nil 1(2-5,7) by simp
  next
    case (Cons n ks)
    then have m: "pm_more m" "one_message ns" using assms(5) ms by simp_all
    have d1: "d_match (xp_dist s1) = ?T" using 1(7) m(1) by simp
    have "\<forall>p \<in> d_match (xp_dist s1). accepts w1 p" unfolding d1 using tk took_room m(1) by (fastforce simp: accepts_def)
    from further_parts [OF m(2) 1(2,4) _ this, of lk vsm] 1(5) m(1) show thesis unfolding d1 using that by blast
  qed
  from got_all_step [OF 2(6) 1(6) _ tk] have "(\<forall>p. p \<notin> targets s m \<longrightarrow> heap_load w' p = heap_load w p) \<and>
    (\<forall>p \<in> ?T. \<exists>c c'. heap_load w p = Some c \<and> took_all (lk p) (m # ns) c c' \<and> heap_load w' p = Some c')" by blast
  moreover have "xpub_send_parts lk vsm ms s w = Some (s', w')" using 1(1) 2(1) ms by simp
  ultimately show ?thesis using 2 1(3) T ms by (intro exI [of _ s'] exI [of _ w']) (simp del: took_all.simps)
qed

section \<open>A stale match\<close>

text \<open>With ZMQ_XPUB_NODROP a message can reach a peer that has not subscribed to it: when a send is refused
  with EAGAIN the pipes that it matched stay marked, and the next message, whatever its topic, is
  handed to those of them that accept.\<close>

theorem xpub_nodrop_stale:
  assumes "xpub_ok (s, w)" "\<not> xp_more s" "xpub_xsend lk vsm m1 s w = Some (Inl EAGAIN, s1, w)"
    "p \<in> subscribers s (pm_data m1)" "p \<in> d_elig (xp_dist s)"
    "xpub_ok (s1, w1)" "accepts w1 p" "xpub_xsend lk vsm m2 s1 w1 = Some (Inr (), s2, w2)"
  shows "\<exists>c c'. heap_load w1 p = Some c \<and> took (lk p) m2 c c' \<and> heap_load w2 p = Some c'"
proof -
  have "d_match (xp_dist s1) = targets s m1" using xpub_xsend_ok [OF assms(1), of lk vsm m1] assms(3) by auto
  then have "p \<in> targets s1 m2" using assms(2,4,5) by (simp add: targets_def)
  then show ?thesis using xpub_xsend_ok [OF assms(6), of lk vsm m2] assms(7,8) by auto
qed

section \<open>Witnesses\<close>

text \<open>Pipe 0 has subscribed to 1, pipe 1 to 2; the watermark is 2, and \<open>n\<close> messages for pipe 0 are not yet read.\<close>

definition news_pipe :: "nat \<Rightarrow> pctx" where
  "news_pipe n = (sock_pipe [] 2)\<lparr>pe := (pipe_new 0 1 2 2 False)\<lparr>msgs_written := of_nat n\<rparr>\<rparr>"

definition news_pool :: "nat \<Rightarrow> pool" where "news_pool n = [Some (news_pipe n), Some (news_pipe 0)]"

definition news_xpub :: xpub where
  "news_xpub = xpub_new\<lparr>xp_subs := snd (mtrie_add [2] 1 (snd (mtrie_add [1] 0 mtrie_new))),
     xp_dist := dist_new\<lparr>d_pipes := array_of [0, 1], d_active := 2, d_eligible := 2\<rparr>\<rparr>"

lemma news_subs:
  "mtrie_wf (xp_subs news_xpub)" "mtrie_abs (xp_subs news_xpub) = (\<lambda>k. if k = [2] then {1} else if k = [1] then {0} else {})"
proof -
  from mtrie_add_ok [OF mtrie_new_wf, of "[1]" 0] obtain t where
    t: "mtrie_add [1] 0 mtrie_new = (True, t)" "mtrie_wf t" "mtrie_abs t = (mtrie_abs mtrie_new)([1] := {0})"
    unfolding mtrie_new_abs by auto
  from mtrie_add_ok [OF t(2), of "[2]" 1] obtain u where
    u: "mtrie_add [2] 1 t = (mtrie_abs t [2] = {}, u)" "mtrie_wf u" "mtrie_abs u = (mtrie_abs t)([2] := insert 1 (mtrie_abs t [2]))" by blast
  have "xp_subs news_xpub = u" using t(1) u(1) by (simp add: news_xpub_def)
  then show "mtrie_wf (xp_subs news_xpub)" "mtrie_abs (xp_subs news_xpub) = (\<lambda>k. if k = [2] then {1} else if k = [1] then {0} else {})"
    using t(3) u(2,3) by (auto simp: fun_eq_iff simp del: mtrie_abs.simps)
qed

lemma news_all: "d_all (xp_dist news_xpub) = {0, 1}" "d_elig (xp_dist news_xpub) = {0, 1}" "d_match (xp_dist news_xpub) = {}"
  using array_of_ok [of "[0, 1]"] by (simp_all add: d_defs news_xpub_def dist_new_def)

lemma news_pipe_ok: "ctx_ok (news_pipe n)" "out_flag (news_pipe n)" "out_phase (news_pipe n)"
  using sock_pipe_ok [of "[]" 2] by (simp_all add: ctx_ok_def news_pipe_def sock_pipe_def pipe_new_def live_def flag_defs)

lemma news_load: "heap_load (news_pool n) p = (if p = 0 then Some (news_pipe n) else if p = 1 then Some (news_pipe 0) else None)"
  by (auto simp: news_pool_def heap_load_def nth_Cons')

lemma news_ok: "xpub_ok (news_xpub, news_pool n)"
proof -
  have "dist_ok (xp_dist news_xpub)" using array_of_ok [of "[0, 1]"] by (simp add: dist_ok_def d_defs news_xpub_def dist_new_def)
  then have "dist_sync (xp_dist news_xpub) (news_pool n)"
    unfolding dist_sync_def dist_pool_def news_all by (simp add: news_load news_pipe_ok)
  moreover have "mtrie_abs (xp_subs news_xpub) k \<subseteq> {0, 1}" for k by (simp add: news_subs(2))
  moreover have "d_more (xp_dist news_xpub) = xp_more news_xpub" "length (pending_flags news_xpub) = length (pending_data news_xpub)"
    by (simp_all add: news_xpub_def xpub_new_def dist_new_def)
  ultimately show ?thesis using news_subs(1) news_all(1) by (simp add: xpub_ok_def)
qed

lemma news_subscribers: "subscribers news_xpub [1] = {0}" "subscribers news_xpub [2] = {1}"
  by (auto simp: subscribers_def news_subs prefix_Cons split: if_splits)

theorem xpub_publishes_witness:
  "\<exists>s' w' c'. xpub_send_parts (\<lambda>_. True) (\<lambda>_. True) [part 2, whole 9] news_xpub (news_pool 0) = Some (s', w') \<and>
     took_all True [part 2, whole 9] (news_pipe 0) c' \<and> heap_load w' 1 = Some c' \<and> heap_load w' 0 = Some (news_pipe 0)"
proof -
  have a: "accepts (news_pool 0) 1" by (simp add: accepts_def news_load news_pipe_def pipe_new_def pipe_check_write_def)
  have m: "one_message [part 2, whole 9]" "pm_data (hd [part 2, whole 9]) = [2]"
    by (simp_all add: part_def whole_def pm_more_def flag_more_def)
  have n: "lossy news_xpub" "\<not> xp_more news_xpub" by (simp_all add: news_xpub_def xpub_new_def)
  from xpub_publishes [OF news_ok n news_all(3) m(1), of "\<lambda>_. True" "\<lambda>_. True" 0]
  show ?thesis unfolding m(2) news_subscribers(2) news_all(2) using a by (fastforce simp: news_load simp del: took_all.simps xpub_send_parts.simps)
qed

text \<open>The peer of pipe 0 gets a message with the topic 2.\<close>

definition nodrop_xpub :: xpub where "nodrop_xpub = news_xpub\<lparr>lossy := False\<rparr>"

theorem xpub_nodrop_stale_witness:
  "\<exists>s1 s2 w2 c'. xpub_xsend (\<lambda>_. True) True (whole 1) nodrop_xpub (news_pool 1) = Some (Inl EAGAIN, s1, news_pool 1) \<and>
     xpub_xsend (\<lambda>_. True) True (whole 2) s1 (news_pool 0) = Some (Inr (), s2, w2) \<and>
     0 \<notin> subscribers nodrop_xpub [2] \<and> took True (whole 2) (news_pipe 0) c' \<and> heap_load w2 0 = Some c'"
proof -
  have ok: "xpub_ok (nodrop_xpub, news_pool n)" for n using news_ok [of n] by (simp add: xpub_ok_def nodrop_xpub_def)
  have same: "subscribers nodrop_xpub = subscribers news_xpub" "xp_dist nodrop_xpub = xp_dist news_xpub" "\<not> xp_more nodrop_xpub"
    by (simp_all add: subscribers_def nodrop_xpub_def fun_eq_iff news_xpub_def xpub_new_def)
  have "(case xpub_xsend (\<lambda>_. True) True (whole 1) nodrop_xpub (news_pool 1) of
      Some (Inl EAGAIN, s1, w) \<Rightarrow> w = news_pool 1 \<and> map_option fst (xpub_xsend (\<lambda>_. True) True (whole 2) s1 (news_pool 0)) = Some (Inr ())
    | _ \<Rightarrow> False)"
    by code_simp
  then obtain s1 s2 w2 where r: "xpub_xsend (\<lambda>_. True) True (whole 1) nodrop_xpub (news_pool 1) = Some (Inl EAGAIN, s1, news_pool 1)"
    "xpub_xsend (\<lambda>_. True) True (whole 2) s1 (news_pool 0) = Some (Inr (), s2, w2)"
    by (auto split: option.splits prod.splits sum.splits errno.splits)
  from xpub_xsend_ok [OF ok, of "\<lambda>_. True" True "whole 1" 1] r(1) have "xpub_ok (s1, news_pool 1)" by auto
  then have ok1: "xpub_ok (s1, news_pool 0)"
    by (auto simp: xpub_ok_def dist_sync_def dist_pool_def news_load writable_iff news_pipe_ok split: if_splits)
  have "accepts (news_pool 0) 0" by (simp add: accepts_def news_load news_pipe_def pipe_new_def pipe_check_write_def)
  from xpub_nodrop_stale [OF ok same(3) r(1) _ _ ok1 this r(2)] show ?thesis
    using r news_subscribers same news_all by (auto simp: news_load whole_def)
qed

end
