(* ===== verification/Pubsys.thy ===== *)
theory Pubsys
  imports Publish Xsub
begin

text \<open>
  The histories of an XPUB socket (src/libzmq/src/xpub.cpp) with the commands of its pipes, and the agreement of a
  publisher with the subscriptions of an XSUB socket (src/libzmq/src/xsub.cpp) on the other side of a pipe.
\<close>

section \<open>Reading subscriptions\<close>

fun xpub_apply_all :: "addr \<Rightarrow> pmsg list \<Rightarrow> xpub \<Rightarrow> xpub option" where
  "xpub_apply_all p [] s = Some s"
| "xpub_apply_all p (m # ms) s = do { s \<leftarrow> xpub_apply p m s; xpub_apply_all p ms s }"

text \<open>The loop ends, and applies what waits in the pipe.\<close>

lemma xread_inbox:
  assumes "heap_load w p = Some c" "ctx_ok c"
  shows "\<exists>w'. xpub_xread_activated p s w = map_option (\<lambda>s'. (s', w')) (xpub_apply_all p (inbox c) s) \<and> pool_steady out_phase out_flag w w' \<and>
    (\<forall>q. q \<noteq> p \<longrightarrow> heap_load w' q = heap_load w q)"
  using assms
proof (induction "length (inbox c)" arbitrary: c s w)
  case 0
  from rd.op_total [OF 0(3)] obtain r c' where r: "pipe_read c = Some (r, c')" "ctx_ok c'" by blast
  have n: "r = None" using read_inbox [OF 0(3) r(1)] 0(1) by (cases r) auto
  from pool_op_at [of w p c pipe_read r c', OF 0(2) r(1)] obtain w' where
    w': "pool_op p pipe_read w = Some (r, w')" "heap_load w' = (heap_load w)(p \<mapsto> c')" by blast
  have "pool_steady out_phase out_flag w w'" by (rule pool_op_steady [OF w'(1)]) (rule read_steady)
  then show ?case using 0(1) n w' by (subst xpub_xread_activated.simps) auto
next
  case (Suc n)
  from rd.op_total [OF Suc.prems(2)] obtain r c' where r: "pipe_read c = Some (r, c')" "ctx_ok c'" by blast
  obtain m where m: "r = Some m" "inbox c = m # inbox c'" using read_inbox [OF Suc.prems(2) r(1)] Suc.hyps(2) by (cases r) auto
  from pool_op_at [of w p c pipe_read r c', OF Suc.prems(1) r(1)] obtain w1 where
    w1: "pool_op p pipe_read w = Some (r, w1)" "heap_load w1 = (heap_load w)(p \<mapsto> c')" by blast
  have st: "pool_steady out_phase out_flag w w1" by (rule pool_op_steady [OF w1(1)]) (rule read_steady)
  have step: "xpub_xread_activated p s w = do { s \<leftarrow> xpub_apply p m s; xpub_xread_activated p s w1 }"
    using w1(1) m(1) by (subst xpub_xread_activated.simps) simp
  show ?case
  proof (cases "xpub_apply p m s")
    case None
    then show ?thesis using step m(2) st w1(2) by auto
  next
    case (Some s1)
    have "n = length (inbox c')" "heap_load w1 p = Some c'" using Suc.hyps(2) m(2) w1(2) by auto
    from Suc.hyps(1) [OF this r(2), of s1] obtain w' where
      w': "xpub_xread_activated p s1 w1 = map_option (\<lambda>s'. (s', w')) (xpub_apply_all p (inbox c') s1)" "pool_steady out_phase out_flag w1 w'"
        "\<forall>q. q \<noteq> p \<longrightarrow> heap_load w' q = heap_load w1 q" by blast
    then show ?thesis using step Some m(2) w1(2) pool_steady_trans [OF st w'(2)] by auto
  qed
qed

lemma xpub_pend_ok: "xpub_ok (xpub_pend d fl s, w) = xpub_ok (s, w)"
  by (auto simp: xpub_ok_def xpub_pend_def)

lemma xpub_subscription_ok:
  assumes "xpub_ok (s, w)" "p \<in> d_all (xp_dist s)" "xpub_subscription p c topic s = Some s'"
  shows "xpub_ok (s', w) \<and> xp_dist s' = xp_dist s"
proof -
  obtain u t where t: "(if c = 0 then mtrie_rm topic p (xp_subs s) else Some (mtrie_add topic p (xp_subs s))) = Some (u, t)"
    "s' = xpub_pend (c # topic) 0 (s\<lparr>xp_subs := t\<rparr>) \<or> s' = s\<lparr>xp_subs := t\<rparr>"
    using assms(3) by (auto simp: xpub_subscription_def bind_eq_Some_conv Let_def split: if_splits)
  have wf: "mtrie_wf (xp_subs s)" and sub: "\<And>k. mtrie_abs (xp_subs s) k \<subseteq> d_all (xp_dist s)" using assms(1) by (auto simp: xpub_ok_def)
  have "mtrie_wf t \<and> (\<forall>k. mtrie_abs t k \<subseteq> d_all (xp_dist s))"
  proof (cases "c = 0")
    case True
    then show ?thesis using mtrie_rm_ok [OF wf, of topic p] t(1) sub by (fastforce split: if_splits)
  next
    case False
    then show ?thesis using mtrie_add_ok [OF wf, of topic p] t(1) sub assms(2) by auto
  qed
  then have "xpub_ok (s\<lparr>xp_subs := t\<rparr>, w)" using assms(1) by (simp add: xpub_ok_def)
  then show ?thesis using t(2) by (auto simp: xpub_pend_ok) (auto simp: xpub_pend_def)
qed

lemma xpub_apply_ok:
  assumes "xpub_ok (s, w)" "p \<in> d_all (xp_dist s)" "xpub_apply p m s = Some s'"
  shows "xpub_ok (s', w) \<and> xp_dist s' = xp_dist s"
proof (cases "\<exists>c topic. pm_data m = c # topic \<and> (c = 0 \<or> c = 1)")
  case True
  then obtain c topic where "xpub_apply p m s = xpub_subscription p c topic s" by (auto simp: xpub_apply_def)
  then show ?thesis using xpub_subscription_ok [OF assms(1,2)] assms(3) by simp
next
  case False
  then have "s' = xpub_pend (pm_data m) (pm_flags m) s" using assms(3) by (auto simp: xpub_apply_def split: list.splits if_splits)
  then show ?thesis using assms(1) by (simp add: xpub_pend_ok) (simp add: xpub_pend_def)
qed

lemma xpub_apply_all_ok:
  "xpub_ok (s, w) \<Longrightarrow> p \<in> d_all (xp_dist s) \<Longrightarrow> xpub_apply_all p ms s = Some s' \<Longrightarrow> xpub_ok (s', w) \<and> xp_dist s' = xp_dist s"
proof (induction ms arbitrary: s)
  case (Cons m ms)
  then obtain s1 where "xpub_apply p m s = Some s1" "xpub_apply_all p ms s1 = Some s'" by (auto simp: bind_eq_Some_conv)
  then show ?case using Cons xpub_apply_ok [of s w p m s1] by auto
qed simp

lemma dist_sync_steady: "dist_sync d w \<Longrightarrow> pool_steady out_phase out_flag w w' \<Longrightarrow> dist_sync d w'"
proof -
  assume d: "dist_sync d w" and st: "pool_steady out_phase out_flag w w'"
  have at: "\<exists>c c'. heap_load w p = Some c \<and> heap_load w' p = Some c' \<and> steady out_phase out_flag c c' \<and> (p \<notin> d_elig d \<longrightarrow> \<not> writable (pe c))"
    if "p \<in> d_all d" for p using d st that by (fastforce simp: dist_sync_def dist_pool_def pool_steady_def)
  have "d_elig d \<subseteq> d_all d" by (auto simp: d_defs dest: in_set_takeD)
  then show ?thesis using d at unfolding dist_sync_def dist_pool_def
    by (fastforce simp: steady_def writable_iff)
qed

lemma xpub_ok_steady: "xpub_ok (s, w) \<Longrightarrow> pool_steady out_phase out_flag w w' \<Longrightarrow> xpub_ok (s, w')"
  using dist_sync_steady unfolding xpub_ok_def by auto

lemma xread_activated_ok:
  assumes "xpub_ok (s, w)" "p \<in> d_all (xp_dist s)" "xpub_xread_activated p s w = Some (s', w')"
  shows "xpub_ok (s', w') \<and> xp_dist s' = xp_dist s"
proof -
  obtain c where c: "heap_load w p = Some c" "ctx_ok c" using assms(1,2) by (auto simp: xpub_ok_def dist_sync_def dist_pool_def)
  from xread_inbox [OF c, of s] obtain w2 where
    w2: "xpub_xread_activated p s w = map_option (\<lambda>s'. (s', w2)) (xpub_apply_all p (inbox c) s)" "pool_steady out_phase out_flag w w2" by blast
  have r: "xpub_apply_all p (inbox c) s = Some s'" "pool_steady out_phase out_flag w w'"
    using w2(2) w2(1) [unfolded assms(3), symmetric] by auto
  then show ?thesis using xpub_apply_all_ok [OF assms(1,2) r(1)] xpub_ok_steady by blast
qed

section \<open>The system\<close>

text \<open>\<open>imm\<close> is \<open>options.immediate == 1\<close>; otherwise a hiccup reaches \<open>xhiccuped\<close>, which this socket type
  does not implement.\<close>

fun xpub_event :: "bool \<Rightarrow> bool \<Rightarrow> addr \<Rightarrow> pevent \<Rightarrow> xpub \<times> pool \<Rightarrow> (xpub \<times> pool) option" where
  "xpub_event imm lk p ReadActivated (s, w) = xpub_xread_activated p s w"
| "xpub_event imm lk p WriteActivated (s, w) = map_option (\<lambda>s. (s, w)) (xpub_xwrite_activated p s)"
| "xpub_event imm lk p Hiccuped (s, w) = (if imm then map_option (Pair s) (pool_do p (pipe_terminate lk False) w) else None)"
| "xpub_event imm lk p PipeTerminated (s, w) = map_option (\<lambda>s. (s, w)) (xpub_xpipe_terminated p s)"

inductive xpub_step :: "bool \<Rightarrow> xpub \<times> pool \<Rightarrow> xpub \<times> pool \<Rightarrow> bool" for imm where
  psend: "xpub_xsend lk vsm m s w = Some (r, s', w') \<Longrightarrow> xpub_step imm (s, w) (s', w')"
| precv: "xpub_xrecv s = Some (r, s') \<Longrightarrow> xpub_step imm (s, w) (s', w)"
| psetopt: "xpub_xsetsockopt opt v s = (r, s') \<Longrightarrow> xpub_step imm (s, w) (s', w)"
| pattach: "p \<notin> d_all (xp_dist s) \<Longrightarrow> heap_load w p = Some c \<Longrightarrow> fresh_pipe c \<Longrightarrow>
    xpub_xattach_pipe p to_all s w = Some (s', w') \<Longrightarrow> xpub_step imm (s, w) (s', w')"
| ppeers: "peers_act (d_all (xp_dist s)) w w' \<Longrightarrow> xpub_step imm (s, w) (s, w')"
| pcommand: "p \<in> d_all (xp_dist s) \<Longrightarrow> heap_load w p = Some c \<Longrightarrow> process_command cmd (c\<lparr>raised := []\<rparr>) = Some (alive, c') \<Longrightarrow>
    (alive \<longrightarrow> ctx_ok c') \<Longrightarrow> sock_command (xpub_event imm lk) p cmd (s, w) = Some (s', w') \<Longrightarrow> xpub_step imm (s, w) (s', w')"

lemma dist_more_same:
  "dist_attach p d = Some d' \<Longrightarrow> d_more d' = d_more d" "dist_activated p d = Some d' \<Longrightarrow> d_more d' = d_more d"
  "dist_pipe_terminated p d = Some d' \<Longrightarrow> d_more d' = d_more d"
  by (auto simp: dist_attach_def dist_activated_def dist_pipe_terminated_def Let_def bind_eq_Some_conv split: if_splits)

lemma xpub_attach_ok:
  assumes "xpub_ok (s, w)" "p \<notin> d_all (xp_dist s)" "heap_load w p = Some c" "fresh_pipe c" "xpub_xattach_pipe p to_all s w = Some (s', w')"
  shows "xpub_ok (s', w')"
proof -
  have c: "ctx_ok c" "out_flag c" using assms(4) by (auto simp: fresh_pipe_def pipe_check_write_def out_flag_def split: if_splits)
  have dp: "dist_pool (xp_dist s) w" using assms(1) by (simp add: xpub_ok_def dist_sync_def)
  from dist_attach_ok [OF dp assms(2,3) c(1)] obtain d where
    d: "dist_attach p (xp_dist s) = Some d" "dist_pool d w" "d_all d = insert p (d_all (xp_dist s))" "d_elig d = insert p (d_elig (xp_dist s))" by blast
  define s1 where "s1 = (if to_all then s\<lparr>xp_dist := d, xp_subs := snd (mtrie_add [] p (xp_subs s))\<rparr> else s\<lparr>xp_dist := d\<rparr>)"
  have "dist_sync d w" using assms(1,3) d(2,4) c(2) by (auto simp: xpub_ok_def dist_sync_def)
  moreover have "mtrie_wf (xp_subs s1) \<and> (\<forall>k. mtrie_abs (xp_subs s1) k \<subseteq> d_all d)"
  proof (cases to_all)
    case True
    obtain t where "mtrie_add [] p (xp_subs s) = (mtrie_abs (xp_subs s) [] = {}, t)" "mtrie_wf t"
      "mtrie_abs t = (mtrie_abs (xp_subs s))([] := insert p (mtrie_abs (xp_subs s) []))"
      using mtrie_add_ok [of "xp_subs s" "[]" p] assms(1) by (auto simp: xpub_ok_def simp del: mtrie_add.simps mtrie_abs.simps)
    then show ?thesis using True assms(1) d(3) by (auto simp: s1_def xpub_ok_def simp del: mtrie_add.simps mtrie_abs.simps)
  next
    case False
    then show ?thesis using assms(1) d(3) by (auto simp: s1_def xpub_ok_def)
  qed
  moreover have "xp_dist s1 = d" "xp_more s1 = xp_more s" "pending_data s1 = pending_data s" "pending_flags s1 = pending_flags s"
    by (simp_all add: s1_def)
  ultimately have ok: "xpub_ok (s1, w)" using assms(1) dist_more_same(1) [OF d(1)] by (simp add: xpub_ok_def)
  have "xpub_xread_activated p s1 w = Some (s', w')" using assms(5) d(1) by (auto simp: xpub_xattach_pipe_def s1_def Let_def split: if_splits)
  then show ?thesis using xread_activated_ok [OF ok] d(3) \<open>xp_dist s1 = d\<close> by auto
qed

lemma send_unsubscriptions_ok:
  "xpub_ok (fold send_unsubscription ks s, w) = xpub_ok (s, w) \<and> xp_dist (fold send_unsubscription ks s) = xp_dist s"
proof (induction ks arbitrary: s)
  case (Cons k ks)
  then show ?case by (auto simp: send_unsubscription_def xpub_pend_ok) (auto simp: xpub_pend_def)
qed simp

lemma xpub_terminated_ok:
  assumes "xpub_ok (s, w)" "p \<in> d_all (xp_dist s)" "xpub_xpipe_terminated p s = Some s'" "\<And>q. q \<noteq> p \<Longrightarrow> heap_load w' q = heap_load w q"
  shows "xpub_ok (s', w')"
proof -
  have dp: "dist_sync (xp_dist s) w" "mtrie_wf (xp_subs s)" using assms(1) by (simp_all add: xpub_ok_def)
  from mtrie_rm_pipe_ok [OF dp(2), of p] obtain t ks where
    t: "mtrie_rm_pipe p (xp_subs s) = Some (t, ks)" "mtrie_wf t" "\<forall>k. mtrie_abs t k = mtrie_abs (xp_subs s) k - {p}" by blast
  let ?s = "fold send_unsubscription ks (s\<lparr>xp_subs := t\<rparr>)"
  have "xpub_ok (s\<lparr>xp_subs := t\<rparr>, w)" using assms(1) t by (auto simp: xpub_ok_def)
  then have s1: "xpub_ok (?s, w)" "xp_dist ?s = xp_dist s" using send_unsubscriptions_ok [of ks "s\<lparr>xp_subs := t\<rparr>" w] by simp_all
  have abs: "xp_subs ?s = t"
  proof -
    have "xp_subs (fold send_unsubscription ks u) = xp_subs u" for u
      by (induction ks arbitrary: u) (auto simp: send_unsubscription_def xpub_pend_def)
    then show ?thesis by simp
  qed
  from dist_pipe_terminated_ok [of "xp_dist s" w p] dp(1) assms(2) obtain d where
    d: "dist_pipe_terminated p (xp_dist s) = Some d" "dist_pool d w" "d_all d = d_all (xp_dist s) - {p}" "d_elig d = d_elig (xp_dist s) - {p}"
    by (auto simp: dist_sync_def)
  have "dist_sync d w'" using dp(1) d(2-4) assms(4) by (auto simp: dist_sync_def dist_pool_def)
  moreover have "s' = ?s\<lparr>xp_dist := d\<rparr>" using assms(3) t(1) d(1) s1(2) by (simp add: xpub_xpipe_terminated_def)
  moreover have "mtrie_abs t k \<subseteq> d_all d" for k using t(3) d(3) assms(1) by (auto simp: xpub_ok_def)
  ultimately show ?thesis using s1 abs dist_more_same(3) [OF d(1)] by (simp add: xpub_ok_def)
qed

lemma xpub_command_ok:
  assumes ok: "xpub_ok (s, w)" and p: "p \<in> d_all (xp_dist s)" "heap_load w p = Some c"
    and cmd: "process_command cmd (c\<lparr>raised := []\<rparr>) = Some (alive, c')" "alive \<longrightarrow> ctx_ok c'"
    and run: "sock_command (xpub_event imm lk) p cmd (s, w) = Some (s', w')"
  shows "xpub_ok (s', w')"
proof -
  obtain w1 where w1: "heap_store w p c' = Some w1" using heap_store_ok [of w p c'] p(2) by auto
  note ld = heap_load_store [OF w1]
  have fl: "flag (c\<lparr>raised := []\<rparr>) = flag c" if "flag \<in> {in_phase, in_flag, out_phase, out_flag}" for flag
    using that by (auto simp: flag_defs)
  have ev: "sock_events (xpub_event imm lk) p (raised c') (s, w1) \<bind>
      (\<lambda>(s, w). do { w \<leftarrow> (if alive then Some w else heap_free w p); Some (s, w) }) = Some (s', w')"
    using p(2) cmd(1) w1 run by (simp add: sock_command_def)
  have ds: "dist_sync (xp_dist s) w" using ok by (simp add: xpub_ok_def)
  have out1: "xpub_ok (s, w1)" if "same_out c c'" "alive"
  proof -
    have "pool_steady out_phase out_flag w w1"
      by (rule pool_steady_upd [OF p(2) ld]) (use that cmd(2) in \<open>auto simp: steady_def same_out_def\<close>)
    then show ?thesis by (rule xpub_ok_steady [OF ok])
  qed
  have "cmd_effect alive c c'"
    using command_effects [OF cmd(1)] by (simp add: cmd_effect_def same_in_def same_out_def fl)
  then show ?thesis unfolding cmd_effect_def
  proof (elim disjE conjE)
    assume "raised c' = []" "alive" "same_in c c'" "same_out c c'"
    then show ?thesis using ev out1 by simp
  next
    assume "raised c' = [ReadActivated]" "alive" "same_out c c'"
    then show ?thesis using ev out1 xread_activated_ok [of s w1 p s' w'] p(1) by (auto simp: bind_eq_Some_conv)
  next
    assume a: "raised c' = [WriteActivated]" "alive" "out_phase c" "\<not> out_flag c" "out_flag c'"
    have np: "p \<notin> d_elig (xp_dist s)" using ds p(2) a(3,4) by (auto simp: dist_sync_def)
    have dp: "dist_pool (xp_dist s) w" using ds by (simp add: dist_sync_def)
    from dist_activated_ok [OF dp p(1) np] obtain d where
      d: "dist_activated p (xp_dist s) = Some d" "dist_pool d w" "d_all d = d_all (xp_dist s)" "d_elig d = insert p (d_elig (xp_dist s))" by blast
    have "dist_sync d w1" using ds d(2-4) ld a(2,5) cmd(2) by (auto simp: dist_sync_def dist_pool_def)
    moreover have "s' = s\<lparr>xp_dist := d\<rparr>" "w' = w1" using ev a(1,2) d(1) by (auto simp: xpub_xwrite_activated_def)
    ultimately show ?thesis using ok d(3) dist_more_same(2) [OF d(1)] by (simp add: xpub_ok_def)
  next
    assume a: "raised c' = [Hiccuped]" "alive" "pstate (pe c') = Active"
    with terminate_active [of c' lk] cmd(2) obtain c2 where c2: "pipe_terminate lk False c' = Some c2" "ctx_ok c2" "\<not> out_phase c2" by blast
    from pool_do_at [of w1 p c' "pipe_terminate lk False" c2] ld c2(1) obtain w2 where
      w2: "pool_do p (pipe_terminate lk False) w1 = Some w2" "heap_load w2 = (heap_load w)(p \<mapsto> c2)" by auto
    have "pool_steady out_phase out_flag w w2" by (rule pool_steady_upd [OF p(2) w2(2)]) (use c2 in \<open>auto simp: steady_def\<close>)
    moreover have "s' = s" "w' = w2" using ev a(1,2) w2(1) by (auto split: if_splits)
    ultimately show ?thesis using xpub_ok_steady [OF ok] by simp
  next
    assume a: "raised c' = [PipeTerminated]" "\<not> alive"
    then obtain w2 where t: "xpub_xpipe_terminated p s = Some s'" "heap_free w1 p = Some w2" "w' = w2" using ev by (auto simp: bind_eq_Some_conv)
    have "heap_load w' q = heap_load w q" if "q \<noteq> p" for q using that ld heap_load_free [OF t(2)] t(3) by simp
    then show ?thesis using xpub_terminated_ok [OF ok p(1) t(1)] by blast
  qed
qed

lemma xpub_step_ok:
  assumes "xpub_step imm x y" "xpub_ok x"
  shows "xpub_ok y"
  using assms
proof (induction rule: xpub_step.induct)
  case (psend lk vsm m s w r s' w')
  then show ?case using xpub_xsend_ok [of s w lk vsm m] by auto
next
  case (precv s r s' w)
  then show ?case by (cases "pending_data s"; cases "pending_flags s") (fastforce simp: xpub_xrecv_def xpub_ok_def)+
next
  case (psetopt opt v s r s' w)
  then have "s' = s \<or> (\<exists>b. s' = s\<lparr>verbose := b\<rparr> \<or> s' = s\<lparr>lossy := b\<rparr>)" by (auto simp: xpub_xsetsockopt_def split: option.splits if_splits)
  then show ?case using psetopt by (fastforce simp: xpub_ok_def)
next
  case (pattach p s w c to_all s' w')
  then show ?case using xpub_attach_ok by blast
next
  case (ppeers s w w')
  have "dist_sync (xp_dist s) w'" using ppeers
    by (auto simp: xpub_ok_def dist_sync_def dist_pool_def peers_act_def flag_defs) (fastforce simp: d_defs dest: in_set_takeD)+
  then show ?case using ppeers by (simp add: xpub_ok_def)
next
  case (pcommand p s w c cmd alive c' lk s' w')
  then show ?case using xpub_command_ok by blast
qed

lemma xpub_new_ok: "xpub_ok (xpub_new, w)"
  by (simp add: xpub_ok_def xpub_new_def dist_sync_def dist_new_ok) (simp add: dist_new_def d_defs)

text \<open>C16: An XPUB socket stays well-formed over every history: whatever the application does, whatever the peers
  send and whatever commands the pipes receive, only attached pipes have subscriptions, the trie has no
  redundant node, the distributor agrees with the flags of its pipes, and the two queues of pending
  notifications have the same length. Therefore no call of send or receive can fail an assertion.\<close>

theorem xpub_well_formed:
  assumes "(xpub_step imm)\<^sup>*\<^sup>* (xpub_new, w0) (s, w)"
  shows "xpub_ok (s, w) \<and> (\<exists>y. xpub_xsend lk vsm m s w = Some y) \<and> (\<exists>y. xpub_xrecv s = Some y)"
proof -
  have ok: "xpub_ok (s, w)" using assms by (induction rule: rtranclp_induct) (auto intro: xpub_new_ok xpub_step_ok)
  then have "length (pending_flags s) = length (pending_data s)" by (simp add: xpub_ok_def)
  then have "\<exists>y. xpub_xrecv s = Some y" by (auto simp: xpub_xrecv_def split: list.splits)
  then show ?thesis using ok xpub_xsend_ok [OF ok, of lk vsm m] by blast
qed

section \<open>Agreement with the subscriber\<close>

text \<open>The messages that an XSUB socket sends for a sequence of (un)subscriptions, and its trie after them.\<close>

fun xsub_forwards :: "blob list \<Rightarrow> trie \<Rightarrow> (blob list \<times> trie) option" where
  "xsub_forwards [] t = Some ([], t)"
| "xsub_forwards (d # ds) t =
     do { (fwd, t) \<leftarrow> xsub_update d t; (out, t) \<leftarrow> xsub_forwards ds t; Some ((if fwd then [d] else []) @ out, t) }"

definition agree :: "addr \<Rightarrow> trie \<Rightarrow> xpub \<Rightarrow> bool" where
  "agree p t s \<longleftrightarrow> mtrie_wf (xp_subs s) \<and> (\<forall>k. p \<in> mtrie_abs (xp_subs s) k \<longleftrightarrow> trie_abs t k \<noteq> 0)"

lemma xpub_subscription_subs:
  assumes "mtrie_wf (xp_subs s)" "c = 0 \<longrightarrow> p \<in> mtrie_abs (xp_subs s) k"
  shows "\<exists>s'. xpub_subscription p c k s = Some s' \<and> mtrie_wf (xp_subs s') \<and>
    (\<forall>j. p \<in> mtrie_abs (xp_subs s') j \<longleftrightarrow> (if j = k then c \<noteq> 0 else p \<in> mtrie_abs (xp_subs s) j))"
proof -
  have pend: "xp_subs (if b then xpub_pend d fl (s\<lparr>xp_subs := t\<rparr>) else s\<lparr>xp_subs := t\<rparr>) = t" for b d fl t by (simp add: xpub_pend_def)
  show ?thesis
  proof (cases "c = 0")
    case True
    then obtain t u where "mtrie_rm k p (xp_subs s) = Some (u, t)" "mtrie_wf t" "mtrie_abs t = (mtrie_abs (xp_subs s))(k := mtrie_abs (xp_subs s) k - {p})"
      using mtrie_rm_ok [OF assms(1), of k p] assms(2) by (auto split: if_splits)
    then show ?thesis using True pend by (auto simp: xpub_subscription_def Let_def)
  next
    case False
    obtain t u where "mtrie_add k p (xp_subs s) = (u, t)" "mtrie_wf t" "mtrie_abs t = (mtrie_abs (xp_subs s))(k := insert p (mtrie_abs (xp_subs s) k))"
      using mtrie_add_ok [OF assms(1), of k p] by blast
    then show ?thesis using False pend by (auto simp: xpub_subscription_def Let_def)
  qed
qed

text \<open>One message of the subscriber keeps the agreement.\<close>

lemma agree_step:
  assumes "trie_wf t" "agree p t s" "\<And>k. trie_abs t k + 1 < 2 ^ 32"
  shows "\<exists>fwd t' s'. xsub_update d t = Some (fwd, t') \<and> xpub_apply_all p (map sub_msg (if fwd then [d] else [])) s = Some s' \<and>
    trie_wf t' \<and> agree p t' s' \<and> (\<forall>k. trie_abs t' k \<le> trie_abs t k + 1)"
proof (cases "\<exists>c k. d = c # k \<and> (c = 0 \<or> c = 1)")
  case False
  then have u: "xsub_update d t = Some (True, t)" by (auto simp: xsub_update_def split: list.splits)
  have "xpub_apply p (sub_msg d) s = Some (xpub_pend d 0 s)" using False by (auto simp: xpub_apply_def sub_msg_def split: list.splits)
  moreover have "agree p t (xpub_pend d 0 s)" using assms(2) by (simp add: agree_def xpub_pend_def)
  ultimately show ?thesis using u assms(1) by auto
next
  case True
  then obtain c k where d: "d = c # k" "c = 0 \<or> c = 1" by blast
  have wf: "mtrie_wf (xp_subs s)" and ag: "\<And>k. p \<in> mtrie_abs (xp_subs s) k \<longleftrightarrow> trie_abs t k \<noteq> 0" using assms(2) by (auto simp: agree_def)
  have ap: "xpub_apply p (sub_msg d) s = xpub_subscription p c k s" using d by (auto simp: xpub_apply_def sub_msg_def)
  show ?thesis
  proof (cases "c = 0")
    case c: True
    from trie_rm_ok [OF assms(1), of k] obtain t' where
      t': "trie_rm k t = Some (trie_abs t k = 1, t')" "trie_wf t'" "trie_abs t' = (trie_abs t)(k := trie_abs t k - 1)" by blast
    have u: "xsub_update d t = Some (trie_abs t k = 1, t')" using t'(1) d c by (simp add: xsub_update_def)
    show ?thesis
    proof (cases "trie_abs t k = 1")
      case True
      from xpub_subscription_subs [OF wf, of c p k] True ag obtain s' where
        "xpub_subscription p c k s = Some s'" "mtrie_wf (xp_subs s')"
        "\<forall>j. p \<in> mtrie_abs (xp_subs s') j \<longleftrightarrow> (if j = k then c \<noteq> 0 else p \<in> mtrie_abs (xp_subs s) j)" by auto
      moreover from this have "agree p t' s'" using True c t'(3) ag unfolding agree_def by simp
      ultimately show ?thesis using True u ap t'(2,3) by (intro exI [of _ True] exI [of _ t'] exI [of _ s']) simp
    next
      case False
      then have "agree p t' s" unfolding agree_def using wf ag t'(3) by auto
      then show ?thesis using False u t'(2,3) by (intro exI [of _ False] exI [of _ t'] exI [of _ s]) simp
    qed
  next
    case c: False
    from trie_add_ok [OF assms(1) assms(3), of k] obtain t' where
      t': "trie_add k t = Some (trie_abs t k = 0, t')" "trie_wf t'" "trie_abs t' = (trie_abs t)(k := trie_abs t k + 1)" by blast
    have u: "xsub_update d t = Some (True, t')" using t'(1) d c by (simp add: xsub_update_def)
    from xpub_subscription_subs [OF wf, of c p k] c obtain s' where
      "xpub_subscription p c k s = Some s'" "mtrie_wf (xp_subs s')"
      "\<forall>j. p \<in> mtrie_abs (xp_subs s') j \<longleftrightarrow> (if j = k then c \<noteq> 0 else p \<in> mtrie_abs (xp_subs s) j)" by auto
    moreover from this have "agree p t' s'" using c t'(3) ag unfolding agree_def by simp
    ultimately show ?thesis using u ap t'(2,3) by (intro exI [of _ True] exI [of _ t'] exI [of _ s']) simp
  qed
qed

lemma xpub_apply_all_append: "xpub_apply_all p (ms @ ns) s = do { s \<leftarrow> xpub_apply_all p ms s; xpub_apply_all p ns s }"
  by (induction ms arbitrary: s) (auto split: Option.bind_split)

lemma agree_steps:
  assumes "trie_wf t" "agree p t s" "\<And>k. trie_abs t k + length ds < 2 ^ 32"
  shows "\<exists>out t' s'. xsub_forwards ds t = Some (out, t') \<and> xpub_apply_all p (map sub_msg out) s = Some s' \<and> trie_wf t' \<and> agree p t' s'"
  using assms
proof (induction ds arbitrary: t s)
  case (Cons d ds)
  have "trie_abs t k + 1 < 2 ^ 32" for k using Cons.prems(3) [of k] by simp
  from agree_step [OF Cons.prems(1,2) this, of d] obtain fwd t1 s1 where
    1: "xsub_update d t = Some (fwd, t1)" "xpub_apply_all p (map sub_msg (if fwd then [d] else [])) s = Some s1" "trie_wf t1" "agree p t1 s1"
      "\<forall>k. trie_abs t1 k \<le> trie_abs t k + 1" by blast
  have "trie_abs t1 k + length ds < 2 ^ 32" for k using Cons.prems(3) [of k] spec [OF 1(5), of k] by simp
  from Cons.IH [OF 1(3,4) this] obtain out t' s' where
    "xsub_forwards ds t1 = Some (out, t')" "xpub_apply_all p (map sub_msg out) s1 = Some s'" "trie_wf t'" "agree p t' s'" by blast
  then show ?case using 1(1,2) by (cases fwd) (auto simp: bind_eq_Some_conv)
qed auto

text \<open>The subscriptions that a new pipe is greeted with.\<close>

lemma greet_agree:
  "mtrie_wf (xp_subs s) \<Longrightarrow> \<exists>s'. xpub_apply_all p (map (\<lambda>k. sub_msg (1 # k)) ks) s = Some s' \<and> mtrie_wf (xp_subs s') \<and>
     (\<forall>j. p \<in> mtrie_abs (xp_subs s') j \<longleftrightarrow> j \<in> set ks \<or> p \<in> mtrie_abs (xp_subs s) j)"
proof (induction ks arbitrary: s)
  case (Cons k ks)
  from xpub_subscription_subs [OF Cons.prems, of 1 p k] obtain s1 where
    1: "xpub_subscription p 1 k s = Some s1" "mtrie_wf (xp_subs s1)"
      "\<forall>j. p \<in> mtrie_abs (xp_subs s1) j \<longleftrightarrow> (if j = k then True else p \<in> mtrie_abs (xp_subs s) j)" by auto
  from Cons.IH [OF 1(2)] 1 show ?case by (auto simp: xpub_apply_def sub_msg_def split: if_splits)
qed auto

section \<open>Witnesses\<close>

definition news_demo :: "(xpub \<times> pool) option" where
  "news_demo = xpub_xattach_pipe 0 False xpub_new [Some (sock_pipe [sub_msg [1, 7]] 10)]"

theorem xpub_well_formed_witness:
  "\<exists>s w y. news_demo = Some (s, w) \<and> xpub_ok (s, w) \<and> xpub_xsend (\<lambda>_. True) True (whole 7) s w = Some y"
proof -
  have "(case news_demo of Some (s, w) \<Rightarrow> pending_data s = [[1, 7]] | None \<Rightarrow> False)" by code_simp
  then obtain s w where d: "news_demo = Some (s, w)" by (auto split: option.splits)
  have "xpub_step False (xpub_new, [Some (sock_pipe [sub_msg [1, 7]] 10)]) (s, w)"
    by (rule xpub_step.pattach [OF _ _ fresh_sock_pipe [of "[sub_msg [1, 7]]"] d [unfolded news_demo_def]])
      (simp_all add: heap_load_def xpub_new_def dist_new_def d_defs)
  then have "(xpub_step False)\<^sup>*\<^sup>* (xpub_new, [Some (sock_pipe [sub_msg [1, 7]] 10)]) (s, w)" by (rule r_into_rtranclp)
  from xpub_well_formed [OF this, of "\<lambda>_. True" True "whole 7"] d show ?thesis by blast
qed

end
