(* ===== verification/Subscribe.thy ===== *)
theory Subscribe
  imports Pubsys
begin

text \<open>
  Subscriptions from end to end: an XSUB socket (src/libzmq/src/xsub.cpp) writes the subscriptions of its trie to a new pipe and
  then forwards those of the application, through the distributor and the pipe; an XPUB socket (src/libzmq/src/xpub.cpp) reads
  them on the other side. A pipe at its watermark drops subscriptions, so the room in the pipe is part of the statements.
\<close>

section \<open>The writing end of a pipe\<close>

text \<open>The frames that wait for the reader of the other end.\<close>

definition outgoing :: "pctx \<Rightarrow> pmsg list" where
  "outgoing c = (case outpipe (pe c) of None \<Rightarrow> [] | Some a \<Rightarrow> (case heap_load (ch c) a of None \<Rightarrow> [] | Some h \<Rightarrow> queued h))"

text \<open>A live end with room for \<open>n\<close> more messages: it has no watermark, or the messages that the peer has not acknowledged leave that
  many. The frames \<open>fs\<close> are flushed, \<open>ps\<close> are written and not flushed.\<close>

definition pipe_room :: "nat \<Rightarrow> pipe_end \<Rightarrow> bool" where
  "pipe_room n p \<longleftrightarrow> hwm p \<le> 0 \<or> hwm p < 2 ^ 31 \<and> uint (msgs_written p - peers_msgs_read p) + int n \<le> hwm p"

definition out_ready :: "nat \<Rightarrow> pmsg list \<Rightarrow> pmsg list \<Rightarrow> pctx \<Rightarrow> bool" where
  "out_ready n fs ps c \<longleftrightarrow> ctx_ok c \<and> out_active (pe c) \<and> pstate (pe c) = Active \<and> pipe_room n (pe c) \<and>
     (\<exists>b a. outpipe (pe c) = Some b \<and> heap_load (ch c) b = Some (Fifo a) \<and> flushed a = fs \<and> pending a = ps \<and> partial a = [])"

lemma out_ready_outgoing: "out_ready n fs ps c \<Longrightarrow> outgoing c = fs"
  by (auto simp: out_ready_def outgoing_def)

lemma out_ready_less: "out_ready n fs ps c \<Longrightarrow> m \<le> n \<Longrightarrow> out_ready m fs ps c"
  by (auto simp: out_ready_def pipe_room_def)

lemma pipe_room_Suc:
  assumes "pipe_room (Suc n) p"
  shows "0 < hwm p \<longrightarrow> msgs_written p - peers_msgs_read p \<noteq> of_int (hwm p)" "pipe_room n (p\<lparr>msgs_written := msgs_written p + 1\<rparr>)"
proof -
  let ?d = "msgs_written p - peers_msgs_read p"
  show "0 < hwm p \<longrightarrow> ?d \<noteq> of_int (hwm p)"
  proof
    assume h: "0 < hwm p"
    then have b: "hwm p < 2 ^ 31" "uint ?d < hwm p" using assms by (auto simp: pipe_room_def)
    have "uint (of_int (hwm p) :: u64) = hwm p" using h b(1) by (simp add: take_bit_int_eq_self uint_word_of_int)
    then show "?d \<noteq> of_int (hwm p)" using b(2) by (metis less_irrefl)
  qed
  have e: "msgs_written p + 1 - peers_msgs_read p = ?d + 1" by simp
  have "uint (?d + 1) = uint ?d + 1" if "uint ?d < 2 ^ 31"
    using that by (simp add: uint_word_ariths)
  then show "pipe_room n (p\<lparr>msgs_written := msgs_written p + 1\<rparr>)"
    using assms unfolding pipe_room_def by (simp add: e) linarith
qed

lemma out_ready_accepts: "out_ready (Suc n) fs ps c \<Longrightarrow> pipe_check_write c = (True, c)"
  using pipe_room_Suc(1) [of n "pe c"] by (auto simp: out_ready_def pipe_check_write_def)


lemma write_out:
  assumes "out_ready (Suc n) fs ps c" "\<not> pm_more m" "\<not> pm_is_identity m"
  shows "\<exists>c'. pipe_write lk m c = Some (True, c') \<and> out_ready n fs (ps @ [m]) c'"
proof -
  obtain b a where a: "outpipe (pe c) = Some b" "heap_load (ch c) b = Some (Fifo a)" "flushed a = fs" "pending a = ps" "partial a = []"
    and ok: "ctx_ok c" "out_active (pe c)" "pstate (pe c) = Active" "pipe_room (Suc n) (pe c)" using assms(1) by (auto simp: out_ready_def)
  obtain h where h: "heap_store (ch c) b (Fifo (pspec_write m False a)) = Some h" using heap_store_ok [of "ch c" b] a(2) by fastforce
  let ?c = "upd (\<lambda>p. p\<lparr>msgs_written := msgs_written p + 1\<rparr>) (c\<lparr>ch := h\<rparr>)"
  have w: "pipe_write lk m c = Some (True, ?c)"
    using a h assms(2,3) out_ready_accepts [OF assms(1)] by (simp add: pipe_write_def on_out_def on_chan_def)
  have "heap_load h b = Some (Fifo (pspec_write m False a))" using heap_load_store [OF h] by simp
  then show ?thesis using w a ok pipe_room_Suc(2) [OF ok(4)] wr.op_ok [OF ok(1) w]
    by (auto simp: out_ready_def upd_def pspec_write_def)
qed

lemma flush_out:
  assumes "out_ready n fs ps c"
  shows "\<exists>c'. pipe_flush c = Some c' \<and> out_ready n (fs @ ps) [] c'"
proof -
  obtain b a where a: "outpipe (pe c) = Some b" "heap_load (ch c) b = Some (Fifo a)" "flushed a = fs" "pending a = ps" "partial a = []"
    and ok: "ctx_ok c" "out_active (pe c)" "pstate (pe c) = Active" "pipe_room n (pe c)" using assms by (auto simp: out_ready_def)
  obtain k a' where f: "pspec_flush a = (k, a')" by fastforce
  obtain h where h: "heap_store (ch c) b (Fifo a') = Some h" using heap_store_ok [of "ch c" b] a(2) by fastforce
  let ?c = "if \<not> k then send_cmd ActivateRead (c\<lparr>ch := h\<rparr>) else c\<lparr>ch := h\<rparr>"
  have w: "pipe_flush c = Some ?c" using a ok(3) h f by (simp add: pipe_flush_def on_out_def on_chan_def)
  have "ctx_ok ?c" using flush_quiet [OF ok(1)] w quiet_ok by auto
  moreover have "heap_load h b = Some (Fifo a')" using heap_load_store [OF h] by simp
  moreover have "flushed a' = fs @ ps \<and> pending a' = [] \<and> partial a' = []" using f a by (auto simp: pspec_flush_def split: if_splits)
  ultimately show ?thesis using w a(1) ok(2-4) by (auto simp: out_ready_def send_cmd_def)
qed

lemma took_out:
  assumes "out_ready (Suc n) fs [] c" "took lk m c c'" "\<not> pm_more m" "\<not> pm_is_identity m"
  shows "out_ready n (fs @ [m]) [] c'"
  using write_out [OF assms(1,3,4), of lk] flush_out [of n fs "[m]"] assms(2,3) by (fastforce simp: took_def)

lemma sub_msg_plain [simp]: "\<not> pm_more (sub_msg d)" "\<not> pm_is_identity (sub_msg d)"
  by (simp_all add: sub_msg_def pm_more_def pm_is_identity_def flag_identity_def)

section \<open>The subscriber\<close>

text \<open>Between two messages of the application.\<close>

definition xsub_idle :: "xsub \<Rightarrow> pool \<Rightarrow> bool" where
  "xsub_idle x w \<longleftrightarrow> trie_wf (xs_subs x) \<and> fq_pool (xs_fq x) w \<and> dist_pool (xs_dist x) w \<and> \<not> d_more (xs_dist x)"

text \<open>Messages that the application sends, one after the other.\<close>

fun xsub_sends :: "(addr \<Rightarrow> bool) \<Rightarrow> bool \<Rightarrow> blob list \<Rightarrow> xsub \<Rightarrow> pool \<Rightarrow> (xsub \<times> pool) option" where
  "xsub_sends lk vsm [] x w = Some (x, w)"
| "xsub_sends lk vsm (d # ds) x w = do { (x, w) \<leftarrow> xsub_xsend lk vsm (sub_msg d) x w; xsub_sends lk vsm ds x w }"

lemma send_subscriptions_out:
  assumes "heap_load w p = Some c" "out_ready (length ks + n) fs ps c"
  shows "\<exists>w' c'. send_subscriptions lk p ks w = Some w' \<and> heap_load w' = (heap_load w)(p \<mapsto> c') \<and>
    out_ready n fs (ps @ map (\<lambda>k. sub_msg (1 # k)) ks) c'"
  using assms
proof (induction ks arbitrary: w c ps)
  case Nil
  then show ?case using fun_upd_triv [of "heap_load w" p] by (intro exI [of _ w] exI [of _ c]) simp
next
  case (Cons k ks)
  from write_out [of "length ks + n" fs ps c "sub_msg (1 # k)" lk] Cons.prems(2) obtain c1 where
    c1: "pipe_write lk (sub_msg (1 # k)) c = Some (True, c1)" "out_ready (length ks + n) fs (ps @ [sub_msg (1 # k)]) c1" by auto
  from pool_op_at [of w p c "pipe_write lk (sub_msg (1 # k))", OF Cons.prems(1) c1(1)] obtain w1 where
    w1: "pool_op p (pipe_write lk (sub_msg (1 # k))) w = Some (True, w1)" "heap_load w1 = (heap_load w)(p \<mapsto> c1)" by blast
  have "heap_load w1 p = Some c1" using w1(2) by simp
  from Cons.IH [OF this c1(2)] obtain w' c' where r: "send_subscriptions lk p ks w1 = Some w'"
    "heap_load w' = (heap_load w1)(p \<mapsto> c')" "out_ready n fs ((ps @ [sub_msg (1 # k)]) @ map (\<lambda>k. sub_msg (1 # k)) ks) c'" by blast
  have "heap_load w' = (heap_load w)(p \<mapsto> c')" unfolding r(2) w1(2) by (rule fun_upd_upd)
  then show ?case using w1(1) r(1,3) by (intro exI [of _ w'] exI [of _ c']) (simp add: send_subscription_def)
qed

lemma xsub_attach_out:
  assumes idle: "xsub_idle x w" and p: "p \<notin> rr_all (xs_fq x)" "p \<notin> d_all (xs_dist x)"
    and c: "heap_load w p = Some c" "out_ready (length ks + n) [] [] c" and ks: "trie_apply (xs_subs x) = Some ks"
  shows "\<exists>x' w' c'. xsub_xattach_pipe lk p x w = Some (x', w') \<and> xs_subs x' = xs_subs x \<and> dist_pool (xs_dist x') w' \<and>
    \<not> d_more (xs_dist x') \<and> p \<in> d_elig (xs_dist x') \<and> heap_load w' p = Some c' \<and>
    out_ready n (map (\<lambda>k. sub_msg (1 # k)) ks) [] c'"
proof -
  have ok: "ctx_ok c" using c(2) by (simp add: out_ready_def)
  from fq_attach_ok [OF _ p(1) c(1) ok] idle obtain f where f: "fq_attach p (xs_fq x) = Some f" by (auto simp: xsub_idle_def)
  from dist_attach_ok [OF _ p(2) c(1) ok] idle obtain d where
    d: "dist_attach p (xs_dist x) = Some d" "dist_pool d w" "d_elig d = insert p (d_elig (xs_dist x))" by (auto simp: xsub_idle_def)
  from send_subscriptions_out [OF c] obtain w1 c1 where
    1: "send_subscriptions lk p ks w = Some w1" "heap_load w1 = (heap_load w)(p \<mapsto> c1)" "out_ready n [] (map (\<lambda>k. sub_msg (1 # k)) ks) c1" by fastforce
  from flush_out [OF 1(3)] obtain c2 where
    c2: "pipe_flush c1 = Some c2" "out_ready n (map (\<lambda>k. sub_msg (1 # k)) ks) [] c2" by auto
  from pool_do_at [of w1 p c1 pipe_flush c2] 1(2) c2(1) obtain w2 where
    w2: "pool_do p pipe_flush w1 = Some w2" "heap_load w2 = (heap_load w)(p \<mapsto> c2)" by auto
  have "dist_pool d w2" using d(2,3) w2(2) c2(2) by (auto simp: dist_pool_def out_ready_def)
  moreover have "\<not> d_more d" using idle dist_more_same(1) [OF d(1)] by (simp add: xsub_idle_def)
  ultimately show ?thesis using f d(1,3) ks 1(1) w2 c2(2) by (simp add: xsub_xattach_pipe_def)
qed

text \<open>One message of the application that is forwarded.\<close>

lemma send_to_all_out:
  assumes "dist_pool d w" "\<not> d_more d" "p \<in> d_elig d" "heap_load w p = Some c" "out_ready (Suc n) fs [] c"
  shows "\<exists>k d' w' c'. dist_send_to_all lk vsm (sub_msg b) d w = Some (k, d', w') \<and> dist_pool d' w' \<and> \<not> d_more d' \<and> p \<in> d_elig d' \<and>
    heap_load w' p = Some c' \<and> out_ready n (fs @ [sub_msg b]) [] c'"
proof -
  let ?d = "d\<lparr>d_matching := d_active d\<rparr>"
  have pool: "dist_pool ?d w" using assms(1) by (auto simp: dist_pool_def dist_ok_def d_defs)
  have m: "p \<in> d_match ?d" "d_elig ?d = d_elig d" using assms(1-3) by (auto simp: dist_pool_def dist_ok_def d_defs)
  have acc: "accepts w p" using assms(4) out_ready_accepts [OF assms(5)] by (simp add: accepts_def)
  from dist_send_ok [OF pool, of lk vsm "sub_msg b"] obtain k d' w' where
    r: "dist_send_to_matching lk vsm (sub_msg b) ?d w = Some (k, d', w')" "dist_pool d' w'"
      "\<forall>p \<in> d_match ?d. accepts w p \<longrightarrow> (\<exists>c c'. heap_load w p = Some c \<and> took (lk p) (sub_msg b) c c' \<and> heap_load w' p = Some c')"
      "d_elig d' = d_elig ?d - {p \<in> d_match ?d. \<not> accepts w p}" "d_more d' = pm_more (sub_msg b)" by blast
  obtain c' where c': "took (lk p) (sub_msg b) c c'" "heap_load w' p = Some c'" using r(3) m(1) acc assms(4) by auto
  show ?thesis using r m acc assms(3) c' took_out [OF assms(5) c'(1)] by (simp add: dist_send_to_all_def)
qed

lemma xsub_sends_out:
  assumes "xsub_forwards ds (xs_subs x) = Some (out, t)" "dist_pool (xs_dist x) w" "\<not> d_more (xs_dist x)" "p \<in> d_elig (xs_dist x)"
    "heap_load w p = Some c" "out_ready (length ds) fs [] c"
  shows "\<exists>x' w' c'. xsub_sends lk vsm ds x w = Some (x', w') \<and> xs_subs x' = t \<and> heap_load w' p = Some c' \<and>
    out_ready 0 (fs @ map sub_msg out) [] c'"
  using assms
proof (induction ds arbitrary: x w c fs out)
  case (Cons d ds)
  obtain fwd t1 out1 where 1: "xsub_update d (xs_subs x) = Some (fwd, t1)" "xsub_forwards ds t1 = Some (out1, t)"
    "out = (if fwd then [d] else []) @ out1" using Cons.prems(1) by (auto simp: bind_eq_Some_conv)
  show ?case
  proof (cases fwd)
    case True
    from send_to_all_out [OF Cons.prems(2-5), of "length ds" fs lk vsm d] Cons.prems(6) obtain k e w1 c1 where
      2: "dist_send_to_all lk vsm (sub_msg d) (xs_dist x) w = Some (k, e, w1)" "dist_pool e w1" "\<not> d_more e" "p \<in> d_elig e"
        "heap_load w1 p = Some c1" "out_ready (length ds) (fs @ [sub_msg d]) [] c1" by auto
    let ?x = "x\<lparr>xs_subs := t1, xs_dist := e\<rparr>"
    have step: "xsub_xsend lk vsm (sub_msg d) x w = Some (?x, w1)" using 1(1) 2(1) True by (simp add: xsub_xsend_def sub_msg_def)
    from Cons.IH [of ?x out1 w1 c1 "fs @ [sub_msg d]"] 1(2) 2 show ?thesis using step 1(3) True by simp
  next
    case False
    let ?x = "x\<lparr>xs_subs := t1\<rparr>"
    have step: "xsub_xsend lk vsm (sub_msg d) x w = Some (?x, w)" using 1(1) False by (simp add: xsub_xsend_def sub_msg_def)
    from Cons.IH [of ?x out1 w c fs] 1(2) Cons.prems show ?thesis using step 1(3) False out_ready_less [of "Suc (length ds)" fs "[]" c "length ds"] by simp
  qed
qed auto

section \<open>Agreement\<close>

text \<open>C13: Publisher and subscriber agree on what the subscriber wants. A new pipe of an XSUB socket with the subscriptions \<open>ks\<close> is greeted
  with them (\<open>xattach_pipe\<close>, \<open>send_subscription\<close>), then the application sends any sequence of subscriptions, unsubscriptions
  and other messages (\<open>xsend\<close>, \<open>dist_t::send_to_all\<close>). If the pipe has room for all of these, no assertion fails, the frames that
  reach the pipe are the greeting and what was forwarded, and once an XPUB socket, to which the pipe is new, has read exactly these
  frames (\<open>xread_activated\<close>), again without a failed assertion, the pipe is among the subscribers for a message exactly if the
  filter of the subscriber lets the message through.\<close>

theorem subscriptions_agree:
  assumes "xsub_idle x w" "p \<notin> rr_all (xs_fq x)" "p \<notin> d_all (xs_dist x)" "heap_load w p = Some c"
    "trie_apply (xs_subs x) = Some ks" "out_ready (length ks + length ds) [] [] c" "\<And>k. trie_abs (xs_subs x) k + length ds < 2 ^ 32"
    "mtrie_wf (xp_subs s)" "\<And>k. q \<notin> mtrie_abs (xp_subs s) k"
  shows "\<exists>x1 w1 x2 w2 c2 out t. xsub_xattach_pipe lk p x w = Some (x1, w1) \<and> xsub_sends lks vsm ds x1 w1 = Some (x2, w2) \<and>
    heap_load w2 p = Some c2 \<and> xsub_forwards ds (xs_subs x) = Some (out, t) \<and> xs_subs x2 = t \<and>
    outgoing c2 = map (\<lambda>k. sub_msg (1 # k)) ks @ map sub_msg out \<and>
    (\<forall>v e. heap_load v q = Some e \<and> ctx_ok e \<and> inbox e = outgoing c2 \<longrightarrow>
      (\<exists>s' v'. xpub_xread_activated q s v = Some (s', v') \<and> (\<forall>d. trie_check d (xs_subs x2) = Some (q \<in> subscribers s' d))))"
proof -
  have wf: "trie_wf (xs_subs x)" using assms(1) by (simp add: xsub_idle_def)
  from trie_apply_ok [OF wf] assms(5) have ks: "set ks = {k. trie_abs (xs_subs x) k \<noteq> 0}" by auto
  from greet_agree [OF assms(8), of q ks] obtain s1 where
    s1: "xpub_apply_all q (map (\<lambda>k. sub_msg (1 # k)) ks) s = Some s1" "mtrie_wf (xp_subs s1)"
      "\<forall>j. q \<in> mtrie_abs (xp_subs s1) j \<longleftrightarrow> j \<in> set ks \<or> q \<in> mtrie_abs (xp_subs s) j" by blast
  have "agree q (xs_subs x) s1" using s1(2,3) ks assms(9) by (simp add: agree_def)
  from agree_steps [OF wf this assms(7)] obtain out t s2 where
    2: "xsub_forwards ds (xs_subs x) = Some (out, t)" "xpub_apply_all q (map sub_msg out) s1 = Some s2" "trie_wf t" "agree q t s2" by blast
  from xsub_attach_out [OF assms(1-4,6,5), of lk] obtain x1 w1 c1 where
    x1: "xsub_xattach_pipe lk p x w = Some (x1, w1)" "xs_subs x1 = xs_subs x" "dist_pool (xs_dist x1) w1" "\<not> d_more (xs_dist x1)"
      "p \<in> d_elig (xs_dist x1)" "heap_load w1 p = Some c1" "out_ready (length ds) (map (\<lambda>k. sub_msg (1 # k)) ks) [] c1" by blast
  from xsub_sends_out [of ds x1 out t, OF _ x1(3-7), of lks vsm] 2(1) x1(2) obtain x2 w2 c2 where
    x2: "xsub_sends lks vsm ds x1 w1 = Some (x2, w2)" "xs_subs x2 = t" "heap_load w2 p = Some c2"
      "out_ready 0 (map (\<lambda>k. sub_msg (1 # k)) ks @ map sub_msg out) [] c2" by auto
  note fs = out_ready_outgoing [OF x2(4)]
  have "\<exists>s' v'. xpub_xread_activated q s v = Some (s', v') \<and> (\<forall>d. trie_check d (xs_subs x2) = Some (q \<in> subscribers s' d))"
    if e: "heap_load v q = Some e" "ctx_ok e" "inbox e = outgoing c2" for v e
  proof -
    have "xpub_apply_all q (inbox e) s = Some s2" using e(3) fs s1(1) 2(2) by (simp add: xpub_apply_all_append)
    moreover have "trie_check d t = Some (q \<in> subscribers s2 d)" for d
      using trie_check_ok [OF 2(3), of d] 2(4) by (auto simp: agree_def subscribers_def)
    ultimately show ?thesis using xread_inbox [OF e(1,2), of s] x2(2) by auto
  qed
  then show ?thesis using x1(1) x2 2(1) fs by blast
qed

text \<open>A subscriber with one subscription and a new pipe with watermark 10.\<close>

definition one_sub :: trie where "one_sub = snd (the (trie_add [9] trie_new))"

definition one_xsub :: xsub where "one_xsub = xsub_new\<lparr>xs_subs := one_sub\<rparr>"

lemma one_sub_ok: "trie_wf one_sub" "trie_abs one_sub k \<le> 1"
proof -
  have z: "trie_abs trie_new k = 0" for k by (rule trie_new_abs)
  have l: "trie_abs trie_new [9] + 1 < 2 ^ 32" unfolding z by simp
  obtain t where t: "trie_add [9] trie_new = Some (trie_abs trie_new [9] = 0, t)" "trie_wf t"
    "trie_abs t = (trie_abs trie_new)([9] := trie_abs trie_new [9] + 1)"
    using trie_add_ok [OF trie_new_wf l] by blast
  have e: "one_sub = t" unfolding one_sub_def t(1) by simp
  show "trie_wf one_sub" unfolding e by (rule t(2))
  show "trie_abs one_sub k \<le> 1" unfolding e t(3) fun_upd_apply z by simp
qed

lemma one_sub_runs:
  "trie_apply one_sub = Some [[9]]"
  "map_option fst (xsub_forwards [[1, 5], [1, 5], [0, 5], [1, 6], [0, 6]] one_sub) = Some [[1, 5], [1, 5], [1, 6], [0, 6]]"
  by code_simp+

lemma sock_pipe_out_ready: "int n \<le> 10 \<Longrightarrow> out_ready n [] [] (sock_pipe [] 10)"
  using sock_pipe_ok [of "[]" 10]
  by (auto simp: out_ready_def pipe_room_def sock_pipe_def pipe_new_def heap_load_def pspec_new_def)

theorem subscriptions_agree_witness:
  "\<exists>x1 w1 x2 w2 s' v'. xsub_xattach_pipe True 0 one_xsub [Some (sock_pipe [] 10)] = Some (x1, w1) \<and>
     xsub_sends (\<lambda>_. True) True [[1, 5], [1, 5], [0, 5], [1, 6], [0, 6]] x1 w1 = Some (x2, w2) \<and>
     xpub_xread_activated 0 xpub_new [Some (sock_pipe (map sub_msg [[1, 9], [1, 5], [1, 5], [1, 6], [0, 6]]) 10)] = Some (s', v') \<and>
     (\<forall>d. trie_check d (xs_subs x2) = Some (0 \<in> subscribers s' d))"
proof -
  let ?ds = "[[1, 5], [1, 5], [0, 5], [1, 6], [0, 6]] :: blob list"
  let ?e = "sock_pipe (map sub_msg [[1, 9], [1, 5], [1, 5], [1, 6], [0, 6]]) 10"
  have idle: "xsub_idle one_xsub [Some (sock_pipe [] 10)]"
    using one_sub_ok(1) by (simp add: xsub_idle_def one_xsub_def xsub_new_def fq_new_ok dist_new_ok) (simp add: dist_new_def)
  have new: "0 \<notin> rr_all (xs_fq one_xsub)" "0 \<notin> d_all (xs_dist one_xsub)"
    by (simp_all add: one_xsub_def xsub_new_def fq_new_def dist_new_def rr_all_def d_defs)
  have few: "trie_abs (xs_subs one_xsub) k + length ?ds < 2 ^ 32" for k using one_sub_ok(2) [of k] by (simp add: one_xsub_def)
  have pub: "mtrie_wf (xp_subs xpub_new)" "0 \<notin> mtrie_abs (xp_subs xpub_new) k" for k by (simp_all add: xpub_new_def)
  have "trie_apply (xs_subs one_xsub) = Some [[9]]" using one_sub_runs(1) by (simp add: one_xsub_def)
  from subscriptions_agree [OF idle new _ this _ few pub, where c = "sock_pipe [] 10" and lk = True and lks = "\<lambda>_. True" and vsm = True]
  obtain x1 w1 x2 w2 c2 out t where r: "xsub_xattach_pipe True 0 one_xsub [Some (sock_pipe [] 10)] = Some (x1, w1)"
    "xsub_sends (\<lambda>_. True) True ?ds x1 w1 = Some (x2, w2)" "xsub_forwards ?ds one_sub = Some (out, t)"
    "outgoing c2 = map (\<lambda>k. sub_msg (1 # k)) [[9]] @ map sub_msg out"
    "\<forall>v e. heap_load v 0 = Some e \<and> ctx_ok e \<and> inbox e = outgoing c2 \<longrightarrow>
      (\<exists>s' v'. xpub_xread_activated 0 xpub_new v = Some (s', v') \<and> (\<forall>d. trie_check d (xs_subs x2) = Some (0 \<in> subscribers s' d)))"
    by (auto simp: heap_load_def sock_pipe_out_ready one_xsub_def)
  have "out = [[1, 5], [1, 5], [1, 6], [0, 6]]" using one_sub_runs(2) r(3) by simp
  then have "inbox ?e = outgoing c2"
    using r(4) by (simp add: sock_pipe_inbox sub_msg_def pm_is_credential_def flag_credential_def)
  moreover have "heap_load [Some ?e] 0 = Some ?e" by (simp add: heap_load_def)
  ultimately show ?thesis using r(1,2,5) sock_pipe_ok by blast
qed

text \<open>Without room the sockets disagree for good: with watermark 1 only the first of two subscriptions reaches the publisher.\<close>

definition two_subs :: trie where "two_subs = snd (the (trie_add [6] (snd (the (trie_add [5] trie_new)))))"

lemma greeting_dropped:
  "case xsub_xattach_pipe True 0 (xsub_new\<lparr>xs_subs := two_subs\<rparr>) [Some (sock_pipe [] 1)] of
     Some (x, w) \<Rightarrow> map_option outgoing (heap_load w 0) = Some [sub_msg [1, 5]] \<and> trie_check [6] (xs_subs x) = Some True
   | None \<Rightarrow> False"
  by code_simp

end
