(* ===== verification/Mechanism.thy ===== *)
theory Mechanism
  imports Wire Pipe
begin

text \<open>
  What the security mechanisms have in common, \<open>mechanism_t\<close> (src/libzmq/src/mechanism.cpp): the metadata of the
  handshake as a list of properties with its parser and printer, the check of socket types, and the exchange with a ZAP handler
  through the session (src/libzmq/src/session_base.cpp), which NULL and PLAIN share. Strings are byte lists.
\<close>

section \<open>State\<close>

definition bytes :: "string \<Rightarrow> blob" where "bytes s = map of_char s"

text \<open>The options that the mechanisms read.\<close>

record mech_options =
  o_type :: nat
  o_identity :: blob
  o_recv_identity :: bool
  o_zap_domain :: blob
  o_username :: blob
  o_password :: blob

text \<open>\<open>std::map\<close> with \<open>insert\<close>, which does not replace.\<close>

type_synonym dict = "(blob \<times> blob) list"

definition dict_insert :: "blob \<Rightarrow> blob \<Rightarrow> dict \<Rightarrow> dict" where
  "dict_insert k v d = (if map_of d k = None then d @ [(k, v)] else d)"

record mech =
  peer_id :: blob
  user_id :: blob
  zmtp_properties :: dict
  zap_properties :: dict

text \<open>What \<open>status\<close> says to the engine.\<close>

datatype mech_status = handshaking | status_ready | status_error

definition mech_new :: mech where
  "mech_new = \<lparr>peer_id = [], user_id = [], zmtp_properties = [], zap_properties = []\<rparr>"

definition set_user_id :: "blob \<Rightarrow> mech \<Rightarrow> mech" where
  "set_user_id d m = m\<lparr>user_id := d, zap_properties := dict_insert (bytes ''User-Id'') d (zap_properties m)\<rparr>"

definition peer_identity :: "mech \<Rightarrow> pmsg" where
  "peer_identity m = \<lparr>pm_flags = flag_identity, pm_delim = False, pm_data = peer_id m\<rparr>"

section \<open>Socket types\<close>

definition ZMQ_PAIR :: nat where "ZMQ_PAIR = 0"
definition ZMQ_PUB :: nat where "ZMQ_PUB = 1"
definition ZMQ_SUB :: nat where "ZMQ_SUB = 2"
definition ZMQ_REQ :: nat where "ZMQ_REQ = 3"
definition ZMQ_REP :: nat where "ZMQ_REP = 4"
definition ZMQ_DEALER :: nat where "ZMQ_DEALER = 5"
definition ZMQ_ROUTER :: nat where "ZMQ_ROUTER = 6"
definition ZMQ_PULL :: nat where "ZMQ_PULL = 7"
definition ZMQ_PUSH :: nat where "ZMQ_PUSH = 8"
definition ZMQ_XPUB :: nat where "ZMQ_XPUB = 9"
definition ZMQ_XSUB :: nat where "ZMQ_XSUB = 10"

lemmas socket_types = ZMQ_PAIR_def ZMQ_PUB_def ZMQ_SUB_def ZMQ_REQ_def ZMQ_REP_def ZMQ_DEALER_def ZMQ_ROUTER_def
  ZMQ_PULL_def ZMQ_PUSH_def ZMQ_XPUB_def ZMQ_XSUB_def

definition type_names :: "string list" where
  "type_names = [''PAIR'', ''PUB'', ''SUB'', ''REQ'', ''REP'', ''DEALER'', ''ROUTER'', ''PULL'', ''PUSH'', ''XPUB'', ''XSUB'', ''STREAM'']"

definition socket_type_string :: "nat \<Rightarrow> blob option" where
  "socket_type_string t = do { zmq_assert (t \<le> 10); Some (bytes (type_names ! t)) }"

definition check_socket_type :: "mech_options \<Rightarrow> blob \<Rightarrow> bool" where
  "check_socket_type o' ty =
     (let t = o_type o' in
      if t = ZMQ_REQ then ty = bytes ''REP'' \<or> ty = bytes ''ROUTER''
      else if t = ZMQ_REP then ty = bytes ''REQ'' \<or> ty = bytes ''DEALER''
      else if t = ZMQ_DEALER then ty = bytes ''REP'' \<or> ty = bytes ''DEALER'' \<or> ty = bytes ''ROUTER''
      else if t = ZMQ_ROUTER then ty = bytes ''REQ'' \<or> ty = bytes ''DEALER'' \<or> ty = bytes ''ROUTER''
      else if t = ZMQ_PUSH then ty = bytes ''PULL''
      else if t = ZMQ_PULL then ty = bytes ''PUSH''
      else if t = ZMQ_PUB then ty = bytes ''SUB'' \<or> ty = bytes ''XSUB''
      else if t = ZMQ_SUB then ty = bytes ''PUB'' \<or> ty = bytes ''XPUB''
      else if t = ZMQ_XPUB then ty = bytes ''SUB'' \<or> ty = bytes ''XSUB''
      else if t = ZMQ_XSUB then ty = bytes ''PUB'' \<or> ty = bytes ''XPUB''
      else if t = ZMQ_PAIR then ty = bytes ''PAIR''
      else False)"

section \<open>Metadata\<close>

text \<open>A command starts with its name and the length of the name: \<open>memcmp\<close> with a literal such as \<open>\x05HELLO\<close>.\<close>

definition cmd_name :: "string \<Rightarrow> blob" where "cmd_name s = of_nat (length s) # bytes s"

definition has_name :: "string \<Rightarrow> blob \<Rightarrow> bool" where
  "has_name s d \<longleftrightarrow> length (cmd_name s) \<le> length d \<and> take (length (cmd_name s)) d = cmd_name s"

definition add_property :: "blob \<Rightarrow> blob \<Rightarrow> blob option" where
  "add_property name value =
     do { zmq_assert (length name \<le> 255);
          zmq_assert (length value \<le> 0x7FFFFFFF);
          Some (of_nat (length name) # name @ put_uint32 (of_nat (length value)) @ value) }"

text \<open>The metadata that every handshake sends: the socket type and, for three types, the identity.\<close>

definition add_metadata :: "mech_options \<Rightarrow> blob option" where
  "add_metadata o' =
     do { ty \<leftarrow> socket_type_string (o_type o');
          p \<leftarrow> add_property (bytes ''Socket-Type'') ty;
          q \<leftarrow> (if o_type o' \<in> {ZMQ_REQ, ZMQ_DEALER, ZMQ_ROUTER} then add_property (bytes ''Identity'') (o_identity o') else Some []);
          Some (p @ q) }"

text \<open>One property that was parsed; the virtual function \<open>property\<close> accepts everything.\<close>

definition store_property :: "mech_options \<Rightarrow> bool \<Rightarrow> blob \<Rightarrow> blob \<Rightarrow> mech \<Rightarrow> (errno + unit) \<times> mech" where
  "store_property o' zap name value m =
     (if name = bytes ''Socket-Type'' \<and> \<not> check_socket_type o' value then (Inl EINVAL, m)
      else (let m = (if name = bytes ''Identity'' \<and> o_recv_identity o' then m\<lparr>peer_id := value\<rparr> else m)
            in (Inr (), if zap then m\<lparr>zap_properties := dict_insert name value (zap_properties m)\<rparr>
                        else m\<lparr>zmtp_properties := dict_insert name value (zmtp_properties m)\<rparr>)))"

text \<open>The result once the loop is left with the bytes \<open>bs\<close>.\<close>

definition left_over :: "blob \<Rightarrow> errno + unit" where
  "left_over bs = (if bs = [] then Inr () else Inl EPROTO)"

function parse_metadata :: "mech_options \<Rightarrow> bool \<Rightarrow> blob \<Rightarrow> mech \<Rightarrow> (errno + unit) \<times> mech" where
  "parse_metadata o' zap bs m =
     (if length bs \<le> 1 then (left_over bs, m)
      else let n = unat (hd bs); bs = tl bs
           in if length bs < n then (left_over bs, m)
              else let name = take n bs; bs = drop n bs
                   in if length bs < 4 then (left_over bs, m)
                      else let k = unat (get_uint32 bs); bs = drop 4 bs
                           in if length bs < k then (left_over bs, m)
                              else (case store_property o' zap name (take k bs) m of
                                      (Inl e, m) \<Rightarrow> (Inl e, m)
                                    | (Inr _, m) \<Rightarrow> parse_metadata o' zap (drop k bs) m))"
  by pat_completeness auto
termination by (relation "measure (\<lambda>(_, _, bs, _). length bs)") auto

declare parse_metadata.simps [simp del]

section \<open>ZAP\<close>

text \<open>The connection of the session to a ZAP handler: whether there is one to connect to and whether it asks for
  identities, whether the pipe exists, and the frames in the two directions.\<close>

record zap =
  zap_handler :: bool
  zap_wants_id :: bool
  zap_pipe :: bool
  zap_out :: "pmsg list"
  zap_in :: "pmsg list"

definition zap_connect :: "zap \<Rightarrow> (bool \<times> zap) option" where
  "zap_connect z =
     do { zmq_assert (\<not> zap_pipe z);
          Some (if \<not> zap_handler z then (False, z)
                else (True, z\<lparr>zap_pipe := True,
                              zap_out := zap_out z @ (if zap_wants_id z then [\<lparr>pm_flags = flag_identity, pm_delim = False, pm_data = []\<rparr>] else [])\<rparr>)) }"

text \<open>Writing and \<open>errno_assert (rc == 0)\<close>; the pipe has no watermark.\<close>

definition write_zap_msg :: "pmsg \<Rightarrow> zap \<Rightarrow> zap option" where
  "write_zap_msg m z = do { zmq_assert (zap_pipe z); Some (z\<lparr>zap_out := zap_out z @ [m]\<rparr>) }"

definition read_zap_msg :: "zap \<Rightarrow> (errno + pmsg) \<times> zap" where
  "read_zap_msg z =
     (if \<not> zap_pipe z then (Inl ENOTCONN, z)
      else case zap_in z of [] \<Rightarrow> (Inl EAGAIN, z) | m # ms \<Rightarrow> (Inr m, z\<lparr>zap_in := ms\<rparr>))"

definition zap_frame :: "bool \<Rightarrow> blob \<Rightarrow> pmsg" where
  "zap_frame mr d = \<lparr>pm_flags = (if mr then flag_more else 0), pm_delim = False, pm_data = d\<rparr>"

text \<open>The frames of a request; the last parts are the mechanism and its credentials.\<close>

definition zap_request :: "mech_options \<Rightarrow> blob \<Rightarrow> blob list \<Rightarrow> pmsg list" where
  "zap_request o' peer_address creds =
     map (zap_frame True) ([[], bytes ''1.0'', bytes ''1'', o_zap_domain o', peer_address, o_identity o'] @ butlast creds) @
     [zap_frame False (last creds)]"

fun write_zap_msgs :: "pmsg list \<Rightarrow> zap \<Rightarrow> zap option" where
  "write_zap_msgs [] z = Some z"
| "write_zap_msgs (m # ms) z = do { z \<leftarrow> write_zap_msg m z; write_zap_msgs ms z }"

text \<open>The loop that reads the frames \<open>is\<close> of the seven of a reply; a failure loses those read before.\<close>

fun read_zap_frames :: "nat list \<Rightarrow> zap \<Rightarrow> (errno + pmsg list) \<times> zap" where
  "read_zap_frames [] z = (Inr [], z)"
| "read_zap_frames (i # is) z =
     (case read_zap_msg z of
        (Inl e, z) \<Rightarrow> (Inl e, z)
      | (Inr m, z) \<Rightarrow>
          if pm_more m = (i \<ge> 6) then (Inl EPROTO, z)
          else (case read_zap_frames is z of (Inl e, z) \<Rightarrow> (Inl e, z) | (Inr ms, z) \<Rightarrow> (Inr (m # ms), z)))"

text \<open>\<open>receive_and_process_zap_reply\<close>: the new status code, if there is one; \<open>bad_status\<close> is the error for a code of
  the wrong length.\<close>

definition process_zap_frames :: "mech_options \<Rightarrow> errno \<Rightarrow> pmsg list \<Rightarrow> blob \<Rightarrow> mech \<Rightarrow> (errno + unit) \<times> blob \<times> mech" where
  "process_zap_frames o' bad_status fs code m =
     (if pm_data (fs ! 0) \<noteq> [] then (Inl EPROTO, code, m)
      else if pm_data (fs ! 1) \<noteq> bytes ''1.0'' then (Inl EPROTO, code, m)
      else if pm_data (fs ! 2) \<noteq> bytes ''1'' then (Inl EPROTO, code, m)
      else if length (pm_data (fs ! 3)) \<noteq> 3 then (Inl bad_status, code, m)
      else let m = set_user_id (pm_data (fs ! 5)) m;
               (r, m) = parse_metadata o' True (pm_data (fs ! 6)) m
           in (r, pm_data (fs ! 3), m))"

definition receive_zap_reply :: "mech_options \<Rightarrow> errno \<Rightarrow> blob \<Rightarrow> mech \<Rightarrow> zap \<Rightarrow> (errno + unit) \<times> blob \<times> mech \<times> zap" where
  "receive_zap_reply o' bad_status code m z =
     (case read_zap_frames [0..<7] z of
        (Inl e, z) \<Rightarrow> (Inl e, code, m, z)
      | (Inr fs, z) \<Rightarrow> let (r, code, m) = process_zap_frames o' bad_status fs code m in (r, code, m, z))"

section \<open>Facts about metadata\<close>

lemma length_bytes [simp]: "length (bytes s) = length s"
  by (simp add: bytes_def)

lemma length_cmd_name [simp]: "length (cmd_name s) = Suc (length s)"
  by (simp add: cmd_name_def)

lemma has_name_append [simp]: "has_name s (cmd_name s @ d)"
  by (simp add: has_name_def)

lemma length_put_uint32 [simp]: "length (put_uint32 v) = 4"
  by (simp add: put_uint32_def)

lemma get_uint32_append [simp]: "get_uint32 (put_uint32 v @ d) = v"
proof -
  have "get_uint32 (put_uint32 v @ d) = get_uint32 (put_uint32 v)"
    by (simp add: get_uint32_def put_uint32_def)
  then show ?thesis by simp
qed

lemma add_property_Some_iff:
  "add_property k v = Some bs \<longleftrightarrow>
     length k \<le> 255 \<and> length v \<le> 0x7FFFFFFF \<and> bs = of_nat (length k) # k @ put_uint32 (of_nat (length v)) @ v"
  by (auto simp: add_property_def bind_eq_Some_conv)

text \<open>What a list of properties does one after the other.\<close>

fun store_all :: "mech_options \<Rightarrow> bool \<Rightarrow> (blob \<times> blob) list \<Rightarrow> mech \<Rightarrow> (errno + unit) \<times> mech" where
  "store_all o' zp [] m = (Inr (), m)"
| "store_all o' zp ((k, v) # ps) m =
     (case store_property o' zp k v m of (Inl e, m) \<Rightarrow> (Inl e, m) | (Inr _, m) \<Rightarrow> store_all o' zp ps m)"

fun add_properties :: "(blob \<times> blob) list \<Rightarrow> blob option" where
  "add_properties [] = Some []"
| "add_properties ((k, v) # ps) = do { p \<leftarrow> add_property k v; bs \<leftarrow> add_properties ps; Some (p @ bs) }"

lemma parse_metadata_Nil [simp]: "parse_metadata o' zp [] m = (Inr (), m)"
  by (simp add: parse_metadata.simps left_over_def)

lemma parse_metadata_step:
  assumes "add_property k v = Some p"
  shows "parse_metadata o' zp (p @ bs) m =
           (case store_property o' zp k v m of (Inl e, m) \<Rightarrow> (Inl e, m) | (Inr _, m) \<Rightarrow> parse_metadata o' zp bs m)"
proof -
  have *: "length k \<le> 255" "length v \<le> 0x7FFFFFFF" "p = of_nat (length k) # k @ put_uint32 (of_nat (length v)) @ v"
    using assms by (simp_all add: add_property_Some_iff)
  have u: "unat (of_nat (length k) :: byte) = length k" "unat (of_nat (length v) :: u32) = length v"
    using *(1,2) by (simp_all add: unat_of_nat)
  show ?thesis
    by (subst parse_metadata.simps) (simp add: *(3) u Let_def split: prod.split sum.split)
qed

lemma parse_add_properties:
  "add_properties ps = Some bs \<Longrightarrow> parse_metadata o' zp bs m = store_all o' zp ps m"
  by (induction ps arbitrary: bs m rule: add_properties.induct)
    (auto simp: bind_eq_Some_conv parse_metadata_step split: prod.splits sum.splits)

text \<open>The properties that a handshake sends.\<close>

definition sent_properties :: "mech_options \<Rightarrow> (blob \<times> blob) list" where
  "sent_properties o' =
     (bytes ''Socket-Type'', bytes (type_names ! o_type o')) #
     (if o_type o' \<in> {ZMQ_REQ, ZMQ_DEALER, ZMQ_ROUTER} then [(bytes ''Identity'', o_identity o')] else [])"

lemma add_metadata_properties:
  "add_metadata o' = (if o_type o' \<le> 10 then add_properties (sent_properties o') else None)"
  by (auto simp: add_metadata_def socket_type_string_def sent_properties_def zmq_assert_def)

lemma length_type_name: "t \<le> 10 \<Longrightarrow> length (type_names ! t) \<le> 6"
  by (auto simp: type_names_def nth_Cons split: nat.split)

lemma add_metadata_ok:
  assumes "o_type o' \<le> 10" "length (o_identity o') \<le> 255"
  shows "\<exists>bs. add_metadata o' = Some bs \<and> length bs \<le> 300"
  using assms length_type_name [OF assms(1)]
  by (auto simp: add_metadata_properties sent_properties_def add_property_def)

text \<open>What the peer stores of them.\<close>

lemma parse_sent:
  assumes "add_metadata o1 = Some bs"
  shows "parse_metadata o2 zp bs m = store_all o2 zp (sent_properties o1) m"
  using assms by (auto simp: add_metadata_properties parse_add_properties split: if_splits)

lemma map_of_dict_insert [simp]: "map_of (dict_insert k v d) = map_of [(k, v)] ++ map_of d"
  by (rule ext) (auto simp: dict_insert_def map_add_def split: option.splits)

text \<open>All properties are acceptable.\<close>

definition types_ok :: "mech_options \<Rightarrow> (blob \<times> blob) list \<Rightarrow> bool" where
  "types_ok o' ps \<longleftrightarrow> list_all (\<lambda>(k, v). k = bytes ''Socket-Type'' \<longrightarrow> check_socket_type o' v) ps"

definition last_identity :: "mech_options \<Rightarrow> (blob \<times> blob) list \<Rightarrow> blob \<Rightarrow> blob" where
  "last_identity o' ps i =
     (if o_recv_identity o' then case map_of (rev ps) (bytes ''Identity'') of None \<Rightarrow> i | Some v \<Rightarrow> v else i)"

lemma last_identity_Cons:
  "last_identity o' ((k, v) # ps) i =
     last_identity o' ps (if k = bytes ''Identity'' \<and> o_recv_identity o' then v else i)"
  by (auto simp: last_identity_def map_add_def split: option.splits)

lemma store_all_ok:
  assumes "types_ok o' ps"
  shows "\<exists>m'. store_all o' False ps m = (Inr (), m') \<and> map_of (zmtp_properties m') = map_of ps ++ map_of (zmtp_properties m) \<and>
              peer_id m' = last_identity o' ps (peer_id m) \<and> user_id m' = user_id m \<and> zap_properties m' = zap_properties m"
  using assms
proof (induction ps arbitrary: m)
  case Nil
  then show ?case by (simp add: last_identity_def)
next
  case (Cons kv ps)
  obtain k v where kv: "kv = (k, v)" by fastforce
  obtain n where st: "store_property o' False k v m = (Inr (), n)"
    and fs: "map_of (zmtp_properties n) = map_of [(k, v)] ++ map_of (zmtp_properties m)"
    "peer_id n = (if k = bytes ''Identity'' \<and> o_recv_identity o' then v else peer_id m)"
    "user_id n = user_id m" "zap_properties n = zap_properties m"
    using Cons.prems by (auto simp: store_property_def types_ok_def kv Let_def)
  have comm: "map_of ps ++ (map_of [(k, v)] ++ f) = map_of (kv # ps) ++ f" for f
    by (simp add: kv)
  have "types_ok o' ps" using Cons.prems by (simp add: types_ok_def)
  from Cons.IH [OF this, of n] obtain m' where m': "store_all o' False ps n = (Inr (), m')"
    "map_of (zmtp_properties m') = map_of ps ++ map_of (zmtp_properties n)" "peer_id m' = last_identity o' ps (peer_id n)"
    "user_id m' = user_id n" "zap_properties m' = zap_properties n"
    by blast
  have "store_all o' False (kv # ps) m = (Inr (), m')"
    using m'(1) by (simp only: kv store_all.simps st prod.case sum.case)
  moreover have "map_of (zmtp_properties m') = map_of (kv # ps) ++ map_of (zmtp_properties m)"
    by (simp only: m'(2) fs(1) comm)
  moreover have "peer_id m' = last_identity o' (kv # ps) (peer_id m)"
    by (simp only: m'(3) fs(2) kv last_identity_Cons)
  ultimately show ?case using m'(4,5) [unfolded fs(3,4)] by blast
qed

text \<open>The first property that is not acceptable ends the parse.\<close>

lemma store_all_bad_type:
  "\<not> types_ok o' ps \<Longrightarrow> fst (store_all o' zp ps m) = Inl EINVAL"
  by (induction ps arbitrary: m)
    (auto simp: types_ok_def store_property_def Let_def split: if_splits)

section \<open>The exchange with the handler\<close>

lemma read_zap_frames_spec:
  assumes "read_zap_frames js z = (r, z')"
  shows "\<exists>ms. z = z'\<lparr>zap_in := ms @ zap_in z'\<rparr> \<and>
              (\<forall>fs. r = Inr fs \<longrightarrow> fs = ms \<and> length fs = length js \<and> (\<forall>j<length js. pm_more (fs ! j) = (js ! j < 6)))"
  using assms
proof (induction js z arbitrary: r z' rule: read_zap_frames.induct)
  case (1 z)
  then show ?case by (intro exI [of _ "[]"]) auto
next
  case (2 i js z)
  show ?case
  proof (cases "read_zap_msg z")
    case (Pair a z1)
    show ?thesis
    proof (cases a)
      case (Inl e)
      then have "z' = z" "r = Inl e"
        using 2(2) Pair by (auto simp: read_zap_msg_def split: if_splits list.splits)
      then show ?thesis by (intro exI [of _ "[]"]) simp
    next
      case (Inr m)
      then have z: "z = z1\<lparr>zap_in := m # zap_in z1\<rparr>"
        using Pair by (auto simp: read_zap_msg_def split: if_splits list.splits)
      show ?thesis
      proof (cases "pm_more m = (i \<ge> 6)")
        case True
        then have "z' = z1" "r = Inl EPROTO" using 2(2) Pair Inr by auto
        then show ?thesis using z by (intro exI [of _ "[m]"]) simp
      next
        case False
        obtain r1 z2 where rd: "read_zap_frames js z1 = (r1, z2)" by fastforce
        from 2(1) [OF Pair [symmetric] Inr False rd] Pair obtain ms where
          ms: "z1 = z2\<lparr>zap_in := ms @ zap_in z2\<rparr>"
            "\<And>fs. r1 = Inr fs \<Longrightarrow> fs = ms \<and> length fs = length js \<and> (\<forall>j<length js. pm_more (fs ! j) = (js ! j < 6))"
          by auto
        have r: "z' = z2" "r = map_sum id ((#) m) r1"
          using 2(2) Pair Inr False rd by (auto split: sum.splits)
        show ?thesis
        proof (intro exI [of _ "m # ms"] conjI allI impI)
          show "z = z'\<lparr>zap_in := (m # ms) @ zap_in z'\<rparr>" using z ms(1) r(1) by (metis append_Cons zap.select_convs(5) zap.surjective zap.update_convs(5))
        next
          fix fs assume "r = Inr fs"
          then obtain fs1 where fs1: "r1 = Inr fs1" "fs = m # fs1" using r(2) by (cases r1) auto
          show "fs = m # ms" "length fs = length (i # js)" using ms(2) fs1 by auto
          fix j assume "j < length (i # js)"
          then show "pm_more (fs ! j) = ((i # js) ! j < 6)"
            using ms(2) [OF fs1(1)] fs1(2) False by (cases j) auto
        qed
      qed
    qed
  qed
qed

text \<open>A well-formed reply with status \<open>c\<close> for user \<open>u\<close>.\<close>

definition zap_reply :: "blob \<Rightarrow> blob \<Rightarrow> pmsg list \<Rightarrow> bool" where
  "zap_reply c u fs \<longleftrightarrow>
     length fs = 7 \<and> (\<forall>j<7. pm_more (fs ! j) = (j < 6)) \<and> pm_data (fs ! 0) = [] \<and> pm_data (fs ! 1) = bytes ''1.0'' \<and>
     pm_data (fs ! 2) = bytes ''1'' \<and> pm_data (fs ! 3) = c \<and> length c = 3 \<and> pm_data (fs ! 5) = u"

lemma store_property_user: "store_property o' zp k v m = (r, m') \<Longrightarrow> user_id m' = user_id m"
  by (auto simp: store_property_def Let_def split: if_splits)

lemma parse_metadata_user: "user_id (snd (parse_metadata o' zp bs m)) = user_id m"
proof (induction o' zp bs m rule: parse_metadata.induct)
  case (1 o' zp bs m)
  then show ?case
    by (subst parse_metadata.simps) (auto simp: Let_def store_property_user split: prod.split sum.split)
qed

lemma receive_zap_reply_spec:
  assumes "receive_zap_reply o' bad c m z = (r, c', m', z')"
  shows "\<exists>ms. z = z'\<lparr>zap_in := ms @ zap_in z'\<rparr> \<and> (r = Inr () \<longrightarrow> zap_reply c' (user_id m') ms)"
proof -
  obtain a z1 where rd: "read_zap_frames [0..<7] z = (a, z1)" by fastforce
  from read_zap_frames_spec [OF rd] obtain ms where
    ms: "z = z1\<lparr>zap_in := ms @ zap_in z1\<rparr>"
      "\<And>fs. a = Inr fs \<Longrightarrow> fs = ms \<and> length fs = 7 \<and> (\<forall>j<7. pm_more (fs ! j) = (j < 6))"
    by auto
  show ?thesis
  proof (cases a)
    case (Inl e)
    then show ?thesis using assms rd ms(1) by (auto simp: receive_zap_reply_def)
  next
    case (Inr fs)
    from ms(2) [OF this] have fs: "fs = ms" "length fs = 7" "\<forall>j<7. pm_more (fs ! j) = (j < 6)" by auto
    have z1: "z1 = z'" and pr: "process_zap_frames o' bad fs c m = (r, c', m')"
      using assms rd Inr by (auto simp: receive_zap_reply_def split: prod.splits)
    have "zap_reply c' (user_id m') ms" if "r = Inr ()"
      using pr that fs parse_metadata_user [of o' True "pm_data (fs ! 6)" "set_user_id (pm_data (fs ! 5)) m"]
      by (auto simp: process_zap_frames_def zap_reply_def set_user_id_def split: if_splits prod.splits)
    then show ?thesis using ms(1) z1 by auto
  qed
qed

lemma write_zap_msgs_eq: "write_zap_msgs ms z = (if zap_pipe z \<or> ms = [] then Some (z\<lparr>zap_out := zap_out z @ ms\<rparr>) else None)"
  by (induction ms arbitrary: z) (auto simp: write_zap_msg_def zmq_assert_def)

definition zap_new :: "bool \<Rightarrow> bool \<Rightarrow> zap" where
  "zap_new h w = \<lparr>zap_handler = h, zap_wants_id = w, zap_pipe = False, zap_out = [], zap_in = []\<rparr>"

definition zap_busy :: "bool \<Rightarrow> pmsg list \<Rightarrow> pmsg list \<Rightarrow> zap" where
  "zap_busy w out inn = \<lparr>zap_handler = True, zap_wants_id = w, zap_pipe = True, zap_out = out, zap_in = inn\<rparr>"

lemma read_zap_frames_ok:
  assumes "zap_pipe z" "zap_in z = fs @ rest" "length fs = length js" "\<forall>j<length js. pm_more (fs ! j) = (js ! j < 6)"
  shows "read_zap_frames js z = (Inr fs, z\<lparr>zap_in := rest\<rparr>)"
  using assms
proof (induction js z arbitrary: fs rule: read_zap_frames.induct)
  case (2 i js z)
  then obtain f gs where f: "fs = f # gs" "length gs = length js" by (cases fs) auto
  have "pm_more f = (i < 6)" "\<forall>j<length js. pm_more (gs ! j) = (js ! j < 6)"
    using 2(5) f(1) by (auto dest: spec [of _ 0] spec [of _ "Suc _"])
  then show ?case
    using 2 f by (simp add: read_zap_msg_def not_le)
qed simp

lemma receive_accepted:
  assumes "zap_reply (bytes ''200'') uid fs" "pm_data (fs ! 6) = []"
  shows "receive_zap_reply o' bad c m (zap_busy w out fs) = (Inr (), bytes ''200'', set_user_id uid m, zap_busy w out [])"
proof -
  have "read_zap_frames [0..<7] (zap_busy w out fs) = (Inr fs, zap_busy w out [])"
    using assms(1) by (subst read_zap_frames_ok [of _ fs "[]"]) (auto simp: zap_busy_def zap_reply_def)
  then show ?thesis
    using assms by (simp add: receive_zap_reply_def process_zap_frames_def zap_reply_def)
qed

text \<open>An answer with status 200.\<close>

definition accept_frames :: "blob \<Rightarrow> pmsg list" where
  "accept_frames uid = map (zap_frame True) [[], bytes ''1.0'', bytes ''1'', bytes ''200'', bytes ''OK'', uid] @ [zap_frame False []]"

lemma accept_frames_reply: "zap_reply (bytes ''200'') uid (accept_frames uid)" "pm_data (accept_frames uid ! 6) = []"
  by (auto simp: zap_reply_def accept_frames_def zap_frame_def pm_more_def flag_more_def less_Suc_eq numeral_eq_Suc)

section \<open>Properties\<close>

text \<open>C10: Metadata survive the wire. Whatever properties \<open>add_property\<close> has written one after the other, \<open>parse_metadata\<close>
  reads them back: if every socket type among them is compatible, it succeeds, the table of properties maps each
  name to its first value, and the peer identity, if it is wanted, is the last one announced; with an incompatible
  socket type it fails with \<open>EINVAL\<close>.\<close>

theorem metadata_roundtrip:
  assumes "add_properties ps = Some bs"
  shows "if types_ok o' ps
         then \<exists>m. parse_metadata o' False bs mech_new = (Inr (), m) \<and> map_of (zmtp_properties m) = map_of ps \<and>
                  peer_id m = last_identity o' ps [] \<and> zap_properties m = []
         else fst (parse_metadata o' False bs mech_new) = Inl EINVAL"
  using store_all_ok [of o' ps mech_new] store_all_bad_type [of o' ps False mech_new]
  by (auto simp: parse_add_properties [OF assms] mech_new_def)

theorem metadata_roundtrip_witness:
  "\<exists>m. parse_metadata \<lparr>o_type = ZMQ_ROUTER, o_identity = [], o_recv_identity = True, o_zap_domain = [], o_username = [], o_password = []\<rparr> False
         (11 # bytes ''Socket-Type'' @ [0, 0, 0, 3] @ bytes ''REQ'' @ 8 # bytes ''Identity'' @ [0, 0, 0, 2, 65, 66]) mech_new = (Inr (), m) \<and>
       map_of (zmtp_properties m) = map_of [(bytes ''Socket-Type'', bytes ''REQ''), (bytes ''Identity'', [65, 66])] \<and>
       peer_id m = [65, 66]"
proof -
  let ?ps = "[(bytes ''Socket-Type'', bytes ''REQ''), (bytes ''Identity'', [65, 66])]"
  let ?o = "\<lparr>o_type = ZMQ_ROUTER, o_identity = [], o_recv_identity = True, o_zap_domain = [], o_username = [], o_password = []\<rparr>"
  have "add_properties ?ps = Some (11 # bytes ''Socket-Type'' @ [0, 0, 0, 3] @ bytes ''REQ'' @ 8 # bytes ''Identity'' @ [0, 0, 0, 2, 65, 66])"
    by (simp add: add_property_def put_uint32_def)
  moreover have "types_ok ?o ?ps"
    by (simp add: types_ok_def check_socket_type_def socket_types bytes_def)
  moreover have "last_identity ?o ?ps [] = [65, 66]"
    by (simp add: last_identity_def)
  ultimately show ?thesis
    using metadata_roundtrip [of ?ps _ ?o] by metis
qed

text \<open>Truncated metadata are accepted. A property that ends after its name, or after the length of its value, leaves no
  byte behind, and the check after the loop takes this for success: nothing is stored and no error is reported, whatever
  length was announced. In particular a \<open>Socket-Type\<close> without its value passes where every socket type is
  refused.\<close>

theorem metadata_truncated_accepted:
  assumes "0 < length k" "length k \<le> 255" "v \<noteq> 0"
  shows "parse_metadata o' zp (of_nat (length k) # k) m = (Inr (), m) \<and>
         parse_metadata o' zp (of_nat (length k) # k @ put_uint32 v) m = (Inr (), m)"
proof
  have u: "unat (of_nat (length k) :: byte) = length k"
    using assms(1,2) by (simp add: unat_of_nat)
  show "parse_metadata o' zp (of_nat (length k) # k) m = (Inr (), m)"
    using assms(1,2) by (subst parse_metadata.simps) (auto simp: u Let_def left_over_def)
  have "0 < unat v" using assms(3) by (simp add: unat_gt_0)
  then show "parse_metadata o' zp (of_nat (length k) # k @ put_uint32 v) m = (Inr (), m)"
    using assms(1,2) get_uint32_append [of v "[]"]
    by (subst parse_metadata.simps) (simp add: u Let_def left_over_def)
qed

theorem metadata_truncated_accepted_witness:
  "parse_metadata \<lparr>o_type = 11, o_identity = [], o_recv_identity = False, o_zap_domain = [], o_username = [], o_password = []\<rparr> False
     (of_nat (length (bytes ''Socket-Type'')) # bytes ''Socket-Type'' @ put_uint32 4) mech_new = (Inr (), mech_new)"
  by (rule metadata_truncated_accepted [THEN conjunct2]) simp_all

end
