(* ===== verification/Plain.thy ===== *)
theory Plain
  imports Mechanism
begin

text \<open>
  The PLAIN mechanism (src/libzmq/src/plain_client.cpp, plain_server.cpp): a client that sends a user name and a password, and a
  server that asks a ZAP handler about them. The session's side of the exchange with the handler is part of the state of the
  server. A handshake command is its sequence of bytes.
\<close>

section \<open>The client\<close>

datatype pclient_state = sending_hello | waiting_for_welcome | sending_initiate | waiting_for_ready | error_command_received | client_ready

record pclient =
  pc_state :: pclient_state
  pc_mech :: mech

definition plain_client :: pclient where
  "plain_client = \<lparr>pc_state = sending_hello, pc_mech = mech_new\<rparr>"

definition produce_hello :: "mech_options \<Rightarrow> blob option" where
  "produce_hello o' =
     do { zmq_assert (length (o_username o') < 256);
          zmq_assert (length (o_password o') < 256);
          Some (cmd_name ''HELLO'' @ of_nat (length (o_username o')) # o_username o' @ of_nat (length (o_password o')) # o_password o') }"

definition produce_initiate :: "mech_options \<Rightarrow> blob option" where
  "produce_initiate o' = map_option (\<lambda>ps. cmd_name ''INITIATE'' @ ps) (add_metadata o')"

definition client_next_handshake_command :: "mech_options \<Rightarrow> pclient \<Rightarrow> ((errno + blob) \<times> pclient) option" where
  "client_next_handshake_command o' c =
     (case pc_state c of
        sending_hello \<Rightarrow> do { d \<leftarrow> produce_hello o'; Some (Inr d, c\<lparr>pc_state := waiting_for_welcome\<rparr>) }
      | sending_initiate \<Rightarrow> do { d \<leftarrow> produce_initiate o'; Some (Inr d, c\<lparr>pc_state := waiting_for_ready\<rparr>) }
      | _ \<Rightarrow> Some (Inl EAGAIN, c))"

definition process_welcome :: "blob \<Rightarrow> pclient \<Rightarrow> (errno + unit) \<times> pclient" where
  "process_welcome d c =
     (if pc_state c \<noteq> waiting_for_welcome then (Inl EPROTO, c)
      else if length d \<noteq> 8 then (Inl EPROTO, c)
      else (Inr (), c\<lparr>pc_state := sending_initiate\<rparr>))"

definition client_process_ready :: "mech_options \<Rightarrow> blob \<Rightarrow> pclient \<Rightarrow> (errno + unit) \<times> pclient" where
  "client_process_ready o' d c =
     (if pc_state c \<noteq> waiting_for_ready then (Inl EPROTO, c)
      else (case parse_metadata o' False (drop 6 d) (pc_mech c) of
              (Inl e, m) \<Rightarrow> (Inl e, c\<lparr>pc_mech := m\<rparr>)
            | (Inr _, m) \<Rightarrow> (Inr (), c\<lparr>pc_mech := m, pc_state := client_ready\<rparr>)))"

definition client_process_error :: "blob \<Rightarrow> pclient \<Rightarrow> (errno + unit) \<times> pclient" where
  "client_process_error d c =
     (if pc_state c \<noteq> waiting_for_welcome \<and> pc_state c \<noteq> waiting_for_ready then (Inl EPROTO, c)
      else if length d < 7 then (Inl EPROTO, c)
      else if unat (d ! 6) > length d - 7 then (Inl EPROTO, c)
      else (Inr (), c\<lparr>pc_state := error_command_received\<rparr>))"

definition client_process_handshake_command :: "mech_options \<Rightarrow> blob \<Rightarrow> pclient \<Rightarrow> (errno + unit) \<times> pclient" where
  "client_process_handshake_command o' d c =
     (if has_name ''WELCOME'' d then process_welcome d c
      else if has_name ''READY'' d then client_process_ready o' d c
      else if has_name ''ERROR'' d then client_process_error d c
      else (Inl EPROTO, c))"

definition client_status :: "pclient \<Rightarrow> mech_status" where
  "client_status c =
     (if pc_state c = client_ready then status_ready
      else if pc_state c = error_command_received then status_error else handshaking)"

section \<open>The server\<close>

datatype pserver_state =
  waiting_for_hello | sending_welcome | waiting_for_initiate | sending_ready | waiting_for_zap_reply | sending_error |
  error_command_sent | server_ready

record pserver =
  ps_state :: pserver_state
  ps_code :: blob
  ps_mech :: mech
  ps_zap :: zap

definition plain_server :: "zap \<Rightarrow> pserver" where
  "plain_server z = \<lparr>ps_state = waiting_for_hello, ps_code = [], ps_mech = mech_new, ps_zap = z\<rparr>"

definition plain_zap_request :: "mech_options \<Rightarrow> blob \<Rightarrow> blob \<Rightarrow> blob \<Rightarrow> pmsg list" where
  "plain_zap_request o' addr u p = zap_request o' addr [bytes ''PLAIN'', u, p]"

definition receive_and_process_zap_reply :: "mech_options \<Rightarrow> pserver \<Rightarrow> (errno + unit) \<times> pserver" where
  "receive_and_process_zap_reply o' s =
     (let (r, code, m, z) = receive_zap_reply o' EACCES (ps_code s) (ps_mech s) (ps_zap s)
      in (r, s\<lparr>ps_code := code, ps_mech := m, ps_zap := z\<rparr>))"

definition after_reply :: "pserver \<Rightarrow> pserver" where
  "after_reply s = s\<lparr>ps_state := (if ps_code s = bytes ''200'' then sending_welcome else sending_error)\<rparr>"

definition server_authenticate :: "mech_options \<Rightarrow> blob \<Rightarrow> blob \<Rightarrow> blob \<Rightarrow> pserver \<Rightarrow> ((errno + unit) \<times> pserver) option" where
  "server_authenticate o' addr u p s =
     do { (ok, z) \<leftarrow> zap_connect (ps_zap s);
          if \<not> ok then Some (Inr (), s\<lparr>ps_zap := z, ps_state := sending_welcome\<rparr>)
          else do {
            z \<leftarrow> write_zap_msgs (plain_zap_request o' addr u p) z;
            Some (case receive_and_process_zap_reply o' (s\<lparr>ps_zap := z\<rparr>) of
                    (Inr _, s) \<Rightarrow> (Inr (), after_reply s)
                  | (Inl e, s) \<Rightarrow> if e = EAGAIN then (Inr (), s\<lparr>ps_state := waiting_for_zap_reply\<rparr>) else (Inl e, s)) } }"

definition process_hello :: "mech_options \<Rightarrow> blob \<Rightarrow> blob \<Rightarrow> pserver \<Rightarrow> ((errno + unit) \<times> pserver) option" where
  "process_hello o' addr d s =
     (if \<not> has_name ''HELLO'' d then Some (Inl EPROTO, s)
      else let d = drop 6 d
      in if d = [] then Some (Inl EPROTO, s)
      else let n = unat (hd d); d = tl d
      in if length d < n then Some (Inl EPROTO, s)
      else let username = take n d; d = drop n d
      in if d = [] then Some (Inl EPROTO, s)
      else let n = unat (hd d); d = tl d
      in if length d < n then Some (Inl EPROTO, s)
      else let password = take n d; d = drop n d
      in if d \<noteq> [] then Some (Inl EPROTO, s)
      else server_authenticate o' addr username password s)"

definition process_initiate :: "mech_options \<Rightarrow> blob \<Rightarrow> pserver \<Rightarrow> (errno + unit) \<times> pserver" where
  "process_initiate o' d s =
     (if \<not> has_name ''INITIATE'' d then (Inl EPROTO, s)
      else (case parse_metadata o' False (drop 9 d) (ps_mech s) of
              (Inl e, m) \<Rightarrow> (Inl e, s\<lparr>ps_mech := m\<rparr>)
            | (Inr _, m) \<Rightarrow> (Inr (), s\<lparr>ps_mech := m, ps_state := sending_ready\<rparr>)))"

definition server_process_handshake_command :: "mech_options \<Rightarrow> blob \<Rightarrow> blob \<Rightarrow> pserver \<Rightarrow> ((errno + unit) \<times> pserver) option" where
  "server_process_handshake_command o' addr d s =
     (case ps_state s of
        waiting_for_hello \<Rightarrow> process_hello o' addr d s
      | waiting_for_initiate \<Rightarrow> Some (process_initiate o' d s)
      | _ \<Rightarrow> Some (Inl EPROTO, s))"

definition produce_welcome :: blob where "produce_welcome = cmd_name ''WELCOME''"

definition produce_ready :: "mech_options \<Rightarrow> blob option" where
  "produce_ready o' = map_option (\<lambda>ps. cmd_name ''READY'' @ ps) (add_metadata o')"

definition produce_error :: "blob \<Rightarrow> blob option" where
  "produce_error code = do { zmq_assert (length code = 3); Some (cmd_name ''ERROR'' @ of_nat (length code) # code) }"

definition server_next_handshake_command :: "mech_options \<Rightarrow> pserver \<Rightarrow> ((errno + blob) \<times> pserver) option" where
  "server_next_handshake_command o' s =
     (case ps_state s of
        sending_welcome \<Rightarrow> Some (Inr produce_welcome, s\<lparr>ps_state := waiting_for_initiate\<rparr>)
      | sending_ready \<Rightarrow> do { d \<leftarrow> produce_ready o'; Some (Inr d, s\<lparr>ps_state := server_ready\<rparr>) }
      | sending_error \<Rightarrow> do { d \<leftarrow> produce_error (ps_code s); Some (Inr d, s\<lparr>ps_state := error_command_sent\<rparr>) }
      | _ \<Rightarrow> Some (Inl EAGAIN, s))"

definition server_zap_msg_available :: "mech_options \<Rightarrow> pserver \<Rightarrow> (errno + unit) \<times> pserver" where
  "server_zap_msg_available o' s =
     (if ps_state s \<noteq> waiting_for_zap_reply then (Inl EFSM, s)
      else (case receive_and_process_zap_reply o' s of
              (Inl e, s) \<Rightarrow> (Inl e, s)
            | (Inr _, s) \<Rightarrow> (Inr (), after_reply s)))"

definition server_status :: "pserver \<Rightarrow> mech_status" where
  "server_status s =
     (if ps_state s = server_ready then status_ready
      else if ps_state s = error_command_sent then status_error else handshaking)"

section \<open>Histories of a server\<close>

definition hello_cmd :: "blob \<Rightarrow> blob \<Rightarrow> blob" where
  "hello_cmd u p = cmd_name ''HELLO'' @ of_nat (length u) # u @ of_nat (length p) # p"

lemma has_name_split: "has_name s d \<Longrightarrow> d = cmd_name s @ drop (Suc (length s)) d"
  by (metis append_take_drop_id has_name_def length_cmd_name)

lemma process_hello_cases:
  "process_hello o' addr d s = Some (Inl EPROTO, s) \<or>
   (\<exists>u p. d = hello_cmd u p \<and> length u < 256 \<and> length p < 256 \<and> process_hello o' addr d s = server_authenticate o' addr u p s)"
  (is "?err \<or> ?ok")
proof (cases ?err)
  case ne: False
  define d1 where "d1 = drop 6 d"
  define u where "u = take (unat (hd d1)) (tl d1)"
  define d2 where "d2 = drop (unat (hd d1)) (tl d1)"
  define p where "p = take (unat (hd d2)) (tl d2)"
  have hn: "has_name ''HELLO'' d" and ne1: "d1 \<noteq> []" and l1: "unat (hd d1) \<le> length (tl d1)" and ne2: "d2 \<noteq> []"
    and l2: "unat (hd d2) \<le> length (tl d2)" and e: "drop (unat (hd d2)) (tl d2) = []"
    using ne by (auto simp: process_hello_def Let_def d1_def d2_def not_le split: if_splits)
  have ub: "of_nat (unat x) = x" for x :: byte by simp
  have lu: "length u = unat (hd d1)" and lp: "length p = unat (hd d2)" using l1 l2 by (auto simp: u_def p_def)
  have "tl d2 = p" using e by (simp add: p_def)
  then have "d2 = hd d2 # p" using ne2 by (metis list.collapse)
  moreover have "d1 = hd d1 # u @ d2" using ne1 by (simp add: u_def d2_def)
  moreover have "d = cmd_name ''HELLO'' @ d1" using has_name_split [OF hn] by (simp add: d1_def eval_nat_numeral)
  ultimately have "d = hello_cmd u p"
    using lu lp ub by (metis hello_cmd_def append_Cons)
  moreover have "process_hello o' addr d s = server_authenticate o' addr u p s"
    using hn ne1 l1 ne2 l2 e by (simp add: process_hello_def Let_def d1_def [symmetric] d2_def [symmetric] u_def [symmetric] p_def [symmetric])
  moreover have "length u < 256" "length p < 256" using lu lp unsigned_less [of "hd d1", where 'a = nat] unsigned_less [of "hd d2", where 'a = nat] by simp_all
  ultimately show ?thesis by blast
qed simp

text \<open>
  A server between a client and a handler: commands of the client, calls for the next command, frames that the handler sends through
  the pipe, and the notification about them. The run keeps the commands and the frames.
\<close>

inductive server_run :: "mech_options \<Rightarrow> blob \<Rightarrow> bool \<Rightarrow> bool \<Rightarrow> pserver \<Rightarrow> blob list \<Rightarrow> pmsg list \<Rightarrow> bool"
  for o' addr h w where
  run_start: "server_run o' addr h w (plain_server (zap_new h w)) [] []"
| run_command: "server_run o' addr h w s cs rs \<Longrightarrow> server_process_handshake_command o' addr d s = Some (r, s') \<Longrightarrow>
    server_run o' addr h w s' (cs @ [d]) rs"
| run_next: "server_run o' addr h w s cs rs \<Longrightarrow> server_next_handshake_command o' s = Some (r', s') \<Longrightarrow> server_run o' addr h w s' cs rs"
| run_deliver: "server_run o' addr h w s cs rs \<Longrightarrow> zap_pipe (ps_zap s) \<Longrightarrow>
    server_run o' addr h w (s\<lparr>ps_zap := ps_zap s\<lparr>zap_in := zap_in (ps_zap s) @ [f]\<rparr>\<rparr>) cs (rs @ [f])"
| run_available: "server_run o' addr h w s cs rs \<Longrightarrow> server_zap_msg_available o' s = (r, s') \<Longrightarrow> server_run o' addr h w s' cs rs"

text \<open>The states after a successful authentication.\<close>

definition past_hello :: "pserver \<Rightarrow> bool" where
  "past_hello s \<longleftrightarrow> ps_state s \<in> {sending_welcome, waiting_for_initiate, sending_ready, server_ready}"

text \<open>What the handler has been asked.\<close>

definition zap_asked :: "mech_options \<Rightarrow> blob \<Rightarrow> bool \<Rightarrow> blob \<Rightarrow> blob \<Rightarrow> pmsg list" where
  "zap_asked o' addr w u p =
     (if w then [\<lparr>pm_flags = flag_identity, pm_delim = False, pm_data = []\<rparr>] else []) @ plain_zap_request o' addr u p"

definition server_inv :: "mech_options \<Rightarrow> blob \<Rightarrow> bool \<Rightarrow> bool \<Rightarrow> pserver \<Rightarrow> blob list \<Rightarrow> pmsg list \<Rightarrow> bool" where
  "server_inv o' addr h w s cs rs \<longleftrightarrow>
     zap_handler (ps_zap s) = h \<and> zap_wants_id (ps_zap s) = w \<and>
     (\<exists>done. rs = done @ zap_in (ps_zap s) \<and>
       (if zap_pipe (ps_zap s)
        then h \<and> (\<exists>u p. hello_cmd u p \<in> set cs \<and> zap_out (ps_zap s) = zap_asked o' addr w u p \<and>
               (past_hello s \<longrightarrow> (\<exists>a fs. done = a @ fs \<and> zap_reply (bytes ''200'') (user_id (ps_mech s)) fs)))
        else (ps_state s = waiting_for_hello \<or> \<not> h) \<and> ps_state s \<noteq> waiting_for_zap_reply \<and> zap_out (ps_zap s) = []))"

lemma recv_reply_spec:
  assumes "receive_and_process_zap_reply o' s = (r, s')"
  shows "\<exists>ms. ps_zap s = (ps_zap s')\<lparr>zap_in := ms @ zap_in (ps_zap s')\<rparr> \<and> ps_state s' = ps_state s \<and>
              (r = Inr () \<longrightarrow> zap_reply (ps_code s') (user_id (ps_mech s')) ms)"
  using assms receive_zap_reply_spec [of o' EACCES "ps_code s" "ps_mech s" "ps_zap s"]
  by (fastforce simp: receive_and_process_zap_reply_def split: prod.splits)

text \<open>Once the request is written, a reply that is read keeps the invariant.\<close>

lemma server_inv_reply:
  assumes "zap_handler (ps_zap s)" "zap_wants_id (ps_zap s) = w" "zap_pipe (ps_zap s)" "rs = d @ zap_in (ps_zap s)"
    "hello_cmd u p \<in> set cs" "zap_out (ps_zap s) = zap_asked o' addr w u p" "\<not> past_hello s"
    and rc: "receive_and_process_zap_reply o' s = (r, s')"
  shows "r = Inr () \<Longrightarrow> server_inv o' addr True w (after_reply s') cs rs"
    and "r \<noteq> Inr () \<Longrightarrow> \<not> past_hello (s'\<lparr>ps_state := st\<rparr>) \<Longrightarrow> server_inv o' addr True w (s'\<lparr>ps_state := st\<rparr>) cs rs"
proof -
  obtain ms where ms: "ps_zap s = (ps_zap s')\<lparr>zap_in := ms @ zap_in (ps_zap s')\<rparr>" "ps_state s' = ps_state s"
    "r = Inr () \<Longrightarrow> zap_reply (ps_code s') (user_id (ps_mech s')) ms"
    using recv_reply_spec [OF rc] by blast
  have z: "zap_handler (ps_zap s')" "zap_wants_id (ps_zap s') = w" "zap_pipe (ps_zap s')" "rs = (d @ ms) @ zap_in (ps_zap s')"
    "zap_out (ps_zap s') = zap_asked o' addr w u p"
    using assms ms(1) by simp_all
  show "server_inv o' addr True w (after_reply s') cs rs" if "r = Inr ()"
    unfolding server_inv_def
  proof (intro conjI exI [of _ "d @ ms"])
    show "rs = (d @ ms) @ zap_in (ps_zap (after_reply s'))" using z(4) by (simp add: after_reply_def)
    have "\<exists>a fs. d @ ms = a @ fs \<and> zap_reply (bytes ''200'') (user_id (ps_mech (after_reply s'))) fs" if "past_hello (after_reply s')"
      using that ms(3) [OF \<open>r = Inr ()\<close>]
      by (intro exI [of _ d] exI [of _ ms]) (auto simp: past_hello_def after_reply_def split: if_splits)
    then show "if zap_pipe (ps_zap (after_reply s'))
      then True \<and> (\<exists>u p. hello_cmd u p \<in> set cs \<and> zap_out (ps_zap (after_reply s')) = zap_asked o' addr w u p \<and>
        (past_hello (after_reply s') \<longrightarrow> (\<exists>a fs. d @ ms = a @ fs \<and> zap_reply (bytes ''200'') (user_id (ps_mech (after_reply s'))) fs)))
      else (ps_state (after_reply s') = waiting_for_hello \<or> \<not> True) \<and>
        ps_state (after_reply s') \<noteq> waiting_for_zap_reply \<and> zap_out (ps_zap (after_reply s')) = []"
      using z assms(5) by (auto simp: after_reply_def)
  qed (use z in \<open>simp_all add: after_reply_def\<close>)
  show "server_inv o' addr True w (s'\<lparr>ps_state := st\<rparr>) cs rs" if "r \<noteq> Inr ()" "\<not> past_hello (s'\<lparr>ps_state := st\<rparr>)"
    using z assms(5) that(2) by (auto simp: server_inv_def)
qed

lemma server_inv_authenticate:
  assumes inv: "server_inv o' addr h w s cs rs" and st: "ps_state s = waiting_for_hello"
    and run: "server_authenticate o' addr u p s = Some (r, s')" and mem: "hello_cmd u p \<in> set cs"
  shows "server_inv o' addr h w s' cs rs"
proof -
  have np: "\<not> zap_pipe (ps_zap s)"
    using run by (auto simp: server_authenticate_def zap_connect_def bind_eq_Some_conv)
  then have out: "zap_out (ps_zap s) = []" and hw: "zap_handler (ps_zap s) = h" "zap_wants_id (ps_zap s) = w"
    and rs: "\<exists>d. rs = d @ zap_in (ps_zap s)"
    using inv by (auto simp: server_inv_def)
  show ?thesis
  proof (cases h)
    case False
    then show ?thesis using run np out hw rs
      by (auto simp: server_authenticate_def zap_connect_def server_inv_def)
  next
    case True
    define s1 where "s1 = s\<lparr>ps_zap := ps_zap s\<lparr>zap_pipe := True, zap_out := zap_asked o' addr w u p\<rparr>\<rparr>"
    obtain r1 s2 where rc: "receive_and_process_zap_reply o' s1 = (r1, s2)" by fastforce
    have res: "Some (r, s') = Some (case (r1, s2) of (Inr _, s) \<Rightarrow> (Inr (), after_reply s)
        | (Inl e, s) \<Rightarrow> if e = EAGAIN then (Inr (), s\<lparr>ps_state := waiting_for_zap_reply\<rparr>) else (Inl e, s))"
      using run np out hw True rc
      by (simp add: server_authenticate_def zap_connect_def write_zap_msgs_eq s1_def zap_asked_def)
    obtain d where d: "rs = d @ zap_in (ps_zap s1)" using rs by (auto simp: s1_def)
    have n: "\<not> past_hello s1" "ps_state s1 = waiting_for_hello" using st by (auto simp: past_hello_def s1_def)
    have st2: "ps_state s2 = waiting_for_hello" using recv_reply_spec [OF rc] n(2) by auto
    note keep = server_inv_reply [of s1 w rs d u p cs o' addr r1 s2, OF _ _ _ d mem _ n(1) rc]
    show ?thesis
    proof (cases r1)
      case (Inl e)
      then have "s' = s2\<lparr>ps_state := if e = EAGAIN then waiting_for_zap_reply else ps_state s2\<rparr>"
        using res by (auto split: if_splits)
      then show ?thesis
        using keep(2) Inl hw True st2 by (simp add: s1_def past_hello_def)
    next
      case (Inr x)
      then have "s' = after_reply s2" using res by simp
      then show ?thesis using keep(1) Inr hw True by (simp add: s1_def)
    qed
  qed
qed

lemma server_inv_mono: "server_inv o' addr h w s cs rs \<Longrightarrow> server_inv o' addr h w s (cs @ ds) rs"
  by (fastforce simp: server_inv_def split: if_splits)

text \<open>A step that does not touch the handler's pipe.\<close>

lemma server_inv_same:
  assumes "server_inv o' addr h w s cs rs" "ps_zap s' = ps_zap s"
    "past_hello s' \<Longrightarrow> past_hello s \<and> user_id (ps_mech s') = user_id (ps_mech s)"
    "ps_state s' = ps_state s \<or> ps_state s \<noteq> waiting_for_hello \<and> ps_state s' \<noteq> waiting_for_zap_reply"
  shows "server_inv o' addr h w s' cs rs"
proof (cases "zap_pipe (ps_zap s)")
  case True
  then show ?thesis using assms(1,3) unfolding server_inv_def assms(2) by (simp, metis)
next
  case False
  then show ?thesis using assms(1,4) unfolding server_inv_def assms(2) by auto
qed

lemma server_inv_command:
  assumes inv: "server_inv o' addr h w s cs rs" and run: "server_process_handshake_command o' addr d s = Some (r, s')"
  shows "server_inv o' addr h w s' (cs @ [d]) rs"
proof (cases "ps_state s = waiting_for_hello")
  case True
  then have h: "process_hello o' addr d s = Some (r, s')"
    using run by (simp add: server_process_handshake_command_def)
  from process_hello_cases [of o' addr d s] show ?thesis
  proof
    assume "process_hello o' addr d s = Some (Inl EPROTO, s)"
    then show ?thesis using h inv by (simp add: server_inv_mono)
  next
    assume "\<exists>u p. d = hello_cmd u p \<and> length u < 256 \<and> length p < 256 \<and> process_hello o' addr d s = server_authenticate o' addr u p s"
    then obtain u p where "d = hello_cmd u p" "server_authenticate o' addr u p s = Some (r, s')" using h by auto
    then show ?thesis using server_inv_authenticate [OF server_inv_mono [OF inv] True] by simp
  qed
next
  case False
  have "server_inv o' addr h w s' cs rs"
  proof (cases "ps_state s = waiting_for_initiate")
    case True
    define b where "b = drop 9 d"
    obtain a m where pm: "parse_metadata o' False b (ps_mech s) = (a, m)" by fastforce
    then have u: "user_id m = user_id (ps_mech s)" using parse_metadata_user [of o' False b "ps_mech s"] by simp
    have "s' = s \<or> s' = s\<lparr>ps_mech := m\<rparr> \<or> s' = s\<lparr>ps_mech := m, ps_state := sending_ready\<rparr>"
      using run True pm by (auto simp: server_process_handshake_command_def process_initiate_def b_def split: if_splits sum.splits)
    then show ?thesis using u True by (intro server_inv_same [OF inv]) (auto simp: past_hello_def)
  next
    case nf: False
    then have "s' = s" using run False
      by (cases "ps_state s") (simp_all add: server_process_handshake_command_def)
    then show ?thesis using inv by simp
  qed
  then show ?thesis by (rule server_inv_mono)
qed

lemma server_inv_next:
  assumes inv: "server_inv o' addr h w s cs rs" and run: "server_next_handshake_command o' s = Some (r, s')"
  shows "server_inv o' addr h w s' cs rs"
proof -
  have "s' = s \<or> (\<exists>st. s' = s\<lparr>ps_state := st\<rparr> \<and> st \<noteq> waiting_for_zap_reply \<and> ps_state s \<noteq> waiting_for_hello \<and> (past_hello s' \<longrightarrow> past_hello s))"
    using run by (cases "ps_state s") (auto simp: server_next_handshake_command_def past_hello_def bind_eq_Some_conv)
  then show ?thesis by (intro server_inv_same [OF inv]) auto
qed

lemma server_inv_available:
  assumes inv: "server_inv o' addr h w s cs rs" and run: "server_zap_msg_available o' s = (r, s')"
  shows "server_inv o' addr h w s' cs rs"
proof (cases "ps_state s = waiting_for_zap_reply")
  case True
  obtain r1 s2 where rc: "receive_and_process_zap_reply o' s = (r1, s2)" by fastforce
  have pipe: "zap_pipe (ps_zap s)" and h: "h" "zap_handler (ps_zap s)" "zap_wants_id (ps_zap s) = w"
    using inv True by (auto simp: server_inv_def split: if_splits)
  then obtain d u p where d: "rs = d @ zap_in (ps_zap s)" and mem: "hello_cmd u p \<in> set cs"
    and out: "zap_out (ps_zap s) = zap_asked o' addr w u p"
    using inv by (auto simp: server_inv_def)
  have n: "\<not> past_hello s" using True by (simp add: past_hello_def)
  note keep = server_inv_reply [OF h(2,3) pipe d mem out n rc]
  have st: "ps_state s2 = waiting_for_zap_reply" using recv_reply_spec [OF rc] True by auto
  show ?thesis
  proof (cases r1)
    case (Inl e)
    then have "s' = s2\<lparr>ps_state := waiting_for_zap_reply\<rparr>"
      using run True rc st by (simp add: server_zap_msg_available_def)
    then show ?thesis using keep(2) [of waiting_for_zap_reply] Inl h(1) by (simp add: past_hello_def)
  next
    case (Inr x)
    then have "s' = after_reply s2" using run True rc by (simp add: server_zap_msg_available_def)
    then show ?thesis using keep(1) Inr h(1) by simp
  qed
next
  case False
  then show ?thesis using inv run by (simp add: server_zap_msg_available_def)
qed

lemma server_run_inv: "server_run o' addr h w s cs rs \<Longrightarrow> server_inv o' addr h w s cs rs"
proof (induction rule: server_run.induct)
  case run_start
  then show ?case by (auto simp: server_inv_def plain_server_def zap_new_def)
next
  case (run_deliver s cs rs f)
  then show ?case by (fastforce simp: server_inv_def past_hello_def split: if_splits)
qed (blast intro: server_inv_command server_inv_next server_inv_available)+

section \<open>The steps of the two sides\<close>

lemma client_hello:
  assumes "length (o_username o') < 256" "length (o_password o') < 256"
  shows "client_next_handshake_command o' \<lparr>pc_state = sending_hello, pc_mech = m\<rparr> =
           Some (Inr (hello_cmd (o_username o') (o_password o')), \<lparr>pc_state = waiting_for_welcome, pc_mech = m\<rparr>)"
  using assms by (simp add: client_next_handshake_command_def produce_hello_def hello_cmd_def)

lemma client_welcome:
  "client_process_handshake_command o' produce_welcome \<lparr>pc_state = waiting_for_welcome, pc_mech = m\<rparr> =
     (Inr (), \<lparr>pc_state = sending_initiate, pc_mech = m\<rparr>)"
  using has_name_append [of "''WELCOME''" "[]"]
  by (simp add: client_process_handshake_command_def process_welcome_def produce_welcome_def)

lemma client_initiate:
  "client_next_handshake_command o' \<lparr>pc_state = sending_initiate, pc_mech = m\<rparr> =
     map_option (\<lambda>ps. (Inr (cmd_name ''INITIATE'' @ ps), \<lparr>pc_state = waiting_for_ready, pc_mech = m\<rparr>)) (add_metadata o')"
  by (cases "add_metadata o'") (simp_all add: client_next_handshake_command_def produce_initiate_def)

lemma has_name_other:
  "of_nat (length s) \<noteq> (of_nat (length t) :: byte) \<Longrightarrow> \<not> has_name s (cmd_name t @ d)"
  by (simp add: has_name_def cmd_name_def)

lemma client_ready_step:
  assumes "parse_metadata o' False ps m = (Inr (), m')"
  shows "client_process_handshake_command o' (cmd_name ''READY'' @ ps) \<lparr>pc_state = waiting_for_ready, pc_mech = m\<rparr> =
           (Inr (), \<lparr>pc_state = client_ready, pc_mech = m'\<rparr>)"
  using assms by (simp add: client_process_handshake_command_def client_process_ready_def has_name_other)

lemma server_initiate:
  assumes "parse_metadata o' False ps m = (Inr (), m')"
  shows "server_process_handshake_command o' addr (cmd_name ''INITIATE'' @ ps)
           \<lparr>ps_state = waiting_for_initiate, ps_code = c, ps_mech = m, ps_zap = z\<rparr> =
         Some (Inr (), \<lparr>ps_state = sending_ready, ps_code = c, ps_mech = m', ps_zap = z\<rparr>)"
  using assms by (simp add: server_process_handshake_command_def process_initiate_def)

lemma server_hello:
  assumes "length u < 256" "length p < 256"
  shows "server_process_handshake_command o' addr (hello_cmd u p) (plain_server z) = server_authenticate o' addr u p (plain_server z)"
  using assms
  by (simp add: server_process_handshake_command_def plain_server_def process_hello_def hello_cmd_def Let_def unat_of_nat)

lemma server_unasked:
  "server_authenticate o' addr u p (plain_server (zap_new False w)) =
     Some (Inr (), \<lparr>ps_state = sending_welcome, ps_code = [], ps_mech = mech_new, ps_zap = zap_new False w\<rparr>)"
  by (simp add: server_authenticate_def zap_connect_def zap_new_def plain_server_def)

lemma server_asks:
  "server_authenticate o' addr u p (plain_server (zap_new True w)) =
     Some (Inr (), \<lparr>ps_state = waiting_for_zap_reply, ps_code = [], ps_mech = mech_new, ps_zap = zap_busy w (zap_asked o' addr w u p) []\<rparr>)"
  by (simp add: server_authenticate_def zap_connect_def zap_new_def plain_server_def write_zap_msgs_eq zap_asked_def zap_busy_def
      receive_and_process_zap_reply_def receive_zap_reply_def upt_rec read_zap_msg_def)

lemma server_reply_step:
  assumes "zap_reply (bytes ''200'') uid fs" "pm_data (fs ! 6) = []"
  shows "server_zap_msg_available o' \<lparr>ps_state = waiting_for_zap_reply, ps_code = c, ps_mech = m, ps_zap = zap_busy w out fs\<rparr> =
           (Inr (), \<lparr>ps_state = sending_welcome, ps_code = bytes ''200'', ps_mech = set_user_id uid m, ps_zap = zap_busy w out []\<rparr>)"
  using receive_accepted [OF assms, of o' EACCES c m w out]
  by (simp add: server_zap_msg_available_def receive_and_process_zap_reply_def after_reply_def)

lemma run_delivers:
  assumes "server_run o' addr h w s cs rs" "zap_pipe (ps_zap s)"
  shows "server_run o' addr h w (s\<lparr>ps_zap := ps_zap s\<lparr>zap_in := zap_in (ps_zap s) @ fs\<rparr>\<rparr>) cs (rs @ fs)"
proof (induction fs rule: rev_induct)
  case Nil
  then show ?case using assms(1) by simp
next
  case (snoc f fs)
  from run_deliver [OF this, of f] show ?case using assms(2) by simp
qed

text \<open>C8: No client gets past a PLAIN server without the handler's consent. Over every history of a server, whatever commands the
  client sends in whatever order and whatever frames the handler sends, once the server is ready and there is a
  handler, the client has sent a HELLO with some user name and password, the handler was asked exactly once, about
  just these credentials, and its frames contain a complete and well-formed reply with status 200; the user id of the connection is
  the one of that reply. Without a handler nothing is asked.\<close>

theorem plain_server_authenticates:
  assumes "server_run o' addr h w s cs rs" "server_status s = status_ready"
  shows "if h then \<exists>u p a fs b. hello_cmd u p \<in> set cs \<and> zap_out (ps_zap s) = zap_asked o' addr w u p \<and>
                     rs = a @ fs @ b \<and> zap_reply (bytes ''200'') (user_id (ps_mech s)) fs
         else zap_out (ps_zap s) = []"
proof -
  have inv: "server_inv o' addr h w s cs rs" using assms(1) by (rule server_run_inv)
  have rdy: "ps_state s = server_ready" using assms(2) by (simp add: server_status_def split: if_splits)
  show ?thesis
  proof (cases h)
    case True
    have pipe: "zap_pipe (ps_zap s)" using inv rdy True by (auto simp: server_inv_def split: if_splits)
    have "past_hello s" using rdy by (simp add: past_hello_def)
    then show ?thesis using inv pipe True unfolding server_inv_def by (simp, metis append.assoc)
  next
    case False
    then show ?thesis using inv by (auto simp: server_inv_def split: if_splits)
  qed
qed

theorem plain_server_authenticates_witness:
  "\<exists>s rs. server_run (\<lparr>o_type = ZMQ_PULL, o_identity = [], o_recv_identity = False, o_zap_domain = [], o_username = [], o_password = []\<rparr>)
       [] True False s [hello_cmd [2] [3], cmd_name ''INITIATE''] rs \<and> server_status s = status_ready \<and>
     (\<exists>u p a fs b. hello_cmd u p \<in> set [hello_cmd [2] [3], cmd_name ''INITIATE''] \<and> rs = a @ fs @ b \<and> zap_reply (bytes ''200'') (user_id (ps_mech s)) fs)"
proof -
  let ?o = "\<lparr>o_type = ZMQ_PULL, o_identity = [], o_recv_identity = False, o_zap_domain = [], o_username = [], o_password = []\<rparr>"
  let ?out = "zap_asked ?o [] False [2] [3]"
  let ?st = "\<lambda>st c m inn. \<lparr>ps_state = st, ps_code = c, ps_mech = m, ps_zap = zap_busy False ?out inn\<rparr>"
  let ?m = "set_user_id [4] mech_new" and ?h = "hello_cmd [2] [3]" and ?f = "accept_frames [4]"
  let ?run = "server_run ?o [] True False"
  have "server_process_handshake_command ?o [] ?h (plain_server (zap_new True False)) =
      Some (Inr (), ?st waiting_for_zap_reply [] mech_new [])"
    by (simp add: server_hello server_asks)
  from run_command [OF run_start this] have "?run (?st waiting_for_zap_reply [] mech_new []) [?h] []" by simp
  from run_delivers [OF this, of ?f] have "?run (?st waiting_for_zap_reply [] mech_new ?f) [?h] ?f" by (simp add: zap_busy_def)
  from run_available [OF this server_reply_step [OF accept_frames_reply]] have "?run (?st sending_welcome (bytes ''200'') ?m []) [?h] ?f" .
  from run_next [OF this, of "Inr produce_welcome"] have "?run (?st waiting_for_initiate (bytes ''200'') ?m []) [?h] ?f"
    by (simp add: server_next_handshake_command_def)
  from run_command [OF this server_initiate [of _ "[]"]] have "?run (?st sending_ready (bytes ''200'') ?m []) [?h, cmd_name ''INITIATE''] ?f"
    by simp
  moreover obtain d where "add_metadata ?o = Some d" using add_metadata_ok [of ?o] by (auto simp: socket_types)
  ultimately have run: "?run (?st server_ready (bytes ''200'') ?m []) [?h, cmd_name ''INITIATE''] ?f"
    using run_next [of ?o "[]" True False "?st sending_ready (bytes ''200'') ?m []" _ _ "Inr (cmd_name ''READY'' @ d)"]
    by (simp add: server_next_handshake_command_def produce_ready_def)
  have rdy: "server_status (?st server_ready (bytes ''200'') ?m []) = status_ready" by (simp add: server_status_def)
  from plain_server_authenticates [OF run rdy] show ?thesis
    using run rdy by (simp only: if_True) blast
qed

end
