(* ===== verification/Handshake.thy ===== *)
theory Handshake
  imports Plain
begin

text \<open>
  A PLAIN client, a PLAIN server and a ZAP handler together: commands travel in order between the two, the handler answers the request
  that it finds. Whatever the order in which they act, the handshake completes.
\<close>

section \<open>The system\<close>

record hsys =
  y_client :: pclient
  y_server :: pserver
  y_cs :: "blob list"
  y_sc :: "blob list"
  y_replied :: bool
  y_ok :: bool

datatype hs_action = Client_send | Server_send | Client_recv | Server_recv | Handler | Notify

text \<open>The parameters are the options of client and server, the address of the client and the answers of the handler. An action that is not
  possible is \<open>None\<close>; one that fails or aborts clears \<open>y_ok\<close>.\<close>

record hs_env =
  e_client :: mech_options
  e_server :: mech_options
  e_addr :: blob
  e_answer :: "pmsg list \<Rightarrow> pmsg list"

fun hs_act :: "hs_env \<Rightarrow> hs_action \<Rightarrow> hsys \<Rightarrow> hsys option" where
  "hs_act e Client_send y =
     (case client_next_handshake_command (e_client e) (y_client y) of
        None \<Rightarrow> Some (y\<lparr>y_ok := False\<rparr>)
      | Some (Inl _, _) \<Rightarrow> None
      | Some (Inr d, c) \<Rightarrow> Some (y\<lparr>y_client := c, y_cs := y_cs y @ [d]\<rparr>))"
| "hs_act e Server_send y =
     (case server_next_handshake_command (e_server e) (y_server y) of
        None \<Rightarrow> Some (y\<lparr>y_ok := False\<rparr>)
      | Some (Inl _, _) \<Rightarrow> None
      | Some (Inr d, s) \<Rightarrow> Some (y\<lparr>y_server := s, y_sc := y_sc y @ [d]\<rparr>))"
| "hs_act e Client_recv y =
     (case y_sc y of
        [] \<Rightarrow> None
      | d # ds \<Rightarrow> (case client_process_handshake_command (e_client e) d (y_client y) of
                    (r, c) \<Rightarrow> Some (y\<lparr>y_client := c, y_sc := ds, y_ok := y_ok y \<and> r = Inr ()\<rparr>)))"
| "hs_act e Server_recv y =
     (case y_cs y of
        [] \<Rightarrow> None
      | d # ds \<Rightarrow> (case server_process_handshake_command (e_server e) (e_addr e) d (y_server y) of
                    None \<Rightarrow> Some (y\<lparr>y_ok := False\<rparr>)
                  | Some (r, s) \<Rightarrow> Some (y\<lparr>y_server := s, y_cs := ds, y_ok := y_ok y \<and> r = Inr ()\<rparr>)))"
| "hs_act e Handler y =
     (let s = y_server y; z = ps_zap s
      in if zap_pipe z \<and> \<not> y_replied y
         then Some (y\<lparr>y_server := s\<lparr>ps_zap := z\<lparr>zap_in := zap_in z @ e_answer e (zap_out z)\<rparr>\<rparr>, y_replied := True\<rparr>)
         else None)"
| "hs_act e Notify y =
     (if zap_in (ps_zap (y_server y)) = [] then None
      else (case server_zap_msg_available (e_server e) (y_server y) of
              (r, s) \<Rightarrow> Some (y\<lparr>y_server := s, y_ok := y_ok y \<and> r = Inr ()\<rparr>)))"

inductive hs_step :: "hs_env \<Rightarrow> hsys \<Rightarrow> hsys \<Rightarrow> bool" for e where
  "hs_act e a y = Some y' \<Longrightarrow> hs_step e y y'"

inductive_simps hs_step_iff: "hs_step e y y'"

definition hs_init :: "bool \<Rightarrow> bool \<Rightarrow> hsys" where
  "hs_init h w = \<lparr>y_client = plain_client, y_server = plain_server (zap_new h w), y_cs = [], y_sc = [], y_replied = False, y_ok = True\<rparr>"

section \<open>Forced runs\<close>

text \<open>A run that has no choice: in each state but the last exactly one action is possible.\<close>

definition hs_only :: "hs_env \<Rightarrow> hs_action \<Rightarrow> hsys \<Rightarrow> hsys \<Rightarrow> bool" where
  "hs_only e a y y' \<longleftrightarrow> (\<forall>b. hs_act e b y = (if b = a then Some y' else None))"

inductive hs_forced :: "hs_env \<Rightarrow> hsys \<Rightarrow> hsys \<Rightarrow> bool" for e where
  forced_end: "(\<And>b. hs_act e b t = None) \<Longrightarrow> hs_forced e t t"
| forced_step: "hs_only e a y y' \<Longrightarrow> hs_forced e y' t \<Longrightarrow> hs_forced e y t"

lemma forced_keeps:
  assumes "hs_forced e y t" "hs_step e y z"
  shows "hs_forced e z t"
  using assms by (cases rule: hs_forced.cases) (auto simp: hs_step_iff hs_only_def split: if_splits)

lemma forced_reaches: "hs_forced e y t \<Longrightarrow> (hs_step e)\<^sup>*\<^sup>* y t"
proof (induction rule: hs_forced.induct)
  case (forced_step a y y' t)
  then have "hs_step e y y'" by (auto simp: hs_only_def hs_step_iff)
  then show ?case using forced_step(3) by (rule converse_rtranclp_into_rtranclp)
qed simp

lemma forced_always:
  assumes "hs_forced e y t" "(hs_step e)\<^sup>*\<^sup>* y z"
  shows "(hs_step e)\<^sup>*\<^sup>* z t"
proof -
  have "hs_forced e z t" using assms(2,1) by (induction rule: rtranclp_induct) (auto intro: forced_keeps)
  then show ?thesis by (rule forced_reaches)
qed

lemma hs_onlyI:
  assumes "hs_act e a y = Some y'" "\<And>b. b \<noteq> a \<Longrightarrow> hs_act e b y = None"
  shows "hs_only e a y y'"
  using assms by (simp add: hs_only_def)

section \<open>Completion\<close>

lemmas hs_quiet = client_next_handshake_command_def server_next_handshake_command_def

text \<open>From the accepted HELLO on.\<close>

lemma forced_tail:
  assumes z: "zap_in z = []" "zap_pipe z \<Longrightarrow> rep"
    and mc: "add_metadata (e_client e) = Some bc" and ms: "add_metadata (e_server e) = Some bs"
    and ps: "parse_metadata (e_server e) False bc m = (Inr (), mS)"
    and pc: "parse_metadata (e_client e) False bs mech_new = (Inr (), mC)"
  shows "hs_forced e
     \<lparr>y_client = \<lparr>pc_state = waiting_for_welcome, pc_mech = mech_new\<rparr>,
      y_server = \<lparr>ps_state = sending_welcome, ps_code = c, ps_mech = m, ps_zap = z\<rparr>, y_cs = [], y_sc = [], y_replied = rep, y_ok = True\<rparr>
     \<lparr>y_client = \<lparr>pc_state = client_ready, pc_mech = mC\<rparr>,
      y_server = \<lparr>ps_state = server_ready, ps_code = c, ps_mech = mS, ps_zap = z\<rparr>, y_cs = [], y_sc = [], y_replied = rep, y_ok = True\<rparr>"
    (is "hs_forced e ?ya ?yg")
proof -
  let ?mk = "\<lambda>ct cm st sm cs sc. \<lparr>y_client = \<lparr>pc_state = ct, pc_mech = cm\<rparr>,
      y_server = \<lparr>ps_state = st, ps_code = c, ps_mech = sm, ps_zap = z\<rparr>, y_cs = cs, y_sc = sc, y_replied = rep, y_ok = True\<rparr>"
  let ?i = "cmd_name ''INITIATE'' @ bc" and ?r = "cmd_name ''READY'' @ bs"
  let ?yb = "?mk waiting_for_welcome mech_new waiting_for_initiate m [] [produce_welcome]"
  let ?yc = "?mk sending_initiate mech_new waiting_for_initiate m [] []"
  let ?yd = "?mk waiting_for_ready mech_new waiting_for_initiate m [?i] []"
  let ?ye = "?mk waiting_for_ready mech_new sending_ready mS [] []"
  let ?yf = "?mk waiting_for_ready mech_new server_ready mS [] [?r]"
  have q: "hs_act e Handler (?mk ct cm st sm cs sc) = None" "hs_act e Notify (?mk ct cm st sm cs sc) = None" for ct cm st sm cs sc
    using z by (auto simp: Let_def)
  have "hs_only e Server_send ?ya ?yb" "hs_only e Client_recv ?yb ?yc"
    by (rule hs_onlyI, simp add: hs_quiet client_welcome, case_tac b, simp_all only: q, simp_all add: hs_quiet)+
  moreover have "hs_only e Client_send ?yc ?yd" "hs_only e Server_recv ?yd ?ye"
    by (rule hs_onlyI, simp add: client_initiate mc server_initiate [OF ps], case_tac b, simp_all only: q, simp_all add: hs_quiet)+
  moreover have "hs_only e Server_send ?ye ?yf" "hs_only e Client_recv ?yf ?yg"
    by (rule hs_onlyI, simp add: hs_quiet produce_ready_def ms client_ready_step [OF pc], case_tac b, simp_all only: q, simp_all add: hs_quiet)+
  moreover have "hs_forced e ?yg ?yg"
    by (rule forced_end, case_tac b, simp_all only: q, simp_all add: hs_quiet)
  ultimately show ?thesis by (blast intro: forced_step)
qed

text \<open>A forced run ends, whatever its length.\<close>

lemma forced_ends: "hs_forced e y t \<Longrightarrow> termip (hs_step e) y"
proof (induction rule: hs_forced.induct)
  case (forced_end t)
  then show ?case by (rule_tac accp.intros) (simp add: hs_step_iff)
next
  case (forced_step a y y' t)
  then show ?case by (rule_tac accp.intros) (auto simp: hs_step_iff hs_only_def split: if_splits)
qed

lemma forced_last: "hs_forced e y t \<Longrightarrow> hs_act e a t = None"
  by (induction rule: hs_forced.induct) auto

text \<open>The two ends may talk to each other, and the handler, if there is one, says yes.\<close>

definition hs_compatible :: "hs_env \<Rightarrow> bool" where
  "hs_compatible e \<longleftrightarrow>
     o_type (e_client e) \<le> 10 \<and> o_type (e_server e) \<le> 10 \<and> length (o_identity (e_client e)) \<le> 255 \<and> length (o_identity (e_server e)) \<le> 255 \<and>
     length (o_username (e_client e)) < 256 \<and> length (o_password (e_client e)) < 256 \<and>
     check_socket_type (e_server e) (bytes (type_names ! o_type (e_client e))) \<and>
     check_socket_type (e_client e) (bytes (type_names ! o_type (e_server e)))"

definition hs_consents :: "hs_env \<Rightarrow> bool \<Rightarrow> blob \<Rightarrow> bool" where
  "hs_consents e w uid \<longleftrightarrow>
     (let fs = e_answer e (zap_asked (e_server e) (e_addr e) w (o_username (e_client e)) (o_password (e_client e)))
      in zap_reply (bytes ''200'') uid fs \<and> pm_data (fs ! 6) = [])"

lemma sent_types_ok:
  assumes "check_socket_type o2 (bytes (type_names ! o_type o1))"
  shows "types_ok o2 (sent_properties o1)"
proof -
  have "length (bytes ''Identity'') \<noteq> length (bytes ''Socket-Type'')" by simp
  then have "bytes ''Identity'' \<noteq> bytes ''Socket-Type''" by metis
  then show ?thesis using assms by (simp add: types_ok_def sent_properties_def)
qed

lemma metadata_exchange:
  assumes "o_type o1 \<le> 10" "length (o_identity o1) \<le> 255" "check_socket_type o2 (bytes (type_names ! o_type o1))"
    "zmtp_properties m = []" "peer_id m = []"
  obtains bs m' where "add_metadata o1 = Some bs" "parse_metadata o2 False bs m = (Inr (), m')"
    "map_of (zmtp_properties m') = map_of (sent_properties o1)" "peer_id m' = last_identity o2 (sent_properties o1) []"
    "user_id m' = user_id m"
  using add_metadata_ok [OF assms(1,2)] parse_sent [of o1 _ o2 False m] store_all_ok [OF sent_types_ok [OF assms(3)], of m] assms(4,5)
  by auto

text \<open>The state in which the HELLO is accepted.\<close>

definition hs_asked :: "hs_env \<Rightarrow> bool \<Rightarrow> pmsg list" where
  "hs_asked e w = zap_asked (e_server e) (e_addr e) w (o_username (e_client e)) (o_password (e_client e))"

definition hs_waiting :: "pserver \<Rightarrow> blob list \<Rightarrow> bool \<Rightarrow> hsys" where
  "hs_waiting s cs r =
     \<lparr>y_client = \<lparr>pc_state = waiting_for_welcome, pc_mech = mech_new\<rparr>, y_server = s, y_cs = cs, y_sc = [], y_replied = r, y_ok = True\<rparr>"

definition hs_accepted :: "hs_env \<Rightarrow> bool \<Rightarrow> bool \<Rightarrow> blob \<Rightarrow> hsys" where
  "hs_accepted e h w uid = hs_waiting
     (if h then \<lparr>ps_state = sending_welcome, ps_code = bytes ''200'', ps_mech = set_user_id uid mech_new, ps_zap = zap_busy w (hs_asked e w) []\<rparr>
      else \<lparr>ps_state = sending_welcome, ps_code = [], ps_mech = mech_new, ps_zap = zap_new False w\<rparr>) [] h"

lemma forced_head:
  assumes lens: "length (o_username (e_client e)) < 256" "length (o_password (e_client e)) < 256"
    and cons: "h \<longrightarrow> hs_consents e w uid" and tail: "hs_forced e (hs_accepted e h w uid) t"
  shows "hs_forced e (hs_init h w) t"
proof -
  let ?hello = "hello_cmd (o_username (e_client e)) (o_password (e_client e))"
  let ?one = "hs_waiting (plain_server (zap_new h w)) [?hello] False"
  have first: "hs_only e Client_send (hs_init h w) ?one"
    by (rule hs_onlyI, simp add: hs_init_def hs_waiting_def plain_client_def client_hello lens, case_tac b)
      (auto simp: hs_init_def plain_server_def zap_new_def hs_quiet)
  have "hs_forced e ?one t"
  proof (cases h)
    case False
    have "hs_only e Server_recv ?one (hs_accepted e h w uid)"
      by (rule hs_onlyI, simp add: server_hello lens server_unasked False hs_accepted_def hs_waiting_def, case_tac b)
        (auto simp: hs_quiet plain_server_def zap_new_def hs_waiting_def)
    then show ?thesis using tail by (rule forced_step)
  next
    case True
    define fs where "fs = e_answer e (hs_asked e w)"
    have fs: "zap_reply (bytes ''200'') uid fs" "pm_data (fs ! 6) = []" "fs \<noteq> []"
      using cons True by (auto simp: hs_consents_def fs_def hs_asked_def Let_def zap_reply_def)
    let ?wait = "\<lambda>inn. \<lparr>ps_state = waiting_for_zap_reply, ps_code = [], ps_mech = mech_new, ps_zap = zap_busy w (hs_asked e w) inn\<rparr>"
    have "hs_only e Server_recv ?one (hs_waiting (?wait []) [] False)"
      by (rule hs_onlyI, simp add: server_hello lens server_asks True hs_waiting_def hs_asked_def, case_tac b)
        (auto simp: hs_quiet plain_server_def zap_new_def hs_waiting_def)
    moreover have "hs_only e Handler (hs_waiting (?wait []) [] False) (hs_waiting (?wait fs) [] True)"
      by (rule hs_onlyI, simp add: zap_busy_def fs_def Let_def hs_waiting_def, case_tac b)
        (auto simp: hs_quiet zap_busy_def hs_waiting_def)
    moreover have "hs_only e Notify (hs_waiting (?wait fs) [] True) (hs_accepted e h w uid)"
      by (rule hs_onlyI, simp add: server_reply_step [OF fs(1,2)] True hs_accepted_def hs_waiting_def, simp add: zap_busy_def fs(3), case_tac b)
        (auto simp: hs_quiet zap_busy_def hs_waiting_def)
    ultimately show ?thesis using tail by (blast intro: forced_step)
  qed
  with first show ?thesis by (rule forced_step)
qed

text \<open>C9: The PLAIN handshake completes. Between a client and a server with compatible socket types, and with a handler that consents to
  the client's credentials or with no handler at all, every history of the two sides, the handler and the wire can be continued
  to a state in which both are ready and nothing is left to do, and no history is infinite; no step fails or
  aborts. Each side then has the properties and, if it wants it, the identity that the other announced, and the user id
  is the handler's.\<close>

theorem plain_handshake_completes:
  assumes "hs_compatible e" "h \<longrightarrow> hs_consents e w uid" "(hs_step e)\<^sup>*\<^sup>* (hs_init h w) y"
  shows "\<exists>t. (hs_step e)\<^sup>*\<^sup>* y t \<and> (\<forall>a. hs_act e a t = None) \<and> termip (hs_step e) (hs_init h w) \<and> y_ok t \<and>
             client_status (y_client t) = status_ready \<and> server_status (y_server t) = status_ready \<and>
             map_of (zmtp_properties (pc_mech (y_client t))) = map_of (sent_properties (e_server e)) \<and>
             map_of (zmtp_properties (ps_mech (y_server t))) = map_of (sent_properties (e_client e)) \<and>
             peer_id (ps_mech (y_server t)) = last_identity (e_server e) (sent_properties (e_client e)) [] \<and>
             (h \<longrightarrow> user_id (ps_mech (y_server t)) = uid)"
proof -
  let ?c = "e_client e" and ?s = "e_server e"
  let ?m = "if h then set_user_id uid mech_new else mech_new" and ?z = "if h then zap_busy w (hs_asked e w) [] else zap_new False w"
  have comp: "o_type ?c \<le> 10" "o_type ?s \<le> 10" "length (o_identity ?c) \<le> 255" "length (o_identity ?s) \<le> 255"
    "length (o_username ?c) < 256" "length (o_password ?c) < 256"
    "check_socket_type ?s (bytes (type_names ! o_type ?c))" "check_socket_type ?c (bytes (type_names ! o_type ?s))"
    using assms(1) by (auto simp: hs_compatible_def)
  have m0: "zmtp_properties ?m = []" "peer_id ?m = []" by (simp_all add: set_user_id_def mech_new_def)
  obtain bc mS where S: "add_metadata ?c = Some bc" "parse_metadata ?s False bc ?m = (Inr (), mS)"
    "map_of (zmtp_properties mS) = map_of (sent_properties ?c)" "peer_id mS = last_identity ?s (sent_properties ?c) []" "user_id mS = user_id ?m"
    by (rule metadata_exchange [OF comp(1,3,7) m0])
  obtain bs mC where C: "add_metadata ?s = Some bs" "parse_metadata ?c False bs mech_new = (Inr (), mC)"
    "map_of (zmtp_properties mC) = map_of (sent_properties ?s)"
    by (rule metadata_exchange [OF comp(2,4,8), of mech_new]) (auto simp: mech_new_def)
  let ?t = "\<lparr>y_client = \<lparr>pc_state = client_ready, pc_mech = mC\<rparr>,
      y_server = \<lparr>ps_state = server_ready, ps_code = if h then bytes ''200'' else [], ps_mech = mS, ps_zap = ?z\<rparr>,
      y_cs = [], y_sc = [], y_replied = h, y_ok = True\<rparr>"
  have "hs_forced e (hs_accepted e h w uid) ?t"
    using forced_tail [OF _ _ S(1) C(1) S(2) C(2), of ?z h "if h then bytes ''200'' else []"]
    by (auto simp: zap_busy_def zap_new_def hs_accepted_def hs_waiting_def split: if_splits)
  then have forced: "hs_forced e (hs_init h w) ?t"
    by (rule forced_head [OF comp(5,6) assms(2)])
  show ?thesis
    using forced_always [OF forced assms(3)] forced_last [OF forced] forced_ends [OF forced] S(3,4,5) C(3)
    by (intro exI [of _ ?t]) (auto simp: client_status_def server_status_def set_user_id_def)
qed

theorem plain_handshake_completes_witness:
  "\<exists>t. (hs_step \<lparr>e_client = \<lparr>o_type = ZMQ_REQ, o_identity = [1], o_recv_identity = False, o_zap_domain = [], o_username = [2], o_password = [3]\<rparr>,
                 e_server = \<lparr>o_type = ZMQ_ROUTER, o_identity = [], o_recv_identity = True, o_zap_domain = [], o_username = [], o_password = []\<rparr>,
                 e_addr = [], e_answer = \<lambda>_. accept_frames [4]\<rparr>)\<^sup>*\<^sup>* (hs_init True True) t \<and>
       client_status (y_client t) = status_ready \<and> server_status (y_server t) = status_ready \<and>
       peer_id (ps_mech (y_server t)) = [1] \<and> user_id (ps_mech (y_server t)) = [4]"
proof -
  let ?c = "\<lparr>o_type = ZMQ_REQ, o_identity = [1], o_recv_identity = False, o_zap_domain = [], o_username = [2], o_password = [3]\<rparr>"
  let ?s = "\<lparr>o_type = ZMQ_ROUTER, o_identity = [], o_recv_identity = True, o_zap_domain = [], o_username = [], o_password = []\<rparr>"
  let ?e = "\<lparr>e_client = ?c, e_server = ?s, e_addr = [], e_answer = \<lambda>_. accept_frames [4]\<rparr>"
  have "hs_compatible ?e" by (simp add: hs_compatible_def socket_types check_socket_type_def type_names_def)
  moreover have "True \<longrightarrow> hs_consents ?e True [4]" by (simp add: hs_consents_def accept_frames_reply)
  moreover have "last_identity ?s (sent_properties ?c) [] = [1]" by (simp add: last_identity_def sent_properties_def)
  ultimately show ?thesis
    using plain_handshake_completes [of ?e True True "[4]" "hs_init True True"] by auto
qed

end
