(* ===== verification/Null.thy ===== *)
theory Null
  imports Mechanism
begin

text \<open>
  The NULL mechanism (src/libzmq/src/null_mechanism.cpp): both sides send their metadata; with a ZAP domain set a handler is asked
  first. The pipe to the handler belongs to the session, not to the mechanism.
\<close>

section \<open>State\<close>

record nullm =
  n_code :: blob
  n_ready_sent :: bool
  n_error_sent :: bool
  n_ready_received :: bool
  n_error_received :: bool
  n_zap_connected :: bool
  n_request_sent :: bool
  n_reply_received :: bool
  n_mech :: mech
  n_zap :: zap

text \<open>The constructor; the argument is the session's connection to a handler. The status code is not initialised and not read
  before a reply has set it.\<close>

definition null_mechanism :: "mech_options \<Rightarrow> zap \<Rightarrow> nullm option" where
  "null_mechanism o' z =
     (let n = (\<lambda>c z. \<lparr>n_code = [], n_ready_sent = False, n_error_sent = False, n_ready_received = False, n_error_received = False,
                    n_zap_connected = c, n_request_sent = False, n_reply_received = False, n_mech = mech_new, n_zap = z\<rparr>)
      in if o_zap_domain o' = [] then Some (n False z)
         else do { (ok, z) \<leftarrow> zap_connect z; Some (n ok z) })"

section \<open>Operations\<close>

definition null_zap_request :: "mech_options \<Rightarrow> blob \<Rightarrow> pmsg list" where
  "null_zap_request o' addr = zap_request o' addr [bytes ''NULL'']"

definition null_receive_reply :: "mech_options \<Rightarrow> nullm \<Rightarrow> (errno + unit) \<times> nullm" where
  "null_receive_reply o' n =
     (let (r, code, m, z) = receive_zap_reply o' EPROTO (n_code n) (n_mech n) (n_zap n)
      in (r, n\<lparr>n_code := code, n_mech := m, n_zap := z\<rparr>))"

text \<open>The command itself, once the handler has been asked.\<close>

definition null_produce :: "mech_options \<Rightarrow> nullm \<Rightarrow> ((errno + blob) \<times> nullm) option" where
  "null_produce o' n =
     (if n_reply_received n \<and> n_code n \<noteq> bytes ''200''
      then Some (Inr (cmd_name ''ERROR'' @ 3 # n_code n), n\<lparr>n_error_sent := True\<rparr>)
      else do { ps \<leftarrow> add_metadata o'; Some (Inr (cmd_name ''READY'' @ ps), n\<lparr>n_ready_sent := True\<rparr>) })"

definition null_next_handshake_command :: "mech_options \<Rightarrow> blob \<Rightarrow> nullm \<Rightarrow> ((errno + blob) \<times> nullm) option" where
  "null_next_handshake_command o' addr n =
     (if n_ready_sent n \<or> n_error_sent n then Some (Inl EAGAIN, n)
      else if n_zap_connected n \<and> \<not> n_reply_received n
      then if n_request_sent n then Some (Inl EAGAIN, n)
           else do {
             z \<leftarrow> write_zap_msgs (null_zap_request o' addr) (n_zap n);
             (case null_receive_reply o' (n\<lparr>n_zap := z, n_request_sent := True\<rparr>) of
                (Inl e, n) \<Rightarrow> Some (Inl e, n)
              | (Inr _, n) \<Rightarrow> null_produce o' (n\<lparr>n_reply_received := True\<rparr>)) }
      else null_produce o' n)"

definition process_ready_command :: "mech_options \<Rightarrow> blob \<Rightarrow> nullm \<Rightarrow> (errno + unit) \<times> nullm" where
  "process_ready_command o' d n =
     (case parse_metadata o' False (drop 6 d) (n_mech n) of (r, m) \<Rightarrow> (r, n\<lparr>n_ready_received := True, n_mech := m\<rparr>))"

definition process_error_command :: "blob \<Rightarrow> nullm \<Rightarrow> (errno + unit) \<times> nullm" where
  "process_error_command d n =
     (if length d < 7 then (Inl EPROTO, n)
      else if unat (d ! 6) > length d - 7 then (Inl EPROTO, n)
      else (Inr (), n\<lparr>n_error_received := True\<rparr>))"

definition null_process_handshake_command :: "mech_options \<Rightarrow> blob \<Rightarrow> nullm \<Rightarrow> (errno + unit) \<times> nullm" where
  "null_process_handshake_command o' d n =
     (if n_ready_received n \<or> n_error_received n then (Inl EPROTO, n)
      else if has_name ''READY'' d then process_ready_command o' d n
      else if has_name ''ERROR'' d then process_error_command d n
      else (Inl EPROTO, n))"

definition null_zap_msg_available :: "mech_options \<Rightarrow> nullm \<Rightarrow> (errno + unit) \<times> nullm" where
  "null_zap_msg_available o' n =
     (if n_reply_received n then (Inl EFSM, n)
      else (case null_receive_reply o' n of
              (Inl e, n) \<Rightarrow> (Inl e, n)
            | (Inr _, n) \<Rightarrow> (Inr (), n\<lparr>n_reply_received := True\<rparr>)))"

definition null_status :: "nullm \<Rightarrow> mech_status" where
  "null_status n =
     (let sent = (n_ready_sent n \<or> n_error_sent n); received = (n_ready_received n \<or> n_error_received n)
      in if n_ready_sent n \<and> n_ready_received n then status_ready
         else if sent \<and> received then status_error
         else handshaking)"

section \<open>Histories\<close>

text \<open>The termination of the session's pipe to the handler (\<open>session_base_t::pipe_terminated\<close>, src/libzmq/src/session_base.cpp); frames that
  were not read are lost with it.\<close>

definition zap_terminated :: "zap \<Rightarrow> zap" where
  "zap_terminated z = z\<lparr>zap_pipe := False, zap_in := []\<rparr>"

text \<open>A connection from the construction of the mechanism on; the run keeps the frames that the handler has sent. The handler may
  close its end of the pipe at any time.\<close>

inductive null_run :: "mech_options \<Rightarrow> blob \<Rightarrow> zap \<Rightarrow> nullm \<Rightarrow> pmsg list \<Rightarrow> bool"
  for o' addr z where
  null_start: "null_mechanism o' z = Some n \<Longrightarrow> null_run o' addr z n (zap_in z)"
| null_command: "null_run o' addr z n rs \<Longrightarrow> null_process_handshake_command o' d n = (r, n') \<Longrightarrow> null_run o' addr z n' rs"
| null_next: "null_run o' addr z n rs \<Longrightarrow> null_next_handshake_command o' addr n = Some (r', n') \<Longrightarrow> null_run o' addr z n' rs"
| null_deliver: "null_run o' addr z n rs \<Longrightarrow> zap_pipe (n_zap n) \<Longrightarrow>
    null_run o' addr z (n\<lparr>n_zap := n_zap n\<lparr>zap_in := zap_in (n_zap n) @ [f]\<rparr>\<rparr>) (rs @ [f])"
| null_available: "null_run o' addr z n rs \<Longrightarrow> null_zap_msg_available o' n = (r, n') \<Longrightarrow> null_run o' addr z n' rs"
| null_closed: "null_run o' addr z n rs \<Longrightarrow> null_run o' addr z (n\<lparr>n_zap := zap_terminated (n_zap n)\<rparr>) rs"

definition has_reply :: "blob \<Rightarrow> blob \<Rightarrow> pmsg list \<Rightarrow> bool" where
  "has_reply c u d \<longleftrightarrow> (\<exists>a fs b. d = a @ fs @ b \<and> zap_reply c u fs)"

lemma has_reply_last: "zap_reply c u fs \<Longrightarrow> has_reply c u (a @ fs)"
  unfolding has_reply_def by (metis append_Nil2)

lemma has_reply_later: "has_reply c u d \<Longrightarrow> has_reply c u (d @ e)"
  unfolding has_reply_def by (metis append.assoc)

definition null_inv :: "nullm \<Rightarrow> pmsg list \<Rightarrow> bool" where
  "null_inv n rs \<longleftrightarrow>
     (n_zap_connected n \<longrightarrow> n_ready_sent n \<longrightarrow> n_reply_received n \<and> n_code n = bytes ''200'') \<and>
     (\<exists>d. rs = d @ zap_in (n_zap n) \<and> (n_reply_received n \<longrightarrow> has_reply (n_code n) (user_id (n_mech n)) d))"

lemma null_reply_inv:
  assumes "null_inv n rs" "n_zap_connected n \<longrightarrow> \<not> n_ready_sent n" "null_receive_reply o' n = (r, n')"
  shows "null_inv (n'\<lparr>n_reply_received := (r = Inr ())\<rparr>) rs \<and> n_ready_sent n' = n_ready_sent n \<and>
         n_reply_received n' = n_reply_received n \<and> n_zap_connected n' = n_zap_connected n"
proof -
  obtain c m z where rc: "receive_zap_reply o' EPROTO (n_code n) (n_mech n) (n_zap n) = (r, c, m, z)"
    and n': "n' = n\<lparr>n_code := c, n_mech := m, n_zap := z\<rparr>"
    using assms(3) by (auto simp: null_receive_reply_def split: prod.splits)
  from receive_zap_reply_spec [OF rc] obtain ms where
    ms: "n_zap n = z\<lparr>zap_in := ms @ zap_in z\<rparr>" "r = Inr () \<longrightarrow> zap_reply c (user_id m) ms" by blast
  obtain d where d: "rs = d @ zap_in (n_zap n)" using assms(1) by (auto simp: null_inv_def)
  have "rs = (d @ ms) @ zap_in z" using d ms(1) by simp
  moreover have "r = Inr () \<longrightarrow> has_reply c (user_id m) (d @ ms)" using ms(2) has_reply_last by blast
  ultimately have "null_inv (n'\<lparr>n_reply_received := (r = Inr ())\<rparr>) rs"
    using assms(1,2) n' unfolding null_inv_def by auto
  then show ?thesis using n' by simp
qed

lemma null_produce_inv:
  assumes "null_inv n rs" "null_produce o' n = Some (r, n')" "n_zap_connected n \<longrightarrow> n_reply_received n"
  shows "null_inv n' rs"
  using assms by (auto simp: null_produce_def null_inv_def bind_eq_Some_conv split: if_splits)

lemma null_next_inv:
  assumes inv: "null_inv n rs" and run: "null_next_handshake_command o' addr n = Some (r, n')"
  shows "null_inv n' rs"
proof (cases "n_ready_sent n \<or> n_error_sent n \<or> n_zap_connected n \<and> \<not> n_reply_received n \<and> n_request_sent n")
  case True
  then have "n' = n" using run by (auto simp: null_next_handshake_command_def split: if_splits)
  then show ?thesis using inv by simp
next
  case idle: False
  show ?thesis
  proof (cases "n_zap_connected n \<and> \<not> n_reply_received n")
    case True
    define n1 where "n1 = n\<lparr>n_zap := n_zap n\<lparr>zap_out := zap_out (n_zap n) @ null_zap_request o' addr\<rparr>, n_request_sent := True\<rparr>"
    have inv1: "null_inv n1 rs" using inv by (auto simp: null_inv_def n1_def)
    obtain a n2 where rc: "null_receive_reply o' n1 = (a, n2)" by fastforce
    have "zap_pipe (n_zap n)"
      using run idle True by (auto simp: null_next_handshake_command_def write_zap_msgs_eq null_zap_request_def zap_request_def split: if_splits)
    then have res: "(case a of Inl e \<Rightarrow> Some (Inl e, n2) | Inr _ \<Rightarrow> null_produce o' (n2\<lparr>n_reply_received := True\<rparr>)) = Some (r, n')"
      using run idle True rc by (simp add: null_next_handshake_command_def write_zap_msgs_eq n1_def)
    have keep: "null_inv (n2\<lparr>n_reply_received := (a = Inr ())\<rparr>) rs" "\<not> n_reply_received n2"
      using null_reply_inv [OF inv1 _ rc] idle True by (auto simp: n1_def)
    show ?thesis
    proof (cases a)
      case (Inl e)
      moreover have "n2\<lparr>n_reply_received := False\<rparr> = n2" using keep(2) by (cases n2) simp
      ultimately show ?thesis using res keep(1) by simp
    next
      case (Inr x)
      then show ?thesis using res keep(1) by (auto intro: null_produce_inv)
    qed
  next
    case False
    then show ?thesis using inv run idle by (auto simp: null_next_handshake_command_def intro: null_produce_inv)
  qed
qed

lemma null_available_inv:
  assumes inv: "null_inv n rs" and run: "null_zap_msg_available o' n = (r, n')"
  shows "null_inv n' rs"
proof (cases "n_reply_received n")
  case True
  then show ?thesis using assms by (simp add: null_zap_msg_available_def)
next
  case False
  obtain a n2 where rc: "null_receive_reply o' n = (a, n2)" by fastforce
  have keep: "null_inv (n2\<lparr>n_reply_received := (a = Inr ())\<rparr>) rs" "\<not> n_reply_received n2"
    using null_reply_inv [OF inv _ rc] inv False by (auto simp: null_inv_def)
  have "n' = n2\<lparr>n_reply_received := (a = Inr ())\<rparr>"
    using run False rc keep(2) by (cases n2) (auto simp: null_zap_msg_available_def split: sum.splits)
  then show ?thesis using keep(1) by simp
qed

lemma null_command_inv:
  assumes inv: "null_inv n rs" and run: "null_process_handshake_command o' d n = (r, n')"
  shows "null_inv n' rs"
proof -
  have "n_zap n' = n_zap n \<and> n_zap_connected n' = n_zap_connected n \<and> n_ready_sent n' = n_ready_sent n \<and> n_code n' = n_code n \<and>
        n_reply_received n' = n_reply_received n \<and> user_id (n_mech n') = user_id (n_mech n)"
    using run parse_metadata_user [of o' False "drop 6 d" "n_mech n"]
    by (auto simp: null_process_handshake_command_def process_ready_command_def process_error_command_def split: if_splits prod.splits)
  then show ?thesis using inv by (simp add: null_inv_def)
qed

lemma null_run_inv: "null_run o' addr z n rs \<Longrightarrow> null_inv n rs"
proof (induction rule: null_run.induct)
  case (null_start n)
  then show ?case
    by (auto simp: null_mechanism_def null_inv_def zap_connect_def Let_def bind_eq_Some_conv split: if_splits)
next
  case (null_deliver n rs f)
  then show ?case by (fastforce simp: null_inv_def)
next
  case (null_closed n rs)
  then show ?case by (auto simp: null_inv_def zap_terminated_def intro: has_reply_later)
qed (blast intro: null_command_inv null_next_inv null_available_inv)+

text \<open>The connection to a handler is made once, by the constructor.\<close>

lemma null_connected_const:
  "null_process_handshake_command o' d n = (r, n') \<Longrightarrow> n_zap_connected n' = n_zap_connected n"
  "null_next_handshake_command o' addr n = Some (r', n') \<Longrightarrow> n_zap_connected n' = n_zap_connected n"
  "null_zap_msg_available o' n = (r, n') \<Longrightarrow> n_zap_connected n' = n_zap_connected n"
proof -
  have rc: "n_zap_connected n2 = n_zap_connected n1" if "null_receive_reply o' n1 = (a, n2)" for a n1 n2
    using that by (auto simp: null_receive_reply_def split: prod.splits)
  have pr: "n_zap_connected n2 = n_zap_connected n1" if "null_produce o' n1 = Some (a, n2)" for a n1 n2
    using that by (auto simp: null_produce_def bind_eq_Some_conv split: if_splits)
  show "null_process_handshake_command o' d n = (r, n') \<Longrightarrow> n_zap_connected n' = n_zap_connected n"
    by (auto simp: null_process_handshake_command_def process_ready_command_def process_error_command_def split: if_splits prod.splits)
  show "null_next_handshake_command o' addr n = Some (r', n') \<Longrightarrow> n_zap_connected n' = n_zap_connected n"
    by (auto simp: null_next_handshake_command_def write_zap_msgs_eq dest!: rc pr split: if_splits prod.splits sum.splits)
  show "null_zap_msg_available o' n = (r, n') \<Longrightarrow> n_zap_connected n' = n_zap_connected n"
    by (auto simp: null_zap_msg_available_def dest!: rc split: if_splits prod.splits sum.splits)
qed

lemma null_run_delivers:
  assumes "null_run o' addr z n rs" "zap_pipe (n_zap n)"
  shows "null_run o' addr z (n\<lparr>n_zap := n_zap n\<lparr>zap_in := zap_in (n_zap n) @ fs\<rparr>\<rparr>) (rs @ fs)"
proof (induction fs rule: rev_induct)
  case Nil
  then show ?case using assms(1) by simp
next
  case (snoc f fs)
  from null_deliver [OF this, of f] show ?case using assms(2) by simp
qed

section \<open>Properties\<close>

text \<open>C11: No peer gets past a NULL mechanism with a ZAP domain without the handler's consent. Over every history, once the
  mechanism is ready and is connected to a handler, the handler's frames contain a complete and well-formed reply with status 200, and
  the user id of the connection is the one of that reply.\<close>

theorem null_authenticates:
  assumes "null_run o' addr z n rs" "null_status n = status_ready" "n_zap_connected n"
  shows "\<exists>a fs b. rs = a @ fs @ b \<and> zap_reply (bytes ''200'') (user_id (n_mech n)) fs"
proof -
  have "n_ready_sent n" using assms(2) by (auto simp: null_status_def Let_def split: if_splits)
  then show ?thesis
    using null_run_inv [OF assms(1)] assms(3) by (fastforce simp: null_inv_def has_reply_def)
qed

theorem null_authenticates_witness:
  "\<exists>n rs. null_run \<lparr>o_type = ZMQ_PULL, o_identity = [], o_recv_identity = False, o_zap_domain = [1], o_username = [], o_password = []\<rparr> [] (zap_new True False) n rs \<and>
       null_status n = status_ready \<and> n_zap_connected n \<and> (\<exists>a fs b. rs = a @ fs @ b \<and> zap_reply (bytes ''200'') (user_id (n_mech n)) fs)"
proof -
  let ?o = "\<lparr>o_type = ZMQ_PULL, o_identity = [], o_recv_identity = False, o_zap_domain = [1], o_username = [], o_password = []\<rparr>"
  let ?run = "null_run ?o [] (zap_new True False)"
  let ?n = "\<lambda>c s g rr m inn. \<lparr>n_code = c, n_ready_sent = s, n_error_sent = False, n_ready_received = g, n_error_received = False,
      n_zap_connected = True, n_request_sent = False, n_reply_received = rr, n_mech = m, n_zap = zap_busy False [] inn\<rparr>"
  let ?f = "accept_frames [4]" and ?m = "set_user_id [4] mech_new"
  have "null_mechanism ?o (zap_new True False) = Some (?n [] False False False mech_new [])"
    by (simp add: null_mechanism_def zap_connect_def zap_new_def zap_busy_def)
  from null_run_delivers [OF null_start [OF this], where fs = ?f] have "?run (?n [] False False False mech_new ?f) ?f"
    by (simp add: zap_busy_def zap_new_def)
  moreover have "null_zap_msg_available ?o (?n [] False False False mech_new ?f) = (Inr (), ?n (bytes ''200'') False False True ?m [])"
    using receive_accepted [of "[4]" ?f ?o EPROTO "[]" mech_new False "[]"] accept_frames_reply [of "[4]"]
    by (simp add: null_zap_msg_available_def null_receive_reply_def)
  ultimately have "?run (?n (bytes ''200'') False False True ?m []) ?f" by (rule null_available)
  from null_command [OF this, of "cmd_name ''READY''"] have "?run (?n (bytes ''200'') False True True ?m []) ?f"
    using has_name_append [of "''READY''" "[]"] by (simp add: null_process_handshake_command_def process_ready_command_def)
  moreover obtain d where "add_metadata ?o = Some d" using add_metadata_ok [of ?o] by (auto simp: socket_types)
  ultimately have run: "?run (?n (bytes ''200'') True True True ?m []) ?f"
    using null_next [of ?o "[]" "zap_new True False" "?n (bytes ''200'') False True True ?m []" ?f]
    by (simp add: null_next_handshake_command_def null_produce_def)
  have st: "null_status (?n (bytes ''200'') True True True ?m []) = status_ready" by (simp add: null_status_def)
  from null_authenticates [OF run st] show ?thesis using run st by fastforce
qed

end
