(* ===== verification/Session.thy ===== *)
theory Session
  imports Routersys Mechanism
begin

text \<open>
  The session (src/libzmq/src/session_base.cpp), the object of an I/O thread between an engine and a socket: its pipe, the pipe to a ZAP
  handler, pipes whose termination is under way, reconnection, and termination with a linger period. Pipes are addresses in a
  pool. The filter of a REQ session (src/libzmq/src/req.cpp) stands in front of \<open>push_msg\<close>.
\<close>

section \<open>State\<close>

record sess_options =
  so_type :: nat
  so_immediate :: bool
  so_raw_sock :: bool
  so_reconnects :: bool
  so_multicast :: bool
  so_conflate :: bool
  so_rcvhwm :: int
  so_sndhwm :: int

text \<open>What a session does to other objects: the connecter it starts, its own termination, the engine, the timer, the socket.\<close>

datatype seffect =
  Start_connecting bool | Own_process_term | Terminate | Engine_terminate | Engine_restart_output | Engine_restart_input |
  Engine_zap_msg_available | Engine_plug | Add_timer int | Cancel_timer | Send_bind

record session =
  ss_active :: bool
  ss_pipe :: "addr option"
  ss_zap_pipe :: "addr option"
  ss_terminating_pipes :: "addr set"
  ss_incomplete_in :: bool
  ss_pending :: bool
  ss_engine :: bool
  ss_has_linger_timer :: bool
  ss_is_terminating :: bool
  ss_effects :: "seffect list"

definition session_new :: "bool \<Rightarrow> session" where
  "session_new active =
     \<lparr>ss_active = active, ss_pipe = None, ss_zap_pipe = None, ss_terminating_pipes = {}, ss_incomplete_in = False, ss_pending = False,
      ss_engine = False, ss_has_linger_timer = False, ss_is_terminating = False, ss_effects = []\<rparr>"

definition emit :: "seffect \<Rightarrow> session \<Rightarrow> session" where
  "emit x s = s\<lparr>ss_effects := ss_effects s @ [x]\<rparr>"

section \<open>Messages\<close>

definition attach_pipe :: "addr \<Rightarrow> session \<Rightarrow> session option" where
  "attach_pipe p s =
     do { zmq_assert (\<not> ss_is_terminating s); zmq_assert (ss_pipe s = None); Some (s\<lparr>ss_pipe := Some p\<rparr>) }"

definition pull_msg :: "session \<Rightarrow> pool \<Rightarrow> ((errno + pmsg) \<times> session \<times> pool) option" where
  "pull_msg s w =
     (case ss_pipe s of
        None \<Rightarrow> Some (Inl EAGAIN, s, w)
      | Some p \<Rightarrow> do { (r, w) \<leftarrow> pool_op p pipe_read w;
                       Some (case r of None \<Rightarrow> (Inl EAGAIN, s, w) | Some m \<Rightarrow> (Inr m, s\<lparr>ss_incomplete_in := pm_more m\<rparr>, w)) })"

definition push_msg :: "bool \<Rightarrow> pmsg \<Rightarrow> session \<Rightarrow> pool \<Rightarrow> ((errno + unit) \<times> pool) option" where
  "push_msg lk m s w =
     (case ss_pipe s of
        None \<Rightarrow> Some (Inl EAGAIN, w)
      | Some p \<Rightarrow> do { (ok, w) \<leftarrow> pool_op p (pipe_write lk m) w; Some (if ok then Inr () else Inl EAGAIN, w) })"

definition session_flush :: "session \<Rightarrow> pool \<Rightarrow> pool option" where
  "session_flush s w = (case ss_pipe s of None \<Rightarrow> Some w | Some p \<Rightarrow> pool_do p pipe_flush w)"

text \<open>The loop that removes a half-read message.\<close>

partial_function (option) clean_in :: "session \<Rightarrow> pool \<Rightarrow> (session \<times> pool) option" where
  "clean_in s w =
     (if \<not> ss_incomplete_in s then Some (s, w)
      else do { (r, s, w) \<leftarrow> pull_msg s w; zmq_assert (\<not> isl r); clean_in s w })"

declare clean_in.simps [code]

definition clean_pipes :: "session \<Rightarrow> pool \<Rightarrow> (session \<times> pool) option" where
  "clean_pipes s w = do { p \<leftarrow> ss_pipe s; w \<leftarrow> pool_do p pipe_rollback w; w \<leftarrow> pool_do p pipe_flush w; clean_in s w }"

section \<open>Events of pipes\<close>

text \<open>\<open>own_t::process_term (0)\<close>.\<close>

definition own_process_term :: "session \<Rightarrow> session option" where
  "own_process_term s = do { zmq_assert (\<not> ss_is_terminating s); Some (emit Own_process_term (s\<lparr>ss_is_terminating := True\<rparr>)) }"

definition no_pipes :: "session \<Rightarrow> bool" where
  "no_pipes s \<longleftrightarrow> ss_pipe s = None \<and> ss_zap_pipe s = None \<and> ss_terminating_pipes s = {}"

definition pipe_terminated :: "sess_options \<Rightarrow> addr \<Rightarrow> session \<Rightarrow> session option" where
  "pipe_terminated o' p s =
     do { zmq_assert (ss_pipe s = Some p \<or> ss_zap_pipe s = Some p \<or> p \<in> ss_terminating_pipes s);
          let s = (if ss_pipe s = Some p
                   then (let s = s\<lparr>ss_pipe := None\<rparr>
                         in if ss_has_linger_timer s then emit Cancel_timer (s\<lparr>ss_has_linger_timer := False\<rparr>) else s)
                   else if ss_zap_pipe s = Some p then s\<lparr>ss_zap_pipe := None\<rparr>
                   else s\<lparr>ss_terminating_pipes := ss_terminating_pipes s - {p}\<rparr>);
          let s = (if \<not> ss_is_terminating s \<and> so_raw_sock o'
                   then emit Terminate (if ss_engine s then emit Engine_terminate (s\<lparr>ss_engine := False\<rparr>) else s)
                   else s);
          if ss_pending s \<and> no_pipes s then own_process_term (s\<lparr>ss_pending := False\<rparr>) else Some s }"

definition read_activated :: "addr \<Rightarrow> session \<Rightarrow> pool \<Rightarrow> (session \<times> pool) option" where
  "read_activated p s w =
     (if ss_pipe s \<noteq> Some p \<and> ss_zap_pipe s \<noteq> Some p then do { zmq_assert (p \<in> ss_terminating_pipes s); Some (s, w) }
      else if \<not> ss_engine s then do { q \<leftarrow> ss_pipe s; (_, w) \<leftarrow> pool_op q pipe_check_read w; Some (s, w) }
      else Some (emit (if ss_pipe s = Some p then Engine_restart_output else Engine_zap_msg_available) s, w))"

definition write_activated :: "addr \<Rightarrow> session \<Rightarrow> session option" where
  "write_activated p s =
     (if ss_pipe s \<noteq> Some p then do { zmq_assert (p \<in> ss_terminating_pipes s); Some s }
      else Some (if ss_engine s then emit Engine_restart_input s else s))"

text \<open>Hiccups go from the session to the socket only.\<close>

definition session_hiccuped :: "session option" where "session_hiccuped = None"

section \<open>Connecting\<close>

definition start_connecting :: "bool \<Rightarrow> session \<Rightarrow> session option" where
  "start_connecting wait s = do { zmq_assert (ss_active s); Some (emit (Start_connecting wait) s) }"

definition process_plug :: "session \<Rightarrow> session option" where
  "process_plug s = (if ss_active s then start_connecting False s else Some s)"

text \<open>The session's end of a new pipe to the socket.\<close>

definition session_pipe :: "sess_options \<Rightarrow> pctx" where
  "session_pipe o' =
     (let confl = (so_conflate o' \<and> so_type o' \<in> {ZMQ_DEALER, ZMQ_PULL, ZMQ_PUSH, ZMQ_PUB, ZMQ_SUB});
          pp = pipepair (if confl then -1 else so_rcvhwm o') (if confl then -1 else so_sndhwm o') confl confl
      in ctx_of (the (ends pp False)) pp)"

definition process_attach :: "sess_options \<Rightarrow> session \<Rightarrow> pool \<Rightarrow> (session \<times> pool) option" where
  "process_attach o' s w =
     do { let (s, w) = (if ss_pipe s = None \<and> \<not> ss_is_terminating s
                        then (let (p, w) = heap_alloc w (session_pipe o') in (emit Send_bind (s\<lparr>ss_pipe := Some p\<rparr>), w))
                        else (s, w));
          zmq_assert (\<not> ss_engine s);
          Some (emit Engine_plug (s\<lparr>ss_engine := True\<rparr>), w) }"

text \<open>The connection to a ZAP handler as far as the session's state goes: the pipe \<open>p\<close> is new.\<close>

definition session_zap_connect :: "addr \<Rightarrow> session \<Rightarrow> session option" where
  "session_zap_connect p s = do { zmq_assert (ss_zap_pipe s = None); Some (s\<lparr>ss_zap_pipe := Some p\<rparr>) }"

text \<open>\<open>reset\<close> concerns the filter of a REQ session only (below).\<close>

definition reconnect :: "bool \<Rightarrow> sess_options \<Rightarrow> session \<Rightarrow> pool \<Rightarrow> (session \<times> pool) option" where
  "reconnect lk o' s w =
     do { (s, w) \<leftarrow> (case ss_pipe s of
                      Some p \<Rightarrow>
                        if so_immediate o' \<and> \<not> so_multicast o'
                        then do { w \<leftarrow> pool_do p (\<lambda>c. Some (pipe_hiccup c)) w;
                                  w \<leftarrow> pool_do p (pipe_terminate lk False) w;
                                  Some (s\<lparr>ss_terminating_pipes := insert p (ss_terminating_pipes s), ss_pipe := None\<rparr>, w) }
                        else Some (s, w)
                    | None \<Rightarrow> Some (s, w));
          s \<leftarrow> (if so_reconnects o' then start_connecting True s else Some s);
          case ss_pipe s of
            Some p \<Rightarrow> if so_type o' \<in> {ZMQ_SUB, ZMQ_XSUB} then do { w \<leftarrow> pool_do p (\<lambda>c. Some (pipe_hiccup c)) w; Some (s, w) }
                      else Some (s, w)
          | None \<Rightarrow> Some (s, w) }"

section \<open>The end of an engine and of the session\<close>

datatype error_reason = protocol_error | connection_error | timeout_error

definition check_pipe :: "addr option \<Rightarrow> pool \<Rightarrow> pool option" where
  "check_pipe p w = (case p of None \<Rightarrow> Some w | Some p \<Rightarrow> map_option snd (pool_op p pipe_check_read w))"

definition engine_error :: "bool \<Rightarrow> sess_options \<Rightarrow> error_reason \<Rightarrow> session \<Rightarrow> pool \<Rightarrow> (session \<times> pool) option" where
  "engine_error lk o' reason s w =
     do { let s = s\<lparr>ss_engine := False\<rparr>;
          (s, w) \<leftarrow> (if ss_pipe s \<noteq> None then clean_pipes s w else Some (s, w));
          (s, w) \<leftarrow> (case reason of
                      protocol_error \<Rightarrow> Some (emit Terminate s, w)
                    | _ \<Rightarrow> if ss_active s then reconnect lk o' s w else Some (emit Terminate s, w));
          w \<leftarrow> check_pipe (ss_pipe s) w;
          w \<leftarrow> check_pipe (ss_zap_pipe s) w;
          Some (s, w) }"

definition process_term :: "bool \<Rightarrow> int \<Rightarrow> session \<Rightarrow> pool \<Rightarrow> (session \<times> pool) option" where
  "process_term lk linger s w =
     do { zmq_assert (\<not> ss_pending s);
          if no_pipes s then do { s \<leftarrow> own_process_term s; Some (s, w) }
          else do {
            let s = s\<lparr>ss_pending := True\<rparr>;
            (s, w) \<leftarrow> (case ss_pipe s of
                        None \<Rightarrow> Some (s, w)
                      | Some p \<Rightarrow> do {
                          s \<leftarrow> (if linger > 0
                               then do { zmq_assert (\<not> ss_has_linger_timer s); Some (emit (Add_timer linger) (s\<lparr>ss_has_linger_timer := True\<rparr>)) }
                               else Some s);
                          w \<leftarrow> pool_do p (pipe_terminate lk (linger \<noteq> 0)) w;
                          (_, w) \<leftarrow> pool_op p pipe_check_read w;
                          Some (s, w) });
            case ss_zap_pipe s of
              None \<Rightarrow> Some (s, w)
            | Some z \<Rightarrow> do { w \<leftarrow> pool_do z (pipe_terminate lk False) w; Some (s, w) } } }"

definition timer_event :: "bool \<Rightarrow> session \<Rightarrow> pool \<Rightarrow> (session \<times> pool) option" where
  "timer_event lk s w =
     do { let s = s\<lparr>ss_has_linger_timer := False\<rparr>; p \<leftarrow> ss_pipe s; w \<leftarrow> pool_do p (pipe_terminate lk False) w; Some (s, w) }"

text \<open>The destructor.\<close>

definition session_delete :: "session \<Rightarrow> session option" where
  "session_delete s =
     do { zmq_assert (ss_pipe s = None); zmq_assert (ss_zap_pipe s = None);
          let s = (if ss_has_linger_timer s then emit Cancel_timer (s\<lparr>ss_has_linger_timer := False\<rparr>) else s);
          Some (if ss_engine s then emit Engine_terminate s else s) }"

section \<open>The filter of a REQ session\<close>

datatype req_state = bottom | body

definition req_push_msg :: "bool \<Rightarrow> pmsg \<Rightarrow> req_state \<Rightarrow> session \<Rightarrow> pool \<Rightarrow> ((errno + unit) \<times> req_state \<times> pool) option" where
  "req_push_msg lk m q s w =
     (let go = (\<lambda>q. do { (r, w) \<leftarrow> push_msg lk m s w; Some (r, q, w) })
      in case q of
           bottom \<Rightarrow> if pm_flags m = flag_more \<and> pm_data m = [] then go body else Some (Inl EFAULT, q, w)
         | body \<Rightarrow> if pm_flags m = flag_more then go body
                   else if pm_flags m = 0 then go bottom
                   else Some (Inl EFAULT, q, w))"

definition req_reset :: req_state where "req_reset = bottom"

section \<open>Histories\<close>

text \<open>
  What can happen to a session: calls of the engine and of the mechanism, events of its pipes, commands of its owner and its timer.
  The owner sends the command to terminate once. Between the steps the pool may change in any way, since the peers of the
  pipes act on their own.
\<close>

inductive session_run :: "sess_options \<Rightarrow> session \<Rightarrow> bool" for o' where
  sr_new: "session_run o' (session_new a)"
| sr_attach_pipe: "session_run o' s \<Longrightarrow> ss_zap_pipe s \<noteq> Some p \<Longrightarrow> p \<notin> ss_terminating_pipes s \<Longrightarrow> attach_pipe p s = Some s' \<Longrightarrow> session_run o' s'"
| sr_pull: "session_run o' s \<Longrightarrow> pull_msg s w = Some (r, s', w') \<Longrightarrow> session_run o' s'"
| sr_terminated: "session_run o' s \<Longrightarrow> pipe_terminated o' p s = Some s' \<Longrightarrow> session_run o' s'"
| sr_read_activated: "session_run o' s \<Longrightarrow> read_activated p s w = Some (s', w') \<Longrightarrow> session_run o' s'"
| sr_write_activated: "session_run o' s \<Longrightarrow> write_activated p s = Some s' \<Longrightarrow> session_run o' s'"
| sr_plug: "session_run o' s \<Longrightarrow> process_plug s = Some s' \<Longrightarrow> session_run o' s'"
| sr_zap: "session_run o' s \<Longrightarrow> ss_pipe s \<noteq> Some p \<Longrightarrow> p \<notin> ss_terminating_pipes s \<Longrightarrow> session_zap_connect p s = Some s' \<Longrightarrow> session_run o' s'"
| sr_attach: "session_run o' s \<Longrightarrow> 
    ss_zap_pipe s \<noteq> Some (fst (heap_alloc w (session_pipe o'))) \<Longrightarrow> fst (heap_alloc w (session_pipe o')) \<notin> ss_terminating_pipes s \<Longrightarrow>
    process_attach o' s w = Some (s', w') \<Longrightarrow> session_run o' s'"
| sr_error: "session_run o' s \<Longrightarrow> ss_engine s \<Longrightarrow> engine_error lk o' reason s w = Some (s', w') \<Longrightarrow> session_run o' s'"
| sr_term: "session_run o' s \<Longrightarrow> \<not> ss_pending s \<Longrightarrow> \<not> ss_is_terminating s \<Longrightarrow> process_term lk linger s w = Some (s', w') \<Longrightarrow> session_run o' s'"
| sr_timer: "session_run o' s \<Longrightarrow> ss_has_linger_timer s \<Longrightarrow> timer_event lk s w = Some (s', w') \<Longrightarrow> session_run o' s'"

definition session_inv :: "session \<Rightarrow> bool" where
  "session_inv s \<longleftrightarrow>
     (ss_pending s \<longrightarrow> \<not> no_pipes s \<and> \<not> ss_is_terminating s) \<and>
     (ss_is_terminating s \<longrightarrow> ss_pipe s = None \<and> ss_terminating_pipes s = {}) \<and>
     (ss_has_linger_timer s \<longrightarrow> ss_pending s \<or> ss_is_terminating s) \<and>
     count_list (ss_effects s) Own_process_term = (if ss_is_terminating s then 1 else 0)"

text \<open>The part of a session that the invariant speaks of.\<close>

definition inv_view :: "session \<Rightarrow> addr option \<times> addr option \<times> addr set \<times> bool \<times> bool \<times> bool \<times> nat" where
  "inv_view s = (ss_pipe s, ss_zap_pipe s, ss_terminating_pipes s, ss_pending s, ss_is_terminating s, ss_has_linger_timer s,
     count_list (ss_effects s) Own_process_term)"

lemma inv_view_same: "inv_view s' = inv_view s \<Longrightarrow> session_inv s \<Longrightarrow> session_inv s'"
  by (auto simp: inv_view_def session_inv_def no_pipes_def)

lemma inv_view_emit [simp]: "x \<noteq> Own_process_term \<Longrightarrow> inv_view (emit x s) = inv_view s"
  by (simp add: inv_view_def emit_def)

lemma inv_view_fields [simp]:
  "inv_view (s\<lparr>ss_incomplete_in := b\<rparr>) = inv_view s" "inv_view (s\<lparr>ss_engine := b\<rparr>) = inv_view s"
  by (simp_all add: inv_view_def)

lemma pull_msg_view: "pull_msg s w = Some (r, s', w') \<Longrightarrow> inv_view s' = inv_view s \<and> ss_active s' = ss_active s \<and> ss_engine s' = ss_engine s"
  by (auto simp: pull_msg_def bind_eq_Some_conv split: option.splits)

lemma clean_in_view:
  assumes "clean_in s w = Some r"
  shows "inv_view (fst r) = inv_view s \<and> ss_active (fst r) = ss_active s \<and> ss_engine (fst r) = ss_engine s"
proof (rule clean_in.raw_induct [where P = "\<lambda>s w r. inv_view (fst r) = inv_view s \<and> ss_active (fst r) = ss_active s \<and> ss_engine (fst r) = ss_engine s", OF _ assms])
  fix clean s w r
  assume ih: "\<And>s w r. clean s w = Some r \<Longrightarrow> inv_view (fst r) = inv_view s \<and> ss_active (fst r) = ss_active s \<and> ss_engine (fst r) = ss_engine s"
    and run: "(if \<not> ss_incomplete_in s then Some (s, w)
      else do { (r, s, w) \<leftarrow> pull_msg s w; zmq_assert (\<not> isl r); clean s w }) = Some r"
  show "inv_view (fst r) = inv_view s \<and> ss_active (fst r) = ss_active s \<and> ss_engine (fst r) = ss_engine s"
    using run by (auto simp: bind_eq_Some_conv split: if_splits dest!: ih pull_msg_view)
qed

lemma clean_pipes_view: "clean_pipes s w = Some (s', w') \<Longrightarrow> inv_view s' = inv_view s \<and> ss_active s' = ss_active s \<and> ss_engine s' = ss_engine s"
  by (auto simp: clean_pipes_def bind_eq_Some_conv dest!: clean_in_view)

lemma start_connecting_view: "start_connecting b s = Some s' \<Longrightarrow> inv_view s' = inv_view s"
  by (auto simp: start_connecting_def bind_eq_Some_conv)

text \<open>Reconnecting either leaves the pipes alone or gives the pipe up.\<close>

lemma reconnect_view:
  assumes "reconnect lk o' s w = Some (s', w')"
  shows "inv_view s' = inv_view s \<or>
    (\<exists>p. ss_pipe s = Some p \<and> inv_view s' = inv_view (s\<lparr>ss_terminating_pipes := insert p (ss_terminating_pipes s), ss_pipe := None\<rparr>))"
  using assms by (auto simp: reconnect_def bind_eq_Some_conv split: option.splits if_splits dest!: start_connecting_view)

lemma session_inv_give_up:
  assumes "session_inv s" "ss_pipe s = Some p"
  shows "session_inv (s\<lparr>ss_terminating_pipes := insert p (ss_terminating_pipes s), ss_pipe := None\<rparr>)"
  using assms by (auto simp: session_inv_def no_pipes_def)

lemma engine_error_inv:
  assumes inv: "session_inv s" and run: "engine_error lk o' reason s w = Some (s', w')"
  shows "session_inv s'"
proof -
  obtain s1 w1 s2 w2 where
    1: "(if ss_pipe s \<noteq> None then clean_pipes (s\<lparr>ss_engine := False\<rparr>) w else Some (s\<lparr>ss_engine := False\<rparr>, w)) = Some (s1, w1)"
    and 2: "(case reason of protocol_error \<Rightarrow> Some (emit Terminate s1, w1)
        | _ \<Rightarrow> if ss_active s1 then reconnect lk o' s1 w1 else Some (emit Terminate s1, w1)) = Some (s2, w2)"
    and 3: "s' = s2"
    using run by (auto simp: engine_error_def Let_def bind_eq_Some_conv)
  have "inv_view s1 = inv_view s"
    using 1 by (auto split: if_splits dest!: clean_pipes_view)
  then have inv1: "session_inv s1" using inv inv_view_same by blast
  have "inv_view s2 = inv_view s1 \<or> reconnect lk o' s1 w1 = Some (s2, w2)"
    using 2 by (auto split: error_reason.splits if_splits)
  then have "session_inv s2"
  proof
    assume "reconnect lk o' s1 w1 = Some (s2, w2)"
    from reconnect_view [OF this] show ?thesis using inv1 inv_view_same session_inv_give_up by blast
  qed (use inv1 inv_view_same in blast)
  then show ?thesis using 3 by simp
qed

lemma own_process_term_inv:
  "count_list (ss_effects s) Own_process_term = (if ss_is_terminating s then 1 else 0) \<Longrightarrow> no_pipes s \<Longrightarrow> \<not> ss_pending s \<Longrightarrow>
   own_process_term s = Some s' \<Longrightarrow> session_inv s'"
  by (auto simp: own_process_term_def session_inv_def no_pipes_def emit_def bind_eq_Some_conv)

lemma pipe_terminated_inv:
  assumes inv: "session_inv s" and run: "pipe_terminated o' p s = Some s'"
  shows "session_inv s'"
proof -
  define s1 where "s1 = (if ss_pipe s = Some p
      then (let s = s\<lparr>ss_pipe := None\<rparr> in if ss_has_linger_timer s then emit Cancel_timer (s\<lparr>ss_has_linger_timer := False\<rparr>) else s)
      else if ss_zap_pipe s = Some p then s\<lparr>ss_zap_pipe := None\<rparr>
      else s\<lparr>ss_terminating_pipes := ss_terminating_pipes s - {p}\<rparr>)"
  define s2 where "s2 = (if \<not> ss_is_terminating s1 \<and> so_raw_sock o'
      then emit Terminate (if ss_engine s1 then emit Engine_terminate (s1\<lparr>ss_engine := False\<rparr>) else s1) else s1)"
  have run2: "(if ss_pending s2 \<and> no_pipes s2 then own_process_term (s2\<lparr>ss_pending := False\<rparr>) else Some s2) = Some s'"
    using run by (simp add: pipe_terminated_def bind_eq_Some_conv s1_def [symmetric] s2_def [symmetric])
  have view: "inv_view s2 = inv_view s1" by (simp add: s2_def)
  have one: "count_list (ss_effects s1) Own_process_term = (if ss_is_terminating s1 then 1 else 0)"
    using inv by (auto simp: s1_def session_inv_def emit_def Let_def)
  have keep: "session_inv s1" if "\<not> (ss_pending s1 \<and> no_pipes s1)"
    using inv that by (auto simp: s1_def session_inv_def no_pipes_def emit_def Let_def split: if_splits)
  show ?thesis
  proof (cases "ss_pending s2 \<and> no_pipes s2")
    case True
    then show ?thesis
      using run2 view one own_process_term_inv [of "s2\<lparr>ss_pending := False\<rparr>" s'] by (simp add: inv_view_def no_pipes_def)
  next
    case False
    moreover from False have "\<not> (ss_pending s1 \<and> no_pipes s1)" using view by (simp add: inv_view_def no_pipes_def)
    ultimately show ?thesis using keep run2 inv_view_same [OF view] by (auto split: if_splits)
  qed
qed

lemma process_term_inv:
  assumes inv: "session_inv s" and np: "\<not> ss_pending s" "\<not> ss_is_terminating s" and run: "process_term lk linger s w = Some (s', w')"
  shows "session_inv s'"
proof (cases "no_pipes s")
  case True
  then obtain s1 where "own_process_term s = Some s1" "s' = s1" using run by (auto simp: process_term_def bind_eq_Some_conv)
  then show ?thesis using own_process_term_inv [of s s1] inv True np by (simp add: session_inv_def)
next
  case False
  then have "\<exists>b. inv_view s' = inv_view (s\<lparr>ss_pending := True, ss_has_linger_timer := b\<rparr>)"
    using run np by (auto simp: process_term_def inv_view_def emit_def Let_def bind_eq_Some_conv split: option.splits if_splits)
  then obtain b where v: "inv_view s' = inv_view (s\<lparr>ss_pending := True, ss_has_linger_timer := b\<rparr>)" by blast
  have "session_inv (s\<lparr>ss_pending := True, ss_has_linger_timer := b\<rparr>)"
    using inv False np by (simp add: session_inv_def no_pipes_def)
  then show ?thesis using inv_view_same [OF v] by simp
qed

lemma session_run_inv: "session_run o' s \<Longrightarrow> session_inv s"
proof (induction rule: session_run.induct)
  case (sr_new a)
  then show ?case by (simp add: session_new_def session_inv_def)
next
  case (sr_attach_pipe s p s')
  then show ?case by (auto simp: attach_pipe_def session_inv_def no_pipes_def bind_eq_Some_conv)
next
  case (sr_pull s w r s' w')
  then show ?case using pull_msg_view inv_view_same by blast
next
  case (sr_read_activated s p w s' w')
  then have "inv_view s' = inv_view s" by (auto simp: read_activated_def bind_eq_Some_conv split: if_splits)
  then show ?case using sr_read_activated inv_view_same by blast
next
  case (sr_write_activated s p s')
  then have "inv_view s' = inv_view s" by (auto simp: write_activated_def bind_eq_Some_conv split: if_splits)
  then show ?case using sr_write_activated inv_view_same by blast
next
  case (sr_plug s s')
  then have "inv_view s' = inv_view s" by (auto simp: process_plug_def dest: start_connecting_view split: if_splits)
  then show ?case using sr_plug inv_view_same by blast
next
  case (sr_zap s p s')
  then show ?case by (auto simp: session_zap_connect_def session_inv_def no_pipes_def bind_eq_Some_conv)
next
  case (sr_attach s w s' w')
  then show ?case
    by (auto simp: process_attach_def session_inv_def no_pipes_def emit_def bind_eq_Some_conv Let_def split: if_splits prod.splits)
next
  case (sr_timer s lk w s' w')
  then show ?case by (auto simp: timer_event_def session_inv_def no_pipes_def bind_eq_Some_conv)
qed (blast intro: pipe_terminated_inv engine_error_inv process_term_inv)+

section \<open>Half-read messages\<close>

text \<open>Rolling back and flushing do not touch the inbound side of a pipe.\<close>

definition two_way :: "pctx \<Rightarrow> bool" where
  "two_way c \<longleftrightarrow> ctx_ok c \<and> inpipe (pe c) \<noteq> outpipe (pe c)"

lemma on_out_inflow:
  assumes "on_out f c = Some (r, c')" "inpipe (pe c) \<noteq> outpipe (pe c)"
  shows "pe c' = pe c \<and> inflow c' = inflow c"
proof -
  obtain a x y h where "outpipe (pe c) = Some a" "heap_load (ch c) a = Some x" "f x = Some (r, y)" "heap_store (ch c) a y = Some h"
    "c' = c\<lparr>ch := h\<rparr>"
    using assms(1) by (auto simp: on_out_def on_chan_def bind_eq_Some_conv)
  then show ?thesis using heap_load_store [of "ch c" a y h] assms(2) by (auto simp: inflow_def split: option.split)
qed

lemma rollback_inflow:
  assumes "rollback_loop c = Some c'"
  shows "inpipe (pe c) \<noteq> outpipe (pe c) \<longrightarrow> pe c' = pe c \<and> inflow c' = inflow c"
proof (rule rollback_loop.raw_induct [where P = "\<lambda>c c'. inpipe (pe c) \<noteq> outpipe (pe c) \<longrightarrow> pe c' = pe c \<and> inflow c' = inflow c", OF _ assms], intro impI)
  fix loop s s'
  assume ih: "\<And>s s'. loop s = Some s' \<Longrightarrow> inpipe (pe s) \<noteq> outpipe (pe s) \<longrightarrow> pe s' = pe s \<and> inflow s' = inflow s"
    and run: "do { (r, s) \<leftarrow> on_out (\<lambda>c. Some (chan_unwrite c)) s;
          case r of None \<Rightarrow> Some s | Some m \<Rightarrow> do { zmq_assert (pm_more m); loop (close_msg m s) } } = Some s'"
    and ne: "inpipe (pe s) \<noteq> outpipe (pe s)"
  obtain r s1 where 1: "on_out (\<lambda>c. Some (chan_unwrite c)) s = Some (r, s1)"
    "(case r of None \<Rightarrow> Some s1 | Some m \<Rightarrow> do { zmq_assert (pm_more m); loop (close_msg m s1) }) = Some s'"
    using run by (auto simp: bind_eq_Some_conv)
  have "pe (close_msg m s1) = pe s1" for m by (simp add: close_msg_def)
  then show "pe s' = pe s \<and> inflow s' = inflow s"
    using 1(2) on_out_inflow [OF 1(1) ne] ne by (auto simp: bind_eq_Some_conv split: option.splits dest!: ih)
qed

lemma clean_out:
  assumes "two_way c"
  obtains c1 c2 where "pipe_rollback c = Some c1" "pipe_flush c1 = Some c2" "two_way c2" "inbox c2 = inbox c" "pe c2 = pe c"
proof -
  have ok: "ctx_ok c" and ne: "inpipe (pe c) \<noteq> outpipe (pe c)" using assms by (auto simp: two_way_def)
  from rollback_quiet [OF ok] obtain c1 where 1: "pipe_rollback c = Some c1" "ctx_ok c1" by (auto dest: quiet_ok)
  have pe1: "pe c1 = pe c" "inflow c1 = inflow c"
    using 1(1) rollback_inflow [of c c1] ne by (auto simp: pipe_rollback_def split: if_splits)
  from flush_quiet [OF 1(2)] obtain c2 where 2: "pipe_flush c1 = Some c2" "ctx_ok c2" by (auto dest: quiet_ok)
  have "pe c2 = pe c1 \<and> inflow c2 = inflow c1"
  proof (cases "pstate (pe c1) = TermAckSent \<or> outpipe (pe c1) = None")
    case True
    then show ?thesis using 2(1) by (simp add: pipe_flush_def)
  next
    case False
    then obtain ok c3 where 3: "on_out (\<lambda>c. Some (chan_flush c)) c1 = Some (ok, c3)" "c2 = (if \<not> ok then send_cmd ActivateRead c3 else c3)"
      using 2(1) by (auto simp: pipe_flush_def bind_eq_Some_conv)
    have "pe (send_cmd ActivateRead c3) = pe c3" by (simp add: send_cmd_def)
    then show ?thesis using on_out_inflow [OF 3(1)] 3(2) pe1(1) ne by simp
  qed
  then show ?thesis using that [OF 1(1) 2(1)] 2(2) pe1 ne by (simp add: two_way_def inbox_def)
qed

text \<open>The loop takes the rest of the message.\<close>

lemma clean_in_ok:
  assumes "ss_pipe s = Some p" "heap_load w p = Some c" "ctx_ok c" "whole_msgs (inbox c)" "ss_incomplete_in s \<longrightarrow> inbox c \<noteq> []"
  shows "\<exists>w' c'. clean_in s w = Some (s\<lparr>ss_incomplete_in := False\<rparr>, w') \<and> heap_load w' = (heap_load w)(p \<mapsto> c') \<and>
                 inbox c' = (if ss_incomplete_in s then drop_msg (inbox c) else inbox c)"
  using assms
proof (induction "length (inbox c)" arbitrary: s w c rule: less_induct)
  case less
  show ?case
  proof (cases "ss_incomplete_in s")
    case False
    moreover have "s\<lparr>ss_incomplete_in := False\<rparr> = s" using False by (cases s) simp
    ultimately show ?thesis
      using less.prems(2) by (subst clean_in.simps) (auto intro!: exI [of _ w] exI [of _ c])
  next
    case True
    obtain r c1 where rd: "pipe_read c = Some (r, c1)" "ctx_ok c1" using rd.op_total [OF less.prems(3)] by blast
    from read_inbox [OF less.prems(3) rd(1)] obtain m where m: "r = Some m" "inbox c = m # inbox c1"
      using less.prems(5) True by (cases r) auto
    from pool_op_at [of w p c pipe_read r c1, OF less.prems(2) rd(1)] obtain w1 where
      w1: "pool_op p pipe_read w = Some (r, w1)" "heap_load w1 = (heap_load w)(p \<mapsto> c1)" by blast
    let ?s = "s\<lparr>ss_incomplete_in := pm_more m\<rparr>"
    have "clean_in s w = clean_in ?s w1"
      using True less.prems(1) w1(1) m(1) by (subst clean_in.simps) (simp add: pull_msg_def)
    moreover have "whole_msgs (inbox c1)" "pm_more m \<longrightarrow> inbox c1 \<noteq> []"
      using whole_msgs_ConsD [of m "inbox c1"] less.prems(4) m(2) by auto
    ultimately show ?thesis
      using less.hyps [of c1 ?s w1] less.prems(1) w1(2) rd(2) m(2) True by (auto split: if_splits)
  qed
qed

section \<open>After the command to terminate\<close>

lemma terminate_state:
  assumes "pipe_terminate lk dl c = Some c'" "\<not> dl \<or> pstate (pe c) \<noteq> WaitingForDelimiter"
  shows "pstate (pe c') \<in> {TermReqSent1, TermReqSent2, TermAckSent}"
  using assms
  by (cases "pstate (pe c)") (auto simp: pipe_terminate_def upd_def send_cmd_def Let_def split: if_splits dest!: stop_output_pe)

lemma pool_do_Some: "pool_do p f w = Some w' \<longleftrightarrow> (\<exists>c c'. heap_load w p = Some c \<and> f c = Some c' \<and> heap_store w p c' = Some w')"
  by (auto simp: pool_do_def pool_op_Some plain_def)

text \<open>A pipe that no longer delivers makes the loop over a half-read message abort.\<close>

lemma clean_pipes_aborts:
  assumes "ss_pipe s = Some p" "ss_incomplete_in s" "heap_load w p = Some c" "pstate (pe c) \<in> {TermReqSent1, TermReqSent2, TermAckSent}"
  shows "clean_pipes s w = None"
proof (rule ccontr)
  assume "clean_pipes s w \<noteq> None"
  then obtain w1 w2 r where 1: "pool_do p pipe_rollback w = Some w1" "pool_do p pipe_flush w1 = Some w2" "clean_in s w2 = Some r"
    using assms(1) by (auto simp: clean_pipes_def bind_eq_Some_conv)
  obtain c1 where c1: "pipe_rollback c = Some c1" "heap_load w1 p = Some c1"
    using 1(1) assms(3) by (auto simp: pool_do_Some dest: heap_load_store)
  obtain c2 where c2: "pipe_flush c1 = Some c2" "heap_load w2 p = Some c2"
    using 1(2) c1(2) by (auto simp: pool_do_Some dest: heap_load_store)
  have "pe c1 = pe c" using c1(1) by (auto simp: pipe_rollback_def split: if_splits dest: rollback_loop_pe)
  then have "\<not> readable (pe c2)" using flush_pe [OF c2(1)] assms(4) by (auto simp: readable_def)
  then have rd: "pipe_read c2 = Some (None, c2)" by (simp add: pipe_read_def)
  from pool_op_at [of w2 p c2 pipe_read None c2, OF c2(2) rd] obtain w3 where "pool_op p pipe_read w2 = Some (None, w3)" by blast
  then show False using 1(3) assms(1,2) by (subst (asm) clean_in.simps) (simp add: pull_msg_def)
qed

lemma process_term_state:
  assumes "process_term lk linger s w = Some (s', w')" "ss_pipe s = Some p"
  shows "ss_pipe s' = Some p" "ss_incomplete_in s' = ss_incomplete_in s" "ss_active s' = ss_active s"
    "ss_has_linger_timer s' = (ss_has_linger_timer s \<or> linger > 0)"
  using assms by (auto simp: process_term_def no_pipes_def bind_eq_Some_conv emit_def Let_def split: if_splits option.splits)

lemma process_term_pipe:
  assumes run: "process_term lk linger s w = Some (s', w')" and p: "ss_pipe s = Some p" "ss_zap_pipe s \<noteq> Some p" and c: "heap_load w p = Some c"
    and st: "linger = 0 \<or> pstate (pe c) \<noteq> WaitingForDelimiter"
  shows "\<exists>c'. heap_load w' p = Some c' \<and> pstate (pe c') \<in> {TermReqSent1, TermReqSent2, TermAckSent}"
proof -
  have np: "\<not> no_pipes s" using p by (simp add: no_pipes_def)
  obtain w1 w2 r where 1: "pool_do p (pipe_terminate lk (linger \<noteq> 0)) w = Some w1" "pool_op p pipe_check_read w1 = Some (r, w2)"
    and 2: "w' = w2 \<or> (\<exists>z. ss_zap_pipe s = Some z \<and> pool_do z (pipe_terminate lk False) w2 = Some w')"
    using run np p by (auto simp: process_term_def bind_eq_Some_conv emit_def Let_def split: if_splits option.splits)
  obtain c1 where c1: "pipe_terminate lk (linger \<noteq> 0) c = Some c1" "heap_load w1 p = Some c1"
    using 1(1) c by (auto simp: pool_do_Some dest: heap_load_store)
  have t: "pstate (pe c1) \<in> {TermReqSent1, TermReqSent2, TermAckSent}"
    using terminate_state [OF c1(1)] st by auto
  then have "pipe_check_read c1 = Some (False, c1)" by (auto simp: pipe_check_read_def readable_def)
  then have "heap_load w2 p = Some c1" using 1(2) c1(2) by (auto simp: pool_op_Some dest: heap_load_store)
  then have "heap_load w' p = Some c1" using 2 p(2) by (auto simp: pool_do_Some dest: heap_load_store)
  then show ?thesis using t by blast
qed

text \<open>With \<open>ZMQ_IMMEDIATE\<close> the loss of a connection gives the pipe up.\<close>

lemma engine_error_immediate:
  assumes run: "engine_error lk o' reason s w = Some (s', w')" and p: "ss_pipe s = Some p" and act: "ss_active s"
    and o': "so_immediate o'" "\<not> so_multicast o'" and r: "reason \<noteq> protocol_error"
  shows "ss_pipe s' = None \<and> ss_zap_pipe s' = ss_zap_pipe s \<and> ss_has_linger_timer s' = ss_has_linger_timer s \<and> \<not> ss_engine s'"
proof -
  obtain s1 w1 w2 where 1: "clean_pipes (s\<lparr>ss_engine := False\<rparr>) w = Some (s1, w1)"
    and 2: "(case reason of protocol_error \<Rightarrow> Some (emit Terminate s1, w1)
        | _ \<Rightarrow> if ss_active s1 then reconnect lk o' s1 w1 else Some (emit Terminate s1, w1)) = Some (s', w2)"
    using run p by (auto simp: engine_error_def Let_def bind_eq_Some_conv)
  have v: "inv_view s1 = inv_view s" "ss_active s1" "\<not> ss_engine s1"
    using clean_pipes_view [OF 1] act by auto
  then have "reconnect lk o' s1 w1 = Some (s', w2)" using 2 r by (auto split: error_reason.splits)
  moreover have "ss_pipe s1 = Some p" using v(1) p by (simp add: inv_view_def)
  ultimately have "ss_pipe s' = None \<and> ss_zap_pipe s' = ss_zap_pipe s1 \<and> ss_has_linger_timer s' = ss_has_linger_timer s1 \<and> ss_engine s' = ss_engine s1"
    using o' by (auto simp: reconnect_def start_connecting_def emit_def bind_eq_Some_conv split: if_splits)
  then show ?thesis using v by (simp add: inv_view_def)
qed

section \<open>Properties\<close>

text \<open>C3: A session ends once and in order. Over every history of engine errors, events of pipes, connections, timers and the owner's command
  to terminate, a termination that is pending waits for some pipe, the termination of the session as an owned object
  starts at most once, and from then on the session has no pipe to its socket and none whose termination is under way.\<close>

theorem session_ends_once:
  assumes "session_run o' s"
  shows "(ss_pending s \<longrightarrow> \<not> no_pipes s) \<and>
         count_list (ss_effects s) Own_process_term = (if ss_is_terminating s then 1 else 0) \<and>
         (ss_is_terminating s \<longrightarrow> \<not> ss_pending s \<and> ss_pipe s = None \<and> ss_terminating_pipes s = {})"
  using session_run_inv [OF assms] by (auto simp: session_inv_def)

text \<open>A session in the middle of a message, with the rest of it in its pipe.\<close>

definition demo_session :: session where
  "demo_session = (session_new True)\<lparr>ss_pipe := Some 0, ss_engine := True, ss_incomplete_in := True\<rparr>"

definition demo_pool :: pool where "demo_pool = [Some (sock_pipe [part 1, whole 2, whole 3] 0)]"

definition demo_options :: sess_options where
  "demo_options = \<lparr>so_type = ZMQ_PUSH, so_immediate = True, so_raw_sock = False, so_reconnects = True, so_multicast = False,
     so_conflate = False, so_rcvhwm = 0, so_sndhwm = 0\<rparr>"

lemma demo_load: "heap_load demo_pool 0 = Some (sock_pipe [part 1, whole 2, whole 3] 0)"
  by (simp add: demo_pool_def heap_load_def)

lemmas demo_simps = demo_session_def session_new_def demo_options_def

theorem session_ends_once_witness:
  "\<exists>s. session_run demo_options s \<and> ss_is_terminating s \<and> count_list (ss_effects s) Own_process_term = 1"
proof -
  have "process_term True 0 (session_new False) [] =
      Some (emit Own_process_term ((session_new False)\<lparr>ss_is_terminating := True\<rparr>), [])"
    by (simp add: process_term_def no_pipes_def own_process_term_def session_new_def)
  from sr_term [OF sr_new [of demo_options False] _ _ this]
  have run: "session_run demo_options (emit Own_process_term ((session_new False)\<lparr>ss_is_terminating := True\<rparr>))"
    by (simp add: session_new_def)
  moreover have "ss_is_terminating (emit Own_process_term ((session_new False)\<lparr>ss_is_terminating := True\<rparr>))" by (simp add: emit_def)
  ultimately show ?thesis using session_ends_once [OF run] by metis
qed

text \<open>C4: After the loss of a connection the socket sees whole messages only. If the pipe delivers whole messages and the rest of a
  half-read message waits in it, \<open>clean_pipes\<close> returns, takes exactly the rest of that message out of the pipe and touches no
  other pipe.\<close>

theorem session_clean_pipes:
  assumes "ss_pipe s = Some p" "heap_load w p = Some c" "two_way c" "whole_msgs (inbox c)" "ss_incomplete_in s \<longrightarrow> inbox c \<noteq> []"
  shows "\<exists>w' c'. clean_pipes s w = Some (s\<lparr>ss_incomplete_in := False\<rparr>, w') \<and> heap_load w' = (heap_load w)(p \<mapsto> c') \<and>
                 inbox c' = (if ss_incomplete_in s then drop_msg (inbox c) else inbox c)"
proof -
  obtain c1 c2 where c: "pipe_rollback c = Some c1" "pipe_flush c1 = Some c2" "two_way c2" "inbox c2 = inbox c"
    by (rule clean_out [OF assms(3)]) blast
  from pool_do_at [of w p c pipe_rollback c1, OF assms(2) c(1)] obtain w1 where
    w1: "pool_do p pipe_rollback w = Some w1" "heap_load w1 = (heap_load w)(p \<mapsto> c1)" by blast
  have "heap_load w1 p = Some c1" by (simp add: w1(2))
  from pool_do_at [of w1 p c1 pipe_flush c2, OF this c(2)] obtain w2 where
    w2: "pool_do p pipe_flush w1 = Some w2" "heap_load w2 = (heap_load w1)(p \<mapsto> c2)" by blast
  have "heap_load w2 p = Some c2" "ctx_ok c2" using w2(2) c(3) by (simp_all add: two_way_def)
  from clean_in_ok [of s p w2 c2, OF assms(1) this] show ?thesis
    using assms(1,4,5) w1 w2 c(4) by (auto simp: clean_pipes_def)
qed

theorem session_clean_pipes_witness:
  "\<exists>w c. clean_pipes demo_session demo_pool = Some (demo_session\<lparr>ss_incomplete_in := False\<rparr>, w) \<and>
         heap_load w = (heap_load demo_pool)(0 \<mapsto> c) \<and> inbox c = [whole 3]"
proof -
  let ?c = "sock_pipe [part 1, whole 2, whole 3] 0"
  have "two_way ?c" using sock_pipe_ok [of "[part 1, whole 2, whole 3]" 0]
    by (simp add: two_way_def) (simp add: sock_pipe_def pipe_new_def)
  moreover have i: "inbox ?c = [part 1, whole 2, whole 3]"
    by (simp add: sock_pipe_inbox part_def whole_def pm_is_credential_def flag_more_def flag_credential_def)
  moreover have m: "pm_more (part 1)" "\<not> pm_more (whole 2)" "\<not> pm_more (whole 3)"
    by (simp_all add: part_def whole_def pm_more_def flag_more_def)
  ultimately show ?thesis
    using session_clean_pipes [of demo_session 0 demo_pool ?c, OF _ demo_load] by (simp add: demo_simps whole_msgs_def)
qed

text \<open>C5: A session whose termination has begun in the middle of a message aborts when the connection breaks. After the command to
  terminate, with a linger period of zero or before the socket has closed its end, the pipe no longer delivers; the error of the
  engine, which is still there, makes \<open>clean_pipes\<close> read the rest of the message, and \<open>errno_assert (rc == 0)\<close> fails.\<close>

theorem session_clean_aborts:
  assumes "process_term lk linger s w = Some (s', w')" "ss_pipe s = Some p" "ss_zap_pipe s \<noteq> Some p" "ss_incomplete_in s"
    "heap_load w p = Some c" "linger = 0 \<or> pstate (pe c) \<noteq> WaitingForDelimiter"
  shows "engine_error lk' o' reason s' w' = None"
proof -
  obtain c' where c': "heap_load w' p = Some c'" "pstate (pe c') \<in> {TermReqSent1, TermReqSent2, TermAckSent}"
    using process_term_pipe [OF assms(1-3,5,6)] by blast
  note st = process_term_state [OF assms(1,2)]
  have "clean_pipes (s'\<lparr>ss_engine := False\<rparr>) w' = None"
    by (rule clean_pipes_aborts [OF _ _ c']) (use st assms(4) in simp_all)
  then show ?thesis using st(1) by (simp add: engine_error_def)
qed

lemma demo_term_returns: "\<not> Option.is_none (process_term True 0 demo_session demo_pool)"
  by code_simp

theorem session_clean_aborts_witness:
  "\<exists>s w. process_term True 0 demo_session demo_pool = Some (s, w) \<and> engine_error True demo_options connection_error s w = None"
proof -
  obtain s w where r: "process_term True 0 demo_session demo_pool = Some (s, w)"
    using demo_term_returns by (cases "process_term True 0 demo_session demo_pool") auto
  show ?thesis using r session_clean_aborts [OF r _ _ _ demo_load] by (simp add: demo_simps)
qed

text \<open>C7: With \<open>ZMQ_IMMEDIATE\<close> the linger timer outlives the pipe. When the connection breaks during the linger period, reconnecting
  gives the pipe up and leaves the timer running; when it expires before the socket has acknowledged the end of the pipe,
  \<open>zmq_assert (pipe)\<close> in \<open>timer_event\<close> fails.\<close>

theorem session_linger_aborts:
  assumes "process_term lk linger s w = Some (s1, w1)" "0 < linger" "ss_pipe s = Some p" "ss_active s" "so_immediate o'" "\<not> so_multicast o'"
    "engine_error lk' o' reason s1 w1 = Some (s2, w2)" "reason \<noteq> protocol_error"
  shows "ss_has_linger_timer s2 \<and> timer_event lk'' s2 w3 = None"
proof -
  note st = process_term_state [OF assms(1,3)]
  from engine_error_immediate [OF assms(7) st(1)] have "ss_pipe s2 = None \<and> ss_has_linger_timer s2 = ss_has_linger_timer s1"
    using st(3) assms(4,5,6,8) by auto
  then show ?thesis using st(4) assms(2) by (simp add: timer_event_def)
qed

text \<open>The same session between two messages, with a second pipe to a handler.\<close>

definition idle_session :: session where
  "idle_session = (session_new True)\<lparr>ss_pipe := Some 0, ss_zap_pipe := Some 1, ss_engine := True\<rparr>"

definition idle_pool :: pool where "idle_pool = [Some (sock_pipe [whole 1] 0), Some (sock_pipe [] 0)]"

definition lingering :: "(session \<times> pool) option" where
  "lingering = process_term True 100 idle_session idle_pool"

lemma lingering_returns:
  "\<not> Option.is_none lingering" "\<not> Option.is_none (engine_error True demo_options connection_error (fst (the lingering)) (snd (the lingering)))"
  by code_simp+

theorem session_linger_aborts_witness:
  "\<exists>s w s' w'. process_term True 100 idle_session idle_pool = Some (s, w) \<and>
     engine_error True demo_options connection_error s w = Some (s', w') \<and> ss_has_linger_timer s' \<and> timer_event True s' w' = None"
proof -
  obtain s w where 1: "process_term True 100 idle_session idle_pool = Some (s, w)" "lingering = Some (s, w)"
    using lingering_returns(1) by (cases lingering) (auto simp: lingering_def)
  obtain s' w' where 2: "engine_error True demo_options connection_error s w = Some (s', w')"
    using lingering_returns(2) unfolding 1(2) by (cases "engine_error True demo_options connection_error s w") auto
  have "ss_has_linger_timer s' \<and> timer_event True s' w' = None"
    by (rule session_linger_aborts [OF 1(1) _ _ _ _ _ 2]) (simp_all add: idle_session_def session_new_def demo_options_def)
  then show ?thesis using 1(1) 2 by blast
qed

text \<open>With \<open>ZMQ_IMMEDIATE\<close> a late reply of a ZAP handler is fatal. When the connection breaks while the handler has not answered, the
  session has neither engine nor pipe; the answer then makes \<open>read_activated\<close> call \<open>check_read\<close> of the missing pipe.\<close>

theorem session_late_reply_aborts:
  assumes "engine_error lk o' reason s w = Some (s', w')" "ss_pipe s = Some p" "ss_zap_pipe s = Some z" "ss_active s"
    "so_immediate o'" "\<not> so_multicast o'" "reason \<noteq> protocol_error"
  shows "read_activated z s' w'' = None"
  using engine_error_immediate [OF assms(1,2,4-7)] assms(3) by (simp add: read_activated_def)

lemma idle_error_returns: "\<not> Option.is_none (engine_error True demo_options connection_error idle_session idle_pool)"
  by code_simp

theorem session_late_reply_aborts_witness:
  "\<exists>s w. engine_error True demo_options connection_error idle_session idle_pool = Some (s, w) \<and> read_activated 1 s w = None"
proof -
  obtain s w where r: "engine_error True demo_options connection_error idle_session idle_pool = Some (s, w)"
    using idle_error_returns by (cases "engine_error True demo_options connection_error idle_session idle_pool") auto
  have "read_activated 1 s w = None"
    by (rule session_late_reply_aborts [OF r]) (simp_all add: idle_session_def session_new_def demo_options_def)
  then show ?thesis using r by blast
qed

end
