(* ===== verification/Reconnect.thy ===== *)
theory Reconnect
  imports Null Session
begin

text \<open>
  A session together with the NULL mechanism of its engine (src/libzmq/src/session_base.cpp, src/libzmq/src/null_mechanism.cpp): what
  becomes of the pipe to the ZAP handler when an engine dies and the session gets the next one.
\<close>

section \<open>The code\<close>

text \<open>The constructor of the mechanism calls \<open>zap_connect\<close> of the session; \<open>p\<close> is the new pipe, if one is made.\<close>

definition build_null :: "mech_options \<Rightarrow> addr \<Rightarrow> session \<Rightarrow> zap \<Rightarrow> (nullm \<times> session) option" where
  "build_null mo p s z =
     do { n \<leftarrow> null_mechanism mo z;
          s \<leftarrow> (if n_zap_connected n then session_zap_connect p s else Some s);
          Some (n, s) }"

section \<open>Histories\<close>

text \<open>The operations of a session but for the connection to a handler, with the conditions of its histories.\<close>

inductive session_step :: "sess_options \<Rightarrow> session \<Rightarrow> session \<Rightarrow> bool" for so s where
  st_attach_pipe: "ss_zap_pipe s \<noteq> Some p \<Longrightarrow> p \<notin> ss_terminating_pipes s \<Longrightarrow> attach_pipe p s = Some s' \<Longrightarrow> session_step so s s'"
| st_pull: "pull_msg s w = Some (r, s', w') \<Longrightarrow> session_step so s s'"
| st_terminated: "pipe_terminated so p s = Some s' \<Longrightarrow> session_step so s s'"
| st_read_activated: "read_activated p s w = Some (s', w') \<Longrightarrow> session_step so s s'"
| st_write_activated: "write_activated p s = Some s' \<Longrightarrow> session_step so s s'"
| st_plug: "process_plug s = Some s' \<Longrightarrow> session_step so s s'"
| st_attach: "ss_zap_pipe s \<noteq> Some (fst (heap_alloc w (session_pipe so))) \<Longrightarrow> fst (heap_alloc w (session_pipe so)) \<notin> ss_terminating_pipes s \<Longrightarrow>
    process_attach so s w = Some (s', w') \<Longrightarrow> session_step so s s'"
| st_error: "ss_engine s \<Longrightarrow> engine_error lk so reason s w = Some (s', w') \<Longrightarrow> session_step so s s'"
| st_term: "\<not> ss_pending s \<Longrightarrow> \<not> ss_is_terminating s \<Longrightarrow> process_term lk linger s w = Some (s', w') \<Longrightarrow> session_step so s s'"
| st_timer: "ss_has_linger_timer s \<Longrightarrow> timer_event lk s w = Some (s', w') \<Longrightarrow> session_step so s s'"

text \<open>The session's side of the handler's pipe, and the mechanism if the engine has one: \<open>Inl\<close> none, \<open>Inr\<close> the mechanism, which
  holds that side while it lives.\<close>

type_synonym link = "zap + nullm"

definition zap_of :: "link \<Rightarrow> zap" where
  "zap_of m = (case m of Inl z \<Rightarrow> z | Inr n \<Rightarrow> n_zap n)"

definition with_zap :: "(zap \<Rightarrow> zap) \<Rightarrow> link \<Rightarrow> link" where
  "with_zap f m = (case m of Inl z \<Rightarrow> Inl (f z) | Inr n \<Rightarrow> Inr (n\<lparr>n_zap := f (n_zap n)\<rparr>))"

text \<open>What a step of the session does to it: the pipe may have been terminated, and a mechanism dies with its engine, which the pipe
  does not.\<close>

definition follow :: "session \<Rightarrow> session \<Rightarrow> link \<Rightarrow> link" where
  "follow s s' m =
     (let m = (if ss_zap_pipe s \<noteq> None \<and> ss_zap_pipe s' = None then with_zap zap_terminated m else m)
      in if ss_engine s' then m else Inl (zap_of m))"

inductive link_run :: "sess_options \<Rightarrow> mech_options \<Rightarrow> blob \<Rightarrow> session \<Rightarrow> link \<Rightarrow> bool"
  for so mo addr where
  lk_new: "link_run so mo addr (session_new a) (Inl (zap_new h wants))"
| lk_session: "link_run so mo addr s m \<Longrightarrow> session_step so s s' \<Longrightarrow> link_run so mo addr s' (follow s s' m)"
| lk_build: "link_run so mo addr s (Inl z) \<Longrightarrow> ss_engine s \<Longrightarrow> ss_pipe s \<noteq> Some p \<Longrightarrow> p \<notin> ss_terminating_pipes s \<Longrightarrow>
    build_null mo p s z = Some (n, s') \<Longrightarrow> link_run so mo addr s' (Inr n)"
| lk_command: "link_run so mo addr s (Inr n) \<Longrightarrow> null_process_handshake_command mo d n = (r, n') \<Longrightarrow> link_run so mo addr s (Inr n')"
| lk_next: "link_run so mo addr s (Inr n) \<Longrightarrow> null_next_handshake_command mo addr n = Some (r', n') \<Longrightarrow> link_run so mo addr s (Inr n')"
| lk_deliver: "link_run so mo addr s m \<Longrightarrow> ss_zap_pipe s \<noteq> None \<Longrightarrow>
    link_run so mo addr s (with_zap (\<lambda>z. z\<lparr>zap_in := zap_in z @ [f]\<rparr>) m)"
| lk_available: "link_run so mo addr s (Inr n) \<Longrightarrow> null_zap_msg_available mo n = (r, n') \<Longrightarrow> link_run so mo addr s (Inr n')"

text \<open>The two sides agree on the pipe.\<close>

definition link_inv :: "mech_options \<Rightarrow> session \<Rightarrow> link \<Rightarrow> bool" where
  "link_inv mo s m \<longleftrightarrow> zap_pipe (zap_of m) = (ss_zap_pipe s \<noteq> None) \<and>
     (\<forall>n. m = Inr n \<longrightarrow> ss_engine s \<and> (n_zap_connected n \<longrightarrow> o_zap_domain mo \<noteq> []))"

section \<open>What keeps the pipe\<close>

lemma engine_error_keeps_zap: "engine_error lk so reason s w = Some (s', w') \<Longrightarrow> ss_zap_pipe s' = ss_zap_pipe s"
proof -
  assume run: "engine_error lk so reason s w = Some (s', w')"
  obtain s1 w1 w2 where
    1: "(if ss_pipe s \<noteq> None then clean_pipes (s\<lparr>ss_engine := False\<rparr>) w else Some (s\<lparr>ss_engine := False\<rparr>, w)) = Some (s1, w1)"
    and 2: "(case reason of protocol_error \<Rightarrow> Some (emit Terminate s1, w1)
        | _ \<Rightarrow> if ss_active s1 then reconnect lk so s1 w1 else Some (emit Terminate s1, w1)) = Some (s', w2)"
    using run by (auto simp: engine_error_def Let_def bind_eq_Some_conv)
  have "ss_zap_pipe s1 = ss_zap_pipe s"
    using 1 by (auto simp: inv_view_def split: if_splits dest!: clean_pipes_view)
  moreover have "s' = emit Terminate s1 \<or> reconnect lk so s1 w1 = Some (s', w2)"
    using 2 by (auto split: error_reason.splits if_splits)
  then have "ss_zap_pipe s' = ss_zap_pipe s1"
    using reconnect_view [of lk so s1 w1 s' w2] by (auto simp: inv_view_def emit_def)
  ultimately show ?thesis by simp
qed

lemma process_attach_keeps_zap: "process_attach so s w = Some (s', w') \<Longrightarrow> ss_zap_pipe s' = ss_zap_pipe s"
  by (auto simp: process_attach_def emit_def bind_eq_Some_conv Let_def split: if_splits prod.splits)

lemma pipe_terminated_zap: "pipe_terminated so p s = Some s' \<Longrightarrow> ss_zap_pipe s' = ss_zap_pipe s \<or> ss_zap_pipe s' = None"
  by (auto simp: pipe_terminated_def own_process_term_def emit_def bind_eq_Some_conv Let_def split: if_splits)

lemma session_step_zap: "session_step so s s' \<Longrightarrow> ss_zap_pipe s' = ss_zap_pipe s \<or> ss_zap_pipe s' = None"
proof (induction rule: session_step.induct)
  case (st_terminated p s')
  then show ?case by (rule pipe_terminated_zap)
next
  case (st_attach w s' w')
  then show ?case by (blast dest: process_attach_keeps_zap)
next
  case (st_error lk reason w s' w')
  then show ?case by (blast dest: engine_error_keeps_zap)
next
  case (st_term lk linger w s' w')
  then show ?case
    by (auto simp: process_term_def own_process_term_def emit_def Let_def bind_eq_Some_conv split: option.splits if_splits)
next
  case (st_plug s')
  then show ?case by (auto simp: process_plug_def inv_view_def dest: start_connecting_view split: if_splits)
next
  case (st_pull w r s' w')
  then show ?case by (auto simp: inv_view_def dest: pull_msg_view)
qed (auto simp: attach_pipe_def read_activated_def write_activated_def timer_event_def emit_def bind_eq_Some_conv split: if_splits)

lemma follow_inv:
  assumes "link_inv mo s m" "session_step so s s'"
  shows "link_inv mo s' (follow s s' m)"
proof -
  have z: "zap_pipe (zap_of (follow s s' m)) = (ss_zap_pipe s' \<noteq> None)"
    using assms(1) session_step_zap [OF assms(2)]
    by (auto simp: link_inv_def follow_def zap_of_def with_zap_def zap_terminated_def Let_def split: sum.splits)
  then show ?thesis using assms(1)
    by (auto simp: link_inv_def follow_def with_zap_def Let_def split: sum.splits if_splits)
qed

lemma null_keeps_pipe:
  "null_process_handshake_command mo d n = (r, n') \<Longrightarrow> zap_pipe (n_zap n') = zap_pipe (n_zap n)"
  "null_next_handshake_command mo addr n = Some (r', n') \<Longrightarrow> zap_pipe (n_zap n') = zap_pipe (n_zap n)"
  "null_zap_msg_available mo n = (r, n') \<Longrightarrow> zap_pipe (n_zap n') = zap_pipe (n_zap n)"
proof -
  have rc: "zap_pipe (n_zap n2) = zap_pipe (n_zap n1)" if run: "null_receive_reply mo n1 = (a, n2)" for a n1 n2
  proof -
    obtain c m z where r: "receive_zap_reply mo EPROTO (n_code n1) (n_mech n1) (n_zap n1) = (a, c, m, z)"
      and n2: "n2 = n1\<lparr>n_code := c, n_mech := m, n_zap := z\<rparr>"
      using run by (auto simp: null_receive_reply_def split: prod.splits)
    from receive_zap_reply_spec [OF r] obtain ms where "n_zap n1 = z\<lparr>zap_in := ms @ zap_in z\<rparr>" by blast
    then show ?thesis using n2 by simp
  qed
  have pr: "zap_pipe (n_zap n2) = zap_pipe (n_zap n1)" if "null_produce mo n1 = Some (a, n2)" for a n1 n2
    using that by (auto simp: null_produce_def bind_eq_Some_conv split: if_splits)
  show "null_process_handshake_command mo d n = (r, n') \<Longrightarrow> zap_pipe (n_zap n') = zap_pipe (n_zap n)"
    by (auto simp: null_process_handshake_command_def process_ready_command_def process_error_command_def split: if_splits prod.splits)
  show "null_next_handshake_command mo addr n = Some (r', n') \<Longrightarrow> zap_pipe (n_zap n') = zap_pipe (n_zap n)"
    by (auto simp: null_next_handshake_command_def write_zap_msgs_eq dest!: rc pr split: if_splits prod.splits sum.splits)
  show "null_zap_msg_available mo n = (r, n') \<Longrightarrow> zap_pipe (n_zap n') = zap_pipe (n_zap n)"
    by (auto simp: null_zap_msg_available_def dest!: rc split: if_splits prod.splits sum.splits)
qed

lemma build_null_inv:
  assumes "link_inv mo s (Inl z)" "ss_engine s" "build_null mo p s z = Some (n, s')"
  shows "link_inv mo s' (Inr n)"
  using assms
  by (auto simp: build_null_def null_mechanism_def zap_connect_def session_zap_connect_def link_inv_def zap_of_def Let_def
      bind_eq_Some_conv split: if_splits)

lemma link_run_inv: "link_run so mo addr s m \<Longrightarrow> link_inv mo s m"
proof (induction rule: link_run.induct)
  case (lk_new a h wants)
  then show ?case by (simp add: link_inv_def zap_of_def session_new_def zap_new_def)
next
  case (lk_session s m s')
  then show ?case by (blast intro: follow_inv)
next
  case (lk_build s z p n s')
  then show ?case by (blast intro: build_null_inv)
next
  case (lk_deliver s m f)
  then show ?case by (auto simp: link_inv_def zap_of_def with_zap_def split: sum.splits)
qed (auto simp: link_inv_def zap_of_def null_keeps_pipe null_connected_const)

section \<open>Reconnection\<close>

text \<open>C12: A session whose NULL mechanism was connected to a handler aborts when it reconnects, unless the handler has closed its
  pipe. In every history of session and mechanism, when the engine reports an error and the next engine is attached, the pipe to
  the handler is the one of the first connection; the mechanism of the next engine can be built exactly if that pipe is
  gone: otherwise \<open>zmq_assert (zap_pipe == NULL)\<close> in \<open>zap_connect\<close> fails.\<close>

theorem null_reconnect_aborts:
  assumes "link_run so mo addr s (Inr n)" "n_zap_connected n"
    "engine_error lk so reason s w = Some (s1, w1)" "process_attach so s1 w2 = Some (s2, w3)"
  shows "ss_zap_pipe s2 = ss_zap_pipe s \<and> (build_null mo p s2 (n_zap n) = None \<longleftrightarrow> ss_zap_pipe s \<noteq> None)"
proof -
  have inv: "zap_pipe (n_zap n) = (ss_zap_pipe s \<noteq> None)" "o_zap_domain mo \<noteq> []"
    using link_run_inv [OF assms(1)] assms(2) by (auto simp: link_inv_def zap_of_def)
  have same: "ss_zap_pipe s2 = ss_zap_pipe s"
    using engine_error_keeps_zap [OF assms(3)] process_attach_keeps_zap [OF assms(4)] by simp
  show ?thesis using inv same
    by (auto simp: build_null_def null_mechanism_def zap_connect_def session_zap_connect_def Let_def)
qed

text \<open>The first connection of an active session, with a handler; a pool in which both of its pipes are.\<close>

definition plugged :: session where
  "plugged = (session_new True)\<lparr>ss_pipe := Some 0, ss_engine := True, ss_effects := [Send_bind, Engine_plug]\<rparr>"

definition zap_options :: mech_options where
  "zap_options = \<lparr>o_type = ZMQ_PULL, o_identity = [], o_recv_identity = False, o_zap_domain = [1], o_username = [], o_password = []\<rparr>"

definition second_attach :: "(session \<times> pool) option" where
  "second_attach = do { (s, w) \<leftarrow> engine_error True demo_options connection_error (plugged\<lparr>ss_zap_pipe := Some 1\<rparr>) idle_pool;
     process_attach demo_options s w }"

lemma second_attach_returns: "\<not> Option.is_none second_attach"
  by code_simp

lemma plugged_run: "link_run demo_options mo addr plugged (Inl (zap_new True False))"
proof -
  have "process_attach demo_options (session_new True) [] = Some (plugged, snd (heap_alloc [] (session_pipe demo_options)))"
    by (simp add: process_attach_def session_new_def emit_def plugged_def heap_alloc_def)
  then have "session_step demo_options (session_new True) plugged"
    by (rule st_attach [rotated 2]) (simp_all add: session_new_def)
  from lk_session [OF lk_new this] show ?thesis by (simp add: follow_def session_new_def plugged_def)
qed

theorem null_reconnect_aborts_witness:
  "\<exists>s n s1 w1 s2 w2. link_run demo_options zap_options [] s (Inr n) \<and> engine_error True demo_options connection_error s idle_pool = Some (s1, w1) \<and>
     process_attach demo_options s1 w1 = Some (s2, w2) \<and> build_null zap_options 2 s2 (n_zap n) = None"
proof -
  let ?s = "plugged\<lparr>ss_zap_pipe := Some 1\<rparr>"
  obtain n where n: "null_mechanism zap_options (zap_new True False) = Some n" "n_zap_connected n"
    by (auto simp: null_mechanism_def zap_connect_def zap_new_def zap_options_def Let_def)
  then have b: "build_null zap_options 1 plugged (zap_new True False) = Some (n, ?s)"
    by (simp add: build_null_def session_zap_connect_def plugged_def session_new_def)
  have run: "link_run demo_options zap_options [] ?s (Inr n)"
    by (rule lk_build [OF plugged_run _ _ _ b]) (simp_all add: plugged_def session_new_def)
  obtain s1 w1 s2 w2 where e: "engine_error True demo_options connection_error ?s idle_pool = Some (s1, w1)"
    "process_attach demo_options s1 w1 = Some (s2, w2)"
    using second_attach_returns by (cases second_attach) (auto simp: second_attach_def bind_eq_Some_conv)
  have "ss_zap_pipe s2 = ss_zap_pipe ?s \<and> (build_null zap_options 2 s2 (n_zap n) = None \<longleftrightarrow> ss_zap_pipe ?s \<noteq> None)"
    by (rule null_reconnect_aborts [OF run n(2) e])
  then have "build_null zap_options 2 s2 (n_zap n) = None" by simp
  then show ?thesis using run e by blast
qed

end
