(* ===== verification/Own.thy ===== *)
theory Own
  imports Prelude
begin

text \<open>
  The ownership hierarchy (src/libzmq/src/own.cpp): sockets own sessions and listeners, these own connecters and sessions, and an object is
  deallocated only after all it owns. Objects live in different threads and talk through commands (src/libzmq/src/object.cpp); an
  object receives its commands in the order in which they were sent.
\<close>

section \<open>State\<close>

type_synonym oid = nat

text \<open>\<open>Plug\<close> and \<open>Numbered\<close> (attach, bind, inproc\_connected) only count as far as ownership is concerned.\<close>

datatype ocmd = Plug | Numbered | Own oid | TermReq oid | Term int | TermAck

record own =
  owner :: "oid option"
  owned :: "oid set"
  terminating :: bool
  sent_seqnum :: u32
  processed_seqnum :: u64
  term_acks :: int
  held :: bool

text \<open>\<open>term_acks\<close> is an \<open>int\<close> in the code; it counts owned objects that have been asked to terminate, at most as many as there are objects, and
  is taken to stay below 2^31.

  \<open>held\<close>: the command to terminate has arrived, but the derived class (\<open>session_base_t\<close>) delays \<open>own_t::process_term\<close>.\<close>

definition own_new :: "oid option \<Rightarrow> own" where
  "own_new ow = \<lparr>owner = ow, owned = {}, terminating = False, sent_seqnum = 0, processed_seqnum = 0, term_acks = 0, held = False\<rparr>"

text \<open>The objects, the commands on their way to each, and the next address. A deallocated object is \<open>None\<close>.\<close>

record osys =
  objs :: "oid \<Rightarrow> own option"
  omail :: "oid \<Rightarrow> ocmd list"
  onext :: oid

definition osys_new :: osys where
  "osys_new = \<lparr>objs = (\<lambda>_. None)(0 \<mapsto> own_new None), omail = (\<lambda>_. []), onext = 1\<rparr>"

definition osend :: "oid \<Rightarrow> ocmd \<Rightarrow> osys \<Rightarrow> osys" where
  "osend d c s = s\<lparr>omail := (omail s)(d := omail s d @ [c])\<rparr>"

definition oset :: "oid \<Rightarrow> own \<Rightarrow> osys \<Rightarrow> osys" where
  "oset x b s = s\<lparr>objs := (objs s)(x \<mapsto> b)\<rparr>"

section \<open>Operations\<close>

definition inc_seqnum :: "own \<Rightarrow> own" where "inc_seqnum b = b\<lparr>sent_seqnum := sent_seqnum b + 1\<rparr>"

text \<open>The comparison is between a 64 bit and a 32 bit counter.\<close>

definition can_destroy :: "own \<Rightarrow> bool" where
  "can_destroy b \<longleftrightarrow> terminating b \<and> processed_seqnum b = ucast (sent_seqnum b) \<and> term_acks b = 0"

definition check_term_acks :: "oid \<Rightarrow> osys \<Rightarrow> osys option" where
  "check_term_acks x s =
     do { b \<leftarrow> objs s x;
          if can_destroy b
          then do { zmq_assert (owned b = {});
                    let s = (case owner b of None \<Rightarrow> s | Some q \<Rightarrow> osend q TermAck s);
                    Some (s\<lparr>objs := (objs s)(x := None)\<rparr>) }
          else Some s }"

definition process_seqnum :: "oid \<Rightarrow> osys \<Rightarrow> osys option" where
  "process_seqnum x s =
     do { b \<leftarrow> objs s x; check_term_acks x (oset x (b\<lparr>processed_seqnum := processed_seqnum b + 1\<rparr>) s) }"

definition launch_child :: "oid \<Rightarrow> osys \<Rightarrow> osys option" where
  "launch_child x s =
     do { b \<leftarrow> objs s x;
          let c = onext s;
          let s = oset c (inc_seqnum (own_new (Some x))) (s\<lparr>onext := c + 1\<rparr>);
          let s = osend c Plug s;
          Some (osend x (Own c) (oset x (inc_seqnum b) s)) }"

definition process_term_req :: "oid \<Rightarrow> int \<Rightarrow> oid \<Rightarrow> osys \<Rightarrow> osys option" where
  "process_term_req x linger c s =
     do { b \<leftarrow> objs s x;
          Some (if terminating b \<or> c \<notin> owned b then s
                else osend c (Term linger) (oset x (b\<lparr>owned := owned b - {c}, term_acks := term_acks b + 1\<rparr>) s)) }"

definition process_own :: "oid \<Rightarrow> oid \<Rightarrow> osys \<Rightarrow> osys option" where
  "process_own x c s =
     do { b \<leftarrow> objs s x;
          Some (if terminating b then osend c (Term 0) (oset x (b\<lparr>term_acks := term_acks b + 1\<rparr>) s)
                else oset x (b\<lparr>owned := insert c (owned b)\<rparr>) s) }"

definition own_term :: "oid \<Rightarrow> int \<Rightarrow> osys \<Rightarrow> osys option" where
  "own_term x linger s =
     do { b \<leftarrow> objs s x;
          zmq_assert (\<not> terminating b);
          let s = s\<lparr>omail := (\<lambda>c. if c \<in> owned b then omail s c @ [Term linger] else omail s c)\<rparr>;
          check_term_acks x (oset x (b\<lparr>owned := {}, term_acks := term_acks b + int (card (owned b)), terminating := True, held := False\<rparr>) s) }"

definition own_terminate :: "oid \<Rightarrow> int \<Rightarrow> osys \<Rightarrow> osys option" where
  "own_terminate x linger s =
     do { b \<leftarrow> objs s x;
          if terminating b then Some s
          else case owner b of None \<Rightarrow> own_term x linger s | Some q \<Rightarrow> Some (osend q (TermReq x) s) }"

definition process_term_ack :: "oid \<Rightarrow> osys \<Rightarrow> osys option" where
  "process_term_ack x s =
     do { b \<leftarrow> objs s x;
          zmq_assert (0 < term_acks b);
          check_term_acks x (oset x (b\<lparr>term_acks := term_acks b - 1\<rparr>) s) }"

text \<open>The dispatch of \<open>object_t::process_command\<close>; \<open>hold\<close> says whether the derived class delays the termination.\<close>

fun own_command :: "oid \<Rightarrow> int \<Rightarrow> bool \<Rightarrow> ocmd \<Rightarrow> osys \<Rightarrow> osys option" where
  "own_command x linger hold Plug s = process_seqnum x s"
| "own_command x linger hold Numbered s = process_seqnum x s"
| "own_command x linger hold (Own c) s = do { s \<leftarrow> process_own x c s; process_seqnum x s }"
| "own_command x linger hold (TermReq c) s = process_term_req x linger c s"
| "own_command x linger hold (Term l) s =
     (if hold then do { b \<leftarrow> objs s x; Some (oset x (b\<lparr>held := True\<rparr>) s) } else own_term x l s)"
| "own_command x linger hold TermAck s = process_term_ack x s"

section \<open>Histories\<close>

text \<open>
  An action that is not possible changes nothing; a command that reaches an object that is no longer there is \<open>None\<close>. Fewer than
  2\<open>^\<close>32 numbered commands are ever sent to one object.
\<close>

datatype oact = Launch oid | Post oid | Terminate oid int | TermChild oid int oid | ODeliver oid int bool | Resume oid int

definition room :: "own \<Rightarrow> bool" where "room b \<longleftrightarrow> unat (sent_seqnum b) + 1 < 2 ^ 32"

fun ostep :: "oact \<Rightarrow> osys \<Rightarrow> osys option" where
  "ostep (Launch x) s = (case objs s x of None \<Rightarrow> Some s | Some b \<Rightarrow> if room b then launch_child x s else Some s)"
| "ostep (Post x) s =
     (case objs s x of None \<Rightarrow> Some s | Some b \<Rightarrow> if room b then Some (osend x Numbered (oset x (inc_seqnum b) s)) else Some s)"
| "ostep (Terminate x l) s = (case objs s x of None \<Rightarrow> Some s | Some _ \<Rightarrow> own_terminate x l s)"
| "ostep (TermChild x l c) s = (case objs s x of None \<Rightarrow> Some s | Some _ \<Rightarrow> process_term_req x l c s)"
| "ostep (ODeliver x l hold) s =
     (case omail s x of [] \<Rightarrow> Some s | m # q \<Rightarrow> own_command x l hold m (s\<lparr>omail := (omail s)(x := q)\<rparr>))"
| "ostep (Resume x l) s = (case objs s x of None \<Rightarrow> Some s | Some b \<Rightarrow> if held b then own_term x l s else Some s)"

fun orun :: "oact list \<Rightarrow> osys \<Rightarrow> osys option" where
  "orun [] s = Some s"
| "orun (a # as) s = do { s \<leftarrow> ostep a s; orun as s }"

section \<open>Invariant\<close>

fun numbered :: "ocmd list \<Rightarrow> nat" where
  "numbered [] = 0"
| "numbered (Plug # ms) = Suc (numbered ms)"
| "numbered (Numbered # ms) = Suc (numbered ms)"
| "numbered (Own c # ms) = Suc (numbered ms)"
| "numbered (m # ms) = numbered ms"

fun terms :: "ocmd list \<Rightarrow> nat" where
  "terms [] = 0"
| "terms (Term l # ms) = Suc (terms ms)"
| "terms (m # ms) = terms ms"

fun owns :: "ocmd list \<Rightarrow> oid list" where
  "owns [] = []"
| "owns (Own c # ms) = c # owns ms"
| "owns (m # ms) = owns ms"

text \<open>A request to terminate a child that is gone is followed by its acknowledgement.\<close>

fun reqs_ok :: "oid set \<Rightarrow> ocmd list \<Rightarrow> bool" where
  "reqs_ok K [] \<longleftrightarrow> True"
| "reqs_ok K (TermReq c # ms) \<longleftrightarrow> (c \<in> K \<or> TermAck \<in> set ms) \<and> reqs_ok K ms"
| "reqs_ok K (m # ms) \<longleftrightarrow> reqs_ok K ms"

lemma mail_append [simp]:
  "numbered (ms @ ns) = numbered ms + numbered ns" "terms (ms @ ns) = terms ms + terms ns" "owns (ms @ ns) = owns ms @ owns ns"
  by (induction ms rule: numbered.induct; simp)+

lemma reqs_ok_snoc: "reqs_ok K ms \<Longrightarrow> (\<And>c. m = TermReq c \<Longrightarrow> c \<in> K) \<Longrightarrow> reqs_ok K (ms @ [m])"
  by (induction K ms rule: reqs_ok.induct) (cases m; auto)+

lemma reqs_ok_ack: "reqs_ok K' (ms @ [TermAck])"
  by (induction K' ms rule: reqs_ok.induct) auto

lemma reqs_ok_mono: "reqs_ok K ms \<Longrightarrow> K \<subseteq> K' \<Longrightarrow> reqs_ok K' ms"
  by (induction K ms rule: reqs_ok.induct) auto

lemma mail_empty:
  assumes "numbered ms = 0" "terms ms = 0" "TermAck \<notin> set ms" "reqs_ok {} ms"
  shows "ms = []"
  using assms by (cases ms rule: numbered.cases) auto

text \<open>The children of an object, and those that have been told to terminate.\<close>

definition kids :: "osys \<Rightarrow> oid \<Rightarrow> oid set" where
  "kids s x = {c. \<exists>b. objs s c = Some b \<and> owner b = Some x}"

definition told :: "osys \<Rightarrow> oid \<Rightarrow> bool" where
  "told s c \<longleftrightarrow> (\<exists>b. objs s c = Some b \<and> (terminating b \<or> held b \<or> 0 < terms (omail s c)))"

definition tolds :: "osys \<Rightarrow> oid \<Rightarrow> oid set" where "tolds s x = {c \<in> kids s x. told s c}"

definition olocal :: "own \<Rightarrow> ocmd list \<Rightarrow> oid set \<Rightarrow> oid set \<Rightarrow> bool" where
  "olocal b ms K T \<longleftrightarrow>
     unat (sent_seqnum b) = unat (processed_seqnum b) + numbered ms \<and>
     term_acks b = int (card T) + int (count_list ms TermAck) \<and>
     (terminating b \<longrightarrow> owned b = {}) \<and>
     terms ms + of_bool (held b) + of_bool (terminating b) \<le> (1 :: nat) \<and>
     (owner b = None \<longrightarrow> terms ms = 0 \<and> \<not> held b) \<and>
     owned b \<union> set (owns ms) = K - T \<and> distinct (owns ms) \<and> owned b \<inter> set (owns ms) = {} \<and> reqs_ok K ms"

definition oinv :: "osys \<Rightarrow> bool" where
  "oinv s \<longleftrightarrow>
     (\<forall>x. objs s x = None \<longrightarrow> omail s x = []) \<and> (\<forall>x. onext s \<le> x \<longrightarrow> objs s x = None) \<and>
     (\<forall>x b q. objs s x = Some b \<longrightarrow> owner b = Some q \<longrightarrow> q < x \<and> objs s q \<noteq> None) \<and>
     (\<forall>x b. objs s x = Some b \<longrightarrow> owner b = None \<longrightarrow> x = 0) \<and>
     (\<forall>x b. objs s x = Some b \<longrightarrow> olocal b (omail s x) (kids s x) (tolds s x))"

lemma oinvD:
  assumes "oinv s"
  shows "objs s x = None \<Longrightarrow> omail s x = []" "onext s \<le> x \<Longrightarrow> objs s x = None"
    "objs s x = Some b \<Longrightarrow> owner b = Some q \<Longrightarrow> q < x" "objs s x = Some b \<Longrightarrow> owner b = Some q \<Longrightarrow> objs s q \<noteq> None"
    "objs s x = Some b \<Longrightarrow> olocal b (omail s x) (kids s x) (tolds s x)" "objs s x = Some b \<Longrightarrow> owner b = None \<Longrightarrow> x = 0"
  using assms by (auto simp: oinv_def)

lemma kids_finite: "oinv s \<Longrightarrow> finite (kids s x)"
proof -
  assume "oinv s"
  have "c < onext s" if "c \<in> kids s x" for c
    using that oinvD(2) [OF \<open>oinv s\<close>, of c] by (auto simp: kids_def not_le [symmetric])
  then have "kids s x \<subseteq> {..<onext s}" by auto
  then show ?thesis by (rule finite_subset) simp
qed

section \<open>Steps\<close>

text \<open>
  The object \<open>x\<close> becomes \<open>b'\<close> and its commands \<open>ms\<close>, and the children \<open>D\<close> are told to terminate. Every step but the launch and the
  deallocation of an object has this form.
\<close>

definition otell :: "oid \<Rightarrow> own \<Rightarrow> ocmd list \<Rightarrow> oid set \<Rightarrow> int \<Rightarrow> osys \<Rightarrow> osys" where
  "otell x b' ms D l s =
     s\<lparr>objs := (objs s)(x \<mapsto> b'), omail := (\<lambda>c. if c \<in> D then omail s c @ [Term l] else if c = x then ms else omail s c)\<rparr>"

lemma otell_inv:
  assumes inv: "oinv s" and x: "objs s x = Some b" and own: "owner b' = owner b" and D: "D \<subseteq> kids s x - tolds s x"
    and same: "terminating b' \<or> held b' \<or> 0 < terms ms \<longleftrightarrow> told s x \<or> owner b = None \<and> terminating b'"
    and loc: "olocal b' ms (kids s x) (tolds s x \<union> D)"
  shows "oinv (otell x b' ms D l s)" (is "oinv ?s")
proof -
  have xD: "x \<notin> D" using D oinvD(3) [OF inv, of x] by (auto simp: kids_def)
  have K: "kids ?s y = kids s y" for y using x own by (auto simp: kids_def otell_def)
  have tl: "told ?s c = (told s c \<or> c \<in> D)" if "c \<noteq> x" for c
    using that D by (auto simp: told_def otell_def kids_def)
  have tx: "told ?s x = told s x" if "owner b \<noteq> None"
  proof -
    have "told ?s x = (terminating b' \<or> held b' \<or> 0 < terms ms)" using xD by (simp add: told_def otell_def)
    then show ?thesis using same that by auto
  qed
  have T: "tolds ?s y = tolds s y \<union> (if y = x then D else {})" for y
  proof -
    have "told ?s c = (told s c \<or> y = x \<and> c \<in> D)" if c: "c \<in> kids s y" for c
    proof (cases "c = x")
      case True
      then show ?thesis using tx c x xD by (auto simp: kids_def)
    next
      case False
      then show ?thesis using tl c D by (auto simp: kids_def)
    qed
    then show ?thesis using D by (auto simp: tolds_def K)
  qed
  have "olocal a (omail ?s y) (kids ?s y) (tolds ?s y)" if a: "objs ?s y = Some a" for y a
  proof (cases "y = x")
    case True
    then show ?thesis using a loc xD by (simp add: K T) (simp add: otell_def)
  next
    case False
    then have a': "objs s y = Some a" using a by (simp add: otell_def)
    note old = oinvD(5) [OF inv a']
    show ?thesis
    proof (cases "y \<in> D")
      case True
      then have "\<not> told s y" "owner a \<noteq> None" using D a' by (auto simp: tolds_def kids_def)
      then have "\<not> terminating a" "\<not> held a" "terms (omail s y) = 0" using a' by (auto simp: told_def)
      moreover have "omail ?s y = omail s y @ [Term l]" using True by (simp add: otell_def)
      ultimately show ?thesis
        using old False \<open>owner a \<noteq> None\<close> reqs_ok_snoc [of "kids s y" "omail s y" "Term l"] by (simp add: K T olocal_def)
    next
      case nD: False
      then show ?thesis using old False by (simp add: K T) (simp add: otell_def)
    qed
  qed
  moreover have "objs ?s y = None \<Longrightarrow> omail ?s y = []" for y
    using oinvD(1) [OF inv, of y] D by (auto simp: otell_def kids_def split: if_splits)
  moreover have "onext s \<le> y \<Longrightarrow> objs ?s y = None" for y
    using oinvD(2) [OF inv, of y] x by (auto simp: otell_def)
  moreover have "objs ?s y = Some a \<Longrightarrow> owner a = Some q \<Longrightarrow> q < y \<and> objs ?s q \<noteq> None" for y a q
    using oinvD(3,4) [OF inv, of y _ q] x own by (cases "y = x") (auto simp: otell_def)
  moreover have "objs ?s y = Some a \<Longrightarrow> owner a = None \<Longrightarrow> y = 0" for y a
    using oinvD(6) [OF inv, of y] x own by (cases "y = x") (auto simp: otell_def)
  ultimately show ?thesis by (simp add: oinv_def) (simp add: otell_def)
qed

text \<open>The deallocation of an object.\<close>

lemma can_destroy_iff:
  assumes "olocal b ms K T"
  shows "can_destroy b \<longleftrightarrow> terminating b \<and> numbered ms = 0 \<and> card T = 0 \<and> TermAck \<notin> set ms"
proof -
  have "unat (sent_seqnum b) < 2 ^ 32" using unsigned_less [of "sent_seqnum b", where 'a = nat] by simp
  then have "unat (ucast (sent_seqnum b) :: u64) = unat (sent_seqnum b)"
    by (simp add: unsigned_ucast_eq take_bit_nat_eq_self)
  then have "processed_seqnum b = ucast (sent_seqnum b) \<longleftrightarrow> unat (processed_seqnum b) = unat (sent_seqnum b)"
    by (metis word_unat_eq_iff)
  moreover have "TermAck \<notin> set ms \<longleftrightarrow> count_list ms TermAck = 0" by (simp add: count_list_0_iff)
  ultimately show ?thesis using assms by (auto simp: can_destroy_def olocal_def)
qed

lemma check_inv:
  assumes inv: "oinv s" and x: "objs s x = Some b"
  shows "\<exists>s'. check_term_acks x s = Some s' \<and> oinv s' \<and> objs s' = (if can_destroy b then (objs s)(x := None) else objs s)"
proof (cases "can_destroy b")
  case False
  then show ?thesis using x inv by (simp add: check_term_acks_def)
next
  case True
  note loc = oinvD(5) [OF inv x]
  have d: "terminating b" "numbered (omail s x) = 0" "TermAck \<notin> set (omail s x)" and T0: "tolds s x = {}"
    using can_destroy_iff [OF loc] True kids_finite [OF inv, of x] by (auto simp: tolds_def)
  have "owns ms = [] \<or> 0 < numbered ms" for ms by (induction ms rule: numbered.induct) auto
  then have "owns (omail s x) = []" using d(2) by (metis less_numeral_extra(3))
  then have K0: "kids s x = {}" and ow: "owned b = {}" using loc T0 d(1) by (auto simp: olocal_def)
  have m0: "omail s x = []"
    by (rule mail_empty) (use loc d K0 in \<open>auto simp: olocal_def\<close>)
  define s' where "s' = (case owner b of None \<Rightarrow> s | Some q \<Rightarrow> osend q TermAck s)\<lparr>objs := (objs s)(x := None)\<rparr>"
  have run: "check_term_acks x s = Some s'"
    using x True ow by (auto simp: check_term_acks_def s'_def osend_def split: option.splits)
  have mail: "omail s' y = (if owner b = Some y then omail s y @ [TermAck] else omail s y)" for y
    by (auto simp: s'_def osend_def split: option.splits)
  have objs: "objs s' = (objs s)(x := None)" "onext s' = onext s" by (auto simp: s'_def osend_def split: option.splits)
  have K: "kids s' y = kids s y - {x}" for y by (auto simp: kids_def objs)
  have "told s' c = told s c" if "c \<noteq> x" for c using that by (simp add: told_def objs mail)
  then have T: "tolds s' y = tolds s y - {x}" for y by (auto simp: tolds_def K)
  have tx: "told s x" using x d(1) by (simp add: told_def)
  have "olocal a (omail s' y) (kids s' y) (tolds s' y)" if a: "objs s' y = Some a" for y a
  proof -
    have a': "objs s y = Some a" "y \<noteq> x" using a by (auto simp: objs split: if_splits)
    note old = oinvD(5) [OF inv a'(1)]
    show ?thesis
    proof (cases "owner b = Some y")
      case True
      then have xT: "x \<in> tolds s y" using x tx by (simp add: tolds_def kids_def)
      have fin: "finite (tolds s y)" using kids_finite [OF inv, of y] by (simp add: tolds_def)
      have "card (tolds s y) = Suc (card (tolds s y - {x}))" using card.remove [OF fin xT] by simp
      moreover have "kids s y - {x} - (tolds s y - {x}) = kids s y - tolds s y" using xT by auto
      ultimately show ?thesis using old True by (simp add: K T mail olocal_def reqs_ok_ack)
    next
      case False
      then have "x \<notin> kids s y" using x by (auto simp: kids_def)
      then have "kids s' y = kids s y" "tolds s' y = tolds s y" by (auto simp: K T) (auto simp: tolds_def)
      then show ?thesis using old False by (simp add: mail)
    qed
  qed
  moreover have "objs s' y = None \<Longrightarrow> omail s' y = []" for y
    using oinvD(1) [OF inv, of y] oinvD(4) [OF inv x, of y] oinvD(3) [OF inv x, of y] m0 by (auto simp: objs mail split: if_splits)
  moreover have "onext s' \<le> y \<Longrightarrow> objs s' y = None" for y using oinvD(2) [OF inv, of y] by (simp add: objs)
  moreover have "q < y \<and> objs s' q \<noteq> None" if "objs s' y = Some a" "owner a = Some q" for y a q
  proof -
    have "y \<in> kids s q" "objs s y = Some a" using that by (auto simp: objs kids_def split: if_splits)
    then show ?thesis using oinvD(3,4) [OF inv, of y a q] that(2) K0 by (auto simp: objs)
  qed
  moreover have "objs s' y = Some a \<Longrightarrow> owner a = None \<Longrightarrow> y = 0" for y a
    using oinvD(6) [OF inv, of y a] by (auto simp: objs split: if_splits)
  ultimately have "oinv s'" by (auto simp: oinv_def)
  then show ?thesis using run objs(1) True by simp
qed

text \<open>No object that could be deallocated is left standing.\<close>

definition settled :: "osys \<Rightarrow> bool" where
  "settled s \<longleftrightarrow> (\<forall>x b. objs s x = Some b \<longrightarrow> \<not> can_destroy b)"

definition onice :: "osys \<Rightarrow> bool" where "onice s \<longleftrightarrow> oinv s \<and> settled s"

text \<open>The step of \<open>x\<close> that \<open>otell\<close> describes is one of the protocol.\<close>

definition otell_ok :: "oid \<Rightarrow> own \<Rightarrow> ocmd list \<Rightarrow> oid set \<Rightarrow> osys \<Rightarrow> bool" where
  "otell_ok x b' ms D s \<longleftrightarrow>
     (\<exists>b. objs s x = Some b \<and> owner b' = owner b \<and> D \<subseteq> kids s x - tolds s x \<and> (terminating b \<longrightarrow> terminating b') \<and>
       (terminating b' \<or> held b' \<or> 0 < terms ms \<longleftrightarrow> told s x \<or> owner b = None \<and> terminating b') \<and>
       olocal b' ms (kids s x) (tolds s x \<union> D))"

text \<open>What is still to be done: the commands under way, the objects to tell, to terminate and to deallocate.\<close>

definition oload :: "osys \<Rightarrow> oid \<Rightarrow> nat" where
  "oload s x = length (omail s x) +
     (case objs s x of None \<Rightarrow> 0 | Some b \<Rightarrow> 1 + of_bool (\<not> told s x) + of_bool (\<not> terminating b))"

definition ototal :: "osys \<Rightarrow> nat" where "ototal s = (\<Sum>x<onext s. oload s x)"

text \<open>A step of \<open>x\<close> after which the commands \<open>ms\<close> are left to it.\<close>

definition onto :: "oid \<Rightarrow> ocmd list \<Rightarrow> osys \<Rightarrow> osys \<Rightarrow> bool" where
  "onto x ms s s' \<longleftrightarrow> onice s' \<and> (length ms < length (omail s x) \<longrightarrow> ototal s' < ototal s) \<and>
     (\<forall>y a'. objs s' y = Some a' \<longrightarrow> (\<exists>a. objs s y = Some a \<and> (terminating a \<longrightarrow> terminating a')))"

lemma otell_load:
  assumes nice: "onice s" and ok: "otell_ok x b' ms D s"
    and less: "length ms < length (omail s x) \<or> length ms = length (omail s x) \<and> terminating b' \<and> (\<exists>b. objs s x = Some b \<and> \<not> terminating b)"
  shows "ototal (otell x b' ms D l s) < ototal s"
proof -
  obtain b where b: "objs s x = Some b" "D \<subseteq> kids s x - tolds s x" "terminating b \<longrightarrow> terminating b'"
    "terminating b' \<or> held b' \<or> 0 < terms ms \<longleftrightarrow> told s x \<or> owner b = None \<and> terminating b'"
    using ok by (auto simp: otell_ok_def)
  let ?s = "otell x b' ms D l s"
  have inv: "oinv s" using nice by (simp add: onice_def)
  have "x \<notin> kids s x" using oinvD(3) [OF inv, of x] by (auto simp: kids_def)
  then have xD: "x \<notin> D" using b(2) by auto
  have lt: "oload ?s x < oload s x"
  proof -
    have "told ?s x = (told s x \<or> owner b = None \<and> terminating b')" using b(4) xD by (simp add: told_def otell_def)
    then show ?thesis using b(1,3) less xD by (auto simp: oload_def otell_def)
  qed
  have le: "oload ?s y \<le> oload s y" for y
  proof (cases "y \<in> D")
    case True
    then obtain a where "objs s y = Some a" "\<not> told s y" "y \<noteq> x" using b(2) xD by (auto simp: tolds_def kids_def)
    then show ?thesis using True by (auto simp: oload_def otell_def told_def)
  next
    case False
    then show ?thesis using lt by (cases "y = x") (auto simp: oload_def otell_def told_def)
  qed
  have "x < onext s" using oinvD(2) [OF inv, of x] b(1) by (auto simp: not_le [symmetric])
  then have "(\<Sum>y<onext s. oload ?s y) < (\<Sum>y<onext s. oload s y)"
    by (intro sum_strict_mono_ex1) (use le lt in auto)
  moreover have "onext ?s = onext s" by (simp add: otell_def)
  ultimately show ?thesis by (simp add: ototal_def)
qed

lemma otell_mono:
  assumes "otell_ok x b' ms D s" "objs (otell x b' ms D l s) y = Some a'"
  shows "\<exists>a. objs s y = Some a \<and> (terminating a \<longrightarrow> terminating a')"
proof (cases "y = x")
  case True
  then show ?thesis using assms by (auto simp: otell_ok_def otell_def)
next
  case False
  then show ?thesis using assms(2) by (auto simp: otell_def)
qed

lemma otell_plain:
  assumes "onice s" "otell_ok x b' ms D s" "\<not> can_destroy b'"
  shows "onto x ms s (otell x b' ms D l s)"
proof -
  have "oinv (otell x b' ms D l s)" using assms(1,2) by (auto simp: onice_def otell_ok_def intro: otell_inv)
  then have "onice (otell x b' ms D l s)" using assms(1,3) by (auto simp: onice_def settled_def otell_def)
  then show ?thesis using otell_load [OF assms(1,2), of l] otell_mono [OF assms(2), of l] by (auto simp: onto_def)
qed

lemma check_load:
  assumes inv: "oinv s" and x: "objs s x = Some b" and run: "check_term_acks x s = Some s'"
  shows "ototal s' \<le> ototal s"
proof (cases "can_destroy b")
  case False
  then show ?thesis using x run by (simp add: check_term_acks_def)
next
  case True
  then have tx: "told s x" "terminating b" using x by (auto simp: told_def can_destroy_def)
  have s': "objs s' = (objs s)(x := None)" "onext s' = onext s"
    "omail s' = (\<lambda>y. if owner b = Some y then omail s y @ [TermAck] else omail s y)"
    using x True run by (auto simp: check_term_acks_def osend_def bind_eq_Some_conv split: option.splits)
  have td: "told s' y = told s y" if "y \<noteq> x" for y using that by (simp add: told_def s')
  have xn: "x < onext s" using oinvD(2) [OF inv, of x] x by (auto simp: not_le [symmetric])
  have ox: "owner b \<noteq> Some x" using oinvD(3) [OF inv x] by blast
  have "oload s' x + 1 = oload s x" using x tx ox by (simp add: oload_def s')
  then have split: "ototal s = oload s' x + 1 + (\<Sum>y\<in>{..<onext s} - {x}. oload s y)"
    using xn by (simp add: ototal_def sum.remove [of "{..<onext s}" x])
  have ptw: "oload s' y = oload s y + of_bool (owner b = Some y)" if "y \<noteq> x" for y
    using that td by (simp add: oload_def s')
  have "(\<Sum>y\<in>{..<onext s} - {x}. oload s' y) = (\<Sum>y\<in>{..<onext s} - {x}. oload s y) + (\<Sum>y\<in>{..<onext s} - {x}. of_bool (owner b = Some y))"
    by (simp add: ptw sum.distrib)
  moreover have "(\<Sum>y\<in>{..<onext s} - {x}. of_bool (owner b = Some y)) \<le> (1 :: nat)"
    by (cases "owner b") (auto simp: of_bool_def sum.delta)
  moreover have "ototal s' = oload s' x + (\<Sum>y\<in>{..<onext s} - {x}. oload s' y)"
    using xn by (simp add: ototal_def s'(2) sum.remove [of "{..<onext s}" x])
  ultimately show ?thesis using split by linarith
qed

lemma otell_check:
  assumes "onice s" "otell_ok x b' ms D s"
  shows "\<exists>s'. check_term_acks x (otell x b' ms D l s) = Some s' \<and> onto x ms s s' \<and>
    (length ms = length (omail s x) \<longrightarrow> terminating b' \<longrightarrow> (\<exists>b. objs s x = Some b \<and> \<not> terminating b) \<longrightarrow> ototal s' < ototal s)"
proof -
  let ?s = "otell x b' ms D l s"
  have inv: "oinv ?s" using assms by (auto simp: onice_def otell_ok_def intro: otell_inv)
  moreover have b': "objs ?s x = Some b'" by (simp add: otell_def)
  ultimately obtain s' where s': "check_term_acks x ?s = Some s'" "oinv s'"
    "objs s' = (if can_destroy b' then (objs ?s)(x := None) else objs ?s)"
    using check_inv by blast
  have "onice s'" using s' assms(1) by (auto simp: onice_def settled_def otell_def)
  moreover have "\<exists>a. objs s y = Some a \<and> (terminating a \<longrightarrow> terminating a')" if "objs s' y = Some a'" for y a'
    using that s'(3) otell_mono [OF assms(2), of l y a'] by (auto split: if_splits)
  ultimately show ?thesis
    using s'(1) check_load [OF inv b' s'(1)] otell_load [OF assms, of l] by (auto simp: onto_def)
qed

text \<open>What is known of the object that acts.\<close>

lemma onice_local:
  assumes "onice s" "objs s x = Some b"
  shows "olocal b (omail s x) (kids s x) (tolds s x)" "told s x \<longleftrightarrow> terminating b \<or> held b \<or> 0 < terms (omail s x)"
    "finite (tolds s x)" "x \<notin> kids s x"
  using assms oinvD [of s x] kids_finite [of s x] by (auto simp: onice_def told_def tolds_def kids_def)

lemma otell_oset: "oset x b' (s\<lparr>omail := (omail s)(x := q)\<rparr>) = otell x b' q {} l s"
  by (simp add: oset_def otell_def fun_upd_def)

lemma otell_send: "c \<noteq> x \<Longrightarrow> osend c (Term l) (oset x b' (s\<lparr>omail := (omail s)(x := q)\<rparr>)) = otell x b' q {c} l s"
  by (auto simp: oset_def osend_def otell_def intro!: arg_cong2 [of _ _ _ _ "\<lambda>f g. s\<lparr>objs := f, omail := g\<rparr>"])

lemma oset_oset [simp]: "oset x b (oset x a s) = oset x b s" "objs (oset x b s) x = Some b"
  "oset x b (osend c m (oset x a s)) = osend c m (oset x b s)" "objs (osend c m s) = objs s"
  by (simp_all add: oset_def osend_def)

text \<open>The counter of processed commands stays behind that of sent ones and does not wrap.\<close>

lemma processed_Suc:
  assumes "olocal b ms K T" "0 < numbered ms"
  shows "unat (processed_seqnum b + 1) = Suc (unat (processed_seqnum b))"
proof -
  have "unat (sent_seqnum b) < 2 ^ 32" using unsigned_less [of "sent_seqnum b", where 'a = nat] by simp
  then have "unat (processed_seqnum b) + 1 < 2 ^ 64" using assms by (simp add: olocal_def)
  then show ?thesis by (simp add: unat_word_ariths)
qed

lemma seqnum_step:
  assumes "onice s" "objs s x = Some b" "omail s x = m # q" "m \<in> {Plug, Numbered}"
  shows "\<exists>s'. process_seqnum x (s\<lparr>omail := (omail s)(x := q)\<rparr>) = Some s' \<and> onto x q s s'"
proof -
  note l = onice_local [OF assms(1,2)]
  let ?b = "b\<lparr>processed_seqnum := processed_seqnum b + 1\<rparr>"
  have "otell_ok x ?b q {} s"
    using l assms(2,3,4) processed_Suc [OF l(1)] by (auto simp: otell_ok_def olocal_def)
  from otell_check [OF assms(1) this, of 0] show ?thesis
    using assms(2) by (auto simp: process_seqnum_def otell_oset [of _ _ _ _ 0])
qed

lemma otell_simps [simp]:
  "objs (otell x b q D l s) x = Some b" "oset x b' (otell x b q D l s) = otell x b' q D l s"
  by (simp_all add: otell_def oset_def)

lemma otell_id: "objs s x = Some b \<Longrightarrow> s\<lparr>omail := (omail s)(x := q)\<rparr> = otell x b q {} l s"
  by (cases s) (auto simp: otell_def fun_upd_def)

lemma own_step:
  assumes "onice s" "objs s x = Some b" "omail s x = Own c # q"
  shows "\<exists>s'. own_command x linger hold (Own c) (s\<lparr>omail := (omail s)(x := q)\<rparr>) = Some s' \<and> onto x q s s'"
proof -
  note l = onice_local [OF assms(1,2)]
  have c: "c \<in> kids s x - tolds s x" "c \<noteq> x" using l assms(3) by (auto simp: olocal_def)
  let ?p = "processed_seqnum b + 1"
  show ?thesis
  proof (cases "terminating b")
    case True
    let ?b = "b\<lparr>term_acks := term_acks b + 1, processed_seqnum := ?p\<rparr>"
    have "card (insert c (tolds s x)) = Suc (card (tolds s x))" using l(3) c by simp
    then have "otell_ok x ?b q {c} s"
      using l assms(2,3) c True processed_Suc [OF l(1)] by (auto simp: otell_ok_def olocal_def)
    from otell_check [OF assms(1) this, of 0] show ?thesis
      using assms(2) True by (simp add: process_own_def process_seqnum_def otell_send [OF c(2)])
  next
    case False
    let ?b = "b\<lparr>owned := insert c (owned b), processed_seqnum := ?p\<rparr>"
    have "otell_ok x ?b q {} s"
      using l assms(2,3) False processed_Suc [OF l(1)] by (auto simp: otell_ok_def olocal_def)
    from otell_check [OF assms(1) this, of 0] show ?thesis
      using assms(2) False by (simp add: process_own_def process_seqnum_def otell_oset [of _ _ _ _ 0])
  qed
qed

lemma term_req_step:
  assumes "onice s" "objs s x = Some b" "omail s x = TermReq c # q \<or> omail s x = q"
  shows "\<exists>s'. process_term_req x linger c (s\<lparr>omail := (omail s)(x := q)\<rparr>) = Some s' \<and> onto x q s s'"
proof -
  note l = onice_local [OF assms(1,2)]
  have t: "terms q = terms (omail s x)" using assms(3) by auto
  have lq: "olocal b q (kids s x) (tolds s x)" using l(1) assms(3) by (auto simp: olocal_def)
  have nd: "\<not> can_destroy b" using assms(1,2) by (auto simp: onice_def settled_def)
  show ?thesis
  proof (cases "terminating b \<or> c \<notin> owned b")
    case True
    have "otell_ok x b q {} s" using lq l(2) t assms(2) by (auto simp: otell_ok_def olocal_def)
    from otell_plain [OF assms(1) this nd, of 0] show ?thesis
      using assms(2) True by (auto simp: process_term_req_def otell_id [of s x b q 0])
  next
    case False
    then have c: "c \<in> kids s x - tolds s x" "c \<noteq> x" "c \<in> owned b" using l(4) lq by (auto simp: olocal_def)
    let ?b = "b\<lparr>owned := owned b - {c}, term_acks := term_acks b + 1\<rparr>"
    have "card (insert c (tolds s x)) = Suc (card (tolds s x))" using l(3) c by simp
    moreover have "(owned b - {c}) \<union> set (owns q) = kids s x - (tolds s x \<union> {c})" using lq c(3) by (auto simp: olocal_def)
    ultimately have "otell_ok x ?b q {c} s"
      using lq l(2) t assms(2) c(1) False unfolding otell_ok_def olocal_def by auto
    moreover have "\<not> can_destroy ?b" using False by (simp add: can_destroy_def)
    ultimately show ?thesis
      using otell_plain [OF assms(1), of x ?b q "{c}" linger] assms(2) False by (simp add: process_term_req_def otell_send [OF c(2)])
  qed
qed

lemma own_term_step:
  assumes "onice s" "objs s x = Some b" "\<not> terminating b" "omail s x = Term l # q \<or> omail s x = q \<and> (held b \<or> owner b = None)"
  shows "\<exists>s'. own_term x linger (s\<lparr>omail := (omail s)(x := q)\<rparr>) = Some s' \<and> onto x q s s' \<and> (q = omail s x \<longrightarrow> ototal s' < ototal s)"
proof -
  note l = onice_local [OF assms(1,2)]
  let ?b = "b\<lparr>owned := {}, term_acks := term_acks b + int (card (owned b)), terminating := True, held := False\<rparr>"
  have D: "owned b \<subseteq> kids s x - tolds s x" using l(1) by (auto simp: olocal_def)
  then have "finite (owned b)" using finite_subset [OF _ kids_finite [of s x]] assms(1) by (auto simp: onice_def)
  moreover have "tolds s x \<inter> owned b = {}" using D by auto
  ultimately have card: "card (tolds s x \<union> owned b) = card (tolds s x) + card (owned b)"
    using l(3) by (simp add: card_Un_disjoint)
  have t0: "terms q = 0" using l(1) assms(4) by (auto simp: olocal_def)
  have un: "set (owns q) = kids s x - (tolds s x \<union> owned b)" using l(1) assms(4) by (auto simp: olocal_def)
  have "olocal ?b q (kids s x) (tolds s x \<union> owned b)"
    using l(1) assms(4) card t0 un by (auto simp: olocal_def)
  then have ok: "otell_ok x ?b q (owned b) s"
    using assms(2,4) D l(2) by (auto simp: otell_ok_def)
  have xo: "x \<notin> owned b" using D l(4) by auto
  have "oset x ?b (s\<lparr>omail := (\<lambda>c. if c \<in> owned b then omail (s\<lparr>omail := (omail s)(x := q)\<rparr>) c @ [Term linger]
        else omail (s\<lparr>omail := (omail s)(x := q)\<rparr>) c)\<rparr>) =
      otell x ?b q (owned b) linger s"
    using xo by (intro osys.equality) (auto simp: oset_def otell_def)
  then show ?thesis
    using otell_check [OF assms(1) ok, of linger] assms(2,3) by (auto simp: own_term_def)
qed

lemma hold_step:
  assumes "onice s" "objs s x = Some b" "omail s x = Term l # q"
  shows "onto x q s (oset x (b\<lparr>held := True\<rparr>) (s\<lparr>omail := (omail s)(x := q)\<rparr>))"
proof -
  note l = onice_local [OF assms(1,2)]
  have "otell_ok x (b\<lparr>held := True\<rparr>) q {} s" using l assms(2,3) by (auto simp: otell_ok_def olocal_def)
  moreover have "\<not> can_destroy (b\<lparr>held := True\<rparr>)" using l(1) assms(3) by (auto simp: olocal_def can_destroy_def)
  ultimately show ?thesis using otell_plain [OF assms(1), of x _ q "{}" 0] by (simp add: otell_oset [of _ _ _ _ 0])
qed

lemma ack_step:
  assumes "onice s" "objs s x = Some b" "omail s x = TermAck # q"
  shows "\<exists>s'. process_term_ack x (s\<lparr>omail := (omail s)(x := q)\<rparr>) = Some s' \<and> onto x q s s'"
proof -
  note l = onice_local [OF assms(1,2)]
  have "otell_ok x (b\<lparr>term_acks := term_acks b - 1\<rparr>) q {} s" using l assms(2,3) by (auto simp: otell_ok_def olocal_def)
  from otell_check [OF assms(1) this, of 0] show ?thesis
    using assms(2) l(1) assms(3) by (simp add: process_term_ack_def otell_oset [of _ _ _ _ 0] olocal_def)
qed

lemma deliver_step:
  assumes "onice s" "omail s x = m # q"
  shows "\<exists>s'. own_command x linger hold m (s\<lparr>omail := (omail s)(x := q)\<rparr>) = Some s' \<and> onto x q s s'"
proof -
  obtain b where b: "objs s x = Some b" using oinvD(1) [of s x] assms by (cases "objs s x") (auto simp: onice_def)
  note l = onice_local [OF assms(1) b]
  show ?thesis
  proof (cases m)
    case (Own c)
    then show ?thesis using own_step [OF assms(1) b] assms(2) by blast
  next
    case (TermReq c)
    then show ?thesis using term_req_step [OF assms(1) b] assms(2) by simp
  next
    case (Term i)
    then have "\<not> terminating b" using l(1) assms(2) by (auto simp: olocal_def)
    then show ?thesis using own_term_step [OF assms(1) b, of i q] hold_step [OF assms(1) b, of i q] assms(2) Term b by simp
  next
    case TermAck
    then show ?thesis using ack_step [OF assms(1) b] assms(2) by simp
  qed (use seqnum_step [OF assms(1) b assms(2)] in simp_all)
qed

text \<open>Commands that arrive from elsewhere.\<close>

lemma sent_Suc: "room b \<Longrightarrow> unat (sent_seqnum b + 1) = Suc (unat (sent_seqnum b))"
  by (simp add: room_def unat_word_ariths)

lemma post_step:
  assumes "onice s" "objs s x = Some b" "room b"
  shows "onice (osend x Numbered (oset x (inc_seqnum b) s))"
proof -
  note l = onice_local [OF assms(1,2)]
  have lo: "olocal (inc_seqnum b) (omail s x @ [Numbered]) (kids s x) (tolds s x)"
    using l(1) sent_Suc [OF assms(3)] reqs_ok_snoc [of "kids s x" "omail s x" Numbered] by (auto simp: olocal_def inc_seqnum_def)
  have "otell_ok x (inc_seqnum b) (omail s x @ [Numbered]) {} s"
    using lo l(2) assms(2) by (auto simp: otell_ok_def inc_seqnum_def olocal_def)
  moreover have "\<not> can_destroy (inc_seqnum b)" using can_destroy_iff [OF lo] by simp
  ultimately have "onice (otell x (inc_seqnum b) (omail s x @ [Numbered]) {} 0 s)" using assms(1) otell_plain by (auto simp: onto_def)
  moreover have "osend x Numbered (oset x (inc_seqnum b) s) = otell x (inc_seqnum b) (omail s x @ [Numbered]) {} 0 s"
    by (rule osys.equality) (auto simp: oset_def osend_def otell_def)
  ultimately show ?thesis by simp
qed

lemma request_step:
  assumes "onice s" "objs s x = Some b" "\<not> terminating b" "owner b = Some p"
  shows "onice (osend p (TermReq x) s)"
proof -
  obtain a where a: "objs s p = Some a" using oinvD(4) [of s x b p] assms by (auto simp: onice_def)
  note l = onice_local [OF assms(1) a]
  have "x \<in> kids s p" using assms(2,4) by (simp add: kids_def)
  then have lo: "olocal a (omail s p @ [TermReq x]) (kids s p) (tolds s p)"
    using l(1) reqs_ok_snoc [of "kids s p" "omail s p" "TermReq x"] by (auto simp: olocal_def)
  have "otell_ok p a (omail s p @ [TermReq x]) {} s" using lo l(2) a by (auto simp: otell_ok_def olocal_def)
  moreover have "\<not> can_destroy a" using assms(1) a by (auto simp: onice_def settled_def)
  ultimately have "onice (otell p a (omail s p @ [TermReq x]) {} 0 s)" using assms(1) otell_plain by (auto simp: onto_def)
  moreover have "osend p (TermReq x) s = otell p a (omail s p @ [TermReq x]) {} 0 s"
    using a by (intro osys.equality) (auto simp: osend_def otell_def)
  ultimately show ?thesis by simp
qed

lemma launch_step:
  assumes nice: "onice s" and x: "objs s x = Some b" and room: "room b"
  shows "\<exists>s'. launch_child x s = Some s' \<and> onice s'"
proof -
  let ?c = "onext s" and ?n = "inc_seqnum (own_new (Some x))"
  have inv: "oinv s" using nice by (simp add: onice_def)
  note l = onice_local [OF nice x]
  have c: "objs s ?c = None" "omail s ?c = []" "x < ?c" using oinvD(1,2) [OF inv] x by (auto simp: not_le [symmetric])
  define s' where "s' = osend x (Own ?c) (oset x (inc_seqnum b) (osend ?c Plug (oset ?c ?n (s\<lparr>onext := ?c + 1\<rparr>))))"
  have run: "launch_child x s = Some s'" using x by (simp add: launch_child_def s'_def Let_def)
  have objs: "objs s' = (objs s)(?c \<mapsto> ?n, x \<mapsto> inc_seqnum b)" "onext s' = Suc ?c"
    by (simp_all add: s'_def osend_def oset_def)
  have mail: "omail s' = (omail s)(?c := [Plug], x := omail s x @ [Own ?c])"
    using c by (auto simp: s'_def osend_def oset_def)
  have kc: "kids s y \<subseteq> - {?c}" "kids s ?c = {}" for y using c(1) oinvD(4) [OF inv, of _ _ ?c] by (auto simp: kids_def)
  have K: "kids s' y = (if y = x then insert ?c (kids s x) else kids s y)" for y
    using x c by (auto simp: kids_def objs inc_seqnum_def own_new_def)
  have td: "told s' y = told s y" for y
    using x c by (auto simp: told_def objs mail inc_seqnum_def own_new_def)
  have nc: "\<not> told s ?c" using c(1) by (simp add: told_def)
  have T: "tolds s' y = tolds s y" for y using nc by (auto simp: tolds_def K td)
  have cT: "?c \<notin> tolds s x" using kc(1) [of x] by (auto simp: tolds_def)
  have lx: "olocal (inc_seqnum b) (omail s x @ [Own ?c]) (insert ?c (kids s x)) (tolds s x)"
  proof -
    have "owned b \<union> set (owns (omail s x)) = kids s x - tolds s x" using l(1) by (simp add: olocal_def)
    then have "owned b \<union> set (owns (omail s x @ [Own ?c])) = insert ?c (kids s x) - tolds s x" "?c \<notin> owned b \<union> set (owns (omail s x))"
      using cT kc(1) [of x] by auto
    then show ?thesis
      using l(1) sent_Suc [OF room] reqs_ok_snoc [of "insert ?c (kids s x)" "omail s x" "Own ?c"]
        reqs_ok_mono [of "kids s x" "omail s x" "insert ?c (kids s x)"]
      by (auto simp: olocal_def inc_seqnum_def)
  qed
  have lc: "olocal ?n [Plug] {} {}" by (simp add: olocal_def inc_seqnum_def own_new_def)
  have tc: "tolds s ?c = {}" using kc(2) by (simp add: tolds_def)
  have "olocal a (omail s' y) (kids s' y) (tolds s' y)" if a: "objs s' y = Some a" for y a
    using a lx lc oinvD(5) [OF inv, of y a] c(3) kc(2) tc by (auto simp: objs mail K T split: if_splits)
  moreover have "objs s' y = None \<Longrightarrow> omail s' y = []" for y using oinvD(1) [OF inv, of y] by (auto simp: objs mail split: if_splits)
  moreover have "onext s' \<le> y \<Longrightarrow> objs s' y = None" for y using oinvD(2) [OF inv, of y] c(3) by (simp add: objs)
  moreover have "q < y \<and> objs s' q \<noteq> None" if "objs s' y = Some a" "owner a = Some q" for y a q
    using that oinvD(3,4) [OF inv, of y _ q] x c(3) by (auto simp: objs inc_seqnum_def own_new_def split: if_splits)
  moreover have "objs s' y = Some a \<Longrightarrow> owner a = None \<Longrightarrow> y = 0" for y a
    using oinvD(6) [OF inv, of y] x by (auto simp: objs inc_seqnum_def own_new_def split: if_splits)
  ultimately have "oinv s'" by (simp add: oinv_def)
  moreover have "settled s'"
  proof -
    have "\<not> can_destroy (inc_seqnum b)" using can_destroy_iff [OF lx] by simp
    moreover have "\<not> can_destroy ?n" by (simp add: can_destroy_def inc_seqnum_def own_new_def)
    ultimately show ?thesis using nice by (auto simp: onice_def settled_def objs)
  qed
  ultimately show ?thesis using run by (simp add: onice_def)
qed

lemma ostep_nice:
  assumes "onice s"
  shows "\<exists>s'. ostep a s = Some s' \<and> onice s'"
proof (cases a)
  case (Launch x)
  then show ?thesis using assms launch_step [OF assms] by (auto split: option.split)
next
  case (Post x)
  then show ?thesis using assms post_step [OF assms] by (auto split: option.split)
next
  case (Terminate x l)
  show ?thesis
  proof (cases "objs s x")
    case (Some b)
    have id: "s\<lparr>omail := (omail s)(x := omail s x)\<rparr> = s" by simp
    show ?thesis
      using Terminate Some assms request_step [OF assms Some] own_term_step [OF assms Some, of 0 "omail s x" l] id
      by (auto simp: own_terminate_def onto_def split: option.split)
  qed (use Terminate assms in simp)
next
  case (TermChild x l c)
  then show ?thesis
    using assms term_req_step [OF assms, of x _ c "omail s x" l] by (auto simp: onto_def split: option.split)
next
  case (ODeliver x l hold)
  then show ?thesis using assms deliver_step [OF assms] by (fastforce simp: onto_def split: list.split)
next
  case (Resume x l)
  show ?thesis
  proof (cases "objs s x")
    case (Some b)
    have "held b \<Longrightarrow> \<not> terminating b" using onice_local(1) [OF assms Some] by (auto simp: olocal_def)
    then show ?thesis using Resume Some assms own_term_step [OF assms Some, of 0 "omail s x" l] by (auto simp: onto_def)
  qed (use Resume assms in simp)
qed

lemma osys_new_nice: "onice osys_new"
  by (auto simp: onice_def oinv_def settled_def osys_new_def olocal_def kids_def tolds_def told_def own_new_def can_destroy_def split: if_splits)

lemma orun_nice: "onice s \<Longrightarrow> \<exists>s'. orun as s = Some s' \<and> onice s'"
proof (induction as arbitrary: s)
  case (Cons a as)
  from ostep_nice [OF Cons.prems, of a] show ?case using Cons.IH by auto
qed simp

section \<open>The end of the hierarchy\<close>

definition root_ends :: "osys \<Rightarrow> bool" where
  "root_ends s \<longleftrightarrow> (\<forall>b. objs s 0 = Some b \<longrightarrow> terminating b)"

text \<open>Without commands under way and without delays nothing is left.\<close>

lemma quiescent_empty:
  assumes nice: "onice s" and root: "root_ends s" and quiet: "\<And>x. omail s x = []" "\<And>x b. objs s x = Some b \<Longrightarrow> \<not> held b"
  shows "objs s x = None"
proof (rule ccontr)
  assume alive: "objs s x \<noteq> None"
  have inv: "oinv s" using nice by (simp add: onice_def)
  have all: "terminating b" if "objs s y = Some b" for y b
    using that
  proof (induction y arbitrary: b rule: less_induct)
    case (less y)
    show ?case
    proof (cases "owner b")
      case None
      then show ?thesis using oinvD(6) [OF inv less.prems] root less.prems by (auto simp: root_ends_def)
    next
      case (Some q)
      then obtain a where a: "objs s q = Some a" "q < y" using oinvD(3,4) [OF inv less.prems] by auto
      have "y \<in> kids s q" using less.prems Some by (simp add: kids_def)
      then have "y \<in> tolds s q" using oinvD(5) [OF inv a(1)] less.IH [OF a(2,1)] quiet(1) by (auto simp: olocal_def)
      then show ?thesis using less.prems quiet by (auto simp: tolds_def told_def)
    qed
  qed
  let ?A = "{y. objs s y \<noteq> None}"
  have "finite ?A" using oinvD(2) [OF inv] by (intro finite_subset [of ?A "{..<onext s}"]) (auto simp: not_le [symmetric])
  moreover have "?A \<noteq> {}" using alive by auto
  ultimately have m: "Max ?A \<in> ?A" "\<And>y. y \<in> ?A \<Longrightarrow> y \<le> Max ?A" by (auto intro: Max_in simp del: mem_Collect_eq)
  then obtain b where b: "objs s (Max ?A) = Some b" by auto
  have "kids s (Max ?A) = {}" using m(2) oinvD(3) [OF inv, of _ _ "Max ?A"] by (fastforce simp: kids_def)
  then have "can_destroy b"
    using can_destroy_iff [OF oinvD(5) [OF inv b]] all [OF b] quiet(1) by (simp add: tolds_def)
  then show False using nice b by (auto simp: onice_def settled_def)
qed

lemma root_ends_onto: "root_ends s \<Longrightarrow> onto x q s s' \<Longrightarrow> root_ends s'"
  by (fastforce simp: root_ends_def onto_def)

lemma own_progress:
  assumes nice: "onice s" and root: "root_ends s" and alive: "objs s y \<noteq> None"
  shows "\<exists>d s'. (\<exists>x l. d = ODeliver x l False \<or> d = Resume x l) \<and> ostep d s = Some s' \<and> onice s' \<and> root_ends s' \<and> ototal s' < ototal s"
proof -
  consider x m q where "omail s x = m # q" | x b where "objs s x = Some b" "held b"
    using quiescent_empty [OF nice root, of y] alive by (metis list.exhaust)
  then show ?thesis
  proof cases
    case 1
    from deliver_step [OF nice 1, of 0 False] obtain s' where
      "own_command x 0 False m (s\<lparr>omail := (omail s)(x := q)\<rparr>) = Some s'" "onto x q s s'" by blast
    then show ?thesis
      using 1 root_ends_onto [OF root] by (intro exI [of _ "ODeliver x 0 False"] exI [of _ s']) (auto simp: onto_def)
  next
    case 2
    have "\<not> terminating b" using onice_local(1) [OF nice 2(1)] 2(2) by (auto simp: olocal_def)
    from own_term_step [OF nice 2(1) this, of 0 "omail s x" 0] 2(2) obtain s' where
      "own_term x 0 s = Some s'" "onto x (omail s x) s s'" "ototal s' < ototal s" by auto
    then show ?thesis
      using 2 root_ends_onto [OF root] by (intro exI [of _ "Resume x 0"] exI [of _ s']) (auto simp: onto_def)
  qed
qed

lemma own_finish:
  assumes "onice s" "root_ends s"
  shows "\<exists>ds s'. (\<forall>d \<in> set ds. \<exists>x l. d = ODeliver x l False \<or> d = Resume x l) \<and> orun ds s = Some s' \<and> (\<forall>x. objs s' x = None)"
  using assms
proof (induction "ototal s" arbitrary: s rule: less_induct)
  case less
  show ?case
  proof (cases "\<forall>x. objs s x = None")
    case True
    then show ?thesis by (intro exI [of _ "[]"] exI [of _ s]) simp
  next
    case False
    then obtain y where "objs s y \<noteq> None" by blast
    from own_progress [OF less.prems this] obtain d s1 where
      d: "\<exists>x l. d = ODeliver x l False \<or> d = Resume x l" "ostep d s = Some s1" "onice s1" "root_ends s1" "ototal s1 < ototal s" by blast
    from less.hyps [OF d(5,3,4)] obtain ds s' where
      "\<forall>d \<in> set ds. \<exists>x l. d = ODeliver x l False \<or> d = Resume x l" "orun ds s1 = Some s'" "\<forall>x. objs s' x = None" by blast
    then show ?thesis using d(1,2) by (intro exI [of _ "d # ds"] exI [of _ s']) auto
  qed
qed

lemma orun_append: "orun (as @ bs) s = orun as s \<bind> orun bs"
proof (induction as arbitrary: s)
  case (Cons a as)
  then show ?case by (cases "ostep a s") simp_all
qed simp

section \<open>Properties\<close>

text \<open>C1: Objects are deallocated from the leaves to the root, and nothing talks to one that is gone. Over every history of launches,
  commands, requests to terminate by owners and by children, and deliveries in any order between objects, no assertion of \<open>own_t\<close>
  fails, no command is under way to a deallocated object or ever reaches one, and a deallocated object has no child left.\<close>

theorem own_safe:
  "\<exists>s. orun as osys_new = Some s \<and>
       (\<forall>x. objs s x = None \<longrightarrow> omail s x = [] \<and> (\<forall>c b. objs s c = Some b \<longrightarrow> owner b \<noteq> Some x))"
proof -
  obtain s where s: "orun as osys_new = Some s" "oinv s" using orun_nice [OF osys_new_nice] by (auto simp: onice_def)
  then show ?thesis using oinvD(1,4) [OF s(2)] by blast
qed

theorem own_safe_witness:
  "\<exists>s. orun [Launch 0, Terminate 0 0, Post 1, ODeliver 0 0 False, ODeliver 1 0 False, ODeliver 1 0 False, Terminate 1 0] osys_new = Some s \<and>
       (\<forall>x. objs s x = None \<longrightarrow> omail s x = [] \<and> (\<forall>c b. objs s c = Some b \<longrightarrow> owner b \<noteq> Some x))"
  by (rule own_safe)

text \<open>C2: The termination of the root ends the whole hierarchy. Whatever has happened, once the root is terminating, processing the
  commands under way, with derived classes going on with terminations they have delayed, deallocates every object.\<close>

theorem own_terminates:
  assumes "orun as osys_new = Some s" "root_ends s"
  shows "\<exists>ds s'. (\<forall>d \<in> set ds. \<exists>x l. d = ODeliver x l False \<or> d = Resume x l) \<and>
                 orun (as @ ds) osys_new = Some s' \<and> (\<forall>x. objs s' x = None)"
proof -
  have "onice s" using orun_nice [OF osys_new_nice, of as] assms(1) by auto
  from own_finish [OF this assms(2)] show ?thesis using assms(1) by (simp add: orun_append)
qed

theorem own_terminates_witness:
  "\<exists>ds s'. (\<forall>d \<in> set ds. \<exists>x l. d = ODeliver x l False \<or> d = Resume x l) \<and>
     orun ([Launch 0, ODeliver 0 0 False, Terminate 0 0, ODeliver 1 0 False, ODeliver 1 0 True] @ ds) osys_new = Some s' \<and> (\<forall>x. objs s' x = None)"
proof -
  let ?as = "[Launch 0, ODeliver 0 0 False, Terminate 0 0, ODeliver 1 0 False, ODeliver 1 0 True]"
  obtain s where s: "orun ?as osys_new = Some s" using orun_nice [OF osys_new_nice] by blast
  moreover have "root_ends s"
    using s by (auto simp: osys_new_def own_new_def root_ends_def room_def launch_child_def process_own_def process_seqnum_def check_term_acks_def
        own_terminate_def own_term_def can_destroy_def osend_def oset_def inc_seqnum_def Let_def)
  ultimately show ?thesis by (rule own_terminates)
qed

text \<open>C6: An object that has received 2\<open>^\<close>32 numbered commands can never be deallocated. The number of commands sent is a 32 bit
  counter, the number of commands processed a 64 bit one; once the first has wrapped around, \<open>check_term_acks\<close> never finds them equal
  again, although every command was processed.\<close>

theorem own_seqnum_wraps:
  assumes "N < 2 ^ 64"
  shows "can_destroy (((inc_seqnum ^^ N) (own_new ow))\<lparr>processed_seqnum := of_nat N, terminating := True\<rparr>) \<longleftrightarrow> N < 2 ^ 32"
proof -
  have sent: "sent_seqnum ((inc_seqnum ^^ n) (own_new ow)) = of_nat n" "term_acks ((inc_seqnum ^^ n) (own_new ow)) = 0" for n
    by (induction n) (simp_all add: inc_seqnum_def own_new_def)
  have "unat (of_nat N :: u64) = N" using assms by (simp add: unat_of_nat)
  moreover have "unat (of_nat N :: u32) = N mod 2 ^ 32" by (simp add: unat_of_nat)
  then have "unat (ucast (of_nat N :: u32) :: u64) = N mod 2 ^ 32"
    by (simp add: unsigned_ucast_eq take_bit_nat_eq_self)
  ultimately have "(of_nat N :: u64) = ucast (of_nat N :: u32) \<longleftrightarrow> N = N mod 2 ^ 32" by (simp add: word_unat_eq_iff)
  moreover have "N = N mod 2 ^ 32 \<longleftrightarrow> N < 2 ^ 32" by (metis mod_less mod_less_divisor zero_less_numeral zero_less_power)
  ultimately show ?thesis by (simp add: can_destroy_def sent)
qed

theorem own_seqnum_wraps_witness:
  "\<not> can_destroy (((inc_seqnum ^^ (2 ^ 32)) (own_new None))\<lparr>processed_seqnum := of_nat (2 ^ 32), terminating := True\<rparr>)"
proof -
  have "(2 :: nat) ^ 32 < 2 ^ 64" by simp
  from own_seqnum_wraps [OF this, of None] show ?thesis by blast
qed

end
