(* ===== verification/Z85.thy ===== *)
theory Z85
  imports Prelude
begin

text \<open>
  The Z85 codec of src/libzmq/src/zmq_utils.cpp. The destination is a buffer of the caller, written by index; a write
  beyond its end is undefined behaviour. The counters are \<open>unsigned int\<close>, 32 bits wide, while sizes are \<open>size_t\<close>;
  \<open>assert\<close> is enabled (no \<open>NDEBUG\<close>). A loop that does not end, a failed assertion and undefined behaviour are
  \<open>None\<close>. A string that is read is the list of its characters without the terminating NUL.
\<close>

section \<open>The code\<close>

definition z85_encoder :: string where
  "z85_encoder = ''0123456789abcdefghijklmnopqrstuvwxyzABCDEFGHIJKLMNOPQRSTUVWXYZ.-:+=^!/*?&<>()[]{}@%$#''"

definition z85_decoder :: "nat list" where
  "z85_decoder =
    [0x00, 0x44, 0x00, 0x54, 0x53, 0x52, 0x48, 0x00, 0x4B, 0x4C, 0x46, 0x41, 0x00, 0x3F, 0x3E, 0x45,
     0x00, 0x01, 0x02, 0x03, 0x04, 0x05, 0x06, 0x07, 0x08, 0x09, 0x40, 0x00, 0x49, 0x42, 0x4A, 0x47,
     0x51, 0x24, 0x25, 0x26, 0x27, 0x28, 0x29, 0x2A, 0x2B, 0x2C, 0x2D, 0x2E, 0x2F, 0x30, 0x31, 0x32,
     0x33, 0x34, 0x35, 0x36, 0x37, 0x38, 0x39, 0x3A, 0x3B, 0x3C, 0x3D, 0x4D, 0x00, 0x4E, 0x43, 0x00,
     0x00, 0x0A, 0x0B, 0x0C, 0x0D, 0x0E, 0x0F, 0x10, 0x11, 0x12, 0x13, 0x14, 0x15, 0x16, 0x17, 0x18,
     0x19, 0x1A, 0x1B, 0x1C, 0x1D, 0x1E, 0x1F, 0x20, 0x21, 0x22, 0x23, 0x4F, 0x00, 0x50, 0x00, 0x00]"

text \<open>\<open>while (divisor) { ... value / divisor % base ...; divisor /= base; }\<close>\<close>

fun digits :: "nat \<Rightarrow> nat \<Rightarrow> nat \<Rightarrow> nat list" where
  "digits base divisor value =
     (if divisor = 0 \<or> base \<le> 1 then [] else (value div divisor mod base) # digits base (divisor div base) value)"

declare digits.simps [simp del]

text \<open>\<open>dest [n++] = x\<close> for the values of the inner loop, one after the other.\<close>

fun z85_put :: "'a list \<Rightarrow> u32 \<Rightarrow> 'a list \<Rightarrow> (u32 \<times> 'a list) option" where
  "z85_put [] n dest = Some (n, dest)"
| "z85_put (x # xs) n dest = (if unat n < length dest then z85_put xs (n + 1) (dest[unat n := x]) else None)"

partial_function (option) z85_encode_loop :: "byte list \<Rightarrow> u32 \<Rightarrow> u32 \<Rightarrow> nat \<Rightarrow> string \<Rightarrow> (u32 \<times> string) option" where
  "z85_encode_loop data byte_nbr char_nbr value dest =
     (if unat byte_nbr < length data
      then let value = (value * 256 + unat (data ! unat byte_nbr)) mod 2 ^ 32;
               byte_nbr = byte_nbr + 1
           in if unat byte_nbr mod 4 = 0
              then do { (char_nbr, dest) \<leftarrow> z85_put (map (\<lambda>k. z85_encoder ! k) (digits 85 (85 * 85 * 85 * 85) value)) char_nbr dest;
                        z85_encode_loop data byte_nbr char_nbr 0 dest }
              else z85_encode_loop data byte_nbr char_nbr value dest
      else Some (char_nbr, dest))"

declare z85_encode_loop.simps [code]

definition zmq_z85_encode :: "string \<Rightarrow> byte list \<Rightarrow> (errno + string) option" where
  "zmq_z85_encode dest data =
     (if length data mod 4 \<noteq> 0 then Some (Inl EINVAL)
      else do { (char_nbr, dest) \<leftarrow> z85_encode_loop data 0 0 0 dest;
                zmq_assert (unat char_nbr = length data * 5 mod 2 ^ 64 div 4);
                (_, dest) \<leftarrow> z85_put [CHR 0x00] char_nbr dest;
                Some (Inr dest) })"

text \<open>An index outside of the table is undefined behaviour.\<close>

definition z85_value :: "char \<Rightarrow> nat option" where
  "z85_value c = (let k = of_char c :: nat in if 32 \<le> k \<and> k - 32 < length z85_decoder then Some (z85_decoder ! (k - 32)) else None)"

partial_function (option) z85_decode_loop :: "string \<Rightarrow> u32 \<Rightarrow> u32 \<Rightarrow> u32 \<Rightarrow> nat \<Rightarrow> byte list \<Rightarrow> (u32 \<times> byte list) option" where
  "z85_decode_loop s string_len char_nbr byte_nbr value dest =
     (if char_nbr < string_len
      then do { d \<leftarrow> z85_value (s ! unat char_nbr);
                let value = (value * 85 + d) mod 2 ^ 32;
                let char_nbr = char_nbr + 1;
                if unat char_nbr mod 5 = 0
                then do { (byte_nbr, dest) \<leftarrow> z85_put (map of_nat (digits 256 (256 * 256 * 256) value)) byte_nbr dest;
                          z85_decode_loop s string_len char_nbr byte_nbr 0 dest }
                else z85_decode_loop s string_len char_nbr byte_nbr value dest }
      else Some (byte_nbr, dest))"

declare z85_decode_loop.simps [code]

text \<open>\<open>unsigned int string_len = strlen (string)\<close> truncates.\<close>

definition zmq_z85_decode :: "byte list \<Rightarrow> string \<Rightarrow> (errno + byte list) option" where
  "zmq_z85_decode dest s =
     (if length s mod 5 \<noteq> 0 then Some (Inl EINVAL)
      else do { let string_len = of_nat (length s);
                (byte_nbr, dest) \<leftarrow> z85_decode_loop s string_len 0 0 0 dest;
                zmq_assert (unat byte_nbr = length s * 4 mod 2 ^ 64 div 5);
                Some (Inr dest) })"

section \<open>Correctness\<close>

lemma digits_85: "digits 85 (85 * 85 * 85 * 85) v =
    [v div 52200625 mod 85, v div 614125 mod 85, v div 7225 mod 85, v div 85 mod 85, v mod 85]"
  by (simp add: digits.simps)

lemmas digits_85_num = digits_85 [simplified]

lemma digits_256: "digits 256 (256 * 256 * 256) v = [v div 16777216 mod 256, v div 65536 mod 256, v div 256 mod 256, v mod 256]"
  by (simp add: digits.simps)

lemma z85_tables_map: "map z85_value z85_encoder = map Some [0..<85]"
  by (simp add: z85_encoder_def z85_value_def z85_decoder_def upt_rec)

lemma z85_tables: "k < 85 \<Longrightarrow> z85_value (z85_encoder ! k) = Some k"
proof -
  assume "k < 85"
  moreover have "length z85_encoder = 85" by (simp add: z85_encoder_def)
  ultimately show ?thesis using arg_cong [OF z85_tables_map, of "\<lambda>xs. xs ! k"] by simp
qed

text \<open>The number that four bytes stand for, and its digits.\<close>

definition quad :: "byte \<Rightarrow> byte \<Rightarrow> byte \<Rightarrow> byte \<Rightarrow> nat" where
  "quad a b c d = ((unat a * 256 + unat b) * 256 + unat c) * 256 + unat d"

lemma byte_as_nat: "unat (b :: byte) < 256"
  using unsigned_less [of b] by simp

lemma quad_less: "quad a b c d < 2 ^ 32"
  using byte_as_nat [of a] byte_as_nat [of b] byte_as_nat [of c] byte_as_nat [of d] by (simp add: quad_def)

lemma quad_bytes: "map of_nat (digits 256 (256 * 256 * 256) (quad a b c d)) = [a, b, c, d]"
proof -
  let ?v = "quad a b c d"
  have m: "(x * 256 + unat (y :: byte)) div 256 = x" "(x * 256 + unat y) mod 256 = unat y" for x y
    using byte_as_nat [of y] by simp_all
  have e: "?v div 256 = (unat a * 256 + unat b) * 256 + unat c" "?v mod 256 = unat d"
    unfolding quad_def by (simp_all only: m)
  have "?v div 65536 = ?v div 256 div 256" "?v div 16777216 = ?v div 256 div 256 div 256"
    by (simp_all flip: div_mult2_eq)
  then have "?v div 16777216 mod 256 = unat a" "?v div 65536 mod 256 = unat b" "?v div 256 mod 256 = unat c"
    using byte_as_nat [of a] by (simp_all only: e m mod_less)
  then show ?thesis using e(2) unfolding digits_256 by simp
qed

lemma base85:
  fixes v :: nat
  assumes "v < 2 ^ 32"
  shows "(((v div 52200625 mod 85 * 85 + v div 614125 mod 85) * 85 + v div 7225 mod 85) * 85 + v div 85 mod 85) * 85 + v mod 85 = v"
proof -
  have "v div 52200625 = v div 614125 div 85" "v div 614125 = v div 7225 div 85" "v div 7225 = v div 85 div 85"
    by (simp_all flip: div_mult2_eq)
  moreover have "v div 52200625 mod 85 = v div 52200625" using assms by (intro mod_less) (simp add: div_less_iff_less_mult)
  ultimately show ?thesis by (metis div_mult_mod_eq)
qed

text \<open>Counters below 2^32 count.\<close>

lemma u32_of_nat: "n < 2 ^ 32 \<Longrightarrow> unat (of_nat n :: u32) = n"
  by (simp add: unsigned_of_nat take_bit_nat_eq_self)

lemma z85_put_ok:
  "length dpre + length xs < 2 ^ 32 \<Longrightarrow> length xs \<le> length dsuf \<Longrightarrow>
   z85_put xs (of_nat (length dpre)) (dpre @ dsuf) = Some (of_nat (length (dpre @ xs)), dpre @ xs @ drop (length xs) dsuf)"
proof (induction xs arbitrary: dpre dsuf)
  case (Cons x xs)
  obtain y ys where d: "dsuf = y # ys" using Cons.prems(2) by (cases dsuf) auto
  have u: "unat (of_nat (length dpre) :: u32) = length dpre" by (rule u32_of_nat) (use Cons.prems(1) in simp)
  have "z85_put (x # xs) (of_nat (length dpre)) (dpre @ dsuf) = z85_put xs (of_nat (length (dpre @ [x]))) ((dpre @ [x]) @ ys)"
    by (simp add: u d add.commute)
  also have "\<dots> = Some (of_nat (length ((dpre @ [x]) @ xs)), (dpre @ [x]) @ xs @ drop (length xs) ys)"
    by (rule Cons.IH) (use Cons.prems d in simp_all)
  finally show ?case by (simp add: d)
qed simp

lemma encode_step:
  assumes "v * 256 + unat b < 2 ^ 32" "length (pre @ b # data) < 2 ^ 32"
  shows "length (pre @ [b]) mod 4 \<noteq> 0 \<Longrightarrow> z85_encode_loop (pre @ b # data) (of_nat (length pre)) cn v dest =
      z85_encode_loop ((pre @ [b]) @ data) (of_nat (length (pre @ [b]))) cn (v * 256 + unat b) dest"
    and "length (pre @ [b]) mod 4 = 0 \<Longrightarrow> z85_encode_loop (pre @ b # data) (of_nat (length pre)) cn v dest =
      do { (cn, dest) \<leftarrow> z85_put (map (\<lambda>k. z85_encoder ! k) (digits 85 (85 * 85 * 85 * 85) (v * 256 + unat b))) cn dest;
           z85_encode_loop ((pre @ [b]) @ data) (of_nat (length (pre @ [b]))) cn 0 dest }"
proof -
  have u: "unat (of_nat (length pre) :: u32) = length pre" by (rule u32_of_nat) (use assms(2) in simp)
  have u1: "unat (of_nat (length (pre @ [b])) :: u32) = length (pre @ [b])" by (rule u32_of_nat) (use assms(2) in simp)
  have s: "of_nat (length pre) + 1 = (of_nat (length (pre @ [b])) :: u32)" by (simp add: add.commute)
  have at: "(pre @ b # data) ! length pre = b" "length pre < length (pre @ b # data)" "(pre @ [b]) @ data = pre @ b # data" by simp_all
  note unf = z85_encode_loop.simps [of "pre @ b # data" "of_nat (length pre)" cn v dest, unfolded u at(1) s u1 Let_def mod_less [OF assms(1)]]
  show "length (pre @ [b]) mod 4 \<noteq> 0 \<Longrightarrow> z85_encode_loop (pre @ b # data) (of_nat (length pre)) cn v dest =
      z85_encode_loop ((pre @ [b]) @ data) (of_nat (length (pre @ [b]))) cn (v * 256 + unat b) dest"
    unfolding at(3) using unf at(2) by simp
  show "length (pre @ [b]) mod 4 = 0 \<Longrightarrow> z85_encode_loop (pre @ b # data) (of_nat (length pre)) cn v dest =
      do { (cn, dest) \<leftarrow> z85_put (map (\<lambda>k. z85_encoder ! k) (digits 85 (85 * 85 * 85 * 85) (v * 256 + unat b))) cn dest;
           z85_encode_loop ((pre @ [b]) @ data) (of_nat (length (pre @ [b]))) cn 0 dest }"
    unfolding at(3) using unf at(2) by simp
qed

lemma encode_quad:
  fixes a b c d :: byte
  defines "cs \<equiv> map (\<lambda>k. z85_encoder ! k) (digits 85 (85 * 85 * 85 * 85) (quad a b c d))"
  assumes "length pre mod 4 = 0" "length (pre @ a # b # c # d # data) < 2 ^ 32"
    "length dpre + 5 < 2 ^ 32" "5 \<le> length dsuf"
  shows "z85_encode_loop (pre @ a # b # c # d # data) (of_nat (length pre)) (of_nat (length dpre)) 0 (dpre @ dsuf) =
     z85_encode_loop ((pre @ [a, b, c, d]) @ data) (of_nat (length (pre @ [a, b, c, d]))) (of_nat (length (dpre @ cs))) 0
       ((dpre @ cs) @ drop 5 dsuf)"
proof -
  have n: "length (pre @ [a]) mod 4 \<noteq> 0" "length ((pre @ [a]) @ [b]) mod 4 \<noteq> 0" "length (((pre @ [a]) @ [b]) @ [c]) mod 4 \<noteq> 0"
    "length ((((pre @ [a]) @ [b]) @ [c]) @ [d]) mod 4 = 0" using assms(2) by (simp; presburger)+
  note l = byte_as_nat [of a] byte_as_nat [of b] byte_as_nat [of c] byte_as_nat [of d]
  let ?e = "z85_encode_loop" and ?k = "of_nat (length dpre)" and ?dest = "dpre @ dsuf"
  let ?x = "0 * 256 + unat a" and ?y = "(0 * 256 + unat a) * 256 + unat b"
  let ?p = "pre @ [a]" and ?q = "(pre @ [a]) @ [b]" and ?r = "((pre @ [a]) @ [b]) @ [c]"
  have len: "length cs = 5" unfolding cs_def digits_85 by simp
  have put: "z85_put cs ?k ?dest = Some (of_nat (length (dpre @ cs)), (dpre @ cs) @ drop 5 dsuf)"
    using z85_put_ok [of dpre cs dsuf] assms(4,5) len by simp
  have "?e (pre @ a # b # c # d # data) (of_nat (length pre)) ?k 0 ?dest = ?e (?p @ b # c # d # data) (of_nat (length ?p)) ?k ?x ?dest"
    by (rule encode_step(1)) (use l in simp, rule assms(3), rule n)
  also have "\<dots> = ?e (?q @ c # d # data) (of_nat (length ?q)) ?k ?y ?dest"
    by (rule encode_step(1)) (use l in simp, use assms(3) in simp, rule n)
  also have "\<dots> = ?e (?r @ d # data) (of_nat (length ?r)) ?k (?y * 256 + unat c) ?dest"
    by (rule encode_step(1)) (use l in simp, use assms(3) in simp, rule n)
  also have "\<dots> = do { (cn, dest) \<leftarrow> z85_put (map (\<lambda>k. z85_encoder ! k) (digits 85 (85 * 85 * 85 * 85) ((?y * 256 + unat c) * 256 + unat d))) ?k ?dest;
           ?e ((?r @ [d]) @ data) (of_nat (length (?r @ [d]))) cn 0 dest }"
    by (rule encode_step(2)) (use l in simp, use assms(3) in simp, rule n)
  also have "(?y * 256 + unat c) * 256 + unat d = quad a b c d" by (simp add: quad_def)
  finally show ?thesis unfolding cs_def [symmetric] put by simp
qed

lemma decode_step:
  assumes "k < 85" "v * 85 + k < 2 ^ 32" "length (pre @ z85_encoder ! k # s) < 2 ^ 32" "len = of_nat (length (pre @ z85_encoder ! k # s))"
  shows "length (pre @ [z85_encoder ! k]) mod 5 \<noteq> 0 \<Longrightarrow> z85_decode_loop (pre @ z85_encoder ! k # s) len (of_nat (length pre)) bn v dest =
      z85_decode_loop ((pre @ [z85_encoder ! k]) @ s) len (of_nat (length (pre @ [z85_encoder ! k]))) bn (v * 85 + k) dest"
    and "length (pre @ [z85_encoder ! k]) mod 5 = 0 \<Longrightarrow> z85_decode_loop (pre @ z85_encoder ! k # s) len (of_nat (length pre)) bn v dest =
      do { (bn, dest) \<leftarrow> z85_put (map of_nat (digits 256 (256 * 256 * 256) (v * 85 + k))) bn dest;
           z85_decode_loop ((pre @ [z85_encoder ! k]) @ s) len (of_nat (length (pre @ [z85_encoder ! k]))) bn 0 dest }"
proof -
  let ?c = "z85_encoder ! k"
  have u: "unat (of_nat (length pre) :: u32) = length pre" by (rule u32_of_nat) (use assms(3) in simp)
  have u1: "unat (of_nat (length (pre @ [?c])) :: u32) = length (pre @ [?c])" by (rule u32_of_nat) (use assms(3) in simp)
  have "unat len = length (pre @ ?c # s)" unfolding assms(4) by (rule u32_of_nat [OF assms(3)])
  then have lt: "of_nat (length pre) < len" by (simp add: word_less_nat_alt u)
  have t: "of_nat (length pre) + 1 = (of_nat (length (pre @ [?c])) :: u32)" by (simp add: add.commute)
  have at: "(pre @ ?c # s) ! length pre = ?c" "(pre @ [?c]) @ s = pre @ ?c # s" by simp_all
  note unf = z85_decode_loop.simps [of "pre @ ?c # s" len "of_nat (length pre)" bn v dest,
      unfolded u at(1) t u1 z85_tables [OF assms(1)] bind.bind_lunit Let_def mod_less [OF assms(2)]]
  show "length (pre @ [?c]) mod 5 \<noteq> 0 \<Longrightarrow> z85_decode_loop (pre @ ?c # s) len (of_nat (length pre)) bn v dest =
      z85_decode_loop ((pre @ [?c]) @ s) len (of_nat (length (pre @ [?c]))) bn (v * 85 + k) dest"
    unfolding at(2) using unf lt by simp
  show "length (pre @ [?c]) mod 5 = 0 \<Longrightarrow> z85_decode_loop (pre @ ?c # s) len (of_nat (length pre)) bn v dest =
      do { (bn, dest) \<leftarrow> z85_put (map of_nat (digits 256 (256 * 256 * 256) (v * 85 + k))) bn dest;
           z85_decode_loop ((pre @ [?c]) @ s) len (of_nat (length (pre @ [?c]))) bn 0 dest }"
    unfolding at(2) using unf lt by simp
qed

lemma decode_five:
  fixes v :: nat
  defines "cs \<equiv> map (\<lambda>k. z85_encoder ! k) (digits 85 (85 * 85 * 85 * 85) v)"
    and "bs \<equiv> (map of_nat (digits 256 (256 * 256 * 256) v) :: byte list)"
  assumes "length pre mod 5 = 0" "v < 2 ^ 32" "length (pre @ cs @ s) < 2 ^ 32" "len = of_nat (length (pre @ cs @ s))"
    "length dpre + 4 < 2 ^ 32" "4 \<le> length dsuf"
  shows "z85_decode_loop (pre @ cs @ s) len (of_nat (length pre)) (of_nat (length dpre)) 0 (dpre @ dsuf) =
    z85_decode_loop ((pre @ cs) @ s) len (of_nat (length (pre @ cs))) (of_nat (length (dpre @ bs))) 0 ((dpre @ bs) @ drop 4 dsuf)"
proof -
  define e d c b a where "e = v div 52200625 mod 85" and "d = v div 614125 mod 85" and "c = v div 7225 mod 85"
    and "b = v div 85 mod 85" and "a = v mod 85"
  have l: "e < 85" "d < 85" "c < 85" "b < 85" "a < 85" by (simp_all add: e_def d_def c_def b_def a_def)
  let ?z = "\<lambda>k. z85_encoder ! k"
  have cs: "cs = [?z e, ?z d, ?z c, ?z b, ?z a]" unfolding cs_def digits_85 by (simp add: e_def d_def c_def b_def a_def)
  have v: "((((0 * 85 + e) * 85 + d) * 85 + c) * 85 + b) * 85 + a = v"
    using base85 [OF assms(4)] by (simp add: e_def d_def c_def b_def a_def)
  let ?p1 = "pre @ [?z e]" let ?p2 = "?p1 @ [?z d]" let ?p3 = "?p2 @ [?z c]" let ?p4 = "?p3 @ [?z b]" let ?p5 = "?p4 @ [?z a]"
  have n: "length ?p1 mod 5 \<noteq> 0" "length ?p2 mod 5 \<noteq> 0" "length ?p3 mod 5 \<noteq> 0" "length ?p4 mod 5 \<noteq> 0" "length ?p5 mod 5 = 0"
    using assms(3) by (simp; presburger)+
  have big: "length (pre @ ?z e # ?z d # ?z c # ?z b # ?z a # s) < 2 ^ 32" "len = of_nat (length (pre @ ?z e # ?z d # ?z c # ?z b # ?z a # s))"
    using assms(5,6) unfolding cs by simp_all
  let ?f = "z85_decode_loop" and ?k = "of_nat (length dpre)" and ?dest = "dpre @ dsuf"
  have "length bs = 4" unfolding bs_def digits_256 by simp
  then have put: "z85_put bs ?k ?dest = Some (of_nat (length (dpre @ bs)), (dpre @ bs) @ drop 4 dsuf)"
    using z85_put_ok [of dpre bs dsuf] assms(7,8) by simp
  have "?f (pre @ ?z e # ?z d # ?z c # ?z b # ?z a # s) len (of_nat (length pre)) ?k 0 ?dest =
      ?f (?p1 @ ?z d # ?z c # ?z b # ?z a # s) len (of_nat (length ?p1)) ?k (0 * 85 + e) ?dest"
    by (rule decode_step(1)) (rule l, use l in simp, rule big, rule big, rule n)
  also have "\<dots> = ?f (?p2 @ ?z c # ?z b # ?z a # s) len (of_nat (length ?p2)) ?k ((0 * 85 + e) * 85 + d) ?dest"
    by (rule decode_step(1)) (rule l, use l in simp, use big in simp, use big in simp, rule n)
  also have "\<dots> = ?f (?p3 @ ?z b # ?z a # s) len (of_nat (length ?p3)) ?k (((0 * 85 + e) * 85 + d) * 85 + c) ?dest"
    by (rule decode_step(1)) (rule l, use l in simp, use big in simp, use big in simp, rule n)
  also have "\<dots> = ?f (?p4 @ ?z a # s) len (of_nat (length ?p4)) ?k ((((0 * 85 + e) * 85 + d) * 85 + c) * 85 + b) ?dest"
    by (rule decode_step(1)) (rule l, use l in simp, use big in simp, use big in simp, rule n)
  also have "\<dots> = do { (bn, dest) \<leftarrow> z85_put (map of_nat (digits 256 (256 * 256 * 256) (((((0 * 85 + e) * 85 + d) * 85 + c) * 85 + b) * 85 + a))) ?k ?dest;
           ?f (?p5 @ s) len (of_nat (length ?p5)) bn 0 dest }"
    by (rule decode_step(2)) (rule l, use v assms(4) in simp, use big in simp, use big in simp, rule n)
  finally show ?thesis unfolding v bs_def [symmetric] put cs by simp
qed

fun quads :: "byte list \<Rightarrow> bool" where
  "quads [] \<longleftrightarrow> True"
| "quads (a # b # c # d # data) \<longleftrightarrow> quads data"
| "quads _ \<longleftrightarrow> False"

lemma quads_iff: "quads data \<longleftrightarrow> length data mod 4 = 0"
  by (induction data rule: quads.induct) auto

text \<open>What the loops should compute, group by group.\<close>

fun z85_text :: "byte list \<Rightarrow> string" where
  "z85_text (a # b # c # d # data) = map (\<lambda>k. z85_encoder ! k) (digits 85 (85 * 85 * 85 * 85) (quad a b c d)) @ z85_text data"
| "z85_text _ = []"

lemma z85_text_length: "quads data \<Longrightarrow> length (z85_text data) = length data * 5 div 4 \<and> length (z85_text data) * 4 = length data * 5"
  by (induction data rule: quads.induct) (simp_all add: digits_85_num)

lemma z85_text_no_nul: "CHR 0x00 \<notin> set (z85_text data)"
proof -
  have "length z85_encoder = 85" "CHR 0x00 \<notin> set z85_encoder" by (simp_all add: z85_encoder_def)
  then have nz: "CHR 0x00 \<noteq> z85_encoder ! (k mod 85)" for k by (metis mod_less_divisor nth_mem zero_less_numeral)
  show ?thesis by (induction data rule: z85_text.induct) (simp_all add: digits_85_num nz)
qed

lemma encode_text:
  "quads data \<Longrightarrow> length pre mod 4 = 0 \<Longrightarrow> length (pre @ data) < 2 ^ 32 \<Longrightarrow> length (dpre @ z85_text data) < 2 ^ 32 \<Longrightarrow>
   length (z85_text data) \<le> length dsuf \<Longrightarrow>
   z85_encode_loop (pre @ data) (of_nat (length pre)) (of_nat (length dpre)) 0 (dpre @ dsuf) =
     Some (of_nat (length (dpre @ z85_text data)), dpre @ z85_text data @ drop (length (z85_text data)) dsuf)"
proof (induction data arbitrary: pre dpre dsuf rule: quads.induct)
  case 1
  have "unat (of_nat (length pre) :: u32) = length pre" by (rule u32_of_nat) (use "1.prems"(3) in simp)
  then show ?case by (subst z85_encode_loop.simps) simp
next
  case (2 a b c d data)
  let ?cs = "map (\<lambda>k. z85_encoder ! k) (digits 85 (85 * 85 * 85 * 85) (quad a b c d))"
  have len: "length ?cs = 5" unfolding digits_85 by simp
  have "z85_encode_loop (pre @ a # b # c # d # data) (of_nat (length pre)) (of_nat (length dpre)) 0 (dpre @ dsuf) =
     z85_encode_loop ((pre @ [a, b, c, d]) @ data) (of_nat (length (pre @ [a, b, c, d]))) (of_nat (length (dpre @ ?cs))) 0
       ((dpre @ ?cs) @ drop 5 dsuf)"
    by (rule encode_quad) (use "2.prems" len in simp_all)
  also have "\<dots> = Some (of_nat (length ((dpre @ ?cs) @ z85_text data)), (dpre @ ?cs) @ z85_text data @ drop (length (z85_text data)) (drop 5 dsuf))"
    by (rule "2.IH") (use "2.prems" len in simp_all)
  finally show ?case using len by (simp add: add.commute)
qed simp_all

lemma decode_text:
  "quads data \<Longrightarrow> length pre mod 5 = 0 \<Longrightarrow> length (pre @ z85_text data) < 2 ^ 32 \<Longrightarrow> len = of_nat (length (pre @ z85_text data)) \<Longrightarrow>
   length (dpre @ data) < 2 ^ 32 \<Longrightarrow> length data \<le> length dsuf \<Longrightarrow>
   z85_decode_loop (pre @ z85_text data) len (of_nat (length pre)) (of_nat (length dpre)) 0 (dpre @ dsuf) =
     Some (of_nat (length (dpre @ data)), dpre @ data @ drop (length data) dsuf)"
proof (induction data arbitrary: pre dpre dsuf rule: quads.induct)
  case 1
  then show ?case by (subst z85_decode_loop.simps) simp
next
  case (2 a b c d data)
  let ?cs = "map (\<lambda>k. z85_encoder ! k) (digits 85 (85 * 85 * 85 * 85) (quad a b c d))"
  let ?bs = "map of_nat (digits 256 (256 * 256 * 256) (quad a b c d)) :: byte list"
  have len: "length ?cs = 5" unfolding digits_85 by simp
  have "z85_decode_loop (pre @ ?cs @ z85_text data) len (of_nat (length pre)) (of_nat (length dpre)) 0 (dpre @ dsuf) =
    z85_decode_loop ((pre @ ?cs) @ z85_text data) len (of_nat (length (pre @ ?cs))) (of_nat (length (dpre @ ?bs))) 0 ((dpre @ ?bs) @ drop 4 dsuf)"
    by (rule decode_five) (use "2.prems" quad_less in simp_all)
  also have "\<dots> = Some (of_nat (length ((dpre @ ?bs) @ data)), (dpre @ ?bs) @ data @ drop (length data) (drop 4 dsuf))"
    unfolding quad_bytes by (rule "2.IH") (use "2.prems" len in simp_all)
  also have "drop (length data) (drop 4 dsuf) = drop (length (a # b # c # d # data)) dsuf" by (simp add: eval_nat_numeral)
  finally show ?case unfolding quad_bytes by (simp add: add.commute)
qed simp_all

text \<open>The string in a buffer.\<close>

definition c_string :: "string \<Rightarrow> string" where "c_string dest = takeWhile (\<lambda>c. c \<noteq> CHR 0x00) dest"

lemma z85_encode_ok:
  assumes "quads data" "length data * 5 div 4 < 2 ^ 32" "length data * 5 div 4 < length dest"
  shows "\<exists>dest'. zmq_z85_encode dest data = Some (Inr dest') \<and> c_string dest' = z85_text data \<and> length dest' = length dest"
proof -
  note t = z85_text_length [OF assms(1)]
  let ?s = "z85_text data" and ?n = "length data * 5 div 4"
  have "length data * 5 < 4 * 2 ^ 32" using assms(2) by (simp add: div_less_iff_less_mult)
  then have small: "length data < 2 ^ 32" "length data * 5 < 2 ^ 64" by simp_all
  have e: "z85_encode_loop data 0 0 0 dest = Some (of_nat ?n, ?s @ drop ?n dest)"
    using encode_text [OF assms(1), of "[]" "[]" dest] small(1) assms(2,3) t by simp
  obtain x rest where r: "drop ?n dest = x # rest" using assms(3) by (metis Cons_nth_drop_Suc)
  have u: "unat (of_nat ?n :: u32) = ?n" by (rule u32_of_nat [OF assms(2)])
  have put: "z85_put [CHR 0x00] (of_nat ?n) (?s @ drop ?n dest) = Some (of_nat ?n + 1, ?s @ CHR 0x00 # rest)"
    using u t r by (simp add: list_update_append)
  have "zmq_z85_encode dest data = Some (Inr (?s @ CHR 0x00 # rest))"
    using assms(1) small(2) e u unfolding zmq_z85_encode_def quads_iff by (simp add: put del: z85_put.simps)
  moreover have "c_string (?s @ CHR 0x00 # rest) = ?s"
    unfolding c_string_def by (subst takeWhile_append2) (use z85_text_no_nul [of data] in auto)
  moreover have "length (?s @ CHR 0x00 # rest) = length dest"
    using arg_cong [OF r, of length] t assms(3) by simp
  ultimately show ?thesis by blast
qed

lemma z85_decode_ok:
  assumes "quads data" "length data * 5 div 4 < 2 ^ 32" "length data \<le> length dest"
  shows "zmq_z85_decode dest (z85_text data) = Some (Inr (data @ drop (length data) dest))"
proof -
  note t = z85_text_length [OF assms(1)]
  have "length data * 5 < 4 * 2 ^ 32" using assms(2) by (simp add: div_less_iff_less_mult)
  then have small: "length data < 2 ^ 32" "length (z85_text data) * 4 < 2 ^ 64" using t by simp_all
  have "z85_decode_loop (z85_text data) (of_nat (length (z85_text data))) 0 0 0 dest = Some (of_nat (length data), data @ drop (length data) dest)"
    using decode_text [OF assms(1), of "[]" "of_nat (length (z85_text data))" "[]" dest] small(1) assms(2,3) t by simp
  moreover have "length (z85_text data) mod 5 = 0" using t by presburger
  moreover have "length (z85_text data) * 4 div 5 = length data" using arg_cong [OF conjunct2 [OF t], of "\<lambda>n. n div 5"] by simp
  ultimately show ?thesis using small(2) u32_of_nat [OF small(1)] by (simp add: zmq_z85_decode_def)
qed

text \<open>The assertion at the end of the encoder compares a counter of 32 bits.\<close>

lemma encode_too_long:
  assumes "length data mod 4 = 0" "2 ^ 32 \<le> length data * 5 div 4" "length data * 5 < 2 ^ 64"
  shows "zmq_z85_encode dest data = None"
proof -
  have "unat n \<noteq> length data * 5 mod 2 ^ 64 div 4" for n :: u32
    using assms(2,3) unsigned_less [of n, where ?'a = nat] by simp
  then show ?thesis using assms(1) by (auto simp: zmq_z85_encode_def zmq_assert_def split: Option.bind_split)
qed

text \<open>C22: Z85 round trip, for a frame and buffers of the documented sizes. A frame whose length is not a multiple of 4 is refused with
  EINVAL. Otherwise, if the encoded length fits in 32 bits, the encoder returns a string of 5/4 the length of the frame, and decoding that string
  puts the frame back at the beginning of the second buffer and leaves the rest of it alone. For a longer frame (from 3435973840
  bytes on) the encoder does not return: its counters are 32 bits wide.\<close>

theorem z85_roundtrip:
  assumes "length data * 5 div 4 < length dest" "length data \<le> length dest2" "length data * 5 < 2 ^ 64"
  shows "if length data mod 4 \<noteq> 0 then zmq_z85_encode dest data = Some (Inl EINVAL)
    else if length data * 5 div 4 < 2 ^ 32
    then \<exists>dest'. zmq_z85_encode dest data = Some (Inr dest') \<and> length dest' = length dest \<and>
      length (c_string dest') = length data * 5 div 4 \<and>
      zmq_z85_decode dest2 (c_string dest') = Some (Inr (data @ drop (length data) dest2))
    else zmq_z85_encode dest data = None"
proof -
  consider "length data mod 4 \<noteq> 0" | "quads data" "length data * 5 div 4 < 2 ^ 32" | "quads data" "2 ^ 32 \<le> length data * 5 div 4"
    unfolding quads_iff by linarith
  then show ?thesis
  proof cases
    case 1
    then show ?thesis by (simp add: zmq_z85_encode_def)
  next
    case 2
    then have "length data mod 4 = 0" by (simp add: quads_iff)
    then show ?thesis using z85_encode_ok [OF 2 assms(1)] z85_decode_ok [OF 2 assms(2)] z85_text_length [OF 2(1)] 2(2) by auto
  next
    case 3
    then have "length data mod 4 = 0" by (simp add: quads_iff)
    then show ?thesis using encode_too_long [of data dest] 3(2) assms(3) by auto
  qed
qed

theorem z85_roundtrip_witness:
  "\<exists>dest'. zmq_z85_encode (replicate 11 CHR ''x'') [0x86, 0x4F, 0xD2, 0x6F, 0xB5, 0x59, 0xF7, 0x5B] = Some (Inr dest') \<and>
     length (c_string dest') = 10 \<and>
     zmq_z85_decode [1, 2, 3, 4, 5, 6, 7, 8, 9] (c_string dest') = Some (Inr [0x86, 0x4F, 0xD2, 0x6F, 0xB5, 0x59, 0xF7, 0x5B, 9])"
  using z85_roundtrip [of "[0x86, 0x4F, 0xD2, 0x6F, 0xB5, 0x59, 0xF7, 0x5B]" "replicate 11 CHR ''x''" "[1, 2, 3, 4, 5, 6, 7, 8, 9]"]
  by auto

lemma z85_values:
  "z85_value CHR '','' = Some 0" "z85_value CHR ''0'' = Some 0" "z85_value CHR ''1'' = Some 1" "z85_value CHR ''2'' = Some 2"
  "z85_value CHR ''%'' = Some 82" "z85_value CHR ''n'' = Some 23" "z85_value CHR ''S'' = Some 54" "z85_value CHR ''c'' = Some 12"
  "z85_value CHR 0x80 = None"
  by (simp_all add: z85_value_def z85_decoder_def)

lemma put_four: "z85_put [a, b, c, d] 0 [w, x, y, z] = Some (4, [a, b, c, d])"
  by simp

lemma digits_small: "digits 256 16777216 0 = [0, 0, 0, 0]" "digits 256 16777216 (Suc 0) = [0, 0, 0, 1]"
  using digits_256 [of 0] digits_256 [of 1] by simp_all

lemma decode_end: "z85_decode_loop s 5 5 n v dest = Some (n, dest)"
  by (subst z85_decode_loop.simps) simp

lemmas decode_at = z85_decode_loop.simps [of _ _ 0] z85_decode_loop.simps [of _ _ 1] z85_decode_loop.simps [of _ _ 2]
  z85_decode_loop.simps [of _ _ 3] z85_decode_loop.simps [of _ _ 4] decode_end

text \<open>The decoder does not validate its input: a character that belongs to no digit counts as 0, a group
  above 2^32 wraps around, and a character outside of the table is looked up beyond its end.\<close>

theorem z85_decode_unchecked:
  "zmq_z85_decode [0, 0, 0, 0] '',,,,,'' = zmq_z85_decode [0, 0, 0, 0] ''00000'' \<and>
   zmq_z85_decode [0, 0, 0, 0] ''%nSc2'' = zmq_z85_decode [0, 0, 0, 0] ''00001'' \<and>
   zmq_z85_decode [0, 0, 0, 0] [CHR 0x80, CHR ''0'', CHR ''0'', CHR ''0'', CHR ''0''] = None"
  by (intro conjI) (simp_all add: zmq_z85_decode_def decode_at z85_values Let_def digits_small put_four del: z85_put.simps)

end
