(* ===== verification/Spec2Isabelle.thy ===== *)
theory Spec2Isabelle
  imports Conflate Mtrie Engine Watermark Dist Reqsend Routing Subfilter Subscribe Handshake Reconnect Own Z85
begin

text \<open>
  A model of the core of ZeroMQ (src/libzmq/src, C++) and of its correctness.

  \<^bold>\<open>The program.\<close> An application thread owns sockets; I/O threads own sessions and engines. A socket and a
  session are connected by a \<open>pipe_t\<close> pair: two ends, each with an inbound and an outbound lock-free queue
  (\<open>ypipe_t\<close> over \<open>yqueue_t\<close>, or a conflating one over \<open>dbuffer_t\<close>) and a few commands
  sent through the mailboxes of the threads. A socket type combines its pipes with fair queueing (\<open>fq_t\<close>),
  load balancing (\<open>lb_t\<close>) or distribution (\<open>dist_t\<close>), and with subscription tries. An engine turns
  messages into a byte stream and back with an encoder and a decoder of the ZMTP framing.

  \<^bold>\<open>Conventions.\<close> A failed \<open>zmq_assert\<close>, a NULL or dangling pointer, an index out of range and any other
  undefined behaviour is the value \<open>None\<close>; a theorem that says \<open>\<exists>y. f x = Some y\<close> therefore also says that the
  code neither aborts nor hangs. Loops that are not structurally recursive are \<open>partial_function (option)\<close> and proved to
  return. Only \<open>free_chain\<close>, the loop of the destructor of a chunked queue, has fuel, the number of cells of the heap; the theorem on
  destruction shows that it is enough. Heap objects live in an explicit store (theory \<open>Prelude\<close>) wherever
  the code shares or frees them. \<open>errno\<close> values are results. \<open>size_t\<close> and counters are machine
  words where they can wrap and natural numbers where the number of objects in memory bounds them.

  \<^bold>\<open>Theories, from the bottom up.\<close>

  \<^item> \<open>Prelude\<close>: machine types, the assertion macro, heaps with their laws (locale \<open>heap_laws\<close>), list lemmas.
  \<^item> \<open>Yqueue\<close> (yqueue.hpp): chunks as heap objects with links. Push, pop, unpush, destruction; nothing leaks and
    nothing is freed twice.
  \<^item> \<open>Ypipe\<close> (ypipe.hpp, atomic_ptr.hpp): the lock-free pipe. It simulates a specification (\<open>pspec\<close>)
    with flushed, pending and partial items; under every interleaving of a writer and a reader it is a
    FIFO of complete messages that never misses a wake-up.
  \<^item> \<open>Msg\<close> (msg.cpp, metadata.cpp, atomic_counter.hpp): messages with shared contents, reference counts and
    metadata.
  \<^item> \<open>Conflate\<close> (dbuffer.hpp, ypipe_conflate.hpp): the conflating pipe is a cell that keeps the last message.
  \<^item> \<open>Chartab\<close>, \<open>Trie\<close>, \<open>Mtrie\<close> (trie.cpp, mtrie.cpp): the subscription tries with their growing and shrinking
    tables implement multisets of topics and maps from topics to sets of peers.
  \<^item> \<open>Wire\<close>, \<open>Codec\<close> (wire.hpp, decoder.hpp, encoder.hpp, v1 and v2 codecs, raw codec): framing, independent
    of how the stream is cut.
  \<^item> \<open>Engine\<close> (stream_engine.cpp): the output and input loops; a connection delivers the messages in
    order, for both framings.
  \<^item> \<open>Pipe\<close>, \<open>Pipepair\<close>, \<open>Watermark\<close> (pipe.cpp, object.cpp): every operation and command handler of a pipe end; the two
    ends under arbitrary interleaving are safe, the termination handshake completes; the watermarks.
  \<^item> \<open>Array\<close>, \<open>Pool\<close>, \<open>Roundrobin\<close>, \<open>Fq\<close>, \<open>Lb\<close>, \<open>Dist\<close> (array.hpp, fq.cpp, lb.cpp, dist.cpp): the sets of pipes
    of a socket. A pool maps addresses to pipe ends of the socket with their channels; the contract
    between a pipe and the algorithms over pools is the locale \<open>gate\<close>, that of the array the locale \<open>item_array\<close>.
  \<^item> \<open>Dealer\<close>, \<open>Sync\<close>, \<open>Dealersys\<close> (push.cpp, pull.cpp, pair.cpp, dealer.cpp, the pipe events of socket_base.cpp): the socket
    types over one or two such sets. The locale \<open>switch\<close> says that an operation on a pipe and the
    bookkeeping of its queue move together; over every history of a DEALER socket the two agree.
  \<^item> \<open>Inbox\<close>, \<open>Req\<close>, \<open>Reqsend\<close> (req.cpp): what waits in the inbound queues of a socket, and the REQ socket. Its receive
    loops end, and return what a function on the list of waiting messages finds; two histories in which
    sending a request aborts.
  \<^item> \<open>Router\<close>, \<open>Routersys\<close>, \<open>Routing\<close> (router.cpp, rep.cpp): the ROUTER and REP sockets. The routing table agrees with the
    pipes over every history; routing by identity on every branch; an identity that collides, a reply
    that is lost.
  \<^item> \<open>Xsub\<close>, \<open>Subfilter\<close>, \<open>Xpub\<close>, \<open>Publish\<close>, \<open>Pubsys\<close>, \<open>Subscribe\<close> (xsub.cpp, sub.cpp, xpub.cpp, pub.cpp): the publish/subscribe
    sockets. A subscriber delivers exactly the messages that match, a publisher sends to the subscribers
    and to nobody else, the two sides agree on the subscriptions as long as the pipe between them has room (at its
    watermark subscriptions are dropped), and the state of a publisher is well-formed over
    every history; one option breaks the rule.
  \<^item> \<open>Mechanism\<close>, \<open>Plain\<close>, \<open>Handshake\<close>, \<open>Null\<close> (mechanism.cpp, plain_client.cpp, plain_server.cpp, null_mechanism.cpp, the ZAP
    functions of session_base.cpp): metadata survive the wire; no client gets past a PLAIN server or a NULL mechanism
    with a handler without its consent; the PLAIN handshake completes whatever the order of events.
  \<^item> \<open>Session\<close> (session_base.cpp, the session of req.cpp): the object between an engine and a socket. It ends once and in
    order, a lost connection leaves whole messages behind; three histories in which it aborts.
  \<^item> \<open>Reconnect\<close> (session_base.cpp, null_mechanism.cpp): a session with the NULL mechanisms of its engines, one after the other. The pipe to a
    ZAP handler outlives the engine, and the next mechanism aborts unless the handler has closed it.
  \<^item> \<open>Own\<close> (own.cpp): the ownership hierarchy. Objects are deallocated from the leaves to the root, nothing talks to one that
    is gone, the termination of the root ends all; a counter that wraps around prevents it.
  \<^item> \<open>Z85\<close> (zmq_utils.cpp): the text encoding of keys, with its 32 bit counters; what is encoded is decoded again, and frames that are too
    long for the counters make the encoder fail.

  \<^bold>\<open>Bounds.\<close> Arrays of pipes and the number of chunks are bounded only by memory. The index field of an array item
  is an \<open>int\<close>; arrays are assumed to hold fewer than 2^31 items. Message counters of pipes wrap
  at 2^64 as in the code. The histories of the ownership hierarchy have fewer than 2^32 numbered commands per object, and its
  counters of acknowledgements, an \<open>int\<close> each, are assumed not to overflow.

  \<^bold>\<open>Not modelled.\<close> Everything that only talks to the operating system (pollers, signaler, sockets, listeners,
  connecters, threads, clocks), the security mechanisms that are calls of libsodium or of the GSSAPI library, PGM, NORM and TIPC transports, the C API wrapper \<open>zmq.cpp\<close>, and the memory model below sequential consistency: the
  atomic operations of \<open>atomic_ptr_t\<close> and \<open>atomic_counter_t\<close> act on their value at once. The vendored
  libraries and the bindings beside libzmq are not part of the model.
\<close>

end
